(* ===== verification/Prelude.thy ===== *)
theory Prelude
  imports Main "HOL-Library.List_Lexorder" "HOL-Library.Char_ord" "HOL-Library.AList"
begin

text \<open>
  Shared vocabulary of the development: the JavaScript values the sources use (insertion-ordered
  maps, string methods, decimal text), the SQL statements the approval kernel and the grant store
  issue on their tables, the generic contracts of stateful components (event systems with an
  invariant, single-use tokens) as locales, and the list lemmas the components share.
\<close>

named_theorems js_simps \<open>characteristic equations of the JavaScript operations\<close>
named_theorems sql_simps \<open>characteristic equations of the SQL statements\<close>

section \<open>JavaScript strings\<close>

text \<open>
  A \<open>string\<close> is a list of characters with code points 0 to 255. \<open>String.prototype.trim\<close> removes
  white space and line terminators, which below 256 are TAB, LF, VT, FF, CR, SPACE and NBSP.
\<close>

definition js_space :: "char \<Rightarrow> bool" where
  "js_space c \<longleftrightarrow> of_char c \<in> {9, 10, 11, 12, 13, 32, 160 :: nat}"

definition js_trim :: "string \<Rightarrow> string" where
  "js_trim s = rev (dropWhile js_space (rev (dropWhile js_space s)))"

text \<open>
  \<open>String.prototype.normalize("NFC")\<close>: no code point below U+0300 takes part in a composition, so
  on the strings of this model normalisation is the identity.
\<close>

definition normalize_nfc :: "string \<Rightarrow> string" where
  "normalize_nfc s = s"

definition startsWith :: "string \<Rightarrow> string \<Rightarrow> bool" where
  "startsWith s p \<longleftrightarrow> take (length p) s = p"

definition endsWith :: "string \<Rightarrow> string \<Rightarrow> bool" where
  "endsWith s p \<longleftrightarrow> length p \<le> length s \<and> drop (length s - length p) s = p"

text \<open>\<open>s.indexOf(c)\<close> for a single character: \<open>None\<close> is the result -1.\<close>

fun indexOf_char :: "string \<Rightarrow> char \<Rightarrow> nat option" where
  "indexOf_char [] c = None"
| "indexOf_char (x # xs) c = (if x = c then Some 0 else map_option Suc (indexOf_char xs c))"

text \<open>\<open>Array.from(new Set(xs))\<close>: the first occurrence of each element, in insertion order.\<close>

fun js_unique :: "'a list \<Rightarrow> 'a list" where
  "js_unique [] = []"
| "js_unique (x # xs) = x # filter (\<lambda>y. y \<noteq> x) (js_unique xs)"

text \<open>Decimal text of a number, as \<open>String(n)\<close> prints an integer.\<close>

definition digit_char :: "nat \<Rightarrow> char" where
  "digit_char d = char_of (48 + d)"

fun show_nat :: "nat \<Rightarrow> string" where
  "show_nat n = (if n < 10 then [digit_char n] else show_nat (n div 10) @ [digit_char (n mod 10)])"

declare show_nat.simps [simp del]

definition show_int :: "int \<Rightarrow> string" where
  "show_int i = (if i < 0 then CHR ''-'' # show_nat (nat (- i)) else show_nat (nat i))"

definition is_digit :: "char \<Rightarrow> bool" where
  "is_digit c \<longleftrightarrow> 48 \<le> (of_char c :: nat) \<and> (of_char c :: nat) \<le> 57"

definition digit_val :: "char \<Rightarrow> nat" where
  "digit_val c = of_char c - 48"

text \<open>\<open>Number(s)\<close> on a text of decimal digits.\<close>

definition read_nat :: "string \<Rightarrow> nat" where
  "read_nat s = foldl (\<lambda>n c. 10 * n + digit_val c) 0 s"

definition all_digits :: "string \<Rightarrow> bool" where
  "all_digits s \<longleftrightarrow> s \<noteq> [] \<and> list_all is_digit s"

lemma set_js_unique [simp]: "set (js_unique xs) = set xs"
  by (induction xs) auto

lemma distinct_js_unique [simp]: "distinct (js_unique xs)"
  by (induction xs) auto

lemma startsWith_append [js_simps]: "startsWith (p @ s) p"
  by (simp add: startsWith_def)

lemma startsWith_iff: "startsWith s p \<longleftrightarrow> (\<exists>r. s = p @ r)"
  unfolding startsWith_def by (metis append_eq_conv_conj append_take_drop_id)

lemma endsWith_iff: "endsWith s p \<longleftrightarrow> (\<exists>r. s = r @ p)"
proof
  assume "endsWith s p"
  then have "s = take (length s - length p) s @ p"
    unfolding endsWith_def by (metis append_take_drop_id)
  then show "\<exists>r. s = r @ p" by blast
qed (auto simp: endsWith_def)

lemma indexOf_char_None [js_simps]: "indexOf_char s c = None \<longleftrightarrow> c \<notin> set s"
  by (induction s) auto

lemma indexOf_char_split:
  "indexOf_char s c = Some i \<longleftrightarrow> i < length s \<and> s ! i = c \<and> c \<notin> set (take i s)"
proof (induction s arbitrary: i)
  case Nil
  then show ?case by simp
next
  case (Cons x xs)
  show ?case
  proof (cases i)
    case 0
    then show ?thesis by auto
  next
    case (Suc j)
    then show ?thesis using Cons.IH [of j] by auto
  qed
qed

lemma indexOf_char_append [js_simps]:
  "c \<notin> set p \<Longrightarrow> indexOf_char (p @ c # s) c = Some (length p)"
  by (simp add: indexOf_char_split nth_append)

section \<open>SQL statements on a table\<close>

text \<open>
  A table is the list of its rows in \<open>rowid\<close> order. \<open>sql_get\<close> is a \<open>SELECT ... WHERE p\<close> read with
  \<open>.get()\<close>; \<open>sql_update\<close> and \<open>sql_changes\<close> are an \<open>UPDATE ... WHERE p\<close> and the \<open>changes\<close> count its
  result carries. An \<open>INSERT\<close> that repeats a primary key raises.
\<close>

datatype sql_error = UniqueViolation

definition sql_get :: "('r \<Rightarrow> bool) \<Rightarrow> 'r list \<Rightarrow> 'r option" where
  "sql_get p rows = find p rows"

definition sql_update :: "('r \<Rightarrow> bool) \<Rightarrow> ('r \<Rightarrow> 'r) \<Rightarrow> 'r list \<Rightarrow> 'r list" where
  "sql_update p f rows = map (\<lambda>r. if p r then f r else r) rows"

definition sql_changes :: "('r \<Rightarrow> bool) \<Rightarrow> 'r list \<Rightarrow> nat" where
  "sql_changes p rows = length (filter p rows)"

definition sql_insert :: "('r \<Rightarrow> 'k) \<Rightarrow> 'r \<Rightarrow> 'r list \<Rightarrow> sql_error + 'r list" where
  "sql_insert key r rows = (if key r \<in> key ` set rows then Inl UniqueViolation else Inr (rows @ [r]))"

lemma sql_get_None [sql_simps]: "sql_get p rows = None \<longleftrightarrow> (\<forall>r \<in> set rows. \<not> p r)"
  by (auto simp: sql_get_def find_None_iff)

lemma sql_get_SomeD: "sql_get p rows = Some r \<Longrightarrow> r \<in> set rows \<and> p r"
  by (auto simp: sql_get_def find_Some_iff)

lemma sql_get_append [sql_simps]:
  "sql_get p (xs @ ys) = (case sql_get p xs of Some r \<Rightarrow> Some r | None \<Rightarrow> sql_get p ys)"
  by (induction xs) (auto simp: sql_get_def)

lemma sql_get_Nil [sql_simps]: "sql_get p [] = None"
  by (simp add: sql_get_def)

lemma sql_get_single [sql_simps]: "sql_get p [r] = (if p r then Some r else None)"
  by (simp add: sql_get_def)

lemma set_sql_update [sql_simps]: "set (sql_update p f rows) = (\<lambda>r. if p r then f r else r) ` set rows"
  by (simp add: sql_update_def)

lemma sql_update_memD: "x \<in> set (sql_update p f rows) \<Longrightarrow> \<exists>r \<in> set rows. x = (if p r then f r else r)"
  by (auto simp: sql_update_def)

lemma map_key_sql_update [sql_simps]:
  "(\<And>r. p r \<Longrightarrow> key (f r) = key r) \<Longrightarrow> map key (sql_update p f rows) = map key rows"
  by (simp add: sql_update_def)

lemma sql_changes_0 [sql_simps]: "sql_changes p rows = 0 \<longleftrightarrow> (\<forall>r \<in> set rows. \<not> p r)"
  by (simp add: sql_changes_def filter_empty_conv)

lemma sql_changes_append [sql_simps]: "sql_changes p (xs @ ys) = sql_changes p xs + sql_changes p ys"
  by (simp add: sql_changes_def)

lemma length_sql_update [simp]: "length (sql_update p f rows) = length rows"
  by (simp add: sql_update_def)

lemma sql_insert_Inr [sql_simps]:
  "sql_insert key r rows = Inr rows' \<longleftrightarrow> key r \<notin> key ` set rows \<and> rows' = rows @ [r]"
  by (auto simp: sql_insert_def)

lemma sql_insert_Inl [sql_simps]:
  "sql_insert key r rows = Inl e \<longleftrightarrow> key r \<in> key ` set rows \<and> e = UniqueViolation"
  by (auto simp: sql_insert_def)

text \<open>With a key column, the row a query by key finds is the only one.\<close>

lemma sql_get_key_unique:
  assumes "distinct (map key rows)" and "r \<in> set rows"
  shows "sql_get (\<lambda>q. key q = key r) rows = Some r"
proof (cases "sql_get (\<lambda>q. key q = key r) rows")
  case None
  with assms(2) show ?thesis by (auto simp: sql_get_None)
next
  case (Some q)
  then have "q \<in> set rows" "key q = key r" by (auto dest: sql_get_SomeD)
  with assms have "q = r" by (metis distinct_map inj_onD)
  with Some show ?thesis by simp
qed

section \<open>Contracts of stateful components\<close>

text \<open>A run of a component: the events in order, each applied to the state the last one left.\<close>

fun run :: "('e \<Rightarrow> 's \<Rightarrow> 's) \<Rightarrow> 's \<Rightarrow> 'e list \<Rightarrow> 's" where
  "run step s [] = s"
| "run step s (e # es) = run step (step e s) es"

lemma run_append: "run step s (es @ fs) = run step (run step s es) fs"
  by (induction es arbitrary: s) auto

text \<open>How many events of a run are successful uses of a token.\<close>

fun win_count :: "('e \<Rightarrow> 's \<Rightarrow> 's) \<Rightarrow> ('e \<Rightarrow> 's \<Rightarrow> bool) \<Rightarrow> 's \<Rightarrow> 'e list \<Rightarrow> nat" where
  "win_count step wins s [] = 0"
| "win_count step wins s (e # es) =
     (if wins e s then 1 else 0) + win_count step wins (step e s) es"

lemma win_count_append:
  "win_count step wins s (es @ fs) = win_count step wins s es + win_count step wins (run step s es) fs"
  by (induction es arbitrary: s) simp_all

text \<open>A system restricted to the events an assumption about its environment admits.\<close>

definition restrict_step :: "('e \<Rightarrow> bool) \<Rightarrow> ('e \<Rightarrow> 's \<Rightarrow> 's) \<Rightarrow> 'e \<Rightarrow> 's \<Rightarrow> 's" where
  "restrict_step ok step e s = (if ok e then step e s else s)"

lemma run_restrict: "list_all ok es \<Longrightarrow> run (restrict_step ok step) s es = run step s es"
  by (induction es arbitrary: s) (auto simp: restrict_step_def)

lemma win_count_restrict:
  "list_all ok es \<Longrightarrow> win_count (restrict_step ok step) wins s es = win_count step wins s es"
  by (induction es arbitrary: s) (auto simp: restrict_step_def)

text \<open>The contract of a component that keeps an invariant: what every operation must keep.\<close>

locale event_system =
  fixes step :: "'e \<Rightarrow> 's \<Rightarrow> 's"
    and invar :: "'s \<Rightarrow> bool"
  assumes invar_step: "invar s \<Longrightarrow> invar (step e s)"
begin

lemma invar_run: "invar s \<Longrightarrow> invar (run step s es)"
  by (induction es arbitrary: s) (auto intro: invar_step)

end

text \<open>
  The contract of a kill switch: once the state is dead no operation revives it, and nothing
  succeeds in it.
\<close>

locale kill_switch = event_system step dead
  for step :: "'e \<Rightarrow> 's \<Rightarrow> 's" and dead :: "'s \<Rightarrow> bool" +
  fixes wins :: "'e \<Rightarrow> 's \<Rightarrow> bool"
  assumes dead_blocks: "dead s \<Longrightarrow> \<not> wins e s"
begin

lemma dead_win_count: "dead s \<Longrightarrow> win_count step wins s es = 0"
  by (induction es arbitrary: s) (auto simp: dead_blocks invar_step)

end

text \<open>The contract of a single-use token: a kill switch that every success throws.\<close>

locale single_use = kill_switch step spent wins
  for step :: "'e \<Rightarrow> 's \<Rightarrow> 's" and spent :: "'s \<Rightarrow> bool" and wins :: "'e \<Rightarrow> 's \<Rightarrow> bool" +
  assumes win_spends: "wins e s \<Longrightarrow> spent (step e s)"
begin

lemma at_most_one_win: "win_count step wins s es \<le> 1"
proof (induction es arbitrary: s)
  case (Cons e es)
  show ?case
  proof (cases "wins e s")
    case True
    then show ?thesis by (simp add: dead_win_count win_spends)
  next
    case False
    then show ?thesis using Cons.IH by simp
  qed
qed simp

end

text \<open>The contract of an append-only log: every operation extends it.\<close>

locale append_only =
  fixes step :: "'e \<Rightarrow> 's \<Rightarrow> 's"
    and log :: "'s \<Rightarrow> 'l list"
  assumes log_step: "\<exists>new. log (step e s) = log s @ new"
begin

lemma log_run: "\<exists>new. log (run step s es) = log s @ new"
proof (induction es arbitrary: s)
  case (Cons e es)
  obtain a where "log (step e s) = log s @ a" using log_step by blast
  moreover obtain b where "log (run step (step e s) es) = log (step e s) @ b"
    using Cons.IH by blast
  ultimately show ?case by auto
qed simp

end

text \<open>
  The contract of a budget: what a step spends is covered by the credit it gives up and the grant it
  receives. Then what a whole run spends is covered by the credit it starts with and all the grants.
\<close>

fun total :: "('e \<Rightarrow> 's \<Rightarrow> 's) \<Rightarrow> ('e \<Rightarrow> 's \<Rightarrow> nat) \<Rightarrow> 's \<Rightarrow> 'e list \<Rightarrow> nat" where
  "total step f s [] = 0"
| "total step f s (e # es) = f e s + total step f (step e s) es"

lemma total_append: "total step f s (es @ fs) = total step f s es + total step f (run step s es) fs"
  by (induction es arbitrary: s) simp_all

lemma win_count_total: "win_count step wins s es = total step (\<lambda>e s. if wins e s then 1 else 0) s es"
  by (induction es arbitrary: s) simp_all

lemma total_mult: "total step (\<lambda>e s. k * f e s) s es = k * total step f s es"
  by (induction es arbitrary: s) (simp_all add: add_mult_distrib2)

lemma total_add: "total step (\<lambda>e s. f e s + g e s) s es = total step f s es + total step g s es"
  by (induction es arbitrary: s) simp_all

lemma total_le:
  "(\<And>e s. f e s \<le> g e s) \<Longrightarrow> total step f s es \<le> total step g s es"
  by (induction es arbitrary: s) (simp_all add: add_mono)

locale budget = event_system step invar
  for step :: "'e \<Rightarrow> 's \<Rightarrow> 's" and invar :: "'s \<Rightarrow> bool" +
  fixes cost grant :: "'e \<Rightarrow> 's \<Rightarrow> nat" and credit :: "'s \<Rightarrow> nat"
  assumes covered: "invar s \<Longrightarrow> cost e s + credit (step e s) \<le> credit s + grant e s"
begin

lemma spending: "invar s \<Longrightarrow> total step cost s es + credit (run step s es) \<le> credit s + total step grant s es"
proof (induction es arbitrary: s)
  case (Cons e es)
  then show ?case using covered [of s e] Cons.IH [OF invar_step [OF Cons.prems], of e] by simp
qed simp

end

section \<open>Lists\<close>

lemma sorted_distinct_set_inj:
  fixes xs ys :: "'a::linorder list"
  assumes "sorted xs" "distinct xs" "sorted ys" "distinct ys" "set xs = set ys"
  shows "xs = ys"
  using assms by (metis sorted_list_of_set.idem_if_sorted_distinct)

lemma split_at_first:
  "xs @ c # ys = xs' @ c # ys' \<Longrightarrow> c \<notin> set xs \<Longrightarrow> c \<notin> set xs' \<Longrightarrow> xs = xs' \<and> ys = ys'"
proof (induction xs arbitrary: xs')
  case Nil
  then show ?case by (cases xs') auto
next
  case (Cons x xs)
  then show ?case by (cases xs') auto
qed

lemma filter_length_mono:
  "(\<And>x. x \<in> set xs \<Longrightarrow> p x \<Longrightarrow> q x) \<Longrightarrow> length (filter p xs) \<le> length (filter q xs)"
  by (induction xs) auto

lemma find_map_idem:
  "(\<And>r. p (f r) = p r) \<Longrightarrow> find p (map f rows) = map_option f (find p rows)"
  by (induction rows) auto

lemma upt_split: "i \<le> j \<Longrightarrow> j \<le> k \<Longrightarrow> [i..<k] = [i..<j] @ [j..<k]"
  by (metis le_Suc_ex upt_add_eq_append)

lemma AList_update_memD: "(j, v) \<in> set (AList.update k x al) \<Longrightarrow> j = k \<and> v = x \<or> (j, v) \<in> set al"
  by (induction al) (auto split: if_splits)

lemma AList_update_new: "k \<notin> fst ` set al \<Longrightarrow> AList.update k x al = al @ [(k, x)]"
  by (induction al) auto

text \<open>Totals over the entries of a map, when one entry is replaced or removed.\<close>

lemma AList_update_sum:
  fixes g :: "'v \<Rightarrow> nat"
  shows "map_of m k = Some b \<Longrightarrow>
    sum_list (map (\<lambda>e. g (snd e)) (AList.update k c m)) + g b = sum_list (map (\<lambda>e. g (snd e)) m) + g c"
  by (induction m) auto

lemma AList_delete_sum:
  fixes g :: "'v \<Rightarrow> nat"
  assumes "distinct (map fst m)" "map_of m k = Some b"
  shows "sum_list (map (\<lambda>e. g (snd e)) (AList.delete k m)) + g b = sum_list (map (\<lambda>e. g (snd e)) m)"
  using assms
proof (induction m)
  case (Cons e m)
  show ?case
  proof (cases "fst e = k")
    case True
    then have "AList.delete k (e # m) = m"
      using Cons.prems(1) by (cases e) (force simp: AList.delete_eq filter_id_conv image_iff)
    then show ?thesis using True Cons.prems(2) by (cases e) simp
  next
    case False
    then show ?thesis using Cons by (cases e) (auto simp: AList.delete_eq)
  qed
qed simp

section \<open>Tables with an owner column\<close>

text \<open>
  A change on behalf of the owner \<open>a\<close>: rewriting rows owned by \<open>a\<close>, or adding one row of \<open>a\<close>. Such a
  change keeps every other owner's rows, in order.
\<close>

definition own_change :: "('r \<Rightarrow> 'o) \<Rightarrow> 'o \<Rightarrow> 'r list \<Rightarrow> 'r list \<Rightarrow> bool" where
  "own_change owner a rows rows' \<longleftrightarrow>
     (\<exists>f. (\<forall>r \<in> set rows. owner (f r) = owner r \<and> (owner r \<noteq> a \<longrightarrow> f r = r)) \<and> rows' = map f rows)
     \<or> (\<exists>r. owner r = a \<and> rows' = rows @ [r])"

lemma own_change_refl [simp]: "own_change owner a rows rows"
  unfolding own_change_def by (rule disjI1, rule exI [of _ "\<lambda>r. r"]) simp

lemma own_change_mapI:
  "(\<And>r. r \<in> set rows \<Longrightarrow> owner (f r) = owner r) \<Longrightarrow> (\<And>r. r \<in> set rows \<Longrightarrow> owner r \<noteq> a \<Longrightarrow> f r = r)
     \<Longrightarrow> own_change owner a rows (map f rows)"
  unfolding own_change_def by blast

lemma own_change_addI: "owner r = a \<Longrightarrow> own_change owner a rows (rows @ [r])"
  unfolding own_change_def by blast

lemma own_change_others:
  assumes "own_change owner a rows rows'" and "b \<noteq> a"
  shows "filter (\<lambda>r. owner r = b) rows' = filter (\<lambda>r. owner r = b) rows"
proof -
  have "filter (\<lambda>r. owner r = b) (map f rows) = filter (\<lambda>r. owner r = b) rows"
    if "\<forall>r \<in> set rows. owner (f r) = owner r \<and> (owner r \<noteq> a \<longrightarrow> f r = r)" for f
    using that assms(2) by (induction rows) auto
  then show ?thesis using assms by (auto simp: own_change_def)
qed

text \<open>
  The contract of a service shared by several tenants: it keeps an invariant, and while the invariant
  holds, serving one tenant leaves every other tenant's view of the state as it was.
\<close>

locale tenant_service = event_system step invar
  for step :: "'e \<Rightarrow> 's \<Rightarrow> 's" and invar :: "'s \<Rightarrow> bool" +
  fixes tenant :: "'e \<Rightarrow> 'o option" and view :: "'o \<Rightarrow> 's \<Rightarrow> 'v"
  assumes isolation: "invar s \<Longrightarrow> tenant e \<noteq> Some b \<Longrightarrow> view b (step e s) = view b s"
begin

lemma noninterference:
  "invar s \<Longrightarrow> \<forall>e \<in> set es. tenant e \<noteq> Some b \<Longrightarrow> view b (run step s es) = view b s"
proof (induction es arbitrary: s)
  case (Cons e es)
  then show ?case using isolation [of s e b] invar_step [of s e] by simp
qed simp

end

end
