(* ===== verification/Approval_Kernel.thy ===== *)
theory Approval_Kernel
  imports Prelude
begin

text \<open>
  The approval kernel, \<open>src/vault/approvals/kernel.ts\<close> with \<open>schema.ts\<close> and \<open>canonical.ts\<close>: the three
  SQLite tables as a record of row lists, and every kernel function as a state-passing definition.
  \<open>Date.now()\<close> is the field \<open>wall_clock\<close>; the random ids of \<open>generateRequestId\<close> and \<open>randomUUID\<close> are
  arguments. SQLite leaves the order of rows with equal sort keys open: the model returns them in
  \<open>rowid\<close> order, and no theorem depends on that choice.
\<close>

section \<open>Canonical approver sets\<close>

text \<open>\<open>JSON.stringify\<close> of a list of strings.\<close>

definition bslash :: char where "bslash = CHR 0x5C"
definition dquote :: char where "dquote = CHR 0x22"

definition hex_digit :: "nat \<Rightarrow> char" where
  "hex_digit d = (if d < 10 then char_of (48 + d) else char_of (87 + d))"

definition json_char :: "char \<Rightarrow> string" where
  "json_char c = (let n = of_char c :: nat in
     if n = 34 then [bslash, dquote]
     else if n = 92 then [bslash, bslash]
     else if n = 8 then [bslash, CHR ''b'']
     else if n = 9 then [bslash, CHR ''t'']
     else if n = 10 then [bslash, CHR ''n'']
     else if n = 12 then [bslash, CHR ''f'']
     else if n = 13 then [bslash, CHR ''r'']
     else if n < 32 then [bslash, CHR ''u'', CHR ''0'', CHR ''0'', hex_digit (n div 16), hex_digit (n mod 16)]
     else [c])"

definition json_string :: "string \<Rightarrow> string" where
  "json_string s = dquote # concat (map json_char s) @ [dquote]"

fun json_tail :: "string list \<Rightarrow> string" where
  "json_tail [] = '']''"
| "json_tail (x # xs) = CHR '','' # json_string x @ json_tail xs"

fun json_array :: "string list \<Rightarrow> string" where
  "json_array [] = ''[]''"
| "json_array (x # xs) = CHR ''['' # json_string x @ json_tail xs"

definition normalized_approvers :: "string list \<Rightarrow> string list" where
  "normalized_approvers approvers =
     filter (\<lambda>a. a \<noteq> []) (map (\<lambda>a. js_trim (normalize_nfc a)) approvers)"

definition canonicalizeApproverSet :: "string list \<Rightarrow> string" where
  "canonicalizeApproverSet approvers =
     json_array (sort (js_unique (normalized_approvers approvers)))"

section \<open>Tables\<close>

datatype ApprovalDecisionMode = AllowOnce | AllowAlways | AllowTtl | Deny | DenyPerm

datatype origin = AgentOrigin | OperatorOrigin

datatype ApprovalAuditEvent = EvRequest | EvGrant | EvRevoke | EvDriftRevoke | EvConsume | EvExpire
  | EvDeny | EvMatch | EvTimeout | EvRecover

definition DEFAULT_MAX_TTL_LIFETIME_MS :: int where
  "DEFAULT_MAX_TTL_LIFETIME_MS = 7 * 24 * 60 * 60 * 1000"

record DecisionRow =
  d_id :: string
  d_agent_unit :: string
  d_scope :: string
  d_action :: string
  d_decision :: ApprovalDecisionMode
  ttl_expires_at :: "int option"
  granted_at :: int
  granted_by_user_id :: int
  d_approver_set_canonical :: string
  last_used_at :: "int option"
  revoked_at :: "int option"
  revoke_reason :: "string option"
  d_origin :: origin

record NonceRow =
  request_id :: string
  decision_id :: "string option"
  n_agent_unit :: string
  n_scope :: string
  n_action :: string
  n_approver_set_canonical :: string
  n_why :: "string option"
  created_at :: int
  expires_at :: int
  consumed_at :: "int option"

text \<open>The JSON context of an audit row, one constructor per shape the kernel writes.\<close>

datatype audit_context =
    CtxNone
  | CtxRequest string "string option" "int option" "string option"
  | CtxDrift string string
  | CtxReason string
  | CtxActor string "string option"
  | CtxRequestId string
  | CtxRecord string ApprovalDecisionMode "int option" int

record AuditRow =
  a_seq :: nat
  a_ts :: int
  a_agent_unit :: string
  a_scope :: string
  a_action :: string
  a_decision_id :: "string option"
  a_event :: ApprovalAuditEvent
  a_context :: audit_context

record kernel_db =
  decisions :: "DecisionRow list"
  nonces :: "NonceRow list"
  audit_log :: "AuditRow list"
  wall_clock :: int

text \<open>\<open>migrateApprovalSchema\<close> on a fresh file: three empty tables.\<close>

definition migrateApprovalSchema :: "int \<Rightarrow> kernel_db" where
  "migrateApprovalSchema t = \<lparr>decisions = [], nonces = [], audit_log = [], wall_clock = t\<rparr>"

definition ALLOW_ONCE_CONSUMED_REASON :: string where
  "ALLOW_ONCE_CONSUMED_REASON = ''allow_once_consumed''"

text \<open>\<open>INTEGER PRIMARY KEY AUTOINCREMENT\<close>: one more than the largest number given so far; no row of this table is deleted.\<close>

definition next_seq :: "AuditRow list \<Rightarrow> nat" where
  "next_seq rows = Suc (fold max (map a_seq rows) 0)"

definition audit ::
  "ApprovalAuditEvent \<Rightarrow> string \<Rightarrow> string \<Rightarrow> string \<Rightarrow> string option \<Rightarrow> audit_context \<Rightarrow> kernel_db \<Rightarrow> kernel_db"
where
  "audit event agent_unit scope action did ctx db =
     db\<lparr>audit_log := audit_log db @
       [\<lparr>a_seq = next_seq (audit_log db), a_ts = wall_clock db, a_agent_unit = agent_unit,
         a_scope = scope, a_action = action, a_decision_id = did, a_event = event, a_context = ctx\<rparr>]\<rparr>"

text \<open>The audit rows of a decision and of a nonce carry that row's agent, scope and action.\<close>

definition audit_decision :: "ApprovalAuditEvent \<Rightarrow> DecisionRow \<Rightarrow> audit_context \<Rightarrow> kernel_db \<Rightarrow> kernel_db" where
  "audit_decision event d ctx db =
     audit event (d_agent_unit d) (d_scope d) (d_action d) (Some (d_id d)) ctx db"

definition audit_nonce :: "ApprovalAuditEvent \<Rightarrow> NonceRow \<Rightarrow> string option \<Rightarrow> audit_context \<Rightarrow> kernel_db \<Rightarrow> kernel_db" where
  "audit_nonce event n did ctx db =
     audit event (n_agent_unit n) (n_scope n) (n_action n) did ctx db"

section \<open>Requests and rate caps\<close>

definition MAX_PENDING_PER_AGENT :: nat where "MAX_PENDING_PER_AGENT = 2"
definition MAX_PENDING_GLOBAL :: nat where "MAX_PENDING_GLOBAL = 32"

text \<open>The \<open>WHERE\<close> clause \<open>consumed_at IS NULL AND expires_at > ?\<close>.\<close>

definition nonce_pending :: "int \<Rightarrow> NonceRow \<Rightarrow> bool" where
  "nonce_pending now n \<longleftrightarrow> consumed_at n = None \<and> now < expires_at n"

text \<open>
  \<open>countPendingNonces\<close>: the map \<open>perAgent\<close> is the function from an agent to its group's count (0 for an
  agent with no group, as its readers default it) and \<open>global\<close> the sum over the groups.
\<close>

definition countPendingNonces :: "kernel_db \<Rightarrow> int \<Rightarrow> (string \<Rightarrow> nat) \<times> nat" where
  "countPendingNonces db now =
     (let rows = filter (nonce_pending now) (nonces db)
      in (\<lambda>a. length (filter (\<lambda>n. n_agent_unit n = a) rows), length rows))"

text \<open>
  SQLite compares values of different storage classes by class (an integer is below every text),
  after the column's affinity is applied to the bound parameter: an INTEGER column turns a text
  that spells an integer into that integer, a TEXT column turns an integer into its decimal text.
\<close>

datatype sql_value = SqlInt int | SqlText string

definition numeric_affinity :: "sql_value \<Rightarrow> sql_value" where
  "numeric_affinity v = (case v of SqlInt i \<Rightarrow> SqlInt i
     | SqlText s \<Rightarrow> (if all_digits s then SqlInt (int (read_nat s))
        else if s \<noteq> [] \<and> hd s \<in> {CHR ''-'', CHR ''+''} \<and> all_digits (tl s)
          then SqlInt ((if hd s = CHR ''-'' then - 1 else 1) * int (read_nat (tl s)))
        else SqlText s))"

definition text_affinity :: "sql_value \<Rightarrow> sql_value" where
  "text_affinity v = (case v of SqlText s \<Rightarrow> SqlText s | SqlInt i \<Rightarrow> SqlText (show_int i))"

text \<open>\<open>col > ?\<close> on an INTEGER column and \<open>col = ?\<close> on a TEXT column.\<close>

definition int_column_gt :: "int \<Rightarrow> sql_value \<Rightarrow> bool" where
  "int_column_gt col v = (case numeric_affinity v of SqlInt i \<Rightarrow> i < col | SqlText _ \<Rightarrow> False)"

definition text_column_eq :: "string \<Rightarrow> sql_value \<Rightarrow> bool" where
  "text_column_eq col v \<longleftrightarrow> text_affinity v = SqlText col"

definition min_expires :: "NonceRow list \<Rightarrow> int option" where
  "min_expires rows = (case map expires_at rows of [] \<Rightarrow> None | e # es \<Rightarrow> Some (foldl min e es))"

text \<open>
  \<open>computeRetryAfterMs\<close>. The per-agent statement reads
  \<open>... WHERE consumed_at IS NULL AND expires_at > ? AND agent_unit = ?\<close> and is run with
  \<open>.get(agent_unit, now)\<close>: the first placeholder receives the agent, the second the time.
\<close>

definition computeRetryAfterMs :: "kernel_db \<Rightarrow> string option \<Rightarrow> int \<Rightarrow> int" where
  "computeRetryAfterMs db agent_unit now =
     (let row = (case agent_unit of
          Some a \<Rightarrow>
            (if a \<noteq> [] then
               min_expires (filter (\<lambda>n. consumed_at n = None
                   \<and> int_column_gt (expires_at n) (SqlText a)
                   \<and> text_column_eq (n_agent_unit n) (SqlInt now)) (nonces db))
             else min_expires (filter (\<lambda>n. consumed_at n = None
                   \<and> int_column_gt (expires_at n) (SqlInt now)) (nonces db)))
        | None \<Rightarrow> min_expires (filter (\<lambda>n. consumed_at n = None
                   \<and> int_column_gt (expires_at n) (SqlInt now)) (nonces db)))
      in case row of None \<Rightarrow> 5000 | Some e \<Rightarrow> max 1000 (e - now))"

record ApprovalRequestInput =
  i_agent_unit :: string
  i_scope :: string
  i_action :: string
  i_approver_set :: "string list"
  i_why :: "string option"
  i_ttl_ms :: "int option"
  i_peer_uid :: "int option"
  i_agent_name :: "string option"

text \<open>\<open>requestApproval\<close>: \<open>rid\<close> is the value of \<open>generateRequestId()\<close>.\<close>

definition requestApproval ::
  "string \<Rightarrow> ApprovalRequestInput \<Rightarrow> int \<Rightarrow> kernel_db \<Rightarrow> sql_error + (string \<times> int) \<times> kernel_db"
where
  "requestApproval rid input now db =
     (let ttl = (case i_ttl_ms input of Some t \<Rightarrow> t | None \<Rightarrow> 5 * 60 * 1000);
          exp = now + ttl;
          canonical = canonicalizeApproverSet (i_approver_set input);
          row = \<lparr>request_id = rid, decision_id = None, n_agent_unit = i_agent_unit input,
                 n_scope = i_scope input, n_action = i_action input,
                 n_approver_set_canonical = canonical, n_why = i_why input,
                 created_at = now, expires_at = exp, consumed_at = None\<rparr>
      in case sql_insert request_id row (nonces db) of
           Inl e \<Rightarrow> Inl e
         | Inr rows \<Rightarrow>
             Inr ((rid, exp),
               audit EvRequest (i_agent_unit input) (i_scope input) (i_action input) None
                 (CtxRequest rid (i_why input) (i_peer_uid input) (i_agent_name input))
                 (db\<lparr>nonces := rows\<rparr>)))"

section \<open>Lookups\<close>

datatype LookupResult = Granted DecisionRow | Denied DecisionRow | Pending string
  | Expired | DriftRevoked | NoDecision

text \<open>\<open>... ORDER BY granted_at DESC LIMIT 1\<close>.\<close>

fun newest :: "DecisionRow list \<Rightarrow> DecisionRow option" where
  "newest [] = None"
| "newest (r # rs) = (case newest rs of None \<Rightarrow> Some r
     | Some q \<Rightarrow> (if granted_at r < granted_at q then Some q else Some r))"

definition by_decision_id :: "string \<Rightarrow> DecisionRow \<Rightarrow> bool" where
  "by_decision_id i r \<longleftrightarrow> d_id r = i"

definition by_request_id :: "string \<Rightarrow> NonceRow \<Rightarrow> bool" where
  "by_request_id i n \<longleftrightarrow> request_id n = i"

definition unrevoked_id :: "string \<Rightarrow> DecisionRow \<Rightarrow> bool" where
  "unrevoked_id i r \<longleftrightarrow> d_id r = i \<and> revoked_at r = None"

text \<open>The sliding-window renewal of an \<open>allow_ttl\<close> decision: the new \<open>ttl_expires_at\<close>.\<close>

definition renewed_expiry :: "DecisionRow \<Rightarrow> int \<Rightarrow> int \<Rightarrow> int option" where
  "renewed_expiry d maxLifetime now =
     (let hardCap = granted_at d + maxLifetime;
          originalWindow = (case ttl_expires_at d of
              Some e \<Rightarrow> e - (case last_used_at d of Some u \<Rightarrow> u | None \<Rightarrow> granted_at d)
            | None \<Rightarrow> 0)
      in if 0 < originalWindow then Some (min (now + originalWindow) hardCap)
         else ttl_expires_at d)"

text \<open>
  \<open>evaluateDecisionRow\<close>. The row was read by an earlier \<open>SELECT\<close>: the argument \<open>d\<close> and the table may
  differ when another connection wrote in between.
\<close>

definition evaluateDecisionRow ::
  "DecisionRow \<Rightarrow> string \<Rightarrow> int option \<Rightarrow> int \<Rightarrow> kernel_db \<Rightarrow> LookupResult \<times> kernel_db"
where
  "evaluateDecisionRow d currentCanonical max_ttl now db =
     (if d_decision d = DenyPerm then (Denied d, db)
      else if (case ttl_expires_at d of Some e \<Rightarrow> e < now | None \<Rightarrow> False) then (Expired, db)
      else if d_approver_set_canonical d \<noteq> currentCanonical then
        (DriftRevoked,
         audit_decision EvDriftRevoke d (CtxDrift (d_approver_set_canonical d) currentCanonical)
           (db\<lparr>decisions := sql_update (by_decision_id (d_id d))
              (\<lambda>r. r\<lparr>revoked_at := Some now, revoke_reason := Some ''approver_set_drift''\<rparr>) (decisions db)\<rparr>))
      else if d_decision d = Deny then (Denied d, db)
      else if d_decision d = AllowOnce then
        (let db1 = db\<lparr>decisions := sql_update (unrevoked_id (d_id d))
               (\<lambda>r. r\<lparr>last_used_at := Some now, revoked_at := Some now,
                      revoke_reason := Some ALLOW_ONCE_CONSUMED_REASON\<rparr>) (decisions db)\<rparr>
         in if sql_changes (unrevoked_id (d_id d)) (decisions db) = 0 then
              (Denied d, audit_decision EvDeny d (CtxReason ALLOW_ONCE_CONSUMED_REASON) db1)
            else
              (Granted (d\<lparr>last_used_at := Some now, revoked_at := Some now,
                          revoke_reason := Some ALLOW_ONCE_CONSUMED_REASON\<rparr>),
               audit_decision EvRevoke d (CtxActor ''kernel'' (Some ALLOW_ONCE_CONSUMED_REASON))
                 (audit_decision EvMatch d CtxNone db1)))
      else if d_decision d = AllowTtl then
        (let maxLifetime = (case max_ttl of Some m \<Rightarrow> m | None \<Rightarrow> DEFAULT_MAX_TTL_LIFETIME_MS);
             newExpires = renewed_expiry d maxLifetime now;
             db1 = db\<lparr>decisions := sql_update (by_decision_id (d_id d))
               (\<lambda>r. r\<lparr>last_used_at := Some now, ttl_expires_at := newExpires\<rparr>) (decisions db)\<rparr>
         in (Granted (d\<lparr>last_used_at := Some now, ttl_expires_at := newExpires\<rparr>),
             audit_decision EvMatch d CtxNone db1))
      else
        (Granted (d\<lparr>last_used_at := Some now\<rparr>),
         audit_decision EvMatch d CtxNone
           (db\<lparr>decisions := sql_update (by_decision_id (d_id d))
              (\<lambda>r. r\<lparr>last_used_at := Some now\<rparr>) (decisions db)\<rparr>)))"

definition live_match :: "string \<Rightarrow> string \<Rightarrow> string \<Rightarrow> DecisionRow \<Rightarrow> bool" where
  "live_match agent_unit scope action r \<longleftrightarrow>
     d_agent_unit r = agent_unit \<and> d_scope r = scope \<and> d_action r = action \<and> revoked_at r = None"

definition lookupDecision ::
  "string \<Rightarrow> string \<Rightarrow> string \<Rightarrow> string list \<Rightarrow> int option \<Rightarrow> int \<Rightarrow> kernel_db \<Rightarrow> LookupResult \<times> kernel_db"
where
  "lookupDecision agent_unit scope action approvers max_ttl now db =
     (case newest (filter (live_match agent_unit scope action) (decisions db)) of
        None \<Rightarrow> (NoDecision, db)
      | Some row \<Rightarrow> evaluateDecisionRow row (canonicalizeApproverSet approvers) max_ttl now db)"

definition lookupDecisionByRequestId ::
  "string \<Rightarrow> string \<Rightarrow> string list \<Rightarrow> int option \<Rightarrow> int \<Rightarrow> kernel_db \<Rightarrow> LookupResult \<times> kernel_db"
where
  "lookupDecisionByRequestId agent_unit rid approvers max_ttl now db =
     (case sql_get (by_request_id rid) (nonces db) of
        None \<Rightarrow> (NoDecision, db)
      | Some nonce \<Rightarrow>
          if n_agent_unit nonce \<noteq> agent_unit then (NoDecision, db)
          else (case decision_id nonce of
            None \<Rightarrow> if expires_at nonce < now then (Expired, db) else (Pending (request_id nonce), db)
          | Some did \<Rightarrow>
              (case sql_get (by_decision_id did) (decisions db) of
                 None \<Rightarrow> (Expired, db)
               | Some dec \<Rightarrow>
                   if revoked_at dec \<noteq> None then (Denied dec, db)
                   else evaluateDecisionRow dec (canonicalizeApproverSet approvers) max_ttl now db)))"

section \<open>Consuming nonces, recording and revoking decisions\<close>

definition consumeNonce :: "string \<Rightarrow> int \<Rightarrow> kernel_db \<Rightarrow> NonceRow option \<times> kernel_db" where
  "consumeNonce rid now db =
     (case sql_get (by_request_id rid) (nonces db) of
        None \<Rightarrow> (None, db)
      | Some nonce \<Rightarrow>
          if expires_at nonce < now then
            (None, audit_nonce EvExpire nonce None (CtxRequestId rid) db)
          else
            (let p = (\<lambda>n. request_id n = rid \<and> consumed_at n = None);
                 db1 = db\<lparr>nonces := sql_update p (\<lambda>n. n\<lparr>consumed_at := Some now\<rparr>) (nonces db)\<rparr>
             in if sql_changes p (nonces db) = 0 then (None, db1)
                else (Some nonce, audit_nonce EvConsume nonce None (CtxRequestId rid) db1)))"

record RecordDecisionInput =
  r_nonce :: NonceRow
  r_decision :: ApprovalDecisionMode
  r_approver_set :: "string list"
  r_granted_by_user_id :: int
  r_ttl_ms :: "int option"
  r_origin :: "origin option"
  r_max_ttl_lifetime_ms :: "int option"

definition is_allow_mode :: "ApprovalDecisionMode \<Rightarrow> bool" where
  "is_allow_mode m \<longleftrightarrow> m = AllowOnce \<or> m = AllowAlways \<or> m = AllowTtl"

text \<open>
  The stored expiry of a recorded decision: \<open>input.decision === "allow_ttl" && input.ttl_ms ? ... : null\<close>,
  where a missing or zero \<open>ttl_ms\<close> is falsy.
\<close>

definition recorded_expiry :: "RecordDecisionInput \<Rightarrow> int \<Rightarrow> int option" where
  "recorded_expiry input now =
     (let maxLifetime = (case r_max_ttl_lifetime_ms input of Some m \<Rightarrow> m | None \<Rightarrow> DEFAULT_MAX_TTL_LIFETIME_MS)
      in case r_ttl_ms input of
           Some t \<Rightarrow> (if r_decision input = AllowTtl \<and> t \<noteq> 0 then Some (now + min t maxLifetime) else None)
         | None \<Rightarrow> None)"

text \<open>The inserted row; \<open>uuid\<close> is the value of \<open>randomUUID()\<close>.\<close>

definition recorded_row :: "string \<Rightarrow> RecordDecisionInput \<Rightarrow> int \<Rightarrow> DecisionRow" where
  "recorded_row uuid input now =
     \<lparr>d_id = uuid, d_agent_unit = n_agent_unit (r_nonce input), d_scope = n_scope (r_nonce input),
      d_action = n_action (r_nonce input), d_decision = r_decision input,
      ttl_expires_at = recorded_expiry input now, granted_at = now,
      granted_by_user_id = r_granted_by_user_id input,
      d_approver_set_canonical = canonicalizeApproverSet (r_approver_set input),
      last_used_at = None, revoked_at = None, revoke_reason = None,
      d_origin = (case r_origin input of Some g \<Rightarrow> g | None \<Rightarrow> AgentOrigin)\<rparr>"

definition recordDecision ::
  "string \<Rightarrow> RecordDecisionInput \<Rightarrow> int \<Rightarrow> kernel_db \<Rightarrow> sql_error + string \<times> kernel_db"
where
  "recordDecision uuid input now db =
     (let nonce = r_nonce input
      in case sql_insert d_id (recorded_row uuid input now) (decisions db) of
           Inl e \<Rightarrow> Inl e
         | Inr rows \<Rightarrow>
             (let db1 = db\<lparr>decisions := rows,
                    nonces := sql_update (by_request_id (request_id nonce))
                      (\<lambda>n. n\<lparr>decision_id := Some uuid\<rparr>) (nonces db)\<rparr>
              in Inr (uuid,
                   audit_nonce (if is_allow_mode (r_decision input) then EvGrant else EvDeny) nonce (Some uuid)
                     (CtxRecord (request_id nonce) (r_decision input) (r_ttl_ms input) (r_granted_by_user_id input))
                     db1)))"

datatype consume_result = NotConsumed | Consumed string NonceRow

text \<open>
  \<open>consumeAndRecord\<close> runs in one \<open>db.transaction\<close>: when the body raises, SQLite rolls back and the
  exception propagates, so the error result carries no new state.
\<close>

definition consumeAndRecord ::
  "string \<Rightarrow> string \<Rightarrow> ApprovalDecisionMode \<Rightarrow> string list \<Rightarrow> int \<Rightarrow> int option \<Rightarrow> origin option \<Rightarrow> int
   \<Rightarrow> kernel_db \<Rightarrow> sql_error + consume_result \<times> kernel_db"
where
  "consumeAndRecord uuid rid mode approvers user ttl org now db =
     (case consumeNonce rid now db of
        (None, db1) \<Rightarrow> Inr (NotConsumed, db1)
      | (Some nonce, db1) \<Rightarrow>
          (case recordDecision uuid
               \<lparr>r_nonce = nonce, r_decision = mode, r_approver_set = approvers,
                r_granted_by_user_id = user, r_ttl_ms = ttl, r_origin = org,
                r_max_ttl_lifetime_ms = None\<rparr> now db1 of
             Inl e \<Rightarrow> Inl e
           | Inr (did, db2) \<Rightarrow> Inr (Consumed did nonce, db2)))"

definition revokeDecision ::
  "string \<Rightarrow> string \<Rightarrow> string option \<Rightarrow> int \<Rightarrow> kernel_db \<Rightarrow> bool \<times> kernel_db"
where
  "revokeDecision did actor reason now db =
     (case sql_get (by_decision_id did) (decisions db) of
        None \<Rightarrow> (False, db)
      | Some d \<Rightarrow>
          if revoked_at d \<noteq> None then (False, db)
          else
            (let db1 = db\<lparr>decisions := sql_update (unrevoked_id did)
                   (\<lambda>r. r\<lparr>revoked_at := Some now, revoke_reason := reason\<rparr>) (decisions db)\<rparr>
             in if sql_changes (unrevoked_id did) (decisions db) = 0 then (False, db1)
                else (True, audit_decision EvRevoke d (CtxActor actor reason) db1)))"

definition listDecisions :: "string option \<Rightarrow> bool \<Rightarrow> int \<Rightarrow> kernel_db \<Rightarrow> DecisionRow list" where
  "listDecisions agent includeRevoked now db =
     sort_key (\<lambda>d. - granted_at d)
       (filter (\<lambda>d.
          (includeRevoked \<or> revoked_at d = None
             \<and> (case ttl_expires_at d of None \<Rightarrow> True | Some e \<Rightarrow> now < e))
          \<and> (case agent of None \<Rightarrow> True | Some a \<Rightarrow> d_agent_unit d = a)) (decisions db))"

definition getDecision :: "string \<Rightarrow> kernel_db \<Rightarrow> DecisionRow option" where
  "getDecision i db = sql_get (by_decision_id i) (decisions db)"

definition isOperatorVerifiedDecision :: "DecisionRow option \<Rightarrow> string \<Rightarrow> int \<Rightarrow> bool" where
  "isOperatorVerifiedDecision dec agent_unit now =
     (case dec of None \<Rightarrow> False
      | Some d \<Rightarrow> d_origin d = OperatorOrigin \<and> d_agent_unit d = agent_unit \<and> revoked_at d = None
          \<and> is_allow_mode (d_decision d)
          \<and> (case ttl_expires_at d of None \<Rightarrow> True | Some e \<Rightarrow> now < e))"

definition getNonce :: "string \<Rightarrow> kernel_db \<Rightarrow> NonceRow option" where
  "getNonce rid db = sql_get (by_request_id rid) (nonces db)"

section \<open>The canonical form decides set equality\<close>

text \<open>A reader for one escaped character: the code is uniquely decodable.\<close>

definition hex_value :: "char \<Rightarrow> nat" where
  "hex_value c = (let n = of_char c in if n < 58 then n - 48 else n - 87)"

definition unescape :: "char \<Rightarrow> char" where
  "unescape e = (if e = CHR ''b'' then char_of (8::nat) else if e = CHR ''t'' then char_of (9::nat)
     else if e = CHR ''n'' then char_of (10::nat) else if e = CHR ''f'' then char_of (12::nat)
     else if e = CHR ''r'' then char_of (13::nat) else e)"

fun json_read :: "string \<Rightarrow> char \<times> string" where
  "json_read (x # e # xs) =
     (if x \<noteq> bslash then (x, e # xs)
      else if e \<noteq> CHR ''u'' then (unescape e, xs)
      else (char_of (16 * hex_value (xs ! 2) + hex_value (xs ! 3)), drop 4 xs))"
| "json_read xs = (hd xs, tl xs)"

lemma hex_value_digit: "d < 16 \<Longrightarrow> hex_value (hex_digit d) = d"
  by (auto simp: hex_value_def hex_digit_def Let_def)

lemma char_of_code: "of_char c = (n::nat) \<Longrightarrow> char_of n = c"
  by auto

lemma json_read_control:
  assumes n: "of_char c = (n::nat)" and "n < 32"
  shows "json_read ([bslash, CHR ''u'', CHR ''0'', CHR ''0'', hex_digit (n div 16), hex_digit (n mod 16)] @ r) = (c, r)"
proof -
  have "n div 16 < 16" "n mod 16 < 16" using assms by auto
  then show ?thesis
    using char_of_code [OF n] by (simp add: hex_value_digit)
qed

lemma json_read_plain: "c \<noteq> bslash \<Longrightarrow> json_read (c # r) = (c, r)"
  by (cases r) auto

lemma json_read_char: "json_read (json_char c @ r) = (c, r)"
proof -
  define n where "n = (of_char c :: nat)"
  have plain: "n \<noteq> 92 \<Longrightarrow> c \<noteq> bslash" by (auto simp: n_def bslash_def)
  have code: "char_of n = c" by (simp add: n_def)
  show ?thesis
  proof (cases "n \<in> {34, 92, 8, 9, 10, 12, 13}")
    case True
    then consider "n = 34" | "n = 92" | "n = 8" | "n = 9" | "n = 10" | "n = 12" | "n = 13" by auto
    then show ?thesis
      by cases (insert code, auto simp: json_char_def Let_def n_def [symmetric] unescape_def
          bslash_def dquote_def char_of_def bit_0)
  next
    case False
    then show ?thesis
      using json_read_control [of c n r] json_read_plain [of c r] plain
      by (simp add: json_char_def Let_def n_def [symmetric])
  qed
qed

lemma json_char_prefix_free: "json_char c @ r = json_char d @ s \<Longrightarrow> c = d \<and> r = s"
  by (metis json_read_char prod.inject)

text \<open>No escaped character starts with the closing quote.\<close>

lemma json_char_head: "json_char c @ r \<noteq> dquote # s"
proof -
  have "hd (json_char c) \<noteq> dquote \<and> json_char c \<noteq> []"
    unfolding json_char_def Let_def by (auto simp: bslash_def dquote_def)
  then show ?thesis by (cases "json_char c") auto
qed

lemma json_chars_inj:
  "concat (map json_char x) @ dquote # r = concat (map json_char y) @ dquote # s \<Longrightarrow> x = y \<and> r = s"
proof (induction x arbitrary: y)
  case Nil
  then show ?case
  proof (cases y)
    case (Cons d y')
    with Nil have "json_char d @ (concat (map json_char y') @ dquote # s) = dquote # r" by simp
    then show ?thesis using json_char_head by blast
  qed simp
next
  case (Cons c x)
  show ?case
  proof (cases y)
    case Nil
    with Cons.prems have "json_char c @ (concat (map json_char x) @ dquote # r) = dquote # s" by simp
    then show ?thesis using json_char_head by blast
  next
    case y: (Cons d y')
    with Cons.prems have "json_char c @ (concat (map json_char x) @ dquote # r)
        = json_char d @ (concat (map json_char y') @ dquote # s)" by simp
    then have "c = d" "concat (map json_char x) @ dquote # r = concat (map json_char y') @ dquote # s"
      using json_char_prefix_free by blast+
    with Cons.IH y show ?thesis by blast
  qed
qed

lemma json_string_inj: "json_string x @ r = json_string y @ s \<Longrightarrow> x = y \<and> r = s"
  using json_chars_inj [of x r y s] by (simp add: json_string_def)

lemma json_tail_inj: "json_tail xs = json_tail ys \<Longrightarrow> xs = ys"
proof (induction xs arbitrary: ys)
  case Nil
  then show ?case by (cases ys) auto
next
  case (Cons x xs)
  show ?case
  proof (cases ys)
    case Nil
    with Cons.prems show ?thesis by simp
  next
    case y: (Cons y ys')
    with Cons.prems have "json_string x @ json_tail xs = json_string y @ json_tail ys'" by simp
    then have "x = y" "json_tail xs = json_tail ys'" using json_string_inj by blast+
    with Cons.IH y show ?thesis by blast
  qed
qed

lemma json_array_inj: "json_array xs = json_array ys \<longleftrightarrow> xs = ys"
proof
  assume eq: "json_array xs = json_array ys"
  show "xs = ys"
  proof (cases xs)
    case Nil
    with eq show ?thesis by (cases ys) (auto simp: json_string_def dquote_def)
  next
    case x: (Cons x xs')
    show ?thesis
    proof (cases ys)
      case Nil
      with eq x show ?thesis by (auto simp: json_string_def dquote_def)
    next
      case y: (Cons y ys')
      with eq x have "json_string x @ json_tail xs' = json_string y @ json_tail ys'" by simp
      then have "x = y" "json_tail xs' = json_tail ys'" using json_string_inj by blast+
      with x y json_tail_inj show ?thesis by blast
    qed
  qed
qed simp

lemma canonical_eq_iff:
  "canonicalizeApproverSet xs = canonicalizeApproverSet ys
     \<longleftrightarrow> set (normalized_approvers xs) = set (normalized_approvers ys)"
proof
  assume "canonicalizeApproverSet xs = canonicalizeApproverSet ys"
  then have "sort (js_unique (normalized_approvers xs)) = sort (js_unique (normalized_approvers ys))"
    by (simp add: canonicalizeApproverSet_def json_array_inj)
  then show "set (normalized_approvers xs) = set (normalized_approvers ys)"
    by (metis set_sort set_js_unique)
next
  assume "set (normalized_approvers xs) = set (normalized_approvers ys)"
  then have "sort (js_unique (normalized_approvers xs)) = sort (js_unique (normalized_approvers ys))"
    by (intro sorted_distinct_set_inj) auto
  then show "canonicalizeApproverSet xs = canonicalizeApproverSet ys"
    by (simp add: canonicalizeApproverSet_def)
qed


section \<open>Frames and case analysis of the operations\<close>

lemma audit_frame [simp]:
  "decisions (audit e a sc ac did ctx db) = decisions db"
  "nonces (audit e a sc ac did ctx db) = nonces db"
  "wall_clock (audit e a sc ac did ctx db) = wall_clock db"
  by (simp_all add: audit_def)

lemma audit_decision_frame [simp]:
  "decisions (audit_decision e d ctx db) = decisions db"
  "nonces (audit_decision e d ctx db) = nonces db"
  "wall_clock (audit_decision e d ctx db) = wall_clock db"
  by (simp_all add: audit_decision_def)

lemma audit_nonce_frame [simp]:
  "decisions (audit_nonce e n did ctx db) = decisions db"
  "nonces (audit_nonce e n did ctx db) = nonces db"
  "wall_clock (audit_nonce e n did ctx db) = wall_clock db"
  by (simp_all add: audit_nonce_def)

lemmas audit_defs = audit_decision_def audit_nonce_def audit_def

lemma newest_SomeD: "newest rs = Some r \<Longrightarrow> r \<in> set rs \<and> (\<forall>q \<in> set rs. granted_at q \<le> granted_at r)"
proof (induction rs arbitrary: r)
  case (Cons x rs)
  show ?case
  proof (cases "newest rs")
    case None
    then have "rs = []" by (cases rs) (auto split: option.splits if_splits)
    with Cons.prems show ?thesis by simp
  next
    case (Some q)
    with Cons.IH [of q] Cons.prems show ?thesis by (auto split: if_splits)
  qed
qed simp

lemma newest_None [simp]: "newest rs = None \<longleftrightarrow> rs = []"
  by (cases rs) (auto split: option.splits if_splits)

text \<open>
  What one evaluation may do to the decision table: the rows with the evaluated id are rewritten by
  a function that keeps every column but expiry, last use and revocation, and never un-revokes.
\<close>

definition touches_only :: "string \<Rightarrow> (DecisionRow \<Rightarrow> DecisionRow) \<Rightarrow> bool" where
  "touches_only i f \<longleftrightarrow> (\<forall>r. (d_id r \<noteq> i \<longrightarrow> f r = r) \<and> d_id (f r) = d_id r \<and>
     d_agent_unit (f r) = d_agent_unit r \<and> d_scope (f r) = d_scope r \<and> d_action (f r) = d_action r \<and>
     d_decision (f r) = d_decision r \<and> granted_at (f r) = granted_at r \<and>
     granted_by_user_id (f r) = granted_by_user_id r \<and>
     d_approver_set_canonical (f r) = d_approver_set_canonical r \<and> d_origin (f r) = d_origin r \<and>
     (revoked_at r \<noteq> None \<longrightarrow> revoked_at (f r) \<noteq> None))"

definition row_update :: "DecisionRow \<Rightarrow> string \<Rightarrow> int option \<Rightarrow> int \<Rightarrow> DecisionRow \<Rightarrow> DecisionRow" where
  "row_update d can m now r =
     (if d_decision d = DenyPerm \<or> (\<exists>e. ttl_expires_at d = Some e \<and> e < now) then r
      else if d_approver_set_canonical d \<noteq> can then
        (if d_id r = d_id d then r\<lparr>revoked_at := Some now, revoke_reason := Some ''approver_set_drift''\<rparr> else r)
      else if d_decision d = Deny then r
      else if d_decision d = AllowOnce then
        (if d_id r = d_id d \<and> revoked_at r = None
         then r\<lparr>last_used_at := Some now, revoked_at := Some now, revoke_reason := Some ALLOW_ONCE_CONSUMED_REASON\<rparr>
         else r)
      else if d_decision d = AllowTtl then
        (if d_id r = d_id d
         then r\<lparr>last_used_at := Some now, ttl_expires_at :=
            renewed_expiry d (case m of Some l \<Rightarrow> l | None \<Rightarrow> DEFAULT_MAX_TTL_LIFETIME_MS) now\<rparr> else r)
      else if d_id r = d_id d then r\<lparr>last_used_at := Some now\<rparr> else r)"

lemma expired_iff: "(case ttl_expires_at d of Some e \<Rightarrow> e < now | None \<Rightarrow> False)
    \<longleftrightarrow> (\<exists>e. ttl_expires_at d = Some e \<and> e < now)"
  by (cases "ttl_expires_at d") auto

lemma evaluate_decisions:
  "decisions (snd (evaluateDecisionRow d can m now db)) = map (row_update d can m now) (decisions db)"
proof (cases "d_decision d = DenyPerm \<or> (\<exists>e. ttl_expires_at d = Some e \<and> e < now)")
  case True
  then have "row_update d can m now = (\<lambda>r. r)" by (intro ext) (simp add: row_update_def)
  then show ?thesis using True by (auto simp: evaluateDecisionRow_def expired_iff)
next
  case False
  then have live: "d_decision d \<noteq> DenyPerm"
    "(case ttl_expires_at d of Some e \<Rightarrow> e < now | None \<Rightarrow> False) = False"
    "(\<exists>e. ttl_expires_at d = Some e \<and> e < now) = False"
    by (auto simp: expired_iff)
  show ?thesis
    unfolding evaluateDecisionRow_def row_update_def Let_def live
    by (simp only: simp_thms if_False if_True live split: if_split)
       (simp add: sql_update_def by_decision_id_def unrevoked_id_def)
qed

lemma evaluate_frame [simp]:
  "nonces (snd (evaluateDecisionRow d can m now db)) = nonces db"
  "wall_clock (snd (evaluateDecisionRow d can m now db)) = wall_clock db"
  by (simp_all add: evaluateDecisionRow_def Let_def)

lemma touches_only_row_update: "touches_only (d_id d) (row_update d can m now)"
  by (simp add: touches_only_def row_update_def)

text \<open>A grant is possible only for a decision in an allow mode, not expired, not drifted.\<close>

lemma evaluate_GrantedD:
  assumes "fst (evaluateDecisionRow d can m now db) = Granted g"
  shows "is_allow_mode (d_decision d)" "d_approver_set_canonical d = can"
    and "\<forall>e. ttl_expires_at d = Some e \<longrightarrow> now \<le> e"
    and "d_id g = d_id d" "d_decision g = d_decision d" "d_origin g = d_origin d"
    and "d_agent_unit g = d_agent_unit d" "granted_at g = granted_at d"
    and "d_scope g = d_scope d" "d_action g = d_action d"
    and "d_decision d = AllowOnce \<Longrightarrow> \<exists>r \<in> set (decisions db). d_id r = d_id d \<and> revoked_at r = None"
  using assms
  by (auto simp: evaluateDecisionRow_def Let_def is_allow_mode_def expired_iff sql_changes_0
      unrevoked_id_def split: if_splits)
     (metis ApprovalDecisionMode.exhaust)?

text \<open>Reading the newest live row first: the row evaluated is in the table.\<close>

lemma lookupDecision_cases:
  obtains (none) "lookupDecision a sc ac apps m now db = (NoDecision, db)"
    | (row) d where "d \<in> set (decisions db)" "live_match a sc ac d"
        "lookupDecision a sc ac apps m now db = evaluateDecisionRow d (canonicalizeApproverSet apps) m now db"
proof (cases "newest (filter (live_match a sc ac) (decisions db))")
  case None
  then show ?thesis using none by (simp add: lookupDecision_def)
next
  case (Some d)
  then have "d \<in> set (filter (live_match a sc ac) (decisions db))" using newest_SomeD by blast
  then show ?thesis using row [of d] Some by (simp add: lookupDecision_def)
qed

lemma lookupByRequest_cases:
  obtains (same) r where "lookupDecisionByRequestId a rid apps m now db = (r, db)" "\<And>g. r \<noteq> Granted g"
    | (row) n d where "n \<in> set (nonces db)" "request_id n = rid" "n_agent_unit n = a"
        "decision_id n = Some (d_id d)" "d \<in> set (decisions db)" "revoked_at d = None"
        "lookupDecisionByRequestId a rid apps m now db = evaluateDecisionRow d (canonicalizeApproverSet apps) m now db"
proof (cases "sql_get (by_request_id rid) (nonces db)")
  case None
  then show ?thesis using same by (simp add: lookupDecisionByRequestId_def)
next
  case n: (Some n)
  then have n_in: "n \<in> set (nonces db)" "request_id n = rid"
    by (auto simp: by_request_id_def dest: sql_get_SomeD)
  show ?thesis
  proof (cases "n_agent_unit n = a \<and> decision_id n \<noteq> None")
    case False
    with n have "\<exists>r. lookupDecisionByRequestId a rid apps m now db = (r, db) \<and> (\<forall>g. r \<noteq> Granted g)"
      by (auto simp: lookupDecisionByRequestId_def)
    then show ?thesis using same by blast
  next
    case True
    then obtain did where did: "n_agent_unit n = a" "decision_id n = Some did" by auto
    show ?thesis
    proof (cases "sql_get (by_decision_id did) (decisions db)")
      case None
      with n did show ?thesis using same by (simp add: lookupDecisionByRequestId_def)
    next
      case d: (Some d)
      then have d_in: "d \<in> set (decisions db)" "d_id d = did"
        by (auto simp: by_decision_id_def dest: sql_get_SomeD)
      show ?thesis
      proof (cases "revoked_at d")
        case None
        with n did d d_in n_in show ?thesis
          using row [of n d] by (simp add: lookupDecisionByRequestId_def)
      next
        case (Some t)
        with n did d show ?thesis using same by (simp add: lookupDecisionByRequestId_def)
      qed
    qed
  qed
qed


section \<open>The kernel as an event system\<close>

text \<open>
  One event per call of the module. \<open>KEvaluate\<close> is the second half of a lookup whose row was read
  earlier, possibly by another process on the same database file: it covers every interleaving of
  concurrent lookups. \<open>KClock\<close> advances the clock.
\<close>

datatype kernel_op =
    KRequest string ApprovalRequestInput int
  | KLookup string string string "string list" "int option" int
  | KLookupByRequest string string "string list" "int option" int
  | KEvaluate DecisionRow string "int option" int
  | KConsume string int
  | KRecord string RecordDecisionInput int
  | KConsumeRecord string string ApprovalDecisionMode "string list" int "int option" "origin option" int
  | KRevoke string string "string option" int
  | KClock int

fun kernel_step :: "kernel_op \<Rightarrow> kernel_db \<Rightarrow> kernel_db" where
  "kernel_step (KRequest rid input now) db =
     (case requestApproval rid input now db of Inl _ \<Rightarrow> db | Inr (_, db') \<Rightarrow> db')"
| "kernel_step (KLookup a sc ac apps m now) db = snd (lookupDecision a sc ac apps m now db)"
| "kernel_step (KLookupByRequest a rid apps m now) db = snd (lookupDecisionByRequestId a rid apps m now db)"
| "kernel_step (KEvaluate d can m now) db = snd (evaluateDecisionRow d can m now db)"
| "kernel_step (KConsume rid now) db = snd (consumeNonce rid now db)"
| "kernel_step (KRecord uuid input now) db =
     (case recordDecision uuid input now db of Inl _ \<Rightarrow> db | Inr (_, db') \<Rightarrow> db')"
| "kernel_step (KConsumeRecord uuid rid mode apps user ttl org now) db =
     (case consumeAndRecord uuid rid mode apps user ttl org now db of Inl _ \<Rightarrow> db | Inr (_, db') \<Rightarrow> db')"
| "kernel_step (KRevoke did actor reason now) db = snd (revokeDecision did actor reason now db)"
| "kernel_step (KClock dt) db = db\<lparr>wall_clock := wall_clock db + \<bar>dt\<bar>\<rparr>"

text \<open>The verdict of an event that is a lookup.\<close>

fun lookup_verdict :: "kernel_op \<Rightarrow> kernel_db \<Rightarrow> LookupResult option" where
  "lookup_verdict (KLookup a sc ac apps m now) db = Some (fst (lookupDecision a sc ac apps m now db))"
| "lookup_verdict (KLookupByRequest a rid apps m now) db =
     Some (fst (lookupDecisionByRequestId a rid apps m now db))"
| "lookup_verdict (KEvaluate d can m now) db = Some (fst (evaluateDecisionRow d can m now db))"
| "lookup_verdict _ db = None"

definition grants_once :: "string \<Rightarrow> kernel_op \<Rightarrow> kernel_db \<Rightarrow> bool" where
  "grants_once i ev db \<longleftrightarrow>
     (case lookup_verdict ev db of
        Some (Granted g) \<Rightarrow> d_id g = i \<and> d_decision g = AllowOnce
      | _ \<Rightarrow> False)"

text \<open>An event that redeems the nonce \<open>rid\<close>.\<close>

fun redeems :: "string \<Rightarrow> kernel_op \<Rightarrow> kernel_db \<Rightarrow> bool" where
  "redeems rid (KConsume rid' now) db = (rid' = rid \<and> fst (consumeNonce rid' now db) \<noteq> None)"
| "redeems rid (KConsumeRecord uuid rid' mode apps user ttl org now) db =
     (rid' = rid \<and> (\<exists>did n db'. consumeAndRecord uuid rid' mode apps user ttl org now db
        = Inr (Consumed did n, db')))"
| "redeems rid _ db = False"

definition decision_spent :: "string \<Rightarrow> kernel_db \<Rightarrow> bool" where
  "decision_spent i db \<longleftrightarrow> i \<in> d_id ` set (decisions db)
     \<and> (\<forall>r \<in> set (decisions db). d_id r = i \<longrightarrow> revoked_at r \<noteq> None)"

definition nonce_spent :: "string \<Rightarrow> kernel_db \<Rightarrow> bool" where
  "nonce_spent rid db \<longleftrightarrow> rid \<in> request_id ` set (nonces db)
     \<and> (\<forall>n \<in> set (nonces db). request_id n = rid \<longrightarrow> consumed_at n \<noteq> None)"

text \<open>
  The tables after any event: the decision table is the old one rewritten row by row, perhaps with
  one fresh row; so is the nonce table.
\<close>

definition decisions_evolve :: "DecisionRow list \<Rightarrow> DecisionRow list \<Rightarrow> bool" where
  "decisions_evolve ds ds' \<longleftrightarrow> (\<exists>f i. touches_only i f \<and> ds' = map f ds)
     \<or> (\<exists>r. d_id r \<notin> d_id ` set ds \<and> revoked_at r = None \<and> ds' = ds @ [r])"

definition nonce_touch :: "(NonceRow \<Rightarrow> NonceRow) \<Rightarrow> bool" where
  "nonce_touch f \<longleftrightarrow> (\<forall>n. request_id (f n) = request_id n \<and> n_agent_unit (f n) = n_agent_unit n
     \<and> n_scope (f n) = n_scope n \<and> n_action (f n) = n_action n \<and> expires_at (f n) = expires_at n
     \<and> (consumed_at n \<noteq> None \<longrightarrow> consumed_at (f n) = consumed_at n))"

definition nonces_evolve :: "NonceRow list \<Rightarrow> NonceRow list \<Rightarrow> bool" where
  "nonces_evolve ns ns' \<longleftrightarrow> (\<exists>f. nonce_touch f \<and> ns' = map f ns)
     \<or> (\<exists>n. request_id n \<notin> request_id ` set ns \<and> ns' = ns @ [n])"

lemma decisions_evolve_refl [simp]: "decisions_evolve ds ds"
proof -
  have "touches_only i (\<lambda>r. r)" for i by (simp add: touches_only_def)
  then show ?thesis unfolding decisions_evolve_def by (metis list.map_ident)
qed

lemma nonces_evolve_refl [simp]: "nonces_evolve ns ns"
proof -
  have "nonce_touch (\<lambda>r. r)" by (simp add: nonce_touch_def)
  then show ?thesis unfolding nonces_evolve_def by (metis list.map_ident)
qed

lemma evaluate_evolve: "decisions_evolve (decisions db) (decisions (snd (evaluateDecisionRow d can m now db)))"
  unfolding decisions_evolve_def using evaluate_decisions touches_only_row_update by blast

lemma consumeNonce_frame [simp]:
  "decisions (snd (consumeNonce rid now db)) = decisions db"
  "wall_clock (snd (consumeNonce rid now db)) = wall_clock db"
  by (simp_all add: consumeNonce_def Let_def split: option.splits)

lemma consumeNonce_evolve: "nonces_evolve (nonces db) (nonces (snd (consumeNonce rid now db)))"
proof -
  have "nonce_touch (\<lambda>n. if request_id n = rid \<and> consumed_at n = None then n\<lparr>consumed_at := Some now\<rparr> else n)"
    by (simp add: nonce_touch_def)
  then have "nonces_evolve (nonces db) (map (\<lambda>n. if request_id n = rid \<and> consumed_at n = None
      then n\<lparr>consumed_at := Some now\<rparr> else n) (nonces db))"
    unfolding nonces_evolve_def by blast
  then show ?thesis
    by (simp add: consumeNonce_def Let_def sql_update_def split: option.splits)
qed

lemma recorded_row_simps [simp]:
  "d_id (recorded_row uuid input now) = uuid"
  "d_agent_unit (recorded_row uuid input now) = n_agent_unit (r_nonce input)"
  "d_scope (recorded_row uuid input now) = n_scope (r_nonce input)"
  "d_action (recorded_row uuid input now) = n_action (r_nonce input)"
  "d_decision (recorded_row uuid input now) = r_decision input"
  "ttl_expires_at (recorded_row uuid input now) = recorded_expiry input now"
  "granted_at (recorded_row uuid input now) = now"
  "last_used_at (recorded_row uuid input now) = None"
  "revoked_at (recorded_row uuid input now) = None"
  "d_approver_set_canonical (recorded_row uuid input now) = canonicalizeApproverSet (r_approver_set input)"
  "d_origin (recorded_row uuid input now) = (case r_origin input of Some g \<Rightarrow> g | None \<Rightarrow> AgentOrigin)"
  by (simp_all add: recorded_row_def)

lemma recordDecision_InrD:
  assumes "recordDecision uuid input now db = Inr (did, db')"
  shows "did = uuid" "uuid \<notin> d_id ` set (decisions db)"
    and "decisions db' = decisions db @ [recorded_row uuid input now]"
    and "nonces db' = sql_update (by_request_id (request_id (r_nonce input)))
       (\<lambda>n. n\<lparr>decision_id := Some uuid\<rparr>) (nonces db)"
    and "wall_clock db' = wall_clock db"
  using assms by (auto simp: recordDecision_def Let_def sql_insert_Inr split: sum.splits)

lemma link_touch: "nonce_touch (\<lambda>n. if by_request_id rid n then n\<lparr>decision_id := Some uuid\<rparr> else n)"
  by (simp add: nonce_touch_def)

lemma recordDecision_evolve:
  assumes "recordDecision uuid input now db = Inr (did, db')"
  shows "decisions_evolve (decisions db) (decisions db')" "nonces_evolve (nonces db) (nonces db')"
proof -
  note r = recordDecision_InrD [OF assms]
  show "decisions_evolve (decisions db) (decisions db')"
    unfolding decisions_evolve_def using r(2,3)
    by (intro disjI2 exI [of _ "recorded_row uuid input now"]) simp
  show "nonces_evolve (nonces db) (nonces db')"
    unfolding nonces_evolve_def r(4) sql_update_def using link_touch by blast
qed

lemma requestApproval_InrD:
  assumes "requestApproval rid input now db = Inr (res, db')"
  shows "decisions db' = decisions db" "wall_clock db' = wall_clock db" "rid \<notin> request_id ` set (nonces db)"
    and "\<exists>n. nonces db' = nonces db @ [n] \<and> request_id n = rid \<and> n_agent_unit n = i_agent_unit input
      \<and> n_scope n = i_scope input \<and> n_action n = i_action input
      \<and> decision_id n = None \<and> consumed_at n = None \<and> expires_at n = snd res \<and> fst res = rid"
  using assms by (auto simp: requestApproval_def Let_def sql_insert_Inr split: sum.splits)

lemma requestApproval_evolve:
  assumes "requestApproval rid input now db = Inr (res, db')"
  shows "nonces_evolve (nonces db) (nonces db')"
  using requestApproval_InrD (3,4) [OF assms] unfolding nonces_evolve_def by metis

lemma revokeDecision_frame [simp]:
  "nonces (snd (revokeDecision did actor reason now db)) = nonces db"
  "wall_clock (snd (revokeDecision did actor reason now db)) = wall_clock db"
  by (simp_all add: revokeDecision_def Let_def split: option.splits)

lemma revokeDecision_evolve:
  "decisions_evolve (decisions db) (decisions (snd (revokeDecision did actor reason now db)))"
proof -
  have "touches_only did (\<lambda>r. if unrevoked_id did r then r\<lparr>revoked_at := Some now, revoke_reason := reason\<rparr> else r)"
    by (simp add: touches_only_def unrevoked_id_def)
  then have "decisions_evolve (decisions db) (sql_update (unrevoked_id did)
      (\<lambda>r. r\<lparr>revoked_at := Some now, revoke_reason := reason\<rparr>) (decisions db))"
    unfolding decisions_evolve_def sql_update_def by blast
  then show ?thesis
    by (simp add: revokeDecision_def Let_def split: option.splits)
qed

lemma consumeNonce_touch: "\<exists>f. nonce_touch f \<and> nonces (snd (consumeNonce rid now db)) = map f (nonces db)"
proof -
  let ?f = "\<lambda>n. if request_id n = rid \<and> consumed_at n = None then n\<lparr>consumed_at := Some now\<rparr> else n"
  have "nonce_touch ?f" "nonce_touch (\<lambda>n. n)" by (simp_all add: nonce_touch_def)
  then show ?thesis
    by (auto simp: consumeNonce_def Let_def sql_update_def split: option.splits intro: exI [of _ "\<lambda>n. n"])
qed

lemma consumeAndRecord_InrD:
  assumes "consumeAndRecord uuid rid mode apps user ttl org now db = Inr (res, db')"
  obtains (no) "res = NotConsumed" "consumeNonce rid now db = (None, db')"
    | (yes) n db1 input where "res = Consumed uuid n" "consumeNonce rid now db = (Some n, db1)"
        "r_nonce input = n" "r_decision input = mode" "r_origin input = org" "r_ttl_ms input = ttl"
        "r_approver_set input = apps" "r_max_ttl_lifetime_ms input = None"
        "recordDecision uuid input now db1 = Inr (uuid, db')"
proof (cases "consumeNonce rid now db")
  case (Pair nopt db1)
  show ?thesis
  proof (cases nopt)
    case None
    then show ?thesis using assms Pair no by (simp add: consumeAndRecord_def)
  next
    case (Some n)
    define input where "input = \<lparr>r_nonce = n, r_decision = mode, r_approver_set = apps,
      r_granted_by_user_id = user, r_ttl_ms = ttl, r_origin = org, r_max_ttl_lifetime_ms = None\<rparr>"
    show ?thesis
    proof (cases "recordDecision uuid input now db1")
      case (Inl e)
      then show ?thesis using assms Pair Some by (simp add: consumeAndRecord_def input_def)
    next
      case (Inr p)
      obtain did db2 where p: "p = (did, db2)" by (cases p)
      have "did = uuid" using Inr p recordDecision_InrD(1) by blast
      moreover from this have "res = Consumed uuid n" "db' = db2"
        using assms Pair Some Inr p by (simp_all add: consumeAndRecord_def input_def)
      ultimately show ?thesis
        using yes [of n db1 input] Pair Some Inr p by (simp add: input_def)
    qed
  qed
qed

lemma kernel_step_evolve:
  "decisions_evolve (decisions db) (decisions (kernel_step ev db))
     \<and> nonces_evolve (nonces db) (nonces (kernel_step ev db))"
proof (cases ev)
  case (KRequest rid input now)
  then show ?thesis
    by (auto split: sum.splits simp: requestApproval_InrD(1) intro: requestApproval_evolve)
next
  case (KLookup a sc ac apps m now)
  show ?thesis unfolding KLookup
    by (rule lookupDecision_cases [of a sc ac apps m now db]) (simp_all add: evaluate_evolve)
next
  case (KLookupByRequest a rid apps m now)
  show ?thesis unfolding KLookupByRequest
    by (rule lookupByRequest_cases [of a rid apps m now db]) (simp_all add: evaluate_evolve)
next
  case (KEvaluate d can m now)
  then show ?thesis by (simp add: evaluate_evolve)
next
  case (KConsume rid now)
  then show ?thesis by (simp add: consumeNonce_evolve)
next
  case (KRecord uuid input now)
  then show ?thesis by (auto split: sum.splits intro: recordDecision_evolve)
next
  case (KConsumeRecord uuid rid mode apps user ttl org now)
  show ?thesis
  proof (cases "consumeAndRecord uuid rid mode apps user ttl org now db")
    case (Inl e)
    with KConsumeRecord show ?thesis by simp
  next
    case (Inr p)
    obtain res db' where p: "p = (res, db')" by (cases p)
    from Inr [unfolded p] show ?thesis
    proof (cases rule: consumeAndRecord_InrD)
      case no
      then have "db' = snd (consumeNonce rid now db)" by simp
      then show ?thesis using KConsumeRecord Inr p by (simp add: consumeNonce_evolve)
    next
      case (yes n db1 input)
      obtain f where f: "nonce_touch f" "nonces db1 = map f (nonces db)" "decisions db1 = decisions db"
        using consumeNonce_touch [of rid now db] consumeNonce_frame(1) [of rid now db] yes(2) by auto
      let ?g = "\<lambda>n. if by_request_id (request_id (r_nonce input)) n then n\<lparr>decision_id := Some uuid\<rparr> else n"
      have "nonce_touch (\<lambda>n. ?g (f n))"
        using f(1) by (simp add: nonce_touch_def by_request_id_def)
      moreover have "nonces db' = map (\<lambda>n. ?g (f n)) (nonces db)"
        using recordDecision_InrD(4) [OF yes(9)] f(2) by (simp add: sql_update_def)
      ultimately have "nonces_evolve (nonces db) (nonces db')"
        unfolding nonces_evolve_def by blast
      then show ?thesis
        using recordDecision_evolve(1) [OF yes(9)] f(3) KConsumeRecord Inr p by simp
    qed
  qed
next
  case (KRevoke did actor reason now)
  then show ?thesis by (simp add: revokeDecision_evolve)
qed simp

lemmas kernel_step_decisions = kernel_step_evolve [THEN conjunct1]
  and kernel_step_nonces = kernel_step_evolve [THEN conjunct2]

lemma decision_spent_step:
  assumes "decision_spent i db"
  shows "decision_spent i (kernel_step ev db)"
proof -
  consider f j where "touches_only j f" "decisions (kernel_step ev db) = map f (decisions db)"
    | r where "d_id r \<notin> d_id ` set (decisions db)" "decisions (kernel_step ev db) = decisions db @ [r]"
    using kernel_step_decisions [of db ev] unfolding decisions_evolve_def by blast
  then show ?thesis
  proof cases
    case (1 f j)
    have "d_id (f r) = d_id r" "revoked_at r \<noteq> None \<Longrightarrow> revoked_at (f r) \<noteq> None" for r
      using 1(1) by (simp_all add: touches_only_def)
    then show ?thesis using assms 1(2) by (simp add: decision_spent_def image_image)
  next
    case (2 r)
    then show ?thesis using assms by (auto simp: decision_spent_def)
  qed
qed

lemma nonce_spent_step:
  assumes "nonce_spent rid db"
  shows "nonce_spent rid (kernel_step ev db)"
proof -
  consider f where "nonce_touch f" "nonces (kernel_step ev db) = map f (nonces db)"
    | n where "request_id n \<notin> request_id ` set (nonces db)" "nonces (kernel_step ev db) = nonces db @ [n]"
    using kernel_step_nonces [of db ev] unfolding nonces_evolve_def by blast
  then show ?thesis
  proof cases
    case (1 f)
    have "request_id (f r) = request_id r" "consumed_at r \<noteq> None \<Longrightarrow> consumed_at (f r) \<noteq> None" for r
      using 1(1) by (simp_all add: nonce_touch_def)
    then show ?thesis using assms 1(2) by (simp add: nonce_spent_def image_image)
  next
    case (2 r)
    then show ?thesis using assms by (auto simp: nonce_spent_def)
  qed
qed

text \<open>A grant of a one-shot burns its row; a burnt row is never granted again.\<close>

lemma lookup_verdict_GrantedE:
  assumes "lookup_verdict ev db = Some (Granted g)"
  obtains d can m now where "kernel_step ev db = snd (evaluateDecisionRow d can m now db)"
    "fst (evaluateDecisionRow d can m now db) = Granted g"
proof (cases ev)
  case (KLookup a sc ac apps m now)
  show ?thesis
    by (rule lookupDecision_cases [of a sc ac apps m now db]) (use assms KLookup that in auto)
next
  case (KLookupByRequest a rid apps m now)
  show ?thesis
    by (rule lookupByRequest_cases [of a rid apps m now db]) (use assms KLookupByRequest that in auto)
next
  case (KEvaluate d can m now)
  then show ?thesis using assms that by auto
qed (use assms in auto)

lemma grants_onceE:
  assumes "grants_once i ev db"
  obtains d can m now g where "kernel_step ev db = snd (evaluateDecisionRow d can m now db)"
    "fst (evaluateDecisionRow d can m now db) = Granted g" "d_id d = i" "d_decision d = AllowOnce"
proof -
  obtain g where g: "lookup_verdict ev db = Some (Granted g)" "d_id g = i" "d_decision g = AllowOnce"
    using assms by (auto simp: grants_once_def split: option.splits LookupResult.splits)
  then obtain d can m now where e: "kernel_step ev db = snd (evaluateDecisionRow d can m now db)"
    "fst (evaluateDecisionRow d can m now db) = Granted g"
    by (auto elim: lookup_verdict_GrantedE)
  show ?thesis
    using that [OF e] evaluate_GrantedD(4,5) [OF e(2)] g by simp
qed

lemma burn_spends:
  assumes "fst (evaluateDecisionRow d can m now db) = Granted g" and "d_decision d = AllowOnce"
  shows "decision_spent (d_id d) (snd (evaluateDecisionRow d can m now db))"
proof -
  let ?f = "row_update d can m now"
  obtain r where r: "r \<in> set (decisions db)" "d_id r = d_id d"
    using evaluate_GrantedD(11) [OF assms] by blast
  have id: "d_id (?f q) = d_id q" for q
    using touches_only_row_update [of d can m now] by (simp add: touches_only_def)
  have "revoked_at (?f q) \<noteq> None" if "d_id q = d_id d" for q
    using that assms evaluate_GrantedD(2,3) [OF assms(1)]
    by (auto simp: row_update_def not_less [symmetric])
  with r show ?thesis
    by (auto simp: decision_spent_def evaluate_decisions id image_image intro: rev_image_eqI)
qed

lemma consumeNonce_SomeD:
  assumes "fst (consumeNonce rid now db) = Some n"
  shows "\<exists>n \<in> set (nonces db). request_id n = rid \<and> consumed_at n = None"
    and "nonce_spent rid (snd (consumeNonce rid now db))"
    and "n \<in> set (nonces db)" "request_id n = rid" "now \<le> expires_at n"
  using assms
  by (auto simp: consumeNonce_def Let_def sql_changes_0 nonce_spent_def set_sql_update image_image
      by_request_id_def split: option.splits if_splits dest!: sql_get_SomeD intro: rev_image_eqI)

lemma redeemsD:
  assumes "redeems rid ev db"
  shows "\<exists>n \<in> set (nonces db). request_id n = rid \<and> consumed_at n = None" (is ?unspent)
    and "nonce_spent rid (kernel_step ev db)" (is ?spent)
proof -
  have "?unspent \<and> ?spent"
  proof (cases ev)
    case (KConsume rid' now)
    then have "rid' = rid" using assms by simp
    obtain n where n: "fst (consumeNonce rid now db) = Some n"
      using assms KConsume by auto
    show ?thesis using consumeNonce_SomeD(1,2) [OF n] KConsume \<open>rid' = rid\<close> by simp
  next
    case (KConsumeRecord uuid rid' mode apps user ttl org now)
    then obtain did n' db' where cr: "rid' = rid"
        "consumeAndRecord uuid rid mode apps user ttl org now db = Inr (Consumed did n', db')"
      using assms by auto
    from cr(2) show ?thesis
    proof (cases rule: consumeAndRecord_InrD)
      case (yes n db1 input)
      then have n: "fst (consumeNonce rid now db) = Some n" "db1 = snd (consumeNonce rid now db)" by simp_all
      have "kernel_step (KRecord uuid input now) db1 = db'" using yes(9) by simp
      then have "nonce_spent rid db'"
        using nonce_spent_step [OF consumeNonce_SomeD(2) [OF n(1)], of "KRecord uuid input now"] n(2) by simp
      then show ?thesis
        using consumeNonce_SomeD(1) [OF n(1)] KConsumeRecord cr by simp
    qed simp
  qed (use assms in auto)
  then show ?unspent ?spent by simp_all
qed

interpretation one_shot: single_use kernel_step "decision_spent i" "grants_once i" for i
proof unfold_locales
  show "decision_spent i (kernel_step ev db)" if "decision_spent i db" for ev db
    using that by (rule decision_spent_step)
  show "decision_spent i (kernel_step ev db)" if "grants_once i ev db" for ev db
    using that by (elim grants_onceE) (metis burn_spends)
  show "\<not> grants_once i ev db" if "decision_spent i db" for ev db
  proof
    assume "grants_once i ev db"
    then show False
      by (rule grants_onceE) (use that evaluate_GrantedD(11) in \<open>fastforce simp: decision_spent_def\<close>)
  qed
qed

interpretation nonce: single_use kernel_step "nonce_spent rid" "redeems rid" for rid
proof unfold_locales
  show "nonce_spent rid (kernel_step ev db)" if "nonce_spent rid db" for ev db
    using that by (rule nonce_spent_step)
  show "nonce_spent rid (kernel_step ev db)" if "redeems rid ev db" for ev db
    using that by (rule redeemsD)
  show "\<not> redeems rid ev db" if "nonce_spent rid db" for ev db
    using that redeemsD(1) [of rid ev db] unfolding nonce_spent_def by blast
qed

section \<open>Table integrity and the audit trail\<close>

text \<open>
  The primary keys are unique, and the audit log is numbered from 1 without gaps.
\<close>

definition kernel_wf :: "kernel_db \<Rightarrow> bool" where
  "kernel_wf db \<longleftrightarrow> distinct (map d_id (decisions db)) \<and> distinct (map request_id (nonces db))
     \<and> map a_seq (audit_log db) = [1..<Suc (length (audit_log db))]"

lemma decisions_evolve_ids:
  "decisions_evolve ds ds' \<Longrightarrow> distinct (map d_id ds) \<Longrightarrow> distinct (map d_id ds')"
  by (auto simp: decisions_evolve_def touches_only_def comp_def)

lemma nonces_evolve_ids:
  "nonces_evolve ns ns' \<Longrightarrow> distinct (map request_id ns) \<Longrightarrow> distinct (map request_id ns')"
  by (auto simp: nonces_evolve_def nonce_touch_def comp_def)

text \<open>\<open>extends\<close>: the second log is the first with zero or more rows appended, and a numbering without gaps stays one.\<close>

definition gap_free :: "AuditRow list \<Rightarrow> bool" where
  "gap_free l \<longleftrightarrow> map a_seq l = [1..<Suc (length l)]"

definition audit_extends :: "AuditRow list \<Rightarrow> AuditRow list \<Rightarrow> bool" where
  "audit_extends l l' \<longleftrightarrow> (\<exists>new. l' = l @ new) \<and> (gap_free l \<longrightarrow> gap_free l')"

lemma audit_extends_refl [simp]: "audit_extends l l"
  by (simp add: audit_extends_def)

lemma audit_extends_trans: "audit_extends l l' \<Longrightarrow> audit_extends l' l'' \<Longrightarrow> audit_extends l l''"
  by (auto simp: audit_extends_def)

lemma fold_max_upt: "fold max [1..<Suc n] (0 :: nat) = n"
  by (induction n) simp_all

lemma gap_free_next: "gap_free l \<Longrightarrow> a_seq r = next_seq l \<Longrightarrow> gap_free (l @ [r])"
  using fold_max_upt [of "length l"] by (simp add: gap_free_def next_seq_def)

lemma audit_extends_audit [simp]: "audit_extends (audit_log db) (audit_log (audit e a sc ac did ctx db))"
  by (auto simp: audit_extends_def audit_def intro: gap_free_next)

lemma audit_extends_decision [simp]: "audit_extends (audit_log db) (audit_log (audit_decision e d ctx db))"
  by (simp add: audit_decision_def)

lemma audit_extends_nonce [simp]: "audit_extends (audit_log db) (audit_log (audit_nonce e n did ctx db))"
  by (simp add: audit_nonce_def)

lemma audit_extends_via:
  "audit_log db1 = audit_log db \<Longrightarrow> audit_extends (audit_log db1) l \<Longrightarrow> audit_extends (audit_log db) l"
  by simp

lemma evaluate_audit: "audit_extends (audit_log db) (audit_log (snd (evaluateDecisionRow d can m now db)))"
proof -
  have 1: "audit_extends (audit_log db) (audit_log (audit_decision e d ctx (db\<lparr>decisions := ds\<rparr>)))" for e ctx ds
    using audit_extends_decision [of "db\<lparr>decisions := ds\<rparr>" e d ctx] by simp
  have 2: "audit_extends (audit_log db)
      (audit_log (audit_decision e' d ctx' (audit_decision e d ctx (db\<lparr>decisions := ds\<rparr>))))" for e ctx ds e' ctx'
    using audit_extends_trans [OF 1 audit_extends_decision] .
  show ?thesis
    unfolding evaluateDecisionRow_def Let_def
    by (simp only: fst_conv snd_conv 1 2 audit_extends_refl if_split split: if_split) simp
qed

lemma consumeNonce_audit: "audit_extends (audit_log db) (audit_log (snd (consumeNonce rid now db)))"
proof -
  have "audit_extends (audit_log db) (audit_log (audit_nonce e n did ctx (db\<lparr>nonces := ns\<rparr>)))" for e n did ctx ns
    using audit_extends_nonce [of "db\<lparr>nonces := ns\<rparr>" e n did ctx] by simp
  then show ?thesis
    by (simp add: consumeNonce_def Let_def split: option.splits)
qed

lemma recordDecision_audit:
  assumes "recordDecision uuid input now db = Inr (did, db')"
  shows "audit_extends (audit_log db) (audit_log db')"
proof -
  have "audit_extends (audit_log db) (audit_log (audit_nonce e n did ctx (db\<lparr>decisions := ds, nonces := ns\<rparr>)))"
    for e n did ctx ds ns
    using audit_extends_nonce [of "db\<lparr>decisions := ds, nonces := ns\<rparr>" e n did ctx] by simp
  then show ?thesis
    using assms by (auto simp: recordDecision_def Let_def split: sum.splits)
qed

lemma requestApproval_audit:
  assumes "requestApproval rid input now db = Inr (res, db')"
  shows "audit_extends (audit_log db) (audit_log db')"
proof -
  have "audit_extends (audit_log db) (audit_log (audit e a sc ac did ctx (db\<lparr>nonces := ns\<rparr>)))" for e a sc ac did ctx ns
    using audit_extends_audit [of "db\<lparr>nonces := ns\<rparr>" e a sc ac did ctx] by simp
  then show ?thesis
    using assms by (auto simp: requestApproval_def Let_def split: sum.splits)
qed

lemma revokeDecision_audit: "audit_extends (audit_log db) (audit_log (snd (revokeDecision did actor reason now db)))"
proof -
  have "audit_extends (audit_log db) (audit_log (audit_decision e d ctx (db\<lparr>decisions := ds\<rparr>)))" for e d ctx ds
    using audit_extends_decision [of "db\<lparr>decisions := ds\<rparr>" e d ctx] by simp
  then show ?thesis
    by (simp add: revokeDecision_def Let_def split: option.splits)
qed

lemma consumeAndRecord_audit:
  assumes "consumeAndRecord uuid rid mode apps user ttl org now db = Inr (res, db')"
  shows "audit_extends (audit_log db) (audit_log db')"
  using assms
proof (cases rule: consumeAndRecord_InrD)
  case no
  then show ?thesis using consumeNonce_audit [of db rid now] by simp
next
  case (yes n db1 input)
  then show ?thesis
    using audit_extends_trans [OF _ recordDecision_audit [OF yes(9)]] consumeNonce_audit [of db rid now] by simp
qed

lemma kernel_step_audit: "audit_extends (audit_log db) (audit_log (kernel_step ev db))"
proof (cases ev)
  case (KLookup a sc ac apps m now)
  show ?thesis unfolding KLookup
    by (rule lookupDecision_cases [of a sc ac apps m now db]) (simp_all add: evaluate_audit)
next
  case (KLookupByRequest a rid apps m now)
  show ?thesis unfolding KLookupByRequest
    by (rule lookupByRequest_cases [of a rid apps m now db]) (simp_all add: evaluate_audit)
qed (auto simp: evaluate_audit consumeNonce_audit revokeDecision_audit requestApproval_audit
    recordDecision_audit consumeAndRecord_audit split: sum.splits)

lemma kernel_wf_step: "kernel_wf db \<Longrightarrow> kernel_wf (kernel_step ev db)"
  using kernel_step_audit [of db ev] decisions_evolve_ids [OF kernel_step_decisions] nonces_evolve_ids [OF kernel_step_nonces]
  by (simp add: kernel_wf_def audit_extends_def gap_free_def)

interpretation kernel: event_system kernel_step kernel_wf
  by unfold_locales (rule kernel_wf_step)

interpretation kernel_audit: append_only kernel_step audit_log
  by unfold_locales (use kernel_step_audit in \<open>auto simp: audit_extends_def\<close>)

section \<open>Properties of the kernel\<close>

text \<open>
  Claim C1: a nonce is redeemed at most once. Whatever sequence of kernel calls runs on whatever
  database, at most one \<open>consumeNonce\<close> or \<open>consumeAndRecord\<close> of the same request id succeeds.
\<close>

theorem nonce_redeemed_at_most_once: "win_count kernel_step (redeems rid) db ops \<le> 1"
  by (rule nonce.at_most_one_win)

text \<open>
  Claim C2: an \<open>allow_once\<close> decision is granted at most once, also when several processes on the same
  database have read its row before any of them burns it (the events \<open>KEvaluate\<close> evaluate arbitrary
  stale snapshots in arbitrary order).
\<close>

theorem allow_once_granted_at_most_once: "win_count kernel_step (grants_once i) db ops \<le> 1"
  by (rule one_shot.at_most_one_win)

text \<open>
  From a fresh schema, every sequence of kernel calls keeps the primary keys of both tables
  unique and the audit sequence numbers gap-free, and no call ever rewrites or drops an audit row.
\<close>

theorem kernel_tables_wf:
  "kernel_wf (run kernel_step (migrateApprovalSchema t) ops)
   \<and> (\<exists>new. audit_log (run kernel_step (run kernel_step (migrateApprovalSchema t) ops) ops')
        = audit_log (run kernel_step (migrateApprovalSchema t) ops) @ new)"
proof
  have "kernel_wf (migrateApprovalSchema t)" by (simp add: kernel_wf_def migrateApprovalSchema_def)
  then show "kernel_wf (run kernel_step (migrateApprovalSchema t) ops)" by (rule kernel.invar_run)
qed (rule kernel_audit.log_run)

text \<open>
  The canonical text of an approver set decides equality of the sets: two lists have the same
  canonical form exactly when their trimmed, non-empty members are the same set. Order, repetition
  and surrounding white space are irrelevant, and the JSON escaping loses nothing.
\<close>

theorem canonical_decides_set_equality:
  "canonicalizeApproverSet xs = canonicalizeApproverSet ys
     \<longleftrightarrow> {a. a \<noteq> [] \<and> (\<exists>x \<in> set xs. a = js_trim x)} = {a. a \<noteq> [] \<and> (\<exists>y \<in> set ys. a = js_trim y)}"
proof -
  have "set (normalized_approvers zs) = {a. a \<noteq> [] \<and> (\<exists>z \<in> set zs. a = js_trim z)}" for zs
    by (auto simp: normalized_approvers_def normalize_nfc_def)
  then show ?thesis by (simp only: canonical_eq_iff)
qed

text \<open>
  Claim C3: soundness of a grant. \<open>lookupDecision\<close> answers \<open>granted\<close> only for a row of the table with
  that agent, scope and action that is not revoked, in an allow mode, not past its expiry, recorded
  under the same approver set, and the newest of the live rows.
\<close>

theorem lookup_grant_sound:
  assumes "fst (lookupDecision a sc ac apps m now db) = Granted g"
  shows "\<exists>d \<in> set (decisions db). d_id d = d_id g \<and> live_match a sc ac d \<and> is_allow_mode (d_decision d)
     \<and> (\<forall>e. ttl_expires_at d = Some e \<longrightarrow> now \<le> e)
     \<and> d_approver_set_canonical d = canonicalizeApproverSet apps
     \<and> (\<forall>q \<in> set (decisions db). live_match a sc ac q \<longrightarrow> granted_at q \<le> granted_at d)"
proof -
  obtain d where d: "newest (filter (live_match a sc ac) (decisions db)) = Some d"
    using assms by (auto simp: lookupDecision_def split: option.splits)
  then have ev: "fst (evaluateDecisionRow d (canonicalizeApproverSet apps) m now db) = Granted g"
    using assms by (simp add: lookupDecision_def)
  from newest_SomeD [OF d] evaluate_GrantedD [OF ev] show ?thesis by auto
qed

definition demo_input :: ApprovalRequestInput where
  "demo_input = \<lparr>i_agent_unit = ''a1'', i_scope = ''s'', i_action = ''w'', i_approver_set = [''u1''],
     i_why = None, i_ttl_ms = None, i_peer_uid = None, i_agent_name = None\<rparr>"

definition demo_ops :: "kernel_op list" where
  "demo_ops = [KRequest ''r1'' demo_input 10,
     KConsumeRecord ''d1'' ''r1'' AllowTtl [''u1''] 7 (Some 100) None 20]"

definition demo_db :: kernel_db where
  "demo_db = run kernel_step (migrateApprovalSchema 0) demo_ops"

lemma demo_db_decisions:
  "decisions demo_db = [\<lparr>d_id = ''d1'', d_agent_unit = ''a1'', d_scope = ''s'', d_action = ''w'',
     d_decision = AllowTtl, ttl_expires_at = Some 120, granted_at = 20, granted_by_user_id = 7,
     d_approver_set_canonical = canonicalizeApproverSet [''u1''], last_used_at = None, revoked_at = None,
     revoke_reason = None, d_origin = AgentOrigin\<rparr>]"
  by (simp add: demo_db_def demo_ops_def demo_input_def migrateApprovalSchema_def requestApproval_def
      sql_insert_def consumeAndRecord_def consumeNonce_def sql_get_def by_request_id_def sql_changes_def
      sql_update_def recordDecision_def recorded_row_def recorded_expiry_def DEFAULT_MAX_TTL_LIFETIME_MS_def
      Let_def)

lemma demo_lookup:
  "\<exists>g. fst (lookupDecision ''a1'' ''s'' ''w'' [''u1'', ''u1''] None 50 demo_db) = Granted g \<and> d_id g = ''d1''"
proof -
  have "canonicalizeApproverSet [''u1'', ''u1''] = canonicalizeApproverSet [''u1'']"
    by (simp add: canonical_eq_iff normalized_approvers_def)
  then show ?thesis
    by (simp add: lookupDecision_def demo_db_decisions live_match_def evaluateDecisionRow_def Let_def)
qed

theorem lookup_grant_sound_witness:
  "\<exists>d \<in> set (decisions demo_db). d_id d = ''d1'' \<and> d_approver_set_canonical d = canonicalizeApproverSet [''u1'', ''u1'']"
  using demo_lookup lookup_grant_sound [of "''a1''" "''s''" "''w''" "[''u1'', ''u1'']" None 50 demo_db] by metis

text \<open>
  The calls of the module themselves, as against the second half of an interleaved lookup.
\<close>

fun whole_call :: "kernel_op \<Rightarrow> bool" where
  "whole_call (KEvaluate _ _ _ _) = False"
| "whole_call _ = True"

definition grants_id :: "string \<Rightarrow> kernel_op \<Rightarrow> kernel_db \<Rightarrow> bool" where
  "grants_id i ev db \<longleftrightarrow> (case lookup_verdict ev db of Some (Granted g) \<Rightarrow> d_id g = i | _ \<Rightarrow> False)"

lemma spent_not_granted:
  assumes "decision_spent i db" and "whole_call ev"
  shows "\<not> grants_id i ev db"
proof
  assume "grants_id i ev db"
  then obtain g where g: "lookup_verdict ev db = Some (Granted g)" "d_id g = i"
    by (auto simp: grants_id_def split: option.splits LookupResult.splits)
  have "\<exists>d \<in> set (decisions db). d_id d = i \<and> revoked_at d = None"
  proof (cases ev)
    case (KLookup a sc ac apps m now)
    then have "fst (lookupDecision a sc ac apps m now db) = Granted g" using g by simp
    then show ?thesis
      by (rule_tac lookupDecision_cases [of a sc ac apps m now db])
         (use g(2) evaluate_GrantedD(4) in \<open>fastforce simp: live_match_def\<close>)+
  next
    case (KLookupByRequest a rid apps m now)
    then have "fst (lookupDecisionByRequestId a rid apps m now db) = Granted g" using g by simp
    then show ?thesis
      by (rule_tac lookupByRequest_cases [of a rid apps m now db])
         (use g(2) evaluate_GrantedD(4) in fastforce)+
  qed (use g assms(2) in auto)
  with assms(1) show False by (auto simp: decision_spent_def)
qed

lemma revoke_spends:
  assumes "fst (revokeDecision did actor reason now db)"
  shows "decision_spent did (snd (revokeDecision did actor reason now db))"
proof -
  obtain d where d: "sql_get (by_decision_id did) (decisions db) = Some d" "revoked_at d = None"
    using assms by (auto simp: revokeDecision_def split: option.splits if_splits)
  from sql_get_SomeD [OF d(1)] have "did \<in> d_id ` set (decisions db)" by (auto simp: by_decision_id_def)
  moreover have "decisions (snd (revokeDecision did actor reason now db)) = sql_update (unrevoked_id did)
      (\<lambda>r. r\<lparr>revoked_at := Some now, revoke_reason := reason\<rparr>) (decisions db)"
    using d by (simp add: revokeDecision_def Let_def)
  moreover have "d_id (if unrevoked_id did r then r\<lparr>revoked_at := Some now, revoke_reason := reason\<rparr> else r) = d_id r"
    "d_id r = did \<Longrightarrow> revoked_at (if unrevoked_id did r then r\<lparr>revoked_at := Some now, revoke_reason := reason\<rparr> else r) \<noteq> None"
    for r by (simp_all add: unrevoked_id_def)
  ultimately show ?thesis
    by (simp only: decision_spent_def set_sql_update image_image ball_simps) simp
qed

text \<open>
  Revocation is final. Once \<open>revokeDecision\<close> has returned true, no later lookup of the run,
  by scope or by request id, grants that decision again, in any mode and whatever happens in between.
\<close>

theorem revoked_never_granted:
  assumes "fst (revokeDecision did actor reason now db)" and "list_all whole_call ops"
  shows "win_count kernel_step (grants_id did) (snd (revokeDecision did actor reason now db)) ops = 0"
proof -
  have "decision_spent did s \<Longrightarrow> win_count kernel_step (grants_id did) s ops = 0" for s
    using assms(2)
  proof (induction ops arbitrary: s)
    case (Cons ev ops)
    then show ?case using spent_not_granted [of did s ev] decision_spent_step [of did s ev] by simp
  qed simp
  then show ?thesis using revoke_spends [OF assms(1)] .
qed

lemma demo_revoke: "fst (revokeDecision ''d1'' ''operator'' None 60 demo_db)"
  by (simp add: revokeDecision_def demo_db_decisions sql_get_def by_decision_id_def unrevoked_id_def
      sql_changes_def Let_def)

theorem revoked_never_granted_witness:
  "win_count kernel_step (grants_id ''d1'') (snd (revokeDecision ''d1'' ''operator'' None 60 demo_db))
     [KLookup ''a1'' ''s'' ''w'' [''u1''] None 70, KLookupByRequest ''a1'' ''r1'' [''u1''] None 80] = 0"
  using revoked_never_granted [OF demo_revoke, of "[KLookup ''a1'' ''s'' ''w'' [''u1''] None 70,
      KLookupByRequest ''a1'' ''r1'' [''u1''] None 80]"] by simp

text \<open>What \<open>consumeAndRecord\<close> promises: the nonce row it may redeem.\<close>

definition redeemable :: "string \<Rightarrow> int \<Rightarrow> kernel_db \<Rightarrow> NonceRow \<Rightarrow> bool" where
  "redeemable rid now db n \<longleftrightarrow> n \<in> set (nonces db) \<and> request_id n = rid \<and> consumed_at n = None \<and> now \<le> expires_at n"

lemma redeemable_get:
  "kernel_wf db \<Longrightarrow> redeemable rid now db n \<Longrightarrow> sql_get (by_request_id rid) (nonces db) = Some n"
  using sql_get_key_unique [of request_id "nonces db" n]
  by (simp add: kernel_wf_def redeemable_def by_request_id_def [abs_def])

lemma consumeNonce_redeemable:
  assumes "kernel_wf db" and "redeemable rid now db n"
  shows "\<exists>db1. consumeNonce rid now db = (Some n, db1) \<and> decisions db1 = decisions db
    \<and> nonces db1 = sql_update (\<lambda>m. request_id m = rid \<and> consumed_at m = None) (\<lambda>m. m\<lparr>consumed_at := Some now\<rparr>) (nonces db)"
  using redeemable_get [OF assms] assms(2)
  by (auto simp: consumeNonce_def Let_def redeemable_def sql_changes_0)

lemma consumeNonce_not_redeemable:
  assumes "kernel_wf db" and "\<nexists>n. redeemable rid now db n"
  shows "fst (consumeNonce rid now db) = None \<and> nonces (snd (consumeNonce rid now db)) = nonces db"
proof (cases "sql_get (by_request_id rid) (nonces db)")
  case None
  then show ?thesis by (simp add: consumeNonce_def)
next
  case (Some n)
  then have n: "n \<in> set (nonces db)" "request_id n = rid" by (auto simp: by_request_id_def dest: sql_get_SomeD)
  have "consumed_at m \<noteq> None" if "m \<in> set (nonces db)" "request_id m = rid" "\<not> expires_at n < now" for m
  proof -
    have "m = n" using assms(1) that n by (auto simp: kernel_wf_def distinct_map dest: inj_onD)
    then show ?thesis using assms(2) n that by (auto simp: redeemable_def)
  qed
  then have none: "\<not> expires_at n < now \<Longrightarrow> sql_changes (\<lambda>m. request_id m = rid \<and> consumed_at m = None) (nonces db) = 0"
    "\<not> expires_at n < now \<Longrightarrow> sql_update (\<lambda>m. request_id m = rid \<and> consumed_at m = None)
        (\<lambda>m. m\<lparr>consumed_at := Some now\<rparr>) (nonces db) = nonces db"
    by (auto simp: sql_changes_0 sql_update_def intro!: map_idI)
  show ?thesis using Some none by (simp add: consumeNonce_def Let_def)
qed

text \<open>
  \<open>consumeAndRecord\<close> is all or nothing. If the nonce is missing, spent or expired the call
  answers \<open>consumed: false\<close> and changes neither table; otherwise, with a fresh decision id, it adds
  exactly one decision carrying the nonce's agent, scope and action, marks the nonce spent and links
  it to the decision; with an id already in use it raises, and the transaction leaves no trace.
\<close>

theorem consumeAndRecord_all_or_nothing:
  assumes "kernel_wf db"
  shows "if \<exists>n. redeemable rid now db n
    then (if uuid \<in> d_id ` set (decisions db)
          then consumeAndRecord uuid rid mode apps user ttl org now db = Inl UniqueViolation
          else \<exists>n db'. redeemable rid now db n
            \<and> consumeAndRecord uuid rid mode apps user ttl org now db = Inr (Consumed uuid n, db')
            \<and> (\<exists>d. decisions db' = decisions db @ [d] \<and> d_id d = uuid \<and> d_decision d = mode
                 \<and> d_agent_unit d = n_agent_unit n \<and> d_scope d = n_scope n \<and> d_action d = n_action n
                 \<and> granted_at d = now \<and> revoked_at d = None)
            \<and> nonces db' = map (\<lambda>m. if request_id m = rid
                then m\<lparr>consumed_at := Some now, decision_id := Some uuid\<rparr> else m) (nonces db))
    else (\<exists>db'. consumeAndRecord uuid rid mode apps user ttl org now db = Inr (NotConsumed, db')
            \<and> decisions db' = decisions db \<and> nonces db' = nonces db)"
proof (cases "\<exists>n. redeemable rid now db n")
  case False
  then show ?thesis
    using consumeNonce_not_redeemable [OF assms False] consumeNonce_frame(1) [of rid now db]
    by (cases "consumeNonce rid now db") (simp add: consumeAndRecord_def)
next
  case True
  then obtain n where n: "redeemable rid now db n" ..
  obtain db1 where c: "consumeNonce rid now db = (Some n, db1)" "decisions db1 = decisions db"
    "nonces db1 = sql_update (\<lambda>m. request_id m = rid \<and> consumed_at m = None)
       (\<lambda>m. m\<lparr>consumed_at := Some now\<rparr>) (nonces db)"
    using consumeNonce_redeemable [OF assms n] by blast
  have unique: "m = n" if "m \<in> set (nonces db)" "request_id m = rid" for m
    using assms n that by (auto simp: kernel_wf_def redeemable_def distinct_map dest: inj_onD)
  have rid: "request_id n = rid" "consumed_at n = None" using n by (simp_all add: redeemable_def)
  show ?thesis
  proof (cases "uuid \<in> d_id ` set (decisions db)")
    case used: True
    then show ?thesis using True c
      by (simp add: consumeAndRecord_def recordDecision_def sql_insert_def Let_def)
  next
    case fresh: False
    have "sql_update (by_request_id rid) (\<lambda>n. n\<lparr>decision_id := Some uuid\<rparr>) (nonces db1)
        = map (\<lambda>m. if request_id m = rid then m\<lparr>consumed_at := Some now, decision_id := Some uuid\<rparr> else m) (nonces db)"
      unfolding c(3) sql_update_def map_map
    proof (rule map_cong [OF refl])
      show "((\<lambda>r. if by_request_id rid r then r\<lparr>decision_id := Some uuid\<rparr> else r)
          \<circ> (\<lambda>r. if request_id r = rid \<and> consumed_at r = None then r\<lparr>consumed_at := Some now\<rparr> else r)) m
          = (if request_id m = rid then m\<lparr>consumed_at := Some now, decision_id := Some uuid\<rparr> else m)"
        if "m \<in> set (nonces db)" for m
        using unique [OF that] rid by (cases "request_id m = rid") (simp_all add: by_request_id_def)
    qed
    then show ?thesis using True c n rid fresh
      by (simp add: consumeAndRecord_def recordDecision_def sql_insert_def Let_def exI [of _ n])
  qed
qed

lemma demo_wf: "kernel_wf demo_db"
  unfolding demo_db_def by (rule kernel.invar_run) (simp add: kernel_wf_def migrateApprovalSchema_def)

theorem consumeAndRecord_all_or_nothing_witness:
  "\<exists>db'. consumeAndRecord ''d2'' ''nope'' Deny [] 1 None None 30 demo_db = Inr (NotConsumed, db')
     \<and> decisions db' = decisions demo_db \<and> nonces db' = nonces demo_db"
proof -
  have no: "\<not> redeemable ''nope'' 30 demo_db n" for n
    by (auto simp: redeemable_def demo_db_def demo_ops_def demo_input_def migrateApprovalSchema_def requestApproval_def
      sql_insert_def consumeAndRecord_def consumeNonce_def sql_get_def by_request_id_def sql_changes_def
      sql_update_def recordDecision_def Let_def)
  show ?thesis
    using consumeAndRecord_all_or_nothing [OF demo_wf, of "''nope''" 30 "''d2''" Deny "[]" 1 None None] no by simp
qed

text \<open>
  \<open>computeRetryAfterMs\<close> for one agent ignores the agent's pending requests. Its two bind
  parameters are swapped, so for every agent name that does not spell an integer the answer is the
  constant default 5000, whatever nonces are pending.
\<close>

theorem retry_after_per_agent_constant:
  assumes "a \<noteq> []" and "\<not> all_digits a" and "hd a \<noteq> CHR ''-''" and "hd a \<noteq> CHR ''+''"
  shows "computeRetryAfterMs db (Some a) now = 5000"
  using assms by (simp add: computeRetryAfterMs_def int_column_gt_def numeric_affinity_def min_expires_def)

theorem retry_after_per_agent_constant_witness:
  "computeRetryAfterMs (run kernel_step (migrateApprovalSchema 0) [KRequest ''r1'' demo_input 10]) (Some ''a1'') 20 = 5000
   \<and> computeRetryAfterMs (run kernel_step (migrateApprovalSchema 0) [KRequest ''r1'' demo_input 10]) None 20 = 299990"
  using retry_after_per_agent_constant [of "''a1''" _ 20]
  by (simp add: all_digits_def is_digit_def computeRetryAfterMs_def demo_input_def migrateApprovalSchema_def
      requestApproval_def sql_insert_def int_column_gt_def numeric_affinity_def min_expires_def)

end
