(* ===== verification/Approval_Server.thy ===== *)
theory Approval_Server
  imports Approval_Kernel
begin

text \<open>
  The kernel server, \<open>src/vault/approvals/kernel-server.ts\<close> with \<open>acl.ts\<close> and \<open>gated-write-policy.ts\<close>: the
  access check by listener, the request dispatcher \<open>handleRequest\<close> with all eight operations, the framing
  of \<open>handleConnection\<close>, and the predicate the write hooks apply to a lookup's answer. The clock a
  request reads is \<open>wall_clock\<close> of the database record; \<open>rid\<close> and \<open>uuid\<close> are the random ids a request
  would draw. The zod schema and \<open>JSON.parse\<close> behind \<open>decodeRequest\<close> are a parameter.
\<close>

section \<open>Access control by listener\<close>

datatype ApprovalAclResult = AclAllow | AclDeny string

definition checkApprovalAclByAgent :: "string \<Rightarrow> string \<Rightarrow> ApprovalAclResult" where
  "checkApprovalAclByAgent listenerAgent claimedAgentUnit =
     (if listenerAgent = [] then
        AclDeny ''listener has no bound agent identity (kernel-server bind misconfiguration)''
      else if claimedAgentUnit = [] then
        AclDeny ''request has no agent_unit; refusing to attribute to listener identity by default''
      else if claimedAgentUnit \<noteq> listenerAgent then
        AclDeny (''agent_unit mismatch: socket='' @ listenerAgent @ '', claim='' @ claimedAgentUnit)
      else AclAllow)"

section \<open>Requests and responses\<close>

datatype BrokerRequest =
    ApprovalRequest string string string "string list" "string option" "int option"
  | ApprovalLookup string string string "string list"
  | ApprovalLookupByRequest string string "string list"
  | ApprovalConsume string
  | ApprovalRevoke string string "string option"
  | ApprovalRecord string ApprovalDecisionMode "string list" int "int option"
  | ApprovalConsumeRecord string ApprovalDecisionMode "string list" int "int option"
  | ApprovalList "string option"
  | OtherOp string

fun op_name :: "BrokerRequest \<Rightarrow> string" where
  "op_name (ApprovalRequest _ _ _ _ _ _) = ''approval_request''"
| "op_name (ApprovalLookup _ _ _ _) = ''approval_lookup''"
| "op_name (ApprovalLookupByRequest _ _ _) = ''approval_lookup_by_request''"
| "op_name (ApprovalConsume _) = ''approval_consume''"
| "op_name (ApprovalRevoke _ _ _) = ''approval_revoke''"
| "op_name (ApprovalRecord _ _ _ _ _) = ''approval_record''"
| "op_name (ApprovalConsumeRecord _ _ _ _ _) = ''approval_consume_record''"
| "op_name (ApprovalList _) = ''approval_list''"
| "op_name (OtherOp name) = name"

text \<open>The projection of a decision row that crosses the wire; \<open>approval_list\<close> leaves \<open>origin\<close> out.\<close>

record ApprovalDecisionMeta =
  m_id :: string
  m_agent_unit :: string
  m_scope :: string
  m_action :: string
  m_decision :: ApprovalDecisionMode
  m_granted_at :: int
  m_granted_by_user_id :: int
  m_ttl_expires_at :: "int option"
  m_last_used_at :: "int option"
  m_revoked_at :: "int option"
  m_revoke_reason :: "string option"
  m_origin :: "origin option"

definition decision_meta :: "origin option \<Rightarrow> DecisionRow \<Rightarrow> ApprovalDecisionMeta" where
  "decision_meta org d =
     \<lparr>m_id = d_id d, m_agent_unit = d_agent_unit d, m_scope = d_scope d, m_action = d_action d,
      m_decision = d_decision d, m_granted_at = granted_at d, m_granted_by_user_id = granted_by_user_id d,
      m_ttl_expires_at = ttl_expires_at d, m_last_used_at = last_used_at d, m_revoked_at = revoked_at d,
      m_revoke_reason = revoke_reason d, m_origin = org\<rparr>"

datatype ErrorCode = DENIED | BAD_REQUEST | INTERNAL

datatype BrokerResponse =
    RespError ErrorCode string
  | RespPending string int
  | RespRateLimited int
  | RespLookup string "ApprovalDecisionMeta option"
  | RespNotConsumed
  | RespConsumed "string option" string string string "string option"
  | RespRevoked bool
  | RespRecorded string
  | RespDecisions "ApprovalDecisionMeta list"

fun lookup_state :: "LookupResult \<Rightarrow> string" where
  "lookup_state (Granted _) = ''granted''"
| "lookup_state (Denied _) = ''denied''"
| "lookup_state (Pending _) = ''pending''"
| "lookup_state Expired = ''expired''"
| "lookup_state DriftRevoked = ''drift_revoked''"
| "lookup_state NoDecision = ''no_decision''"

fun lookup_decision :: "LookupResult \<Rightarrow> ApprovalDecisionMeta option" where
  "lookup_decision (Granted d) = Some (decision_meta (Some (d_origin d)) d)"
| "lookup_decision (Denied d) = Some (decision_meta (Some (d_origin d)) d)"
| "lookup_decision _ = None"

definition lookup_response :: "LookupResult \<Rightarrow> BrokerResponse" where
  "lookup_response r = RespLookup (lookup_state r) (lookup_decision r)"

section \<open>The dispatcher\<close>

definition OPERATOR_ALLOWED_OPS :: "string list" where
  "OPERATOR_ALLOWED_OPS = [''approval_list'']"

definition KERNEL_OPERATOR_NAME :: string where
  "KERNEL_OPERATOR_NAME = ''operator''"

definition listenerOrigin :: "bool \<Rightarrow> origin" where
  "listenerOrigin isOperator = (if isOperator then OperatorOrigin else AgentOrigin)"

text \<open>One definition per branch of \<open>handleRequest\<close>; an exception of the kernel is \<open>Inl\<close>.\<close>

definition handle_approval_request ::
  "string \<Rightarrow> string \<Rightarrow> int option \<Rightarrow> string \<Rightarrow> string \<Rightarrow> string \<Rightarrow> string list \<Rightarrow> string option \<Rightarrow> int option
   \<Rightarrow> kernel_db \<Rightarrow> sql_error + BrokerResponse \<times> kernel_db"
where
  "handle_approval_request rid agent peerUid agent_unit scope action approvers why ttl db =
     (case checkApprovalAclByAgent agent agent_unit of
        AclDeny reason \<Rightarrow> Inr (RespError DENIED reason, db)
      | AclAllow \<Rightarrow>
          (let now = wall_clock db;
               counts = countPendingNonces db now;
               perAgentN = fst counts agent_unit
           in if MAX_PENDING_PER_AGENT \<le> perAgentN \<or> MAX_PENDING_GLOBAL \<le> snd counts then
                Inr (RespRateLimited (computeRetryAfterMs db
                  (if MAX_PENDING_PER_AGENT \<le> perAgentN then Some agent_unit else None) now), db)
              else
                (case requestApproval rid
                   \<lparr>i_agent_unit = agent_unit, i_scope = scope, i_action = action, i_approver_set = approvers,
                    i_why = why, i_ttl_ms = ttl, i_peer_uid = peerUid, i_agent_name = Some agent\<rparr> now db of
                   Inl e \<Rightarrow> Inl e
                 | Inr (res, db') \<Rightarrow> Inr (RespPending (fst res) (snd res), db'))))"

definition handle_approval_lookup ::
  "string \<Rightarrow> string \<Rightarrow> string \<Rightarrow> string \<Rightarrow> string list \<Rightarrow> kernel_db \<Rightarrow> BrokerResponse \<times> kernel_db"
where
  "handle_approval_lookup agent agent_unit scope action approvers db =
     (case checkApprovalAclByAgent agent agent_unit of
        AclDeny reason \<Rightarrow> (RespError DENIED reason, db)
      | AclAllow \<Rightarrow>
          (case lookupDecision agent_unit scope action approvers None (wall_clock db) db of
             (r, db') \<Rightarrow> (lookup_response r, db')))"

definition handle_approval_lookup_by_request ::
  "string \<Rightarrow> string \<Rightarrow> string \<Rightarrow> string list \<Rightarrow> kernel_db \<Rightarrow> BrokerResponse \<times> kernel_db"
where
  "handle_approval_lookup_by_request agent agent_unit rid approvers db =
     (case checkApprovalAclByAgent agent agent_unit of
        AclDeny reason \<Rightarrow> (RespError DENIED reason, db)
      | AclAllow \<Rightarrow>
          (case lookupDecisionByRequestId agent_unit rid approvers None (wall_clock db) db of
             (r, db') \<Rightarrow> (lookup_response r, db')))"

text \<open>The peek at the row's owner that precedes consuming and revoking.\<close>

definition foreign :: "string \<Rightarrow> string option \<Rightarrow> bool" where
  "foreign agent owner = (case owner of None \<Rightarrow> False
     | Some a \<Rightarrow> checkApprovalAclByAgent agent a \<noteq> AclAllow)"

definition handle_approval_consume :: "string \<Rightarrow> string \<Rightarrow> kernel_db \<Rightarrow> BrokerResponse \<times> kernel_db" where
  "handle_approval_consume agent rid db =
     (if foreign agent (map_option n_agent_unit (getNonce rid db)) then
        (RespError DENIED ''approval_consume denied: nonce does not belong to the calling agent'', db)
      else
        (case consumeNonce rid (wall_clock db) db of
           (None, db') \<Rightarrow> (RespNotConsumed, db')
         | (Some n, db') \<Rightarrow> (RespConsumed None (n_agent_unit n) (n_scope n) (n_action n) (n_why n), db')))"

definition handle_approval_revoke ::
  "string \<Rightarrow> string \<Rightarrow> string \<Rightarrow> string option \<Rightarrow> kernel_db \<Rightarrow> BrokerResponse \<times> kernel_db"
where
  "handle_approval_revoke agent did actor reason db =
     (if foreign agent (map_option d_agent_unit (getDecision did db)) then
        (RespError DENIED ''approval_revoke denied: decision does not belong to the calling agent'', db)
      else
        (case revokeDecision did actor reason (wall_clock db) db of
           (revoked, db') \<Rightarrow> (RespRevoked revoked, db')))"

definition handle_approval_record ::
  "string \<Rightarrow> string \<Rightarrow> bool \<Rightarrow> string \<Rightarrow> ApprovalDecisionMode \<Rightarrow> string list \<Rightarrow> int \<Rightarrow> int option
   \<Rightarrow> kernel_db \<Rightarrow> sql_error + BrokerResponse \<times> kernel_db"
where
  "handle_approval_record uuid agent isOperator rid mode approvers user ttl db =
     (case getNonce rid db of
        None \<Rightarrow> Inr (RespError BAD_REQUEST ''unknown request_id'', db)
      | Some nonce \<Rightarrow>
          if consumed_at nonce = None then
            Inr (RespError BAD_REQUEST ''nonce must be consumed before recording -- call approval_consume first'', db)
          else if checkApprovalAclByAgent agent (n_agent_unit nonce) \<noteq> AclAllow then
            Inr (RespError DENIED ''approval_record denied: nonce does not belong to the calling agent'', db)
          else
            (case recordDecision uuid
               \<lparr>r_nonce = nonce, r_decision = mode, r_approver_set = approvers, r_granted_by_user_id = user,
                r_ttl_ms = ttl, r_origin = Some (listenerOrigin isOperator), r_max_ttl_lifetime_ms = None\<rparr>
               (wall_clock db) db of
               Inl e \<Rightarrow> Inl e
             | Inr (did, db') \<Rightarrow> Inr (RespRecorded did, db')))"

definition handle_approval_consume_record ::
  "string \<Rightarrow> string \<Rightarrow> bool \<Rightarrow> string \<Rightarrow> ApprovalDecisionMode \<Rightarrow> string list \<Rightarrow> int \<Rightarrow> int option
   \<Rightarrow> kernel_db \<Rightarrow> sql_error + BrokerResponse \<times> kernel_db"
where
  "handle_approval_consume_record uuid agent isOperator rid mode approvers user ttl db =
     (if foreign agent (map_option n_agent_unit (getNonce rid db)) then
        Inr (RespError DENIED ''approval_consume_record denied: nonce does not belong to the calling agent'', db)
      else
        (case consumeAndRecord uuid rid mode approvers user ttl (Some (listenerOrigin isOperator))
                (wall_clock db) db of
           Inl e \<Rightarrow> Inl e
         | Inr (NotConsumed, db') \<Rightarrow> Inr (RespNotConsumed, db')
         | Inr (Consumed did n, db') \<Rightarrow>
             Inr (RespConsumed (Some did) (n_agent_unit n) (n_scope n) (n_action n) (n_why n), db')))"

definition handle_approval_list :: "string \<Rightarrow> bool \<Rightarrow> string option \<Rightarrow> kernel_db \<Rightarrow> BrokerResponse" where
  "handle_approval_list agent isOperator agent_unit db =
     (let answer = (\<lambda>flt. RespDecisions (map (decision_meta None) (listDecisions flt False (wall_clock db) db)))
      in if isOperator then answer agent_unit
         else (case checkApprovalAclByAgent agent (case agent_unit of Some a \<Rightarrow> a | None \<Rightarrow> agent) of
                 AclDeny reason \<Rightarrow> RespError DENIED reason
               | AclAllow \<Rightarrow> answer (Some agent)))"

record connection =
  c_agent :: string
  c_operator :: bool
  c_peer_uid :: "int option"

definition handleRequest ::
  "string \<Rightarrow> string \<Rightarrow> connection \<Rightarrow> BrokerRequest \<Rightarrow> kernel_db \<Rightarrow> sql_error + BrokerResponse \<times> kernel_db"
where
  "handleRequest rid uuid c req db =
     (let agent = c_agent c; isOperator = c_operator c
      in if isOperator \<and> op_name req \<notin> set OPERATOR_ALLOWED_OPS then
           Inr (RespError DENIED (''kernel operator socket is read-only: '' @ [CHR 0x27] @ op_name req @ [CHR 0x27] @
             '' is not permitted (only approval_list)''), db)
         else (case req of
             ApprovalRequest a sc ac apps why ttl \<Rightarrow>
               handle_approval_request rid agent (c_peer_uid c) a sc ac apps why ttl db
           | ApprovalLookup a sc ac apps \<Rightarrow> Inr (handle_approval_lookup agent a sc ac apps db)
           | ApprovalLookupByRequest a r apps \<Rightarrow> Inr (handle_approval_lookup_by_request agent a r apps db)
           | ApprovalConsume r \<Rightarrow> Inr (handle_approval_consume agent r db)
           | ApprovalRevoke did actor reason \<Rightarrow> Inr (handle_approval_revoke agent did actor reason db)
           | ApprovalRecord r mode apps user ttl \<Rightarrow>
               handle_approval_record uuid agent isOperator r mode apps user ttl db
           | ApprovalConsumeRecord r mode apps user ttl \<Rightarrow>
               handle_approval_consume_record uuid agent isOperator r mode apps user ttl db
           | ApprovalList a \<Rightarrow> Inr (handle_approval_list agent isOperator a db, db)
           | OtherOp name \<Rightarrow>
               Inr (RespError BAD_REQUEST (''kernel-server does not serve op: '' @ name), db)))"

text \<open>
  The \<open>try\<close> around \<open>handleRequest\<close> in \<open>handleConnection\<close>: an exception becomes an \<open>INTERNAL\<close> response.
  The failed \<open>INSERT\<close> is the first statement of its operation, so the tables are as they were.
\<close>

definition serve :: "string \<Rightarrow> string \<Rightarrow> connection \<Rightarrow> BrokerRequest \<Rightarrow> kernel_db \<Rightarrow> BrokerResponse \<times> kernel_db" where
  "serve rid uuid c req db =
     (case handleRequest rid uuid c req db of
        Inl UniqueViolation \<Rightarrow> (RespError INTERNAL ''UNIQUE constraint failed'', db)
      | Inr p \<Rightarrow> p)"

section \<open>Framing\<close>

definition MAX_FRAME_BYTES :: nat where "MAX_FRAME_BYTES = 64 * 1024"

text \<open>\<open>Buffer.byteLength(s, "utf8")\<close> on code points below 256.\<close>

definition byteLength :: "string \<Rightarrow> nat" where
  "byteLength s = sum_list (map (\<lambda>c. if (of_char c :: nat) < 128 then 1 else 2) s)"

text \<open>The loop \<open>while ((nl = buffer.indexOf("\n")) >= 0)\<close>: the complete lines and the rest.\<close>

definition newline :: char where "newline = CHR 0x0A"

fun split_lines :: "string \<Rightarrow> string list \<times> string" where
  "split_lines [] = ([], [])"
| "split_lines (c # cs) = (case split_lines cs of (ls, r) \<Rightarrow>
     if c = newline then ([] # ls, r)
     else (case ls of [] \<Rightarrow> ([], c # r) | l # ls' \<Rightarrow> ((c # l) # ls', r)))"

text \<open>
  One \<open>data\<close> event of a connection with the per-line handler \<open>h\<close>. An oversized buffer is answered
  with an error and left in place.
\<close>

fun serve_lines :: "(string \<Rightarrow> 's \<Rightarrow> BrokerResponse \<times> 's) \<Rightarrow> string list \<Rightarrow> 's \<Rightarrow> BrokerResponse list \<times> 's" where
  "serve_lines h [] s = ([], s)"
| "serve_lines h (l # ls) s =
     (if l = [] then serve_lines h ls s
      else (case h l s of (r, s') \<Rightarrow> (case serve_lines h ls s' of (rs, s'') \<Rightarrow> (r # rs, s''))))"

definition on_data ::
  "(string \<Rightarrow> 's \<Rightarrow> BrokerResponse \<times> 's) \<Rightarrow> string \<Rightarrow> string \<times> 's \<Rightarrow> BrokerResponse list \<times> (string \<times> 's)"
where
  "on_data h chunk conn = (case conn of (buffer, s) \<Rightarrow>
     (let buffer' = buffer @ chunk
      in if MAX_FRAME_BYTES < byteLength buffer' then
           ([RespError BAD_REQUEST ''Frame exceeds 64 KiB limit''], (buffer', s))
         else (case split_lines buffer' of (ls, rest) \<Rightarrow>
           (case serve_lines h ls s of (rs, s') \<Rightarrow> (rs, (rest, s'))))))"

text \<open>
  The per-line handler of a kernel connection: decoding errors are answered, decoded requests served.
  \<open>ids n\<close> are the random ids of the \<open>n\<close>-th request.
\<close>

definition kernel_line ::
  "(string \<Rightarrow> string + BrokerRequest) \<Rightarrow> (nat \<Rightarrow> string \<times> string) \<Rightarrow> connection
   \<Rightarrow> string \<Rightarrow> kernel_db \<times> nat \<Rightarrow> BrokerResponse \<times> (kernel_db \<times> nat)"
where
  "kernel_line decodeRequest ids c line st = (case st of (db, n) \<Rightarrow>
     (case decodeRequest line of
        Inl msg \<Rightarrow> (RespError BAD_REQUEST msg, (db, n))
      | Inr req \<Rightarrow> (case serve (fst (ids n)) (snd (ids n)) c req db of (r, db') \<Rightarrow> (r, (db', Suc n)))))"

section \<open>The gated-write policy\<close>

record GatedWriteLookup =
  g_state :: "string option"
  g_origin :: "origin option"

datatype GatedWriteAction = GAllow | GBlock | GWait

definition requireOperatorApprovalForWrites :: "(string \<Rightarrow> string option) \<Rightarrow> bool" where
  "requireOperatorApprovalForWrites env \<longleftrightarrow> env ''SWITCHROOM_REQUIRE_OPERATOR_APPROVAL_WRITE'' = Some ''1''"

definition isGatedWriteApproved :: "GatedWriteLookup \<Rightarrow> bool \<Rightarrow> bool" where
  "isGatedWriteApproved l requireOperator =
     (if g_state l \<noteq> Some ''granted'' then False
      else if \<not> requireOperator then True
      else if g_origin l \<noteq> Some OperatorOrigin then False
      else True)"

definition evaluateGatedWrite :: "GatedWriteLookup \<Rightarrow> bool \<Rightarrow> GatedWriteAction" where
  "evaluateGatedWrite l requireOperator =
     (if isGatedWriteApproved l requireOperator then GAllow
      else if g_state l = Some ''granted'' then GBlock
      else GWait)"

text \<open>
  \<open>approvalLookup\<close> of \<open>src/cli/drive-write-pretool.ts\<close>: what a write hook reads off a kernel response; an
  error or a response with no \<open>state\<close> is a missing state.
\<close>

fun gated_lookup :: "BrokerResponse \<Rightarrow> GatedWriteLookup" where
  "gated_lookup (RespLookup st dec) =
     \<lparr>g_state = Some st, g_origin = (case dec of Some m \<Rightarrow> m_origin m | None \<Rightarrow> None)\<rparr>"
| "gated_lookup (RespPending _ _) = \<lparr>g_state = Some ''pending'', g_origin = None\<rparr>"
| "gated_lookup (RespRateLimited _) = \<lparr>g_state = Some ''rate_limited'', g_origin = None\<rparr>"
| "gated_lookup _ = \<lparr>g_state = None, g_origin = None\<rparr>"

section \<open>The kernel call behind a request\<close>

text \<open>
  The call a request makes on the kernel, if the guards let it through, with its arguments.
\<close>

definition acl_ok :: "string \<Rightarrow> string \<Rightarrow> bool" where
  "acl_ok agent claim \<longleftrightarrow> agent \<noteq> [] \<and> claim = agent"

lemma acl_allow_iff [simp]: "checkApprovalAclByAgent agent claim = AclAllow \<longleftrightarrow> acl_ok agent claim"
  by (auto simp: checkApprovalAclByAgent_def acl_ok_def)

definition under_caps :: "string \<Rightarrow> kernel_db \<Rightarrow> bool" where
  "under_caps a db \<longleftrightarrow> fst (countPendingNonces db (wall_clock db)) a < MAX_PENDING_PER_AGENT
     \<and> snd (countPendingNonces db (wall_clock db)) < MAX_PENDING_GLOBAL"

fun kernel_call :: "string \<Rightarrow> string \<Rightarrow> connection \<Rightarrow> BrokerRequest \<Rightarrow> kernel_db \<Rightarrow> kernel_op option" where
  "kernel_call rid uuid c (ApprovalRequest a sc ac apps why ttl) db =
     (if acl_ok (c_agent c) a \<and> under_caps a db then
        Some (KRequest rid \<lparr>i_agent_unit = a, i_scope = sc, i_action = ac, i_approver_set = apps, i_why = why,
          i_ttl_ms = ttl, i_peer_uid = c_peer_uid c, i_agent_name = Some (c_agent c)\<rparr> (wall_clock db))
      else None)"
| "kernel_call rid uuid c (ApprovalLookup a sc ac apps) db =
     (if acl_ok (c_agent c) a then Some (KLookup a sc ac apps None (wall_clock db)) else None)"
| "kernel_call rid uuid c (ApprovalLookupByRequest a r apps) db =
     (if acl_ok (c_agent c) a then Some (KLookupByRequest a r apps None (wall_clock db)) else None)"
| "kernel_call rid uuid c (ApprovalConsume r) db =
     (if foreign (c_agent c) (map_option n_agent_unit (getNonce r db)) then None
      else Some (KConsume r (wall_clock db)))"
| "kernel_call rid uuid c (ApprovalRevoke did actor reason) db =
     (if foreign (c_agent c) (map_option d_agent_unit (getDecision did db)) then None
      else Some (KRevoke did actor reason (wall_clock db)))"
| "kernel_call rid uuid c (ApprovalRecord r mode apps user ttl) db =
     (case getNonce r db of None \<Rightarrow> None
      | Some n \<Rightarrow> if consumed_at n = None \<or> \<not> acl_ok (c_agent c) (n_agent_unit n) then None
          else Some (KRecord uuid \<lparr>r_nonce = n, r_decision = mode, r_approver_set = apps,
            r_granted_by_user_id = user, r_ttl_ms = ttl, r_origin = Some (listenerOrigin (c_operator c)),
            r_max_ttl_lifetime_ms = None\<rparr> (wall_clock db)))"
| "kernel_call rid uuid c (ApprovalConsumeRecord r mode apps user ttl) db =
     (if foreign (c_agent c) (map_option n_agent_unit (getNonce r db)) then None
      else Some (KConsumeRecord uuid r mode apps user ttl (Some (listenerOrigin (c_operator c))) (wall_clock db)))"
| "kernel_call rid uuid c _ db = None"

definition served_call :: "string \<Rightarrow> string \<Rightarrow> connection \<Rightarrow> BrokerRequest \<Rightarrow> kernel_db \<Rightarrow> kernel_op option" where
  "served_call rid uuid c req db = (if c_operator c then None else kernel_call rid uuid c req db)"

definition acl_reason :: "string \<Rightarrow> string \<Rightarrow> string" where
  "acl_reason a b = (case checkApprovalAclByAgent a b of AclAllow \<Rightarrow> [] | AclDeny r \<Rightarrow> r)"

lemma acl_case [simp]:
  "(case checkApprovalAclByAgent a b of AclAllow \<Rightarrow> x | AclDeny r \<Rightarrow> f r) = (if acl_ok a b then x else f (acl_reason a b))"
  using acl_allow_iff [of a b] by (auto simp: acl_reason_def simp del: acl_allow_iff split: ApprovalAclResult.splits)

lemma handle_request_step:
  "(case handle_approval_request rid (c_agent c) (c_peer_uid c) a sc ac apps why ttl db of Inl _ \<Rightarrow> db | Inr p \<Rightarrow> snd p)
    = (case kernel_call rid uuid c (ApprovalRequest a sc ac apps why ttl) db of None \<Rightarrow> db | Some ev \<Rightarrow> kernel_step ev db)"
  by (auto simp: handle_approval_request_def Let_def under_caps_def not_le split: sum.splits)

lemma serve_step:
  "snd (serve rid uuid c req db)
     = (case served_call rid uuid c req db of None \<Rightarrow> db | Some ev \<Rightarrow> kernel_step ev db)"
proof (cases "c_operator c \<and> op_name req \<notin> set OPERATOR_ALLOWED_OPS")
  case True
  then show ?thesis by (simp add: serve_def handleRequest_def served_call_def)
next
  case False
  have serve: "snd (serve rid uuid c req db) = (case handleRequest rid uuid c req db of Inl _ \<Rightarrow> db | Inr p \<Rightarrow> snd p)" for req
    by (auto simp: serve_def split: sum.splits sql_error.splits)
  show ?thesis
  proof (cases req)
    case (ApprovalRequest a sc ac apps why ttl)
    then show ?thesis
      using False handle_request_step [of db rid c a sc ac apps why ttl uuid]
      by (auto simp: serve handleRequest_def served_call_def OPERATOR_ALLOWED_OPS_def)
  next
    case (ApprovalLookup a sc ac apps)
    then show ?thesis using False
      by (auto simp: serve handleRequest_def served_call_def OPERATOR_ALLOWED_OPS_def
          handle_approval_lookup_def split: prod.splits)
  next
    case (ApprovalLookupByRequest a r apps)
    then show ?thesis using False
      by (auto simp: serve handleRequest_def served_call_def OPERATOR_ALLOWED_OPS_def
          handle_approval_lookup_by_request_def split: prod.splits)
  next
    case (ApprovalConsume r)
    then show ?thesis using False
      by (auto simp: serve handleRequest_def served_call_def OPERATOR_ALLOWED_OPS_def handle_approval_consume_def
          split: prod.splits option.splits)
  next
    case (ApprovalRevoke did actor reason)
    then show ?thesis using False
      by (auto simp: serve handleRequest_def served_call_def OPERATOR_ALLOWED_OPS_def handle_approval_revoke_def
          split: prod.splits)
  next
    case (ApprovalRecord r mode apps user ttl)
    then show ?thesis using False
      by (auto simp: serve handleRequest_def served_call_def OPERATOR_ALLOWED_OPS_def handle_approval_record_def
          split: prod.splits sum.splits option.splits)
  next
    case (ApprovalConsumeRecord r mode apps user ttl)
    then show ?thesis using False
      by (auto simp: serve handleRequest_def served_call_def OPERATOR_ALLOWED_OPS_def
          handle_approval_consume_record_def split: prod.splits sum.splits consume_result.splits)
  qed (use False in \<open>auto simp: serve handleRequest_def served_call_def OPERATOR_ALLOWED_OPS_def\<close>)
qed

section \<open>What an authorised call changes\<close>

text \<open>A call on behalf of the agent \<open>a\<close>, as the guards of the dispatcher establish it.\<close>

fun own_call :: "string \<Rightarrow> kernel_db \<Rightarrow> kernel_op \<Rightarrow> bool" where
  "own_call a db (KRequest rid input now) = (i_agent_unit input = a \<and> now = wall_clock db \<and> under_caps a db)"
| "own_call a db (KLookup a' sc ac apps m now) = (a' = a \<and> m = None \<and> now = wall_clock db)"
| "own_call a db (KLookupByRequest a' r apps m now) = (a' = a \<and> m = None \<and> now = wall_clock db)"
| "own_call a db (KConsume r now) = (\<forall>n. getNonce r db = Some n \<longrightarrow> n_agent_unit n = a)"
| "own_call a db (KRecord uuid input now) = (r_nonce input \<in> set (nonces db) \<and> n_agent_unit (r_nonce input) = a
     \<and> r_origin input = Some AgentOrigin \<and> r_max_ttl_lifetime_ms input = None)"
| "own_call a db (KConsumeRecord uuid r mode apps user ttl org now) =
     ((\<forall>n. getNonce r db = Some n \<longrightarrow> n_agent_unit n = a) \<and> org = Some AgentOrigin)"
| "own_call a db (KRevoke did actor reason now) = (\<forall>d. getDecision did db = Some d \<longrightarrow> d_agent_unit d = a)"
| "own_call a db _ = False"

lemma served_call_own:
  assumes "served_call rid uuid c req db = Some ev"
  shows "own_call (c_agent c) db ev \<and> \<not> c_operator c"
proof -
  have "\<not> c_operator c" "kernel_call rid uuid c req db = Some ev"
    using assms by (auto simp: served_call_def split: if_splits)
  then show ?thesis
    by (cases req) (auto simp: acl_ok_def foreign_def listenerOrigin_def getNonce_def
        split: if_splits option.splits dest: sql_get_SomeD)
qed

text \<open>The nonce an event rewrites.\<close>

fun nonce_target :: "kernel_op \<Rightarrow> string option" where
  "nonce_target (KConsume r now) = Some r"
| "nonce_target (KRecord uuid input now) = Some (request_id (r_nonce input))"
| "nonce_target (KConsumeRecord uuid r mode apps user ttl org now) = Some r"
| "nonce_target _ = None"

definition nonce_rewrite :: "string option \<Rightarrow> (NonceRow \<Rightarrow> NonceRow) \<Rightarrow> bool" where
  "nonce_rewrite t f \<longleftrightarrow> nonce_touch f \<and> (\<forall>n. Some (request_id n) \<noteq> t \<longrightarrow> f n = n)"

lemma nonce_rewrite_id [simp]: "nonce_rewrite t (\<lambda>n. n)"
  by (simp add: nonce_rewrite_def nonce_touch_def)

lemma consumeNonce_rewrite: "\<exists>f. nonce_rewrite (Some rid) f \<and> nonces (snd (consumeNonce rid now db)) = map f (nonces db)"
proof -
  let ?f = "\<lambda>n. if request_id n = rid \<and> consumed_at n = None then n\<lparr>consumed_at := Some now\<rparr> else n"
  have f: "nonce_rewrite (Some rid) ?f" by (simp add: nonce_rewrite_def nonce_touch_def)
  have "nonces (snd (consumeNonce rid now db)) = nonces db \<or> nonces (snd (consumeNonce rid now db)) = map ?f (nonces db)"
    by (simp add: consumeNonce_def Let_def sql_update_def split: option.splits)
  then show ?thesis
  proof
    assume "nonces (snd (consumeNonce rid now db)) = nonces db"
    then show ?thesis by (intro exI [of _ "\<lambda>n. n"]) simp
  next
    assume "nonces (snd (consumeNonce rid now db)) = map ?f (nonces db)"
    then show ?thesis using f by (intro exI [of _ ?f] conjI)
  qed
qed

lemma link_rewrite:
  "nonce_rewrite (Some rid) (\<lambda>n. if by_request_id rid n then n\<lparr>decision_id := Some uuid\<rparr> else n)"
  by (simp add: nonce_rewrite_def nonce_touch_def by_request_id_def)

lemma recordDecision_rewrite:
  assumes "recordDecision uuid input now db = Inr (did, db')"
  shows "\<exists>f. nonce_rewrite (Some (request_id (r_nonce input))) f \<and> nonces db' = map f (nonces db)"
  using recordDecision_InrD(4) [OF assms] link_rewrite unfolding sql_update_def by blast

lemma nonce_rewrite_comp: "nonce_rewrite t f \<Longrightarrow> nonce_rewrite t g \<Longrightarrow> nonce_rewrite t (g \<circ> f)"
  by (simp add: nonce_rewrite_def nonce_touch_def)

lemma consumeAndRecord_rewrite:
  assumes "consumeAndRecord uuid rid mode apps user ttl org now db = Inr (res, db')"
  shows "\<exists>f. nonce_rewrite (Some rid) f \<and> nonces db' = map f (nonces db)"
  using assms
proof (cases rule: consumeAndRecord_InrD)
  case no
  then show ?thesis using consumeNonce_rewrite [of rid now db] by simp
next
  case (yes n db1 input)
  have "request_id n = rid" using consumeNonce_SomeD(4) [of rid now db n] yes by simp
  with yes obtain f g where f: "nonce_rewrite (Some rid) f" "nonces db1 = map f (nonces db)"
      and g: "nonce_rewrite (Some rid) g" "nonces db' = map g (nonces db1)"
    using consumeNonce_rewrite [of rid now db] recordDecision_rewrite [OF yes(9)] by auto
  then show ?thesis using nonce_rewrite_comp [OF f(1) g(1)] by (metis map_map)
qed

lemma lookupDecision_nonces [simp]: "nonces (snd (lookupDecision a sc ac apps m now db)) = nonces db"
  by (rule lookupDecision_cases [of a sc ac apps m now db]) simp_all

lemma lookupByRequest_nonces [simp]: "nonces (snd (lookupDecisionByRequestId a rid apps m now db)) = nonces db"
  by (rule lookupByRequest_cases [of a rid apps m now db]) simp_all

lemma kernel_step_nonces_cases:
  obtains (rewrite) f where "nonce_rewrite (nonce_target ev) f" "nonces (kernel_step ev db) = map f (nonces db)"
    | (add) rid input now n where "ev = KRequest rid input now" "nonces (kernel_step ev db) = nonces db @ [n]"
        "n_agent_unit n = i_agent_unit input" "decision_id n = None"
proof -
  have same: thesis if "nonces (kernel_step ev db) = nonces db"
    using that rewrite [of "\<lambda>n. n"] by simp
  show thesis
  proof (cases ev)
    case (KRequest rid input now)
    show thesis
    proof (cases "requestApproval rid input now db")
      case (Inl e)
      then show thesis using same KRequest by simp
    next
      case (Inr p)
      obtain res db' where "p = (res, db')" by (cases p)
      then show thesis using add requestApproval_InrD(4) [of rid input now db res db'] KRequest Inr by auto
    qed
  next
    case (KConsume rid now)
    then show thesis using consumeNonce_rewrite [of rid now db] rewrite by auto
  next
    case (KRecord uuid input now)
    then show thesis using recordDecision_rewrite [of uuid input now db] rewrite same
      by (cases "recordDecision uuid input now db") auto
  next
    case (KConsumeRecord uuid r mode apps user ttl org now)
    then show thesis using consumeAndRecord_rewrite [of uuid r mode apps user ttl org now db] rewrite same
      by (cases "consumeAndRecord uuid r mode apps user ttl org now db") auto
  qed (use same in simp_all)
qed

text \<open>Row ids identify rows, so an authorised rewrite touches only rows of the calling agent.\<close>

lemma own_target:
  assumes "kernel_wf db" "own_call a db ev" "nonce_target ev = Some (request_id n)" "n \<in> set (nonces db)"
  shows "n_agent_unit n = a"
proof -
  have "getNonce (request_id n) db = Some n"
    using sql_get_key_unique [of request_id "nonces db" n] assms(1,4)
    by (simp add: kernel_wf_def getNonce_def by_request_id_def [abs_def])
  moreover have "m = n" if "m \<in> set (nonces db)" "request_id m = request_id n" for m
    using that assms(1,4) by (auto simp: kernel_wf_def distinct_map dest: inj_onD)
  ultimately show ?thesis using assms(2,3) by (cases ev) auto
qed

lemma own_call_nonces:
  assumes "kernel_wf db" and "own_call a db ev"
  shows "own_change n_agent_unit a (nonces db) (nonces (kernel_step ev db))"
proof (rule kernel_step_nonces_cases [of ev db])
  fix f assume f: "nonce_rewrite (nonce_target ev) f" "nonces (kernel_step ev db) = map f (nonces db)"
  show ?thesis unfolding f(2)
  proof (rule own_change_mapI)
    show "n_agent_unit (f n) = n_agent_unit n" for n using f(1) by (simp add: nonce_rewrite_def nonce_touch_def)
    show "f n = n" if "n \<in> set (nonces db)" "n_agent_unit n \<noteq> a" for n
      using own_target [OF assms, of n] that f(1) unfolding nonce_rewrite_def by metis
  qed
next
  fix rid input now n assume "ev = KRequest rid input now" "nonces (kernel_step ev db) = nonces db @ [n]"
    "n_agent_unit n = i_agent_unit input"
  then show ?thesis using assms(2) by (simp add: own_change_addI)
qed

section \<open>The server invariant\<close>

text \<open>
  A decision row as the server leaves it: recorded by an agent listener, and any expiry within the
  lifetime cap counted from the grant.
\<close>

definition row_ok :: "DecisionRow \<Rightarrow> bool" where
  "row_ok d \<longleftrightarrow> d_origin d = AgentOrigin
     \<and> (\<forall>e. ttl_expires_at d = Some e \<longrightarrow> e \<le> granted_at d + DEFAULT_MAX_TTL_LIFETIME_MS)"

text \<open>A nonce's link points at a decision of the same agent, scope and action.\<close>

definition backs :: "NonceRow \<Rightarrow> DecisionRow \<Rightarrow> bool" where
  "backs n d \<longleftrightarrow> decision_id n = Some (d_id d) \<and> d_agent_unit d = n_agent_unit n \<and> d_scope d = n_scope n \<and> d_action d = n_action n"

definition linked :: "kernel_db \<Rightarrow> bool" where
  "linked db \<longleftrightarrow> (\<forall>n \<in> set (nonces db). decision_id n = None \<or> (\<exists>d \<in> set (decisions db). backs n d))"

definition within_caps :: "kernel_db \<Rightarrow> bool" where
  "within_caps db \<longleftrightarrow>
     (\<forall>a. fst (countPendingNonces db (wall_clock db)) a \<le> MAX_PENDING_PER_AGENT)
     \<and> snd (countPendingNonces db (wall_clock db)) \<le> MAX_PENDING_GLOBAL"

definition server_wf :: "kernel_db \<Rightarrow> bool" where
  "server_wf db \<longleftrightarrow> kernel_wf db \<and> (\<forall>d \<in> set (decisions db). row_ok d) \<and> linked db \<and> within_caps db"

lemma recorded_row_ok:
  "r_origin input = Some AgentOrigin \<Longrightarrow> r_max_ttl_lifetime_ms input = None \<Longrightarrow> row_ok (recorded_row uuid input now)"
  by (auto simp: row_ok_def recorded_expiry_def Let_def split: option.splits if_splits)

lemma renewed_bound:
  assumes "row_ok d" and "renewed_expiry d DEFAULT_MAX_TTL_LIFETIME_MS now = Some e"
  shows "e \<le> granted_at d + DEFAULT_MAX_TTL_LIFETIME_MS"
proof (cases "ttl_expires_at d")
  case None
  then show ?thesis using assms by (simp add: renewed_expiry_def)
next
  case (Some e0)
  then have "e0 \<le> granted_at d + DEFAULT_MAX_TTL_LIFETIME_MS" using assms(1) by (simp add: row_ok_def)
  then show ?thesis using Some assms(2) by (simp add: renewed_expiry_def Let_def split: if_splits)
qed

lemma row_update_ok:
  assumes "row_ok d"
  shows "row_ok (row_update d can None now d)"
proof -
  have "ttl_expires_at (row_update d can None now d) = ttl_expires_at d
      \<or> ttl_expires_at (row_update d can None now d) = renewed_expiry d DEFAULT_MAX_TTL_LIFETIME_MS now"
    by (simp add: row_update_def)
  moreover have "d_origin (row_update d can None now d) = d_origin d" "granted_at (row_update d can None now d) = granted_at d"
    using touches_only_row_update [of d can None now] by (simp_all add: touches_only_def)
  ultimately show ?thesis
    using assms renewed_bound [OF assms, of now] by (auto simp: row_ok_def)
qed

text \<open>The evaluated row of a lookup by request belongs to the caller, through the link.\<close>

lemma linked_decision:
  assumes "kernel_wf db" "linked db" "n \<in> set (nonces db)" "decision_id n = Some (d_id d)" "d \<in> set (decisions db)"
  shows "backs n d"
proof -
  obtain d' where "d' \<in> set (decisions db)" "backs n d'"
    using assms by (auto simp: linked_def)
  moreover from this have "d' = d"
    using assms by (auto simp: kernel_wf_def backs_def distinct_map dest: inj_onD)
  ultimately show ?thesis by simp
qed

lemma decision_by_id:
  "kernel_wf db \<Longrightarrow> d \<in> set (decisions db) \<Longrightarrow> r \<in> set (decisions db) \<Longrightarrow> d_id r = d_id d \<Longrightarrow> r = d"
  by (auto simp: kernel_wf_def distinct_map dest: inj_onD)

text \<open>The row an authorised call rewrites: one row of the calling agent, which stays well formed.\<close>

definition rewrites_own :: "string \<Rightarrow> DecisionRow list \<Rightarrow> (DecisionRow \<Rightarrow> DecisionRow) \<Rightarrow> bool" where
  "rewrites_own a ds f \<longleftrightarrow> (\<exists>d \<in> set ds. d_agent_unit d = a \<and> touches_only (d_id d) f \<and> (row_ok d \<longrightarrow> row_ok (f d)))"

lemma evaluate_rewrites_own:
  "d \<in> set ds \<Longrightarrow> d_agent_unit d = a \<Longrightarrow> rewrites_own a ds (row_update d can None now)"
  using touches_only_row_update row_update_ok unfolding rewrites_own_def by blast

lemma revoke_rewrites_own:
  assumes "\<forall>d. getDecision did db = Some d \<longrightarrow> d_agent_unit d = a"
  shows "decisions (snd (revokeDecision did actor reason now db)) = decisions db
    \<or> (\<exists>f. rewrites_own a (decisions db) f \<and> decisions (snd (revokeDecision did actor reason now db)) = map f (decisions db))"
proof (cases "sql_get (by_decision_id did) (decisions db)")
  case None
  then show ?thesis by (simp add: revokeDecision_def)
next
  case (Some d)
  let ?f = "\<lambda>r. if unrevoked_id did r then r\<lparr>revoked_at := Some now, revoke_reason := reason\<rparr> else r"
  have d: "d \<in> set (decisions db)" "d_id d = did" "d_agent_unit d = a"
    using Some assms sql_get_SomeD [OF Some] by (auto simp: getDecision_def by_decision_id_def)
  have "touches_only (d_id d) ?f" using d(2) by (simp add: touches_only_def unrevoked_id_def)
  moreover have "row_ok d \<longrightarrow> row_ok (?f d)" by (simp add: row_ok_def)
  ultimately have "rewrites_own a (decisions db) ?f" using d unfolding rewrites_own_def by blast
  moreover have "decisions (snd (revokeDecision did actor reason now db)) = decisions db
      \<or> decisions (snd (revokeDecision did actor reason now db)) = map ?f (decisions db)"
    using Some by (simp add: revokeDecision_def Let_def sql_update_def)
  ultimately show ?thesis by blast
qed

lemma own_call_decisions_cases:
  assumes "kernel_wf db" "linked db" "own_call a db ev"
  obtains (same) "decisions (kernel_step ev db) = decisions db"
    | (rewrite) f where "rewrites_own a (decisions db) f" "decisions (kernel_step ev db) = map f (decisions db)"
    | (add) uuid input now where "decisions (kernel_step ev db) = decisions db @ [recorded_row uuid input now]"
        "n_agent_unit (r_nonce input) = a" "r_origin input = Some AgentOrigin" "r_max_ttl_lifetime_ms input = None"
proof (cases ev)
  case (KRequest rid input now)
  then show thesis
    by (intro same) (auto simp: requestApproval_InrD(1) split: sum.splits)
next
  case (KLookup a' sc ac apps m now)
  show thesis
  proof (rule lookupDecision_cases [of a sc ac apps None now db])
    fix d assume d: "d \<in> set (decisions db)" "live_match a sc ac d"
      "lookupDecision a sc ac apps None now db = evaluateDecisionRow d (canonicalizeApproverSet apps) None now db"
    then have "d_agent_unit d = a" by (simp add: live_match_def)
    from evaluate_rewrites_own [OF d(1) this, of "canonicalizeApproverSet apps" now] show thesis
      using d(3) KLookup assms(3) by (intro rewrite [of "row_update d (canonicalizeApproverSet apps) None now"]) (simp_all add: evaluate_decisions)
  qed (use same KLookup assms(3) in simp)
next
  case (KLookupByRequest a' rid apps m now)
  show thesis
  proof (rule lookupByRequest_cases [of a rid apps None now db])
    fix n d assume n: "n \<in> set (nonces db)" "n_agent_unit n = a" "decision_id n = Some (d_id d)" and d: "d \<in> set (decisions db)"
      "lookupDecisionByRequestId a rid apps None now db = evaluateDecisionRow d (canonicalizeApproverSet apps) None now db"
    have "d_agent_unit d = a"
      using linked_decision [OF assms(1,2) n(1,3) d(1)] n(2) by (simp add: backs_def)
    from evaluate_rewrites_own [OF d(1) this, of "canonicalizeApproverSet apps" now] show thesis
      using d(2) KLookupByRequest assms(3) by (intro rewrite [of "row_update d (canonicalizeApproverSet apps) None now"]) (simp_all add: evaluate_decisions)
  qed (use same KLookupByRequest assms(3) in simp)
next
  case (KRecord uuid input now)
  show thesis
  proof (cases "recordDecision uuid input now db")
    case (Inl e)
    then show thesis using same KRecord by simp
  next
    case (Inr p)
    obtain did db' where "p = (did, db')" by (cases p)
    then show thesis using add [of uuid input now] recordDecision_InrD(3) [of uuid input now db did db'] KRecord Inr assms(3)
      by simp
  qed
next
  case (KConsumeRecord uuid r mode apps user ttl org now)
  show thesis
  proof (cases "consumeAndRecord uuid r mode apps user ttl org now db")
    case (Inl e)
    then show thesis using same KConsumeRecord by simp
  next
    case (Inr p)
    obtain res db' where p: "p = (res, db')" by (cases p)
    from Inr [unfolded p] show thesis
    proof (cases rule: consumeAndRecord_InrD)
      case no
      then have "decisions db' = decisions db" using consumeNonce_frame(1) [of r now db] by simp
      then show thesis using same KConsumeRecord Inr p by simp
    next
      case (yes n db1 input)
      have n: "n \<in> set (nonces db)" "request_id n = r" using consumeNonce_SomeD(3,4) [of r now db n] yes(2) by simp_all
      have "nonce_target ev = Some (request_id n)" using KConsumeRecord n(2) by simp
      then have "n_agent_unit n = a" using own_target [OF assms(1,3)] n(1) by blast
      moreover have "decisions db1 = decisions db" using consumeNonce_frame(1) [of r now db] yes(2) by simp
      ultimately show thesis
        using add [of uuid input now] recordDecision_InrD(3) [OF yes(9)] yes KConsumeRecord Inr p assms(3) by simp
    qed
  qed
next
  case (KRevoke did actor reason now)
  then have "\<forall>d. getDecision did db = Some d \<longrightarrow> d_agent_unit d = a" using assms(3) by simp
  from revoke_rewrites_own [OF this, of actor reason now] KRevoke show thesis using same rewrite by auto
qed (use same assms(3) in simp_all)

text \<open>Links survive: a nonce keeps its link, and the linked decision keeps its identity.\<close>

lemma decisions_evolve_backs:
  assumes "decisions_evolve ds ds'" "d \<in> set ds" "backs n d"
  shows "\<exists>d' \<in> set ds'. backs n d'"
proof -
  consider f i where "touches_only i f" "ds' = map f ds" | r where "ds' = ds @ [r]"
    using assms(1) by (auto simp: decisions_evolve_def)
  then show ?thesis
  proof cases
    case (1 f i)
    then have "backs n (f d)" using assms(3) by (simp add: backs_def touches_only_def)
    then show ?thesis using 1(2) assms(2) by auto
  qed (use assms in auto)
qed

definition keeps_link :: "NonceRow \<Rightarrow> NonceRow \<Rightarrow> bool" where
  "keeps_link n n' \<longleftrightarrow> decision_id n' = decision_id n \<and> n_agent_unit n' = n_agent_unit n \<and> n_scope n' = n_scope n \<and> n_action n' = n_action n"

lemma linked_keep:
  assumes "linked db" "decisions_evolve (decisions db) (decisions db')"
    and "\<forall>n' \<in> set (nonces db'). decision_id n' = None \<or> (\<exists>n \<in> set (nonces db). keeps_link n n')
        \<or> (\<exists>d \<in> set (decisions db'). backs n' d)"
  shows "linked db'"
  unfolding linked_def
proof
  fix n' assume n': "n' \<in> set (nonces db')"
  show "decision_id n' = None \<or> (\<exists>d \<in> set (decisions db'). backs n' d)"
  proof (cases "\<exists>n \<in> set (nonces db). keeps_link n n'")
    case True
    then obtain n where n: "n \<in> set (nonces db)" "keeps_link n n'" by blast
    then have "decision_id n' = None \<or> (\<exists>d \<in> set (decisions db). backs n' d)"
      using assms(1) unfolding linked_def by (auto simp: keeps_link_def backs_def)
    then show ?thesis using decisions_evolve_backs [OF assms(2)] by blast
  qed (use assms(3) n' in blast)
qed

lemma keeps_link_refl [simp]: "keeps_link n n"
  by (simp add: keeps_link_def)

lemma keeps_link_self: "n \<in> A \<Longrightarrow> \<exists>m \<in> A. keeps_link m n"
  using keeps_link_refl by (rule bexI)

lemma consumeNonce_keeps: "n' \<in> set (nonces (snd (consumeNonce rid now db))) \<Longrightarrow> \<exists>n \<in> set (nonces db). keeps_link n n'"
proof -
  assume n': "n' \<in> set (nonces (snd (consumeNonce rid now db)))"
  have keep: "keeps_link n (if request_id n = rid \<and> consumed_at n = None then n\<lparr>consumed_at := Some now\<rparr> else n)" for n
    by (simp add: keeps_link_def)
  have "nonces (snd (consumeNonce rid now db)) = nonces db
    \<or> nonces (snd (consumeNonce rid now db)) = sql_update (\<lambda>n. request_id n = rid \<and> consumed_at n = None)
        (\<lambda>n. n\<lparr>consumed_at := Some now\<rparr>) (nonces db)"
    by (simp add: consumeNonce_def Let_def split: option.splits)
  then show ?thesis
  proof
    assume "nonces (snd (consumeNonce rid now db)) = nonces db"
    then show ?thesis using n' keeps_link_self by auto
  next
    assume *: "nonces (snd (consumeNonce rid now db)) = sql_update (\<lambda>n. request_id n = rid \<and> consumed_at n = None)
        (\<lambda>n. n\<lparr>consumed_at := Some now\<rparr>) (nonces db)"
    from sql_update_memD [OF n' [unfolded *]] obtain n where "n \<in> set (nonces db)"
      "n' = (if request_id n = rid \<and> consumed_at n = None then n\<lparr>consumed_at := Some now\<rparr> else n)" ..
    then show ?thesis using keep by blast
  qed
qed

lemma linked_consume: "linked db \<Longrightarrow> linked (snd (consumeNonce rid now db))"
  by (rule linked_keep [of db]) (use consumeNonce_keeps in auto)

lemma linked_record:
  assumes "linked db" "recordDecision uuid input now db = Inr (did, db')"
    and same: "\<And>m. m \<in> set (nonces db) \<Longrightarrow> request_id m = request_id (r_nonce input) \<Longrightarrow>
        n_agent_unit m = n_agent_unit (r_nonce input) \<and> n_scope m = n_scope (r_nonce input) \<and> n_action m = n_action (r_nonce input)"
  shows "linked db'"
proof (rule linked_keep [OF assms(1)])
  note r = recordDecision_InrD [OF assms(2)]
  show "decisions_evolve (decisions db) (decisions db')" using recordDecision_evolve(1) [OF assms(2)] .
  show "\<forall>n' \<in> set (nonces db'). decision_id n' = None \<or> (\<exists>n \<in> set (nonces db). keeps_link n n')
        \<or> (\<exists>d \<in> set (decisions db'). backs n' d)"
  proof
    fix n' assume "n' \<in> set (nonces db')"
    then obtain m where m: "m \<in> set (nonces db)"
      "n' = (if request_id m = request_id (r_nonce input) then m\<lparr>decision_id := Some uuid\<rparr> else m)"
      using sql_update_memD [of n'] unfolding r(4) by_request_id_def by blast
    show "decision_id n' = None \<or> (\<exists>n \<in> set (nonces db). keeps_link n n') \<or> (\<exists>d \<in> set (decisions db'). backs n' d)"
    proof (cases "request_id m = request_id (r_nonce input)")
      case True
      then have "backs n' (recorded_row uuid input now)" using m same [OF m(1) True] by (simp add: backs_def)
      then show ?thesis using r(3) by auto
    next
      case False
      then show ?thesis using m keeps_link_self by auto
    qed
  qed
qed

lemma linked_step:
  assumes "kernel_wf db" "linked db" "own_call a db ev"
  shows "linked (kernel_step ev db)"
proof -
  have nonces_same: "linked (kernel_step ev db)" if "nonces (kernel_step ev db) = nonces db"
    by (rule linked_keep [OF assms(2) kernel_step_decisions]) (use that keeps_link_self in auto)
  have uniq: "m = n" if "m \<in> set (nonces db)" "n \<in> set (nonces db)" "request_id m = request_id n" for m n
    using that assms(1) by (auto simp: kernel_wf_def distinct_map dest: inj_onD)
  show ?thesis
  proof (cases ev)
    case (KRequest rid input now)
    show ?thesis
    proof (rule kernel_step_nonces_cases [of ev db])
      fix f assume "nonce_rewrite (nonce_target ev) f" "nonces (kernel_step ev db) = map f (nonces db)"
      then have "nonces (kernel_step ev db) = nonces db"
        using KRequest by (auto simp: nonce_rewrite_def intro: map_idI)
      then show ?thesis by (rule nonces_same)
    next
      fix rid input now n assume "nonces (kernel_step ev db) = nonces db @ [n]" "decision_id n = None"
      then show ?thesis
        by (intro linked_keep [OF assms(2) kernel_step_decisions]) (use keeps_link_self in auto)
    qed
  next
    case (KConsume rid now)
    then show ?thesis using linked_consume [OF assms(2)] by simp
  next
    case (KRecord uuid input now)
    then have "r_nonce input \<in> set (nonces db)" using assms(3) by simp
    then have "\<And>m. m \<in> set (nonces db) \<Longrightarrow> request_id m = request_id (r_nonce input) \<Longrightarrow> m = r_nonce input"
      using uniq by blast
    then show ?thesis using linked_record [OF assms(2), of uuid input now] KRecord assms(2)
      by (cases "recordDecision uuid input now db") auto
  next
    case (KConsumeRecord uuid r mode apps user ttl org now)
    show ?thesis
    proof (cases "consumeAndRecord uuid r mode apps user ttl org now db")
      case (Inl e)
      then show ?thesis using KConsumeRecord assms(2) by simp
    next
      case (Inr p)
      obtain res db' where p: "p = (res, db')" by (cases p)
      from Inr [unfolded p] have "linked db'"
      proof (cases rule: consumeAndRecord_InrD)
        case no
        then show ?thesis using linked_consume [OF assms(2), of r now] by simp
      next
        case (yes n db1 input)
        have n: "n \<in> set (nonces db)" "request_id n = r" using consumeNonce_SomeD(3,4) [of r now db n] yes(2) by simp_all
        obtain f where f: "nonce_touch f" "nonces db1 = map f (nonces db)"
          using consumeNonce_touch [of r now db] yes(2) by auto
        have "n_agent_unit m = n_agent_unit n \<and> n_scope m = n_scope n \<and> n_action m = n_action n"
          if m: "m \<in> set (nonces db1)" "request_id m = request_id n" for m
        proof -
          obtain q where "q \<in> set (nonces db)" "m = f q" using m(1) f(2) by auto
          moreover from this have "q = n" using uniq [of q n] m(2) n f(1) by (simp add: nonce_touch_def)
          ultimately show ?thesis using f(1) by (simp add: nonce_touch_def)
        qed
        then show ?thesis
          using linked_record [OF _ yes(9)] linked_consume [OF assms(2), of r now] yes(2,3) by simp
      qed
      then show ?thesis using KConsumeRecord Inr p by simp
    qed
  qed (use nonces_same assms(3) in simp_all)
qed

lemma own_call_rows_ok:
  assumes "kernel_wf db" "linked db" "own_call a db ev" "\<forall>d \<in> set (decisions db). row_ok d"
  shows "\<forall>d \<in> set (decisions (kernel_step ev db)). row_ok d"
  using assms(1-3)
proof (cases rule: own_call_decisions_cases)
  case same
  then show ?thesis using assms(4) by simp
next
  case (rewrite f)
  then obtain d where d: "d \<in> set (decisions db)" "touches_only (d_id d) f" "row_ok d \<longrightarrow> row_ok (f d)"
    by (auto simp: rewrites_own_def)
  have "row_ok (f r)" if "r \<in> set (decisions db)" for r
  proof (cases "d_id r = d_id d")
    case True
    then have "r = d" using decision_by_id [OF assms(1) d(1) that] by simp
    then show ?thesis using d assms(4) by blast
  next
    case False
    then have "f r = r" using d(2) by (simp add: touches_only_def)
    then show ?thesis using assms(4) that by simp
  qed
  then show ?thesis using rewrite(2) by simp
next
  case (add uuid input now)
  then show ?thesis using assms(4) recorded_row_ok by simp
qed

lemma own_call_decisions:
  assumes "kernel_wf db" "linked db" "own_call a db ev"
  shows "own_change d_agent_unit a (decisions db) (decisions (kernel_step ev db))"
  using assms
proof (cases rule: own_call_decisions_cases)
  case (rewrite f)
  then obtain d where d: "d \<in> set (decisions db)" "d_agent_unit d = a" "touches_only (d_id d) f"
    by (auto simp: rewrites_own_def)
  show ?thesis unfolding rewrite(2)
  proof (rule own_change_mapI)
    show "d_agent_unit (f r) = d_agent_unit r" for r using d(3) by (simp add: touches_only_def)
    show "f r = r" if "r \<in> set (decisions db)" "d_agent_unit r \<noteq> a" for r
      using d(3) decision_by_id [OF assms(1) d(1) that(1)] that(2) d(2) by (auto simp: touches_only_def)
  qed
next
  case (add uuid input now)
  then show ?thesis using own_change_addI [of d_agent_unit "recorded_row uuid input now" a] by simp
qed simp

text \<open>Pending nonces: a rewrite never makes one pending, and a request adds one below the caps.\<close>

lemma kernel_step_clock [simp]: "own_call a db ev \<Longrightarrow> wall_clock (kernel_step ev db) = wall_clock db"
proof (cases ev)
  case (KLookup a sc ac apps m now)
  then show ?thesis by (simp add: lookupDecision_def split: option.splits)
next
  case (KLookupByRequest a rid apps m now)
  then show ?thesis by (simp add: lookupDecisionByRequestId_def split: option.splits)
next
  case (KConsumeRecord uuid r mode apps user ttl org now)
  have "wall_clock db' = wall_clock db"
    if "consumeAndRecord uuid r mode apps user ttl org now db = Inr (res, db')" for res db'
    using that consumeNonce_frame(2) [of r now db]
    by (cases rule: consumeAndRecord_InrD) (auto dest: recordDecision_InrD(5))
  then show ?thesis using KConsumeRecord by (auto split: sum.splits)
qed (auto simp: requestApproval_InrD(2) dest: recordDecision_InrD(5) split: sum.splits)

lemma pending_rewrite:
  assumes "nonce_touch f"
  shows "length (filter (\<lambda>n. p (n_agent_unit n) \<and> nonce_pending now n) (map f ns))
    \<le> length (filter (\<lambda>n. p (n_agent_unit n) \<and> nonce_pending now n) ns)"
proof -
  have "n_agent_unit (f n) = n_agent_unit n" "nonce_pending now (f n) \<Longrightarrow> nonce_pending now n" for n
    using assms by (auto simp: nonce_touch_def nonce_pending_def)
  then show ?thesis by (auto simp: filter_map comp_def intro!: filter_length_mono)
qed

lemma count_alt:
  "fst (countPendingNonces db now) a = length (filter (\<lambda>n. n_agent_unit n = a \<and> nonce_pending now n) (nonces db))"
  "snd (countPendingNonces db now) = length (filter (\<lambda>n. True \<and> nonce_pending now n) (nonces db))"
  by (simp_all add: countPendingNonces_def Let_def conj_commute)

lemma within_caps_step:
  assumes "within_caps db" "own_call a db ev"
  shows "within_caps (kernel_step ev db)"
proof (rule kernel_step_nonces_cases [of ev db])
  fix f assume f: "nonce_rewrite (nonce_target ev) f" "nonces (kernel_step ev db) = map f (nonces db)"
  then have t: "nonce_touch f" by (simp add: nonce_rewrite_def)
  show ?thesis
    using assms(1) pending_rewrite [OF t, of "\<lambda>b. b = c" "wall_clock db" "nonces db" for c]
      pending_rewrite [OF t, of "\<lambda>_. True" "wall_clock db" "nonces db"]
    unfolding within_caps_def count_alt kernel_step_clock [OF assms(2)] f(2) by (meson le_trans)
next
  fix rid input now n
  assume "ev = KRequest rid input now" and n: "nonces (kernel_step ev db) = nonces db @ [n]" "n_agent_unit n = i_agent_unit input"
  then have "under_caps a db" "n_agent_unit n = a" using assms(2) by auto
  then show ?thesis
    using assms(1) unfolding within_caps_def under_caps_def count_alt kernel_step_clock [OF assms(2)] n(1) by auto
qed

lemma server_wf_call:
  assumes "server_wf db" "own_call a db ev"
  shows "server_wf (kernel_step ev db)"
  using assms kernel_wf_step [of db ev] own_call_rows_ok linked_step within_caps_step
  unfolding server_wf_def by blast

section \<open>The server as an event system\<close>

datatype server_event = Tick nat | Request string string connection BrokerRequest

fun server_step :: "server_event \<Rightarrow> kernel_db \<Rightarrow> kernel_db" where
  "server_step (Tick dt) db = db\<lparr>wall_clock := wall_clock db + int dt\<rparr>"
| "server_step (Request rid uuid c req) db = snd (serve rid uuid c req db)"

fun event_agent :: "server_event \<Rightarrow> string option" where
  "event_agent (Tick _) = None"
| "event_agent (Request rid uuid c req) = (if c_operator c then None else Some (c_agent c))"

definition agent_view :: "string \<Rightarrow> kernel_db \<Rightarrow> DecisionRow list \<times> NonceRow list" where
  "agent_view b db = (filter (\<lambda>d. d_agent_unit d = b) (decisions db), filter (\<lambda>n. n_agent_unit n = b) (nonces db))"

lemma tick_caps: "within_caps db \<Longrightarrow> within_caps (db\<lparr>wall_clock := wall_clock db + int dt\<rparr>)"
proof -
  assume w: "within_caps db"
  have "length (filter (\<lambda>n. p (n_agent_unit n) \<and> nonce_pending (wall_clock db + int dt) n) (nonces db))
      \<le> length (filter (\<lambda>n. p (n_agent_unit n) \<and> nonce_pending (wall_clock db) n) (nonces db))" for p
    by (rule filter_length_mono) (auto simp: nonce_pending_def)
  from this [of "\<lambda>b. b = a" for a] this [of "\<lambda>_. True"] w show ?thesis
    unfolding within_caps_def count_alt by simp (meson le_trans)
qed

lemma server_wf_step: "server_wf db \<Longrightarrow> server_wf (server_step e db)"
proof (cases e)
  case (Tick dt)
  assume "server_wf db"
  then show ?thesis using Tick tick_caps [of db dt]
    by (simp add: server_wf_def kernel_wf_def linked_def)
next
  case (Request rid uuid c req)
  assume "server_wf db"
  then show ?thesis using Request served_call_own [of rid uuid c req db] server_wf_call [of db "c_agent c"]
    by (cases "served_call rid uuid c req db") (auto simp: serve_step)
qed

interpretation server: tenant_service server_step server_wf event_agent agent_view
proof unfold_locales
  fix e db b assume wf: "server_wf db" and b: "event_agent e \<noteq> Some b"
  show "agent_view b (server_step e db) = agent_view b db"
  proof (cases e)
    case (Request rid uuid c req)
    show ?thesis
    proof (cases "served_call rid uuid c req db")
      case None
      then show ?thesis using Request by (simp add: serve_step)
    next
      case (Some ev)
      then have own: "own_call (c_agent c) db ev" "\<not> c_operator c" using served_call_own by blast+
      then have "b \<noteq> c_agent c" using b Request by auto
      moreover have "kernel_wf db" "linked db" using wf by (simp_all add: server_wf_def)
      ultimately show ?thesis
        using own_change_others [OF own_call_decisions [OF _ _ own(1)]] own_change_others [OF own_call_nonces [OF _ own(1)]]
          Request Some by (simp add: serve_step agent_view_def)
    qed
  qed (simp add: agent_view_def)
qed (rule server_wf_step)

lemma fresh_server_wf: "server_wf (migrateApprovalSchema t)"
  by (simp add: server_wf_def kernel_wf_def linked_def within_caps_def countPendingNonces_def migrateApprovalSchema_def)

lemma reachable_wf: "server_wf (run server_step (migrateApprovalSchema t) es)"
  by (rule server.invar_run [OF fresh_server_wf])

section \<open>Properties of the server\<close>

text \<open>
  Claim C4: agents are isolated. Whatever has happened before, a further sequence of requests on the
  sockets of other agents and of the operator, and any passing of time, leaves every decision and
  every nonce of the agent \<open>b\<close> as it was.
\<close>

theorem agent_rows_isolated:
  assumes "\<forall>e \<in> set later. event_agent e \<noteq> Some b"
  shows "agent_view b (run server_step (run server_step (migrateApprovalSchema t) earlier) later)
       = agent_view b (run server_step (migrateApprovalSchema t) earlier)"
  using server.noninterference [OF reachable_wf assms] .

definition demo_conn :: "string \<Rightarrow> connection" where
  "demo_conn a = \<lparr>c_agent = a, c_operator = False, c_peer_uid = None\<rparr>"

theorem agent_rows_isolated_witness:
  "agent_view ''b'' (run server_step (run server_step (migrateApprovalSchema 0)
       [Request ''r1'' ''d1'' (demo_conn ''b'') (ApprovalRequest ''b'' ''s'' ''w'' [] None None)])
       [Tick 5, Request ''r2'' ''d2'' (demo_conn ''a'') (ApprovalConsume ''r1'')])
   = agent_view ''b'' (run server_step (migrateApprovalSchema 0)
       [Request ''r1'' ''d1'' (demo_conn ''b'') (ApprovalRequest ''b'' ''s'' ''w'' [] None None)])"
  by (rule agent_rows_isolated) (simp add: demo_conn_def)

text \<open>The agents whose rows a response discloses.\<close>

fun reveals :: "BrokerResponse \<Rightarrow> string set" where
  "reveals (RespLookup _ (Some m)) = {m_agent_unit m}"
| "reveals (RespDecisions ms) = m_agent_unit ` set ms"
| "reveals (RespConsumed _ a _ _ _) = {a}"
| "reveals _ = {}"

lemma evaluate_reveals:
  "lookup_decision (fst (evaluateDecisionRow d can m now db)) = Some q \<Longrightarrow> m_agent_unit q = d_agent_unit d"
  by (auto simp: evaluateDecisionRow_def Let_def decision_meta_def split: if_splits)

lemma lookup_reveals:
  "lookup_decision (fst (lookupDecision a sc ac apps m now db)) = Some q \<Longrightarrow> m_agent_unit q = a"
  by (rule lookupDecision_cases [of a sc ac apps m now db]) (auto simp: live_match_def dest: evaluate_reveals)

lemma lookup_by_request_reveals:
  assumes "kernel_wf db" "linked db" "lookup_decision (fst (lookupDecisionByRequestId a rid apps m now db)) = Some q"
  shows "m_agent_unit q = a"
proof -
  obtain n did d where n: "sql_get (by_request_id rid) (nonces db) = Some n" "n_agent_unit n = a"
    "decision_id n = Some did" "sql_get (by_decision_id did) (decisions db) = Some d"
    using assms(3) by (auto simp: lookupDecisionByRequestId_def split: option.splits if_splits)
  have "n \<in> set (nonces db)" "d \<in> set (decisions db)" "d_id d = did"
    using n sql_get_SomeD [OF n(1)] sql_get_SomeD [OF n(4)] by (simp_all add: by_decision_id_def)
  then have "d_agent_unit d = a"
    using linked_decision [OF assms(1,2), of n d] n by (simp add: backs_def)
  then show ?thesis
    using assms(3) n by (auto simp: lookupDecisionByRequestId_def decision_meta_def dest: evaluate_reveals split: if_splits)
qed

lemma lookup_response_reveals:
  "(\<And>q. lookup_decision r = Some q \<Longrightarrow> m_agent_unit q = a) \<Longrightarrow> reveals (lookup_response r) \<subseteq> {a}"
  by (cases "lookup_decision r") (simp_all add: lookup_response_def)

lemma consume_reveals:
  assumes "kernel_wf db" "\<not> foreign a (map_option n_agent_unit (getNonce rid db))" "fst (consumeNonce rid now db) = Some n"
  shows "n_agent_unit n = a"
proof -
  have "n \<in> set (nonces db)" "request_id n = rid" using consumeNonce_SomeD(3,4) [OF assms(3)] by simp_all
  then have "getNonce rid db = Some n"
    using sql_get_key_unique [of request_id "nonces db" n] assms(1)
    by (simp add: kernel_wf_def getNonce_def by_request_id_def [abs_def])
  then show ?thesis using assms(2) by (simp add: foreign_def acl_ok_def)
qed

lemma list_reveals: "m_agent_unit ` set (map (decision_meta org) (listDecisions (Some a) rv now db)) \<subseteq> {a}"
  by (auto simp: listDecisions_def decision_meta_def)

text \<open>
  A response on an agent's socket discloses rows of that agent only: the decision of a lookup,
  the list of decisions, the nonce a consume returns.
\<close>

theorem responses_reveal_own_rows:
  assumes "\<not> c_operator c"
  shows "reveals (fst (serve rid uuid c req (run server_step (migrateApprovalSchema t) es))) \<subseteq> {c_agent c}"
proof -
  define db where "db = run server_step (migrateApprovalSchema t) es"
  have wf: "kernel_wf db" "linked db" using reachable_wf [of t es] by (simp_all add: db_def server_wf_def)
  have "reveals (fst (serve rid uuid c req db)) \<subseteq> {c_agent c}"
  proof (cases req)
    case (ApprovalRequest a sc ac apps why ttl)
    then show ?thesis using assms
      by (auto simp: serve_def handleRequest_def handle_approval_request_def Let_def split: sum.splits sql_error.splits if_splits)
  next
    case (ApprovalLookup a sc ac apps)
    have "reveals (lookup_response (fst (lookupDecision a sc ac apps None (wall_clock db) db))) \<subseteq> {a}"
      by (rule lookup_response_reveals) (rule lookup_reveals)
    then show ?thesis using assms ApprovalLookup
      by (simp add: serve_def handleRequest_def handle_approval_lookup_def acl_ok_def case_prod_beta Let_def) blast
  next
    case (ApprovalLookupByRequest a r apps)
    have "reveals (lookup_response (fst (lookupDecisionByRequestId a r apps None (wall_clock db) db))) \<subseteq> {a}"
      by (rule lookup_response_reveals) (rule lookup_by_request_reveals [OF wf])
    then show ?thesis using assms ApprovalLookupByRequest
      by (simp add: serve_def handleRequest_def handle_approval_lookup_by_request_def acl_ok_def case_prod_beta Let_def) blast
  next
    case (ApprovalConsume r)
    then show ?thesis using assms consume_reveals [OF wf(1), of "c_agent c" r "wall_clock db"]
      by (cases "consumeNonce r (wall_clock db) db")
         (auto simp: serve_def handleRequest_def handle_approval_consume_def split: option.splits)
  next
    case (ApprovalRecord r mode apps user ttl)
    then show ?thesis using assms
      by (auto simp: serve_def handleRequest_def handle_approval_record_def split: sum.splits sql_error.splits option.splits if_splits)
  next
    case (ApprovalConsumeRecord r mode apps user ttl)
    have "n_agent_unit n = c_agent c"
      if "\<not> foreign (c_agent c) (map_option n_agent_unit (getNonce r db))"
        "consumeAndRecord uuid r mode apps user ttl org now db = Inr (Consumed did n, db')" for org now did n db'
      using that(2)
    proof (cases rule: consumeAndRecord_InrD)
      case (yes n' db1 input)
      then show ?thesis using consume_reveals [OF wf(1) that(1), of now n] by simp
    qed simp
    then show ?thesis using ApprovalConsumeRecord assms
      by (auto simp: serve_def handleRequest_def handle_approval_consume_record_def
          split: sum.splits sql_error.splits if_splits consume_result.splits)
  next
    case (ApprovalList a)
    then show ?thesis using assms list_reveals [of None "c_agent c" False "wall_clock db" db]
      by (simp add: serve_def handleRequest_def handle_approval_list_def Let_def)
  qed (use assms in \<open>auto simp: serve_def handleRequest_def handle_approval_revoke_def split: prod.splits\<close>)
  then show ?thesis by (simp add: db_def)
qed

theorem responses_reveal_own_rows_witness:
  "reveals (fst (serve ''r2'' ''d2'' (demo_conn ''a'') (ApprovalList None) (run server_step (migrateApprovalSchema 0)
      [Request ''r1'' ''d1'' (demo_conn ''b'') (ApprovalRequest ''b'' ''s'' ''w'' [] None None)]))) \<subseteq> {''a''}"
  using responses_reveal_own_rows [of "demo_conn ''a''" "''r2''" "''d2''" "ApprovalList None" 0
      "[Request ''r1'' ''d1'' (demo_conn ''b'') (ApprovalRequest ''b'' ''s'' ''w'' [] None None)]"]
  by (simp add: demo_conn_def)

text \<open>
  The operator socket is read-only. No request on it changes the database, and every
  operation but \<open>approval_list\<close> is answered \<open>DENIED\<close>.
\<close>

theorem operator_socket_read_only:
  assumes "c_operator c"
  shows "snd (serve rid uuid c req db) = db
    \<and> (op_name req \<noteq> ''approval_list'' \<longrightarrow> (\<exists>msg. fst (serve rid uuid c req db) = RespError DENIED msg))"
  using assms by (simp add: serve_step served_call_def)
    (simp add: serve_def handleRequest_def OPERATOR_ALLOWED_OPS_def)

theorem operator_socket_read_only_witness:
  "\<exists>msg. fst (serve ''r'' ''d'' \<lparr>c_agent = KERNEL_OPERATOR_NAME, c_operator = True, c_peer_uid = None\<rparr>
     (ApprovalConsume ''r1'') (migrateApprovalSchema 0)) = RespError DENIED msg"
  using operator_socket_read_only [of "\<lparr>c_agent = KERNEL_OPERATOR_NAME, c_operator = True, c_peer_uid = None\<rparr>"
      "''r''" "''d''" "ApprovalConsume ''r1''" "migrateApprovalSchema 0"] by simp

text \<open>
  Claim C5: the pending caps hold at every moment. In every reachable state no agent has more than two
  unconsumed, unexpired nonces and the fleet has no more than 32.
\<close>

theorem pending_caps_hold:
  "fst (countPendingNonces db (wall_clock db)) a \<le> 2 \<and> snd (countPendingNonces db (wall_clock db)) \<le> 32"
  if "db = run server_step (migrateApprovalSchema t) es"
  using reachable_wf [of t es] that
  by (simp add: server_wf_def within_caps_def MAX_PENDING_PER_AGENT_def MAX_PENDING_GLOBAL_def)

theorem pending_caps_hold_witness:
  "snd (countPendingNonces (run server_step (migrateApprovalSchema 0)
     [Request ''r1'' ''d1'' (demo_conn ''b'') (ApprovalRequest ''b'' ''s'' ''w'' [] None None)])
     (wall_clock (run server_step (migrateApprovalSchema 0)
     [Request ''r1'' ''d1'' (demo_conn ''b'') (ApprovalRequest ''b'' ''s'' ''w'' [] None None)]))) \<le> 32"
  using pending_caps_hold [OF refl] by blast

lemma evaluate_origin:
  "lookup_decision (fst (evaluateDecisionRow d can m now db)) = Some q \<Longrightarrow> m_origin q = Some (d_origin d)"
  by (auto simp: evaluateDecisionRow_def Let_def decision_meta_def split: if_splits)

lemma lookup_origin:
  assumes "\<forall>d \<in> set (decisions db). d_origin d = AgentOrigin"
  shows "lookup_decision (fst (lookupDecision a sc ac apps m now db)) = Some q \<Longrightarrow> m_origin q = Some AgentOrigin"
  using assms by (rule_tac lookupDecision_cases [of a sc ac apps m now db]) (auto dest: evaluate_origin)

lemma lookup_by_request_origin:
  assumes "\<forall>d \<in> set (decisions db). d_origin d = AgentOrigin"
    and "lookup_decision (fst (lookupDecisionByRequestId a rid apps m now db)) = Some q"
  shows "m_origin q = Some AgentOrigin"
  using assms by (auto simp: lookupDecisionByRequestId_def decision_meta_def
      dest!: sql_get_SomeD dest: evaluate_origin split: option.splits if_splits)

lemma gated_lookup_origin:
  "(\<And>q. lookup_decision r = Some q \<Longrightarrow> m_origin q = Some AgentOrigin)
     \<Longrightarrow> g_origin (gated_lookup (lookup_response r)) \<noteq> Some OperatorOrigin"
  by (cases "lookup_decision r") (auto simp: lookup_response_def)

text \<open>
  With the operator requirement on, no gated write is ever allowed. The server stamps every
  decision with the origin of an agent listener, so whatever the history and whatever a hook asks,
  the answer never carries the operator origin the policy then demands.
\<close>

theorem operator_requirement_blocks_all:
  "evaluateGatedWrite (gated_lookup (fst (serve rid uuid c req (run server_step (migrateApprovalSchema t) es)))) True \<noteq> GAllow"
proof -
  define db where "db = run server_step (migrateApprovalSchema t) es"
  have org: "\<forall>d \<in> set (decisions db). d_origin d = AgentOrigin"
    using reachable_wf [of t es] by (simp add: db_def server_wf_def row_ok_def)
  have "g_origin (gated_lookup (fst (serve rid uuid c req db))) \<noteq> Some OperatorOrigin"
  proof (cases req)
    case (ApprovalLookup a sc ac apps)
    have "g_origin (gated_lookup (lookup_response (fst (lookupDecision a sc ac apps None (wall_clock db) db)))) \<noteq> Some OperatorOrigin"
      by (rule gated_lookup_origin) (rule lookup_origin [OF org])
    then show ?thesis using ApprovalLookup
      by (simp add: serve_def handleRequest_def handle_approval_lookup_def case_prod_beta Let_def)
  next
    case (ApprovalLookupByRequest a r apps)
    have "g_origin (gated_lookup (lookup_response (fst (lookupDecisionByRequestId a r apps None (wall_clock db) db)))) \<noteq> Some OperatorOrigin"
      by (rule gated_lookup_origin) (rule lookup_by_request_origin [OF org])
    then show ?thesis using ApprovalLookupByRequest
      by (simp add: serve_def handleRequest_def handle_approval_lookup_by_request_def case_prod_beta Let_def)
  qed (auto simp: serve_def handleRequest_def handle_approval_request_def handle_approval_consume_def
      handle_approval_revoke_def handle_approval_record_def handle_approval_consume_record_def handle_approval_list_def
      Let_def split: sum.splits sql_error.splits option.splits prod.splits consume_result.splits)
  then show ?thesis by (simp add: db_def evaluateGatedWrite_def isGatedWriteApproved_def)
qed

text \<open>
  With the requirement off, an agent can approve itself. On its own socket, a request for any
  scope and action followed by \<open>approval_consume_record\<close> with \<open>allow_always\<close> makes the next lookup pass
  the gated-write policy, with no other party involved.
\<close>

theorem self_approval_passes:
  assumes "c_agent c \<noteq> []" and "\<not> c_operator c"
  shows "evaluateGatedWrite (gated_lookup (fst (serve r3 u3 c (ApprovalLookup (c_agent c) sc ac apps)
    (run server_step (migrateApprovalSchema t)
      [Request rid u1 c (ApprovalRequest (c_agent c) sc ac apps None None),
       Request r2 did c (ApprovalConsumeRecord rid AllowAlways apps user None)])))) False = GAllow"
  using assms
  by (simp add: serve_def handleRequest_def handle_approval_request_def handle_approval_consume_record_def
      handle_approval_lookup_def acl_ok_def foreign_def getNonce_def migrateApprovalSchema_def Let_def
      countPendingNonces_def MAX_PENDING_PER_AGENT_def MAX_PENDING_GLOBAL_def requestApproval_def sql_insert_def
      consumeAndRecord_def consumeNonce_def sql_get_def by_request_id_def sql_changes_def sql_update_def
      recordDecision_def recorded_row_def recorded_expiry_def lookupDecision_def live_match_def
      evaluateDecisionRow_def lookup_response_def evaluateGatedWrite_def isGatedWriteApproved_def)

theorem self_approval_passes_witness:
  "evaluateGatedWrite (gated_lookup (fst (serve ''r3'' ''u3'' (demo_conn ''a'') (ApprovalLookup ''a'' ''drive:write'' ''w'' [])
    (run server_step (migrateApprovalSchema 0)
      [Request ''r1'' ''u1'' (demo_conn ''a'') (ApprovalRequest ''a'' ''drive:write'' ''w'' [] None None),
       Request ''r2'' ''d1'' (demo_conn ''a'') (ApprovalConsumeRecord ''r1'' AllowAlways [] 1 None)])))) False = GAllow"
  using self_approval_passes [of "demo_conn ''a''" "''r3''" "''u3''" "''drive:write''" "''w''" "[]" 0 "''r1''" "''u1''" "''r2''" "''d1''" 1]
  by (simp add: demo_conn_def)

lemma evaluate_granted_lifetime:
  assumes "fst (evaluateDecisionRow d can None now db) = Granted g" "row_ok d" "ttl_expires_at g = Some e"
  shows "e \<le> granted_at g + DEFAULT_MAX_TTL_LIFETIME_MS \<and> now \<le> granted_at g + DEFAULT_MAX_TTL_LIFETIME_MS"
proof -
  note live = evaluate_GrantedD(3,8) [OF assms(1)]
  have g: "ttl_expires_at g = ttl_expires_at d \<or> ttl_expires_at g = renewed_expiry d DEFAULT_MAX_TTL_LIFETIME_MS now"
    using assms(1) by (auto simp: evaluateDecisionRow_def Let_def split: if_splits)
  have "\<exists>e0. ttl_expires_at d = Some e0"
    using g assms(3) by (cases "ttl_expires_at d") (auto simp: renewed_expiry_def)
  then obtain e0 where "ttl_expires_at d = Some e0" ..
  moreover from this have "e0 \<le> granted_at d + DEFAULT_MAX_TTL_LIFETIME_MS" using assms(2) by (simp add: row_ok_def)
  ultimately show ?thesis using live g assms(3) renewed_bound [OF assms(2), of now e] by auto
qed

lemma lookup_granted_lifetime:
  assumes "\<forall>d \<in> set (decisions db). row_ok d" "ttl_expires_at g = Some e"
    and "fst (lookupDecision a sc ac apps None now db) = Granted g \<or> fst (lookupDecisionByRequestId a rid apps None now db) = Granted g"
  shows "e \<le> granted_at g + DEFAULT_MAX_TTL_LIFETIME_MS \<and> now \<le> granted_at g + DEFAULT_MAX_TTL_LIFETIME_MS"
  using assms(3)
proof
  assume "fst (lookupDecision a sc ac apps None now db) = Granted g"
  then show ?thesis using assms(1,2) evaluate_granted_lifetime
    by (rule_tac lookupDecision_cases [of a sc ac apps None now db]) (simp, metis)
next
  assume "fst (lookupDecisionByRequestId a rid apps None now db) = Granted g"
  then show ?thesis using assms(1,2) evaluate_granted_lifetime
    by (rule_tac lookupByRequest_cases [of a rid apps None now db]) (simp, metis)
qed

lemma lookup_response_granted:
  "lookup_response r = RespLookup ''granted'' (Some q) \<Longrightarrow> \<exists>g. r = Granted g \<and> q = decision_meta (Some (d_origin g)) g"
  by (cases r) (auto simp: lookup_response_def)

text \<open>
  A time-limited grant never outlives its cap. Whenever the server answers \<open>granted\<close> with an
  expiry, both that expiry and the present moment are within seven days of the original grant: the
  sliding renewal on use cannot push a grant past \<open>DEFAULT_MAX_TTL_LIFETIME_MS\<close>.
\<close>

theorem ttl_grant_lifetime_bounded:
  assumes "fst (serve rid uuid c req (run server_step (migrateApprovalSchema t) es)) = RespLookup ''granted'' (Some m)"
    and "m_ttl_expires_at m = Some e"
  shows "e \<le> m_granted_at m + 604800000
    \<and> wall_clock (run server_step (migrateApprovalSchema t) es) \<le> m_granted_at m + 604800000"
proof -
  define db where "db = run server_step (migrateApprovalSchema t) es"
  have ok: "\<forall>d \<in> set (decisions db). row_ok d" using reachable_wf [of t es] by (simp add: db_def server_wf_def)
  have r: "fst (serve rid uuid c req db) = RespLookup ''granted'' (Some m)" using assms(1) by (simp add: db_def)
  have "\<exists>g. m = decision_meta (Some (d_origin g)) g \<and> (\<exists>a sc ac apps r.
      fst (lookupDecision a sc ac apps None (wall_clock db) db) = Granted g
      \<or> fst (lookupDecisionByRequestId a r apps None (wall_clock db) db) = Granted g)"
  proof (cases req)
    case (ApprovalLookup a sc ac apps)
    then have "lookup_response (fst (lookupDecision a sc ac apps None (wall_clock db) db)) = RespLookup ''granted'' (Some m)"
      using r by (simp add: serve_def handleRequest_def handle_approval_lookup_def case_prod_beta Let_def split: if_splits)
    from lookup_response_granted [OF this] show ?thesis by blast
  next
    case (ApprovalLookupByRequest a q apps)
    then have "lookup_response (fst (lookupDecisionByRequestId a q apps None (wall_clock db) db)) = RespLookup ''granted'' (Some m)"
      using r by (simp add: serve_def handleRequest_def handle_approval_lookup_by_request_def case_prod_beta Let_def split: if_splits)
    from lookup_response_granted [OF this] show ?thesis by blast
  qed (use r in \<open>auto simp: serve_def handleRequest_def handle_approval_request_def handle_approval_consume_def
      handle_approval_revoke_def handle_approval_record_def handle_approval_consume_record_def handle_approval_list_def
      Let_def split: sum.splits sql_error.splits option.splits prod.splits consume_result.splits if_splits\<close>)
  then obtain g a sc ac apps r where g: "m = decision_meta (Some (d_origin g)) g"
    "fst (lookupDecision a sc ac apps None (wall_clock db) db) = Granted g
      \<or> fst (lookupDecisionByRequestId a r apps None (wall_clock db) db) = Granted g" by blast
  have "ttl_expires_at g = Some e" "m_granted_at m = granted_at g" using g(1) assms(2) by (simp_all add: decision_meta_def)
  with lookup_granted_lifetime [OF ok this(1) g(2)] show ?thesis by (simp add: db_def DEFAULT_MAX_TTL_LIFETIME_MS_def)
qed

definition demo_ttl_events :: "server_event list" where
  "demo_ttl_events = [Request ''r1'' ''u1'' (demo_conn ''a'') (ApprovalRequest ''a'' ''s'' ''w'' [] None None),
     Request ''r2'' ''d1'' (demo_conn ''a'') (ApprovalConsumeRecord ''r1'' AllowTtl [] 1 (Some 999999999999)),
     Tick 604800000]"

lemma demo_ttl_answer:
  "\<exists>m. fst (serve ''r3'' ''u3'' (demo_conn ''a'') (ApprovalLookup ''a'' ''s'' ''w'' [])
      (run server_step (migrateApprovalSchema 0) demo_ttl_events)) = RespLookup ''granted'' (Some m)
    \<and> m_ttl_expires_at m = Some 604800000 \<and> m_granted_at m = 0"
  by (simp add: demo_ttl_events_def demo_conn_def serve_def handleRequest_def handle_approval_request_def
      handle_approval_consume_record_def
      handle_approval_lookup_def acl_ok_def foreign_def getNonce_def migrateApprovalSchema_def Let_def
      countPendingNonces_def MAX_PENDING_PER_AGENT_def MAX_PENDING_GLOBAL_def requestApproval_def sql_insert_def
      consumeAndRecord_def consumeNonce_def sql_get_def by_request_id_def sql_changes_def sql_update_def
      recordDecision_def recorded_row_def recorded_expiry_def lookupDecision_def live_match_def renewed_expiry_def
      evaluateDecisionRow_def lookup_response_def decision_meta_def DEFAULT_MAX_TTL_LIFETIME_MS_def)

theorem ttl_grant_lifetime_bounded_witness:
  "wall_clock (run server_step (migrateApprovalSchema 0) demo_ttl_events) \<le> 0 + 604800000"
  using demo_ttl_answer ttl_grant_lifetime_bounded [of "''r3''" "''u3''" "demo_conn ''a''" "ApprovalLookup ''a'' ''s'' ''w'' []" 0 demo_ttl_events]
  by metis

text \<open>
  An \<open>allow_ttl\<close> decision recorded without a \<open>ttl_ms\<close> has no expiry at all: with the approver
  set unchanged, it is granted at every later time, and the renewal on use leaves it that way.
\<close>

theorem allow_ttl_without_window_never_expires:
  assumes "r_decision input = AllowTtl" and "r_ttl_ms input = None"
  shows "\<exists>g. fst (evaluateDecisionRow (recorded_row uuid input t) (canonicalizeApproverSet (r_approver_set input)) m now db) = Granted g
     \<and> ttl_expires_at g = None"
  using assms
  by (auto simp: evaluateDecisionRow_def Let_def recorded_expiry_def renewed_expiry_def)

definition demo_record :: RecordDecisionInput where
  "demo_record = \<lparr>r_nonce = \<lparr>request_id = ''r1'', decision_id = None, n_agent_unit = ''a'', n_scope = ''s'', n_action = ''w'',
       n_approver_set_canonical = ''[]'', n_why = None, created_at = 0, expires_at = 9, consumed_at = Some 1\<rparr>,
     r_decision = AllowTtl, r_approver_set = [], r_granted_by_user_id = 1, r_ttl_ms = None, r_origin = None,
     r_max_ttl_lifetime_ms = None\<rparr>"

theorem allow_ttl_without_window_never_expires_witness:
  "\<exists>g. fst (evaluateDecisionRow (recorded_row ''d1'' demo_record 1) (canonicalizeApproverSet []) None 99999999999999
     (migrateApprovalSchema 0)) = Granted g \<and> ttl_expires_at g = None"
  using allow_ttl_without_window_never_expires [of demo_record "''d1''" 1 None 99999999999999 "migrateApprovalSchema 0"]
  by (simp add: demo_record_def)

section \<open>Framing does not depend on chunk boundaries\<close>

lemma split_lines_append:
  "split_lines (xs @ ys) = (case split_lines xs of (ls, r) \<Rightarrow> (case split_lines (r @ ys) of (ms, q) \<Rightarrow> (ls @ ms, q)))"
proof (induction xs)
  case (Cons c xs)
  then show ?case by (auto split: prod.splits list.splits simp: Cons_eq_append_conv)
qed simp

lemma split_lines_rest: "split_lines xs = (ls, r) \<Longrightarrow> byteLength r \<le> byteLength xs"
  by (induction xs arbitrary: ls r) (fastforce simp: byteLength_def split: prod.splits list.splits if_splits)+

lemma byteLength_append [simp]: "byteLength (xs @ ys) = byteLength xs + byteLength ys"
  by (simp add: byteLength_def)

lemma serve_lines_append:
  "serve_lines h (ls @ ms) s = (case serve_lines h ls s of (rs, s') \<Rightarrow>
     (case serve_lines h ms s' of (qs, s'') \<Rightarrow> (rs @ qs, s'')))"
  by (induction ls arbitrary: s) (auto split: prod.splits)

fun feed :: "(string \<Rightarrow> 's \<Rightarrow> BrokerResponse \<times> 's) \<Rightarrow> string list \<Rightarrow> string \<times> 's \<Rightarrow> BrokerResponse list \<times> (string \<times> 's)" where
  "feed h [] conn = ([], conn)"
| "feed h (c # cs) conn = (case on_data h c conn of (rs, conn') \<Rightarrow> (case feed h cs conn' of (qs, conn'') \<Rightarrow> (rs @ qs, conn'')))"

lemma on_data_fits:
  "byteLength (buf @ c) \<le> MAX_FRAME_BYTES \<Longrightarrow> on_data h c (buf, s) =
    (case split_lines (buf @ c) of (ls, rest) \<Rightarrow> (case serve_lines h ls s of (rs, s') \<Rightarrow> (rs, (rest, s'))))"
  by (simp add: on_data_def)

lemma on_data_compose:
  assumes "byteLength (buf @ c @ d) \<le> MAX_FRAME_BYTES"
  shows "(case on_data h c (buf, s) of (rs, conn') \<Rightarrow> (case on_data h d conn' of (qs, conn'') \<Rightarrow> (rs @ qs, conn'')))
    = on_data h (c @ d) (buf, s)"
proof -
  obtain ls r where c: "split_lines (buf @ c) = (ls, r)" by force
  obtain ms q where d: "split_lines (r @ d) = (ms, q)" by force
  have "byteLength (r @ d) \<le> MAX_FRAME_BYTES" using split_lines_rest [OF c] assms by simp
  moreover have "split_lines (buf @ c @ d) = (ls @ ms, q)"
    using split_lines_append [of "buf @ c" d] c d by simp
  ultimately show ?thesis
    using assms c d by (simp add: on_data_fits serve_lines_append split: prod.splits)
qed

text \<open>
  Requests are framed by newlines only. However the bytes of a connection are cut into \<open>data\<close>
  events, as long as they fit the frame limit the responses, the final database and the buffered rest
  are those of the whole text arriving at once.
\<close>

theorem framing_chunk_independent:
  assumes "chunks \<noteq> []" and "byteLength (buf @ concat chunks) \<le> MAX_FRAME_BYTES"
  shows "feed (kernel_line decodeRequest ids c) chunks (buf, st)
       = on_data (kernel_line decodeRequest ids c) (concat chunks) (buf, st)"
  using assms
proof (induction chunks arbitrary: buf st)
  case (Cons x xs)
  show ?case
  proof (cases "xs = []")
    case True
    then show ?thesis by (simp split: prod.splits)
  next
    case False
    obtain rs rest st' where x: "on_data (kernel_line decodeRequest ids c) x (buf, st) = (rs, rest, st')"
      by (metis prod.exhaust)
    have "byteLength (buf @ x) \<le> MAX_FRAME_BYTES" using Cons.prems(2) by simp
    then obtain ls where "split_lines (buf @ x) = (ls, rest)"
      using x by (auto simp: on_data_fits split: prod.splits)
    then have "byteLength (rest @ concat xs) \<le> MAX_FRAME_BYTES"
      using split_lines_rest Cons.prems(2) by fastforce
    then have "feed (kernel_line decodeRequest ids c) xs (rest, st') = on_data (kernel_line decodeRequest ids c) (concat xs) (rest, st')"
      using Cons.IH False by blast
    then show ?thesis
      using on_data_compose [of buf x "concat xs" "kernel_line decodeRequest ids c" st] Cons.prems(2) x by simp
  qed
qed simp

theorem framing_chunk_independent_witness:
  "feed (kernel_line (\<lambda>l. Inr (OtherOp l)) (\<lambda>n. ([], [])) (demo_conn ''a'')) [''li'', ''st'', [newline, CHR ''x'']] ([], migrateApprovalSchema 0, 0)
   = on_data (kernel_line (\<lambda>l. Inr (OtherOp l)) (\<lambda>n. ([], [])) (demo_conn ''a'')) (''list'' @ [newline, CHR ''x'']) ([], migrateApprovalSchema 0, 0)"
  using framing_chunk_independent [of "[''li'', ''st'', [newline, CHR ''x'']]" "[]"]
  by (simp add: byteLength_def MAX_FRAME_BYTES_def newline_def)

end
