(* ===== verification/Delivery_Machine.thy ===== *)
theory Delivery_Machine
  imports Prelude
begin

text \<open>
  \<open>telegram-plugin/gateway/inbound-delivery-machine.ts\<close>: the pure transition function of the gateway's
  inbound pipeline. \<open>ReadonlyMap\<close> is an association list in insertion order, \<open>Map.set\<close> and
  \<open>Map.delete\<close> are \<open>AList.update\<close> and \<open>AList.delete\<close>; the loops over a map run over its entries at
  loop entry, as the source iterates over the map of the unchanged input state.
\<close>

section \<open>State, events, effects\<close>

type_synonym ChatKey = string

datatype GlobalState = BridgeDead | BridgeAliveIdle | BridgeAliveInTurn ChatKey

record PerKeyState =
  turnStartedAt :: "int option"
  lastOutboundAt :: "int option"

record machine =
  global :: GlobalState
  perKey :: "(ChatKey \<times> PerKeyState) list"

definition initialState :: machine where
  "initialState = \<lparr>global = BridgeDead, perKey = []\<rparr>"

record InboundMessage =
  msgId :: int
  isSteering :: bool
  payload :: string

record PermissionVerdict =
  v_requestId :: string
  v_behavior :: string
  v_payload :: string

datatype event =
    BridgeUp int
  | BridgeDown int
  | TurnStart ChatKey int
  | TurnEnd ChatKey int bool
  | Inbound ChatKey InboundMessage int
  | PermVerdict PermissionVerdict int
  | ModelOutbound ChatKey int
  | TickAt int

datatype poke_level = Soft | Firm | Fallback

datatype trace_metadata = NoMetadata | MsgIdMetadata int | OutboundEmitted bool | RecentOutboundMs int

datatype effect =
    DeliverToBridge ChatKey InboundMessage
  | BufferInbound ChatKey InboundMessage
  | PersistInbound ChatKey InboundMessage
  | DrainBuffer
  | SetTurnStarted ChatKey int
  | ClearTurnStarted ChatKey
  | NoteOutbound ChatKey int
  | FirePoke ChatKey poke_level
  | DeliverPermVerdict PermissionVerdict
  | PersistPermVerdict PermissionVerdict
  | RedeliverPersistedPermVerdicts
  | LogTrace string "ChatKey option" trace_metadata

definition TURN_TTL_MS :: int where "TURN_TTL_MS = 300000"
definition OUTBOUND_RECENT_MS :: int where "OUTBOUND_RECENT_MS = 60000"

section \<open>The transition function\<close>

definition emptyPerKey :: PerKeyState where
  "emptyPerKey = \<lparr>turnStartedAt = None, lastOutboundAt = None\<rparr>"

definition key_state :: "machine \<Rightarrow> ChatKey \<Rightarrow> PerKeyState" where
  "key_state s k = (case map_of (perKey s) k of Some v \<Rightarrow> v | None \<Rightarrow> emptyPerKey)"

definition updatePerKey :: "machine \<Rightarrow> ChatKey \<Rightarrow> (PerKeyState \<Rightarrow> PerKeyState) \<Rightarrow> machine" where
  "updatePerKey s key update =
     (let next = update (key_state s key)
      in if turnStartedAt next = None \<and> lastOutboundAt next = None
         then s\<lparr>perKey := AList.delete key (perKey s)\<rparr>
         else s\<lparr>perKey := AList.update key next (perKey s)\<rparr>)"

definition chatIdOfKey :: "ChatKey \<Rightarrow> string" where
  "chatIdOfKey key = (case indexOf_char key (CHR '':'') of None \<Rightarrow> key | Some idx \<Rightarrow> take idx key)"

definition clear_turn :: "PerKeyState \<Rightarrow> PerKeyState" where
  "clear_turn p = p\<lparr>turnStartedAt := None\<rparr>"

fun sweep_loop :: "(ChatKey \<times> PerKeyState) list \<Rightarrow> string \<Rightarrow> ChatKey \<Rightarrow> machine \<Rightarrow> machine \<times> effect list" where
  "sweep_loop [] chatId exceptKey s = (s, [])"
| "sweep_loop ((k, v) # kvs) chatId exceptKey s =
     (if k = exceptKey \<or> chatIdOfKey k \<noteq> chatId \<or> turnStartedAt v = None then sweep_loop kvs chatId exceptKey s
      else (case sweep_loop kvs chatId exceptKey (updatePerKey s k clear_turn) of
              (s', es) \<Rightarrow> (s', ClearTurnStarted k # es)))"

definition sweepSiblings :: "machine \<Rightarrow> string \<Rightarrow> ChatKey \<Rightarrow> machine \<times> effect list" where
  "sweepSiblings s chatId exceptKey = sweep_loop (perKey s) chatId exceptKey s"

definition recentOutbound :: "int \<Rightarrow> PerKeyState \<Rightarrow> bool" where
  "recentOutbound now v = (case lastOutboundAt v of None \<Rightarrow> False | Some q \<Rightarrow> now - q < OUTBOUND_RECENT_MS)"

fun tick_loop :: "(ChatKey \<times> PerKeyState) list \<Rightarrow> int \<Rightarrow> machine \<Rightarrow> machine \<times> effect list" where
  "tick_loop [] now s = (s, [])"
| "tick_loop ((k, v) # kvs) now s =
     (case turnStartedAt v of
        None \<Rightarrow> tick_loop kvs now s
      | Some t \<Rightarrow>
          if now - t \<le> TURN_TTL_MS then tick_loop kvs now s
          else if recentOutbound now v then
            (case tick_loop kvs now s of (s', es) \<Rightarrow>
               (s', LogTrace ''fallback_suppressed'' (Some k)
                      (RecentOutboundMs (now - (case lastOutboundAt v of Some q \<Rightarrow> q | None \<Rightarrow> 0))) # es))
          else
            (let s1 = updatePerKey s k clear_turn;
                 s2 = (if global s1 = BridgeAliveInTurn k then s1\<lparr>global := BridgeAliveIdle\<rparr> else s1)
             in (case tick_loop kvs now s2 of (s', es) \<Rightarrow> (s', FirePoke k Fallback # ClearTurnStarted k # es))))"

definition bridge_alive :: "machine \<Rightarrow> bool" where
  "bridge_alive s \<longleftrightarrow> global s \<noteq> BridgeDead"

definition in_turn :: "machine \<Rightarrow> bool" where
  "in_turn s \<longleftrightarrow> (case global s of BridgeAliveInTurn _ \<Rightarrow> True | _ \<Rightarrow> False)"

fun transition :: "machine \<Rightarrow> event \<Rightarrow> machine \<times> effect list" where
  "transition s (BridgeUp at) =
     (if global s \<noteq> BridgeDead then (s, [LogTrace ''bridgeUp_redundant'' None NoMetadata])
      else (s\<lparr>global := BridgeAliveIdle\<rparr>,
            [RedeliverPersistedPermVerdicts, DrainBuffer, LogTrace ''bridge_recover'' None NoMetadata]))"
| "transition s (BridgeDown at) =
     (s\<lparr>global := BridgeDead\<rparr>, [LogTrace ''bridge_flap'' None NoMetadata])"
| "transition s (Inbound key msg at) =
     (if \<not> bridge_alive s then
        (s, [BufferInbound key msg, PersistInbound key msg, LogTrace ''inbound_bridge_dead_buffer'' (Some key) NoMetadata])
      else if in_turn s \<and> \<not> isSteering msg then
        (s, [BufferInbound key msg, PersistInbound key msg,
             LogTrace ''inbound_held_mid_turn'' (Some key) (MsgIdMetadata (msgId msg))])
      else if isSteering msg then
        (s, [DeliverToBridge key msg, LogTrace ''steer_delivered_mid_turn'' (Some key) NoMetadata])
      else
        (updatePerKey (s\<lparr>global := BridgeAliveInTurn key\<rparr>) key (\<lambda>p. p\<lparr>turnStartedAt := Some at\<rparr>),
         [SetTurnStarted key at, DeliverToBridge key msg,
          LogTrace ''fresh_turn_deliver'' (Some key) (MsgIdMetadata (msgId msg))]))"
| "transition s (TurnStart key at) =
     (let next = (if in_turn s then s else s\<lparr>global := BridgeAliveInTurn key\<rparr>)
      in (updatePerKey next key (\<lambda>p. p\<lparr>turnStartedAt := Some at\<rparr>),
          [SetTurnStarted key at, LogTrace ''turn_start'' (Some key) NoMetadata]))"
| "transition s (TurnEnd key at outboundEmitted) =
     (let stateAfterClear = updatePerKey s key
            (\<lambda>p. \<lparr>turnStartedAt = None, lastOutboundAt = (if outboundEmitted then Some at else lastOutboundAt p)\<rparr>)
      in (case sweepSiblings stateAfterClear (chatIdOfKey key) key of (swept, sweepEffects) \<Rightarrow>
            (if global s = BridgeAliveInTurn key then swept\<lparr>global := BridgeAliveIdle\<rparr> else swept,
             ClearTurnStarted key # sweepEffects
             @ (if outboundEmitted then [NoteOutbound key at] else [])
             @ [DrainBuffer, LogTrace ''turn_complete'' (Some key) (OutboundEmitted outboundEmitted)])))"
| "transition s (ModelOutbound key at) =
     (updatePerKey s key (\<lambda>p. p\<lparr>lastOutboundAt := Some at\<rparr>), [NoteOutbound key at])"
| "transition s (PermVerdict verdict at) =
     (if bridge_alive s then (s, [DeliverPermVerdict verdict, LogTrace ''perm_verdict_delivered'' None NoMetadata])
      else (s, [PersistPermVerdict verdict, LogTrace ''perm_verdict_persisted'' None NoMetadata]))"
| "transition s (TickAt now) = tick_loop (perKey s) now s"

definition machine_step :: "event \<Rightarrow> machine \<Rightarrow> machine" where
  "machine_step e s = fst (transition s e)"

section \<open>The per-key map\<close>

text \<open>The map the code keeps has no repeated key and no entry with both fields null.\<close>

definition tight :: "machine \<Rightarrow> bool" where
  "tight s \<longleftrightarrow> distinct (map fst (perKey s))
     \<and> (\<forall>(k, v) \<in> set (perKey s). turnStartedAt v \<noteq> None \<or> lastOutboundAt v \<noteq> None)"

lemma global_updatePerKey [simp]: "global (updatePerKey s k f) = global s"
  by (simp add: updatePerKey_def Let_def)

lemma key_state_update_global [simp]: "key_state (s\<lparr>global := g\<rparr>) k = key_state s k"
  by (simp add: key_state_def)

lemma PerKeyState_empty: "turnStartedAt p = None \<Longrightarrow> lastOutboundAt p = None \<Longrightarrow> p = emptyPerKey"
  by (simp add: emptyPerKey_def)

lemma key_state_updatePerKey: "key_state (updatePerKey s k f) j = (if j = k then f (key_state s k) else key_state s j)"
proof (cases "turnStartedAt (f (key_state s k)) = None \<and> lastOutboundAt (f (key_state s k)) = None")
  case True
  then show ?thesis
    using PerKeyState_empty [of "f (key_state s k)"]
    by (simp add: updatePerKey_def Let_def key_state_def delete_conv')
next
  case False
  then show ?thesis
    by (auto simp add: updatePerKey_def Let_def key_state_def update_conv')
qed

lemma tight_updatePerKey: "tight s \<Longrightarrow> tight (updatePerKey s k f)"
proof -
  assume t: "tight s"
  show ?thesis
  proof (cases "turnStartedAt (f (key_state s k)) = None \<and> lastOutboundAt (f (key_state s k)) = None")
    case True
    then show ?thesis using t
      by (auto simp: tight_def updatePerKey_def Let_def AList.delete_eq distinct_map_filter intro: inj_on_subset)
  next
    case False
    have "(j, v) \<in> set (AList.update k (f (key_state s k)) (perKey s)) \<Longrightarrow>
        turnStartedAt v \<noteq> None \<or> lastOutboundAt v \<noteq> None" for j v
      using AList_update_memD [of j v k "f (key_state s k)" "perKey s"] t False by (auto simp: tight_def)
    then show ?thesis using t False
      by (auto simp: tight_def updatePerKey_def Let_def distinct_update)
  qed
qed

lemma tight_global [simp]: "tight (s\<lparr>global := g\<rparr>) = tight s"
  by (simp add: tight_def)

lemma sweep_tight: "tight s \<Longrightarrow> tight (fst (sweep_loop kvs c e s))"
  by (induction kvs c e s rule: sweep_loop.induct) (auto simp: tight_updatePerKey split: prod.splits)

lemma tick_tight: "tight s \<Longrightarrow> tight (fst (tick_loop kvs now s))"
  by (induction kvs now s rule: tick_loop.induct) (auto simp: tight_updatePerKey Let_def split: prod.splits option.splits)

lemma tight_step: "tight s \<Longrightarrow> tight (machine_step e s)"
proof (cases e)
  case (TurnEnd k at out)
  assume "tight s"
  then show ?thesis
    using TurnEnd sweep_tight [OF tight_updatePerKey [of s k "\<lambda>p. \<lparr>turnStartedAt = None, lastOutboundAt = if out then Some at else lastOutboundAt p\<rparr>"]]
    by (simp add: machine_step_def Let_def sweepSiblings_def case_prod_beta)
qed (simp_all add: machine_step_def tight_updatePerKey tick_tight Let_def)

interpretation delivery: event_system machine_step tight
  by unfold_locales (rule tight_step)

section \<open>What the loops do\<close>

lemma clear_turn_simps [simp]:
  "turnStartedAt (clear_turn p) = None" "lastOutboundAt (clear_turn p) = lastOutboundAt p"
  "clear_turn (clear_turn p) = clear_turn p"
  by (simp_all add: clear_turn_def)

lemma key_state_mem: "tight s \<Longrightarrow> (k, v) \<in> set (perKey s) \<Longrightarrow> key_state s k = v"
  by (simp add: tight_def key_state_def)

lemma key_state_started: "turnStartedAt (key_state s k) = Some t \<Longrightarrow> (k, key_state s k) \<in> set (perKey s)"
  by (auto simp: key_state_def emptyPerKey_def dest: map_of_SomeD split: option.splits)

definition swept :: "(ChatKey \<times> PerKeyState) list \<Rightarrow> string \<Rightarrow> ChatKey \<Rightarrow> ChatKey \<Rightarrow> bool" where
  "swept kvs c e k \<longleftrightarrow> (\<exists>v. (k, v) \<in> set kvs \<and> k \<noteq> e \<and> chatIdOfKey k = c \<and> turnStartedAt v \<noteq> None)"

lemma swept_Cons: "swept ((k, v) # kvs) c e j \<longleftrightarrow>
    (j = k \<and> k \<noteq> e \<and> chatIdOfKey k = c \<and> turnStartedAt v \<noteq> None) \<or> swept kvs c e j"
  unfolding swept_def by auto

lemma sweep_key_state:
  "key_state (fst (sweep_loop kvs c e s)) j = (if swept kvs c e j then clear_turn (key_state s j) else key_state s j)"
proof (induction kvs c e s rule: sweep_loop.induct)
  case (1 c e s)
  then show ?case by (simp add: swept_def)
next
  case (2 k v kvs c e s)
  show ?case
  proof (cases "k = e \<or> chatIdOfKey k \<noteq> c \<or> turnStartedAt v = None")
    case True
    then show ?thesis using "2.IH"(1) by (auto simp: swept_Cons)
  next
    case False
    then show ?thesis using "2.IH"(2) by (auto simp: swept_Cons key_state_updatePerKey split: prod.splits)
  qed
qed

lemma sweep_global [simp]: "global (fst (sweep_loop kvs c e s)) = global s"
  by (induction kvs c e s rule: sweep_loop.induct) (auto split: prod.splits)

definition fires :: "int \<Rightarrow> PerKeyState \<Rightarrow> bool" where
  "fires now v \<longleftrightarrow> (\<exists>t. turnStartedAt v = Some t \<and> TURN_TTL_MS < now - t) \<and> \<not> recentOutbound now v"

definition fired :: "(ChatKey \<times> PerKeyState) list \<Rightarrow> int \<Rightarrow> ChatKey \<Rightarrow> bool" where
  "fired kvs now k \<longleftrightarrow> (\<exists>v. (k, v) \<in> set kvs \<and> fires now v)"

lemma fired_Cons: "fired ((k, v) # kvs) now j \<longleftrightarrow> (j = k \<and> fires now v) \<or> fired kvs now j"
  unfolding fired_def by auto

text \<open>One round of the tick loop, by whether the entry fires.\<close>

lemma tick_loop_Cons:
  "tick_loop ((k, v) # kvs) now s =
     (if fires now v then
        (let s1 = updatePerKey s k clear_turn;
             s2 = (if global s1 = BridgeAliveInTurn k then s1\<lparr>global := BridgeAliveIdle\<rparr> else s1)
         in (fst (tick_loop kvs now s2), FirePoke k Fallback # ClearTurnStarted k # snd (tick_loop kvs now s2)))
      else (fst (tick_loop kvs now s),
            (if turnStartedAt v \<noteq> None \<and> TURN_TTL_MS < now - the (turnStartedAt v)
             then [LogTrace ''fallback_suppressed'' (Some k)
               (RecentOutboundMs (now - (case lastOutboundAt v of Some q \<Rightarrow> q | None \<Rightarrow> 0)))] else [])
            @ snd (tick_loop kvs now s)))"
  by (auto simp: fires_def Let_def split: prod.splits option.splits)

declare tick_loop.simps(2) [simp del]

lemma tick_key_state:
  "key_state (fst (tick_loop kvs now s)) j = (if fired kvs now j then clear_turn (key_state s j) else key_state s j)"
proof (induction kvs arbitrary: s)
  case Nil
  then show ?case by (simp add: fired_def)
next
  case (Cons kv kvs)
  obtain k v where "kv = (k, v)" by (cases kv)
  then show ?case using Cons.IH by (auto simp: tick_loop_Cons fired_Cons Let_def key_state_updatePerKey)
qed

lemma tick_pokes: "FirePoke j l \<in> set (snd (tick_loop kvs now s)) \<longleftrightarrow> l = Fallback \<and> fired kvs now j"
proof (induction kvs arbitrary: s)
  case Nil
  then show ?case by (simp add: fired_def)
next
  case (Cons kv kvs)
  obtain k v where "kv = (k, v)" by (cases kv)
  then show ?case using Cons.IH by (auto simp: tick_loop_Cons fired_Cons Let_def)
qed

lemma tick_global:
  "global (fst (tick_loop kvs now s)) = (case global s of BridgeAliveInTurn k \<Rightarrow>
     if fired kvs now k then BridgeAliveIdle else global s | _ \<Rightarrow> global s)"
proof (induction kvs arbitrary: s)
  case Nil
  then show ?case by (simp add: fired_def split: GlobalState.splits)
next
  case (Cons kv kvs)
  obtain k v where "kv = (k, v)" by (cases kv)
  then show ?case using Cons.IH by (auto simp: tick_loop_Cons fired_Cons Let_def split: GlobalState.splits)
qed

lemma fired_iff: "tight s \<Longrightarrow> fired (perKey s) now k \<longleftrightarrow> fires now (key_state s k)"
  unfolding fired_def using key_state_mem key_state_started fires_def by metis

section \<open>Properties of the delivery machine\<close>

text \<open>
  Claim C6: no inbound is lost or doubled. Every inbound message is either handed to the bridge or put
  in both the buffer and the persistent spool, never both and never neither; it is handed over exactly
  when the bridge is alive and no turn is running or the message steers the running turn.
\<close>

theorem inbound_delivered_xor_persisted:
  "(DeliverToBridge k m \<in> set (snd (transition s (Inbound k m at)))) \<noteq> (PersistInbound k m \<in> set (snd (transition s (Inbound k m at))))
   \<and> (PersistInbound k m \<in> set (snd (transition s (Inbound k m at))) \<longleftrightarrow> BufferInbound k m \<in> set (snd (transition s (Inbound k m at))))
   \<and> (DeliverToBridge k m \<in> set (snd (transition s (Inbound k m at)))
        \<longleftrightarrow> global s \<noteq> BridgeDead \<and> (\<not> in_turn s \<or> isSteering m))"
  by (simp add: bridge_alive_def)

theorem inbound_delivered_xor_persisted_witness:
  "PersistInbound ''7:1'' \<lparr>msgId = 1, isSteering = False, payload = []\<rparr>
     \<in> set (snd (transition initialState (Inbound ''7:1'' \<lparr>msgId = 1, isSteering = False, payload = []\<rparr> 5)))"
  using inbound_delivered_xor_persisted [of "''7:1''" "\<lparr>msgId = 1, isSteering = False, payload = []\<rparr>" initialState 5]
  by (auto simp: initialState_def)

text \<open>The turn start times and last outbound times a dispatcher keeps by executing the effects.\<close>

fun apply_effect :: "effect \<Rightarrow> (ChatKey \<Rightarrow> int option) \<times> (ChatKey \<Rightarrow> int option) \<Rightarrow> (ChatKey \<Rightarrow> int option) \<times> (ChatKey \<Rightarrow> int option)" where
  "apply_effect (SetTurnStarted k t) (st, ob) = (st(k := Some t), ob)"
| "apply_effect (ClearTurnStarted k) (st, ob) = (st(k := None), ob)"
| "apply_effect (NoteOutbound k t) (st, ob) = (st, ob(k := Some t))"
| "apply_effect _ p = p"

definition clocks :: "machine \<Rightarrow> (ChatKey \<Rightarrow> int option) \<times> (ChatKey \<Rightarrow> int option)" where
  "clocks s = (\<lambda>k. turnStartedAt (key_state s k), \<lambda>k. lastOutboundAt (key_state s k))"

lemma clocks_update:
  "clocks (updatePerKey s k f) = ((fst (clocks s))(k := turnStartedAt (f (key_state s k))),
     (snd (clocks s))(k := lastOutboundAt (f (key_state s k))))"
  by (auto simp: clocks_def key_state_updatePerKey)

lemma clocks_global [simp]: "clocks (s\<lparr>global := g\<rparr>) = clocks s"
  by (simp add: clocks_def)

lemma clocks_clear: "apply_effect (ClearTurnStarted k) (clocks s) = clocks (updatePerKey s k clear_turn)"
  by (simp add: clocks_update) (simp add: clocks_def fun_upd_idem)

lemma sweep_effects:
  "fold apply_effect (snd (sweep_loop kvs c e s)) (st, ob) = (\<lambda>j. if swept kvs c e j then None else st j, ob)"
proof (induction kvs c e s arbitrary: st rule: sweep_loop.induct)
  case (1 c e s)
  then show ?case by (simp add: swept_def)
next
  case (2 k v kvs c e s)
  show ?case
  proof (cases "k = e \<or> chatIdOfKey k \<noteq> c \<or> turnStartedAt v = None")
    case True
    then show ?thesis using "2.IH"(1) by (auto simp: swept_Cons)
  next
    case False
    then show ?thesis using "2.IH"(2) by (auto simp: swept_Cons fun_eq_iff split: prod.splits)
  qed
qed

lemma tick_clocks: "fold apply_effect (snd (tick_loop kvs now s)) (clocks s) = clocks (fst (tick_loop kvs now s))"
proof (induction kvs arbitrary: s)
  case (Cons kv kvs)
  obtain k v where kv: "kv = (k, v)" by (cases kv)
  have poke: "apply_effect (FirePoke k Fallback) p = p" "apply_effect (LogTrace a b c) p = p" for p a b c
    by (cases p, simp)+
  show ?case using Cons.IH [of "updatePerKey s k clear_turn"] Cons.IH [of "(updatePerKey s k clear_turn)\<lparr>global := BridgeAliveIdle\<rparr>"]
      Cons.IH [of s] kv by (simp add: tick_loop_Cons Let_def poke clocks_clear)
qed simp

text \<open>
  Claim C7: the effects tell the whole story. A dispatcher that only executes the returned effects
  (set and clear turn start, note outbound) on its own two maps ends every transition with exactly
  the maps of the machine's new state: every set or cleared turn and every outbound time is reported.
\<close>

theorem effects_refine_state: "fold apply_effect (snd (transition s e)) (clocks s) = clocks (fst (transition s e))"
proof (cases e)
  case (TurnEnd k at out)
  define s1 where "s1 = updatePerKey s k (\<lambda>p. \<lparr>turnStartedAt = None, lastOutboundAt = (if out then Some at else lastOutboundAt p)\<rparr>)"
  let ?sw = "sweep_loop (perKey s1) (chatIdOfKey k) k s1"
  have "clocks (fst (transition s e)) = clocks (fst ?sw)"
    by (simp add: TurnEnd s1_def sweepSiblings_def Let_def case_prod_beta)
  moreover have "snd (transition s e) = ClearTurnStarted k # snd ?sw @ (if out then [NoteOutbound k at] else [])
      @ [DrainBuffer, LogTrace ''turn_complete'' (Some k) (OutboundEmitted out)]"
    by (simp add: TurnEnd s1_def sweepSiblings_def Let_def case_prod_beta)
  moreover have "key_state s1 j = (if j = k then \<lparr>turnStartedAt = None, lastOutboundAt = (if out then Some at else lastOutboundAt (key_state s k))\<rparr> else key_state s j)" for j
    by (simp add: s1_def key_state_updatePerKey)
  ultimately show ?thesis
    by (auto simp: clocks_def sweep_effects sweep_key_state fun_eq_iff)
qed (auto simp: clocks_update tick_clocks Let_def, auto simp: clocks_def fun_upd_idem)

text \<open>
  A turn's end clears its whole chat. After \<open>turnEnd\<close> for a key no key of the same chat has a
  running turn, the keys of other chats are as they were, and no other key's last outbound is lost;
  the machine is idle if the ended turn was the active one. This holds in every reachable state.
\<close>

theorem turn_end_sweeps_chat:
  fixes es :: "event list" and k :: ChatKey and at :: int and out :: bool and s s' :: machine
  defines "s \<equiv> run machine_step initialState es"
  defines "s' \<equiv> fst (transition s (TurnEnd k at out))"
  shows "(chatIdOfKey j = chatIdOfKey k \<longrightarrow> turnStartedAt (key_state s' j) = None)
    \<and> (chatIdOfKey j \<noteq> chatIdOfKey k \<longrightarrow> key_state s' j = key_state s j)
    \<and> (j \<noteq> k \<longrightarrow> lastOutboundAt (key_state s' j) = lastOutboundAt (key_state s j))
    \<and> (global s = BridgeAliveInTurn k \<longrightarrow> global s' = BridgeAliveIdle)"
proof -
  have "tight s" unfolding s_def by (rule delivery.invar_run) (simp add: tight_def initialState_def)
  define s1 where "s1 = updatePerKey s k (\<lambda>p. \<lparr>turnStartedAt = None, lastOutboundAt = (if out then Some at else lastOutboundAt p)\<rparr>)"
  let ?sw = "sweep_loop (perKey s1) (chatIdOfKey k) k s1"
  have t1: "tight s1" using tight_updatePerKey \<open>tight s\<close> by (simp add: s1_def)
  have k1: "key_state s1 j = (if j = k then \<lparr>turnStartedAt = None, lastOutboundAt = (if out then Some at else lastOutboundAt (key_state s k))\<rparr> else key_state s j)" for j
    by (simp add: s1_def key_state_updatePerKey)
  have s': "key_state s' j = key_state (fst ?sw) j" "global s' = (if global s = BridgeAliveInTurn k then BridgeAliveIdle else global s)" for j
    by (simp_all add: s'_def s1_def sweepSiblings_def Let_def case_prod_beta)
  have started: "swept (perKey s1) (chatIdOfKey k) k j"
    if "j \<noteq> k" "chatIdOfKey j = chatIdOfKey k" "turnStartedAt (key_state s1 j) \<noteq> None"
    using that key_state_started [of s1 j] unfolding swept_def by blast
  have other: "\<not> swept (perKey s1) (chatIdOfKey k) k j" if "chatIdOfKey j \<noteq> chatIdOfKey k"
    using that by (simp add: swept_def)
  show ?thesis
    using started other k1 [of j] by (cases "turnStartedAt (key_state s j)") (auto simp: s' sweep_key_state)
qed

theorem turn_end_sweeps_chat_witness:
  "turnStartedAt (key_state (fst (transition (run machine_step initialState [BridgeUp 0, TurnStart ''7:1'' 1, TurnStart ''7:2'' 2])
     (TurnEnd ''7:2'' 3 True))) ''7:1'') = None"
  using turn_end_sweeps_chat [where j = "''7:1''" and k = "''7:2''" and es = "[BridgeUp 0, TurnStart ''7:1'' 1, TurnStart ''7:2'' 2]"
      and at = 3 and out = True]
  by (simp add: chatIdOfKey_def)

text \<open>
  The fallback fires exactly when it should. In every reachable state a tick pokes a key if and
  only if its turn is older than five minutes and the model has sent nothing for it in the last minute;
  exactly the poked turns are cleared, every other key is untouched, and a poked active turn makes the
  machine idle.
\<close>

theorem tick_fires_exactly_stale_turns:
  fixes es :: "event list" and now :: int and s s' :: machine and stale :: "ChatKey \<Rightarrow> bool"
  defines "s \<equiv> run machine_step initialState es"
  defines "s' \<equiv> fst (transition s (TickAt now))"
  defines "stale \<equiv> \<lambda>k. (\<exists>t. turnStartedAt (key_state s k) = Some t \<and> 300000 < now - t)
      \<and> (\<forall>q. lastOutboundAt (key_state s k) = Some q \<longrightarrow> 60000 \<le> now - q)"
  shows "(FirePoke k l \<in> set (snd (transition s (TickAt now))) \<longleftrightarrow> l = Fallback \<and> stale k)
    \<and> key_state s' k = (if stale k then (key_state s k)\<lparr>turnStartedAt := None\<rparr> else key_state s k)
    \<and> (global s' = BridgeAliveInTurn k \<longleftrightarrow> global s = BridgeAliveInTurn k \<and> \<not> stale k)"
proof -
  have t: "tight s" unfolding s_def by (rule delivery.invar_run) (simp add: tight_def initialState_def)
  have "fires now (key_state s j) \<longleftrightarrow> stale j" for j
    by (auto simp: fires_def stale_def recentOutbound_def TURN_TTL_MS_def OUTBOUND_RECENT_MS_def split: option.splits)
  then have f: "fired (perKey s) now j \<longleftrightarrow> stale j" for j using fired_iff [OF t] by simp
  have "global s' = BridgeAliveInTurn k \<longleftrightarrow> global s = BridgeAliveInTurn k \<and> \<not> stale k"
    by (cases "global s") (auto simp: s'_def tick_global f)
  then show ?thesis by (simp add: tick_pokes f s'_def tick_key_state clear_turn_def)
qed

theorem tick_fires_exactly_stale_turns_witness:
  "FirePoke ''7:1'' Fallback \<in> set (snd (transition (run machine_step initialState [BridgeUp 0, TurnStart ''7:1'' 1]) (TickAt 300002)))"
  using tick_fires_exactly_stale_turns [where k = "''7:1''" and l = Fallback and es = "[BridgeUp 0, TurnStart ''7:1'' 1]" and now = 300002]
  by (simp add: machine_step_def initialState_def updatePerKey_def Let_def key_state_def emptyPerKey_def in_turn_def)

text \<open>All effects of a run.\<close>

fun trace :: "machine \<Rightarrow> event list \<Rightarrow> effect list" where
  "trace s [] = []"
| "trace s (e # es) = snd (transition s e) @ trace (fst (transition s e)) es"

definition wedged :: "ChatKey \<Rightarrow> machine \<Rightarrow> bool" where
  "wedged k s \<longleftrightarrow> global s = BridgeAliveInTurn k \<and> turnStartedAt (key_state s k) = None"

text \<open>The events that end a wedge: the turn's own end or restart, and the loss of the bridge.\<close>

fun unwedges :: "ChatKey \<Rightarrow> event \<Rightarrow> bool" where
  "unwedges k (TurnEnd j at out) = (j = k)"
| "unwedges k (TurnStart j at) = (j = k)"
| "unwedges k (BridgeDown at) = True"
| "unwedges k _ = False"

lemma sweep_effects_clear: "f \<in> set (snd (sweep_loop kvs c e m)) \<Longrightarrow> \<exists>j. f = ClearTurnStarted j"
  by (induction kvs c e m rule: sweep_loop.induct) (auto split: prod.splits if_splits)

lemma tick_no_delivery: "DeliverToBridge j m \<notin> set (snd (tick_loop kvs now s))"
proof (induction kvs arbitrary: s)
  case (Cons kv kvs)
  obtain k v where "kv = (k, v)" by (cases kv)
  then show ?case using Cons.IH by (simp add: tick_loop_Cons Let_def)
qed simp

lemma wedged_step:
  assumes "tight s" "wedged k s" "\<not> unwedges k e"
  shows "wedged k (fst (transition s e))" (is ?stay)
    and "FirePoke k l \<notin> set (snd (transition s e))" (is ?silent)
    and "DeliverToBridge j m \<in> set (snd (transition s e)) \<Longrightarrow> isSteering m" (is "?deliver \<Longrightarrow> _")
proof -
  have "?stay \<and> ?silent \<and> (?deliver \<longrightarrow> isSteering m)"
  proof (cases e)
    case (TickAt now)
    have "\<not> fired (perKey s) now k" using fired_iff [OF assms(1)] assms(2) by (simp add: wedged_def fires_def)
    then show ?thesis using TickAt assms(2)
      by (simp add: wedged_def tick_global tick_key_state tick_pokes tick_no_delivery)
  next
    case (TurnEnd i at out)
    then show ?thesis using assms(2,3)
      by (auto simp: wedged_def sweepSiblings_def Let_def sweep_key_state key_state_updatePerKey case_prod_beta
          dest: sweep_effects_clear)
  qed (use assms in \<open>auto simp: wedged_def in_turn_def bridge_alive_def key_state_updatePerKey Let_def\<close>)
  then show ?stay ?silent "?deliver \<Longrightarrow> isSteering m" by blast+
qed

text \<open>
  A wedged turn stays wedged. When the machine believes a turn of the key \<open>k\<close> is running while
  that key's start time has been cleared (the end of a sibling thread's turn does this, see the
  witness), no tick ever fires the fallback for \<open>k\<close> and no ordinary inbound of any chat is delivered,
  for as long as the turn's own end does not arrive, the turn is not restarted and the bridge holds.
\<close>

theorem wedged_turn_blocks_delivery:
  assumes "tight s" "wedged k s" "\<forall>e \<in> set es. \<not> unwedges k e"
  shows "wedged k (run machine_step s es) \<and> FirePoke k l \<notin> set (trace s es)
    \<and> (\<forall>j m. DeliverToBridge j m \<in> set (trace s es) \<longrightarrow> isSteering m)"
  using assms
proof (induction es arbitrary: s)
  case (Cons e es)
  have "tight (fst (transition s e))" using tight_step [OF Cons.prems(1), of e] by (simp add: machine_step_def)
  then show ?case
    using Cons.IH [of "fst (transition s e)"] wedged_step [OF Cons.prems(1,2), of e] Cons.prems(3)
    by (auto simp: machine_step_def)
qed simp

definition wedge_events :: "event list" where
  "wedge_events = [BridgeUp 0, TurnStart ''7:1'' 1, TurnStart ''7:2'' 2, TurnEnd ''7:2'' 3 True]"

lemma wedge_reachable: "tight (run machine_step initialState wedge_events) \<and> wedged ''7:1'' (run machine_step initialState wedge_events)"
proof
  show "tight (run machine_step initialState wedge_events)"
    by (rule delivery.invar_run) (simp add: tight_def initialState_def)
  show "wedged ''7:1'' (run machine_step initialState wedge_events)"
    by (simp add: wedge_events_def machine_step_def initialState_def updatePerKey_def Let_def key_state_def emptyPerKey_def
        in_turn_def sweepSiblings_def chatIdOfKey_def clear_turn_def wedged_def AList.delete_eq)
qed

theorem wedged_turn_blocks_delivery_witness:
  "DeliverToBridge ''9:_'' \<lparr>msgId = 1, isSteering = False, payload = []\<rparr> \<notin> set (trace (run machine_step initialState wedge_events)
     [TickAt 99999999, Inbound ''9:_'' \<lparr>msgId = 1, isSteering = False, payload = []\<rparr> 99999999])"
  using wedged_turn_blocks_delivery [of "run machine_step initialState wedge_events" "''7:1''"
      "[TickAt 99999999, Inbound ''9:_'' \<lparr>msgId = 1, isSteering = False, payload = []\<rparr> 99999999]"] wedge_reachable
  by fastforce

end
