(* ===== verification/Obligation_Ledger.thy ===== *)
theory Obligation_Ledger
  imports Prelude
begin

text \<open>
  \<open>telegram-plugin/gateway/obligation-ledger.ts\<close>: the ledger of inbound messages that still need an
  answer. The private \<open>Map\<close> is an association list in insertion order; the hook \<open>onChange\<close> that the
  gateway wires to its snapshot store is the field \<open>persisted\<close>, the last snapshot handed to it. The two
  builders of message texts at the end of the file are not modelled.
\<close>

section \<open>State\<close>

record CapturedDeliverySnapshot =
  chunks :: "string list"
  chunkStates :: "(nat \<times> int list \<times> bool) list"

record Obligation =
  originTurnId :: string
  chatId :: string
  threadId :: "int option"
  messageId :: int
  o_text :: string
  openedAt :: int
  representCount :: nat
  escalateAttempts :: "nat option"
  lastTurnEndedAt :: "int option"
  lastRepresentedAt :: "int option"
  capturedDelivery :: "CapturedDeliverySnapshot option"

datatype LedgerDecision = NoAction | Represent Obligation | Escalate Obligation

record ObligationInput =
  in_originTurnId :: string
  in_chatId :: string
  in_threadId :: "int option"
  in_messageId :: int
  in_text :: string
  in_openedAt :: int

record ledger =
  maxRepresents :: nat
  open_map :: "(string \<times> Obligation) list"
  persisted :: "Obligation list"

definition new_ledger :: "nat \<Rightarrow> ledger" where
  "new_ledger n = \<lparr>maxRepresents = n, open_map = [], persisted = []\<rparr>"

section \<open>Operations\<close>

definition listObligations :: "ledger \<Rightarrow> Obligation list" where
  "listObligations l = sort_key openedAt (map snd (open_map l))"

definition persist :: "ledger \<Rightarrow> ledger" where
  "persist l = l\<lparr>persisted := listObligations l\<rparr>"

definition isOpen :: "ledger \<Rightarrow> string \<Rightarrow> bool" where
  "isOpen l i \<longleftrightarrow> map_of (open_map l) i \<noteq> None"

definition getObligation :: "ledger \<Rightarrow> string \<Rightarrow> Obligation option" where
  "getObligation l i = map_of (open_map l) i"

definition hasOpen :: "ledger \<Rightarrow> bool" where
  "hasOpen l \<longleftrightarrow> 0 < length (open_map l)"

definition fresh_obligation :: "ObligationInput \<Rightarrow> Obligation" where
  "fresh_obligation i = \<lparr>originTurnId = in_originTurnId i, chatId = in_chatId i, threadId = in_threadId i,
     messageId = in_messageId i, o_text = in_text i, openedAt = in_openedAt i, representCount = 0,
     escalateAttempts = None, lastTurnEndedAt = None, lastRepresentedAt = None, capturedDelivery = None\<rparr>"

definition openIfAbsent :: "ObligationInput \<Rightarrow> ledger \<Rightarrow> bool \<times> ledger" where
  "openIfAbsent i l =
     (if isOpen l (in_originTurnId i) then (False, l)
      else (True, persist (l\<lparr>open_map := AList.update (in_originTurnId i) (fresh_obligation i) (open_map l)\<rparr>)))"

definition close :: "string option \<Rightarrow> ledger \<Rightarrow> bool \<times> ledger" where
  "close target l = (case target of None \<Rightarrow> (False, l)
     | Some i \<Rightarrow> if isOpen l i then (True, persist (l\<lparr>open_map := AList.delete i (open_map l)\<rparr>)) else (False, l))"

text \<open>A snapshot row that is null is \<open>None\<close>; rows with an empty id are skipped.\<close>

fun hydrate_loop :: "Obligation option list \<Rightarrow> (string \<times> Obligation) list \<Rightarrow> (string \<times> Obligation) list" where
  "hydrate_loop [] acc = acc"
| "hydrate_loop (None # rows) acc = hydrate_loop rows acc"
| "hydrate_loop (Some b # rows) acc =
     hydrate_loop rows (if originTurnId b \<noteq> [] then AList.update (originTurnId b) b acc else acc)"

definition hydrate :: "Obligation option list \<Rightarrow> ledger \<Rightarrow> ledger" where
  "hydrate snapshot l = l\<lparr>open_map := hydrate_loop snapshot []\<rparr>"

text \<open>The loops of \<open>oldest\<close> and \<open>oldestEligible\<close>: the first entry with the least \<open>openedAt\<close>.\<close>

fun oldest_loop :: "(Obligation \<Rightarrow> bool) \<Rightarrow> Obligation option \<Rightarrow> Obligation list \<Rightarrow> Obligation option" where
  "oldest_loop p best [] = best"
| "oldest_loop p best (b # bs) =
     oldest_loop p (if \<not> p b then best
       else (case best of None \<Rightarrow> Some b | Some c \<Rightarrow> if openedAt b < openedAt c then Some b else Some c)) bs"

definition oldest :: "ledger \<Rightarrow> Obligation option" where
  "oldest l = oldest_loop (\<lambda>_. True) None (map snd (open_map l))"

definition MIN_REPRESENT_INTERVAL_MS :: int where
  "MIN_REPRESENT_INTERVAL_MS = 30000"

definition representGraceStillProtecting :: "Obligation \<Rightarrow> int \<Rightarrow> int \<Rightarrow> int \<Rightarrow> bool" where
  "representGraceStillProtecting b now representGraceMs trailingGraceMs =
     (if representGraceMs \<le> 0 then False
      else (case lastRepresentedAt b of None \<Rightarrow> False
        | Some r \<Rightarrow>
            (let sinceRepresent = now - r;
                 representTurnEnded = (case lastTurnEndedAt b of None \<Rightarrow> False | Some e \<Rightarrow> r < e)
             in if representGraceMs \<le> sinceRepresent then False
                else if representTurnEnded \<and> 0 < trailingGraceMs then
                  sinceRepresent < min representGraceMs (max trailingGraceMs MIN_REPRESENT_INTERVAL_MS)
                else True)))"

record idle_opts =
  now :: int
  graceMs :: int
  backgroundWorkActive :: bool
  backgroundGraceMs :: int
  representGraceMs :: int

definition eligible :: "idle_opts \<Rightarrow> Obligation \<Rightarrow> bool" where
  "eligible opts b =
     (if (case lastTurnEndedAt b of None \<Rightarrow> False | Some e \<Rightarrow> now opts - e < graceMs opts) then False
      else if backgroundWorkActive opts \<and> 0 < backgroundGraceMs opts \<and> now opts - openedAt b < backgroundGraceMs opts then False
      else if representGraceStillProtecting b (now opts) (representGraceMs opts) (graceMs opts) then False
      else True)"

definition oldestEligible :: "idle_opts \<Rightarrow> ledger \<Rightarrow> Obligation option" where
  "oldestEligible opts l = oldest_loop (eligible opts) None (map snd (open_map l))"

text \<open>\<open>decideAtIdle\<close>: absent optional numbers are 0, an absent \<open>backgroundWorkActive\<close> is false.\<close>

definition decideAtIdle :: "idle_opts option \<Rightarrow> ledger \<Rightarrow> LedgerDecision" where
  "decideAtIdle opts l =
     (let best = (case opts of
          Some q \<Rightarrow> (if 0 < graceMs q \<or> backgroundWorkActive q \<or> 0 < representGraceMs q then oldestEligible q l else oldest l)
        | None \<Rightarrow> oldest l)
      in case best of None \<Rightarrow> NoAction
         | Some b \<Rightarrow> if maxRepresents l \<le> representCount b then Escalate b else Represent b)"

text \<open>The operations that mutate one open entry in place and persist.\<close>

definition touch :: "string \<Rightarrow> (Obligation \<Rightarrow> Obligation) \<Rightarrow> ledger \<Rightarrow> ledger" where
  "touch i f l = (case map_of (open_map l) i of None \<Rightarrow> l
     | Some b \<Rightarrow> persist (l\<lparr>open_map := AList.update i (f b) (open_map l)\<rparr>))"

definition noteTurnEnded :: "string \<Rightarrow> int \<Rightarrow> ledger \<Rightarrow> ledger" where
  "noteTurnEnded i ts l = touch i (\<lambda>b. b\<lparr>lastTurnEndedAt := Some ts\<rparr>) l"

definition resolveCloseTarget :: "string option \<Rightarrow> string option \<Rightarrow> string option \<Rightarrow> ledger \<Rightarrow> string option" where
  "resolveCloseTarget echoedTurnId liveTurnId routedOriginId l =
     (case echoedTurnId of Some e \<Rightarrow> Some e
      | None \<Rightarrow> (case routedOriginId of Some r \<Rightarrow> Some r
        | None \<Rightarrow> (case liveTurnId of Some t \<Rightarrow> if isOpen l t then Some t else None | None \<Rightarrow> None)))"

definition noteCapturedDelivery :: "string \<Rightarrow> CapturedDeliverySnapshot \<Rightarrow> ledger \<Rightarrow> ledger" where
  "noteCapturedDelivery i snapshot l =
     (if chunks snapshot = [] then l else touch i (\<lambda>b. b\<lparr>capturedDelivery := Some snapshot\<rparr>) l)"

definition markRepresented :: "string \<Rightarrow> int \<Rightarrow> ledger \<Rightarrow> nat \<times> ledger" where
  "markRepresented i t l =
     (let l' = touch i (\<lambda>b. b\<lparr>representCount := Suc (representCount b), lastRepresentedAt := Some t\<rparr>) l
      in (case map_of (open_map l') i of None \<Rightarrow> 0 | Some b \<Rightarrow> representCount b, l'))"

definition attempts :: "Obligation \<Rightarrow> nat" where
  "attempts b = (case escalateAttempts b of None \<Rightarrow> 0 | Some n \<Rightarrow> n)"

definition markEscalateAttempt :: "string \<Rightarrow> ledger \<Rightarrow> nat \<times> ledger" where
  "markEscalateAttempt i l =
     (let l' = touch i (\<lambda>b. b\<lparr>escalateAttempts := Some (Suc (attempts b))\<rparr>) l
      in (case map_of (open_map l') i of None \<Rightarrow> 0 | Some b \<Rightarrow> attempts b, l'))"

section \<open>The ledger as an event system\<close>

datatype ledger_event =
    Open ObligationInput
  | CloseTarget "string option"
  | TurnEnded string int
  | Captured string CapturedDeliverySnapshot
  | Represented string int
  | EscalateAttempt string
  | Restart

text \<open>A restart builds a new ledger and hydrates it from the last persisted snapshot.\<close>

definition restart :: "ledger \<Rightarrow> ledger" where
  "restart l = hydrate (map Some (persisted l)) (l\<lparr>open_map := []\<rparr>)"

fun ledger_step :: "ledger_event \<Rightarrow> ledger \<Rightarrow> ledger" where
  "ledger_step (Open i) l = snd (openIfAbsent i l)"
| "ledger_step (CloseTarget t) l = snd (close t l)"
| "ledger_step (TurnEnded i t) l = noteTurnEnded i t l"
| "ledger_step (Captured i c) l = noteCapturedDelivery i c l"
| "ledger_step (Represented i t) l = snd (markRepresented i t l)"
| "ledger_step (EscalateAttempt i) l = snd (markEscalateAttempt i l)"
| "ledger_step Restart l = restart l"

text \<open>Keys are unique and are the obligations' own ids; the persisted snapshot is current.\<close>

definition keyed :: "(string \<times> Obligation) list \<Rightarrow> bool" where
  "keyed m \<longleftrightarrow> distinct (map fst m) \<and> (\<forall>(k, b) \<in> set m. originTurnId b = k \<and> k \<noteq> [])"

definition ledger_ok :: "ledger \<Rightarrow> bool" where
  "ledger_ok l \<longleftrightarrow> keyed (open_map l) \<and> persisted l = listObligations l"

lemma persist_simps [simp]:
  "open_map (persist l) = open_map l" "maxRepresents (persist l) = maxRepresents l"
  "persisted (persist l) = listObligations l" "listObligations (persist l) = listObligations l"
  by (simp_all add: persist_def listObligations_def)

lemma keyed_update: "keyed m \<Longrightarrow> originTurnId b = k \<Longrightarrow> k \<noteq> [] \<Longrightarrow> keyed (AList.update k b m)"
  unfolding keyed_def using AList_update_memD by (fastforce simp: distinct_update)

lemma keyed_delete: "keyed m \<Longrightarrow> keyed (AList.delete k m)"
  by (auto simp: keyed_def AList.delete_eq distinct_map_filter)

lemma keyed_get: "keyed m \<Longrightarrow> map_of m k = Some b \<Longrightarrow> originTurnId b = k \<and> k \<noteq> []"
  by (auto simp: keyed_def dest!: map_of_SomeD)

lemma touch_ok:
  assumes "ledger_ok l" and "\<And>b. originTurnId (f b) = originTurnId b"
  shows "ledger_ok (touch i f l)"
proof (cases "map_of (open_map l) i")
  case (Some b)
  then have "originTurnId (f b) = i" "i \<noteq> []" using keyed_get assms by (auto simp: ledger_ok_def)
  then show ?thesis using Some assms(1) keyed_update by (simp add: touch_def ledger_ok_def)
qed (use assms in \<open>simp add: touch_def\<close>)

section \<open>The oldest entry\<close>

definition head :: "Obligation list \<Rightarrow> Obligation option" where
  "head bs = (case bs of [] \<Rightarrow> None | b # _ \<Rightarrow> Some b)"

lemma head_sort_Cons:
  "head (sort_key openedAt (b # bs)) = (case head (sort_key openedAt bs) of None \<Rightarrow> Some b
     | Some c \<Rightarrow> if openedAt c < openedAt b then Some c else Some b)"
  by (cases "sort_key openedAt bs") (auto simp: head_def)

lemma oldest_loop_Some:
  "oldest_loop p (Some c) bs = (case head (sort_key openedAt (filter p bs)) of None \<Rightarrow> Some c
     | Some d \<Rightarrow> if openedAt d < openedAt c then Some d else Some c)"
proof (induction bs arbitrary: c)
  case Nil
  then show ?case by (simp add: head_def)
next
  case (Cons b bs)
  show ?case
  proof (cases "p b")
    case True
    show ?thesis using True Cons.IH [of b] Cons.IH [of c]
      by (cases "head (sort_key openedAt (filter p bs))")
         (auto simp only: oldest_loop.simps filter.simps head_sort_Cons option.case if_True if_False simp_thms split: if_split)
  next
    case False
    then show ?thesis using Cons.IH [of c] by simp
  qed
qed

text \<open>The loop finds the first entry of the age-sorted eligible entries.\<close>

lemma oldest_loop_head: "oldest_loop p None bs = head (sort_key openedAt (filter p bs))"
proof (induction bs)
  case Nil
  then show ?case by (simp add: head_def)
next
  case (Cons b bs)
  then show ?case
    by (cases "p b") (simp_all only: oldest_loop.simps filter.simps head_sort_Cons oldest_loop_Some option.case if_True if_False simp_thms)
qed

text \<open>Sorting by age, stably, does not change which entry is the oldest.\<close>

lemma oldest_loop_sort: "oldest_loop p None (sort_key openedAt bs) = oldest_loop p None bs"
proof -
  have "filter p (sort_key openedAt bs) = sort_key openedAt (filter p bs)" by (simp add: filter_sort)
  moreover have "sort_key openedAt (sort_key openedAt cs) = sort_key openedAt cs" for cs :: "Obligation list"
    by (simp add: sort_key_id_if_sorted)
  ultimately show ?thesis by (simp add: oldest_loop_head)
qed

lemma oldest_loop_minimal:
  assumes "oldest_loop p None bs = Some b"
  shows "b \<in> set bs" "p b" "\<And>c. c \<in> set bs \<Longrightarrow> p c \<Longrightarrow> openedAt b \<le> openedAt c"
proof -
  obtain cs where cs: "sort_key openedAt (filter p bs) = b # cs"
    using assms by (auto simp: oldest_loop_head head_def split: list.splits)
  then have set: "set (b # cs) = {c \<in> set bs. p c}" by (metis set_filter set_sort)
  then show "b \<in> set bs" "p b" by auto
  have "sorted (map openedAt (b # cs))" using cs by (metis sorted_sort_key)
  then show "openedAt b \<le> openedAt c" if "c \<in> set bs" "p c" for c
    using that set by auto
qed

lemma oldest_loop_None_iff: "oldest_loop p None bs = None \<longleftrightarrow> (\<forall>b \<in> set bs. \<not> p b)"
proof -
  have "sort_key openedAt (filter p bs) = [] \<longleftrightarrow> filter p bs = []" by (metis length_sort length_0_conv)
  then show ?thesis by (auto simp: oldest_loop_head head_def filter_empty_conv split: list.splits)
qed

section \<open>Hydration restores the ledger\<close>

lemma hydrate_loop_fresh:
  assumes "distinct (map originTurnId bs)" "\<forall>b \<in> set bs. originTurnId b \<noteq> [] \<and> originTurnId b \<notin> fst ` set acc"
  shows "hydrate_loop (map Some bs) acc = acc @ map (\<lambda>b. (originTurnId b, b)) bs"
  using assms
proof (induction bs arbitrary: acc)
  case (Cons b bs)
  have "\<forall>c \<in> set bs. originTurnId c \<noteq> [] \<and> originTurnId c \<notin> fst ` set (acc @ [(originTurnId b, b)])"
    using Cons.prems by (auto dest: image_eqI [of _ originTurnId, OF sym])
  then show ?case using Cons.IH [of "acc @ [(originTurnId b, b)]"] Cons.prems by (simp add: AList_update_new)
qed simp

lemma keyed_values: "keyed m \<Longrightarrow> map (\<lambda>b. (originTurnId b, b)) (map snd m) = m"
  by (auto simp: keyed_def intro!: map_idI)

lemma keyed_ids: "keyed m \<Longrightarrow> map originTurnId (map snd m) = map fst m"
  by (auto simp: keyed_def)

lemma list_distinct: "ledger_ok l \<Longrightarrow> distinct (map originTurnId (listObligations l))"
proof -
  assume "ledger_ok l"
  then have "distinct (map originTurnId (map snd (open_map l)))" (is "distinct (map originTurnId ?bs)")
    unfolding ledger_ok_def by (metis keyed_def keyed_ids)
  then have "distinct ?bs" "inj_on originTurnId (set ?bs)" by (simp_all only: distinct_map simp_thms)
  then show ?thesis by (simp only: listObligations_def distinct_map [of originTurnId] set_sort distinct_sort simp_thms)
qed

lemma restart_map:
  assumes "ledger_ok l"
  shows "open_map (restart l) = map (\<lambda>b. (originTurnId b, b)) (listObligations l)"
proof -
  have "\<forall>b \<in> set (listObligations l). originTurnId b \<noteq> []" "persisted l = listObligations l"
    using assms by (auto simp: listObligations_def keyed_def ledger_ok_def)
  then show ?thesis
    using hydrate_loop_fresh [of "listObligations l" "[]"] list_distinct [OF assms] by (simp add: restart_def hydrate_def)
qed

lemma restart_frame [simp]: "maxRepresents (restart l) = maxRepresents l" "persisted (restart l) = persisted l"
  by (simp_all add: restart_def hydrate_def)

lemma restart_values: "ledger_ok l \<Longrightarrow> map snd (open_map (restart l)) = listObligations l"
  by (simp add: restart_map comp_def)

lemma restart_set: "ledger_ok l \<Longrightarrow> set (open_map (restart l)) = set (open_map l)"
proof -
  assume l: "ledger_ok l"
  have "set (open_map (restart l)) = set (map (\<lambda>b. (originTurnId b, b)) (map snd (open_map l)))"
    unfolding restart_map [OF l] listObligations_def set_map set_sort ..
  then show ?thesis using keyed_values [of "open_map l"] l unfolding ledger_ok_def by metis
qed

lemma restart_keyed: "ledger_ok l \<Longrightarrow> keyed (open_map (restart l))"
proof -
  assume l: "ledger_ok l"
  have "distinct (map fst (open_map (restart l)))"
    using list_distinct [OF l] by (simp add: restart_map [OF l] comp_def)
  then show ?thesis using l restart_set [OF l] by (simp add: keyed_def ledger_ok_def)
qed

lemma restart_list: "ledger_ok l \<Longrightarrow> listObligations (restart l) = listObligations l"
  unfolding listObligations_def [of "restart l"] by (simp add: restart_values listObligations_def sort_key_id_if_sorted)

lemma restart_ok: "ledger_ok l \<Longrightarrow> ledger_ok (restart l)"
  by (simp add: ledger_ok_def [of "restart l"] restart_keyed restart_list) (simp add: ledger_ok_def)

lemma restart_get: "ledger_ok l \<Longrightarrow> getObligation (restart l) i = getObligation l i"
  using restart_keyed [of l] restart_set [of l] map_of_inject_set [of "open_map (restart l)" "open_map l"]
  by (simp add: getObligation_def ledger_ok_def keyed_def)

lemma restart_decide: "ledger_ok l \<Longrightarrow> decideAtIdle opts (restart l) = decideAtIdle opts l"
  by (cases opts) (simp_all add: decideAtIdle_def oldest_def oldestEligible_def restart_values listObligations_def
      oldest_loop_sort split: option.splits)

fun named :: "ledger_event \<Rightarrow> bool" where
  "named (Open i) = (in_originTurnId i \<noteq> [])"
| "named _ = True"

lemma ledger_ok_step: "ledger_ok l \<Longrightarrow> named e \<Longrightarrow> ledger_ok (ledger_step e l)"
proof (cases e)
  case (Open i)
  assume "ledger_ok l" "named e"
  then show ?thesis using Open keyed_update [of "open_map l" "fresh_obligation i" "in_originTurnId i"]
    by (simp add: openIfAbsent_def ledger_ok_def fresh_obligation_def)
next
  case (CloseTarget t)
  assume "ledger_ok l"
  then show ?thesis using CloseTarget keyed_delete
    by (cases t) (simp_all add: close_def ledger_ok_def)
qed (simp_all add: noteTurnEnded_def noteCapturedDelivery_def markRepresented_def markEscalateAttempt_def Let_def
    touch_ok restart_ok)

text \<open>Events that open an obligation without an id leave the ledger as it is for this contract.\<close>

definition named_step :: "ledger_event \<Rightarrow> ledger \<Rightarrow> ledger" where
  "named_step e l = (if named e then ledger_step e l else l)"

interpretation obligations: event_system named_step ledger_ok
  by unfold_locales (simp add: named_step_def ledger_ok_step)

lemma run_named: "list_all named es \<Longrightarrow> run ledger_step l es = run named_step l es"
  by (induction es arbitrary: l) (simp_all add: named_step_def)

lemma ledger_ok_run: "list_all named es \<Longrightarrow> ledger_ok (run ledger_step (new_ledger n) es)"
  unfolding run_named by (rule obligations.invar_run) (simp add: new_ledger_def ledger_ok_def keyed_def listObligations_def)

text \<open>
  Claim C8: a restart at any moment loses nothing. After any sequence of operations, a ledger hydrated
  from the last persisted snapshot answers every query alike: the same obligations are open with the
  same counters, and \<open>decideAtIdle\<close> makes the same decision for all options, ties in age included.
\<close>

theorem restart_is_transparent:
  assumes "list_all named es"
  shows "getObligation (restart (run ledger_step (new_ledger n) es)) i = getObligation (run ledger_step (new_ledger n) es) i
    \<and> decideAtIdle opts (restart (run ledger_step (new_ledger n) es)) = decideAtIdle opts (run ledger_step (new_ledger n) es)
    \<and> listObligations (restart (run ledger_step (new_ledger n) es)) = listObligations (run ledger_step (new_ledger n) es)"
  using ledger_ok_run [OF assms] by (simp add: restart_get restart_decide restart_list)

definition demo_obligation :: "string \<Rightarrow> int \<Rightarrow> ObligationInput" where
  "demo_obligation i t = \<lparr>in_originTurnId = i, in_chatId = ''7'', in_threadId = None, in_messageId = 1, in_text = ''hi'', in_openedAt = t\<rparr>"

theorem restart_is_transparent_witness:
  "decideAtIdle None (restart (run ledger_step (new_ledger 2) [Open (demo_obligation ''b'' 5), Open (demo_obligation ''a'' 5), Represented ''b'' 9]))
   = decideAtIdle None (run ledger_step (new_ledger 2) [Open (demo_obligation ''b'' 5), Open (demo_obligation ''a'' 5), Represented ''b'' 9])"
  using restart_is_transparent [of "[Open (demo_obligation ''b'' 5), Open (demo_obligation ''a'' 5), Represented ''b'' 9]"]
  by (simp add: demo_obligation_def)

section \<open>What the decision rests on\<close>

lemma oldest_mem: "keyed (open_map l) \<Longrightarrow> oldest l = Some b \<Longrightarrow> map_of (open_map l) (originTurnId b) = Some b"
  unfolding oldest_def using oldest_loop_minimal(1) by (fastforce simp: keyed_def)

lemma oldest_None: "oldest l = None \<longleftrightarrow> open_map l = []"
  unfolding oldest_def oldest_loop_None_iff by (cases "open_map l") auto

lemma decide_mem:
  assumes "keyed (open_map l)" and "decideAtIdle opts l = Represent b \<or> decideAtIdle opts l = Escalate b"
  shows "map_of (open_map l) (originTurnId b) = Some b"
proof -
  have "\<exists>p. oldest_loop p None (map snd (open_map l)) = Some b"
    using assms(2) by (auto simp: decideAtIdle_def oldest_def oldestEligible_def split: option.splits if_splits)
  then show ?thesis using oldest_loop_minimal(1) assms(1) by (fastforce simp: keyed_def)
qed

text \<open>
  No rung comes early. Whenever \<open>decideAtIdle\<close> with a trailing grace acts on an obligation, that
  obligation is open, its last handling turn ended at least the grace ago, it is older than the
  background ceiling if background work is running, its last re-presentation lies at least 30 seconds
  (or the configured window, if shorter) back, and no other eligible obligation is older.
\<close>

theorem decision_respects_graces:
  assumes "0 < graceMs q" and "decideAtIdle (Some q) l = Represent b \<or> decideAtIdle (Some q) l = Escalate b"
  shows "b \<in> snd ` set (open_map l)
    \<and> (\<forall>e. lastTurnEndedAt b = Some e \<longrightarrow> graceMs q \<le> now q - e)
    \<and> (backgroundWorkActive q \<longrightarrow> 0 < backgroundGraceMs q \<longrightarrow> backgroundGraceMs q \<le> now q - openedAt b)
    \<and> (\<forall>r. lastRepresentedAt b = Some r \<longrightarrow> 0 < representGraceMs q \<longrightarrow> min (representGraceMs q) 30000 \<le> now q - r)
    \<and> (\<forall>c \<in> snd ` set (open_map l). eligible q c \<longrightarrow> openedAt b \<le> openedAt c)"
proof -
  have o: "oldest_loop (eligible q) None (map snd (open_map l)) = Some b"
    using assms by (auto simp: decideAtIdle_def oldestEligible_def Let_def split: option.splits if_splits)
  have el: "eligible q b" using oldest_loop_minimal(2) [OF o] .
  have "min (representGraceMs q) 30000 \<le> now q - r"
    if "lastRepresentedAt b = Some r" "0 < representGraceMs q" for r
    using el that by (auto simp: eligible_def representGraceStillProtecting_def MIN_REPRESENT_INTERVAL_MS_def Let_def
        split: if_splits)
  moreover have "\<forall>e. lastTurnEndedAt b = Some e \<longrightarrow> graceMs q \<le> now q - e"
    "backgroundWorkActive q \<longrightarrow> 0 < backgroundGraceMs q \<longrightarrow> backgroundGraceMs q \<le> now q - openedAt b"
    using el by (auto simp: eligible_def split: if_splits)
  ultimately show ?thesis using oldest_loop_minimal(1,3) [OF o] by auto
qed

definition demo_opts :: idle_opts where
  "demo_opts = \<lparr>now = 100000, graceMs = 45000, backgroundWorkActive = False, backgroundGraceMs = 0, representGraceMs = 120000\<rparr>"

theorem decision_respects_graces_witness:
  "\<exists>b. decideAtIdle (Some demo_opts) (run ledger_step (new_ledger 2) [Open (demo_obligation ''b'' 5)]) = Represent b
    \<and> b \<in> snd ` set (open_map (run ledger_step (new_ledger 2) [Open (demo_obligation ''b'' 5)]))"
proof -
  have d: "decideAtIdle (Some demo_opts) (run ledger_step (new_ledger 2) [Open (demo_obligation ''b'' 5)])
      = Represent (fresh_obligation (demo_obligation ''b'' 5))"
    by (simp add: demo_opts_def demo_obligation_def new_ledger_def openIfAbsent_def isOpen_def fresh_obligation_def
        decideAtIdle_def oldestEligible_def eligible_def representGraceStillProtecting_def)
  have "0 < graceMs demo_opts" by (simp add: demo_opts_def)
  from decision_respects_graces [OF this disjI1 [OF d]] d show ?thesis by blast
qed

text \<open>
  No grace holds for ever. If some open obligation was received longer ago than the background
  ceiling, last had a turn end longer ago than the trailing grace and was last re-presented longer ago
  than the represent window, the decision is to act, whatever background work is reported.
\<close>

theorem graces_are_bounded:
  assumes "(i, b) \<in> set (open_map l)" and "openedAt b + backgroundGraceMs q \<le> now q"
    and "\<forall>e. lastTurnEndedAt b = Some e \<longrightarrow> e + graceMs q \<le> now q"
    and "\<forall>r. lastRepresentedAt b = Some r \<longrightarrow> r + representGraceMs q \<le> now q"
  shows "decideAtIdle (Some q) l \<noteq> NoAction"
proof -
  have "eligible q b" using assms(2-)
    by (auto simp: eligible_def representGraceStillProtecting_def Let_def split: option.splits)
  moreover have "b \<in> set (map snd (open_map l))" using assms(1) by force
  ultimately have "oldest_loop (eligible q) None (map snd (open_map l)) \<noteq> None"
    "oldest_loop (\<lambda>_. True) None (map snd (open_map l)) \<noteq> None"
    unfolding oldest_loop_None_iff by blast+
  then have "oldestEligible q l \<noteq> None" "oldest l \<noteq> None" by (simp_all add: oldestEligible_def oldest_def)
  then show ?thesis by (simp add: decideAtIdle_def) (auto split: option.splits)
qed

theorem graces_are_bounded_witness:
  "decideAtIdle (Some demo_opts) (run ledger_step (new_ledger 2) [Open (demo_obligation ''b'' 5)]) \<noteq> NoAction"
  by (rule graces_are_bounded [of "''b''" "fresh_obligation (demo_obligation ''b'' 5)"])
     (simp_all add: demo_opts_def demo_obligation_def new_ledger_def openIfAbsent_def isOpen_def fresh_obligation_def)

end
