(* ===== verification/Inbound_Buffer.thy ===== *)
theory Inbound_Buffer
  imports Prelude
begin

text \<open>
  \<open>telegram-plugin/gateway/pending-inbound-buffer.ts\<close>, \<open>approval-outcome-sources.ts\<close> and the predicate
  \<open>stampsHandbackMarker\<close>: the bounded per-agent buffer with its tiered eviction, the drop notifier with its
  deferred tasks, and redelivery with the merging of adjacent messages. Calls on the spool, on \<open>onEvict\<close>
  and on \<open>onHandbackEnqueue\<close> are recorded in the logs of the state; \<open>queueMicrotask\<close> appends to \<open>tasks\<close>.
\<close>

section \<open>Messages and approval outcomes\<close>

record InboundMessage =
  chatId :: string
  threadId :: "int option"
  messageId :: int
  user :: string
  userId :: int
  ts :: int
  msg_text :: string
  imagePath :: "string option"
  attachment :: "string option"
  meta :: "(string \<times> string) list"

definition source :: "InboundMessage \<Rightarrow> string option" where
  "source m = map_of (meta m) ''source''"

definition APPROVAL_OUTCOME_SOURCES :: "string list" where
  "APPROVAL_OUTCOME_SOURCES = [''vault_grant_approved'', ''vault_grant_denied'', ''vault_grant_timeout'',
     ''vault_save_completed'', ''vault_save_discarded'', ''vault_save_failed'', ''vault_save_timeout'',
     ''secret_provided'', ''secret_declined'', ''secret_provide_failed'', ''secret_request_timeout'',
     ''mental_model_proposal_applied'', ''mental_model_proposal_denied'', ''mental_model_proposal_failed'',
     ''mental_model_propose_timeout'', ''skill_proposal_apply'', ''eval_case_applied'', ''eval_case_rejected'',
     ''eval_case_apply_failed'', ''eval_case_suppressed'']"

definition APPROVAL_OUTCOME_DROPPED_SOURCE :: string where
  "APPROVAL_OUTCOME_DROPPED_SOURCE = ''approval_outcome_dropped''"

definition isApprovalOutcome :: "InboundMessage \<Rightarrow> bool" where
  "isApprovalOutcome m = (case source m of
     Some s \<Rightarrow> if s \<in> set APPROVAL_OUTCOME_SOURCES then True else map_of (meta m) ''button_callback'' = Some ''true''
   | None \<Rightarrow> map_of (meta m) ''button_callback'' = Some ''true'')"

definition approvalOutcomeLabel :: "InboundMessage \<Rightarrow> string" where
  "approvalOutcomeLabel m =
     (if source m \<noteq> None \<and> source m \<noteq> Some [] then the (source m)
      else if map_of (meta m) ''button_callback'' = Some ''true'' then ''button_callback'' else ''-'')"

text \<open>\<open>sources.join(", ")\<close>\<close>

fun join_with :: "string \<Rightarrow> string list \<Rightarrow> string" where
  "join_with sep [] = []"
| "join_with sep [x] = x"
| "join_with sep (x # xs) = x @ sep @ join_with sep xs"

definition buildApprovalOutcomeDroppedInbound ::
  "string \<Rightarrow> string \<Rightarrow> int option \<Rightarrow> string list \<Rightarrow> int \<Rightarrow> InboundMessage"
where
  "buildApprovalOutcomeDroppedInbound agent chat thread sources nowMs =
     (let list = (if sources \<noteq> [] then join_with '', '' sources else ''unknown'');
          plural = (if length sources = 1 then ''an approval outcome'' else ''approval outcomes'')
      in \<lparr>chatId = chat, threadId = thread, messageId = nowMs, user = ''gateway'', userId = 0, ts = nowMs,
          msg_text = ''! Your inbound buffer overflowed while every queued message was '' @ plural @
            '', so the oldest had to be dropped: '' @ list @ ''. Do NOT keep waiting on it -- '' @
            ''re-check the underlying state directly (e.g. retry the vault read to see '' @
            ''whether the grant exists) and tell the operator plainly what was lost.'',
          imagePath = None, attachment = None,
          meta = [(''source'', APPROVAL_OUTCOME_DROPPED_SOURCE), (''agent'', agent)]
            @ (case thread of Some t \<Rightarrow> [(''message_thread_id'', show_int t)] | None \<Rightarrow> [])
            @ [(''dropped_sources'', list), (''dropped_count'', show_nat (length sources))]\<rparr>)"

definition APPROVAL_OUTCOME_NOTICE_HOPS :: nat where
  "APPROVAL_OUTCOME_NOTICE_HOPS = 2"

text \<open>The sources classified as not being a decoupled completion.\<close>

definition LIVE_TURN_SOURCES :: "string list" where
  "LIVE_TURN_SOURCES = [''cron'', ''reaction'', ''subagent_progress'', ''resume_interrupted'', ''resume_deferred'',
     ''resume_watchdog_timeout'', ''vault_grant_approved'', ''vault_grant_denied'', ''vault_grant_timeout'',
     ''vault_save_completed'', ''vault_save_discarded'', ''vault_save_failed'', ''vault_save_timeout'',
     ''secret_provided'', ''secret_declined'', ''secret_provide_failed'', ''secret_request_timeout'',
     ''mental_model_propose_timeout'', ''bridge_dead_restart'', ''obligation_represent'', ''missed_approval_retry'',
     ''skill_proposal_apply'', ''warmup'', ''mental_model_proposal_applied'', ''mental_model_proposal_denied'',
     ''mental_model_proposal_failed'', ''webhook'', ''linear'', ''eval_case_applied'', ''eval_case_rejected'',
     ''eval_case_apply_failed'', ''eval_case_suppressed'', ''buzz'', ''boot_briefing'']"

definition stampsHandbackMarker :: "string option \<Rightarrow> bool" where
  "stampsHandbackMarker s = (case s of None \<Rightarrow> False | Some x \<Rightarrow> x \<notin> set LIVE_TURN_SOURCES)"

section \<open>The buffer\<close>

definition DEFAULT_PENDING_INBOUND_CAP :: nat where "DEFAULT_PENDING_INBOUND_CAP = 32"
definition APPROVAL_OUTCOME_PROTECTION_MS :: int where "APPROVAL_OUTCOME_PROTECTION_MS = 15 * 60 * 1000"

datatype EvictionReason = NonOutcome | StaleOutcome | AllOutcomes

fun first_index :: "('a \<Rightarrow> bool) \<Rightarrow> 'a list \<Rightarrow> nat option" where
  "first_index p [] = None"
| "first_index p (x # xs) = (if p x then Some 0 else map_option Suc (first_index p xs))"

definition selectEvictionVictim :: "InboundMessage list \<Rightarrow> int \<Rightarrow> int \<Rightarrow> nat \<times> EvictionReason" where
  "selectEvictionVictim q nowMs protectMaxAgeMs =
     (case first_index (\<lambda>m. \<not> isApprovalOutcome m) q of
        Some i \<Rightarrow> (i, NonOutcome)
      | None \<Rightarrow> (case first_index (\<lambda>m. protectMaxAgeMs \<le> nowMs - ts m) q of
          Some i \<Rightarrow> (i, StaleOutcome)
        | None \<Rightarrow> (0, AllOutcomes)))"

datatype spool_op = SpoolPut string InboundMessage | SpoolAck InboundMessage

record flush_task =
  t_agent :: string
  t_chat :: string
  t_thread :: "int option"
  t_budget :: nat

record buffer =
  queues :: "(string \<times> InboundMessage list) list"
  spool_log :: "spool_op list"
  evict_log :: "(string \<times> InboundMessage) list"
  marker_log :: "(string \<times> int option \<times> int) list"
  dropped :: "(string \<times> string list) list"
  scheduled :: "string list"
  tasks :: "flush_task list"

definition empty_buffer :: buffer where
  "empty_buffer = \<lparr>queues = [], spool_log = [], evict_log = [], marker_log = [], dropped = [], scheduled = [], tasks = []\<rparr>"

definition queue :: "buffer \<Rightarrow> string \<Rightarrow> InboundMessage list" where
  "queue b agent = (case map_of (queues b) agent of Some q \<Rightarrow> q | None \<Rightarrow> [])"

definition dropped_labels :: "buffer \<Rightarrow> string \<Rightarrow> string list" where
  "dropped_labels b agent = (case map_of (dropped b) agent of Some l \<Rightarrow> l | None \<Rightarrow> [])"

text \<open>The handler of \<open>createApprovalOutcomeDropNotifier\<close>: record the label, schedule one flush.\<close>

definition onEvictCritical :: "string \<Rightarrow> InboundMessage \<Rightarrow> buffer \<Rightarrow> buffer" where
  "onEvictCritical agent evicted b =
     (let b1 = b\<lparr>dropped := AList.update agent (dropped_labels b agent @ [approvalOutcomeLabel evicted]) (dropped b)\<rparr>
      in if agent \<in> set (scheduled b1) then b1
         else b1\<lparr>scheduled := agent # scheduled b1,
                 tasks := tasks b1 @ [\<lparr>t_agent = agent, t_chat = chatId evicted, t_thread = threadId evicted,
                                       t_budget = APPROVAL_OUTCOME_NOTICE_HOPS\<rparr>]\<rparr>)"

text \<open>The options of the buffer that the operations read: the cap, the protection window, the clock.\<close>

record buffer_opts =
  cap :: nat
  protectionMs :: int
  clock :: int

definition make_room :: "buffer_opts \<Rightarrow> string \<Rightarrow> buffer \<Rightarrow> bool \<times> buffer" where
  "make_room opts agent b =
     (let q = queue b agent
      in if length q < cap opts then (False, b)
         else (case selectEvictionVictim q (clock opts) (protectionMs opts) of (index, reason) \<Rightarrow>
           (let q' = take index q @ drop (Suc index) q;
                b1 = b\<lparr>queues := AList.update agent q' (queues b)\<rparr>
            in if index < length q then
                 (True, if reason = NonOutcome then b1\<lparr>evict_log := evict_log b1 @ [(agent, q ! index)]\<rparr>
                        else onEvictCritical agent (q ! index) b1)
               else (True, b1))))"

definition push :: "buffer_opts \<Rightarrow> string \<Rightarrow> InboundMessage \<Rightarrow> buffer \<Rightarrow> bool \<times> buffer" where
  "push opts agent msg b =
     (case make_room opts agent b of (evicted, b1) \<Rightarrow>
       (let b2 = b1\<lparr>queues := AList.update agent (queue b1 agent @ [msg]) (queues b1)\<rparr>;
            b3 = (if stampsHandbackMarker (source msg)
                  then b2\<lparr>marker_log := marker_log b2 @ [(chatId msg, threadId msg, ts msg)]\<rparr> else b2)
        in (\<not> evicted, b3\<lparr>spool_log := spool_log b3 @ [SpoolPut agent msg]\<rparr>)))"

definition drain :: "string \<Rightarrow> buffer \<Rightarrow> InboundMessage list \<times> buffer" where
  "drain agent b = (case map_of (queues b) agent of
     None \<Rightarrow> ([], b)
   | Some q \<Rightarrow> if q = [] then ([], b) else (q, b\<lparr>queues := AList.delete agent (queues b)\<rparr>))"

definition depth :: "string \<Rightarrow> buffer \<Rightarrow> nat" where
  "depth agent b = length (queue b agent)"

definition totalDepth :: "buffer \<Rightarrow> nat" where
  "totalDepth b = sum_list (map (\<lambda>e. length (snd e)) (queues b))"

text \<open>One deferred \<open>flush\<close> of the notifier.\<close>

definition flush :: "buffer_opts \<Rightarrow> flush_task \<Rightarrow> buffer \<Rightarrow> buffer" where
  "flush opts t b =
     (let agent = t_agent t;
          sources = dropped_labels b agent;
          notice = buildApprovalOutcomeDroppedInbound agent (t_chat t) (t_thread t) sources (clock opts);
          b1 = snd (push opts agent notice b);
          b2 = b1\<lparr>scheduled := removeAll agent (scheduled b1)\<rparr>
      in if 0 < t_budget t \<and> length sources < length (dropped_labels b2 agent) then
           b2\<lparr>scheduled := agent # scheduled b2, tasks := tasks b2 @ [t\<lparr>t_budget := t_budget t - 1\<rparr>]\<rparr>
         else b2\<lparr>dropped := AList.delete agent (dropped b2)\<rparr>)"

section \<open>Redelivery\<close>

definition isMergeableUserInbound :: "InboundMessage \<Rightarrow> bool" where
  "isMergeableUserInbound m \<longleftrightarrow> source m = None \<and> map_of (meta m) ''button_callback'' = None"

definition inboundHasMedia :: "InboundMessage \<Rightarrow> bool" where
  "inboundHasMedia m \<longleftrightarrow> imagePath m \<noteq> None \<or> attachment m \<noteq> None"

definition sameTarget :: "InboundMessage \<Rightarrow> InboundMessage \<Rightarrow> bool" where
  "sameTarget a b \<longleftrightarrow> chatId a = chatId b \<and> threadId a = threadId b \<and> userId a = userId b"

definition is_attachment_meta :: "string \<Rightarrow> bool" where
  "is_attachment_meta k \<longleftrightarrow> startsWith k ''image_path'' \<or> startsWith k ''attachment_''"

fun splice_meta :: "(string \<times> string) list \<Rightarrow> (string \<times> string) list \<Rightarrow> (string \<times> string) list" where
  "splice_meta [] acc = acc"
| "splice_meta ((k, v) # kvs) acc = splice_meta kvs (if is_attachment_meta k then AList.update k v acc else acc)"

definition mergeRun :: "InboundMessage list \<Rightarrow> InboundMessage" where
  "mergeRun grp =
     (let last_msg = last grp;
          media = first_index inboundHasMedia grp;
          merged = last_msg\<lparr>msg_text := join_with [CHR 0x0A] (map msg_text grp), imagePath := None, attachment := None\<rparr>
      in (case media of None \<Rightarrow> merged
          | Some i \<Rightarrow>
              (let entry = grp ! i;
                   m1 = (if i \<noteq> length grp - 1 then merged\<lparr>meta := splice_meta (meta entry) (meta merged)\<rparr> else merged)
               in m1\<lparr>imagePath := imagePath entry, attachment := attachment entry\<rparr>)))"

definition group_of :: "InboundMessage list \<Rightarrow> (InboundMessage \<times> InboundMessage list) list" where
  "group_of grp = (if grp = [] then [] else [(if length grp = 1 then hd grp else mergeRun grp, grp)])"

definition can_join :: "InboundMessage list \<Rightarrow> bool \<Rightarrow> InboundMessage \<Rightarrow> bool" where
  "can_join grp runHasMedia msg \<longleftrightarrow> grp \<noteq> [] \<and> isMergeableUserInbound msg \<and> isMergeableUserInbound (last grp)
     \<and> sameTarget (last grp) msg \<and> \<not> (runHasMedia \<and> inboundHasMedia msg)"

fun plan_loop :: "InboundMessage list \<Rightarrow> InboundMessage list \<Rightarrow> bool \<Rightarrow> (InboundMessage \<times> InboundMessage list) list" where
  "plan_loop [] grp runHasMedia = group_of grp"
| "plan_loop (msg # msgs) grp runHasMedia =
     (if can_join grp runHasMedia msg then plan_loop msgs (grp @ [msg]) (runHasMedia \<or> inboundHasMedia msg)
      else group_of grp @ plan_loop msgs [msg] (inboundHasMedia msg))"

definition planBufferedRedelivery :: "InboundMessage list \<Rightarrow> (InboundMessage \<times> InboundMessage list) list" where
  "planBufferedRedelivery pending = plan_loop pending [] False"

record redelivery_counts =
  r_drained :: nat
  r_redelivered :: nat
  r_rebuffered :: nat
  r_retracted :: nat

text \<open>
  The outcome of handing over the \<open>n\<close>-th group: \<open>Retract\<close> when \<open>beforeRedeliver\<close> says so (a gate that throws
  counts as absent), otherwise whether \<open>send\<close> returned true (a throw counts as false).
\<close>

datatype handover = Retract | Sent | NotSent

fun redeliver_loop ::
  "buffer_opts \<Rightarrow> string \<Rightarrow> (nat \<Rightarrow> InboundMessage \<Rightarrow> handover) \<Rightarrow> nat \<Rightarrow> (InboundMessage \<times> InboundMessage list) list
   \<Rightarrow> redelivery_counts \<Rightarrow> buffer \<Rightarrow> redelivery_counts \<times> buffer"
where
  "redeliver_loop opts agent hand n [] c b = (c, b)"
| "redeliver_loop opts agent hand n ((merged, originals) # gs) c b =
     (case hand n merged of
        Retract \<Rightarrow> redeliver_loop opts agent hand (Suc n) gs (c\<lparr>r_retracted := r_retracted c + length originals\<rparr>)
          (b\<lparr>spool_log := spool_log b @ map SpoolAck originals\<rparr>)
      | Sent \<Rightarrow> redeliver_loop opts agent hand (Suc n) gs (c\<lparr>r_redelivered := r_redelivered c + length originals\<rparr>)
          (b\<lparr>spool_log := spool_log b @ map SpoolAck originals\<rparr>)
      | NotSent \<Rightarrow> redeliver_loop opts agent hand (Suc n) gs (c\<lparr>r_rebuffered := r_rebuffered c + length originals\<rparr>)
          (fold (\<lambda>m b. snd (push opts agent m b)) originals b))"

definition redeliverBufferedInbound ::
  "buffer_opts \<Rightarrow> string \<Rightarrow> (nat \<Rightarrow> InboundMessage \<Rightarrow> handover) \<Rightarrow> buffer \<Rightarrow> redelivery_counts \<times> buffer"
where
  "redeliverBufferedInbound opts agent hand b =
     (case drain agent b of (pending, b1) \<Rightarrow>
        redeliver_loop opts agent hand 0 (planBufferedRedelivery pending)
          \<lparr>r_drained = length pending, r_redelivered = 0, r_rebuffered = 0, r_retracted = 0\<rparr> b1)"

definition idleDrainTick ::
  "buffer_opts \<Rightarrow> string \<Rightarrow> bool \<Rightarrow> (nat \<Rightarrow> InboundMessage \<Rightarrow> handover) \<Rightarrow> buffer \<Rightarrow> redelivery_counts option \<times> buffer"
where
  "idleDrainTick opts agent isBridgeAlive hand b =
     (if agent = [] then (None, b)
      else if depth agent b = 0 then (None, b)
      else if \<not> isBridgeAlive then (None, b)
      else (case redeliverBufferedInbound opts agent hand b of (c, b') \<Rightarrow> (Some c, b')))"

section \<open>Eviction\<close>

lemma first_index_Some:
  "first_index p xs = Some i \<longleftrightarrow> i < length xs \<and> p (xs ! i) \<and> (\<forall>x \<in> set (take i xs). \<not> p x)"
proof (induction xs arbitrary: i)
  case (Cons x xs)
  then show ?case by (cases i) auto
qed simp

lemma first_index_None: "first_index p xs = None \<longleftrightarrow> (\<forall>x \<in> set xs. \<not> p x)"
  by (induction xs) auto

lemma victim_cases:
  obtains (ordinary) i where "selectEvictionVictim q t w = (i, NonOutcome)" "i < length q" "\<not> isApprovalOutcome (q ! i)"
      "\<forall>m \<in> set (take i q). isApprovalOutcome m"
    | (critical) i r where "selectEvictionVictim q t w = (i, r)" "r \<noteq> NonOutcome" "\<forall>m \<in> set q. isApprovalOutcome m"
      "q \<noteq> [] \<Longrightarrow> i < length q"
proof (cases "first_index (\<lambda>m. \<not> isApprovalOutcome m) q")
  case None
  then have all: "\<forall>m \<in> set q. isApprovalOutcome m" by (simp add: first_index_None)
  then show thesis using critical None
    by (cases "first_index (\<lambda>m. w \<le> t - ts m) q") (auto simp: selectEvictionVictim_def first_index_Some)
next
  case (Some i)
  then have "selectEvictionVictim q t w = (i, NonOutcome)" by (simp add: selectEvictionVictim_def)
  then show thesis using ordinary [of i] Some by (simp add: first_index_Some)
qed

lemma queue_update [simp]: "queue (b\<lparr>queues := AList.update a q (queues b)\<rparr>) a' = (if a' = a then q else queue b a')"
  by (simp add: queue_def update_conv')

lemma queue_frame [simp]:
  "queue (b\<lparr>evict_log := l\<rparr>) a = queue b a" "queue (b\<lparr>spool_log := s\<rparr>) a = queue b a"
  "queue (b\<lparr>marker_log := k\<rparr>) a = queue b a" "queue (b\<lparr>scheduled := c\<rparr>) a = queue b a"
  "queue (b\<lparr>tasks := u\<rparr>) a = queue b a" "queue (b\<lparr>dropped := d\<rparr>) a = queue b a"
  by (simp_all add: queue_def)

lemma queue_critical [simp]: "queue (onEvictCritical a m b) a' = queue b a'"
  by (simp add: onEvictCritical_def Let_def)

definition remove_at :: "nat \<Rightarrow> 'a list \<Rightarrow> 'a list" where
  "remove_at i xs = take i xs @ drop (Suc i) xs"

lemma length_remove_at: "i < length xs \<Longrightarrow> length (remove_at i xs) = length xs - 1"
  by (simp add: remove_at_def)

lemma filter_remove_at: "i < length xs \<Longrightarrow> \<not> p (xs ! i) \<Longrightarrow> filter p (remove_at i xs) = filter p xs"
  using id_take_nth_drop [of i xs] by (metis filter.simps(2) filter_append remove_at_def)

lemma make_room_cases:
  assumes "0 < cap opts"
  obtains (room) "length (queue b a) < cap opts" "make_room opts a b = (False, b)"
    | (ordinary) i where "cap opts \<le> length (queue b a)" "i < length (queue b a)" "\<not> isApprovalOutcome (queue b a ! i)"
        "make_room opts a b = (True, b\<lparr>queues := AList.update a (remove_at i (queue b a)) (queues b),
            evict_log := evict_log b @ [(a, queue b a ! i)]\<rparr>)"
    | (critical) i where "cap opts \<le> length (queue b a)" "i < length (queue b a)" "\<forall>m \<in> set (queue b a). isApprovalOutcome m"
        "make_room opts a b = (True, onEvictCritical a (queue b a ! i)
            (b\<lparr>queues := AList.update a (remove_at i (queue b a)) (queues b)\<rparr>))"
proof (cases "length (queue b a) < cap opts")
  case True
  then show thesis using room by (simp add: make_room_def Let_def)
next
  case False
  then have ne: "queue b a \<noteq> []" using assms by auto
  show thesis
    by (rule victim_cases [of "queue b a" "clock opts" "protectionMs opts"])
       (use False ne ordinary critical in \<open>auto simp: make_room_def Let_def remove_at_def\<close>)
qed

lemma push_queue:
  "queue (snd (push opts a m b)) a' = (if a' = a then queue (snd (make_room opts a b)) a @ [m] else queue (snd (make_room opts a b)) a')"
  by (simp add: push_def Let_def split: prod.splits)

lemma make_room_other: "a' \<noteq> a \<Longrightarrow> queue (snd (make_room opts a b)) a' = queue b a'"
  by (simp add: make_room_def Let_def split: prod.splits)

lemma make_room_length: "0 < cap opts \<Longrightarrow> length (queue b a) \<le> cap opts \<Longrightarrow> length (queue (snd (make_room opts a b)) a) < cap opts"
  by (rule make_room_cases [of opts b a]) (auto simp: length_remove_at)

text \<open>
  Claim C13: an approval outcome is never evicted while anything else is buffered. If the agent's queue has
  room or holds at least one ordinary message, a push keeps every buffered outcome, in order, adds the
  new message at the end, keeps the queue within its cap and touches no other agent's queue.
\<close>

theorem push_keeps_outcomes:
  assumes "0 < cap opts" and "length (queue b a) \<le> cap opts"
    and "length (queue b a) < cap opts \<or> (\<exists>m \<in> set (queue b a). \<not> isApprovalOutcome m)"
  shows "filter isApprovalOutcome (queue (snd (push opts a msg b)) a)
       = filter isApprovalOutcome (queue b a) @ filter isApprovalOutcome [msg]
    \<and> last (queue (snd (push opts a msg b)) a) = msg
    \<and> length (queue (snd (push opts a msg b)) a) \<le> cap opts
    \<and> (a' \<noteq> a \<longrightarrow> queue (snd (push opts a msg b)) a' = queue b a')"
proof -
  have "filter isApprovalOutcome (queue (snd (make_room opts a b)) a) = filter isApprovalOutcome (queue b a)"
    by (rule make_room_cases [OF assms(1), of b a]) (use assms(3) in \<open>auto simp: filter_remove_at\<close>)
  then show ?thesis
    using make_room_length [OF assms(1,2)] make_room_other [of a' a opts b] by (simp add: push_queue)
qed

definition demo_msg :: "string \<Rightarrow> (string \<times> string) list \<Rightarrow> InboundMessage" where
  "demo_msg x mt = \<lparr>chatId = ''7'', threadId = None, messageId = 1, user = ''u'', userId = 5, ts = 0, msg_text = x,
     imagePath = None, attachment = None, meta = mt\<rparr>"

definition demo_bufopts :: buffer_opts where
  "demo_bufopts = \<lparr>cap = 2, protectionMs = 900000, clock = 10\<rparr>"

definition demo_buffer :: buffer where
  "demo_buffer = snd (push demo_bufopts ''a'' (demo_msg ''hello'' [])
     (snd (push demo_bufopts ''a'' (demo_msg ''ok'' [(''source'', ''vault_grant_approved'')]) empty_buffer)))"

lemma demo_queue: "queue demo_buffer ''a'' = [demo_msg ''ok'' [(''source'', ''vault_grant_approved'')], demo_msg ''hello'' []]"
proof -
  have "queue empty_buffer ''a'' = []" by (simp add: empty_buffer_def queue_def)
  then show ?thesis by (simp add: demo_buffer_def push_queue make_room_def Let_def demo_bufopts_def)
qed

theorem push_keeps_outcomes_witness:
  "filter isApprovalOutcome (queue (snd (push demo_bufopts ''a'' (demo_msg ''again'' []) demo_buffer)) ''a'')
     = [demo_msg ''ok'' [(''source'', ''vault_grant_approved'')]]"
  using push_keeps_outcomes [of demo_bufopts demo_buffer "''a''" "demo_msg ''again'' []" "''a''"]
  by (simp add: demo_queue demo_bufopts_def demo_msg_def isApprovalOutcome_def source_def APPROVAL_OUTCOME_SOURCES_def)

section \<open>Planning a redelivery\<close>

definition run_ok :: "InboundMessage list \<Rightarrow> bool \<Rightarrow> bool" where
  "run_ok grp hm \<longleftrightarrow> (length grp \<le> 1 \<or> (\<forall>m \<in> set grp. isMergeableUserInbound m))
     \<and> (\<forall>m \<in> set grp. sameTarget m (last grp)) \<and> length (filter inboundHasMedia grp) \<le> 1
     \<and> (hm \<longleftrightarrow> (\<exists>m \<in> set grp. inboundHasMedia m))"

lemma run_ok_join:
  assumes "run_ok grp hm" "can_join grp hm msg"
  shows "run_ok (grp @ [msg]) (hm \<or> inboundHasMedia msg)"
proof -
  have "\<forall>m \<in> set grp. isMergeableUserInbound m"
    using assms by (cases grp) (auto simp: run_ok_def can_join_def split: if_splits)
  moreover have "filter inboundHasMedia grp = []" if "inboundHasMedia msg"
    using that assms by (auto simp: run_ok_def can_join_def filter_empty_conv)
  moreover have "sameTarget m msg" if "m \<in> set grp" for m
    using that assms by (auto simp: run_ok_def can_join_def sameTarget_def)
  moreover have "sameTarget msg msg" by (simp add: sameTarget_def)
  ultimately show ?thesis using assms by (auto simp: run_ok_def can_join_def)
qed

lemma run_ok_single: "run_ok [msg] (inboundHasMedia msg)"
  by (simp add: run_ok_def sameTarget_def)

lemma merge_media:
  assumes "length (filter inboundHasMedia grp) \<le> 1" "m \<in> set grp" "inboundHasMedia m"
  shows "imagePath (mergeRun grp) = imagePath m \<and> attachment (mergeRun grp) = attachment m"
proof -
  obtain i where i: "first_index inboundHasMedia grp = Some i"
    using assms(2,3) first_index_None by fastforce
  then have gi: "i < length grp" "inboundHasMedia (grp ! i)" by (simp_all add: first_index_Some)
  then have "grp ! i \<in> set (filter inboundHasMedia grp)" "m \<in> set (filter inboundHasMedia grp)" using assms by auto
  moreover have "\<exists>x. filter inboundHasMedia grp = [x]"
    using assms(1) \<open>m \<in> set (filter inboundHasMedia grp)\<close> by (cases "filter inboundHasMedia grp") auto
  ultimately have "grp ! i = m" by force
  then show ?thesis using i by (simp add: mergeRun_def Let_def)
qed

text \<open>What a group of the plan must satisfy.\<close>

definition group_ok :: "InboundMessage \<times> InboundMessage list \<Rightarrow> bool" where
  "group_ok g \<longleftrightarrow> (case g of (merged, originals) \<Rightarrow>
     originals \<noteq> [] \<and> (length originals = 1 \<longrightarrow> merged = hd originals)
     \<and> (length originals \<noteq> 1 \<longrightarrow> (\<forall>m \<in> set originals. isMergeableUserInbound m))
     \<and> msg_text merged = join_with [CHR 0x0A] (map msg_text originals)
     \<and> messageId merged = messageId (last originals)
     \<and> (\<forall>m \<in> set originals. sameTarget m merged \<and> (inboundHasMedia m \<longrightarrow> imagePath merged = imagePath m \<and> attachment merged = attachment m)))"

lemma group_of_ok:
  assumes "run_ok grp hm" "g \<in> set (group_of grp)"
  shows "group_ok g"
proof (cases "length grp = 1")
  case True
  then obtain x where "grp = [x]" by (cases grp) auto
  then show ?thesis using assms by (simp add: group_of_def group_ok_def sameTarget_def)
next
  case False
  have g: "g = (mergeRun grp, grp)" "grp \<noteq> []" using assms(2) False by (auto simp: group_of_def split: if_splits)
  have merged: "msg_text (mergeRun grp) = join_with [CHR 0x0A] (map msg_text grp)" "chatId (mergeRun grp) = chatId (last grp)"
    "threadId (mergeRun grp) = threadId (last grp)" "userId (mergeRun grp) = userId (last grp)"
    "messageId (mergeRun grp) = messageId (last grp)"
    by (simp_all add: mergeRun_def Let_def split: option.splits)
  have all: "\<forall>m \<in> set grp. isMergeableUserInbound m" "\<forall>m \<in> set grp. sameTarget m (last grp)"
    "length (filter inboundHasMedia grp) \<le> 1"
    using assms(1) False g(2) by (auto simp: run_ok_def le_Suc_eq)
  have "\<forall>m \<in> set grp. sameTarget m (mergeRun grp)" using all(2) by (simp add: sameTarget_def merged)
  then show ?thesis using all(1) merge_media [OF all(3)] False g(2) merged
    unfolding g(1) group_ok_def by simp
qed

lemma plan_loop_spec:
  "run_ok grp hm \<Longrightarrow> concat (map snd (plan_loop msgs grp hm)) = grp @ msgs \<and> (\<forall>g \<in> set (plan_loop msgs grp hm). group_ok g)"
proof (induction msgs grp hm rule: plan_loop.induct)
  case (1 grp hm)
  then show ?case using group_of_ok by (auto simp: group_of_def)
next
  case (2 msg msgs grp hm)
  show ?case
  proof (cases "can_join grp hm msg")
    case True
    then show ?thesis using "2.IH"(1) run_ok_join [OF "2.prems"] by simp
  next
    case False
    then show ?thesis using "2.IH"(2) run_ok_single group_of_ok [OF "2.prems"] by (auto simp: group_of_def)
  qed
qed

text \<open>
  The redelivery plan is lossless. Its groups, in order, are a partition of the drained messages;
  a merged group consists of ordinary user messages of one sender in one thread, its text is their texts
  joined by newlines, it is anchored at the newest message, and the one attachment among them, if any,
  is the attachment of the merged message.
\<close>

theorem plan_is_lossless:
  "concat (map snd (planBufferedRedelivery pending)) = pending \<and> list_all group_ok (planBufferedRedelivery pending)"
  using plan_loop_spec [of "[]" False pending]
  by (simp add: planBufferedRedelivery_def run_ok_def list_all_iff)

section \<open>Redelivery conserves the messages\<close>

fun unsent :: "(nat \<Rightarrow> InboundMessage \<Rightarrow> handover) \<Rightarrow> nat \<Rightarrow> (InboundMessage \<times> InboundMessage list) list \<Rightarrow> InboundMessage list" where
  "unsent hand n [] = []"
| "unsent hand n ((m, os) # gs) = (if hand n m = NotSent then os else []) @ unsent hand (Suc n) gs"

fun settled :: "(nat \<Rightarrow> InboundMessage \<Rightarrow> handover) \<Rightarrow> nat \<Rightarrow> (InboundMessage \<times> InboundMessage list) list \<Rightarrow> InboundMessage list" where
  "settled hand n [] = []"
| "settled hand n ((m, os) # gs) = (if hand n m = NotSent then [] else os) @ settled hand (Suc n) gs"

definition acked :: "spool_op list \<Rightarrow> InboundMessage list" where
  "acked l = concat (map (\<lambda>s. case s of SpoolAck m \<Rightarrow> [m] | SpoolPut _ _ \<Rightarrow> []) l)"

lemma acked_simps [simp]:
  "acked (xs @ ys) = acked xs @ acked ys" "acked (map SpoolAck ms) = ms" "acked [] = []" "acked [SpoolPut a m] = []"
  by (induction ms) (simp_all add: acked_def)

lemma push_room:
  assumes "length (queue b a) < cap opts"
  shows "queue (snd (push opts a m b)) a = queue b a @ [m]" "evict_log (snd (push opts a m b)) = evict_log b"
    "dropped (snd (push opts a m b)) = dropped b" "acked (spool_log (snd (push opts a m b))) = acked (spool_log b)"
    "a' \<noteq> a \<Longrightarrow> queue (snd (push opts a m b)) a' = queue b a'"
  using assms by (simp_all add: push_def make_room_def Let_def)

lemma push_all_room:
  assumes "length (queue b a) + length ms \<le> cap opts"
  defines "b' \<equiv> fold (\<lambda>m b. snd (push opts a m b)) ms b"
  shows "queue b' a = queue b a @ ms \<and> evict_log b' = evict_log b \<and> dropped b' = dropped b
    \<and> acked (spool_log b') = acked (spool_log b) \<and> (\<forall>a'. a' \<noteq> a \<longrightarrow> queue b' a' = queue b a')"
  unfolding b'_def using assms(1)
proof (induction ms arbitrary: b)
  case (Cons m ms)
  have r: "length (queue b a) < cap opts" using Cons.prems by simp
  show ?case using Cons.IH [of "snd (push opts a m b)"] Cons.prems push_room [OF r, where m = m] by simp
qed simp

lemma redeliver_loop_spec:
  assumes "length (queue b a) + length (concat (map snd gs)) \<le> cap opts"
    and "redeliver_loop opts a hand n gs c b = (c', b')"
  shows "queue b' a = queue b a @ unsent hand n gs \<and> evict_log b' = evict_log b \<and> dropped b' = dropped b
    \<and> acked (spool_log b') = acked (spool_log b) @ settled hand n gs
    \<and> (\<forall>a'. a' \<noteq> a \<longrightarrow> queue b' a' = queue b a')
    \<and> r_drained c' = r_drained c
    \<and> r_rebuffered c' = r_rebuffered c + length (unsent hand n gs)
    \<and> r_redelivered c' + r_retracted c' = r_redelivered c + r_retracted c + length (settled hand n gs)"
  using assms
proof (induction gs arbitrary: n c b)
  case (Cons g gs)
  obtain m os where g: "g = (m, os)" by (cases g)
  show ?case
  proof (cases "hand n m = NotSent")
    case True
    let ?b = "fold (\<lambda>m b. snd (push opts a m b)) os b"
    have p: "queue ?b a = queue b a @ os \<and> evict_log ?b = evict_log b \<and> dropped ?b = dropped b
      \<and> acked (spool_log ?b) = acked (spool_log b) \<and> (\<forall>a'. a' \<noteq> a \<longrightarrow> queue ?b a' = queue b a')"
      by (rule push_all_room) (use Cons.prems(1) g in simp)
    show ?thesis
      using Cons.IH [of ?b "Suc n" "c\<lparr>r_rebuffered := r_rebuffered c + length os\<rparr>"] Cons.prems g True p by simp
  next
    case False
    let ?b = "b\<lparr>spool_log := spool_log b @ map SpoolAck os\<rparr>"
    have "length (queue ?b a) + length (concat (map snd gs)) \<le> cap opts" using Cons.prems(1) by simp
    then show ?thesis
      using Cons.IH [of ?b "Suc n" "c\<lparr>r_retracted := r_retracted c + length os\<rparr>"]
        Cons.IH [of ?b "Suc n" "c\<lparr>r_redelivered := r_redelivered c + length os\<rparr>"] Cons.prems(2) g False
      by (cases "hand n m") simp_all
  qed
qed simp

lemma unsent_settled: "length (unsent hand n gs) + length (settled hand n gs) = length (concat (map snd gs))"
  by (induction hand n gs rule: unsent.induct) auto

lemma drain_simps:
  "drain a b = (q, b1) \<Longrightarrow> q = queue b a \<and> queue b1 a = [] \<and> evict_log b1 = evict_log b \<and> dropped b1 = dropped b
     \<and> spool_log b1 = spool_log b \<and> (\<forall>a'. a' \<noteq> a \<longrightarrow> queue b1 a' = queue b a')"
  by (auto simp: drain_def queue_def delete_conv' split: option.splits if_splits)

text \<open>
  Claim C14: redelivery loses and doubles nothing. Draining a queue within its cap and handing its groups
  over, whatever the bridge does with each, leaves in the queue exactly the messages of the groups that
  were not sent, in their order, without evicting anything; exactly the messages of the other groups are
  acknowledged to the spool, and the four counts add up.
\<close>

theorem redelivery_conserves:
  assumes "length (queue b a) \<le> cap opts" and "redeliverBufferedInbound opts a hand b = (c, b')"
  shows "queue b' a = unsent hand 0 (planBufferedRedelivery (queue b a))
    \<and> acked (spool_log b') = acked (spool_log b) @ settled hand 0 (planBufferedRedelivery (queue b a))
    \<and> evict_log b' = evict_log b \<and> dropped b' = dropped b
    \<and> r_drained c = length (queue b a) \<and> r_rebuffered c = length (queue b' a)
    \<and> r_redelivered c + r_retracted c + r_rebuffered c = r_drained c"
proof -
  obtain q b1 where d: "drain a b = (q, b1)" by force
  note q = drain_simps [OF d]
  have all: "concat (map snd (planBufferedRedelivery q)) = q"
    using plan_loop_spec [of "[]" False q] by (simp add: planBufferedRedelivery_def run_ok_def)
  have loop: "redeliver_loop opts a hand 0 (planBufferedRedelivery q)
      \<lparr>r_drained = length q, r_redelivered = 0, r_rebuffered = 0, r_retracted = 0\<rparr> b1 = (c, b')"
    using assms(2) d by (simp add: redeliverBufferedInbound_def)
  have fits: "length (queue b1 a) + length (concat (map snd (planBufferedRedelivery q))) \<le> cap opts"
    using assms(1) q all by simp
  show ?thesis
    using redeliver_loop_spec [OF fits loop] q unsent_settled [of hand 0 "planBufferedRedelivery q"] all by simp
qed

theorem redelivery_conserves_witness:
  "queue (snd (redeliverBufferedInbound demo_bufopts ''a'' (\<lambda>n m. if n = 0 then NotSent else Sent) demo_buffer)) ''a''
     = [demo_msg ''ok'' [(''source'', ''vault_grant_approved'')]]"
proof -
  have "length (queue demo_buffer ''a'') \<le> cap demo_bufopts" by (simp add: demo_queue demo_bufopts_def)
  from redelivery_conserves [OF this surjective_pairing, of "\<lambda>n m. if n = 0 then NotSent else Sent"] show ?thesis
    by (simp add: demo_queue planBufferedRedelivery_def can_join_def group_of_def demo_msg_def isMergeableUserInbound_def source_def)
qed

section \<open>The drop notifier\<close>

text \<open>Every scheduled agent has exactly one task.\<close>

definition notifier_ok :: "buffer \<Rightarrow> bool" where
  "notifier_ok b \<longleftrightarrow> distinct (map t_agent (tasks b)) \<and> set (scheduled b) = t_agent ` set (tasks b)"

text \<open>The microtask queue, run for at most \<open>n\<close> tasks.\<close>

fun settle :: "buffer_opts \<Rightarrow> nat \<Rightarrow> buffer \<Rightarrow> buffer" where
  "settle opts 0 b = b"
| "settle opts (Suc n) b = (case tasks b of [] \<Rightarrow> b | t # us \<Rightarrow> settle opts n (flush opts t (b\<lparr>tasks := us\<rparr>)))"

definition task_debt :: "buffer \<Rightarrow> nat" where
  "task_debt b = sum_list (map (\<lambda>t. Suc (t_budget t)) (tasks b))"

lemma make_room_notifier:
  assumes "a \<in> set (scheduled b)"
  shows "tasks (snd (make_room opts a b)) = tasks b" "scheduled (snd (make_room opts a b)) = scheduled b"
  using assms by (simp_all add: make_room_def onEvictCritical_def Let_def split: prod.splits)

lemma push_notifier: "tasks (snd (push opts a m b)) = tasks (snd (make_room opts a b))"
  "scheduled (snd (push opts a m b)) = scheduled (snd (make_room opts a b))"
  "dropped (snd (push opts a m b)) = dropped (snd (make_room opts a b))"
  by (simp_all add: push_def Let_def split: prod.splits)

lemma flush_tasks:
  assumes "t_agent t \<in> set (scheduled b)"
  shows "(tasks (flush opts t b) = tasks b \<and> set (scheduled (flush opts t b)) = set (scheduled b) - {t_agent t})
     \<or> (0 < t_budget t \<and> tasks (flush opts t b) = tasks b @ [t\<lparr>t_budget := t_budget t - 1\<rparr>]
        \<and> set (scheduled (flush opts t b)) = set (scheduled b))"
proof -
  let ?n = "buildApprovalOutcomeDroppedInbound (t_agent t) (t_chat t) (t_thread t) (dropped_labels b (t_agent t)) (clock opts)"
  define b1 where "b1 = snd (push opts (t_agent t) ?n b)"
  have b1: "tasks b1 = tasks b" "scheduled b1 = scheduled b"
    unfolding b1_def push_notifier by (rule make_room_notifier [OF assms])+
  have f: "flush opts t b = (if 0 < t_budget t \<and> length (dropped_labels b (t_agent t)) <
        length (dropped_labels (b1\<lparr>scheduled := removeAll (t_agent t) (scheduled b1)\<rparr>) (t_agent t))
      then b1\<lparr>scheduled := t_agent t # removeAll (t_agent t) (scheduled b1), tasks := tasks b1 @ [t\<lparr>t_budget := t_budget t - 1\<rparr>]\<rparr>
      else b1\<lparr>scheduled := removeAll (t_agent t) (scheduled b1), dropped := AList.delete (t_agent t) (dropped b1)\<rparr>)"
    unfolding flush_def Let_def b1_def [symmetric] by simp
  have "insert (t_agent t) (set (scheduled b) - {t_agent t}) = set (scheduled b)" using assms by blast
  then show ?thesis unfolding f by (simp add: b1 split: if_split)
qed

lemma settle_step:
  assumes "notifier_ok b" "tasks b = t # rest"
  shows "notifier_ok (flush opts t (b\<lparr>tasks := rest\<rparr>))" "task_debt (flush opts t (b\<lparr>tasks := rest\<rparr>)) < task_debt b"
proof -
  have s: "t_agent t \<in> set (scheduled (b\<lparr>tasks := rest\<rparr>))" "t_agent t \<notin> t_agent ` set rest" "distinct (map t_agent rest)"
    "set (scheduled b) = insert (t_agent t) (t_agent ` set rest)"
    using assms by (simp_all add: notifier_ok_def)
  note f = flush_tasks [OF s(1), of opts]
  show "notifier_ok (flush opts t (b\<lparr>tasks := rest\<rparr>))" using f s by (auto simp: notifier_ok_def)
  show "task_debt (flush opts t (b\<lparr>tasks := rest\<rparr>)) < task_debt b" using f by (elim disjE conjE) (simp_all add: task_debt_def assms(2))
qed

lemma settle_done: "notifier_ok b \<Longrightarrow> task_debt b \<le> n \<Longrightarrow> tasks (settle opts n b) = [] \<and> notifier_ok (settle opts n b)"
proof (induction n arbitrary: b)
  case 0
  then show ?case by (cases "tasks b") (auto simp: task_debt_def)
next
  case (Suc n)
  show ?case
  proof (cases "tasks b")
    case Nil
    then show ?thesis using Suc.prems by simp
  next
    case (Cons t rest)
    then show ?thesis using settle_step [OF Suc.prems(1) Cons, of opts] Suc.IH Suc.prems(2) by simp
  qed
qed

lemma make_room_notifier_ok: "notifier_ok b \<Longrightarrow> notifier_ok (snd (make_room opts a b))"
  by (auto simp: make_room_def onEvictCritical_def notifier_ok_def Let_def split: prod.splits)

lemma push_notifier_ok: "notifier_ok b \<Longrightarrow> notifier_ok (snd (push opts a m b))"
  using make_room_notifier_ok [of b opts a] unfolding notifier_ok_def push_notifier .

datatype buffer_event =
    Push int string InboundMessage
  | Drain string
  | RunTask int
  | Redeliver int string "nat \<Rightarrow> InboundMessage \<Rightarrow> handover"

fun buffer_step :: "nat \<Rightarrow> int \<Rightarrow> buffer_event \<Rightarrow> buffer \<Rightarrow> buffer" where
  "buffer_step n w (Push t a m) b = snd (push \<lparr>cap = n, protectionMs = w, clock = t\<rparr> a m b)"
| "buffer_step n w (Drain a) b = snd (drain a b)"
| "buffer_step n w (RunTask t) b =
     (case tasks b of [] \<Rightarrow> b | u # us \<Rightarrow> flush \<lparr>cap = n, protectionMs = w, clock = t\<rparr> u (b\<lparr>tasks := us\<rparr>))"
| "buffer_step n w (Redeliver t a hand) b = snd (redeliverBufferedInbound \<lparr>cap = n, protectionMs = w, clock = t\<rparr> a hand b)"

definition buffer_ok :: "nat \<Rightarrow> buffer \<Rightarrow> bool" where
  "buffer_ok n b \<longleftrightarrow> (\<forall>a. length (queue b a) \<le> n) \<and> notifier_ok b"

lemma push_length:
  assumes "0 < cap opts" "\<forall>a. length (queue b a) \<le> cap opts"
  shows "length (queue (snd (push opts a m b)) a') \<le> cap opts"
  using make_room_length [OF assms(1), of b a] make_room_other [of a' a opts b] assms(2)
  by (cases "a' = a") (simp_all add: push_queue Suc_leI)

lemma flush_queue: "queue (flush opts t b) a = queue (snd (push opts (t_agent t)
    (buildApprovalOutcomeDroppedInbound (t_agent t) (t_chat t) (t_thread t) (dropped_labels b (t_agent t)) (clock opts)) b)) a"
  unfolding flush_def Let_def by (simp split: if_split)

lemma redeliver_loop_notifier: "notifier_ok b \<Longrightarrow> notifier_ok (snd (redeliver_loop opts a hand n gs c b))"
proof (induction gs arbitrary: n c b)
  case (Cons g gs)
  obtain m os where g: "g = (m, os)" by (cases g)
  have "notifier_ok (fold (\<lambda>m b. snd (push opts a m b)) os b)"
    using Cons.prems by (induction os arbitrary: b) (simp_all add: push_notifier_ok)
  moreover have "notifier_ok (b\<lparr>spool_log := l\<rparr>)" for l using Cons.prems by (simp add: notifier_ok_def)
  ultimately show ?case using Cons.IH g by (cases "hand n m") simp_all
qed simp

lemma drain_notifier: "notifier_ok b \<Longrightarrow> notifier_ok (snd (drain a b))"
  by (simp add: drain_def notifier_ok_def split: option.splits)

lemma redeliver_length:
  assumes "\<forall>a. length (queue b a) \<le> cap opts"
  shows "length (queue (snd (redeliverBufferedInbound opts a hand b)) a') \<le> cap opts"
proof -
  obtain q b1 where d: "drain a b = (q, b1)" by force
  note q = drain_simps [OF d]
  have all: "concat (map snd (planBufferedRedelivery q)) = q"
    using plan_loop_spec [of "[]" False q] by (simp add: planBufferedRedelivery_def run_ok_def)
  have fits: "length (queue b1 a) + length (concat (map snd (planBufferedRedelivery q))) \<le> cap opts"
    using assms q all by simp
  have "length (unsent hand 0 (planBufferedRedelivery q)) \<le> length q"
    using unsent_settled [of hand 0 "planBufferedRedelivery q"] all by simp
  then show ?thesis
    using redeliver_loop_spec [OF fits surjective_pairing, of hand 0] q assms d
    by (cases "a' = a") (simp_all add: redeliverBufferedInbound_def, meson le_trans)
qed

lemma buffer_ok_step:
  assumes "buffer_ok (Suc n) b"
  shows "buffer_ok (Suc n) (buffer_step (Suc n) w e b)"
proof (cases e)
  case (Push t a m)
  then show ?thesis using assms push_length [of "\<lparr>cap = Suc n, protectionMs = w, clock = t\<rparr>" b a m] push_notifier_ok
    by (simp add: buffer_ok_def)
next
  case (Drain a)
  have "length (queue (snd (drain a b)) a') \<le> Suc n" for a'
    using drain_simps [OF surjective_pairing, of a b] assms by (cases "a' = a") (simp_all add: buffer_ok_def)
  then show ?thesis using Drain assms drain_notifier by (simp add: buffer_ok_def)
next
  case (RunTask t)
  show ?thesis
  proof (cases "tasks b")
    case Nil
    then show ?thesis using RunTask assms by simp
  next
    case (Cons u us)
    let ?o = "\<lparr>cap = Suc n, protectionMs = w, clock = t\<rparr>"
    have "length (queue (flush ?o u (b\<lparr>tasks := us\<rparr>)) a) \<le> Suc n" for a
      unfolding flush_queue using push_length [of ?o "b\<lparr>tasks := us\<rparr>"] assms by (simp add: buffer_ok_def)
    then show ?thesis using settle_step(1) [OF _ Cons, of ?o] assms RunTask Cons by (simp add: buffer_ok_def)
  qed
next
  case (Redeliver t a hand)
  then show ?thesis
    using assms redeliver_length [of b "\<lparr>cap = Suc n, protectionMs = w, clock = t\<rparr>" a hand]
      redeliver_loop_notifier [OF drain_notifier [of b a]]
    by (simp add: buffer_ok_def redeliverBufferedInbound_def case_prod_beta)
qed

interpretation inbound_buffer: event_system "buffer_step (Suc n) w" "buffer_ok (Suc n)" for n w
  by unfold_locales (rule buffer_ok_step)

text \<open>
  Claim C15: the buffer is bounded and its notices settle. Whatever is pushed, drained, redelivered and run,
  no agent's queue ever exceeds the cap, and from every reachable state the pending microtasks of the drop
  notifier come to an end after a number of steps fixed in advance: notices cannot feed on themselves.
\<close>

theorem buffer_bounded_and_settles:
  fixes n :: nat and w :: int and es :: "buffer_event list" and b :: buffer
  defines "b \<equiv> run (buffer_step (Suc n) w) empty_buffer es"
  shows "length (queue b a) \<le> Suc n \<and> tasks (settle opts (task_debt b) b) = []"
proof -
  have "buffer_ok (Suc n) empty_buffer" by (simp add: buffer_ok_def notifier_ok_def empty_buffer_def queue_def)
  then have "buffer_ok (Suc n) b" unfolding b_def by (rule inbound_buffer.invar_run)
  then show ?thesis using settle_done [of b "task_debt b" opts] by (simp add: buffer_ok_def)
qed

text \<open>The notice is not itself an outcome: it is the next overflow's preferred victim.\<close>

lemma notice_ordinary: "\<not> isApprovalOutcome (buildApprovalOutcomeDroppedInbound a c t ss k)"
  by (simp add: isApprovalOutcome_def source_def buildApprovalOutcomeDroppedInbound_def Let_def
      APPROVAL_OUTCOME_DROPPED_SOURCE_def APPROVAL_OUTCOME_SOURCES_def split: option.splits)

lemma make_room_ordinary:
  assumes "0 < cap opts" "\<exists>m \<in> set (queue b a). \<not> isApprovalOutcome m"
  shows "dropped (snd (make_room opts a b)) = dropped b"
  by (rule make_room_cases [OF assms(1), of b a]) (use assms(2) in auto)

lemma make_room_dropped:
  "0 < cap opts \<Longrightarrow> \<exists>ls. dropped_labels (snd (make_room opts a b)) a = dropped_labels b a @ ls"
  by (rule make_room_cases [of opts b a])
     (auto simp: dropped_labels_def onEvictCritical_def Let_def update_conv' split: option.splits)

text \<open>After a flush the notice is the last message of the queue.\<close>

lemma flush_last: "last (queue (flush opts t b) (t_agent t)) = buildApprovalOutcomeDroppedInbound (t_agent t) (t_chat t) (t_thread t)
    (dropped_labels b (t_agent t)) (clock opts)"
  by (simp add: flush_queue push_queue)

lemma flush_again:
  assumes "0 < cap opts" "\<exists>m \<in> set (queue b (t_agent t)). \<not> isApprovalOutcome m" "t_agent t \<in> set (scheduled b)"
  shows "tasks (flush opts t b) = tasks b"
proof -
  let ?n = "buildApprovalOutcomeDroppedInbound (t_agent t) (t_chat t) (t_thread t) (dropped_labels b (t_agent t)) (clock opts)"
  have "dropped (snd (push opts (t_agent t) ?n b)) = dropped b"
    unfolding push_notifier by (rule make_room_ordinary [OF assms(1,2)])
  then have "dropped_labels ((snd (push opts (t_agent t) ?n b))\<lparr>scheduled := s\<rparr>) a = dropped_labels b a" for s a
    by (simp add: dropped_labels_def)
  then show ?thesis
    using make_room_notifier(1) [OF assms(3), of opts] unfolding flush_def Let_def by (simp add: push_notifier)
qed

definition notice_naming :: "string \<Rightarrow> string \<Rightarrow> InboundMessage \<Rightarrow> bool" where
  "notice_naming a label m \<longleftrightarrow> (\<exists>c t ss k. m = buildApprovalOutcomeDroppedInbound a c t ss k \<and> label \<in> set ss)"

lemma flush_grown:
  assumes "t_agent t \<in> set (scheduled b)" "tasks (flush opts t b) \<noteq> tasks b" "0 < cap opts"
  shows "tasks (flush opts t b) = tasks b @ [t\<lparr>t_budget := t_budget t - 1\<rparr>]" "t_agent t \<in> set (scheduled (flush opts t b))"
    "\<exists>ls. dropped_labels (flush opts t b) (t_agent t) = dropped_labels b (t_agent t) @ ls"
proof -
  let ?n = "buildApprovalOutcomeDroppedInbound (t_agent t) (t_chat t) (t_thread t) (dropped_labels b (t_agent t)) (clock opts)"
  define b1 where "b1 = snd (push opts (t_agent t) ?n b)"
  have b1: "tasks b1 = tasks b" "scheduled b1 = scheduled b"
    unfolding b1_def push_notifier by (rule make_room_notifier [OF assms(1)])+
  have f: "flush opts t b = (if 0 < t_budget t \<and> length (dropped_labels b (t_agent t)) <
        length (dropped_labels (b1\<lparr>scheduled := removeAll (t_agent t) (scheduled b1)\<rparr>) (t_agent t))
      then b1\<lparr>scheduled := t_agent t # removeAll (t_agent t) (scheduled b1), tasks := tasks b1 @ [t\<lparr>t_budget := t_budget t - 1\<rparr>]\<rparr>
      else b1\<lparr>scheduled := removeAll (t_agent t) (scheduled b1), dropped := AList.delete (t_agent t) (dropped b1)\<rparr>)"
    unfolding flush_def Let_def b1_def [symmetric] by simp
  have grown: "flush opts t b = b1\<lparr>scheduled := t_agent t # removeAll (t_agent t) (scheduled b1),
      tasks := tasks b1 @ [t\<lparr>t_budget := t_budget t - 1\<rparr>]\<rparr>"
    using assms(2) f b1(1) by (simp split: if_splits)
  show "tasks (flush opts t b) = tasks b @ [t\<lparr>t_budget := t_budget t - 1\<rparr>]" "t_agent t \<in> set (scheduled (flush opts t b))"
    unfolding grown by (simp_all add: b1)
  have "dropped b1 = dropped (snd (make_room opts (t_agent t) b))" unfolding b1_def push_notifier ..
  then have "dropped_labels (flush opts t b) (t_agent t) = dropped_labels (snd (make_room opts (t_agent t) b)) (t_agent t)"
    unfolding grown by (simp add: dropped_labels_def)
  then show "\<exists>ls. dropped_labels (flush opts t b) (t_agent t) = dropped_labels b (t_agent t) @ ls"
    using make_room_dropped [OF assms(3), of "t_agent t" b] by simp
qed

lemma settle_idle: "tasks b = [] \<Longrightarrow> settle opts n b = b"
  by (cases n) simp_all

lemma settle_reports:
  assumes "0 < cap opts" "tasks b = [t]" "t_agent t = a" "a \<in> set (scheduled b)" "label \<in> set (dropped_labels b a)" "2 \<le> n"
  shows "notice_naming a label (last (queue (settle opts n b) a))"
proof -
  obtain k where n: "n = Suc (Suc k)" using assms(6) by (metis add_2_eq_Suc le_Suc_ex)
  let ?b0 = "b\<lparr>tasks := []\<rparr>" let ?b1 = "flush opts t ?b0"
  have d0: "dropped_labels ?b0 x = dropped_labels b x" for x by (simp add: dropped_labels_def)
  have s0: "t_agent t \<in> set (scheduled ?b0)" using assms(3,4) by simp
  have last1: "notice_naming a label (last (queue ?b1 a))"
    using flush_last [of opts t ?b0] assms(3,5) d0 unfolding notice_naming_def by metis
  show ?thesis
  proof (cases "tasks ?b1 = []")
    case True
    then have "settle opts n b = ?b1" using assms(2) n by (simp add: settle_idle)
    then show ?thesis using last1 by simp
  next
    case False
    then have "tasks ?b1 \<noteq> tasks ?b0" by simp
    note g = flush_grown [OF s0 this assms(1)]
    let ?t' = "t\<lparr>t_budget := t_budget t - 1\<rparr>" let ?c = "?b1\<lparr>tasks := []\<rparr>"
    have t': "t_agent ?t' = a" "tasks ?b1 = [?t']" using g(1) assms(3) by simp_all
    have "queue ?b1 a \<noteq> []" using assms(3) by (simp add: flush_queue push_queue)
    moreover have "\<not> isApprovalOutcome (last (queue ?b1 a))"
      using flush_last [of opts t ?b0] notice_ordinary assms(3) by simp
    ultimately have "\<exists>m \<in> set (queue ?c (t_agent ?t')). \<not> isApprovalOutcome m"
      using t'(1) last_in_set by auto
    moreover have "t_agent ?t' \<in> set (scheduled ?c)" using g(2) by simp
    ultimately have "tasks (flush opts ?t' ?c) = []" using flush_again [OF assms(1), of ?c ?t'] by simp
    then have s: "settle opts n b = flush opts ?t' ?c" using assms(2) n t'(2) by (simp add: settle_idle)
    have "dropped_labels ?c a = dropped_labels ?b1 a" by (simp add: dropped_labels_def)
    moreover have "label \<in> set (dropped_labels ?b1 a)" using g(3) assms(3,5) d0 by auto
    ultimately show ?thesis
      using flush_last [of opts ?t' ?c] t'(1) unfolding s notice_naming_def by metis
  qed
qed

text \<open>
  A dropped approval outcome is never silent. When the queue of an agent is full of approval
  outcomes only and no notice is pending, a push drops one of them, and once the microtasks have run the
  last message of the queue is a notice that names it, although sending the notice may itself have
  dropped another.
\<close>

theorem dropped_outcome_is_reported:
  assumes "0 < cap opts" "length (queue b a) = cap opts" "\<forall>m \<in> set (queue b a). isApprovalOutcome m"
    and "tasks b = []" "scheduled b = []" "2 \<le> n"
  shows "\<exists>m \<in> set (queue b a). notice_naming a (approvalOutcomeLabel m) (last (queue (settle opts n (snd (push opts a msg b))) a))"
proof (rule make_room_cases [OF assms(1), of b a])
  fix i assume i: "i < length (queue b a)" and r: "make_room opts a b = (True, onEvictCritical a (queue b a ! i)
      (b\<lparr>queues := AList.update a (remove_at i (queue b a)) (queues b)\<rparr>))"
  define b1 where "b1 = snd (push opts a msg b)"
  let ?l = "approvalOutcomeLabel (queue b a ! i)"
  have tasks: "tasks b1 = [\<lparr>t_agent = a, t_chat = chatId (queue b a ! i), t_thread = threadId (queue b a ! i),
      t_budget = APPROVAL_OUTCOME_NOTICE_HOPS\<rparr>]"
    and sch: "a \<in> set (scheduled b1)" and d: "?l \<in> set (dropped_labels b1 a)"
    unfolding b1_def dropped_labels_def push_notifier r
    by (simp_all add: onEvictCritical_def Let_def assms(4,5) update_conv')
  have "notice_naming a ?l (last (queue (settle opts n b1) a))"
    by (rule settle_reports [OF assms(1) tasks _ sch d assms(6)]) simp
  then show ?thesis using i unfolding b1_def by (metis nth_mem)
qed (use assms(2,3) in auto)

definition demo_full :: buffer where
  "demo_full = snd (push \<lparr>cap = 1, protectionMs = 900000, clock = 10\<rparr> ''a'' (demo_msg ''ok'' [(''source'', ''vault_grant_approved'')]) empty_buffer)"

lemma demo_full_facts: "queue demo_full ''a'' = [demo_msg ''ok'' [(''source'', ''vault_grant_approved'')]]" "tasks demo_full = []" "scheduled demo_full = []"
proof -
  have q: "queue empty_buffer ''a'' = []" by (simp add: empty_buffer_def queue_def)
  then show "queue demo_full ''a'' = [demo_msg ''ok'' [(''source'', ''vault_grant_approved'')]]"
    by (simp add: demo_full_def push_queue make_room_def Let_def)
  show "tasks demo_full = []" "scheduled demo_full = []"
    unfolding demo_full_def push_notifier using q by (simp_all add: make_room_def Let_def) (simp_all add: empty_buffer_def)
qed

theorem dropped_outcome_is_reported_witness:
  "notice_naming ''a'' ''vault_grant_approved'' (last (queue (settle \<lparr>cap = 1, protectionMs = 900000, clock = 10\<rparr> 2
     (snd (push \<lparr>cap = 1, protectionMs = 900000, clock = 10\<rparr> ''a'' (demo_msg ''hello'' []) demo_full))) ''a''))"
proof -
  have "\<exists>m \<in> set (queue demo_full ''a''). notice_naming ''a'' (approvalOutcomeLabel m)
      (last (queue (settle \<lparr>cap = 1, protectionMs = 900000, clock = 10\<rparr> 2
        (snd (push \<lparr>cap = 1, protectionMs = 900000, clock = 10\<rparr> ''a'' (demo_msg ''hello'' []) demo_full))) ''a''))"
    by (rule dropped_outcome_is_reported)
       (simp_all add: demo_full_facts demo_msg_def isApprovalOutcome_def source_def APPROVAL_OUTCOME_SOURCES_def)
  then show ?thesis by (simp add: demo_full_facts approvalOutcomeLabel_def source_def demo_msg_def)
qed

end
