(* ===== verification/Inbound_Spool.thy ===== *)
theory Inbound_Spool
  imports Inbound_Buffer
begin

text \<open>
  \<open>telegram-plugin/gateway/inbound-spool.ts\<close>: the durable log behind the pending buffer. The in-memory map \<open>live\<close> is a
  projection of an append-only file of JSON lines, rebuilt from it when the gateway starts.

  The file is the sequence of what was written to it: a \<open>Rec\<close> is the complete JSON text of a record, a \<open>Frag\<close> a strict
  prefix of one that a failing or interrupted append left, \<open>NL\<close> a newline. A line parses as a record only if it is
  the text of exactly one: a prefix of an object does not parse, nor does any text followed by another.
  What the file system answers to the calls of an operation is the record \<open>spool_io\<close>; a crash inside an
  operation is a torn append, nothing written after it, and a restart.
\<close>

section \<open>Identities\<close>

definition meta_text :: "InboundMessage \<Rightarrow> string \<Rightarrow> string option" where
  "meta_text m k = (case map_of (meta m) k of None \<Rightarrow> None | Some v \<Rightarrow> if v = [] then None else Some v)"

definition spoolId :: "InboundMessage \<Rightarrow> string" where
  "spoolId msg =
     (if source msg = Some ''subagent_handback'' \<and> meta_text msg ''subagent_jsonl_id'' \<noteq> None then
        ''s:handback:'' @ the (meta_text msg ''subagent_jsonl_id'')
      else if source msg = Some ''subagent_progress'' \<and> meta_text msg ''subagent_jsonl_id'' \<noteq> None \<and> meta_text msg ''bucket_idx'' \<noteq> None then
        ''s:progress:'' @ the (meta_text msg ''subagent_jsonl_id'') @ '':'' @ the (meta_text msg ''bucket_idx'')
      else if source msg \<in> {Some ''resume_interrupted'', Some ''resume_watchdog_timeout'', Some ''resume_deferred''}
          \<and> meta_text msg ''resume_turn_key'' \<noteq> None then
        ''s:resume:'' @ the (meta_text msg ''resume_turn_key'')
      else if source msg = Some ''boot_briefing'' then ''s:boot-briefing:'' @ chatId msg
      else if source msg = Some ''cron'' \<and> meta_text msg ''replay_fire_ms'' \<noteq> None then
        ''s:cron-replay:'' @ chatId msg @ '':'' @ (case meta_text msg ''schedule_index'' of Some i \<Rightarrow> i | None \<Rightarrow> ''-'') @ '':''
          @ the (meta_text msg ''replay_fire_ms'')
      else if 0 < messageId msg then ''m:'' @ chatId msg @ '':'' @ show_int (messageId msg)
      else ''s:'' @ chatId msg @ '':'' @ (case source msg of Some s \<Rightarrow> s | None \<Rightarrow> ''-'') @ '':'' @ show_int (ts msg))"

definition escChatKey :: "InboundMessage \<Rightarrow> string" where
  "escChatKey msg = chatId msg @ '':'' @ (case meta_text msg ''threadId'' of Some t \<Rightarrow> t | None \<Rightarrow> ''-'')"

section \<open>The file\<close>

datatype SpoolRecord =
    PutRec string string InboundMessage int
  | AckRec string
  | EscRec string "string option" int

datatype piece = Rec SpoolRecord | Frag | NL

text \<open>\<open>raw.split('\n')\<close>\<close>

fun split_pieces :: "piece list \<Rightarrow> piece list list" where
  "split_pieces [] = [[]]"
| "split_pieces (p # ps) = (case p of NL \<Rightarrow> [] # split_pieces ps
     | _ \<Rightarrow> (case split_pieces ps of [] \<Rightarrow> [[p]] | l # ls \<Rightarrow> (p # l) # ls))"

fun shape_ok :: "SpoolRecord \<Rightarrow> bool" where
  "shape_ok (PutRec i agent msg at) = (i \<noteq> [] \<and> agent \<noteq> [])"
| "shape_ok (AckRec i) = (i \<noteq> [])"
| "shape_ok (EscRec chat thread at) = True"

fun parseLine :: "piece list \<Rightarrow> SpoolRecord option" where
  "parseLine [Rec r] = (if shape_ok r then Some r else None)"
| "parseLine _ = None"

record spool_entry =
  s_agent :: string
  s_msg :: InboundMessage
  firstAt :: int

datatype append_outcome = Appended | Unsynced | NotWritten | Torn | TornAtEnd

record spool_io =
  io_appends :: "append_outcome list"
  io_size :: "int option"
  io_rewrite_ok :: bool
  io_read_ok :: bool

record spool =
  live :: "(string \<times> spool_entry) list"
  escAttemptByChat :: "(string \<times> int) list"
  spool_file :: "piece list"
  consecutiveAppendFailures :: nat
  degraded :: bool
  degraded_signals :: "bool list"
  spool_clock :: int
  io :: spool_io

definition DEFAULT_ESCALATE_AFTER_MS :: int where "DEFAULT_ESCALATE_AFTER_MS = 15 * 60 * 1000"
definition DEFAULT_COMPACT_AT_BYTES :: int where "DEFAULT_COMPACT_AT_BYTES = 256 * 1024"
definition DEFAULT_ESCALATE_NOTICE_COOLDOWN_MS :: int where "DEFAULT_ESCALATE_NOTICE_COOLDOWN_MS = 30 * 60 * 1000"

type_synonym projection = "(string \<times> spool_entry) list \<times> (string \<times> int) list"

text \<open>One line of \<open>hydrate\<close>.\<close>

fun apply_record :: "SpoolRecord \<Rightarrow> projection \<Rightarrow> projection" where
  "apply_record (PutRec i agent msg at) (l, esc) = (AList.update i \<lparr>s_agent = agent, s_msg = msg, firstAt = at\<rparr> l, esc)"
| "apply_record (EscRec chat thread at) (l, esc) =
     (l, AList.update (chat @ '':'' @ (case thread of Some t \<Rightarrow> t | None \<Rightarrow> ''-'')) at esc)"
| "apply_record (AckRec i) (l, esc) = (AList.delete i l, esc)"

definition replay :: "piece list \<Rightarrow> projection" where
  "replay ps = fold apply_record (List.map_filter parseLine (split_pieces ps)) ([], [])"

definition hydrate :: "spool \<Rightarrow> spool" where
  "hydrate s = (if io_read_ok (io s) then s\<lparr>live := fst (replay (spool_file s)), escAttemptByChat := snd (replay (spool_file s))\<rparr>
     else s\<lparr>live := [], escAttemptByChat := []\<rparr>)"

fun written :: "append_outcome \<Rightarrow> SpoolRecord \<Rightarrow> piece list" where
  "written Appended r = [Rec r, NL]"
| "written Unsynced r = [Rec r, NL]"
| "written NotWritten r = []"
| "written Torn r = [Frag]"
| "written TornAtEnd r = [Rec r]"

definition appendRecord :: "SpoolRecord \<Rightarrow> spool \<Rightarrow> spool" where
  "appendRecord r s =
     (let outcome = (case io_appends (io s) of [] \<Rightarrow> Appended | a # _ \<Rightarrow> a);
          s1 = s\<lparr>spool_file := spool_file s @ written outcome r, io := (io s)\<lparr>io_appends := tl (io_appends (io s))\<rparr>\<rparr>
      in if outcome = Appended then
           (if 0 < consecutiveAppendFailures s then
              (let s2 = s1\<lparr>consecutiveAppendFailures := 0\<rparr>
               in if degraded s2 then s2\<lparr>degraded := False, degraded_signals := degraded_signals s2 @ [False]\<rparr> else s2)
            else s1)
         else
           (let s2 = s1\<lparr>consecutiveAppendFailures := Suc (consecutiveAppendFailures s)\<rparr>
            in if \<not> degraded s2 then s2\<lparr>degraded := True, degraded_signals := degraded_signals s2 @ [True]\<rparr> else s2))"

text \<open>\<open>key.lastIndexOf(':')\<close> and the two slices around it.\<close>

definition split_key :: "string \<Rightarrow> string \<times> string" where
  "split_key key = (case indexOf_char (rev key) (CHR '':'') of
     None \<Rightarrow> (butlast key, key)
   | Some i \<Rightarrow> (take (length key - Suc i) key, drop (length key - i) key))"

definition esc_record :: "string \<Rightarrow> int \<Rightarrow> SpoolRecord" where
  "esc_record key t = EscRec (fst (split_key key)) (if snd (split_key key) = ''-'' then None else Some (snd (split_key key))) t"

definition compacted :: "projection \<Rightarrow> piece list" where
  "compacted p =
     concat (map (\<lambda>(i, e). [Rec (PutRec i (s_agent e) (s_msg e) (firstAt e)), NL]) (fst p)) @
     concat (map (\<lambda>(key, t). [Rec (esc_record key t), NL]) (snd p))"

definition maybeCompact :: "spool \<Rightarrow> spool" where
  "maybeCompact s =
     (case io_size (io s) of None \<Rightarrow> s
      | Some bytes \<Rightarrow> if bytes \<le> DEFAULT_COMPACT_AT_BYTES then s
          else if io_rewrite_ok (io s) then s\<lparr>spool_file := compacted (live s, escAttemptByChat s)\<rparr> else s)"

section \<open>Operations\<close>

definition spool_put :: "string \<Rightarrow> InboundMessage \<Rightarrow> spool \<Rightarrow> bool \<times> spool" where
  "spool_put agent msg s =
     (let i = spoolId msg
      in case map_of (live s) i of
           Some existing \<Rightarrow>
             if source msg = Some ''boot_briefing'' then
               (True, maybeCompact (appendRecord (PutRec i agent msg (firstAt existing))
                 (s\<lparr>live := AList.update i (existing\<lparr>s_agent := agent, s_msg := msg\<rparr>) (live s)\<rparr>)))
             else (False, s)
         | None \<Rightarrow>
             (True, maybeCompact (appendRecord (PutRec i agent msg (spool_clock s))
               (s\<lparr>live := AList.update i \<lparr>s_agent = agent, s_msg = msg, firstAt = spool_clock s\<rparr> (live s)\<rparr>))))"

definition tombstone :: "string \<Rightarrow> spool \<Rightarrow> spool" where
  "tombstone i s = appendRecord (AckRec i) (s\<lparr>live := AList.delete i (live s)\<rparr>)"

definition spool_ack :: "InboundMessage \<Rightarrow> spool \<Rightarrow> spool" where
  "spool_ack msg s =
     (let i = spoolId msg in if map_of (live s) i = None then s else maybeCompact (tombstone i s))"

text \<open>\<open>Number(expRaw)\<close> on the decimal texts the gateway writes; any other text counts as not finite.\<close>

definition expired_entry :: "int \<Rightarrow> spool_entry \<Rightarrow> bool" where
  "expired_entry cutoff e = (case meta_text (s_msg e) ''expiresAt'' of None \<Rightarrow> False
     | Some raw \<Rightarrow> all_digits raw \<and> int (read_nat raw) \<le> cutoff)"

definition liveEntries :: "spool \<Rightarrow> (string \<times> InboundMessage) list" where
  "liveEntries s = map (\<lambda>(i, e). (s_agent e, s_msg e)) (filter (\<lambda>(i, e). \<not> expired_entry (spool_clock s) e) (live s))"

definition dropMatching :: "(string \<Rightarrow> bool) \<Rightarrow> spool \<Rightarrow> nat \<times> spool" where
  "dropMatching p s =
     (let ids = filter p (map fst (live s)); s1 = fold tombstone ids s
      in (length ids, if 0 < length ids then maybeCompact s1 else s1))"

text \<open>One dropped entry of a sweep, with what \<open>onEscalate\<close> is called with.\<close>

record escalation =
  x_entry :: "string \<times> InboundMessage"
  x_key :: string
  postNotice :: bool
  droppedCount :: nat

definition escalate_one :: "(string \<Rightarrow> nat) \<Rightarrow> string \<times> spool_entry \<Rightarrow> escalation list \<times> spool \<Rightarrow> escalation list \<times> spool" where
  "escalate_one perChatCount d xs =
     (let e = snd d; s1 = tombstone (fst d) (snd xs); key = escChatKey (s_msg e);
          post = (case map_of (escAttemptByChat s1) key of None \<Rightarrow> True
            | Some lastAttempt \<Rightarrow> DEFAULT_ESCALATE_NOTICE_COOLDOWN_MS \<le> spool_clock s1 - lastAttempt);
          s2 = appendRecord (EscRec (chatId (s_msg e)) (meta_text (s_msg e) ''threadId'') (spool_clock s1))
            (s1\<lparr>escAttemptByChat := AList.update key (spool_clock s1) (escAttemptByChat s1)\<rparr>)
      in (fst xs @ [\<lparr>x_entry = (s_agent e, s_msg e), x_key = key, postNotice = post, droppedCount = perChatCount key\<rparr>], s2))"

definition overdue :: "int \<Rightarrow> string \<times> spool_entry \<Rightarrow> bool" where
  "overdue t d \<longleftrightarrow> firstAt (snd d) \<le> t - DEFAULT_ESCALATE_AFTER_MS"

definition sweepEscalations :: "spool \<Rightarrow> escalation list \<times> spool" where
  "sweepEscalations s =
     (let toDrop = filter (overdue (spool_clock s)) (live s);
          perChatCount = (\<lambda>key. length (filter (\<lambda>d. escChatKey (s_msg (snd d)) = key) toDrop))
      in case fold (escalate_one perChatCount) toDrop ([], s) of (xs, s1) \<Rightarrow>
           (xs, if toDrop \<noteq> [] then maybeCompact s1 else s1))"

section \<open>The spool as an event system\<close>

text \<open>A restart keeps the file and the time; the gateway's counters start over.\<close>

definition createInboundSpool :: "piece list \<Rightarrow> int \<Rightarrow> spool_io \<Rightarrow> spool" where
  "createInboundSpool file t out = hydrate \<lparr>live = [], escAttemptByChat = [], spool_file = file, consecutiveAppendFailures = 0,
     degraded = False, degraded_signals = [], spool_clock = t, io = out\<rparr>"

datatype spool_event =
    Put spool_io string InboundMessage
  | Ack spool_io InboundMessage
  | Drop spool_io "string \<Rightarrow> bool"
  | Sweep spool_io
  | Restart spool_io
  | Pass int

fun event_io :: "spool_event \<Rightarrow> spool_io option" where
  "event_io (Put x a m) = Some x"
| "event_io (Ack x m) = Some x"
| "event_io (Drop x p) = Some x"
| "event_io (Sweep x) = Some x"
| "event_io (Restart x) = Some x"
| "event_io (Pass d) = None"

fun spool_step :: "spool_event \<Rightarrow> spool \<Rightarrow> spool" where
  "spool_step (Put x agent msg) s = snd (spool_put agent msg (s\<lparr>io := x\<rparr>))"
| "spool_step (Ack x msg) s = spool_ack msg (s\<lparr>io := x\<rparr>)"
| "spool_step (Drop x p) s = snd (dropMatching p (s\<lparr>io := x\<rparr>))"
| "spool_step (Sweep x) s = snd (sweepEscalations (s\<lparr>io := x\<rparr>))"
| "spool_step (Restart x) s = createInboundSpool (spool_file s) (spool_clock s) x"
| "spool_step (Pass d) s = s\<lparr>spool_clock := spool_clock s + max 0 d\<rparr>"

section \<open>Replaying the file\<close>

definition recs :: "piece list \<Rightarrow> SpoolRecord list" where
  "recs ps = List.map_filter parseLine (split_pieces ps)"

definition clean :: "piece list \<Rightarrow> bool" where
  "clean ps \<longleftrightarrow> ps = [] \<or> last ps = NL"

lemma clean_append: "clean ps \<Longrightarrow> clean qs \<Longrightarrow> clean (ps @ qs)"
  by (auto simp: clean_def last_append)

lemma split_pieces_ne [simp]: "split_pieces ps \<noteq> []"
  by (cases ps) (auto split: piece.split list.split)

lemma split_pieces_NL: "split_pieces (xs @ NL # ys) = split_pieces xs @ split_pieces ys"
proof (induction xs)
  case (Cons p xs)
  then show ?case by (cases p) (auto split: list.split simp: append_eq_Cons_conv)
qed simp

lemma recs_append: "clean ps \<Longrightarrow> recs (ps @ qs) = recs ps @ recs qs"
proof (cases "ps = []")
  case True
  then show ?thesis by (simp add: recs_def map_filter_def)
next
  case False
  assume "clean ps"
  with False obtain xs where "ps = xs @ [NL]" by (metis append_butlast_last_id clean_def)
  then show ?thesis using split_pieces_NL [of xs "[]"] split_pieces_NL [of xs qs]
    by (simp add: recs_def map_filter_def)
qed

lemma recs_record [simp]: "recs [Rec r, NL] = (if shape_ok r then [r] else [])"
  by (simp add: recs_def map_filter_def)

lemma replay_record: "clean ps \<Longrightarrow> shape_ok r \<Longrightarrow> replay (ps @ [Rec r, NL]) = apply_record r (replay ps)"
  using recs_append [of ps "[Rec r, NL]"] by (simp add: replay_def recs_def [symmetric])

text \<open>Whatever the file holds, the entries it is replayed to are well formed.\<close>

definition entries_ok :: "(string \<times> spool_entry) list \<Rightarrow> bool" where
  "entries_ok l \<longleftrightarrow> distinct (map fst l) \<and> (\<forall>(i, e) \<in> set l. i \<noteq> [] \<and> s_agent e \<noteq> [])"

lemma entries_ok_update: "entries_ok l \<Longrightarrow> i \<noteq> [] \<Longrightarrow> s_agent e \<noteq> [] \<Longrightarrow> entries_ok (AList.update i e l)"
  by (auto simp: entries_ok_def distinct_update dest: AList_update_memD)

lemma entries_ok_delete: "entries_ok l \<Longrightarrow> entries_ok (AList.delete i l)"
  using distinct_delete [of l i] by (auto simp: entries_ok_def AList.delete_eq)

lemma entries_ok_replay: "entries_ok (fst (replay ps))"
proof -
  have "entries_ok (fst p) \<Longrightarrow> \<forall>r \<in> set rs. shape_ok r \<Longrightarrow> entries_ok (fst (fold apply_record rs p))" for rs p
  proof (induction rs arbitrary: p)
    case (Cons r rs)
    have "entries_ok (fst (apply_record r p))"
      using Cons.prems by (cases r; cases p) (auto intro: entries_ok_update entries_ok_delete)
    then show ?case using Cons by simp
  qed simp
  moreover have "shape_ok r" if "r \<in> set (List.map_filter parseLine (split_pieces ps))" for r
    using that by (auto simp: map_filter_def elim!: parseLine.elims split: if_splits)
  moreover have "entries_ok []" by (simp add: entries_ok_def)
  ultimately show ?thesis unfolding replay_def by (metis fst_conv)
qed

section \<open>Compaction\<close>

lemma compacted_parts:
  "clean (concat (map (\<lambda>(i, e). [Rec (f i e), NL]) xs))"
  "recs (concat (map (\<lambda>(i, e). [Rec (f i e), NL]) xs)) = filter shape_ok (map (\<lambda>(i, e). f i e) xs)"
proof -
  show "clean (concat (map (\<lambda>(i, e). [Rec (f i e), NL]) xs))"
    by (induction xs) (auto simp: clean_def split: if_splits)
  show "recs (concat (map (\<lambda>(i, e). [Rec (f i e), NL]) xs)) = filter shape_ok (map (\<lambda>(i, e). f i e) xs)"
  proof (induction xs)
    case Nil
    then show ?case by (simp add: recs_def map_filter_def)
  next
    case (Cons x xs)
    obtain i e where x: "x = (i, e)" by (cases x)
    have "recs ([Rec (f i e), NL] @ concat (map (\<lambda>(i, e). [Rec (f i e), NL]) xs))
        = recs [Rec (f i e), NL] @ recs (concat (map (\<lambda>(i, e). [Rec (f i e), NL]) xs))"
      by (rule recs_append) (simp add: clean_def)
    then show ?case using Cons.IH by (simp add: x)
  qed
qed

lemma replay_puts:
  assumes "entries_ok l"
  shows "fold apply_record (map (\<lambda>(i, e). PutRec i (s_agent e) (s_msg e) (firstAt e)) l) ([], esc) = (l, esc)"
proof -
  have "distinct (map fst (acc @ l)) \<Longrightarrow>
      fold apply_record (map (\<lambda>(i, e). PutRec i (s_agent e) (s_msg e) (firstAt e)) l) (acc, esc) = (acc @ l, esc)" for acc
  proof (induction l arbitrary: acc)
    case (Cons x l)
    obtain i e where x: "x = (i, e)" by (cases x)
    have "AList.update i \<lparr>s_agent = s_agent e, s_msg = s_msg e, firstAt = firstAt e\<rparr> acc = acc @ [(i, e)]"
      using Cons.prems x by (subst AList_update_new) auto
    then show ?case using Cons.IH [of "acc @ [(i, e)]"] Cons.prems by (simp add: x)
  qed simp
  from this [of "[]"] show ?thesis using assms by (simp add: entries_ok_def)
qed

lemma split_key_join:
  assumes "CHR '':'' \<in> set key"
  shows "fst (split_key key) @ '':'' @ snd (split_key key) = key"
proof -
  obtain i where i: "indexOf_char (rev key) (CHR '':'') = Some i"
    using assms indexOf_char_None [of "rev key" "CHR '':''"] by auto
  then have "i < length key" "rev key ! i = CHR '':''" by (auto simp: indexOf_char_split)
  then have "key ! (length key - Suc i) = CHR '':''" "length key - Suc i < length key" by (simp_all add: rev_nth)
  moreover have "Suc (length key - Suc i) = length key - i" using \<open>i < length key\<close> by simp
  ultimately have "take (length key - Suc i) key @ CHR '':'' # drop (length key - i) key = key"
    using id_take_nth_drop [of "length key - Suc i" key] by simp
  then show ?thesis using i by (simp add: split_key_def)
qed

definition keys_ok :: "(string \<times> int) list \<Rightarrow> bool" where
  "keys_ok esc \<longleftrightarrow> distinct (map fst esc) \<and> (\<forall>(key, t) \<in> set esc. CHR '':'' \<in> set key)"

lemma apply_esc_record: "CHR '':'' \<in> set key \<Longrightarrow> apply_record (esc_record key t) (l, esc) = (l, AList.update key t esc)"
  using split_key_join [of key] by (auto simp: esc_record_def)

lemma replay_escs:
  assumes "keys_ok esc"
  shows "fold apply_record (map (\<lambda>(key, t). esc_record key t) esc) (l, []) = (l, esc)"
proof -
  have "distinct (map fst (acc @ esc)) \<Longrightarrow> \<forall>(key, t) \<in> set esc. CHR '':'' \<in> set key \<Longrightarrow>
      fold apply_record (map (\<lambda>(key, t). esc_record key t) esc) (l, acc) = (l, acc @ esc)" for acc
  proof (induction esc arbitrary: acc)
    case (Cons x esc)
    obtain key t where x: "x = (key, t)" by (cases x)
    have "AList.update key t acc = acc @ [(key, t)]" using Cons.prems x by (intro AList_update_new) auto
    then show ?case using Cons.IH [of "acc @ [(key, t)]"] Cons.prems by (simp add: x apply_esc_record)
  qed simp
  from this [of "[]"] show ?thesis using assms by (simp add: keys_ok_def)
qed

lemma recs_compacted:
  assumes "entries_ok l"
  shows "recs (compacted (l, esc)) = map (\<lambda>(i, e). PutRec i (s_agent e) (s_msg e) (firstAt e)) l @ map (\<lambda>(key, t). esc_record key t) esc"
    and "clean (compacted (l, esc))"
proof -
  let ?p = "concat (map (\<lambda>(i, e). [Rec (PutRec i (s_agent e) (s_msg e) (firstAt e)), NL]) l)"
  let ?q = "concat (map (\<lambda>(key, t). [Rec (esc_record key t), NL]) esc)"
  have c: "compacted (l, esc) = ?p @ ?q" by (simp add: compacted_def)
  have "filter shape_ok (map (\<lambda>(i, e). PutRec i (s_agent e) (s_msg e) (firstAt e)) l) = map (\<lambda>(i, e). PutRec i (s_agent e) (s_msg e) (firstAt e)) l"
    using assms by (intro filter_True) (auto simp: entries_ok_def)
  moreover have "filter shape_ok (map (\<lambda>(key, t). esc_record key t) esc) = map (\<lambda>(key, t). esc_record key t) esc"
    by (auto simp: filter_id_conv esc_record_def)
  ultimately show "recs (compacted (l, esc)) = map (\<lambda>(i, e). PutRec i (s_agent e) (s_msg e) (firstAt e)) l @ map (\<lambda>(key, t). esc_record key t) esc"
    using recs_append [OF compacted_parts(1) [of "\<lambda>i e. PutRec i (s_agent e) (s_msg e) (firstAt e)" l], of ?q]
    by (simp add: c compacted_parts(2))
  show "clean (compacted (l, esc))"
    using compacted_parts(1) [of "\<lambda>i e. PutRec i (s_agent e) (s_msg e) (firstAt e)" l] compacted_parts(1) [of "\<lambda>key t. esc_record key t" esc]
    unfolding c by (rule clean_append)
qed

lemma replay_recs: "replay ps = fold apply_record (recs ps) ([], [])"
  by (simp add: replay_def recs_def)

lemma fold_esc_live: "fst (fold apply_record (map (\<lambda>(key, t). esc_record key t) esc) p) = fst p"
  by (induction esc arbitrary: p) (auto simp: esc_record_def)

lemma replay_compacted: "entries_ok l \<Longrightarrow> keys_ok esc \<Longrightarrow> replay (compacted (l, esc)) = (l, esc)"
  using replay_puts [of l "[]"] replay_escs [of esc l] by (simp add: replay_recs recs_compacted)

lemma replay_compacted_live: "entries_ok l \<Longrightarrow> fst (replay (compacted (l, esc))) = l"
  using replay_puts [of l "[]"] by (simp add: replay_recs recs_compacted fold_esc_live)

section \<open>The file is the spool\<close>

definition durable :: "append_outcome list \<Rightarrow> bool" where
  "durable os \<longleftrightarrow> set os \<subseteq> {Appended, Unsynced}"

definition faithful :: "spool \<Rightarrow> bool" where
  "faithful s \<longleftrightarrow> clean (spool_file s) \<and> replay (spool_file s) = (live s, escAttemptByChat s)
     \<and> entries_ok (live s) \<and> keys_ok (escAttemptByChat s)"

lemma append_frame [simp]:
  "live (appendRecord r s) = live s" "escAttemptByChat (appendRecord r s) = escAttemptByChat s"
  "spool_clock (appendRecord r s) = spool_clock s" "io_appends (io (appendRecord r s)) = tl (io_appends (io s))"
  "io_size (io (appendRecord r s)) = io_size (io s)" "io_rewrite_ok (io (appendRecord r s)) = io_rewrite_ok (io s)"
  "spool_file (appendRecord r s) = spool_file s @ written (case io_appends (io s) of [] \<Rightarrow> Appended | a # _ \<Rightarrow> a) r"
  by (simp_all add: appendRecord_def Let_def)

lemma compact_frame [simp]:
  "live (maybeCompact s) = live s" "escAttemptByChat (maybeCompact s) = escAttemptByChat s" "spool_clock (maybeCompact s) = spool_clock s"
  by (simp_all add: maybeCompact_def split: option.split)

lemma durable_written:
  assumes "durable (io_appends (io s))"
  shows "spool_file (appendRecord r s) = spool_file s @ [Rec r, NL]" "durable (io_appends (io (appendRecord r s)))"
  using assms by (cases "io_appends (io s)"; auto simp: durable_def)+

lemma keys_ok_update: "keys_ok esc \<Longrightarrow> CHR '':'' \<in> set key \<Longrightarrow> keys_ok (AList.update key t esc)"
  by (auto simp: keys_ok_def distinct_update dest: AList_update_memD)

text \<open>A change of the projection together with the record that says so.\<close>

lemma faithful_append:
  assumes "faithful s" "durable (io_appends (io s))" "shape_ok r" "spool_file s' = spool_file s" "io s' = io s"
    and "apply_record r (live s, escAttemptByChat s) = (live s', escAttemptByChat s')"
  shows "faithful (appendRecord r s')" "durable (io_appends (io (appendRecord r s')))"
proof -
  have f: "spool_file (appendRecord r s') = spool_file s @ [Rec r, NL]" using durable_written(1) [of s' r] assms(2,4,5) by simp
  have "entries_ok (fst (apply_record r (live s, escAttemptByChat s))) \<and> keys_ok (snd (apply_record r (live s, escAttemptByChat s)))"
    using assms(1,3) by (cases r) (auto simp: faithful_def intro: entries_ok_update entries_ok_delete keys_ok_update)
  then have "entries_ok (live s') \<and> keys_ok (escAttemptByChat s')" unfolding assms(6) by simp
  moreover have "replay (spool_file s @ [Rec r, NL]) = (live s', escAttemptByChat s')"
    using assms replay_record [of "spool_file s" r] by (simp add: faithful_def)
  ultimately show "faithful (appendRecord r s')" using f by (simp add: faithful_def clean_def)
  show "durable (io_appends (io (appendRecord r s')))" using durable_written(2) assms(2,5) by simp
qed

lemma faithful_compact: "faithful s \<Longrightarrow> faithful (maybeCompact s)"
  using replay_compacted [of "live s" "escAttemptByChat s"] recs_compacted(2) [of "live s" "escAttemptByChat s"]
  by (simp add: maybeCompact_def faithful_def split: option.split)

lemma spoolId_ne [simp]: "spoolId m \<noteq> []"
  by (simp add: spoolId_def)

lemma entry_eq: "\<lparr>s_agent = s_agent e, s_msg = s_msg e, firstAt = firstAt e\<rparr> = e"
  by (cases e) simp

lemma faithful_put:
  assumes "faithful s" "durable (io_appends (io s))" "agent \<noteq> []"
  shows "faithful (snd (spool_put agent msg s))"
proof -
  have "faithful (appendRecord (PutRec (spoolId msg) agent msg (firstAt e)) (s\<lparr>live := AList.update (spoolId msg) e (live s)\<rparr>))"
    if "s_agent e = agent" "s_msg e = msg" for e
    by (rule faithful_append(1) [OF assms(1,2)]) (use assms(3) that in \<open>auto simp: entry_eq\<close>)
  from this [of "\<lparr>s_agent = agent, s_msg = msg, firstAt = spool_clock s\<rparr>"] this [of "e\<lparr>s_agent := agent, s_msg := msg\<rparr>" for e]
  show ?thesis using assms(1) by (auto simp: spool_put_def Let_def intro!: faithful_compact split: option.split)
qed

lemma faithful_tombstone:
  assumes "faithful s" "durable (io_appends (io s))" "i \<noteq> []"
  shows "faithful (tombstone i s)" "durable (io_appends (io (tombstone i s)))"
  unfolding tombstone_def using assms(3) by (auto intro!: faithful_append [OF assms(1,2)] simp del: append_frame)

lemma faithful_tombstones:
  "faithful s \<Longrightarrow> durable (io_appends (io s)) \<Longrightarrow> \<forall>i \<in> set ids. i \<noteq> [] \<Longrightarrow> faithful (fold tombstone ids s)"
  by (induction ids arbitrary: s) (auto intro: faithful_tombstone)

lemma escChatKey_colon [simp]: "CHR '':'' \<in> set (escChatKey m)"
  by (simp add: escChatKey_def)

lemma tombstone_frame [simp]:
  "live (tombstone i s) = AList.delete i (live s)" "escAttemptByChat (tombstone i s) = escAttemptByChat s" "spool_clock (tombstone i s) = spool_clock s"
  by (simp_all add: tombstone_def)

lemma faithful_escalate:
  assumes "faithful (snd xs)" "durable (io_appends (io (snd xs)))" "fst d \<noteq> []"
  shows "faithful (snd (escalate_one cnt d xs))" "durable (io_appends (io (snd (escalate_one cnt d xs))))"
proof -
  let ?s = "tombstone (fst d) (snd xs)" and ?m = "s_msg (snd d)"
  note t = faithful_tombstone [OF assms]
  have "apply_record (EscRec (chatId ?m) (meta_text ?m ''threadId'') (spool_clock ?s)) (live ?s, escAttemptByChat ?s)
      = (live ?s, AList.update (escChatKey ?m) (spool_clock ?s) (escAttemptByChat ?s))"
    by (simp add: escChatKey_def)
  then have "faithful (appendRecord (EscRec (chatId ?m) (meta_text ?m ''threadId'') (spool_clock ?s))
        (?s\<lparr>escAttemptByChat := AList.update (escChatKey ?m) (spool_clock ?s) (escAttemptByChat ?s)\<rparr>))"
      "durable (io_appends (io (appendRecord (EscRec (chatId ?m) (meta_text ?m ''threadId'') (spool_clock ?s))
        (?s\<lparr>escAttemptByChat := AList.update (escChatKey ?m) (spool_clock ?s) (escAttemptByChat ?s)\<rparr>))))"
    by (auto intro!: faithful_append [OF t] simp del: append_frame tombstone_frame apply_record.simps)
  then show "faithful (snd (escalate_one cnt d xs))" "durable (io_appends (io (snd (escalate_one cnt d xs))))"
    by (simp_all add: escalate_one_def Let_def)
qed

lemma faithful_sweep:
  assumes "faithful s" "durable (io_appends (io s))"
  shows "faithful (snd (sweepEscalations s))"
proof -
  have "faithful (snd xs) \<Longrightarrow> durable (io_appends (io (snd xs))) \<Longrightarrow> \<forall>d \<in> set ds. fst d \<noteq> []
      \<Longrightarrow> faithful (snd (fold (escalate_one cnt) ds xs))" for cnt ds xs
  proof (induction ds arbitrary: xs)
    case (Cons d ds)
    then show ?case using faithful_escalate [of xs d cnt] by simp
  qed simp
  moreover have "\<forall>d \<in> set (filter (overdue (spool_clock s)) (live s)). fst d \<noteq> []"
    using assms(1) by (auto simp: faithful_def entries_ok_def)
  ultimately have "faithful (snd (fold (escalate_one cnt) (filter (overdue (spool_clock s)) (live s)) ([], s)))" for cnt
    using assms by simp
  then show ?thesis using faithful_compact assms(1) by (simp add: sweepEscalations_def Let_def split_beta)
qed

text \<open>The events of a spool whose appends reach the file and whose file can be read back.\<close>

fun durable_event :: "spool_event \<Rightarrow> bool" where
  "durable_event (Put x agent msg) = (durable (io_appends x) \<and> agent \<noteq> [])"
| "durable_event (Ack x msg) = durable (io_appends x)"
| "durable_event (Drop x p) = durable (io_appends x)"
| "durable_event (Sweep x) = durable (io_appends x)"
| "durable_event (Restart x) = io_read_ok x"
| "durable_event (Pass d) = True"

lemma faithful_io [simp]: "faithful (s\<lparr>io := x\<rparr>) = faithful s" "faithful (s\<lparr>spool_clock := t\<rparr>) = faithful s"
  by (simp_all add: faithful_def)

lemma faithful_restart: "faithful s \<Longrightarrow> io_read_ok x \<Longrightarrow> faithful (createInboundSpool (spool_file s) t x)"
  by (simp add: faithful_def createInboundSpool_def hydrate_def)

lemma faithful_step: "faithful s \<Longrightarrow> durable_event ev \<Longrightarrow> faithful (spool_step ev s)"
proof (cases ev)
  case (Drop x p)
  assume a: "faithful s" "durable_event ev"
  have "\<forall>i \<in> set (filter p (map fst (live s))). i \<noteq> []" using a by (auto simp: faithful_def entries_ok_def)
  then have "faithful (fold tombstone (filter p (map fst (live s))) (s\<lparr>io := x\<rparr>))"
    using a Drop by (intro faithful_tombstones) simp_all
  then show ?thesis using Drop faithful_compact a(1) by (simp add: dropMatching_def Let_def)
next
  case (Ack x m)
  assume a: "faithful s" "durable_event ev"
  then show ?thesis using Ack faithful_tombstone(1) [of "s\<lparr>io := x\<rparr>" "spoolId m"] faithful_compact
    by (simp add: spool_ack_def Let_def)
qed (auto simp: faithful_put faithful_sweep faithful_restart)

interpretation spool_log: event_system "restrict_step durable_event spool_step" faithful
  by unfold_locales (simp add: restrict_step_def faithful_step)

definition empty_spool :: "int \<Rightarrow> spool" where
  "empty_spool t = createInboundSpool [] t \<lparr>io_appends = [], io_size = None, io_rewrite_ok = True, io_read_ok = True\<rparr>"

lemma faithful_empty: "faithful (empty_spool t)"
  by (simp add: empty_spool_def createInboundSpool_def hydrate_def faithful_def replay_def map_filter_def clean_def entries_ok_def keys_ok_def)

lemma faithful_run: "list_all durable_event es \<Longrightarrow> faithful (run spool_step (empty_spool t) es)"
  using spool_log.invar_run [OF faithful_empty, of t es] by (simp add: run_restrict)

text \<open>
  Claim C16: a restart restores the spool exactly. After any sequence of puts, acks, sweeps, drops, restarts and
  compactions, successful or not, in which every append reached the file (its fsync may fail), reading
  the file back gives the same live entries in the same order with their first-spooled times, and the same
  notice windows; every live id is listed once.
\<close>

theorem spool_restart_exact:
  assumes "list_all durable_event es" "s = run spool_step (empty_spool t) es" "io_read_ok x"
  shows "live (spool_step (Restart x) s) = live s \<and> escAttemptByChat (spool_step (Restart x) s) = escAttemptByChat s
    \<and> liveEntries (spool_step (Restart x) s) = liveEntries s \<and> distinct (map fst (live s))"
  using faithful_run [OF assms(1), of t] assms(2,3)
  by (simp add: faithful_def entries_ok_def createInboundSpool_def hydrate_def liveEntries_def)

definition ok_io :: spool_io where
  "ok_io = \<lparr>io_appends = [], io_size = Some 300000, io_rewrite_ok = True, io_read_ok = True\<rparr>"

definition demo_inbound :: "int \<Rightarrow> InboundMessage" where
  "demo_inbound n = \<lparr>chatId = ''7'', threadId = None, messageId = n, user = ''u'', userId = 1, ts = n, msg_text = ''hi'',
     imagePath = None, attachment = None, meta = []\<rparr>"

definition demo_spool :: spool where
  "demo_spool = run spool_step (empty_spool 0) [Put ok_io ''coder'' (demo_inbound 1), Put ok_io ''coder'' (demo_inbound 2), Ack ok_io (demo_inbound 1)]"

lemma demo_spool_run:
  "list_all durable_event [Put ok_io ''coder'' (demo_inbound 1), Put ok_io ''coder'' (demo_inbound 2), Ack ok_io (demo_inbound 1)]"
  by (simp add: ok_io_def durable_def)

theorem spool_restart_exact_witness:
  "map fst (live (spool_step (Restart ok_io) demo_spool)) = [''m:7:2''] \<and> map fst (live demo_spool) = [''m:7:2'']"
proof -
  have "map fst (live demo_spool) = [''m:7:2'']" by code_simp
  then show ?thesis
    using spool_restart_exact [OF demo_spool_run demo_spool_def, of ok_io] by (simp add: ok_io_def)
qed

section \<open>A spooled message survives\<close>

text \<open>
  The events that resolve an entry: its delivery, a sweep of stale envelopes that names it, its escalation,
  and a fresher boot briefing for the same chat.
\<close>

fun resolves :: "string \<Rightarrow> spool_event \<Rightarrow> spool \<Rightarrow> bool" where
  "resolves i (Ack x msg) s = (spoolId msg = i)"
| "resolves i (Drop x p) s = p i"
| "resolves i (Sweep x) s = (case map_of (live s) i of None \<Rightarrow> False | Some e \<Rightarrow> overdue (spool_clock s) (i, e))"
| "resolves i (Put x agent msg) s = (spoolId msg = i \<and> source msg = Some ''boot_briefing'')"
| "resolves i _ s = False"

text \<open>Appends may fail, but never leave a torn line behind.\<close>

definition untorn :: "append_outcome list \<Rightarrow> bool" where
  "untorn os \<longleftrightarrow> set os \<subseteq> {Appended, Unsynced, NotWritten}"

fun untorn_event :: "spool_event \<Rightarrow> bool" where
  "untorn_event (Put x agent msg) = (untorn (io_appends x) \<and> agent \<noteq> [])"
| "untorn_event (Ack x msg) = untorn (io_appends x)"
| "untorn_event (Drop x p) = untorn (io_appends x)"
| "untorn_event (Sweep x) = untorn (io_appends x)"
| "untorn_event (Restart x) = io_read_ok x"
| "untorn_event (Pass d) = True"

text \<open>What a later event needs for that: entries with an agent, and a file that can be read back. Appends may fail or tear.\<close>

fun readable_event :: "spool_event \<Rightarrow> bool" where
  "readable_event (Put x agent msg) = (agent \<noteq> [])"
| "readable_event (Restart x) = io_read_ok x"
| "readable_event _ = True"

lemma untorn_readable: "untorn_event ev \<Longrightarrow> readable_event ev"
  by (cases ev) auto

definition keeps :: "((string \<times> spool_entry) list \<Rightarrow> bool) \<Rightarrow> SpoolRecord \<Rightarrow> bool" where
  "keeps Q r \<longleftrightarrow> shape_ok r \<and> (\<forall>p. Q (fst p) \<longrightarrow> Q (fst (apply_record r p)))"

lemma keeps_Esc [simp]: "keeps Q (EscRec chat thread t)"
  by (simp add: keeps_def)

text \<open>
  A property of the entries that memory and file both have: the file has it up to the end of some line, and every
  record written behind that line, whole or not, keeps it.
\<close>

definition file_has :: "((string \<times> spool_entry) list \<Rightarrow> bool) \<Rightarrow> piece list \<Rightarrow> bool" where
  "file_has Q ps \<longleftrightarrow> (\<exists>xs ys. ps = xs @ ys \<and> clean xs \<and> Q (fst (replay xs)) \<and> (\<forall>r. Rec r \<in> set ys \<longrightarrow> keeps Q r))"

definition both :: "((string \<times> spool_entry) list \<Rightarrow> bool) \<Rightarrow> spool \<Rightarrow> bool" where
  "both Q s \<longleftrightarrow> entries_ok (live s) \<and> Q (live s) \<and> file_has Q (spool_file s)"

lemma split_pieces_mem: "l \<in> set (split_pieces ps) \<Longrightarrow> set l \<subseteq> set ps"
proof (induction ps arbitrary: l)
  case (Cons p ps)
  obtain m ms where m: "split_pieces ps = m # ms" by (cases "split_pieces ps") simp_all
  have "set m \<subseteq> set ps" "\<And>k. k \<in> set ms \<Longrightarrow> set k \<subseteq> set ps" using Cons.IH by (simp_all add: m)
  then show ?case using Cons.prems m by (cases p) auto
qed simp

lemma recs_mem: "r \<in> set (recs ps) \<Longrightarrow> Rec r \<in> set ps"
  using split_pieces_mem by (fastforce simp: recs_def map_filter_def elim!: parseLine.elims split: if_splits)

lemma fold_keeps: "\<forall>r \<in> set rs. keeps Q r \<Longrightarrow> Q (fst p) \<Longrightarrow> Q (fst (fold apply_record rs p))"
proof (induction rs arbitrary: p)
  case (Cons r rs)
  have "Q (fst (apply_record r p))" using Cons.prems by (cases p) (simp add: keeps_def)
  then show ?case using Cons by simp
qed simp

lemma file_has_replay:
  assumes "file_has Q ps"
  shows "Q (fst (replay ps))"
proof -
  obtain xs ys where x: "ps = xs @ ys" "clean xs" "Q (fst (replay xs))" "\<forall>r. Rec r \<in> set ys \<longrightarrow> keeps Q r"
    using assms unfolding file_has_def by blast
  have "replay ps = fold apply_record (recs ys) (replay xs)"
    by (simp add: replay_def recs_def [symmetric] x(1) recs_append [OF x(2)])
  moreover have "\<forall>r \<in> set (recs ys). keeps Q r" using x(4) recs_mem by blast
  ultimately show ?thesis using fold_keeps x(3) by metis
qed

lemma file_has_clean: "clean ps \<Longrightarrow> Q (fst (replay ps)) \<Longrightarrow> file_has Q ps"
  unfolding file_has_def by (rule exI [of _ ps], rule exI [of _ "[]"]) simp

lemma file_has_append: "file_has Q ps \<Longrightarrow> (\<And>r. Rec r \<in> set qs \<Longrightarrow> keeps Q r) \<Longrightarrow> file_has Q (ps @ qs)"
  unfolding file_has_def by (metis Un_iff append.assoc set_append)

lemma written_mem: "Rec q \<in> set (written a r) \<Longrightarrow> q = r"
  by (cases a) auto

lemma both_append:
  assumes "both Q s" "keeps Q r" "spool_file s' = spool_file s" "live s' = fst (apply_record r (live s, escAttemptByChat s))"
  shows "both Q (appendRecord r s')"
proof -
  have "Q (live s')" using assms(1,2) unfolding assms(4) both_def keeps_def by simp
  moreover have "entries_ok (live s')"
    using assms(1,2) unfolding assms(4) by (cases r) (auto simp: both_def keeps_def intro: entries_ok_update entries_ok_delete)
  moreover have "file_has Q (spool_file s @ written a r)" for a
    using file_has_append [of Q "spool_file s" "written a r"] written_mem assms(1,2) by (auto simp: both_def)
  ultimately show ?thesis using assms(3) by (simp add: both_def)
qed

lemma both_compact: "both Q s \<Longrightarrow> both Q (maybeCompact s)"
  using file_has_clean [of "compacted (live s, escAttemptByChat s)" Q]
    replay_compacted_live [of "live s" "escAttemptByChat s"] recs_compacted(2) [of "live s" "escAttemptByChat s"]
  by (auto simp: both_def maybeCompact_def split: option.split)

lemma both_put:
  assumes "both Q s" "agent \<noteq> []"
    and "\<And>t. map_of (live s) (spoolId msg) = None \<or> source msg = Some ''boot_briefing'' \<Longrightarrow> keeps Q (PutRec (spoolId msg) agent msg t)"
  shows "both Q (snd (spool_put agent msg s))"
proof -
  have "both Q (appendRecord (PutRec (spoolId msg) agent msg (firstAt e)) (s\<lparr>live := AList.update (spoolId msg) e (live s)\<rparr>))"
    if "s_agent e = agent" "s_msg e = msg" "map_of (live s) (spoolId msg) = None \<or> source msg = Some ''boot_briefing''" for e
    by (rule both_append [OF assms(1)]) (use assms that in \<open>auto simp: entry_eq\<close>)
  from this [of "\<lparr>s_agent = agent, s_msg = msg, firstAt = spool_clock s\<rparr>"] this [of "e\<lparr>s_agent := agent, s_msg := msg\<rparr>" for e]
  show ?thesis using assms(1) by (auto simp: spool_put_def Let_def intro!: both_compact split: option.split)
qed

lemma both_tombstone: "both Q s \<Longrightarrow> keeps Q (AckRec i) \<Longrightarrow> both Q (tombstone i s)"
  unfolding tombstone_def by (rule both_append) simp_all

lemma both_tombstones: "both Q s \<Longrightarrow> \<forall>i \<in> set ids. keeps Q (AckRec i) \<Longrightarrow> both Q (fold tombstone ids s)"
  by (induction ids arbitrary: s) (auto intro: both_tombstone)

lemma both_escalate:
  assumes "both Q (snd xs)" "keeps Q (AckRec (fst d))"
  shows "both Q (snd (escalate_one cnt d xs))"
  using both_append [OF both_tombstone [OF assms] keeps_Esc, of
      "(tombstone (fst d) (snd xs))\<lparr>escAttemptByChat := AList.update (escChatKey (s_msg (snd d))) (spool_clock (snd xs)) (escAttemptByChat (snd xs))\<rparr>"
      "chatId (s_msg (snd d))" "meta_text (s_msg (snd d)) ''threadId''" "spool_clock (snd xs)"]
  by (simp add: escalate_one_def Let_def)

lemma both_sweep:
  assumes "both Q s" "\<forall>d \<in> set (live s). overdue (spool_clock s) d \<longrightarrow> keeps Q (AckRec (fst d))"
  shows "both Q (snd (sweepEscalations s))"
proof -
  have "both Q (snd xs) \<Longrightarrow> \<forall>d \<in> set ds. keeps Q (AckRec (fst d)) \<Longrightarrow> both Q (snd (fold (escalate_one cnt) ds xs))" for cnt ds xs
  proof (induction ds arbitrary: xs)
    case (Cons d ds)
    then show ?case using both_escalate [of Q xs d cnt] by simp
  qed simp
  then have "both Q (snd (fold (escalate_one cnt) (filter (overdue (spool_clock s)) (live s)) ([], s)))" for cnt
    using assms by simp
  then show ?thesis using both_compact assms(1) by (simp add: sweepEscalations_def Let_def split_beta)
qed

text \<open>The records an event writes, as far as it can be told from its state.\<close>

fun admits :: "((string \<times> spool_entry) list \<Rightarrow> bool) \<Rightarrow> spool_event \<Rightarrow> spool \<Rightarrow> bool" where
  "admits Q (Put x agent msg) s \<longleftrightarrow>
     (map_of (live s) (spoolId msg) = None \<or> source msg = Some ''boot_briefing'' \<longrightarrow> (\<forall>t. keeps Q (PutRec (spoolId msg) agent msg t)))"
| "admits Q (Ack x msg) s \<longleftrightarrow> keeps Q (AckRec (spoolId msg))"
| "admits Q (Drop x p) s \<longleftrightarrow> (\<forall>d \<in> set (live s). p (fst d) \<longrightarrow> keeps Q (AckRec (fst d)))"
| "admits Q (Sweep x) s \<longleftrightarrow> (\<forall>d \<in> set (live s). overdue (spool_clock s) d \<longrightarrow> keeps Q (AckRec (fst d)))"
| "admits Q _ s \<longleftrightarrow> True"

lemma both_io [simp]: "both Q (s\<lparr>io := x\<rparr>) = both Q s" "both Q (s\<lparr>spool_clock := t\<rparr>) = both Q s"
  by (simp_all add: both_def)

lemma both_step:
  assumes "both Q s" "readable_event ev" "admits Q ev s"
  shows "both Q (spool_step ev s)"
proof (cases ev)
  case (Drop x p)
  have "both Q (fold tombstone (filter p (map fst (live s))) (s\<lparr>io := x\<rparr>))"
    using assms Drop by (intro both_tombstones) auto
  then show ?thesis using Drop both_compact assms(1) by (simp add: dropMatching_def Let_def)
next
  case (Ack x m)
  then show ?thesis using assms both_tombstone [of Q "s\<lparr>io := x\<rparr>" "spoolId m"] both_compact
    by (simp add: spool_ack_def Let_def)
next
  case (Put x agent msg)
  then show ?thesis using assms by (auto intro!: both_put)
next
  case (Sweep x)
  then show ?thesis using assms by (auto intro!: both_sweep)
next
  case (Restart x)
  then have "Q (fst (replay (spool_file s)))" using assms(1) file_has_replay by (auto simp: both_def)
  then show ?thesis using Restart assms entries_ok_replay by (simp add: createInboundSpool_def hydrate_def both_def)
qed (use assms in simp)

definition holds_entry :: "string \<Rightarrow> string \<Rightarrow> InboundMessage \<Rightarrow> (string \<times> spool_entry) list \<Rightarrow> bool" where
  "holds_entry i agent msg l \<longleftrightarrow> (\<exists>e. map_of l i = Some e \<and> s_agent e = agent \<and> s_msg e = msg)"

lemma keeps_other:
  "j \<noteq> [] \<Longrightarrow> j \<noteq> i \<Longrightarrow> keeps (holds_entry i agent msg) (AckRec j)"
  "j \<noteq> [] \<Longrightarrow> j \<noteq> i \<Longrightarrow> a \<noteq> [] \<Longrightarrow> keeps (holds_entry i agent msg) (PutRec j a m t)"
  by (auto simp: keeps_def holds_entry_def update_conv' delete_conv')

lemma unresolved_admits:
  assumes "both (holds_entry i agent msg) s" "readable_event ev" "\<not> resolves i ev s"
  shows "admits (holds_entry i agent msg) ev s"
proof -
  obtain e where e: "map_of (live s) i = Some e" and ok: "entries_ok (live s)"
    using assms(1) by (auto simp: both_def holds_entry_def)
  have ids: "fst d \<noteq> []" "fst d = i \<Longrightarrow> d = (i, e)" if "d \<in> set (live s)" for d
    using that ok e map_of_is_SomeI [of "live s" "fst d" "snd d"] by (cases d, auto simp: entries_ok_def)+
  show ?thesis
  proof (cases ev)
    case (Sweep x)
    then show ?thesis using assms(3) e ids keeps_other(1) by (auto, metis)
  next
    case (Drop x p)
    have "keeps (holds_entry i agent msg) (AckRec (fst d))" if "d \<in> set (live s)" "p (fst d)" for d
      using keeps_other(1) [of "fst d" i agent msg] ids(1) [OF that(1)] that(2) Drop assms(3) by auto
    then show ?thesis using Drop by simp
  next
    case (Put x a m)
    then show ?thesis using assms(2,3) e keeps_other(2) [of "spoolId m" i a] by (cases "spoolId m = i") auto
  qed (use assms keeps_other(1) in auto)
qed

lemma both_unresolved:
  "both (holds_entry i agent msg) s \<Longrightarrow> list_all readable_event es \<Longrightarrow> win_count spool_step (resolves i) s es = 0
     \<Longrightarrow> both (holds_entry i agent msg) (run spool_step s es)"
proof (induction es arbitrary: s)
  case (Cons ev es)
  then have "\<not> resolves i ev s" "win_count spool_step (resolves i) (spool_step ev s) es = 0" by (auto split: if_splits)
  moreover have ev: "readable_event ev" using Cons.prems(2) by simp
  ultimately show ?case
    using Cons.IH [OF both_step [OF Cons.prems(1) ev unresolved_admits [OF Cons.prems(1) ev]]] Cons.prems(2) by simp
qed simp

lemma admits_any: "readable_event ev \<Longrightarrow> entries_ok (live s) \<Longrightarrow> admits (\<lambda>l. True) ev s"
  by (cases ev) (auto simp: keeps_def entries_ok_def)

text \<open>Without torn appends the file ends with whole lines.\<close>

definition sane :: "spool \<Rightarrow> bool" where
  "sane s \<longleftrightarrow> clean (spool_file s) \<and> both (\<lambda>l. True) s"

lemma clean_written: "untorn (io_appends (io s)) \<Longrightarrow> clean (spool_file s) \<Longrightarrow>
  clean (spool_file (appendRecord r s)) \<and> untorn (io_appends (io (appendRecord r s)))"
  by (cases "io_appends (io s)") (auto simp: untorn_def clean_def)

lemma clean_tombstone: "untorn (io_appends (io s)) \<Longrightarrow> clean (spool_file s) \<Longrightarrow>
  clean (spool_file (tombstone i s)) \<and> untorn (io_appends (io (tombstone i s)))"
  unfolding tombstone_def by (rule clean_written) simp_all

lemma clean_tombstones: "untorn (io_appends (io s)) \<Longrightarrow> clean (spool_file s) \<Longrightarrow> clean (spool_file (fold tombstone ids s))"
  by (induction ids arbitrary: s) (auto dest: clean_tombstone)

lemma clean_escalate: "untorn (io_appends (io (snd xs))) \<Longrightarrow> clean (spool_file (snd xs)) \<Longrightarrow>
  clean (spool_file (snd (escalate_one cnt d xs))) \<and> untorn (io_appends (io (snd (escalate_one cnt d xs))))"
  using clean_tombstone [of "snd xs" "fst d"] unfolding escalate_one_def Let_def snd_conv by (intro clean_written) simp_all

lemma clean_compacted: "clean (compacted p)"
  unfolding compacted_def by (rule clean_append [OF compacted_parts(1) compacted_parts(1)])

lemma clean_compact: "clean (spool_file s) \<Longrightarrow> clean (spool_file (maybeCompact s))"
  by (auto simp: maybeCompact_def clean_compacted split: option.split)

lemma clean_sweep: "untorn (io_appends (io s)) \<Longrightarrow> clean (spool_file s) \<Longrightarrow> clean (spool_file (snd (sweepEscalations s)))"
proof -
  assume s: "untorn (io_appends (io s))" "clean (spool_file s)"
  have "untorn (io_appends (io (snd xs))) \<Longrightarrow> clean (spool_file (snd xs)) \<Longrightarrow> clean (spool_file (snd (fold (escalate_one cnt) ds xs)))"
    for cnt ds xs
  proof (induction ds arbitrary: xs)
    case (Cons d ds)
    then show ?case using clean_escalate [of xs cnt d] by simp
  qed simp
  from this [of "([], s)"] s show ?thesis by (simp add: sweepEscalations_def Let_def split_beta clean_compact)
qed

lemma clean_put: "untorn (io_appends (io s)) \<Longrightarrow> clean (spool_file s) \<Longrightarrow> clean (spool_file (snd (spool_put agent msg s)))"
  using clean_written [of "s\<lparr>live := l\<rparr>" for l] unfolding spool_put_def Let_def
  by (auto simp del: append_frame(7) intro!: clean_compact split: option.split)

lemma clean_step: "clean (spool_file s) \<Longrightarrow> untorn_event ev \<Longrightarrow> clean (spool_file (spool_step ev s))"
  using clean_tombstone [of "s\<lparr>io := x\<rparr>" for x]
  by (cases ev) (auto simp: spool_ack_def dropMatching_def createInboundSpool_def hydrate_def Let_def
      intro!: clean_compact clean_sweep clean_tombstones clean_put)

interpretation spool_sane: event_system "restrict_step untorn_event spool_step" sane
proof unfold_locales
  fix s e
  assume b: "sane s"
  then have "entries_ok (live s)" by (simp add: sane_def both_def)
  then show "sane (restrict_step untorn_event spool_step e s)"
    using both_step [of "\<lambda>l. True" s e] admits_any [of e s] untorn_readable [of e] clean_step [of s e] b
    by (cases "untorn_event e") (simp_all add: restrict_step_def sane_def)
qed

lemma sane_run: "list_all untorn_event es \<Longrightarrow> sane (run spool_step (empty_spool t) es)"
  using spool_sane.invar_run [of "empty_spool t" es] faithful_empty [of t] file_has_clean
  by (simp add: run_restrict sane_def both_def faithful_def)

lemma put_holds:
  assumes "sane s" "durable (io_appends (io s))" "agent \<noteq> []" "fst (spool_put agent msg s)"
  shows "both (holds_entry (spoolId msg) agent msg) (snd (spool_put agent msg s))"
proof -
  let ?Q = "holds_entry (spoolId msg) agent msg"
  have "both ?Q (appendRecord (PutRec (spoolId msg) agent msg (firstAt e)) (s\<lparr>live := AList.update (spoolId msg) e (live s)\<rparr>))"
    if "s_agent e = agent" "s_msg e = msg" for e
  proof -
    let ?s = "s\<lparr>live := AList.update (spoolId msg) e (live s)\<rparr>"
    have "spool_file (appendRecord (PutRec (spoolId msg) agent msg (firstAt e)) ?s) = spool_file s @ [Rec (PutRec (spoolId msg) agent msg (firstAt e)), NL]"
      using durable_written(1) [of ?s] assms(2) by simp
    moreover have "fst (apply_record (PutRec (spoolId msg) agent msg (firstAt e)) p) = AList.update (spoolId msg) e (fst p)" for p
      using that by (cases p) (auto simp: entry_eq)
    moreover have "?Q (AList.update (spoolId msg) e l)" for l using that by (simp add: holds_entry_def update_conv')
    ultimately show ?thesis
      using assms(1,3) that file_has_clean [of "spool_file s @ [Rec (PutRec (spoolId msg) agent msg (firstAt e)), NL]" ?Q]
      by (simp add: sane_def both_def replay_record entries_ok_update clean_def)
  qed
  from this [of "\<lparr>s_agent = agent, s_msg = msg, firstAt = spool_clock s\<rparr>"] this [of "e\<lparr>s_agent := agent, s_msg := msg\<rparr>" for e]
  show ?thesis using assms(4) by (auto simp: spool_put_def Let_def intro!: both_compact split: option.splits if_splits)
qed

text \<open>
  Claim C17: a spooled message is not lost. Let no append so far have left a torn line, and let a \<open>put\<close> that accepts a
  message for a named agent reach the file as a whole line. Then the message is live after any later restart that can
  read the file, with its agent and content, whatever happened in between: other puts, acks, drops and sweeps whose
  appends were written, failed or torn, compactions that failed or not, restarts that could read the file, any lapse of
  time. The only ways out are its own ack, a drop that names it, its escalation to the user after fifteen minutes, or a
  newer boot briefing in its place. A line torn just before the \<open>put\<close> does swallow it: see \<open>torn_line_swallows_next\<close>.
\<close>

theorem spooled_message_survives:
  assumes "list_all untorn_event es" "s = run spool_step (empty_spool t) es"
    and "fst (spool_put agent msg (s\<lparr>io := x\<rparr>))" "durable (io_appends x)" "agent \<noteq> []"
    and "list_all readable_event later" "s' = spool_step (Put x agent msg) s"
    and "win_count spool_step (resolves (spoolId msg)) s' later = 0" "io_read_ok y"
  shows "\<exists>e. map_of (live (spool_step (Restart y) (run spool_step s' later))) (spoolId msg) = Some e
    \<and> s_agent e = agent \<and> s_msg e = msg"
proof -
  have "sane (s\<lparr>io := x\<rparr>)" using sane_run [OF assms(1), of t] assms(2) by (simp add: sane_def)
  then have "both (holds_entry (spoolId msg) agent msg) s'"
    using put_holds [of "s\<lparr>io := x\<rparr>" agent msg] assms(3-5,7) by simp
  then have "both (holds_entry (spoolId msg) agent msg) (run spool_step s' later)"
    using both_unresolved assms(6,8) by blast
  then have "file_has (holds_entry (spoolId msg) agent msg) (spool_file (run spool_step s' later))" by (simp add: both_def)
  from file_has_replay [OF this] show ?thesis
    using assms(9) by (simp add: holds_entry_def createInboundSpool_def hydrate_def)
qed

definition tearing_io :: spool_io where
  "tearing_io = \<lparr>io_appends = [Torn], io_size = Some 300000, io_rewrite_ok = False, io_read_ok = True\<rparr>"

theorem spooled_message_survives_witness:
  "\<exists>e. map_of (live (spool_step (Restart ok_io) (run spool_step (spool_step (Put ok_io ''coder'' (demo_inbound 3)) demo_spool)
     [Put tearing_io ''coder'' (demo_inbound 4), Restart ok_io, Pass 9, Sweep ok_io, Ack ok_io (demo_inbound 2)]))) ''m:7:3'' = Some e
     \<and> s_msg e = demo_inbound 3"
proof -
  let ?later = "[Put tearing_io ''coder'' (demo_inbound 4), Restart ok_io, Pass 9, Sweep ok_io, Ack ok_io (demo_inbound 2)]"
  have i: "spoolId (demo_inbound 3) = ''m:7:3''" by code_simp
  have p: "fst (spool_put ''coder'' (demo_inbound 3) (demo_spool\<lparr>io := ok_io\<rparr>))" by code_simp
  have w: "win_count spool_step (resolves (spoolId (demo_inbound 3))) (spool_step (Put ok_io ''coder'' (demo_inbound 3)) demo_spool) ?later = 0"
    by code_simp
  have u: "list_all untorn_event [Put ok_io ''coder'' (demo_inbound 1), Put ok_io ''coder'' (demo_inbound 2), Ack ok_io (demo_inbound 1)]"
      "list_all readable_event ?later" "durable (io_appends ok_io)" "io_read_ok ok_io"
    by (simp_all add: ok_io_def untorn_def durable_def)
  from spooled_message_survives [OF u(1) demo_spool_def p u(3) _ u(2) refl w u(4)]
  show ?thesis unfolding i by auto
qed

section \<open>Escalation\<close>

definition drop_key :: "string \<times> spool_entry \<Rightarrow> string" where
  "drop_key d = escChatKey (s_msg (snd d))"

text \<open>The notice window of a chat is closed: nothing was attempted within the cooldown.\<close>

definition notice_due :: "spool \<Rightarrow> string \<Rightarrow> bool" where
  "notice_due s key \<longleftrightarrow> (case map_of (escAttemptByChat s) key of None \<Rightarrow> True
     | Some a \<Rightarrow> DEFAULT_ESCALATE_NOTICE_COOLDOWN_MS \<le> spool_clock s - a)"

definition notice_keys :: "escalation list \<Rightarrow> string list" where
  "notice_keys xs = map x_key (filter postNotice xs)"

lemma escalate_one_simps:
  "spool_clock (snd (escalate_one cnt d xs)) = spool_clock (snd xs)"
  "live (snd (escalate_one cnt d xs)) = AList.delete (fst d) (live (snd xs))"
  "escAttemptByChat (snd (escalate_one cnt d xs)) = AList.update (drop_key d) (spool_clock (snd xs)) (escAttemptByChat (snd xs))"
  "fst (escalate_one cnt d xs) = fst xs @ [\<lparr>x_entry = (s_agent (snd d), s_msg (snd d)), x_key = drop_key d,
     postNotice = notice_due (snd xs) (drop_key d), droppedCount = cnt (drop_key d)\<rparr>]"
  by (simp_all add: escalate_one_def drop_key_def notice_due_def Let_def split: option.split)

lemma escalate_fold:
  assumes "fold (escalate_one cnt) ds (acc, s) = (xs, s')"
  shows "\<exists>ys. xs = acc @ ys \<and> map x_entry ys = map (\<lambda>d. (s_agent (snd d), s_msg (snd d))) ds
    \<and> map x_key ys = map drop_key ds \<and> map droppedCount ys = map (\<lambda>d. cnt (drop_key d)) ds
    \<and> distinct (notice_keys ys) \<and> set (notice_keys ys) = {k \<in> set (map drop_key ds). notice_due s k}
    \<and> spool_clock s' = spool_clock s \<and> live s' = fold (\<lambda>d. AList.delete (fst d)) ds (live s)
    \<and> (\<forall>k. map_of (escAttemptByChat s') k = (if k \<in> set (map drop_key ds) then Some (spool_clock s) else map_of (escAttemptByChat s) k))"
  using assms
proof (induction ds arbitrary: acc s)
  case Nil
  then show ?case by (simp add: notice_keys_def)
next
  case (Cons d ds)
  define s1 where "s1 = snd (escalate_one cnt d (acc, s))"
  define x where "x = \<lparr>x_entry = (s_agent (snd d), s_msg (snd d)), x_key = drop_key d, postNotice = notice_due s (drop_key d), droppedCount = cnt (drop_key d)\<rparr>"
  have "escalate_one cnt d (acc, s) = (acc @ [x], s1)"
    by (rule prod_eqI) (simp_all add: escalate_one_simps s1_def x_def)
  then have "fold (escalate_one cnt) ds (acc @ [x], s1) = (xs, s')" using Cons.prems by simp
  then obtain ys where ys: "xs = acc @ x # ys" "map x_entry ys = map (\<lambda>d. (s_agent (snd d), s_msg (snd d))) ds"
      "map x_key ys = map drop_key ds" "map droppedCount ys = map (\<lambda>d. cnt (drop_key d)) ds" "distinct (notice_keys ys)"
      "set (notice_keys ys) = {k \<in> set (map drop_key ds). notice_due s1 k}" "spool_clock s' = spool_clock s1"
      "live s' = fold (\<lambda>d. AList.delete (fst d)) ds (live s1)"
      "\<forall>k. map_of (escAttemptByChat s') k = (if k \<in> set (map drop_key ds) then Some (spool_clock s1) else map_of (escAttemptByChat s1) k)"
    using Cons.IH [of "acc @ [x]" s1] by auto
  have s1: "spool_clock s1 = spool_clock s" "live s1 = AList.delete (fst d) (live s)"
      "escAttemptByChat s1 = AList.update (drop_key d) (spool_clock s) (escAttemptByChat s)"
    by (simp_all add: s1_def escalate_one_simps)
  have due: "notice_due s1 k \<longleftrightarrow> k \<noteq> drop_key d \<and> notice_due s k" for k
    by (auto simp: notice_due_def s1 update_conv' DEFAULT_ESCALATE_NOTICE_COOLDOWN_MS_def split: option.split)
  have nk: "notice_keys (x # ys) = (if notice_due s (drop_key d) then drop_key d # notice_keys ys else notice_keys ys)"
    by (simp add: notice_keys_def x_def)
  have y6: "set (notice_keys ys) = {k \<in> drop_key ` set ds. k \<noteq> drop_key d \<and> notice_due s k}" unfolding ys(6) due by simp
  have nks: "set (notice_keys (x # ys)) = {k \<in> set (map drop_key (d # ds)). notice_due s k}"
  proof (cases "notice_due s (drop_key d)")
    case True
    then show ?thesis unfolding nk by (simp add: y6 del: set_map) (simp, blast)
  next
    case False
    then have "{k \<in> drop_key ` set ds. k \<noteq> drop_key d \<and> notice_due s k} = {k \<in> set (map drop_key (d # ds)). notice_due s k}"
      by (simp, metis)
    then show ?thesis using False unfolding nk by (simp add: y6)
  qed
  have dis: "distinct (notice_keys (x # ys))" unfolding nk using ys(5) by (simp add: y6)
  have esc: "map_of (escAttemptByChat s') k = (if k \<in> set (map drop_key (d # ds)) then Some (spool_clock s) else map_of (escAttemptByChat s) k)" for k
    using ys(9) by (simp add: s1 update_conv')
  show ?case
    by (rule exI [of _ "x # ys"]) (use ys(1-4,7,8) s1 nks dis esc in \<open>simp add: x_def\<close>)
qed

lemma fold_delete: "fold (\<lambda>d. AList.delete (fst d)) ds l = filter (\<lambda>e. fst e \<notin> fst ` set ds) l"
proof (induction ds arbitrary: l)
  case (Cons d ds)
  then show ?case by (auto simp: AList.delete_eq intro!: filter_cong)
qed simp

lemma filter_out: "distinct (map fst l) \<Longrightarrow> filter (\<lambda>e. fst e \<notin> fst ` set (filter p l)) l = filter (\<lambda>e. \<not> p e) l"
  by (rule filter_cong) (auto simp: distinct_map inj_on_def)

lemma map_count: "map x_key ys = map f ds \<Longrightarrow> length (filter (\<lambda>d. f d = k) ds) = length (filter (\<lambda>x. x_key x = k) ys)"
proof -
  assume "map x_key ys = map f ds"
  then have "length (filter (\<lambda>j. j = k) (map x_key ys)) = length (filter (\<lambda>j. j = k) (map f ds))" by simp
  then show ?thesis by (simp add: filter_map comp_def)
qed

lemma sweep_spec:
  assumes "sweepEscalations s = (xs, s')" and "distinct (map fst (live s))"
  shows "live s' = filter (\<lambda>d. \<not> overdue (spool_clock s) d) (live s)"
    and "map x_entry xs = map (\<lambda>d. (s_agent (snd d), s_msg (snd d))) (filter (overdue (spool_clock s)) (live s))"
    and "map x_key xs = map drop_key (filter (overdue (spool_clock s)) (live s))"
    and "x \<in> set xs \<Longrightarrow> droppedCount x = length (filter (\<lambda>y. x_key y = x_key x) xs)"
    and "distinct (notice_keys xs)" "set (notice_keys xs) = {k \<in> x_key ` set xs. notice_due s k}"
    and "spool_clock s' = spool_clock s"
    and "map_of (escAttemptByChat s') k = (if k \<in> x_key ` set xs then Some (spool_clock s) else map_of (escAttemptByChat s) k)"
proof -
  define ds where "ds = filter (overdue (spool_clock s)) (live s)"
  define cnt where "cnt = (\<lambda>key. length (filter (\<lambda>d. drop_key d = key) ds))"
  define s1 where "s1 = snd (fold (escalate_one cnt) ds ([], s))"
  have f: "fold (escalate_one cnt) ds ([], s) = (xs, s1)" and s': "s' = (if ds \<noteq> [] then maybeCompact s1 else s1)"
    using assms(1) unfolding sweepEscalations_def ds_def cnt_def s1_def drop_key_def Let_def by (auto split: prod.splits)
  have e: "map x_entry xs = map (\<lambda>d. (s_agent (snd d), s_msg (snd d))) ds" "map x_key xs = map drop_key ds"
      "map droppedCount xs = map (\<lambda>d. cnt (drop_key d)) ds" "distinct (notice_keys xs)"
      "set (notice_keys xs) = {k \<in> set (map drop_key ds). notice_due s k}" "spool_clock s1 = spool_clock s"
      "live s1 = fold (\<lambda>d. AList.delete (fst d)) ds (live s)"
      "\<forall>k. map_of (escAttemptByChat s1) k = (if k \<in> set (map drop_key ds) then Some (spool_clock s) else map_of (escAttemptByChat s) k)"
    using escalate_fold [OF f] by auto
  have keys: "set (map drop_key ds) = x_key ` set xs" using arg_cong [OF e(2), of set] by simp
  show "live s' = filter (\<lambda>d. \<not> overdue (spool_clock s) d) (live s)"
    using e(7) filter_out [OF assms(2), of "overdue (spool_clock s)"] by (simp add: s' fold_delete ds_def [symmetric])
  show "map x_entry xs = map (\<lambda>d. (s_agent (snd d), s_msg (snd d))) (filter (overdue (spool_clock s)) (live s))"
    "map x_key xs = map drop_key (filter (overdue (spool_clock s)) (live s))" using e(1,2) by (simp_all add: ds_def)
  show "droppedCount x = length (filter (\<lambda>y. x_key y = x_key x) xs)" if "x \<in> set xs"
  proof -
    obtain i where i: "i < length xs" "x = xs ! i" using \<open>x \<in> set xs\<close> by (metis in_set_conv_nth)
    have l: "length ds = length xs" using arg_cong [OF e(2), of length] by simp
    have "droppedCount x = cnt (drop_key (ds ! i))" "x_key x = drop_key (ds ! i)"
      using arg_cong [OF e(3), of "\<lambda>l. l ! i"] arg_cong [OF e(2), of "\<lambda>l. l ! i"] i l by simp_all
    then show ?thesis using map_count [OF e(2), of "x_key x"] by (simp add: cnt_def)
  qed
  show "distinct (notice_keys xs)" "set (notice_keys xs) = {k \<in> x_key ` set xs. notice_due s k}" using e(4,5) keys by simp_all
  show "spool_clock s' = spool_clock s" using e(6) by (simp add: s')
  show "map_of (escAttemptByChat s') k = (if k \<in> x_key ` set xs then Some (spool_clock s) else map_of (escAttemptByChat s) k)"
    using e(8) keys by (simp add: s')
qed

lemma entries_distinct: "list_all untorn_event es \<Longrightarrow> distinct (map fst (live (run spool_step (empty_spool t) es)))"
  using sane_run [of es t] by (simp add: sane_def both_def entries_ok_def)

text \<open>
  A sweep retracts exactly the overdue promises, each visibly. It drops the entries first spooled at least
  fifteen minutes ago and no others, hands every one of them to the gateway in order, and of those of
  one chat exactly one asks for a notice if the chat's window is closed and none if it is open; each call
  carries the number of entries dropped for its chat.
\<close>

theorem sweep_retracts_visibly:
  assumes "list_all untorn_event es" "s = run spool_step (empty_spool t) es" "sweepEscalations (s\<lparr>io := x\<rparr>) = (xs, s')"
  shows "live s' = filter (\<lambda>d. \<not> overdue (spool_clock s) d) (live s)
    \<and> map x_entry xs = map (\<lambda>d. (s_agent (snd d), s_msg (snd d))) (filter (overdue (spool_clock s)) (live s))
    \<and> (\<forall>key. length (filter (\<lambda>y. x_key y = key \<and> postNotice y) xs) = (if key \<in> x_key ` set xs \<and> notice_due s key then 1 else 0))
    \<and> list_all (\<lambda>y. droppedCount y = length (filter (\<lambda>z. x_key z = x_key y) xs)) xs"
proof -
  have d: "distinct (map fst (live (s\<lparr>io := x\<rparr>)))" using entries_distinct [OF assms(1), of t] assms(2) by simp
  note sp = sweep_spec [OF assms(3) d]
  have due: "notice_due (s\<lparr>io := x\<rparr>) key = notice_due s key" for key by (simp add: notice_due_def split: option.split)
  have "length (filter (\<lambda>y. x_key y = key \<and> postNotice y) xs) = count_list (notice_keys xs) key" for key
    by (induction xs) (auto simp: notice_keys_def)
  moreover have "distinct ks \<Longrightarrow> count_list ks key = (if key \<in> set ks then 1 else 0)" for ks and key :: string
    by (induction ks) auto
  ultimately show ?thesis using sp by (auto simp: due list_all_iff)
qed

text \<open>The notices of a run: the chat key and the time of each.\<close>

fun notices :: "spool \<Rightarrow> spool_event list \<Rightarrow> (string \<times> int) list" where
  "notices s [] = []"
| "notices s (ev # es) =
     (case ev of Sweep x \<Rightarrow> map (\<lambda>key. (key, spool_clock s)) (notice_keys (fst (sweepEscalations (s\<lparr>io := x\<rparr>)))) | _ \<Rightarrow> [])
     @ notices (spool_step ev s) es"

definition windows_past :: "spool \<Rightarrow> bool" where
  "windows_past s \<longleftrightarrow> (\<forall>k a. map_of (escAttemptByChat s) k = Some a \<longrightarrow> a \<le> spool_clock s)"

text \<open>An event never moves a notice window back.\<close>

lemma window_step:
  assumes "faithful s" "durable_event ev" "windows_past s"
  shows "windows_past (spool_step ev s)"
    and "map_of (escAttemptByChat s) k = Some a \<Longrightarrow> \<exists>b. map_of (escAttemptByChat (spool_step ev s)) k = Some b \<and> a \<le> b"
proof -
  have "(case ev of Sweep x \<Rightarrow> True | _ \<Rightarrow> escAttemptByChat (spool_step ev s) = escAttemptByChat s \<and> spool_clock s \<le> spool_clock (spool_step ev s))"
  proof (cases ev)
    case (Drop x p)
    have "escAttemptByChat (fold tombstone ids s) = escAttemptByChat s \<and> spool_clock (fold tombstone ids s) = spool_clock s" for ids s
      by (induction ids arbitrary: s) simp_all
    then show ?thesis using Drop by (simp add: dropMatching_def Let_def)
  next
    case (Restart x)
    then show ?thesis using assms(1,2) by (simp add: createInboundSpool_def hydrate_def faithful_def)
  qed (simp_all add: spool_put_def spool_ack_def Let_def split: option.split)
  moreover have "windows_past (spool_step ev s) \<and> (\<forall>k a. map_of (escAttemptByChat s) k = Some a
      \<longrightarrow> (\<exists>b. map_of (escAttemptByChat (spool_step ev s)) k = Some b \<and> a \<le> b))" if "ev = Sweep x" for x
  proof -
    obtain xs s' where sw: "sweepEscalations (s\<lparr>io := x\<rparr>) = (xs, s')" by force
    have d: "distinct (map fst (live (s\<lparr>io := x\<rparr>)))" using assms(1) by (simp add: faithful_def entries_ok_def)
    have c: "spool_clock s' = spool_clock s" and m: "map_of (escAttemptByChat s') k = (if k \<in> x_key ` set xs then Some (spool_clock s) else map_of (escAttemptByChat s) k)" for k
      using sweep_spec(7,8) [OF sw d] by simp_all
    have st: "spool_step ev s = s'" using that sw by simp
    show ?thesis unfolding st windows_past_def c m using assms(3) by (auto simp: windows_past_def)
  qed
  ultimately show "windows_past (spool_step ev s)"
    and "map_of (escAttemptByChat s) k = Some a \<Longrightarrow> \<exists>b. map_of (escAttemptByChat (spool_step ev s)) k = Some b \<and> a \<le> b"
    using assms(3) by (cases ev; force simp: windows_past_def)+
qed

definition spaced :: "string \<times> int \<Rightarrow> string \<times> int \<Rightarrow> bool" where
  "spaced p q \<longleftrightarrow> (fst p = fst q \<longrightarrow> DEFAULT_ESCALATE_NOTICE_COOLDOWN_MS \<le> snd q - snd p)"

lemma notices_spaced:
  assumes "faithful s" "list_all durable_event es" "windows_past s"
  shows "(\<forall>q \<in> set (notices s es). \<forall>a. map_of (escAttemptByChat s) (fst q) = Some a \<longrightarrow> DEFAULT_ESCALATE_NOTICE_COOLDOWN_MS \<le> snd q - a)
    \<and> sorted_wrt spaced (notices s es)"
  using assms
proof (induction es arbitrary: s)
  case (Cons ev es)
  have ev: "durable_event ev" "list_all durable_event es" using Cons.prems(2) by simp_all
  let ?s = "spool_step ev s"
  note ih = Cons.IH [OF faithful_step [OF Cons.prems(1) ev(1)] ev(2) window_step(1) [OF Cons.prems(1) ev(1) Cons.prems(3)]]
  note later_ok = ih [THEN conjunct1] and later_sorted = ih [THEN conjunct2]
  have later: "DEFAULT_ESCALATE_NOTICE_COOLDOWN_MS \<le> snd q - a"
    if "q \<in> set (notices ?s es)" "map_of (escAttemptByChat s) (fst q) = Some a" for q a
    using window_step(2) [OF Cons.prems(1) ev(1) Cons.prems(3) that(2)] later_ok that(1) by fastforce
  have now: "DEFAULT_ESCALATE_NOTICE_COOLDOWN_MS \<le> spool_clock s - a \<and> k \<in> x_key ` set (fst (sweepEscalations (s\<lparr>io := x\<rparr>)))"
    if "k \<in> set (notice_keys (fst (sweepEscalations (s\<lparr>io := x\<rparr>))))" "map_of (escAttemptByChat s) k = Some a" for x k a
  proof -
    have d: "distinct (map fst (live (s\<lparr>io := x\<rparr>)))" using Cons.prems(1) by (simp add: faithful_def entries_ok_def)
    show ?thesis using sweep_spec(6) [OF _ d, of "fst (sweepEscalations (s\<lparr>io := x\<rparr>))" "snd (sweepEscalations (s\<lparr>io := x\<rparr>))"] that
      by (simp add: notice_due_def)
  qed
  have "\<forall>q \<in> set (notices s (ev # es)). \<forall>a. map_of (escAttemptByChat s) (fst q) = Some a \<longrightarrow> DEFAULT_ESCALATE_NOTICE_COOLDOWN_MS \<le> snd q - a"
    using later now by (auto split: spool_event.splits)
  moreover have "sorted_wrt spaced (notices s (ev # es))"
  proof (cases "\<exists>x. ev = Sweep x")
    case False
    then have "notices s (ev # es) = notices ?s es" by (cases ev) auto
    then show ?thesis using later_sorted by simp
  next
    case True
    then obtain x where x: "ev = Sweep x" by blast
    obtain xs s' where sw: "sweepEscalations (s\<lparr>io := x\<rparr>) = (xs, s')" by force
    have d: "distinct (map fst (live (s\<lparr>io := x\<rparr>)))" using Cons.prems(1) by (simp add: faithful_def entries_ok_def)
    note sp = sweep_spec [OF sw d]
    have st: "?s = s'" using x sw by simp
    have "sorted_wrt spaced (map (\<lambda>key. (key, spool_clock s)) ks)" if "distinct ks" for ks
      using that by (induction ks) (auto simp: spaced_def)
    then have a: "sorted_wrt spaced (map (\<lambda>key. (key, spool_clock s)) (notice_keys xs))" using sp(5) by blast
    have "spaced (key, spool_clock s) q" if "key \<in> set (notice_keys xs)" "q \<in> set (notices ?s es)" for key q
    proof -
      have "map_of (escAttemptByChat s') key = Some (spool_clock s)" using that(1) sp(6,8) by simp
      then show ?thesis using later_ok that(2) st unfolding spaced_def by force
    qed
    then show ?thesis using a later_sorted x sw by (auto simp: sorted_wrt_append)
  qed
  ultimately show ?case by blast
qed simp_all

text \<open>
  Claim C18: give-up notices never pile up. In any run in which every append reaches the file and every restart can
  read it, two notices to the same chat are at least thirty minutes apart, restarts included.
\<close>

theorem notices_never_pile_up:
  assumes "list_all durable_event es" "i < j" "j < length (notices (empty_spool t) es)"
    and "fst (notices (empty_spool t) es ! i) = fst (notices (empty_spool t) es ! j)"
  shows "30 * 60 * 1000 \<le> snd (notices (empty_spool t) es ! j) - snd (notices (empty_spool t) es ! i)"
proof -
  have "escAttemptByChat (empty_spool t) = []"
    by (simp add: empty_spool_def createInboundSpool_def hydrate_def replay_def map_filter_def)
  then have "windows_past (empty_spool t)" by (simp add: windows_past_def)
  from notices_spaced [OF faithful_empty assms(1) this, THEN conjunct2] show ?thesis
    using assms(2-4) by (auto simp: sorted_wrt_iff_nth_less spaced_def DEFAULT_ESCALATE_NOTICE_COOLDOWN_MS_def)
qed

definition demo_two :: "spool_event list" where
  "demo_two = [Put ok_io ''coder'' (demo_inbound 1), Put ok_io ''coder'' (demo_inbound 2), Pass 900000]"

lemma demo_two_events: "list_all untorn_event demo_two" "list_all durable_event demo_two"
  by (simp_all add: demo_two_def ok_io_def untorn_def durable_def)

theorem sweep_retracts_visibly_witness:
  "live (snd (sweepEscalations ((run spool_step (empty_spool 0) demo_two)\<lparr>io := ok_io\<rparr>))) = []
   \<and> length (filter (\<lambda>y. x_key y = ''7:-'' \<and> postNotice y) (fst (sweepEscalations ((run spool_step (empty_spool 0) demo_two)\<lparr>io := ok_io\<rparr>)))) = 1"
proof -
  let ?s = "run spool_step (empty_spool 0) demo_two"
  have "filter (\<lambda>d. \<not> overdue (spool_clock ?s) d) (live ?s) = []" "notice_due ?s ''7:-''"
    "map x_key (fst (sweepEscalations (?s\<lparr>io := ok_io\<rparr>))) = [''7:-'', ''7:-'']" by code_simp+
  moreover from this(3) have "''7:-'' \<in> x_key ` set (fst (sweepEscalations (?s\<lparr>io := ok_io\<rparr>)))"
    by (metis image_set list.set_intros(1))
  ultimately show ?thesis
    using sweep_retracts_visibly [OF demo_two_events(1) refl, of ok_io 0 "fst (sweepEscalations (?s\<lparr>io := ok_io\<rparr>))"
        "snd (sweepEscalations (?s\<lparr>io := ok_io\<rparr>))"] by simp
qed

definition demo_outage :: "spool_event list" where
  "demo_outage = demo_two @ [Sweep ok_io, Put ok_io ''coder'' (demo_inbound 3), Pass 900000, Restart ok_io, Sweep ok_io,
     Put ok_io ''coder'' (demo_inbound 4), Pass 1800000, Sweep ok_io]"

theorem notices_never_pile_up_witness:
  "notices (empty_spool 0) demo_outage = [(''7:-'', 900000), (''7:-'', 3600000)]
   \<and> 30 * 60 * 1000 \<le> snd (notices (empty_spool 0) demo_outage ! 1) - snd (notices (empty_spool 0) demo_outage ! 0)"
proof -
  have n: "notices (empty_spool 0) demo_outage = [(''7:-'', 900000), (''7:-'', 3600000)]" by code_simp
  have "list_all durable_event demo_outage" using demo_two_events(2) by (simp add: demo_outage_def ok_io_def durable_def)
  from notices_never_pile_up [OF this, of 0 1 0] show ?thesis by (simp add: n)
qed

section \<open>Behaviours the comments exclude\<close>

text \<open>
  An append that is cut short (a full disk, a crash) leaves a line without its newline, and the next append is
  glued to it: a message whose own append and fsync succeeded is gone after a restart.
\<close>

lemma torn_line_swallows_next:
  "map fst (live (run spool_step (empty_spool 0)
     [Put (ok_io\<lparr>io_appends := [Torn]\<rparr>) ''coder'' (demo_inbound 1), Put (ok_io\<lparr>io_size := None\<rparr>) ''coder'' (demo_inbound 2)])) = [''m:7:1'', ''m:7:2'']"
  "map fst (live (run spool_step (empty_spool 0)
     [Put (ok_io\<lparr>io_appends := [Torn], io_size := None\<rparr>) ''coder'' (demo_inbound 1), Put (ok_io\<lparr>io_size := None\<rparr>) ''coder'' (demo_inbound 2), Restart ok_io])) = []"
  by code_simp+

text \<open>
  An entry past its \<open>expiresAt\<close> is never delivered again, but compaction keeps it and the sweep escalates it: the
  user is asked to resend a progress report of a sub-agent.
\<close>

definition demo_progress :: InboundMessage where
  "demo_progress = (demo_inbound 0)\<lparr>meta := [(''source'', ''subagent_progress''), (''subagent_jsonl_id'', ''a1''), (''bucket_idx'', ''1''), (''expiresAt'', ''5'')]\<rparr>"

lemma expired_entry_asks_for_resend:
  "liveEntries (run spool_step (empty_spool 0) [Put ok_io ''coder'' demo_progress, Pass 900000]) = []"
  "fst (replay (compacted (live (run spool_step (empty_spool 0) [Put ok_io ''coder'' demo_progress, Pass 900000]), []))) \<noteq> []"
  "map postNotice (fst (sweepEscalations (run spool_step (empty_spool 0) [Put ok_io ''coder'' demo_progress, Pass 900000]))) = [True]"
  by code_simp+

text \<open>The notice key reads a \<open>threadId\<close> from the metadata, not the thread of the message: topics of a chat share one window.\<close>

lemma topics_share_notice_window:
  "map_of (meta m) ''threadId'' = None \<Longrightarrow> escChatKey (m\<lparr>threadId := Some 4\<rparr>) = escChatKey (m\<lparr>threadId := Some 5\<rparr>)"
  by (simp add: escChatKey_def meta_text_def)

end
