(* ===== verification/Delivery_Confirm.thy ===== *)
theory Delivery_Confirm
  imports Inbound_Buffer
begin

text \<open>
  \<open>telegram-plugin/gateway/inbound-delivery-confirm.ts\<close>: the queue of delivered messages the agent has not confirmed.
  A delivery is acknowledged by the start of a turn that carries its message id, and swept for re-delivery
  until then. The queue is the JavaScript map \<open>pending\<close>; a sweep restamps the entries it returns.
\<close>

section \<open>Message ids in an enqueue envelope\<close>

definition ATTRIBUTE :: string where
  "ATTRIBUTE = ''message_id=\"''"

text \<open>\<open>message_id="([^"]+)"\<close> at the start of a text: the captured value and what follows the match.\<close>

definition attribute_value :: "string \<Rightarrow> (string \<times> string) option" where
  "attribute_value s =
     (if startsWith s ATTRIBUTE then
        (let t = drop (length ATTRIBUTE) s; v = takeWhile (\<lambda>c. c \<noteq> CHR ''\"'') t; rest = dropWhile (\<lambda>c. c \<noteq> CHR ''\"'') t
         in if v \<noteq> [] \<and> rest \<noteq> [] then Some (v, tl rest) else None)
      else None)"

definition attribute_boundary :: "char \<Rightarrow> bool" where
  "attribute_boundary c \<longleftrightarrow> js_space c \<or> c = CHR ''\"'' \<or> c = CHR 0x27"

lemma attribute_value_split:
  assumes "attribute_value s = Some (v, rest)"
  shows "s = ATTRIBUTE @ v @ CHR ''\"'' # rest" "v \<noteq> []" "CHR ''\"'' \<notin> set v"
proof -
  let ?t = "drop (length ATTRIBUTE) s"
  have s: "s = ATTRIBUTE @ ?t" using assms by (auto simp: attribute_value_def startsWith_iff split: if_splits)
  have v: "v = takeWhile (\<lambda>c. c \<noteq> CHR ''\"'') ?t" "dropWhile (\<lambda>c. c \<noteq> CHR ''\"'') ?t \<noteq> []" "rest = tl (dropWhile (\<lambda>c. c \<noteq> CHR ''\"'') ?t)"
    "v \<noteq> []"
    using assms by (auto simp: attribute_value_def Let_def split: if_splits)
  then have "dropWhile (\<lambda>c. c \<noteq> CHR ''\"'') ?t = CHR ''\"'' # rest"
    using hd_dropWhile [OF v(2)] by (cases "dropWhile (\<lambda>c. c \<noteq> CHR ''\"'') ?t") auto
  then have "?t = v @ CHR ''\"'' # rest" unfolding v(1) by (metis takeWhile_dropWhile_id)
  then show "s = ATTRIBUTE @ v @ CHR ''\"'' # rest" using s by metis
  show "v \<noteq> []" by (rule v(4))
  show "CHR ''\"'' \<notin> set v" unfolding v(1) by (auto dest: set_takeWhileD)
qed

lemma attribute_value_shorter: "attribute_value s = Some (v, rest) \<Longrightarrow> length rest < length s"
  using attribute_value_split(1) by fastforce

text \<open>The matches of the global expression, from left to right; \<open>^\<close> matches at the start of the content only.\<close>

function scan_ids :: "bool \<Rightarrow> string \<Rightarrow> string list" where
  "scan_ids start [] = []"
| "scan_ids start (c # cs) =
     (case (if start then attribute_value (c # cs) else None) of
        Some (v, rest) \<Rightarrow> v # scan_ids False rest
      | None \<Rightarrow> (case (if attribute_boundary c then attribute_value cs else None) of
          Some (v, rest) \<Rightarrow> v # scan_ids False rest
        | None \<Rightarrow> scan_ids False cs))"
  by pat_completeness auto

termination
  by (relation "measure (\<lambda>(b, s). length s)")
     (auto split: if_splits dest!: attribute_value_shorter)

definition extractEnqueueMessageIds :: "string \<Rightarrow> string list" where
  "extractEnqueueMessageIds content = scan_ids True content"

text \<open>The attribute \<open>message_id="v"\<close> stands in the content, after a boundary.\<close>

definition carries_id :: "string \<Rightarrow> string \<Rightarrow> bool" where
  "carries_id content v \<longleftrightarrow> v \<noteq> [] \<and> CHR ''\"'' \<notin> set v \<and>
     (\<exists>pre post. content = pre @ ATTRIBUTE @ v @ CHR ''\"'' # post \<and> (pre = [] \<or> attribute_boundary (last pre)))"

lemma carries_after: "p \<noteq> [] \<Longrightarrow> v \<noteq> [] \<Longrightarrow> CHR ''\"'' \<notin> set v \<Longrightarrow> attribute_boundary (last p)
    \<Longrightarrow> carries_id (p @ ATTRIBUTE @ v @ CHR ''\"'' # post) v"
  unfolding carries_id_def by blast

lemma scan_ids_sound:
  "v \<in> set (scan_ids start s) \<Longrightarrow> start \<longrightarrow> p = [] \<Longrightarrow> carries_id (p @ s) v"
proof (induction start s arbitrary: p rule: scan_ids.induct)
  case (2 start c cs)
  consider (here) w rest where "start" "attribute_value (c # cs) = Some (w, rest)"
    | (after) w rest where "(if start then attribute_value (c # cs) else None) = None" "attribute_boundary c" "attribute_value cs = Some (w, rest)"
    | (skip) "(if start then attribute_value (c # cs) else None) = None" "(if attribute_boundary c then attribute_value cs else None) = None"
    by (cases "if start then attribute_value (c # cs) else None"; cases "if attribute_boundary c then attribute_value cs else None")
       (auto split: if_splits)
  then show ?case
  proof cases
    case here
    note sp = attribute_value_split [OF here(2)]
    have "v = w \<or> v \<in> set (scan_ids False rest)" using 2(4) here by auto
    then show ?thesis
    proof
      assume "v = w"
      moreover have "p = []" using 2(5) here(1) by simp
      ultimately show ?thesis using sp by (auto simp: carries_id_def)
    next
      assume v: "v \<in> set (scan_ids False rest)"
      have "carries_id ((p @ ATTRIBUTE @ w @ ''\"'') @ rest) v"
        by (rule "2.IH"(3)) (use here v in simp_all)
      then show ?thesis by (simp add: sp(1))
    qed
  next
    case after
    note sp = attribute_value_split [OF after(3)]
    have "v = w \<or> v \<in> set (scan_ids False rest)" using 2(4) after by auto
    then show ?thesis
    proof
      assume "v = w"
      then show ?thesis using sp after(2) carries_after [of "p @ [c]" w rest] by simp
    next
      assume v: "v \<in> set (scan_ids False rest)"
      have "carries_id ((p @ c # ATTRIBUTE @ w @ ''\"'') @ rest) v"
        by (rule "2.IH"(2)) (use after v in simp_all)
      then show ?thesis by (simp add: sp(1))
    qed
  next
    case skip
    then have "v \<in> set (scan_ids False cs)" using 2(4) by auto
    then have "carries_id ((p @ [c]) @ cs) v" using "2.IH"(1) [where p = "p @ [c]"] skip by auto
    then show ?thesis by simp
  qed
qed simp

lemma extract_sound: "v \<in> set (extractEnqueueMessageIds content) \<Longrightarrow> carries_id content v"
  using scan_ids_sound [of v True content "[]"] by (simp add: extractEnqueueMessageIds_def)

section \<open>The queue\<close>

record PendingDelivery =
  p_inbound :: InboundMessage
  p_messageId :: "string option"
  lastAttemptAt :: int

type_synonym delivery_queue = "(string \<times> PendingDelivery) list"

definition createDeliveryQueue :: delivery_queue where
  "createDeliveryQueue = []"

definition trackDelivery :: "string \<Rightarrow> InboundMessage \<Rightarrow> int \<Rightarrow> string option \<Rightarrow> delivery_queue \<Rightarrow> delivery_queue" where
  "trackDelivery key inbound now mid q = AList.update key \<lparr>p_inbound = inbound, p_messageId = mid, lastAttemptAt = now\<rparr> q"

definition ack_matches :: "string option \<Rightarrow> string option \<Rightarrow> PendingDelivery \<Rightarrow> bool" where
  "ack_matches enqueueMessageId enqueueContent entry =
     (case p_messageId entry of None \<Rightarrow> True
      | Some tracked \<Rightarrow> enqueueMessageId = Some tracked
          \<or> (case enqueueContent of None \<Rightarrow> False | Some content \<Rightarrow> tracked \<in> set (extractEnqueueMessageIds content)))"

definition ackDelivery :: "string \<Rightarrow> string option \<Rightarrow> string option \<Rightarrow> delivery_queue \<Rightarrow> bool \<times> delivery_queue" where
  "ackDelivery key enqueueMessageId enqueueContent q =
     (case map_of q key of None \<Rightarrow> (False, q)
      | Some entry \<Rightarrow> if ack_matches enqueueMessageId enqueueContent entry then (True, AList.delete key q) else (False, q))"

definition stranded :: "int \<Rightarrow> int \<Rightarrow> PendingDelivery \<Rightarrow> bool" where
  "stranded now timeoutMs entry \<longleftrightarrow> timeoutMs \<le> now - lastAttemptAt entry"

text \<open>The returned entries are the restamped objects of the map.\<close>

definition sweep :: "int \<Rightarrow> int \<Rightarrow> delivery_queue \<Rightarrow> (string \<times> PendingDelivery) list \<times> delivery_queue" where
  "sweep now timeoutMs q =
     (let restamp = (\<lambda>(key, e). (key, e\<lparr>lastAttemptAt := now\<rparr>))
      in (map restamp (filter (\<lambda>(key, e). stranded now timeoutMs e) q),
          map (\<lambda>(key, e). if stranded now timeoutMs e then restamp (key, e) else (key, e)) q))"

definition isRedeliverySuspended :: "string \<Rightarrow> string list \<Rightarrow> string list \<Rightarrow> bool" where
  "isRedeliverySuspended key keys chats \<longleftrightarrow>
     key \<in> set keys \<or> (case indexOf_char key (CHR '':'') of None \<Rightarrow> key | Some idx \<Rightarrow> take idx key) \<in> set chats"

definition forgetDelivery :: "string \<Rightarrow> delivery_queue \<Rightarrow> delivery_queue" where
  "forgetDelivery key q = AList.delete key q"

definition shouldTrackDelivery :: "bool \<Rightarrow> bool \<Rightarrow> bool \<Rightarrow> string option \<Rightarrow> bool" where
  "shouldTrackDelivery isSteering isInterrupt hasSource effectiveText =
     (if isSteering \<or> isInterrupt then False else if hasSource then False
      else (case effectiveText of None \<Rightarrow> True | Some txt \<Rightarrow> js_trim txt \<noteq> []))"

definition isTrackableResumeSynthetic :: "(string \<times> string) list \<Rightarrow> bool" where
  "isTrackableResumeSynthetic mt \<longleftrightarrow>
     map_of mt ''source'' = Some ''resume_interrupted'' \<and> map_of mt ''message_id'' \<noteq> None \<and> map_of mt ''message_id'' \<noteq> Some []"

datatype confirm_event =
    Track string InboundMessage int "string option"
  | Enqueue string "string option" "string option"
  | SweepAt int int
  | Forget string

fun confirm_step :: "confirm_event \<Rightarrow> delivery_queue \<Rightarrow> delivery_queue" where
  "confirm_step (Track key inbound now mid) q = trackDelivery key inbound now mid q"
| "confirm_step (Enqueue key mid content) q = snd (ackDelivery key mid content q)"
| "confirm_step (SweepAt now timeoutMs) q = snd (sweep now timeoutMs q)"
| "confirm_step (Forget key) q = forgetDelivery key q"

text \<open>The events that end the wait for a message with the id \<open>v\<close> under its key.\<close>

fun releases :: "string \<Rightarrow> string \<Rightarrow> confirm_event \<Rightarrow> bool" where
  "releases key v (Track k inbound now mid) = (k = key)"
| "releases key v (Enqueue k mid content) = (k = key \<and> (mid = Some v \<or> (\<exists>c. content = Some c \<and> carries_id c v)))"
| "releases key v (SweepAt now timeoutMs) = False"
| "releases key v (Forget k) = (k = key)"

text \<open>The latest attempt a message has had, for the events of a run.\<close>

fun latest_attempt :: "int \<Rightarrow> confirm_event list \<Rightarrow> int" where
  "latest_attempt t [] = t"
| "latest_attempt t (SweepAt now timeoutMs # es) = latest_attempt (if timeoutMs \<le> now - t then now else t) es"
| "latest_attempt t (e # es) = latest_attempt t es"

lemma map_of_sweep:
  "map_of (snd (sweep now timeoutMs q)) key = map_option (\<lambda>e. if stranded now timeoutMs e then e\<lparr>lastAttemptAt := now\<rparr> else e) (map_of q key)"
  by (induction q) (auto simp: sweep_def Let_def)

lemma waiting_step:
  assumes "map_of q key = Some \<lparr>p_inbound = m, p_messageId = Some v, lastAttemptAt = t\<rparr>" "\<not> releases key v e"
  shows "map_of (confirm_step e q) key = Some \<lparr>p_inbound = m, p_messageId = Some v, lastAttemptAt = latest_attempt t [e]\<rparr>"
proof (cases e)
  case (Enqueue k mid content)
  then show ?thesis
    using assms extract_sound
    by (auto simp: ackDelivery_def ack_matches_def delete_conv' split: option.split if_splits)
qed (use assms in \<open>auto simp: trackDelivery_def update_conv' map_of_sweep stranded_def forgetDelivery_def delete_conv'\<close>)

lemma latest_attempt_Cons: "latest_attempt t (e # es) = latest_attempt (latest_attempt t [e]) es"
  by (cases e) simp_all

text \<open>
  A delivered message is re-sent until its own turn starts. After a message with a known id is tracked,
  and whatever turns of other messages start, sweeps run and other chats do, it stays in the queue, with
  its text and id, until a turn starts under its key whose parsed id is its own or whose content
  carries exactly its \<open>message_id\<close> attribute (or it is superseded or handed back), and every sweep at least
  the timeout after its latest attempt returns it for re-delivery.
\<close>

theorem redelivered_until_confirmed:
  assumes "list_all (\<lambda>e. \<not> releases key v e) es" "q = run confirm_step (trackDelivery key m t (Some v) q0) es"
  shows "map_of q key = Some \<lparr>p_inbound = m, p_messageId = Some v, lastAttemptAt = latest_attempt t es\<rparr>
    \<and> (timeoutMs \<le> now - latest_attempt t es \<longrightarrow>
        (key, \<lparr>p_inbound = m, p_messageId = Some v, lastAttemptAt = now\<rparr>) \<in> set (fst (sweep now timeoutMs q)))"
proof -
  have "list_all (\<lambda>e. \<not> releases key v e) es \<Longrightarrow> map_of q1 key = Some \<lparr>p_inbound = m, p_messageId = Some v, lastAttemptAt = s\<rparr> \<Longrightarrow>
      map_of (run confirm_step q1 es) key = Some \<lparr>p_inbound = m, p_messageId = Some v, lastAttemptAt = latest_attempt s es\<rparr>" for q1 s
  proof (induction es arbitrary: q1 s)
    case (Cons e es)
    have "map_of (confirm_step e q1) key = Some \<lparr>p_inbound = m, p_messageId = Some v, lastAttemptAt = latest_attempt s [e]\<rparr>"
      using waiting_step [OF Cons.prems(2)] Cons.prems(1) by simp
    then show ?case using Cons.IH [of "confirm_step e q1"] Cons.prems(1) latest_attempt_Cons [of s e es] by simp
  qed simp
  then have w: "map_of q key = Some \<lparr>p_inbound = m, p_messageId = Some v, lastAttemptAt = latest_attempt t es\<rparr>"
    using assms by (simp add: trackDelivery_def update_conv')
  moreover have "(key, \<lparr>p_inbound = m, p_messageId = Some v, lastAttemptAt = now\<rparr>) \<in> set (fst (sweep now timeoutMs q))"
    if "timeoutMs \<le> now - latest_attempt t es"
    using map_of_SomeD [OF w] that by (force simp: sweep_def Let_def stranded_def image_iff)
  ultimately show ?thesis by blast
qed

definition demo_message :: InboundMessage where
  "demo_message = \<lparr>chatId = ''7'', threadId = None, messageId = 5, user = ''u'', userId = 1, ts = 0, msg_text = ''hi'',
     imagePath = None, attachment = None, meta = []\<rparr>"

text \<open>A scheduled turn whose envelope mentions the id only as a reply target does not confirm the message.\<close>

theorem redelivered_until_confirmed_witness:
  "(''7:0'', \<lparr>p_inbound = demo_message, p_messageId = Some ''5'', lastAttemptAt = 900\<rparr>) \<in> set (fst (sweep 900 300
     (run confirm_step (trackDelivery ''7:0'' demo_message 0 (Some ''5'') createDeliveryQueue)
        [Enqueue ''7:0'' None None, Enqueue ''8:0'' (Some ''5'') None, SweepAt 400 300])))"
proof -
  have "list_all (\<lambda>e. \<not> releases ''7:0'' ''5'' e) [Enqueue ''7:0'' None None, Enqueue ''8:0'' (Some ''5'') None, SweepAt 400 300]" by simp
  from redelivered_until_confirmed [OF this refl, of demo_message 0 createDeliveryQueue 300 900] show ?thesis by simp
qed

lemma demo_ids:
  "extractEnqueueMessageIds ''<channel message_id=\"5\" reply_to_message_id=\"9\"> <channel message_id=\"6\">'' = [''5'', ''6'']"
  by code_simp

end
