(* ===== verification/Flood_Breaker.thy ===== *)
theory Flood_Breaker
  imports Prelude
begin

text \<open>
  \<open>telegram-plugin/flood-circuit-breaker.ts\<close>: the persisted flood-wait marker of a bot and the scoped flood windows of
  the send gate. A file is what reading it gives: absent, unreadable with an error code, junk, or the fields
  found in its JSON (\<open>None\<close> for a field that is missing or of another type). Log lines are counted in \<open>warnings\<close>.
\<close>

section \<open>The flood-wait marker\<close>

record FloodWaitState =
  untilTs :: int
  retryAfterSec :: int
  recordedTs :: int

datatype marker_file = MAbsent | MUnreadable string | MJunk string | MFields "int option" "int option" "int option"

datatype FloodReadResult = RdOk FloodWaitState | RdAbsent | RdCorrupt string | RdUnreadable string

definition computeFloodWait :: "FloodWaitState option \<Rightarrow> int \<Rightarrow> int \<Rightarrow> FloodWaitState" where
  "computeFloodWait prior retry now =
     (let candidate = now + max 0 retry * 1000
      in \<lparr>untilTs = (case prior of None \<Rightarrow> candidate | Some p \<Rightarrow> if candidate < untilTs p then untilTs p else candidate),
          retryAfterSec = retry, recordedTs = now\<rparr>)"

definition floodWaitRemainingMs :: "FloodWaitState option \<Rightarrow> int \<Rightarrow> int" where
  "floodWaitRemainingMs st now = (case st of None \<Rightarrow> 0 | Some s \<Rightarrow> max 0 (untilTs s - now))"

definition isFloodWaitActive :: "FloodWaitState option \<Rightarrow> int \<Rightarrow> bool" where
  "isFloodWaitActive st now \<longleftrightarrow> 0 < floodWaitRemainingMs st now"

definition readFloodStateResult :: "marker_file \<Rightarrow> FloodReadResult" where
  "readFloodStateResult f =
     (case f of MAbsent \<Rightarrow> RdAbsent
      | MUnreadable err \<Rightarrow> RdUnreadable err
      | MJunk err \<Rightarrow> RdCorrupt err
      | MFields u r t \<Rightarrow> (case u of None \<Rightarrow> RdCorrupt ''untilTs is not a finite number''
          | Some until \<Rightarrow> RdOk \<lparr>untilTs = until, retryAfterSec = (case r of Some x \<Rightarrow> x | None \<Rightarrow> 0),
              recordedTs = (case t of Some x \<Rightarrow> x | None \<Rightarrow> 0)\<rparr>))"

definition readFloodState :: "marker_file \<Rightarrow> FloodWaitState option" where
  "readFloodState f = (case readFloodStateResult f of RdOk s \<Rightarrow> Some s | _ \<Rightarrow> None)"

text \<open>
  What the file system answers to \<open>writeFloodState\<close>, which writes in place. The file is truncated when it is
  opened, so a write that fails after that, or a crash inside it, leaves a strict prefix of the JSON text
  (\<open>CutShort\<close>); a write that fails to open the file leaves it as it was (\<open>OpenFailed\<close>). When permission
  is refused the file is unlinked and written anew: the unlink may be refused, and after it the new file may
  fail to be created or be cut short.
\<close>

datatype write_outcome =
    Written | OpenFailed | CutShort string | Recreated | UnlinkRefused | RecreateFailed | RecreateCutShort string

definition writeFloodState :: "write_outcome \<Rightarrow> FloodWaitState \<Rightarrow> marker_file \<Rightarrow> marker_file" where
  "writeFloodState out s f =
     (case out of Written \<Rightarrow> MFields (Some (untilTs s)) (Some (retryAfterSec s)) (Some (recordedTs s))
      | OpenFailed \<Rightarrow> f
      | CutShort err \<Rightarrow> MJunk err
      | Recreated \<Rightarrow> MFields (Some (untilTs s)) (Some (retryAfterSec s)) (Some (recordedTs s))
      | UnlinkRefused \<Rightarrow> f
      | RecreateFailed \<Rightarrow> MAbsent
      | RecreateCutShort err \<Rightarrow> MJunk err)"

text \<open>The outcomes after which the marker is whole: written, or not touched.\<close>

fun marker_whole :: "write_outcome \<Rightarrow> bool" where
  "marker_whole (CutShort err) = False"
| "marker_whole RecreateFailed = False"
| "marker_whole (RecreateCutShort err) = False"
| "marker_whole out = True"

definition FLOOD_BLIND_SUPPRESS_MS :: int where "FLOOD_BLIND_SUPPRESS_MS = 60000"
definition BLIND_LOG_INTERVAL_MS :: int where "BLIND_LOG_INTERVAL_MS = 60000"

datatype NonEssentialSuppression = Proceed | SuppressFlood int | SuppressBlind string

definition nonEssentialSendSuppression :: "marker_file \<Rightarrow> int \<Rightarrow> NonEssentialSuppression" where
  "nonEssentialSendSuppression f now =
     (case readFloodStateResult f of RdUnreadable err \<Rightarrow> SuppressBlind err
      | res \<Rightarrow> (let remainingMs = floodWaitRemainingMs (case res of RdOk s \<Rightarrow> Some s | _ \<Rightarrow> None) now
                in if 0 < remainingMs then SuppressFlood remainingMs else Proceed))"

section \<open>The scoped windows\<close>

record FloodWindowRecord =
  scopeKey :: string
  w_untilTs :: int
  retryAfterSrc :: string
  observedAt :: int
  alertedAt :: "int option"

record raw_window =
  raw_scope :: "string option"
  raw_until :: "int option"
  raw_src :: "string option"
  raw_observed :: "int option"
  raw_alerted :: "int option"

datatype windows_file = WAbsent | WUnreadable string | WBadJson | WNotArray | WRaw "raw_window list"

definition FLOOD_WINDOWS_CORRUPT_SUPPRESS_MS :: int where "FLOOD_WINDOWS_CORRUPT_SUPPRESS_MS = 5 * 60000"

definition failSafe :: "string \<Rightarrow> int \<Rightarrow> FloodWindowRecord list" where
  "failSafe why now = [\<lparr>scopeKey = ''global'', w_untilTs = now + FLOOD_WINDOWS_CORRUPT_SUPPRESS_MS,
     retryAfterSrc = ''failsafe:'' @ why, observedAt = now, alertedAt = None\<rparr>]"

definition read_window :: "int \<Rightarrow> raw_window \<Rightarrow> FloodWindowRecord option" where
  "read_window now r = (case (raw_scope r, raw_until r) of
     (Some scope, Some until) \<Rightarrow> if until \<le> now then None
       else Some \<lparr>scopeKey = scope, w_untilTs = until, retryAfterSrc = (case raw_src r of Some s \<Rightarrow> s | None \<Rightarrow> ''unknown''),
         observedAt = (case raw_observed r of Some t \<Rightarrow> t | None \<Rightarrow> now), alertedAt = raw_alerted r\<rparr>
   | _ \<Rightarrow> None)"

definition readFloodWindows :: "windows_file \<Rightarrow> int \<Rightarrow> FloodWindowRecord list" where
  "readFloodWindows f now =
     (case f of WAbsent \<Rightarrow> []
      | WUnreadable code \<Rightarrow> failSafe (''unreadable ('' @ code @ '')'') now
      | WBadJson \<Rightarrow> failSafe ''corrupt (invalid JSON)'' now
      | WNotArray \<Rightarrow> failSafe ''corrupt (not an array)'' now
      | WRaw rs \<Rightarrow> List.map_filter (read_window now) rs)"

definition raw_of :: "FloodWindowRecord \<Rightarrow> raw_window" where
  "raw_of w = \<lparr>raw_scope = Some (scopeKey w), raw_until = Some (w_untilTs w), raw_src = Some (retryAfterSrc w),
     raw_observed = Some (observedAt w), raw_alerted = alertedAt w\<rparr>"

definition merge_window :: "FloodWindowRecord \<Rightarrow> FloodWindowRecord option \<Rightarrow> FloodWindowRecord" where
  "merge_window record prior = record\<lparr>
     w_untilTs := (case prior of None \<Rightarrow> w_untilTs record | Some p \<Rightarrow> if w_untilTs record < w_untilTs p then w_untilTs p else w_untilTs record),
     alertedAt := (case alertedAt record of Some a \<Rightarrow> Some a | None \<Rightarrow> (case prior of None \<Rightarrow> None | Some p \<Rightarrow> alertedAt p))\<rparr>"

text \<open>\<open>new Map()\<close> filled in order: a later record of a scope replaces an earlier one.\<close>

definition by_scope :: "FloodWindowRecord list \<Rightarrow> (string \<times> FloodWindowRecord) list" where
  "by_scope ws = fold (\<lambda>w. AList.update (scopeKey w) w) ws []"

text \<open>The write of the temporary file and its rename either both happen or leave the file as it was.\<close>

definition writeFloodWindow :: "bool \<Rightarrow> FloodWindowRecord \<Rightarrow> int \<Rightarrow> windows_file \<Rightarrow> windows_file" where
  "writeFloodWindow replaced record now f =
     (let byScope = by_scope (readFloodWindows f now);
          byScope' = (if now < w_untilTs record
            then AList.update (scopeKey record) (merge_window record (map_of byScope (scopeKey record))) byScope else byScope)
      in if replaced then WRaw (map (raw_of \<circ> snd) byScope') else f)"

definition markFloodWindowAlerted :: "bool \<Rightarrow> string \<Rightarrow> int \<Rightarrow> int \<Rightarrow> windows_file \<Rightarrow> windows_file" where
  "markFloodWindowAlerted replaced scope at now f =
     (case find (\<lambda>w. scopeKey w = scope) (readFloodWindows f now) of
        None \<Rightarrow> f
      | Some w \<Rightarrow> writeFloodWindow replaced (w\<lparr>alertedAt := Some at\<rparr>) now f)"

definition makeFloodWindowRecorder :: "bool \<Rightarrow> string \<Rightarrow> int \<Rightarrow> string \<Rightarrow> int \<Rightarrow> windows_file \<Rightarrow> windows_file" where
  "makeFloodWindowRecorder replaced scope until src now f =
     writeFloodWindow replaced \<lparr>scopeKey = scope, w_untilTs = until, retryAfterSrc = src, observedAt = now, alertedAt = None\<rparr> now f"

definition loadInitialFloodWindows :: "marker_file \<Rightarrow> windows_file \<Rightarrow> int \<Rightarrow> (string \<times> int) list" where
  "loadInitialFloodWindows m f now =
     (case readFloodState m of None \<Rightarrow> [] | Some g \<Rightarrow> if now < untilTs g then [(''global'', untilTs g)] else [])
     @ map (\<lambda>w. (scopeKey w, w_untilTs w)) (readFloodWindows f now)"

section \<open>The breaker as a system\<close>

record breaker =
  marker :: marker_file
  windows :: windows_file
  now_ms :: int
  blindLoggedAt :: "int option"
  warnings :: nat
  ledger429 :: "(int \<times> int) list"

text \<open>\<open>makeFloodWaitRecorder\<close>: the window and a line of the pressure ledger.\<close>

definition recordFloodWait :: "write_outcome \<Rightarrow> int \<Rightarrow> breaker \<Rightarrow> breaker" where
  "recordFloodWait out retry b =
     b\<lparr>marker := writeFloodState out (computeFloodWait (readFloodState (marker b)) retry (now_ms b)) (marker b),
       ledger429 := ledger429 b @ [(now_ms b, retry)]\<rparr>"

definition warnBlind :: "breaker \<Rightarrow> breaker" where
  "warnBlind b = (if (case blindLoggedAt b of None \<Rightarrow> False | Some lastAt \<Rightarrow> now_ms b - lastAt < BLIND_LOG_INTERVAL_MS) then b
     else b\<lparr>blindLoggedAt := Some (now_ms b), warnings := Suc (warnings b)\<rparr>)"

text \<open>\<open>makeFloodWaitProbe\<close>\<close>

definition floodWaitProbe :: "breaker \<Rightarrow> int \<times> breaker" where
  "floodWaitProbe b = (case readFloodStateResult (marker b) of
     RdUnreadable err \<Rightarrow> (0, warnBlind b)
   | RdOk s \<Rightarrow> (floodWaitRemainingMs (Some s) (now_ms b), b)
   | _ \<Rightarrow> (0, b))"

definition suppressNonEssentialSendMs :: "breaker \<Rightarrow> int \<times> breaker" where
  "suppressNonEssentialSendMs b = (case nonEssentialSendSuppression (marker b) (now_ms b) of
     Proceed \<Rightarrow> (0, b) | SuppressBlind err \<Rightarrow> (FLOOD_BLIND_SUPPRESS_MS, warnBlind b) | SuppressFlood ms \<Rightarrow> (ms, b))"

datatype breaker_event =
    Flood429 write_outcome int
  | WindowOpen bool string int string
  | Alerted bool string int
  | Probe
  | CosmeticProbe
  | Elapse nat
  | Reboot

fun breaker_step :: "breaker_event \<Rightarrow> breaker \<Rightarrow> breaker" where
  "breaker_step (Flood429 out retry) b = recordFloodWait out retry b"
| "breaker_step (WindowOpen replaced scope until src) b = b\<lparr>windows := makeFloodWindowRecorder replaced scope until src (now_ms b) (windows b)\<rparr>"
| "breaker_step (Alerted replaced scope at) b = b\<lparr>windows := markFloodWindowAlerted replaced scope at (now_ms b) (windows b)\<rparr>"
| "breaker_step Probe b = snd (floodWaitProbe b)"
| "breaker_step CosmeticProbe b = snd (suppressNonEssentialSendMs b)"
| "breaker_step (Elapse d) b = b\<lparr>now_ms := now_ms b + int d\<rparr>"
| "breaker_step Reboot b = b\<lparr>blindLoggedAt := None\<rparr>"

section \<open>Windows only grow\<close>

text \<open>The window of a scope as the next reader sees it: the last record of the scope.\<close>

definition window_of :: "windows_file \<Rightarrow> int \<Rightarrow> string \<Rightarrow> FloodWindowRecord option" where
  "window_of f now scope = map_of (by_scope (readFloodWindows f now)) scope"

lemma find_two: "find p (xs @ ys) = (case find p xs of Some r \<Rightarrow> Some r | None \<Rightarrow> find p ys)"
  by (induction xs) auto

lemma map_of_by_scope: "map_of (by_scope ws) scope = find (\<lambda>w. scopeKey w = scope) (rev ws)"
proof -
  have "map_of (fold (\<lambda>w. AList.update (scopeKey w) w) ws l) scope
      = (case find (\<lambda>w. scopeKey w = scope) (rev ws) of None \<Rightarrow> map_of l scope | Some w \<Rightarrow> Some w)" for l
  proof (induction ws arbitrary: l rule: rev_induct)
    case (snoc w ws)
    then show ?case by (simp add: update_conv')
  qed simp
  then show ?thesis by (simp add: by_scope_def split: option.split)
qed

lemma by_scope_keys: "distinct (map fst (by_scope ws))" "(k, w) \<in> set (by_scope ws) \<Longrightarrow> scopeKey w = k \<and> w \<in> set ws"
proof -
  have "distinct (map fst l) \<Longrightarrow> distinct (map fst (fold (\<lambda>w. AList.update (scopeKey w) w) ws l))" for l
    by (induction ws arbitrary: l) (simp_all add: distinct_update)
  then show "distinct (map fst (by_scope ws))" by (simp add: by_scope_def)
  have "(k, w) \<in> set (fold (\<lambda>w. AList.update (scopeKey w) w) ws l) \<Longrightarrow> scopeKey w = k \<and> w \<in> set ws \<or> (k, w) \<in> set l" for l
    by (induction ws arbitrary: l) (auto dest: AList_update_memD)
  from this [of "[]"] show "(k, w) \<in> set (by_scope ws) \<Longrightarrow> scopeKey w = k \<and> w \<in> set ws" by (simp add: by_scope_def)
qed

lemma read_raw_of: "read_window now (raw_of w) = (if w_untilTs w \<le> now then None else Some w)"
  by (cases w) (simp add: read_window_def raw_of_def)

text \<open>What a file holds after a write, seen at any later time.\<close>

lemma window_of_written:
  assumes "distinct (map fst l)" "\<forall>(k, w) \<in> set l. scopeKey w = k"
  shows "window_of (WRaw (map (raw_of \<circ> snd) l)) now scope
    = (case map_of l scope of None \<Rightarrow> None | Some w \<Rightarrow> if w_untilTs w \<le> now then None else Some w)"
proof -
  have r: "readFloodWindows (WRaw (map (raw_of \<circ> snd) l)) now = filter (\<lambda>w. now < w_untilTs w) (map snd l)"
    by (induction l) (auto simp: readFloodWindows_def map_filter_def read_raw_of)
  have "find (\<lambda>w. scopeKey w = scope) (rev (filter (\<lambda>w. now < w_untilTs w) (map snd l)))
      = (case map_of l scope of None \<Rightarrow> None | Some w \<Rightarrow> if w_untilTs w \<le> now then None else Some w)"
    using assms
  proof (induction l)
    case (Cons x l)
    obtain k w where x: "x = (k, w)" by (cases x)
    have k: "scopeKey w = k" using Cons.prems(2) x by simp
    show ?case
    proof (cases "k = scope")
      case True
      then have "find (\<lambda>w. scopeKey w = scope) (rev (filter (\<lambda>w. now < w_untilTs w) (map snd l))) = None"
        using Cons.prems x k by (fastforce simp: find_None_iff image_iff)
      then show ?thesis using x k True by (auto simp: find_two)
    next
      case False
      then show ?thesis using Cons x k by (auto simp: find_two split: option.splits)
    qed
  qed simp
  then show ?thesis unfolding window_of_def map_of_by_scope r .
qed

lemma read_later:
  assumes "read_window now r = Some w" "now \<le> now'" "now' < w_untilTs w"
  shows "\<exists>w'. read_window now' r = Some w' \<and> scopeKey w' = scopeKey w \<and> w_untilTs w' = w_untilTs w \<and> alertedAt w' = alertedAt w"
  using assms by (auto simp: read_window_def split: option.splits if_splits)

lemma read_earlier: "read_window now' r = Some w' \<Longrightarrow> now \<le> now' \<Longrightarrow> \<exists>w. read_window now r = Some w \<and> scopeKey w = scopeKey w'"
  by (auto simp: read_window_def split: option.splits if_splits)

text \<open>The order of windows: a later expiry, and an alert that was sent stays sent.\<close>

definition at_least :: "FloodWindowRecord \<Rightarrow> FloodWindowRecord \<Rightarrow> bool" where
  "at_least w w' \<longleftrightarrow> w_untilTs w \<le> w_untilTs w' \<and> (alertedAt w \<noteq> None \<longrightarrow> alertedAt w' \<noteq> None)"

lemma at_least_refl [simp]: "at_least w w"
  by (simp add: at_least_def)

lemma at_least_trans: "at_least u v \<Longrightarrow> at_least v w \<Longrightarrow> at_least u w"
  by (auto simp: at_least_def)

lemma window_of_later:
  assumes "window_of f now scope = Some w" "now \<le> now'" "now' < w_untilTs w"
  shows "\<exists>w'. window_of f now' scope = Some w' \<and> at_least w w'"
proof (cases "\<exists>rs. f = WRaw rs")
  case True
  then obtain rs where f: "f = WRaw rs" by blast
  have "find (\<lambda>w. scopeKey w = scope) (rev (List.map_filter (read_window now) rs)) = Some w \<Longrightarrow>
      \<exists>w'. find (\<lambda>w. scopeKey w = scope) (rev (List.map_filter (read_window now') rs)) = Some w' \<and> at_least w w'"
  proof (induction rs rule: rev_induct)
    case (snoc r rs)
    show ?case
    proof (cases "read_window now r")
      case None
      then have "read_window now' r = None" using read_earlier [of now' r _ now] assms(2) by (cases "read_window now' r") auto
      then show ?thesis using snoc None by (simp add: map_filter_def)
    next
      case (Some x)
      show ?thesis
      proof (cases "scopeKey x = scope")
        case True
        then have "x = w" using snoc.prems Some by (simp add: map_filter_def)
        then show ?thesis using read_later [OF Some assms(2)] assms(3) True by (auto simp: map_filter_def at_least_def)
      next
        case False
        then have "find (\<lambda>w. scopeKey w = scope) (rev (List.map_filter (read_window now) rs)) = Some w"
          using snoc.prems Some by (simp add: map_filter_def)
        moreover have "read_window now' r = Some y \<Longrightarrow> scopeKey y \<noteq> scope" for y
          using read_earlier [of now' r y now] assms(2) Some False by auto
        ultimately show ?thesis using snoc.IH by (cases "read_window now' r") (auto simp: map_filter_def)
      qed
    qed
  qed (simp add: map_filter_def)
  then show ?thesis using assms(1) by (simp add: f window_of_def map_of_by_scope readFloodWindows_def)
next
  case False
  then show ?thesis using assms(1,2)
    by (cases f) (auto simp: window_of_def map_of_by_scope readFloodWindows_def failSafe_def at_least_def split: if_splits)
qed

lemma window_open: "window_of f now scope = Some w \<Longrightarrow> now < w_untilTs w \<and> scopeKey w = scope"
proof -
  assume "window_of f now scope = Some w"
  then have "scopeKey w = scope \<and> w \<in> set (readFloodWindows f now)"
    using by_scope_keys(2) [where ws = "readFloodWindows f now"] map_of_SomeD by (fastforce simp: window_of_def)
  moreover have "v \<in> set (readFloodWindows f now) \<Longrightarrow> now < w_untilTs v" for v
    by (cases f) (auto simp: readFloodWindows_def failSafe_def FLOOD_WINDOWS_CORRUPT_SUPPRESS_MS_def map_filter_def read_window_def
        split: option.splits if_splits)
  ultimately show ?thesis by blast
qed

lemma write_grows:
  assumes "window_of f now scope = Some w"
  shows "\<exists>w'. window_of (writeFloodWindow replaced record now f) now scope = Some w' \<and> at_least w w'"
proof (cases replaced)
  case False
  then show ?thesis using assms by (simp add: writeFloodWindow_def Let_def)
next
  case True
  let ?l = "by_scope (readFloodWindows f now)"
  let ?m = "merge_window record (map_of ?l (scopeKey record))"
  let ?l' = "if now < w_untilTs record then AList.update (scopeKey record) ?m ?l else ?l"
  have w: "map_of ?l scope = Some w" using assms by (simp add: window_of_def)
  have ok: "distinct (map fst ?l')" "\<forall>(k, w) \<in> set ?l'. scopeKey w = k"
    using by_scope_keys(1) [of "readFloodWindows f now"] by_scope_keys(2) [where ws = "readFloodWindows f now"] by (auto simp: distinct_update merge_window_def dest!: AList_update_memD)
  have wr: "writeFloodWindow True record now f = WRaw (map (raw_of \<circ> snd) ?l')" by (simp add: writeFloodWindow_def Let_def)
  have open_w: "now < w_untilTs w" using window_open [OF assms] by blast
  show ?thesis
  proof (cases "scopeKey record = scope \<and> now < w_untilTs record")
    case True
    then have "at_least w ?m" "now < w_untilTs ?m"
      using w open_w by (auto simp: merge_window_def at_least_def split: option.split)
    then show ?thesis using \<open>replaced\<close> True window_of_written [OF ok, of now scope] wr by (auto simp: update_conv')
  next
    case False
    then have "map_of ?l' scope = Some w" using w by (auto simp: update_conv')
    then show ?thesis using \<open>replaced\<close> open_w window_of_written [OF ok, of now scope] wr by auto
  qed
qed

lemma flood_window_step:
  assumes "window_of (windows b) (now_ms b) scope = Some w" "now_ms (breaker_step ev b) < w_untilTs w"
  shows "\<exists>w'. window_of (windows (breaker_step ev b)) (now_ms (breaker_step ev b)) scope = Some w' \<and> at_least w w'"
proof (cases ev)
  case (Alerted replaced s at)
  then show ?thesis using assms(1) write_grows [OF assms(1)]
    by (auto simp: markFloodWindowAlerted_def split: option.split)
next
  case (WindowOpen replaced s until src)
  then show ?thesis using write_grows [OF assms(1)] by (simp add: makeFloodWindowRecorder_def)
next
  case (Elapse d)
  then show ?thesis using window_of_later [OF assms(1)] assms(2) by simp
qed (use assms in \<open>auto simp: recordFloodWait_def floodWaitProbe_def suppressNonEssentialSendMs_def warnBlind_def
      split: FloodReadResult.split NonEssentialSuppression.split\<close>)

lemma time_passes: "now_ms b \<le> now_ms (breaker_step ev b)"
  by (cases ev) (auto simp: recordFloodWait_def floodWaitProbe_def suppressNonEssentialSendMs_def warnBlind_def
      split: FloodReadResult.split NonEssentialSuppression.split)

lemma time_passes_run: "now_ms b \<le> now_ms (run breaker_step b es)"
  by (induction es arbitrary: b) (auto intro: order_trans time_passes)

text \<open>An event whose write of the marker, if it has one, leaves it whole.\<close>

fun marker_kept :: "breaker_event \<Rightarrow> bool" where
  "marker_kept (Flood429 out retry) = marker_whole out"
| "marker_kept _ = True"

lemma marker_step:
  assumes "readFloodState (marker b) = Some s" "marker_kept ev"
  shows "\<exists>s'. readFloodState (marker (breaker_step ev b)) = Some s' \<and> untilTs s \<le> untilTs s'"
proof (cases ev)
  case (Flood429 out retry)
  have "untilTs s \<le> untilTs (computeFloodWait (Some s) retry (now_ms b))" by (simp add: computeFloodWait_def Let_def)
  then show ?thesis using assms Flood429
    by (cases out) (simp_all add: recordFloodWait_def writeFloodState_def readFloodState_def readFloodStateResult_def)
qed (use assms in \<open>auto simp: floodWaitProbe_def suppressNonEssentialSendMs_def warnBlind_def
      split: FloodReadResult.split NonEssentialSuppression.split\<close>)

text \<open>
  Claim C19: an open ban is not forgotten. Through any sequence of later rate-limit answers, window records,
  alerts, probes and restarts: a scoped window, whose file is replaced by a rename, is still read whether
  writes fail or not, with its expiry no earlier and its alert mark kept, until it expires, and is among the
  windows a starting gate is given; the wait in the marker, which is overwritten in place, keeps its expiry or
  gets a later one through every write that leaves the file whole, that is unless a write fails or is
  interrupted after the file was truncated or unlinked.
\<close>

theorem open_ban_never_forgotten:
  assumes "b' = run breaker_step b es"
  shows "(list_all marker_kept es \<and> readFloodState (marker b) = Some s \<longrightarrow>
        (\<exists>s'. readFloodState (marker b') = Some s' \<and> untilTs s \<le> untilTs s'))
    \<and> (window_of (windows b) (now_ms b) scope = Some w \<and> now_ms b' < w_untilTs w \<longrightarrow>
        (\<exists>w'. window_of (windows b') (now_ms b') scope = Some w' \<and> at_least w w'
          \<and> (scope, w_untilTs w') \<in> set (loadInitialFloodWindows (marker b') (windows b') (now_ms b'))))"
proof -
  have m: "list_all marker_kept es \<Longrightarrow> readFloodState (marker b) = Some s \<Longrightarrow> \<exists>s'. readFloodState (marker (run breaker_step b es)) = Some s' \<and> untilTs s \<le> untilTs s'" for b s
  proof (induction es arbitrary: b s)
    case (Cons e es)
    then obtain s' where "readFloodState (marker (breaker_step e b)) = Some s'" "untilTs s \<le> untilTs s'"
      using marker_step [OF Cons.prems(2), of e] by auto
    then show ?case using Cons.IH [of "breaker_step e b" s'] Cons.prems(1) by force
  qed simp
  have wi: "window_of (windows b) (now_ms b) scope = Some w \<Longrightarrow> now_ms (run breaker_step b es) < w_untilTs w \<Longrightarrow>
      \<exists>w'. window_of (windows (run breaker_step b es)) (now_ms (run breaker_step b es)) scope = Some w' \<and> at_least w w'" for b w
  proof (induction es arbitrary: b w)
    case (Cons e es)
    have "now_ms (breaker_step e b) < w_untilTs w" using Cons.prems(2) time_passes_run [of "breaker_step e b" es] by simp
    then obtain v where v: "window_of (windows (breaker_step e b)) (now_ms (breaker_step e b)) scope = Some v" "at_least w v"
      using flood_window_step [OF Cons.prems(1)] by blast
    then have "now_ms (run breaker_step (breaker_step e b) es) < w_untilTs v" using Cons.prems(2) by (simp add: at_least_def)
    then show ?case using Cons.IH [OF v(1)] v(2) at_least_trans by (metis run.simps(2))
  qed auto
  have "window_of f now scope = Some v \<Longrightarrow> (scope, w_untilTs v) \<in> set (loadInitialFloodWindows mk f now)" for f now v mk
    using window_open [of f now scope v] map_of_SomeD [of "by_scope (readFloodWindows f now)" scope v]
      by_scope_keys(2) [where ws = "readFloodWindows f now"]
    by (force simp: loadInitialFloodWindows_def window_of_def)
  then show ?thesis using m [of b s] wi [of b w] unfolding assms by blast
qed

definition demo_breaker :: breaker where
  "demo_breaker = \<lparr>marker = MFields (Some 9000) (Some 9) None, windows = WRaw [], now_ms = 0, blindLoggedAt = None, warnings = 0, ledger429 = []\<rparr>"

definition demo_ban :: breaker where
  "demo_ban = run breaker_step demo_breaker [WindowOpen True ''chat:7'' 9000 ''429'', Alerted True ''chat:7'' 1]"

theorem open_ban_never_forgotten_witness:
  "\<exists>w s. window_of (windows (run breaker_step demo_ban [Elapse 5, WindowOpen True ''chat:7'' 6000 ''429'', Flood429 Written 1, Reboot])) 5 ''chat:7'' = Some w
     \<and> 9000 \<le> w_untilTs w \<and> alertedAt w \<noteq> None
     \<and> readFloodState (marker (run breaker_step demo_ban [Elapse 5, WindowOpen True ''chat:7'' 6000 ''429'', Flood429 Written 1, Reboot])) = Some s
     \<and> 9000 \<le> untilTs s"
proof -
  let ?es = "[Elapse 5, WindowOpen True ''chat:7'' 6000 ''429'', Flood429 Written 1, Reboot]"
  have "readFloodState (marker demo_ban) = Some \<lparr>untilTs = 9000, retryAfterSec = 9, recordedTs = 0\<rparr>"
    "window_of (windows demo_ban) (now_ms demo_ban) ''chat:7''
      = Some \<lparr>scopeKey = ''chat:7'', w_untilTs = 9000, retryAfterSrc = ''429'', observedAt = 0, alertedAt = Some 1\<rparr>"
    "now_ms (run breaker_step demo_ban ?es) = 5" by code_simp+
  moreover have "list_all marker_kept ?es" by simp
  ultimately show ?thesis using open_ban_never_forgotten [OF refl, of ?es demo_ban "\<lparr>untilTs = 9000, retryAfterSec = 9, recordedTs = 0\<rparr>" "''chat:7''"
      "\<lparr>scopeKey = ''chat:7'', w_untilTs = 9000, retryAfterSrc = ''429'', observedAt = 0, alertedAt = Some 1\<rparr>"]
    by (auto simp: at_least_def simp del: run.simps)
qed

section \<open>Failing open and failing safe\<close>

text \<open>
  The probe of an essential send reports a ban only when it reads one; a cosmetic send is also held back when the
  marker cannot be read, and a starting gate opens a conservative window when the window file cannot be trusted.
\<close>

text \<open>
  A write of the marker that is cut short, by a full disk or a crash, loses the recorded wait: the probe of an
  essential send then reads no ban, as does the one of a cosmetic send.
\<close>

lemma cut_write_forgets_ban:
  "readFloodState (marker demo_breaker) = Some \<lparr>untilTs = 9000, retryAfterSec = 9, recordedTs = 0\<rparr>"
  "fst (floodWaitProbe (run breaker_step demo_breaker [Flood429 (CutShort ''Unexpected end of JSON input'') 3, Reboot])) = 0"
  "fst (suppressNonEssentialSendMs (run breaker_step demo_breaker [Flood429 (CutShort ''Unexpected end of JSON input'') 3, Reboot])) = 0"
  by code_simp+

lemma probe_iff: "0 < fst (floodWaitProbe b) \<longleftrightarrow> (\<exists>s. readFloodStateResult (marker b) = RdOk s \<and> now_ms b < untilTs s)"
  by (auto simp: floodWaitProbe_def floodWaitRemainingMs_def split: FloodReadResult.split)

lemma cosmetic_iff:
  "0 < fst (suppressNonEssentialSendMs b) \<longleftrightarrow> 0 < fst (floodWaitProbe b) \<or> (\<exists>err. readFloodStateResult (marker b) = RdUnreadable err)"
  by (auto simp: suppressNonEssentialSendMs_def nonEssentialSendSuppression_def floodWaitProbe_def floodWaitRemainingMs_def
      FLOOD_BLIND_SUPPRESS_MS_def Let_def split: FloodReadResult.split)

lemma untrusted_windows_fail_safe:
  "f \<noteq> WAbsent \<Longrightarrow> \<forall>rs. f \<noteq> WRaw rs \<Longrightarrow> (''global'', now + 5 * 60000) \<in> set (loadInitialFloodWindows m f now)"
  by (cases f) (auto simp: loadInitialFloodWindows_def readFloodWindows_def failSafe_def FLOOD_WINDOWS_CORRUPT_SUPPRESS_MS_def)

end
