(* ===== verification/Vault_Grants.thy ===== *)
theory Vault_Grants
  imports Prelude
begin

text \<open>
  The capability grants of the vault broker (\<open>src/vault/grants.ts\<close>): tokens are minted, validated for
  reading and for writing, revoked and listed. The store holds the table, the memo of successful
  bcrypt comparisons, the clock in milliseconds, and the validations that wait for their
  comparison: \<open>validateGrant\<close> reads its row before an \<open>await\<close> and judges it afterwards, so other calls
  run in between. \<open>bcrypt.compare\<close> (\<open>None\<close> when it throws), \<open>bcrypt.hash\<close> and the SHA-256 digest are
  parameters. The JSON text columns hold the string lists they are written from and parsed to.
\<close>

section \<open>Data\<close>

record GrantRow =
  g_id :: string
  g_agent_slug :: string
  g_key_allow :: "string list"
  g_write_allow :: "string list"
  g_expires_at :: "int option"
  g_revoked_at :: "int option"
  g_created_at :: int
  g_description :: "string option"

record StoredGrant = GrantRow +
  g_secret_hash :: string

record MintResult =
  m_token :: string
  m_id :: string
  m_expires_at :: "int option"

datatype DenyReason = GrantExpired | GrantRevoked | GrantKeyNotAllowed | GrantWriteNotAllowed | GrantInvalid

text \<open>A validation that awaits its comparison: what it read, and the time \<open>compareSecret\<close> took.\<close>

record validation =
  v_row :: StoredGrant
  v_secret :: string
  v_key :: string
  v_write :: bool
  v_now :: int
  v_hit :: bool

record grant_store =
  rows :: "StoredGrant list"
  compareMemo :: "(string \<times> int) list"
  clock :: int
  waiting :: "validation list"

definition migrateGrantsSchema :: "int \<Rightarrow> grant_store" where
  "migrateGrantsSchema t = \<lparr>rows = [], compareMemo = [], clock = t, waiting = []\<rparr>"

section \<open>The memo of bcrypt comparisons\<close>

definition COMPARE_MEMO_TTL_MS :: int where "COMPARE_MEMO_TTL_MS = 60000"
definition COMPARE_MEMO_MAX_ENTRIES :: nat where "COMPARE_MEMO_MAX_ENTRIES = 512"

definition memoKey :: "(string \<Rightarrow> string) \<Rightarrow> string \<Rightarrow> string \<Rightarrow> string \<Rightarrow> string" where
  "memoKey sha256 i secretHash secret = i @ '':'' @ secretHash @ '':'' @ sha256 secret"

text \<open>\<open>compareSecret\<close> up to its \<open>await\<close>: a live entry answers true, a stale one is deleted.\<close>

definition compare_lookup :: "string \<Rightarrow> int \<Rightarrow> (string \<times> int) list \<Rightarrow> bool \<times> (string \<times> int) list" where
  "compare_lookup k now memo =
     (case map_of memo k of None \<Rightarrow> (False, memo)
      | Some expiry \<Rightarrow> if now < expiry then (True, memo) else (False, AList.delete k memo))"

fun drop_oldest :: "(string \<times> int) list \<Rightarrow> (string \<times> int) list" where
  "drop_oldest [] = []"
| "drop_oldest (e # memo) =
     (if COMPARE_MEMO_MAX_ENTRIES \<le> length (e # memo) then drop_oldest memo else e # memo)"

definition evict_memo :: "int \<Rightarrow> (string \<times> int) list \<Rightarrow> (string \<times> int) list" where
  "evict_memo now memo =
     (if COMPARE_MEMO_MAX_ENTRIES \<le> length memo then drop_oldest (filter (\<lambda>(ck, cexp). \<not> cexp \<le> now) memo)
      else memo)"

text \<open>\<open>compareSecret\<close> from the comparison on.\<close>

definition compare_finish ::
  "(string \<Rightarrow> string \<Rightarrow> bool option) \<Rightarrow> string \<Rightarrow> string \<Rightarrow> string \<Rightarrow> int \<Rightarrow> (string \<times> int) list \<Rightarrow> bool \<times> (string \<times> int) list"
where
  "compare_finish compare k secret secretHash now memo =
     (let hashMatches = (case compare secret secretHash of Some b \<Rightarrow> b | None \<Rightarrow> False)
      in (hashMatches,
          if hashMatches then AList.update k (now + COMPARE_MEMO_TTL_MS) (evict_memo now memo) else memo))"

definition compareSecret ::
  "(string \<Rightarrow> string \<Rightarrow> bool option) \<Rightarrow> (string \<Rightarrow> string) \<Rightarrow> string \<Rightarrow> string \<Rightarrow> string \<Rightarrow> int
   \<Rightarrow> (string \<times> int) list \<Rightarrow> bool \<times> (string \<times> int) list"
where
  "compareSecret compare sha256 i secret secretHash now memo =
     (case compare_lookup (memoKey sha256 i secretHash secret) now memo of
        (True, memo1) \<Rightarrow> (True, memo1)
      | (False, memo1) \<Rightarrow> compare_finish compare (memoKey sha256 i secretHash secret) secret secretHash now memo1)"

definition clearGrantCompareMemo :: "grant_store \<Rightarrow> grant_store" where
  "clearGrantCompareMemo st = st\<lparr>compareMemo := []\<rparr>"

section \<open>Minting\<close>

definition generateId :: "string \<Rightarrow> string" where
  "generateId hex = ''vg_'' @ hex"

definition unix_seconds :: "grant_store \<Rightarrow> int" where
  "unix_seconds st = clock st div 1000"

text \<open>
  \<open>hex\<close>, \<open>secret\<close> and \<open>salt\<close> are the random values of the call. The primary key makes the \<open>INSERT\<close> raise on
  an id in use.
\<close>

definition mintGrant ::
  "(string \<Rightarrow> string \<Rightarrow> string) \<Rightarrow> string \<Rightarrow> string \<Rightarrow> string \<Rightarrow> string \<Rightarrow> string list \<Rightarrow> int option \<Rightarrow> string option
   \<Rightarrow> string list \<Rightarrow> grant_store \<Rightarrow> sql_error + MintResult \<times> grant_store"
where
  "mintGrant hash hex secret salt agent_slug key_allow ttl_seconds description write_allow st =
     (let i = generateId hex;
          now = unix_seconds st;
          expires = map_option (\<lambda>ttl. now + ttl) ttl_seconds
      in case sql_insert g_id
           \<lparr>g_id = i, g_agent_slug = agent_slug, g_key_allow = key_allow, g_write_allow = write_allow,
            g_expires_at = expires, g_revoked_at = None, g_created_at = now, g_description = description,
            g_secret_hash = hash salt secret\<rparr> (rows st) of
           Inl e \<Rightarrow> Inl e
         | Inr rows' \<Rightarrow> Inr (\<lparr>m_token = i @ ''.'' @ secret, m_id = i, m_expires_at = expires\<rparr>, st\<lparr>rows := rows'\<rparr>))"

section \<open>Validation\<close>

definition parse_token :: "string \<Rightarrow> (string \<times> string) option" where
  "parse_token token =
     (case indexOf_char token (CHR ''.'') of None \<Rightarrow> None
      | Some dotIdx \<Rightarrow>
          if \<not> startsWith token ''vg_'' then None
          else (let i = take dotIdx token; secret = drop (Suc dotIdx) token
                in if i = [] \<or> secret = [] then None else Some (i, secret)))"

text \<open>
  The columns a query selected become a grant; \<open>validateGrant\<close> does not select \<open>write_allow\<close>, which then
  reads as the empty list.
\<close>

definition rowToGrant :: "bool \<Rightarrow> StoredGrant \<Rightarrow> GrantRow" where
  "rowToGrant selects_write row =
     \<lparr>g_id = g_id row, g_agent_slug = g_agent_slug row, g_key_allow = g_key_allow row,
      g_write_allow = (if selects_write then g_write_allow row else []), g_expires_at = g_expires_at row,
      g_revoked_at = g_revoked_at row, g_created_at = g_created_at row, g_description = g_description row\<rparr>"

definition keyMatchesPatterns :: "string list \<Rightarrow> string \<Rightarrow> bool" where
  "keyMatchesPatterns patterns key =
     list_ex (\<lambda>pat. if endsWith pat ''*'' then startsWith key (take (length pat - 1) pat) else pat = key) patterns"

text \<open>Up to the \<open>await\<close>: parse the token, read the row, look into the memo.\<close>

definition validate_begin ::
  "(string \<Rightarrow> string) \<Rightarrow> bool \<Rightarrow> string \<Rightarrow> string \<Rightarrow> grant_store \<Rightarrow> DenyReason + validation \<times> grant_store"
where
  "validate_begin sha256 write token key st =
     (case parse_token token of None \<Rightarrow> Inl GrantInvalid
      | Some (i, secret) \<Rightarrow>
          (case sql_get (\<lambda>r. g_id r = i) (rows st) of None \<Rightarrow> Inl GrantInvalid
           | Some row \<Rightarrow>
               (case compare_lookup (memoKey sha256 i (g_secret_hash row) secret) (clock st) (compareMemo st) of
                  (hit, memo1) \<Rightarrow>
                    Inr (\<lparr>v_row = row, v_secret = secret, v_key = key, v_write = write, v_now = clock st, v_hit = hit\<rparr>,
                         st\<lparr>compareMemo := memo1\<rparr>))))"

text \<open>After the \<open>await\<close>: finish the comparison, then judge the row that was read.\<close>

definition judge_row :: "bool \<Rightarrow> string \<Rightarrow> StoredGrant \<Rightarrow> int \<Rightarrow> DenyReason + GrantRow" where
  "judge_row write key row now =
     (let grant = rowToGrant write row
      in if g_revoked_at grant \<noteq> None then Inl GrantRevoked
         else if (case g_expires_at grant of None \<Rightarrow> False | Some e \<Rightarrow> e < now) then Inl GrantExpired
         else if write then
           (if keyMatchesPatterns (g_write_allow grant) key then Inr grant else Inl GrantWriteNotAllowed)
         else (if key \<in> set (g_key_allow grant) then Inr grant else Inl GrantKeyNotAllowed))"

definition validate_resume ::
  "(string \<Rightarrow> string \<Rightarrow> bool option) \<Rightarrow> (string \<Rightarrow> string) \<Rightarrow> validation \<Rightarrow> grant_store \<Rightarrow> (DenyReason + GrantRow) \<times> grant_store"
where
  "validate_resume compare sha256 v st =
     (let row = v_row v;
          (hashMatches, memo1) =
            (if v_hit v then (True, compareMemo st)
             else compare_finish compare (memoKey sha256 (g_id row) (g_secret_hash row) (v_secret v))
               (v_secret v) (g_secret_hash row) (v_now v) (compareMemo st));
          st1 = st\<lparr>compareMemo := memo1\<rparr>
      in if \<not> hashMatches then (Inl GrantInvalid, st1)
         else (judge_row (v_write v) (v_key v) row (unix_seconds st1), st1))"

text \<open>The two entry points, when nothing runs during the \<open>await\<close>.\<close>

definition validateGrant ::
  "(string \<Rightarrow> string \<Rightarrow> bool option) \<Rightarrow> (string \<Rightarrow> string) \<Rightarrow> string \<Rightarrow> string \<Rightarrow> grant_store \<Rightarrow> (DenyReason + GrantRow) \<times> grant_store"
where
  "validateGrant compare sha256 token key st =
     (case validate_begin sha256 False token key st of
        Inl reason \<Rightarrow> (Inl reason, st)
      | Inr (v, st1) \<Rightarrow> validate_resume compare sha256 v st1)"

definition validateGrantForWrite ::
  "(string \<Rightarrow> string \<Rightarrow> bool option) \<Rightarrow> (string \<Rightarrow> string) \<Rightarrow> string \<Rightarrow> string \<Rightarrow> grant_store \<Rightarrow> (DenyReason + GrantRow) \<times> grant_store"
where
  "validateGrantForWrite compare sha256 token key st =
     (case validate_begin sha256 True token key st of
        Inl reason \<Rightarrow> (Inl reason, st)
      | Inr (v, st1) \<Rightarrow> validate_resume compare sha256 v st1)"

section \<open>Revocation and listing\<close>

definition active_id :: "string \<Rightarrow> StoredGrant \<Rightarrow> bool" where
  "active_id i r \<longleftrightarrow> g_id r = i \<and> g_revoked_at r = None"

definition revokeGrant :: "string \<Rightarrow> grant_store \<Rightarrow> bool \<times> grant_store" where
  "revokeGrant i st =
     (0 < sql_changes (active_id i) (rows st),
      st\<lparr>rows := sql_update (active_id i) (\<lambda>r. r\<lparr>g_revoked_at := Some (unix_seconds st)\<rparr>) (rows st)\<rparr>)"

definition listGrants :: "string option \<Rightarrow> grant_store \<Rightarrow> GrantRow list" where
  "listGrants agent_slug st =
     map (rowToGrant True) (sort_key (\<lambda>r. - g_created_at r)
       (filter (\<lambda>r. g_revoked_at r = None \<and> (case agent_slug of None \<Rightarrow> True | Some a \<Rightarrow> g_agent_slug r = a)) (rows st)))"

section \<open>The store as an event system\<close>

text \<open>
  \<open>Begin\<close> and \<open>Resume\<close> are the two halves of a validation: any other event, another validation included, may
  come between them, and waiting validations resume in any order.
\<close>

datatype grant_event =
    Mint string string string string "string list" "int option" "string option" "string list"
  | Revoke string
  | Begin bool string string
  | Resume nat
  | ClearMemo
  | Elapse nat

fun grant_step ::
  "(string \<Rightarrow> string \<Rightarrow> bool option) \<Rightarrow> (string \<Rightarrow> string) \<Rightarrow> (string \<Rightarrow> string \<Rightarrow> string) \<Rightarrow> grant_event \<Rightarrow> grant_store \<Rightarrow> grant_store"
where
  "grant_step compare sha256 hash (Mint hex secret salt agent keys ttl desc wkeys) st =
     (case mintGrant hash hex secret salt agent keys ttl desc wkeys st of Inl _ \<Rightarrow> st | Inr (_, st') \<Rightarrow> st')"
| "grant_step compare sha256 hash (Revoke i) st = snd (revokeGrant i st)"
| "grant_step compare sha256 hash (Begin write token key) st =
     (case validate_begin sha256 write token key st of Inl _ \<Rightarrow> st
      | Inr (v, st1) \<Rightarrow> st1\<lparr>waiting := waiting st1 @ [v]\<rparr>)"
| "grant_step compare sha256 hash (Resume n) st =
     (if n < length (waiting st)
      then (snd (validate_resume compare sha256 (waiting st ! n) st))\<lparr>waiting := take n (waiting st) @ drop (Suc n) (waiting st)\<rparr>
      else st)"
| "grant_step compare sha256 hash ClearMemo st = clearGrantCompareMemo st"
| "grant_step compare sha256 hash (Elapse d) st = st\<lparr>clock := clock st + int d\<rparr>"

text \<open>A waiting validation is answered with a grant of the id.\<close>

definition accepts ::
  "(string \<Rightarrow> string \<Rightarrow> bool option) \<Rightarrow> (string \<Rightarrow> string) \<Rightarrow> string \<Rightarrow> grant_event \<Rightarrow> grant_store \<Rightarrow> bool"
where
  "accepts compare sha256 i ev st \<longleftrightarrow>
     (case ev of Resume n \<Rightarrow> n < length (waiting st)
        \<and> (case fst (validate_resume compare sha256 (waiting st ! n) st) of Inl _ \<Rightarrow> False | Inr g \<Rightarrow> g_id g = i)
      | _ \<Rightarrow> False)"

section \<open>Lemmas\<close>

lemma evict_memo_length: "length (evict_memo now memo) < COMPARE_MEMO_MAX_ENTRIES"
proof -
  have "length (drop_oldest m) < COMPARE_MEMO_MAX_ENTRIES" for m
    by (induction m) (auto simp: COMPARE_MEMO_MAX_ENTRIES_def)
  then show ?thesis by (auto simp: evict_memo_def)
qed

lemma evict_memo_subset: "set (evict_memo now memo) \<subseteq> set memo"
proof -
  have "set (drop_oldest m) \<subseteq> set m" for m by (induction m) auto
  from this [of "filter (\<lambda>(ck, cexp). \<not> cexp \<le> now) memo"] show ?thesis by (auto simp: evict_memo_def)
qed

lemma compare_finish_length:
  "length memo \<le> COMPARE_MEMO_MAX_ENTRIES \<Longrightarrow>
     length (snd (compare_finish compare k s h now memo)) \<le> COMPARE_MEMO_MAX_ENTRIES"
proof -
  have "length (AList.update k x m) \<le> Suc (length m)" for x :: int and m by (induction m) auto
  from this [of _ "evict_memo now memo"] show "length memo \<le> COMPARE_MEMO_MAX_ENTRIES \<Longrightarrow> ?thesis"
    using evict_memo_length [of now memo] by (auto simp: compare_finish_def Let_def Suc_le_eq dest: le_less_trans intro: le_trans [OF _ Suc_leI])
qed

lemma compare_lookup_length: "length (snd (compare_lookup k now memo)) \<le> length memo"
  by (auto simp: compare_lookup_def AList.delete_eq split: option.split)

lemma compare_lookup_subset: "set (snd (compare_lookup k now memo)) \<subseteq> set memo"
  by (auto simp: compare_lookup_def AList.delete_eq split: option.split)

lemma compare_finish_memD:
  "(j, e) \<in> set (snd (compare_finish compare k s h now memo)) \<Longrightarrow>
     (j, e) \<in> set memo \<or> j = k \<and> compare s h = Some True"
  using evict_memo_subset [of now memo]
  by (auto simp: compare_finish_def Let_def split: if_splits option.splits dest: AList_update_memD)

text \<open>The key of a memo entry determines the digest of the secret and the hash it was compared with.\<close>

lemma memoKey_split:
  assumes "memoKey sha i h s = memoKey sha j g t" "CHR '':'' \<notin> set (sha s)" "CHR '':'' \<notin> set (sha t)"
    "CHR '':'' \<notin> set h" "CHR '':'' \<notin> set g"
  shows "i = j \<and> h = g \<and> sha s = sha t"
proof -
  have last: "x = y \<and> p = q" if e: "x @ CHR '':'' # p = y @ CHR '':'' # q" and pq: "CHR '':'' \<notin> set p" "CHR '':'' \<notin> set q"
    for x y p q :: string
  proof -
    have "rev p @ CHR '':'' # rev x = rev q @ CHR '':'' # rev y" using arg_cong [OF e, of rev] by simp
    then show ?thesis using split_at_first [of "rev p" "CHR '':''" "rev x" "rev q" "rev y"] pq by simp
  qed
  show ?thesis
    using last [of "i @ CHR '':'' # h" "sha s" "j @ CHR '':'' # g" "sha t"] last [of i h j g] assms
    by (simp add: memoKey_def)
qed

section \<open>The memo is exact\<close>

text \<open>
  What the memo relies on: neither the hexadecimal digest nor a bcrypt hash contains a colon, so the key
  \<open>id:hash:digest\<close> can be taken apart. Every entry stems from a successful comparison.
\<close>

definition colon_free :: "(string \<Rightarrow> string) \<Rightarrow> (string \<Rightarrow> string \<Rightarrow> string) \<Rightarrow> bool" where
  "colon_free sha256 hash \<longleftrightarrow> (\<forall>s. CHR '':'' \<notin> set (sha256 s)) \<and> (\<forall>salt s. CHR '':'' \<notin> set (hash salt s))"

definition vouched :: "(string \<Rightarrow> string \<Rightarrow> bool option) \<Rightarrow> (string \<Rightarrow> string) \<Rightarrow> string \<Rightarrow> string \<Rightarrow> bool" where
  "vouched compare sha256 secret h \<longleftrightarrow> (\<exists>s. sha256 s = sha256 secret \<and> compare s h = Some True)"

definition proven_key :: "(string \<Rightarrow> string \<Rightarrow> bool option) \<Rightarrow> (string \<Rightarrow> string) \<Rightarrow> string \<Rightarrow> bool" where
  "proven_key compare sha256 k \<longleftrightarrow>
     (\<exists>i h s. k = memoKey sha256 i h s \<and> CHR '':'' \<notin> set h \<and> compare s h = Some True)"

definition validation_ok :: "(string \<Rightarrow> string \<Rightarrow> bool option) \<Rightarrow> (string \<Rightarrow> string) \<Rightarrow> validation \<Rightarrow> bool" where
  "validation_ok compare sha256 v \<longleftrightarrow> CHR '':'' \<notin> set (g_secret_hash (v_row v))
     \<and> (v_hit v \<longrightarrow> vouched compare sha256 (v_secret v) (g_secret_hash (v_row v)))"

definition memo_ok :: "(string \<Rightarrow> string \<Rightarrow> bool option) \<Rightarrow> (string \<Rightarrow> string) \<Rightarrow> (string \<times> int) list \<Rightarrow> bool" where
  "memo_ok compare sha256 memo \<longleftrightarrow>
     length memo \<le> COMPARE_MEMO_MAX_ENTRIES \<and> (\<forall>(k, e) \<in> set memo. proven_key compare sha256 k)"

definition store_ok :: "(string \<Rightarrow> string \<Rightarrow> bool option) \<Rightarrow> (string \<Rightarrow> string) \<Rightarrow> grant_store \<Rightarrow> bool" where
  "store_ok compare sha256 st \<longleftrightarrow>
     memo_ok compare sha256 (compareMemo st)
     \<and> (\<forall>r \<in> set (rows st). CHR '':'' \<notin> set (g_secret_hash r))
     \<and> (\<forall>v \<in> set (waiting st). validation_ok compare sha256 v)"

lemma memo_ok_lookup: "memo_ok compare sha256 memo \<Longrightarrow> memo_ok compare sha256 (snd (compare_lookup k now memo))"
  using compare_lookup_length [of k now memo] compare_lookup_subset [of k now memo] unfolding memo_ok_def by fastforce

lemma memo_ok_finish:
  assumes "memo_ok compare sha256 memo" and "CHR '':'' \<notin> set h"
  shows "memo_ok compare sha256 (snd (compare_finish compare (memoKey sha256 i h s) s h now memo))"
  unfolding memo_ok_def
proof
  show "length (snd (compare_finish compare (memoKey sha256 i h s) s h now memo)) \<le> COMPARE_MEMO_MAX_ENTRIES"
    using assms(1) by (intro compare_finish_length) (simp add: memo_ok_def)
  show "\<forall>(k, e) \<in> set (snd (compare_finish compare (memoKey sha256 i h s) s h now memo)). proven_key compare sha256 k"
    using compare_finish_memD [of _ _ compare "memoKey sha256 i h s" s h now memo] assms
    unfolding memo_ok_def proven_key_def by blast
qed

lemma compare_lookup_vouched:
  assumes "memo_ok compare sha256 memo" and "\<forall>s. CHR '':'' \<notin> set (sha256 s)" and "CHR '':'' \<notin> set h"
    and "fst (compare_lookup (memoKey sha256 i h secret) now memo)"
  shows "vouched compare sha256 secret h"
proof -
  from assms(4) obtain e where "map_of memo (memoKey sha256 i h secret) = Some e"
    by (auto simp: compare_lookup_def split: option.splits)
  then have "proven_key compare sha256 (memoKey sha256 i h secret)"
    using assms(1) by (auto simp: memo_ok_def dest: map_of_SomeD)
  then obtain j g t where k: "memoKey sha256 i h secret = memoKey sha256 j g t" "CHR '':'' \<notin> set g" "compare t g = Some True"
    unfolding proven_key_def by blast
  from memoKey_split [OF k(1)] k(2) assms(2,3) have "h = g" "sha256 secret = sha256 t" by simp_all
  with k(3) show ?thesis unfolding vouched_def by metis
qed

lemma validate_begin_cases:
  obtains (refused) "validate_begin sha256 w token key st = Inl GrantInvalid"
  | (begun) i secret row where "parse_token token = Some (i, secret)" "sql_get (\<lambda>r. g_id r = i) (rows st) = Some row"
      "validate_begin sha256 w token key st =
         Inr (\<lparr>v_row = row, v_secret = secret, v_key = key, v_write = w, v_now = clock st,
               v_hit = fst (compare_lookup (memoKey sha256 i (g_secret_hash row) secret) (clock st) (compareMemo st))\<rparr>,
              st\<lparr>compareMemo := snd (compare_lookup (memoKey sha256 i (g_secret_hash row) secret) (clock st) (compareMemo st))\<rparr>)"
      "row \<in> set (rows st)" "g_id row = i"
proof (cases "parse_token token")
  case None
  then show ?thesis using refused by (simp add: validate_begin_def)
next
  case (Some p)
  obtain i secret where p: "p = (i, secret)" by force
  show ?thesis
  proof (cases "sql_get (\<lambda>r. g_id r = i) (rows st)")
    case None
    then show ?thesis using refused Some p by (simp add: validate_begin_def)
  next
    case row: (Some row)
    show ?thesis
      using begun [OF Some [unfolded p] row] Some p row sql_get_SomeD [OF row]
      by (simp add: validate_begin_def split_beta)
  qed
qed

text \<open>What the second half of a validation leaves: only the memo changes.\<close>

lemma validate_resume_store:
  "rows (snd (validate_resume compare sha256 v st)) = rows st"
  "clock (snd (validate_resume compare sha256 v st)) = clock st"
  "waiting (snd (validate_resume compare sha256 v st)) = waiting st"
  by (simp_all add: validate_resume_def Let_def split_beta)

lemma validate_resume_memo:
  "compareMemo (snd (validate_resume compare sha256 v st)) =
     (if v_hit v then compareMemo st
      else snd (compare_finish compare (memoKey sha256 (g_id (v_row v)) (g_secret_hash (v_row v)) (v_secret v))
        (v_secret v) (g_secret_hash (v_row v)) (v_now v) (compareMemo st)))"
  by (simp add: validate_resume_def Let_def split_beta)

lemma mintGrant_cases:
  obtains (clash) "generateId hex \<in> g_id ` set (rows st)" "mintGrant hash hex secret salt a ks ttl d ws st = Inl UniqueViolation"
  | (minted) "generateId hex \<notin> g_id ` set (rows st)" "mintGrant hash hex secret salt a ks ttl d ws st =
      Inr (\<lparr>m_token = generateId hex @ ''.'' @ secret, m_id = generateId hex,
             m_expires_at = map_option (\<lambda>t. unix_seconds st + t) ttl\<rparr>,
           st\<lparr>rows := rows st @ [\<lparr>g_id = generateId hex, g_agent_slug = a, g_key_allow = ks, g_write_allow = ws,
             g_expires_at = map_option (\<lambda>t. unix_seconds st + t) ttl, g_revoked_at = None,
             g_created_at = unix_seconds st, g_description = d, g_secret_hash = hash salt secret\<rparr>]\<rparr>)"
  by (cases "generateId hex \<in> g_id ` set (rows st)") (simp_all add: mintGrant_def sql_insert_def Let_def)

lemma store_ok_step:
  assumes "colon_free sha256 hash" and "store_ok compare sha256 st"
  shows "store_ok compare sha256 (grant_step compare sha256 hash ev st)"
proof (cases ev)
  case (Mint hex secret salt a ks ttl d ws)
  show ?thesis
    by (rule mintGrant_cases [of hex st hash secret salt a ks ttl d ws])
       (use assms Mint in \<open>simp_all add: store_ok_def colon_free_def\<close>)
next
  case (Revoke i)
  then show ?thesis using assms by (auto simp: store_ok_def revokeGrant_def dest!: sql_update_memD split: if_splits)
next
  case (Begin w token key)
  show ?thesis
  proof (rule validate_begin_cases [of sha256 w token key st])
    fix i secret row
    assume r: "validate_begin sha256 w token key st =
         Inr (\<lparr>v_row = row, v_secret = secret, v_key = key, v_write = w, v_now = clock st,
               v_hit = fst (compare_lookup (memoKey sha256 i (g_secret_hash row) secret) (clock st) (compareMemo st))\<rparr>,
              st\<lparr>compareMemo := snd (compare_lookup (memoKey sha256 i (g_secret_hash row) secret) (clock st) (compareMemo st))\<rparr>)"
      "row \<in> set (rows st)"
    have row: "CHR '':'' \<notin> set (g_secret_hash row)" and memo: "memo_ok compare sha256 (compareMemo st)"
      using r(2) assms(2) by (simp_all add: store_ok_def)
    from compare_lookup_vouched [OF memo _ row] assms(1)
    have "fst (compare_lookup (memoKey sha256 i (g_secret_hash row) secret) (clock st) (compareMemo st))
        \<Longrightarrow> vouched compare sha256 secret (g_secret_hash row)" by (simp add: colon_free_def)
    then show ?thesis using r(1) Begin row memo_ok_lookup [OF memo] assms(2) by (simp add: store_ok_def validation_ok_def)
  qed (use assms Begin in simp)
next
  case (Resume n)
  show ?thesis
  proof (cases "n < length (waiting st)")
    case True
    define v where "v = waiting st ! n"
    have "validation_ok compare sha256 v" using True assms(2) by (simp add: v_def store_ok_def)
    then have "memo_ok compare sha256 (compareMemo (snd (validate_resume compare sha256 v st)))"
      using assms(2) memo_ok_finish [of compare sha256 "compareMemo st" "g_secret_hash (v_row v)"]
      by (simp add: validate_resume_memo validation_ok_def store_ok_def)
    then show ?thesis
      using True Resume assms(2)
      by (auto simp: store_ok_def validate_resume_store v_def dest: in_set_takeD in_set_dropD)
  qed (use Resume assms in simp)
next
  case ClearMemo
  then show ?thesis using assms by (simp add: store_ok_def memo_ok_def clearGrantCompareMemo_def)
next
  case (Elapse d)
  then show ?thesis using assms by (simp add: store_ok_def)
qed

interpretation grants: event_system "grant_step compare sha256 hash"
  "\<lambda>st. colon_free sha256 hash \<longrightarrow> store_ok compare sha256 st" for compare sha256 hash
  by unfold_locales (blast intro: store_ok_step)

lemma store_ok_reachable:
  "colon_free sha256 hash \<Longrightarrow> store_ok compare sha256 (run (grant_step compare sha256 hash) (migrateGrantsSchema t) es)"
  using grants.invar_run [of sha256 hash compare "migrateGrantsSchema t" es]
  by (simp add: store_ok_def memo_ok_def migrateGrantsSchema_def)

text \<open>
  The comparison memo is exact. In every reachable store, however validations interleave,
  \<open>compareSecret\<close> accepts every secret bcrypt accepts for the stored hash, and accepts nothing else but a
  secret with the same SHA-256 digest as one bcrypt accepted for that very hash; the memo never holds more
  than 512 entries.
\<close>

theorem compare_memo_exact:
  assumes "colon_free sha256 hash" and "st = run (grant_step compare sha256 hash) (migrateGrantsSchema t) es"
    and "r \<in> set (rows st)"
  shows "(compare secret (g_secret_hash r) = Some True
        \<longrightarrow> fst (compareSecret compare sha256 (g_id r) secret (g_secret_hash r) now (compareMemo st)))
    \<and> (fst (compareSecret compare sha256 (g_id r) secret (g_secret_hash r) now (compareMemo st))
        \<longrightarrow> vouched compare sha256 secret (g_secret_hash r))
    \<and> length (compareMemo st) \<le> 512"
proof -
  have ok: "store_ok compare sha256 st" using store_ok_reachable [OF assms(1)] assms(2) by simp
  then have memo: "memo_ok compare sha256 (compareMemo st)" and h: "CHR '':'' \<notin> set (g_secret_hash r)"
    using assms(3) by (simp_all add: store_ok_def)
  from compare_lookup_vouched [OF memo _ h] assms(1)
  have hit: "fst (compare_lookup (memoKey sha256 (g_id r) (g_secret_hash r) secret) now (compareMemo st))
      \<Longrightarrow> vouched compare sha256 secret (g_secret_hash r)" by (simp add: colon_free_def)
  have "fst (compare_finish compare k secret (g_secret_hash r) now m) \<longleftrightarrow> compare secret (g_secret_hash r) = Some True" for k m
    by (simp add: compare_finish_def Let_def split: option.split)
  then show ?thesis
    using hit memo unfolding compareSecret_def memo_ok_def COMPARE_MEMO_MAX_ENTRIES_def vouched_def
    by (auto split: prod.split bool.split)
qed

section \<open>The life of a grant\<close>

definition grant_row :: "string \<Rightarrow> grant_store \<Rightarrow> StoredGrant option" where
  "grant_row i st = sql_get (\<lambda>r. g_id r = i) (rows st)"

lemma grant_row_step:
  assumes "grant_row i st = Some r"
  shows "\<exists>t. grant_row i (grant_step compare sha256 hash ev st)
    = Some (if ev = Revoke i \<and> g_revoked_at r = None then r\<lparr>g_revoked_at := Some t\<rparr> else r)"
proof (cases ev)
  case (Mint hex secret salt a ks ttl d ws)
  show ?thesis
    by (rule mintGrant_cases [of hex st hash secret salt a ks ttl d ws])
       (use assms Mint in \<open>simp_all add: grant_row_def sql_get_append\<close>)
next
  case (Revoke j)
  have "find (\<lambda>r. g_id r = i) (sql_update (active_id j) (\<lambda>r. r\<lparr>g_revoked_at := Some t\<rparr>) rs)
      = map_option (\<lambda>r. if active_id j r then r\<lparr>g_revoked_at := Some t\<rparr> else r) (find (\<lambda>r. g_id r = i) rs)" for t rs
    unfolding sql_update_def by (rule find_map_idem) simp
  moreover have "g_id r = i" using assms by (auto simp: grant_row_def dest: sql_get_SomeD)
  ultimately show ?thesis
    using Revoke assms by (auto simp: grant_row_def sql_get_def revokeGrant_def active_id_def)
next
  case (Begin w token key)
  show ?thesis
    by (rule validate_begin_cases [of sha256 w token key st])
       (use assms Begin in \<open>simp_all add: grant_row_def\<close>)
qed (use assms in \<open>simp_all add: grant_row_def validate_resume_store clearGrantCompareMemo_def\<close>)

lemma grant_row_run:
  assumes "grant_row i st = Some r"
  shows "\<exists>rv. grant_row i (run (grant_step compare sha256 hash) st es) = Some (r\<lparr>g_revoked_at := rv\<rparr>)
    \<and> (rv = None \<longleftrightarrow> g_revoked_at r = None \<and> Revoke i \<notin> set es)"
  using assms
proof (induction es arbitrary: st r)
  case Nil
  then show ?case by (intro exI [of _ "g_revoked_at r"]) simp
next
  case (Cons ev es)
  obtain t where t: "grant_row i (grant_step compare sha256 hash ev st)
      = Some (if ev = Revoke i \<and> g_revoked_at r = None then r\<lparr>g_revoked_at := Some t\<rparr> else r)"
    using grant_row_step [OF Cons.prems] by blast
  show ?case
    using Cons.IH [OF t] by (cases "ev = Revoke i \<and> g_revoked_at r = None") auto
qed

lemma parse_minted: "CHR ''.'' \<notin> set hex \<Longrightarrow> secret \<noteq> [] \<Longrightarrow>
  parse_token (generateId hex @ ''.'' @ secret) = Some (generateId hex, secret)"
proof -
  assume a: "CHR ''.'' \<notin> set hex" "secret \<noteq> []"
  then have "indexOf_char (generateId hex @ CHR ''.'' # secret) (CHR ''.'') = Some (length (generateId hex))"
    by (intro indexOf_char_append) (simp add: generateId_def)
  then show ?thesis using a by (simp add: parse_token_def startsWith_def generateId_def)
qed

text \<open>A secret that bcrypt accepts for the row passes, with a memo hit or without.\<close>

lemma validate_known:
  assumes "parse_token token = Some (i, secret)" and "grant_row i st = Some row"
    and "compare secret (g_secret_hash row) = Some True"
  shows "fst (validateGrant compare sha256 token key st) = judge_row False key row (unix_seconds st)"
    and "fst (validateGrantForWrite compare sha256 token key st) = judge_row True key row (unix_seconds st)"
  using assms
  by (simp_all add: validateGrant_def validateGrantForWrite_def validate_begin_def validate_resume_def grant_row_def
      compare_finish_def unix_seconds_def Let_def split_beta)

lemma mint_row:
  assumes "generateId hex \<notin> g_id ` set (rows st)"
  shows "grant_row (generateId hex) (grant_step compare sha256 hash (Mint hex secret salt a ks ttl d ws) st)
    = Some \<lparr>g_id = generateId hex, g_agent_slug = a, g_key_allow = ks, g_write_allow = ws,
        g_expires_at = map_option (\<lambda>s. unix_seconds st + s) ttl, g_revoked_at = None,
        g_created_at = unix_seconds st, g_description = d, g_secret_hash = hash salt secret\<rparr>"
proof -
  have "sql_get (\<lambda>r. g_id r = generateId hex) (rows st) = None" using assms by (simp add: sql_get_None image_iff) metis
  then show ?thesis
    by (rule_tac mintGrant_cases [of hex st hash secret salt a ks ttl d ws])
       (use assms in \<open>simp_all add: grant_row_def sql_get_append sql_get_single\<close>)
qed

text \<open>
  Claim C30: the life of a token. After \<open>mintGrant\<close> with a fresh id, whatever else happens in the store
  (other mints and revocations, interleaved validations, memo hits and evictions, time), the minted token
  is answered \<open>grant-revoked\<close> if and only if its id was revoked since, otherwise \<open>grant-expired\<close> if and only
  if its time to live has run out, otherwise it reads exactly the keys of \<open>key_allow\<close> and writes exactly the
  keys that match \<open>write_allow\<close>.
\<close>

theorem minted_token_validates:
  assumes "generateId hex \<notin> g_id ` set (rows st0)" and "CHR ''.'' \<notin> set hex" and "secret \<noteq> []"
    and "compare secret (hash salt secret) = Some True"
    and "st = run (grant_step compare sha256 hash) st0 (Mint hex secret salt a keys ttl d wkeys # later)"
    and "refusal = (if Revoke (generateId hex) \<in> set later then Some GrantRevoked
       else if (case ttl of None \<Rightarrow> False | Some s \<Rightarrow> unix_seconds st0 + s < unix_seconds st) then Some GrantExpired
       else None)"
  shows "(case fst (validateGrant compare sha256 (generateId hex @ ''.'' @ secret) key st) of
       Inl reason \<Rightarrow> refusal = Some reason \<or> refusal = None \<and> key \<notin> set keys \<and> reason = GrantKeyNotAllowed
     | Inr g \<Rightarrow> refusal = None \<and> key \<in> set keys \<and> g_agent_slug g = a \<and> g_key_allow g = keys)
   \<and> (case fst (validateGrantForWrite compare sha256 (generateId hex @ ''.'' @ secret) key st) of
       Inl reason \<Rightarrow> refusal = Some reason \<or> refusal = None \<and> \<not> keyMatchesPatterns wkeys key \<and> reason = GrantWriteNotAllowed
     | Inr g \<Rightarrow> refusal = None \<and> keyMatchesPatterns wkeys key \<and> g_agent_slug g = a \<and> g_write_allow g = wkeys)"
proof -
  define r where "r = \<lparr>g_id = generateId hex, g_agent_slug = a, g_key_allow = keys, g_write_allow = wkeys,
        g_expires_at = map_option (\<lambda>s. unix_seconds st0 + s) ttl, g_revoked_at = None,
        g_created_at = unix_seconds st0, g_description = d, g_secret_hash = hash salt secret\<rparr>"
  obtain rv where row: "grant_row (generateId hex) st = Some (r\<lparr>g_revoked_at := rv\<rparr>)"
      and rv: "rv = None \<longleftrightarrow> Revoke (generateId hex) \<notin> set later"
    using grant_row_run [OF mint_row [OF assms(1)]] assms(5) by (fastforce simp: r_def simp del: grant_step.simps)
  have judge: "judge_row w key (r\<lparr>g_revoked_at := rv\<rparr>) (unix_seconds st) =
     (case refusal of Some reason \<Rightarrow> Inl reason
      | None \<Rightarrow> if w then (if keyMatchesPatterns wkeys key then Inr (rowToGrant w (r\<lparr>g_revoked_at := rv\<rparr>)) else Inl GrantWriteNotAllowed)
                else (if key \<in> set keys then Inr (rowToGrant w (r\<lparr>g_revoked_at := rv\<rparr>)) else Inl GrantKeyNotAllowed))" for w
    using rv by (cases ttl) (auto simp: judge_row_def rowToGrant_def r_def assms(6) Let_def)
  have cmp: "compare secret (g_secret_hash (r\<lparr>g_revoked_at := rv\<rparr>)) = Some True" using assms(4) by (simp add: r_def)
  show ?thesis
    unfolding validate_known [OF parse_minted [OF assms(2,3)] row, where compare = compare, OF cmp] judge
    by (cases refusal) (simp_all add: rowToGrant_def r_def)
qed

text \<open>A concrete instance of the parameters: the hash is the secret itself and the digest its length.\<close>

definition demo_compare :: "string \<Rightarrow> string \<Rightarrow> bool option" where
  "demo_compare secret h = Some (secret = h)"

definition demo_sha :: "string \<Rightarrow> string" where
  "demo_sha s = replicate (length s) (CHR ''a'')"

definition demo_hash :: "string \<Rightarrow> string \<Rightarrow> string" where
  "demo_hash salt s = filter (\<lambda>c. c \<noteq> CHR '':'') s"

definition demo_life :: "grant_event list" where
  "demo_life = [Begin False ''vg_01.s3'' ''k'', Elapse 5000, Resume 0, Revoke ''vg_02'']"

theorem minted_token_validates_witness:
  "case fst (validateGrant demo_compare demo_sha (generateId ''01'' @ ''.'' @ ''s3'') ''k''
      (run (grant_step demo_compare demo_sha demo_hash) (migrateGrantsSchema 0)
        (Mint ''01'' ''s3'' ''x'' ''coder'' [''k''] (Some 10) None [''OPENAI_*''] # demo_life))) of
     Inl reason \<Rightarrow> None = Some reason \<or> None = (None :: DenyReason option) \<and> ''k'' \<notin> set [''k''] \<and> reason = GrantKeyNotAllowed
   | Inr g \<Rightarrow> None = (None :: DenyReason option) \<and> ''k'' \<in> set [''k''] \<and> g_agent_slug g = ''coder'' \<and> g_key_allow g = [''k'']"
  using conjunct1 [OF minted_token_validates [of "''01''" "migrateGrantsSchema 0" "''s3''" demo_compare demo_hash "''x''"
    "run (grant_step demo_compare demo_sha demo_hash) (migrateGrantsSchema 0)
        (Mint ''01'' ''s3'' ''x'' ''coder'' [''k''] (Some 10) None [''OPENAI_*''] # demo_life)"
    demo_sha "''coder''" "[''k'']" "Some 10" None "[''OPENAI_*'']" demo_life None "''k''"]]
  by (simp add: migrateGrantsSchema_def demo_compare_def demo_hash_def demo_life_def generateId_def unix_seconds_def
      mintGrant_def sql_insert_def validate_begin_def parse_token_def startsWith_def sql_get_def compare_lookup_def
      validate_resume_def compare_finish_def evict_memo_def COMPARE_MEMO_MAX_ENTRIES_def revokeGrant_def Let_def)

theorem compare_memo_exact_witness:
  "fst (compareSecret demo_compare demo_sha ''vg_01'' ''s3'' ''s3'' 70000 (compareMemo
      (run (grant_step demo_compare demo_sha demo_hash) (migrateGrantsSchema 0)
        [Mint ''01'' ''s3'' ''x'' ''coder'' [''k''] (Some 10) None []])))
   \<and> vouched demo_compare demo_sha ''s3'' ''s3''"
  using compare_memo_exact [of demo_sha demo_hash _ demo_compare 0
      "[Mint ''01'' ''s3'' ''x'' ''coder'' [''k''] (Some 10) None []]"
      "\<lparr>g_id = ''vg_01'', g_agent_slug = ''coder'', g_key_allow = [''k''], g_write_allow = [],
        g_expires_at = Some 10, g_revoked_at = None, g_created_at = 0, g_description = None, g_secret_hash = ''s3''\<rparr>" "''s3''" 70000, OF _ refl]
  by (simp add: colon_free_def demo_compare_def demo_sha_def demo_hash_def migrateGrantsSchema_def mintGrant_def sql_insert_def
      generateId_def unix_seconds_def Let_def)

section \<open>Revocation\<close>

definition grant_revoked :: "string \<Rightarrow> grant_store \<Rightarrow> bool" where
  "grant_revoked i st \<longleftrightarrow> (case grant_row i st of None \<Rightarrow> False | Some r \<Rightarrow> g_revoked_at r \<noteq> None)"

text \<open>The validations of a grant under way that read its row before it was revoked.\<close>

definition read_before :: "string \<Rightarrow> validation \<Rightarrow> bool" where
  "read_before i v \<longleftrightarrow> g_id (v_row v) = i \<and> g_revoked_at (v_row v) = None"

definition under_way :: "string \<Rightarrow> grant_store \<Rightarrow> nat" where
  "under_way i st = length (filter (read_before i) (waiting st))"

lemma accepts_read_before:
  assumes "accepts compare sha256 i (Resume n) st"
  shows "n < length (waiting st) \<and> read_before i (waiting st ! n)"
proof -
  from assms obtain g where n: "n < length (waiting st)" and g: "g_id g = i"
      "fst (validate_resume compare sha256 (waiting st ! n) st) = Inr g"
    by (auto simp: accepts_def split: sum.splits)
  have "judge_row (v_write (waiting st ! n)) (v_key (waiting st ! n)) (v_row (waiting st ! n)) (unix_seconds st) = Inr g"
    using g(2) by (simp add: validate_resume_def unix_seconds_def Let_def split_beta split: if_splits)
  then show ?thesis using n g(1) by (auto simp: read_before_def judge_row_def rowToGrant_def Let_def split: if_splits)
qed

lemma revoked_step:
  assumes "grant_revoked i st"
  shows "grant_revoked i (grant_step compare sha256 hash ev st)"
proof -
  obtain r where r: "grant_row i st = Some r" "g_revoked_at r \<noteq> None"
    using assms by (auto simp: grant_revoked_def split: option.splits)
  then have "grant_row i (grant_step compare sha256 hash ev st) = Some r"
    using grant_row_step [OF r(1), of compare sha256 hash ev] by auto
  then show ?thesis using r(2) by (simp add: grant_revoked_def)
qed

lemma under_way_resume:
  assumes "n < length (waiting st)"
  shows "(if read_before i (waiting st ! n) then 1 else 0) + under_way i (grant_step compare sha256 hash (Resume n) st) = under_way i st"
proof -
  have w: "waiting st = take n (waiting st) @ waiting st ! n # drop (Suc n) (waiting st)" by (rule id_take_nth_drop [OF assms])
  have "under_way i st = length (filter (read_before i) (take n (waiting st) @ waiting st ! n # drop (Suc n) (waiting st)))"
    unfolding under_way_def using arg_cong [OF w, of "\<lambda>ws. length (filter (read_before i) ws)"] .
  then show ?thesis using assms by (simp add: under_way_def [of i "_\<lparr>waiting := _\<rparr>"])
qed

text \<open>A validation that begins after the revocation reads a revoked row; a validation is accepted once at most.\<close>

lemma revoked_covered:
  assumes "grant_revoked i st"
  shows "(if accepts compare sha256 i ev st then 1 else 0) + under_way i (grant_step compare sha256 hash ev st) \<le> under_way i st + 0"
proof (cases ev)
  case (Resume n)
  show ?thesis
  proof (cases "n < length (waiting st)")
    case True
    then show ?thesis using under_way_resume [OF True, of i compare sha256 hash] accepts_read_before [of compare sha256 i n st] Resume
      by (auto simp del: grant_step.simps)
  qed (simp add: Resume accepts_def)
next
  case (Begin w token key)
  have "under_way i (grant_step compare sha256 hash (Begin w token key) st) = under_way i st"
  proof (rule validate_begin_cases [of sha256 w token key st])
    fix j secret row
    assume "sql_get (\<lambda>r. g_id r = j) (rows st) = Some row" "g_id row = j"
    then have "\<not> (g_id row = i \<and> g_revoked_at row = None)"
      using assms by (auto simp: grant_revoked_def grant_row_def)
    then show "validate_begin sha256 w token key st = Inr (\<lparr>v_row = row, v_secret = secret, v_key = key, v_write = w, v_now = clock st,
             v_hit = fst (compare_lookup (memoKey sha256 j (g_secret_hash row) secret) (clock st) (compareMemo st))\<rparr>,
            st\<lparr>compareMemo := snd (compare_lookup (memoKey sha256 j (g_secret_hash row) secret) (clock st) (compareMemo st))\<rparr>)
        \<Longrightarrow> ?thesis"
      by (simp add: under_way_def read_before_def)
  qed simp
  then show ?thesis by (simp add: Begin accepts_def)
next
  case (Mint hex secret salt a ks ttl d ws)
  show ?thesis
    by (rule mintGrant_cases [of hex st hash secret salt a ks ttl d ws]) (simp_all add: Mint accepts_def under_way_def)
qed (simp_all add: accepts_def under_way_def revokeGrant_def clearGrantCompareMemo_def)

interpretation grant_revocation: budget "grant_step compare sha256 hash" "grant_revoked i"
    "\<lambda>ev st. if accepts compare sha256 i ev st then 1 else 0" "\<lambda>_ _. 0" "under_way i"
  for compare sha256 hash i
  by unfold_locales (rule revoked_step, assumption, rule revoked_covered)

lemma revoke_revokes: "fst (revokeGrant i st) \<Longrightarrow> grant_revoked i (snd (revokeGrant i st)) \<and> under_way i (snd (revokeGrant i st)) = under_way i st"
proof -
  assume a: "fst (revokeGrant i st)"
  then obtain r where "r \<in> set (rows st)" "g_id r = i"
    by (auto simp: revokeGrant_def sql_changes_def filter_empty_conv active_id_def)
  then obtain q where q: "grant_row i st = Some q"
    by (cases "grant_row i st") (auto simp: grant_row_def sql_get_None)
  obtain rv where "grant_row i (run (grant_step demo_compare demo_sha demo_hash) st [Revoke i]) = Some (q\<lparr>g_revoked_at := rv\<rparr>)"
      "rv = None \<longleftrightarrow> g_revoked_at q = None \<and> Revoke i \<notin> set [Revoke i]"
    using grant_row_run [OF q] by blast
  then show ?thesis by (simp add: grant_revoked_def under_way_def) (simp add: revokeGrant_def)
qed

text \<open>
  Claim C31: revocation takes effect on the next request. Once \<open>revokeGrant\<close> has returned true, the rest of the run
  accepts the grant, for reading or for writing, at most once for each validation of it that was under way at that
  moment and had read the row unrevoked, whatever the memo holds and however the later calls interleave; when none
  was under way, never again. A validation that starts after the revocation is never accepted.
\<close>

theorem revoked_grant_never_accepted:
  assumes "fst (revokeGrant i st)"
  shows "win_count (grant_step compare sha256 hash) (accepts compare sha256 i) (snd (revokeGrant i st)) es
    \<le> length (filter (\<lambda>v. g_id (v_row v) = i \<and> g_revoked_at (v_row v) = None) (waiting st))"
proof -
  have "total (grant_step compare sha256 hash) (\<lambda>_ _. 0) s es = 0" for s by (induction es arbitrary: s) simp_all
  then have "win_count (grant_step compare sha256 hash) (accepts compare sha256 i) (snd (revokeGrant i st)) es \<le> under_way i st"
    using grant_revocation.spending [OF conjunct1 [OF revoke_revokes [OF assms]], of compare sha256 hash es]
      revoke_revokes [OF assms] by (simp add: win_count_total)
  moreover have "read_before i = (\<lambda>v. g_id (v_row v) = i \<and> g_revoked_at (v_row v) = None)" by (simp add: fun_eq_iff read_before_def)
  ultimately show ?thesis by (simp add: under_way_def)
qed

definition demo_grants :: grant_store where
  "demo_grants = \<lparr>rows = [\<lparr>g_id = ''vg_01'', g_agent_slug = ''coder'', g_key_allow = [''k''], g_write_allow = [],
      g_expires_at = None, g_revoked_at = None, g_created_at = 0, g_description = None, g_secret_hash = ''s3''\<rparr>],
     compareMemo = [(''vg_01:s3:aa'', 60000)], clock = 0, waiting = []\<rparr>"

theorem revoked_grant_never_accepted_witness:
  "win_count (grant_step demo_compare demo_sha demo_hash) (accepts demo_compare demo_sha ''vg_01'')
     (snd (revokeGrant ''vg_01'' demo_grants)) [Begin False ''vg_01.s3'' ''k'', Resume 0] = 0"
  using revoked_grant_never_accepted [of "''vg_01''" demo_grants demo_compare demo_sha demo_hash
      "[Begin False ''vg_01.s3'' ''k'', Resume 0]"]
  by (simp add: demo_grants_def revokeGrant_def sql_changes_def active_id_def)

text \<open>The bound is reached: a validation that had read the row before the revocation is still accepted.\<close>

lemma validation_under_way_accepted:
  "win_count (grant_step demo_compare demo_sha demo_hash) (accepts demo_compare demo_sha ''vg_01'')
     (snd (revokeGrant ''vg_01'' (grant_step demo_compare demo_sha demo_hash (Begin False ''vg_01.s3'' ''k'') demo_grants))) [Resume 0] = 1"
  by code_simp

end
