(* ===== verification/Vault_Acl.thy ===== *)
theory Vault_Acl
  imports Prelude
begin

text \<open>
  The key policies of the vault broker: who may read which vault key according to the configuration
  (\<open>src/vault/broker/acl.ts\<close>, \<open>src/config/google-workspace-acl.ts\<close>), the scope lists an entry carries, the
  admin-only key patterns (\<open>src/vault/admin-only-keys.ts\<close>) and the identity a socket path stands for
  (\<open>src/broker-common/peercred-path.ts\<close>). The configuration is the part of \<open>SwitchroomConfig\<close> these
  functions read; an absent object or array is the empty one, which is how the code reads it.
\<close>

section \<open>Configuration\<close>

text \<open>A value of \<open>mcp_servers\<close>: the opt-out \<open>false\<close>, or an object with its \<open>secrets\<close> when that is an array.\<close>

datatype mcp_entry = McpFalse | McpObject "string list option"

record agent_config =
  a_bot_token :: "string option"
  a_extends :: "string option"
  a_mcp_servers :: "(string \<times> mcp_entry) list"
  a_secrets :: "string list"
  a_schedule :: "string list list"
  a_google_account :: "string option"
  a_admin :: bool
  a_root :: bool

record profile_config =
  p_mcp_servers :: "(string \<times> mcp_entry) list"
  p_secrets :: "string list"

record google_workspace =
  google_client_id :: "string option"
  google_client_secret :: "string option"

record config =
  agents :: "(string \<times> agent_config) list"
  defaults :: profile_config
  profiles :: "(string \<times> profile_config) list"
  google_accounts :: "(string \<times> string list) list"
  google_ws :: "google_workspace option"
  telegram_bot_token :: "string option"
  approvalAuth :: "string option"
  postureMintAgents :: "string list"
  adminOnlyKeys :: "string list"
  auditFailClosed :: bool

datatype AclResult = Allow | DenyAcl string

definition allows :: "AclResult \<Rightarrow> bool" where
  "allows r \<longleftrightarrow> r = Allow"

definition quoted :: "string \<Rightarrow> string" where
  "quoted s = [CHR 0x27] @ s @ [CHR 0x27]"

text \<open>\<open>toLowerCase\<close> below U+0100.\<close>

definition js_lower :: "string \<Rightarrow> string" where
  "js_lower s = map (\<lambda>c. if of_char c \<in> {65..90::nat} \<or> of_char c \<in> {192..222::nat} \<and> of_char c \<noteq> (215::nat)
     then char_of (of_char c + 32 :: nat) else c) s"

section \<open>Entry scope\<close>

record VaultEntryScope =
  scope_allow :: "string list"
  scope_deny :: "string list"

definition checkEntryScope :: "VaultEntryScope option \<Rightarrow> string option \<Rightarrow> AclResult" where
  "checkEntryScope scope agentSlug =
     (case scope of None \<Rightarrow> Allow
      | Some sc \<Rightarrow>
          if (case agentSlug of None \<Rightarrow> False | Some a \<Rightarrow> a \<in> set (scope_deny sc)) then
            DenyAcl (''agent '' @ quoted (the agentSlug) @ '' is in the entry'' @ [CHR 0x27] @ ''s deny list (scope-deny)'')
          else if 0 < length (scope_allow sc) then
            (case agentSlug of
               None \<Rightarrow> DenyAcl ''caller agent slug could not be determined; entry has a non-empty allow list (scope-allow)''
             | Some a \<Rightarrow> if a \<in> set (scope_allow sc) then Allow
                 else DenyAcl (''agent '' @ quoted a @ '' is not in the entry'' @ [CHR 0x27] @ ''s allow list (scope-allow)''))
          else Allow)"

section \<open>Google accounts\<close>

definition shouldEmitGdriveMcp :: "string \<Rightarrow> string option \<Rightarrow> (string \<times> string list) list \<Rightarrow> bool" where
  "shouldEmitGdriveMcp agentName agentGoogleAccount googleAccounts =
     (case agentGoogleAccount of None \<Rightarrow> False
      | Some acct \<Rightarrow>
          if acct = [] then False
          else (let account = js_lower (js_trim acct)
                in if length account = 0 then False
                   else (case map_of googleAccounts account of None \<Rightarrow> False
                     | Some enabledFor \<Rightarrow> agentName \<in> set enabledFor)))"

definition vaultRefKey :: "string option \<Rightarrow> string option" where
  "vaultRefKey value =
     (case value of None \<Rightarrow> None
      | Some v \<Rightarrow>
          if \<not> startsWith v ''vault:'' then None
          else (let key = takeWhile (\<lambda>c. c \<noteq> CHR ''#'') (drop (length ''vault:'') v)
                in if 0 < length key then Some key else None))"

definition isGoogleClientCredentialKeyForAgent :: "config \<Rightarrow> string \<Rightarrow> string \<Rightarrow> bool" where
  "isGoogleClientCredentialKeyForAgent cfg agentName key =
     (if agentName = [] \<or> key = [] then False
      else (case map_of (agents cfg) agentName of None \<Rightarrow> False
        | Some agentConfig \<Rightarrow>
            if map_of (a_mcp_servers agentConfig) ''gdrive'' = Some McpFalse then False
            else if \<not> shouldEmitGdriveMcp agentName (a_google_account agentConfig) (google_accounts cfg) then False
            else (case google_ws cfg of None \<Rightarrow> False
              | Some gw \<Rightarrow> vaultRefKey (google_client_id gw) = Some key \<or> vaultRefKey (google_client_secret gw) = Some key)))"

text \<open>The pattern \<open>/^google:([^:]+):([a-z_]+)$/\<close>.\<close>

definition parseGoogleAccountSlotKey :: "string \<Rightarrow> (string \<times> string) option" where
  "parseGoogleAccountSlotKey key =
     (if \<not> startsWith key ''google:'' then None
      else (let r = drop (length ''google:'') key;
                account = takeWhile (\<lambda>c. c \<noteq> CHR '':'') r;
                fld = drop (Suc (length account)) r
            in if account \<noteq> [] \<and> length account < length r \<and> fld \<noteq> []
                  \<and> list_all (\<lambda>c. of_char c \<in> {97..122::nat} \<or> c = CHR ''_'') fld
               then Some (account, fld) else None))"

definition checkGoogleAccountAcl :: "config \<Rightarrow> string \<Rightarrow> string \<Rightarrow> string \<Rightarrow> AclResult" where
  "checkGoogleAccountAcl cfg agentName account key =
     (let accounts = google_accounts cfg;
          accountEntry = (case map_of accounts (js_lower account) of Some e \<Rightarrow> Some e | None \<Rightarrow> map_of accounts account);
          where_key = '' (key '' @ quoted key @ '')'';
          acct = ''google_accounts['' @ quoted account @ '']''
      in case accountEntry of
           None \<Rightarrow> DenyAcl (acct @ '' not configured'' @ where_key)
         | Some enabled \<Rightarrow>
             if length enabled = 0 then DenyAcl (acct @ ''.enabled_for is empty'' @ where_key)
             else if agentName \<notin> set enabled then
               DenyAcl (''agent '' @ quoted agentName @ '' not in '' @ acct @ ''.enabled_for'' @ where_key)
             else Allow)"

section \<open>The ACL of an agent\<close>

definition WEBKITE_VAULT_KEYS :: "string list" where
  "WEBKITE_VAULT_KEYS = [''webkite/cloudflare-account-id'', ''webkite/cloudflare-api-token'', ''webkite/firecrawl-api-key'']"

definition isWebkiteCredentialKeyForAgent :: "agent_config \<Rightarrow> string \<Rightarrow> bool" where
  "isWebkiteCredentialKeyForAgent agentConfig key =
     (if key \<notin> set WEBKITE_VAULT_KEYS then False
      else if map_of (a_mcp_servers agentConfig) ''webkite'' = Some McpFalse then False
      else True)"

text \<open>The spread \<open>{...lower, ...upper}\<close>.\<close>

definition spread :: "(string \<times> 'v) list \<Rightarrow> (string \<times> 'v) list \<Rightarrow> (string \<times> 'v) list" where
  "spread lower upper = fold (\<lambda>(k, v) m. AList.update k v m) upper lower"

definition bot_token_key :: "config \<Rightarrow> agent_config \<Rightarrow> string option" where
  "bot_token_key cfg agentConfig =
     (let botRef = (case a_bot_token agentConfig of
            Some agentBot \<Rightarrow> if 0 < length agentBot then Some agentBot else telegram_bot_token cfg
          | None \<Rightarrow> telegram_bot_token cfg)
      in case botRef of None \<Rightarrow> None
         | Some v \<Rightarrow> if startsWith v ''vault:'' then Some (takeWhile (\<lambda>c. c \<noteq> CHR ''#'') (drop (length ''vault:'') v)) else None)"

definition agent_profile :: "config \<Rightarrow> agent_config \<Rightarrow> profile_config" where
  "agent_profile cfg agentConfig =
     (let none = \<lparr>p_mcp_servers = [], p_secrets = []\<rparr>
      in case a_extends agentConfig of None \<Rightarrow> none
         | Some profileName \<Rightarrow> if 0 < length profileName
             then (case map_of (profiles cfg) profileName of None \<Rightarrow> none | Some p \<Rightarrow> p) else none)"

definition effectiveMcp :: "config \<Rightarrow> agent_config \<Rightarrow> (string \<times> mcp_entry) list" where
  "effectiveMcp cfg agentConfig =
     spread (spread (p_mcp_servers (defaults cfg)) (p_mcp_servers (agent_profile cfg agentConfig))) (a_mcp_servers agentConfig)"

fun declares :: "string \<Rightarrow> mcp_entry \<Rightarrow> bool" where
  "declares key McpFalse = False"
| "declares key (McpObject None) = False"
| "declares key (McpObject (Some declared)) = (key \<in> set declared)"

definition standingSecrets :: "config \<Rightarrow> agent_config \<Rightarrow> string list" where
  "standingSecrets cfg agentConfig =
     p_secrets (defaults cfg) @ p_secrets (agent_profile cfg agentConfig) @ a_secrets agentConfig"

definition checkAclByAgent :: "config \<Rightarrow> string \<Rightarrow> string \<Rightarrow> AclResult" where
  "checkAclByAgent cfg agentName key =
     (if agentName = [] then DenyAcl ''agent name unresolved''
      else (case map_of (agents cfg) agentName of
          None \<Rightarrow> DenyAcl (''agent '' @ quoted agentName @ '' not found in config'')
        | Some agentConfig \<Rightarrow>
            (case parseGoogleAccountSlotKey key of
               Some (account, _) \<Rightarrow> checkGoogleAccountAcl cfg agentName account key
             | None \<Rightarrow>
                 if isGoogleClientCredentialKeyForAgent cfg agentName key then Allow
                 else if isWebkiteCredentialKeyForAgent agentConfig key then Allow
                 else if (case bot_token_key cfg agentConfig of None \<Rightarrow> False
                     | Some botKey \<Rightarrow> 0 < length botKey \<and> botKey = key) then Allow
                 else if list_ex (\<lambda>(_, e). declares key e) (effectiveMcp cfg agentConfig) then Allow
                 else if key \<in> set (standingSecrets cfg agentConfig) then Allow
                 else if length (a_schedule agentConfig) = 0 then
                   DenyAcl (''agent '' @ quoted agentName @ '' has no schedule entries declaring '' @ quoted ''secrets'' @
                     '', no mcp_servers.*.secrets[], and no agents.'' @ agentName @ ''.secrets[] standing grant declaring '' @
                     quoted key @ ''; nothing is broker-accessible'')
                 else if list_ex (\<lambda>allowed. key \<in> set allowed) (a_schedule agentConfig) then Allow
                 else DenyAcl (''key '' @ quoted key @ '' not in ACL for agent '' @ quoted agentName))))"

section \<open>Admin-only keys\<close>

text \<open>
  \<open>globToRegExp\<close> and the test of the result: every character but the star stands for itself, the star for a
  run of characters that are no line terminators (the dot of a regular expression without the \<open>s\<close> flag).
\<close>

definition line_terminator :: "char \<Rightarrow> bool" where
  "line_terminator c \<longleftrightarrow> of_char c \<in> {10, 13 :: nat}"

fun glob_test :: "string \<Rightarrow> string \<Rightarrow> bool" where
  "glob_test [] s \<longleftrightarrow> s = []"
| "glob_test (p # ps) [] \<longleftrightarrow> p = CHR ''*'' \<and> glob_test ps []"
| "glob_test (p # ps) (c # cs) \<longleftrightarrow>
     (if p = CHR ''*'' then glob_test ps (c # cs) \<or> \<not> line_terminator c \<and> glob_test (p # ps) cs
      else p = c \<and> glob_test ps cs)"

definition matchesAdminOnlyKey :: "string \<Rightarrow> string list \<Rightarrow> bool" where
  "matchesAdminOnlyKey key patterns =
     list_ex (\<lambda>p. p = key \<or> CHR ''*'' \<in> set p \<and> glob_test p key) patterns"

fun collect_unique :: "('a \<Rightarrow> bool) \<Rightarrow> 'a list \<Rightarrow> 'a list \<Rightarrow> 'a list" where
  "collect_unique p [] out = out"
| "collect_unique p (k # ks) out = collect_unique p ks (if p k \<and> k \<notin> set out then out @ [k] else out)"

definition filterAdminOnlyKeys :: "string list \<Rightarrow> string list \<Rightarrow> string list" where
  "filterAdminOnlyKeys keys patterns = collect_unique (\<lambda>k. matchesAdminOnlyKey k patterns) keys []"

definition adminOnlyKeysBeingAdded :: "string list \<Rightarrow> string list \<Rightarrow> string list \<Rightarrow> string list" where
  "adminOnlyKeysBeingAdded requestedKeys existingKeys patterns =
     collect_unique (\<lambda>k. matchesAdminOnlyKey k patterns \<and> k \<notin> set existingKeys) requestedKeys []"

section \<open>Socket identities\<close>

datatype SocketIdentity = AgentIdentity string | OperatorIdentity

text \<open>A path pattern is its match function: the text of its capture group, or \<open>None\<close> when it does not match.\<close>

fun first_match :: "(string \<Rightarrow> string option) list \<Rightarrow> string \<Rightarrow> string option" where
  "first_match [] path = None"
| "first_match (re # patterns) path = (case re path of Some n \<Rightarrow> Some n | None \<Rightarrow> first_match patterns path)"

definition matchSocketName :: "string \<Rightarrow> (string \<Rightarrow> string option) list \<Rightarrow> nat option \<Rightarrow> string option" where
  "matchSocketName socketPath patterns maxNameLen =
     (if length socketPath = 0 then None
      else (case first_match patterns socketPath of None \<Rightarrow> None
        | Some name \<Rightarrow>
            if length name = 0 then None
            else if (case maxNameLen of None \<Rightarrow> False | Some m \<Rightarrow> m < length name) then None
            else Some name))"

definition parseSocketIdentity ::
  "string \<Rightarrow> (string \<Rightarrow> string option) list \<Rightarrow> string list \<Rightarrow> string option \<Rightarrow> nat option \<Rightarrow> SocketIdentity option"
where
  "parseSocketIdentity socketPath patterns reservedNames operatorName maxNameLen =
     (case matchSocketName socketPath patterns maxNameLen of None \<Rightarrow> None
      | Some name \<Rightarrow>
          if name = (case operatorName of Some n \<Rightarrow> n | None \<Rightarrow> ''operator'') then Some OperatorIdentity
          else if name \<in> set reservedNames then None
          else Some (AgentIdentity name))"

definition slug_char :: "char \<Rightarrow> bool" where
  "slug_char c \<longleftrightarrow> of_char c \<in> {48..57::nat} \<or> of_char c \<in> {65..90::nat} \<or> of_char c \<in> {97..122::nat}"

definition slug_ok :: "string \<Rightarrow> bool" where
  "slug_ok name \<longleftrightarrow> name \<noteq> [] \<and> slug_char (hd name)
     \<and> list_all (\<lambda>c. slug_char c \<or> c = CHR ''_'' \<or> c = CHR ''-'') (tl name)"

definition broker_dir :: string where
  "broker_dir = ''/run/switchroom/broker/''"

text \<open>The two anchored patterns differ in what follows the captured name.\<close>

definition socket_path_re :: "string \<Rightarrow> string \<Rightarrow> string option" where
  "socket_path_re suffix path =
     (if startsWith path broker_dir \<and> endsWith path suffix \<and> length broker_dir + length suffix \<le> length path
      then (let name = take (length path - length broker_dir - length suffix) (drop (length broker_dir) path)
            in if slug_ok name then Some name else None)
      else None)"

definition RESERVED_AGENT_NAMES :: "string list" where
  "RESERVED_AGENT_NAMES = [''operator'', ''hostd'']"

definition socketPathToIdentity :: "string \<Rightarrow> SocketIdentity option" where
  "socketPathToIdentity socketPath =
     parseSocketIdentity socketPath [socket_path_re ''.sock'', socket_path_re ''/sock''] RESERVED_AGENT_NAMES None None"

definition socketPathToAgent :: "string \<Rightarrow> string option" where
  "socketPathToAgent socketPath =
     (case socketPathToIdentity socketPath of Some (AgentIdentity name) \<Rightarrow> Some name | _ \<Rightarrow> None)"

definition isReservedAgentName :: "string \<Rightarrow> bool" where
  "isReservedAgentName name \<longleftrightarrow> name \<in> set RESERVED_AGENT_NAMES"

section \<open>Paths identify agents\<close>

lemma socket_path_re_iff:
  "socket_path_re suffix path = Some name \<longleftrightarrow> slug_ok name \<and> path = broker_dir @ name @ suffix"
proof
  assume a: "socket_path_re suffix path = Some name"
  then have w: "startsWith path broker_dir" "endsWith path suffix" "length broker_dir + length suffix \<le> length path" "slug_ok name"
    and n: "name = take (length path - length broker_dir - length suffix) (drop (length broker_dir) path)"
    by (auto simp: socket_path_re_def Let_def split: if_splits)
  from w(1) obtain r where r: "path = broker_dir @ r" by (auto simp: startsWith_iff)
  from w(2) obtain q where q: "path = q @ suffix" by (auto simp: endsWith_iff)
  have "length broker_dir \<le> length q" using w(3) q by simp
  then have "r = drop (length broker_dir) q @ suffix" using r q by (metis append_eq_append_conv_if)
  then have "r = name @ suffix" using n r by simp
  then show "slug_ok name \<and> path = broker_dir @ name @ suffix" using r w(4) by simp
next
  assume "slug_ok name \<and> path = broker_dir @ name @ suffix"
  then show "socket_path_re suffix path = Some name"
    by (simp add: socket_path_re_def startsWith_def endsWith_def Let_def)
qed

lemma socket_path_re_None: "socket_path_re suffix path = None \<longleftrightarrow> (\<forall>name. slug_ok name \<longrightarrow> path \<noteq> broker_dir @ name @ suffix)"
  using socket_path_re_iff [of suffix path] by (cases "socket_path_re suffix path") auto

text \<open>The flat and the nested shape never name the same path, since a slug contains neither a dot nor a slash.\<close>

lemma broker_paths_disjoint:
  assumes "slug_ok n"
  shows "broker_dir @ n @ ''.sock'' \<noteq> broker_dir @ m @ ''/sock''"
proof
  assume "broker_dir @ n @ ''.sock'' = broker_dir @ m @ ''/sock''"
  then have "rev (n @ ''.sock'') ! 4 = rev (m @ ''/sock'') ! 4" by simp
  then show False by simp
qed

text \<open>
  A socket path stands for exactly one identity. A path is the socket of the agent \<open>a\<close> exactly when
  it is \<open>/run/switchroom/broker/a.sock\<close> or \<open>/run/switchroom/broker/a/sock\<close> for a well-formed name \<open>a\<close> that is not
  reserved, the operator's exactly when that name is \<open>operator\<close>, and nobody's otherwise; two different
  agents never share a path.
\<close>

theorem socket_path_identity:
  "(socketPathToIdentity p = Some (AgentIdentity a) \<longleftrightarrow>
       slug_ok a \<and> \<not> isReservedAgentName a \<and> p \<in> {broker_dir @ a @ ''.sock'', broker_dir @ a @ ''/sock''})
   \<and> (socketPathToIdentity p = Some OperatorIdentity \<longleftrightarrow>
       p \<in> {broker_dir @ ''operator.sock'', broker_dir @ ''operator/sock''})"
proof -
  define name where "name = matchSocketName p [socket_path_re ''.sock'', socket_path_re ''/sock''] None"
  have name: "name = Some n \<longleftrightarrow> slug_ok n \<and> p \<in> {broker_dir @ n @ ''.sock'', broker_dir @ n @ ''/sock''}" for n
  proof (cases "socket_path_re ''.sock'' p")
    case None
    have "name = socket_path_re ''/sock'' p"
    proof (cases "socket_path_re ''/sock'' p")
      case (Some m)
      then have "m \<noteq> []" "p \<noteq> []" by (auto simp: socket_path_re_iff slug_ok_def)
      then show ?thesis using None Some by (simp add: name_def matchSocketName_def)
    qed (use None in \<open>simp add: name_def matchSocketName_def\<close>)
    then show ?thesis using None socket_path_re_iff [of "''/sock''" p n] by (auto simp: socket_path_re_None)
  next
    case (Some m)
    then have m: "slug_ok m" "p = broker_dir @ m @ ''.sock''" by (simp_all add: socket_path_re_iff)
    then have "name = Some m" using Some by (simp add: name_def matchSocketName_def slug_ok_def)
    then show ?thesis using m broker_paths_disjoint [OF m(1), of n] by auto
  qed
  have op: "slug_ok ''operator''" by (simp add: slug_ok_def slug_char_def)
  show ?thesis
    using name [of a] name [of "''operator''"] op
    unfolding socketPathToIdentity_def parseSocketIdentity_def name_def [symmetric]
    by (cases name) (auto simp: isReservedAgentName_def RESERVED_AGENT_NAMES_def)
qed

section \<open>The ACL as map override\<close>

text \<open>
  The rules of the ACL, with the spreads of the MCP servers as map override. Only MCP servers and standing secrets come
  from all three layers here; bot token, schedule and opt-outs are read from the agent alone, as the code does, which is
  not what the resolved configuration says: see \<open>Config_Layers\<close>.
\<close>

definition unique_keys :: "config \<Rightarrow> bool" where
  "unique_keys cfg \<longleftrightarrow> distinct (map fst (p_mcp_servers (defaults cfg)))
     \<and> (\<forall>p \<in> snd ` set (profiles cfg). distinct (map fst (p_mcp_servers p)))
     \<and> (\<forall>a \<in> snd ` set (agents cfg). distinct (map fst (a_mcp_servers a)))"

definition mcp_of :: "config \<Rightarrow> agent_config \<Rightarrow> string \<Rightarrow> mcp_entry option" where
  "mcp_of cfg ac = map_of (p_mcp_servers (defaults cfg)) ++ map_of (p_mcp_servers (agent_profile cfg ac)) ++ map_of (a_mcp_servers ac)"

definition google_members :: "config \<Rightarrow> string \<Rightarrow> string set" where
  "google_members cfg account =
     (case map_of (google_accounts cfg) (js_lower account) of Some e \<Rightarrow> set e
      | None \<Rightarrow> (case map_of (google_accounts cfg) account of Some e \<Rightarrow> set e | None \<Rightarrow> {}))"

definition acl_rules :: "config \<Rightarrow> string \<Rightarrow> string \<Rightarrow> bool" where
  "acl_rules cfg a key \<longleftrightarrow> a \<noteq> [] \<and> (\<exists>ac. map_of (agents cfg) a = Some ac \<and>
     (case parseGoogleAccountSlotKey key of
        Some (account, _) \<Rightarrow> a \<in> google_members cfg account
      | None \<Rightarrow> isGoogleClientCredentialKeyForAgent cfg a key
          \<or> key \<in> set WEBKITE_VAULT_KEYS \<and> map_of (a_mcp_servers ac) ''webkite'' \<noteq> Some McpFalse
          \<or> key \<noteq> [] \<and> bot_token_key cfg ac = Some key
          \<or> (\<exists>name secrets. mcp_of cfg ac name = Some (McpObject (Some secrets)) \<and> key \<in> set secrets)
          \<or> key \<in> set (p_secrets (defaults cfg)) \<union> set (p_secrets (agent_profile cfg ac)) \<union> set (a_secrets ac)
          \<or> (\<exists>s \<in> set (a_schedule ac). key \<in> set s)))"

lemma spread_map_of:
  "distinct (map fst upper) \<Longrightarrow> map_of (spread lower upper) = map_of lower ++ map_of upper"
proof (induction upper arbitrary: lower)
  case Nil
  then show ?case by (simp add: spread_def)
next
  case (Cons e upper)
  obtain k v where e: "e = (k, v)" by force
  have k: "k \<notin> dom (map_of upper)" using Cons.prems e by (simp add: dom_map_of_conv_image_fst)
  have "map_of (spread lower (e # upper)) = (map_of lower)(k \<mapsto> v) ++ map_of upper"
  proof -
    have "spread lower (e # upper) = spread (AList.update k v lower) upper" by (simp add: spread_def e)
    then show ?thesis using Cons.IH [of "AList.update k v lower"] Cons.prems by (simp only: update_conv' list.map distinct.simps)
  qed
  also have "\<dots> = map_of lower ++ map_of (e # upper)"
    using k e by (auto simp: map_add_def fun_eq_iff dom_def split: option.splits)
  finally show ?case .
qed

lemma spread_distinct: "distinct (map fst lower) \<Longrightarrow> distinct (map fst (spread lower upper))"
  by (induction upper arbitrary: lower) (auto simp: spread_def distinct_update)

lemma agent_profile_distinct: "unique_keys cfg \<Longrightarrow> distinct (map fst (p_mcp_servers (agent_profile cfg ac)))"
  unfolding unique_keys_def agent_profile_def Let_def by (auto split: option.split dest!: map_of_SomeD simp: image_iff)

lemma effectiveMcp_mcp_of:
  assumes "unique_keys cfg" and "map_of (agents cfg) a = Some ac"
  shows "map_of (effectiveMcp cfg ac) = mcp_of cfg ac" and "distinct (map fst (effectiveMcp cfg ac))"
proof -
  have ac: "distinct (map fst (a_mcp_servers ac))" using assms map_of_SomeD [OF assms(2)] by (fastforce simp: unique_keys_def)
  then show "map_of (effectiveMcp cfg ac) = mcp_of cfg ac"
    by (simp add: effectiveMcp_def mcp_of_def spread_map_of agent_profile_distinct [OF assms(1)])
  show "distinct (map fst (effectiveMcp cfg ac))"
    using assms(1) by (simp add: effectiveMcp_def spread_distinct unique_keys_def)
qed

lemma declares_iff: "declares key e \<longleftrightarrow> (\<exists>s. e = McpObject (Some s) \<and> key \<in> set s)"
  by (cases "(key, e)" rule: declares.cases) auto

lemma mcp_declared:
  assumes "unique_keys cfg" and "map_of (agents cfg) a = Some ac"
  shows "list_ex (\<lambda>(_, e). declares key e) (effectiveMcp cfg ac)
     \<longleftrightarrow> (\<exists>name secrets. mcp_of cfg ac name = Some (McpObject (Some secrets)) \<and> key \<in> set secrets)"
proof -
  have "(n, e) \<in> set (effectiveMcp cfg ac) \<longleftrightarrow> mcp_of cfg ac n = Some e" for n e
    using effectiveMcp_mcp_of [OF assms] map_of_eq_Some_iff [of "effectiveMcp cfg ac" n e] by simp
  then show ?thesis unfolding list_ex_iff by (fastforce simp: declares_iff)
qed

lemma google_acl_iff: "checkGoogleAccountAcl cfg a account key = Allow \<longleftrightarrow> a \<in> google_members cfg account"
  by (auto simp: checkGoogleAccountAcl_def google_members_def Let_def split: option.split)

text \<open>
  The ACL in one formula. \<open>checkAclByAgent\<close> allows a key to an agent if and only if
  the agent is configured and either the key is a slot of a Google account the agent is a member of, or it
  is no such slot and is the agent's Google client credential, a webkite credential it has not opted out
  of, its own bot token, declared by the MCP server that survives the override of defaults by profile by
  agent, a standing secret of one of the three layers, or a secret of one of its schedule entries.
\<close>

theorem acl_by_override:
  assumes "unique_keys cfg"
  shows "checkAclByAgent cfg a key = Allow \<longleftrightarrow> acl_rules cfg a key"
proof (cases "a = [] \<or> map_of (agents cfg) a = None")
  case True
  then show ?thesis by (auto simp: checkAclByAgent_def acl_rules_def)
next
  case False
  then obtain ac where ac: "a \<noteq> []" "map_of (agents cfg) a = Some ac" by auto
  note mcp = mcp_declared [OF assms ac(2), of key]
  show ?thesis
  proof (cases "parseGoogleAccountSlotKey key")
    case None
    define mcp_key bot_key where "mcp_key \<longleftrightarrow> list_ex (\<lambda>(_, e). declares key e) (effectiveMcp cfg ac)"
      and "bot_key \<longleftrightarrow> (case bot_token_key cfg ac of None \<Rightarrow> False | Some botKey \<Rightarrow> 0 < length botKey \<and> botKey = key)"
    have bot: "bot_key \<longleftrightarrow> key \<noteq> [] \<and> bot_token_key cfg ac = Some key"
      by (auto simp: bot_key_def split: option.split)
    have "checkAclByAgent cfg a key = Allow \<longleftrightarrow> isGoogleClientCredentialKeyForAgent cfg a key
        \<or> isWebkiteCredentialKeyForAgent ac key \<or> bot_key \<or> mcp_key
        \<or> key \<in> set (standingSecrets cfg ac) \<or> list_ex (\<lambda>allowed. key \<in> set allowed) (a_schedule ac)"
      using ac None by (simp add: checkAclByAgent_def mcp_key_def bot_key_def)
    moreover have "mcp_key \<longleftrightarrow> (\<exists>name secrets. mcp_of cfg ac name = Some (McpObject (Some secrets)) \<and> key \<in> set secrets)"
      using mcp by (simp add: mcp_key_def)
    moreover have "isWebkiteCredentialKeyForAgent ac key
        \<longleftrightarrow> key \<in> set WEBKITE_VAULT_KEYS \<and> map_of (a_mcp_servers ac) ''webkite'' \<noteq> Some McpFalse"
      by (simp add: isWebkiteCredentialKeyForAgent_def)
    moreover have "key \<in> set (standingSecrets cfg ac)
        \<longleftrightarrow> key \<in> set (p_secrets (defaults cfg)) \<union> set (p_secrets (agent_profile cfg ac)) \<union> set (a_secrets ac)"
      by (auto simp: standingSecrets_def)
    ultimately show ?thesis unfolding acl_rules_def list_ex_iff bot by (simp only: ac None option.simps) simp
  next
    case (Some p)
    then show ?thesis using ac by (cases p) (simp add: checkAclByAgent_def acl_rules_def google_acl_iff)
  qed
qed

definition demo_agent :: agent_config where
  "demo_agent = \<lparr>a_bot_token = None, a_extends = Some ''dev'', a_mcp_servers = [(''notion'', McpFalse)], a_secrets = [],
     a_schedule = [], a_google_account = None, a_admin = False, a_root = False\<rparr>"

definition demo_config :: config where
  "demo_config = \<lparr>agents = [(''coder'', demo_agent)],
     defaults = \<lparr>p_mcp_servers = [(''notion'', McpObject (Some [''notion/key''])), (''px'', McpObject (Some [''px/old'']))], p_secrets = []\<rparr>,
     profiles = [(''dev'', \<lparr>p_mcp_servers = [(''px'', McpObject (Some [''px/key'']))], p_secrets = []\<rparr>)],
     google_accounts = [], google_ws = None, telegram_bot_token = None, approvalAuth = None, postureMintAgents = [],
     adminOnlyKeys = [], auditFailClosed = False\<rparr>"

theorem acl_by_override_witness:
  "checkAclByAgent demo_config ''coder'' ''px/key'' = Allow \<and> acl_rules demo_config ''coder'' ''px/key''
   \<and> \<not> acl_rules demo_config ''coder'' ''notion/key'' \<and> \<not> acl_rules demo_config ''coder'' ''px/old''"
proof -
  have u: "unique_keys demo_config" by (simp add: unique_keys_def demo_config_def demo_agent_def)
  have "checkAclByAgent demo_config ''coder'' ''px/key'' = Allow" "checkAclByAgent demo_config ''coder'' ''notion/key'' \<noteq> Allow"
    "checkAclByAgent demo_config ''coder'' ''px/old'' \<noteq> Allow" by code_simp+
  then show ?thesis using acl_by_override [OF u] by blast
qed

end
