(* ===== verification/Vault_Broker.thy ===== *)
theory Vault_Broker
  imports Approval_Server Vault_Grants Vault_Acl
begin

text \<open>
  The vault broker (\<open>src/vault/broker/server.ts\<close>): the secrets it holds unlocked in memory, the stat-on-access
  reload (\<open>vault-refresh.ts\<close>), locking and unlocking, and the data operations \<open>status\<close>, \<open>lock\<close>,
  \<open>preflight_access\<close>, \<open>list\<close>, \<open>get\<close> and \<open>put\<close>. An operation that presents a token is cut in two at the \<open>await\<close> of
  its validation, and a continuation runs in whatever state the broker is in by then; a continuation
  that touches the secrets of a broker locked meanwhile throws, which is the response \<open>None\<close>.

  The vault file is its identity stamp, the passphrase it is encrypted under (\<open>None\<close> for a file that
  does not decrypt) and its content. What a call meets outside the process (a failing disk, the audit
  volume, the platform, random values) is the record \<open>env\<close>. Timestamps, process ids and control groups of
  audit rows are left out, and an arrow or a dash outside Latin-1 in a message is written in ASCII.
\<close>

section \<open>State\<close>

datatype entry_kind = KString | KBinary | KFiles

record VaultEntry =
  e_kind :: entry_kind
  e_value :: string
  e_format :: "string option"
  e_scope :: "VaultEntryScope option"

type_synonym secret_map = "(string \<times> VaultEntry) list"

record vault_file =
  f_stamp :: nat
  f_pass :: "string option"
  f_secrets :: secret_map

record audit_row =
  au_op :: string
  au_key :: "string option"
  au_caller :: string
  au_result :: string
  au_method :: "string option"
  au_grant_id :: "string option"
  au_agent_name :: "string option"

record broker =
  secrets :: "secret_map option"
  passphrase :: "string option"
  vaultStamp :: "nat option"
  failedVaultStamp :: "nat option"
  broker_config :: "config option"
  grantsDb :: grant_store
  approvalsDb :: kernel_db
  disk :: "vault_file option"
  next_stamp :: nat
  token_files :: "(string \<times> string) list"
  auditLog :: "audit_row list"

record env =
  platform_linux :: bool
  allowNonLinux :: bool
  audit_durable :: bool
  fail_closed_env :: "bool option"
  layout_drift :: bool
  save_error :: "string option"
  token_write_error :: "string option"
  token_truncate_ok :: bool
  require_operator_mint :: bool
  rnd_hex :: string
  rnd_secret :: string
  rnd_salt :: string
  rnd_request_id :: string
  rnd_uuid :: string

text \<open>bcrypt and SHA-256, the parameters of \<open>Vault_Grants\<close>.\<close>

record crypto =
  c_compare :: "string \<Rightarrow> string \<Rightarrow> bool option"
  c_sha256 :: "string \<Rightarrow> string"
  c_hash :: "string \<Rightarrow> string \<Rightarrow> string"

text \<open>A connection: the identity of its listener, and the caller label of its peer if peercred found one.\<close>

record caller =
  agentName :: "string option"
  isOperator :: bool
  peer_label :: "string option"

section \<open>Protocol\<close>

datatype vb_error = LOCKED | VDENIED | UNKNOWN_KEY | VBAD_REQUEST | VINTERNAL | AUDIT_UNAVAILABLE

record wire_entry =
  w_kind :: entry_kind
  w_value :: string
  w_format :: "string option"

record preflight_result =
  pf_key :: string
  pf_exists :: bool
  pf_acl :: AclResult
  pf_scope :: AclResult

datatype vb_response =
    VErr vb_error string
  | VStatus bool nat
  | VLocked
  | VPreflight "preflight_result list"
  | VKeys "string list"
  | VEntry wire_entry
  | VPut string
  | VMinted string string "int option"
  | VGrants "GrantRow list"
  | VRevoked bool
  | VApproval BrokerResponse

record put_request =
  q_key :: string
  q_kind :: entry_kind
  q_value :: string
  q_token :: "string option"
  q_passphrase :: "string option"
  q_posture :: bool

text \<open>\<open>stripWireFields\<close>: the scope never leaves the broker.\<close>

definition entryResponse :: "VaultEntry \<Rightarrow> vb_response" where
  "entryResponse entry = VEntry
     (if e_kind entry = KFiles then \<lparr>w_kind = KFiles, w_value = e_value entry, w_format = None\<rparr>
      else \<lparr>w_kind = e_kind entry, w_value = e_value entry, w_format = e_format entry\<rparr>)"

section \<open>Audit\<close>

definition auditCaller :: "caller \<Rightarrow> string" where
  "auditCaller c =
     (if isOperator c then ''operator''
      else (case agentName c of Some a \<Rightarrow> ''agent:'' @ a
        | None \<Rightarrow> (case peer_label c of Some p \<Rightarrow> p | None \<Rightarrow> ''pid:self'')))"

definition log_row :: "env \<Rightarrow> audit_row \<Rightarrow> broker \<Rightarrow> broker" where
  "log_row e row st = (if audit_durable e then st\<lparr>auditLog := auditLog st @ [row]\<rparr> else st)"

definition audit_op :: "env \<Rightarrow> caller \<Rightarrow> string \<Rightarrow> string option \<Rightarrow> string \<Rightarrow> string option \<Rightarrow> string option \<Rightarrow> broker \<Rightarrow> broker" where
  "audit_op e c oper key result method gid st =
     log_row e \<lparr>au_op = oper, au_key = key, au_caller = auditCaller c, au_result = result, au_method = method,
       au_grant_id = gid, au_agent_name = None\<rparr> st"

definition writeAudit :: "env \<Rightarrow> caller \<Rightarrow> string \<Rightarrow> string option \<Rightarrow> string \<Rightarrow> string option \<Rightarrow> string option \<Rightarrow> broker \<Rightarrow> broker" where
  "writeAudit e c oper key result method gid st =
     log_row e \<lparr>au_op = oper, au_key = key, au_caller = auditCaller c, au_result = result, au_method = method,
       au_grant_id = gid, au_agent_name = agentName c\<rparr> st"

definition auditFailClosedEnabled :: "env \<Rightarrow> broker \<Rightarrow> bool" where
  "auditFailClosedEnabled e st =
     (case fail_closed_env e of Some b \<Rightarrow> b
      | None \<Rightarrow> (case broker_config st of None \<Rightarrow> False | Some cfg \<Rightarrow> auditFailClosed cfg))"

text \<open>\<open>auditedReleaseOk\<close>, with the release itself as the continuation.\<close>

definition audited_release :: "env \<Rightarrow> caller \<Rightarrow> string \<Rightarrow> string option \<Rightarrow> string option \<Rightarrow> vb_response \<Rightarrow> broker \<Rightarrow> vb_response option \<times> broker" where
  "audited_release e c key method gid resp st =
     (let st1 = writeAudit e c ''get'' (Some key) ''allowed'' method gid st
      in if \<not> audit_durable e \<and> auditFailClosedEnabled e st then
           (Some (VErr AUDIT_UNAVAILABLE (''secret release denied: audit append failed and broker is in fail-closed mode '' @
              ''(vault.broker.auditFailClosed)'')), st1)
         else (Some resp, st1))"

section \<open>Lock, unlock and reload\<close>

definition lock_broker :: "broker \<Rightarrow> broker" where
  "lock_broker st = st\<lparr>secrets := None, vaultStamp := None, failedVaultStamp := None, passphrase := None\<rparr>"

definition readVaultStamp :: "broker \<Rightarrow> nat option" where
  "readVaultStamp st = map_option f_stamp (disk st)"

definition openVault :: "string \<Rightarrow> vault_file option \<Rightarrow> secret_map option" where
  "openVault pass file = (case file of None \<Rightarrow> None
     | Some f \<Rightarrow> if f_pass f = Some pass then Some (f_secrets f) else None)"

text \<open>\<open>None\<close> when the layout check or the decryption throws; the state is then unchanged.\<close>

definition unlockFromPassphrase :: "env \<Rightarrow> string \<Rightarrow> broker \<Rightarrow> broker option" where
  "unlockFromPassphrase e pass st =
     (if layout_drift e then None
      else (case openVault pass (disk st) of None \<Rightarrow> None
        | Some secs \<Rightarrow> Some (st\<lparr>secrets := Some secs, passphrase := Some pass, vaultStamp := readVaultStamp st,
            failedVaultStamp := None\<rparr>)))"

text \<open>\<open>refreshVaultIfChanged\<close>: \<open>None\<close> when the layout check throws.\<close>

definition refreshVaultIfChanged :: "env \<Rightarrow> bool \<Rightarrow> broker \<Rightarrow> broker option" where
  "refreshVaultIfChanged e force st =
     (case (secrets st, passphrase st, vaultStamp st, readVaultStamp st) of
        (Some secs, Some pass, Some known, Some current) \<Rightarrow>
          if \<not> force \<and> current = known then Some st
          else if \<not> force \<and> failedVaultStamp st = Some current then Some st
          else if layout_drift e then None
          else (case openVault pass (disk st) of
              None \<Rightarrow> Some (st\<lparr>failedVaultStamp := Some current\<rparr>)
            | Some secs' \<Rightarrow> Some (st\<lparr>secrets := Some secs', vaultStamp := Some current, failedVaultStamp := None\<rparr>))
      | _ \<Rightarrow> Some st)"

definition failClosedOnVaultDrift :: "env \<Rightarrow> broker \<Rightarrow> broker" where
  "failClosedOnVaultDrift e st = lock_broker
     (log_row e \<lparr>au_op = ''lock'', au_key = None, au_caller = ''pid:self'', au_result = ''error:vault-layout-drift'',
        au_method = None, au_grant_id = None, au_agent_name = None\<rparr> st)"

definition reloadSecretsIfVaultChanged :: "env \<Rightarrow> bool \<Rightarrow> broker \<Rightarrow> broker" where
  "reloadSecretsIfVaultChanged e force st =
     (case refreshVaultIfChanged e force st of None \<Rightarrow> failClosedOnVaultDrift e st | Some st' \<Rightarrow> st')"

definition reload_config :: "env \<Rightarrow> config \<Rightarrow> broker \<Rightarrow> broker" where
  "reload_config e cfg st = reloadSecretsIfVaultChanged e True (st\<lparr>broker_config := Some cfg\<rparr>)"

definition getStatus :: "broker \<Rightarrow> vb_response" where
  "getStatus st = VStatus (secrets st \<noteq> None) (case secrets st of None \<Rightarrow> 0 | Some secs \<Rightarrow> length secs)"

definition locked_response :: vb_response where
  "locked_response = VErr LOCKED ''Vault is locked''"

section \<open>preflight_access\<close>

definition preflight_key :: "config option \<Rightarrow> secret_map \<Rightarrow> string \<Rightarrow> string \<Rightarrow> preflight_result" where
  "preflight_key cfg secs agent key =
     \<lparr>pf_key = key, pf_exists = (map_of secs key \<noteq> None),
      pf_acl = (case cfg of Some c \<Rightarrow> checkAclByAgent c agent key | None \<Rightarrow> DenyAcl ''broker has no config loaded''),
      pf_scope = checkEntryScope (case map_of secs key of Some entry \<Rightarrow> e_scope entry | None \<Rightarrow> None) (Some agent)\<rparr>"

definition handle_preflight :: "env \<Rightarrow> caller \<Rightarrow> string \<Rightarrow> string list \<Rightarrow> broker \<Rightarrow> vb_response option \<times> broker" where
  "handle_preflight e c agent keys st =
     (if \<not> isOperator c then
        (Some (VErr VDENIED ''preflight_access is operator-only''),
         writeAudit e c ''preflight_access'' None ''denied:operator-only'' None None st)
      else
        (let st1 = reloadSecretsIfVaultChanged e False st
         in case secrets st1 of None \<Rightarrow> (Some locked_response, st1)
            | Some secs \<Rightarrow>
                (Some (VPreflight (map (preflight_key (broker_config st1) secs agent) keys)),
                 writeAudit e c ''preflight_access'' None
                   (''allowed:agent='' @ agent @ '',keys='' @ show_nat (length keys)) None None st1)))"

section \<open>list\<close>

definition unidentified :: string where
  "unidentified = ''Unable to identify caller (no per-agent socket identity); denying on Linux''"

text \<open>The keys visible without a token.\<close>

definition visible_entry :: "caller \<Rightarrow> config option \<Rightarrow> string \<times> VaultEntry \<Rightarrow> bool" where
  "visible_entry c cfg kv =
     (if isOperator c then allows (checkEntryScope (e_scope (snd kv)) (Some ''operator''))
      else (case (agentName c, cfg) of
          (Some a, Some conf) \<Rightarrow> allows (checkAclByAgent conf a (fst kv)) \<and> allows (checkEntryScope (e_scope (snd kv)) (Some a))
        | _ \<Rightarrow> allows (checkEntryScope (e_scope (snd kv)) (agentName c))))"

definition list_peercred :: "env \<Rightarrow> caller \<Rightarrow> broker \<Rightarrow> vb_response option \<times> broker" where
  "list_peercred e c st =
     (if \<not> isOperator c \<and> agentName c = None \<and> platform_linux e then
        (Some (VErr VDENIED unidentified), audit_op e c ''list'' None (''denied:'' @ unidentified) None None st)
      else (case secrets st of None \<Rightarrow> (None, st)
        | Some secs \<Rightarrow>
            (let visibleKeys = map fst (filter (visible_entry c (broker_config st)) secs)
             in (Some (VKeys visibleKeys),
                 audit_op e c ''list'' None (''allowed:'' @ show_nat (length visibleKeys)) None None st))))"

definition token_grant_id :: "string \<Rightarrow> string option" where
  "token_grant_id token = map_option (\<lambda>dotIdx. take dotIdx token) (indexOf_char token (CHR ''.''))"

text \<open>
  \<open>list\<close> with a token, after the validation: the row is read again from the table when the sentinel key was
  not covered, and only keys present in the vault are named. (The code tests with \<open>in\<close>, which also finds the twelve
  names every JavaScript object inherits, such as \<open>constructor\<close>; the model has own keys only.)
\<close>

definition list_token :: "env \<Rightarrow> caller \<Rightarrow> string \<Rightarrow> DenyReason + GrantRow \<Rightarrow> broker \<Rightarrow> vb_response option \<times> broker" where
  "list_token e c token tokenCheck st =
     (if tokenCheck = Inl GrantRevoked then
        (Some (VErr VDENIED ''grant-revoked''),
         audit_op e c ''list'' None ''denied:grant-revoked'' (Some ''grant'') (token_grant_id token) st)
      else if isl tokenCheck \<and> tokenCheck \<noteq> Inl GrantKeyNotAllowed then list_peercred e c st
      else
        (let allowedKeys = (case tokenCheck of Inr grant \<Rightarrow> g_key_allow grant
               | Inl _ \<Rightarrow> (case sql_get (\<lambda>r. g_id r = (case token_grant_id token of Some i \<Rightarrow> i | None \<Rightarrow> [])) (rows (grantsDb st)) of
                   None \<Rightarrow> [] | Some row \<Rightarrow> g_key_allow row))
         in if allowedKeys \<noteq> [] \<and> secrets st = None then (None, st)
            else (let visibleKeys = filter (\<lambda>k. map_of (the (secrets st)) k \<noteq> None) allowedKeys
                  in (Some (VKeys visibleKeys),
                      audit_op e c ''list'' None (''allowed:'' @ show_nat (length visibleKeys)) (Some ''grant'') (token_grant_id token) st))))"

section \<open>get\<close>

text \<open>The path without a token: the operator by scope, an agent by ACL and scope.\<close>

definition get_scoped :: "env \<Rightarrow> caller \<Rightarrow> string \<Rightarrow> broker \<Rightarrow> vb_response option \<times> broker" where
  "get_scoped e c key st =
     (case secrets st of None \<Rightarrow> (None, st)
      | Some secs \<Rightarrow> (case map_of secs key of
          None \<Rightarrow> (Some (VErr UNKNOWN_KEY (''Key not found: '' @ key)),
            audit_op e c ''get'' (Some key) ''error:UNKNOWN_KEY'' None None st)
        | Some entry \<Rightarrow> (case checkEntryScope (e_scope entry) (agentName c) of
            DenyAcl reason \<Rightarrow> (Some (VErr VDENIED reason), audit_op e c ''get'' (Some key) (''denied:'' @ reason) None None st)
          | Allow \<Rightarrow> audited_release e c key None None (entryResponse entry) st)))"

definition get_acl :: "env \<Rightarrow> caller \<Rightarrow> string \<Rightarrow> broker \<Rightarrow> vb_response option \<times> broker" where
  "get_acl e c key st =
     (if isOperator c then
        (case secrets st of None \<Rightarrow> (None, st)
         | Some secs \<Rightarrow> (case map_of secs key of None \<Rightarrow> get_scoped e c key st
           | Some entry \<Rightarrow> (case checkEntryScope (e_scope entry) (Some ''operator'') of
               DenyAcl reason \<Rightarrow> (Some (VErr VDENIED reason), writeAudit e c ''get'' (Some key) (''denied:'' @ reason) None None st)
             | Allow \<Rightarrow> get_scoped e c key st)))
      else (case (agentName c, broker_config st) of
          (Some a, Some cfg) \<Rightarrow> (case checkAclByAgent cfg a key of
              DenyAcl reason \<Rightarrow> (Some (VErr VDENIED reason), writeAudit e c ''get'' (Some key) (''denied:'' @ reason) None None st)
            | Allow \<Rightarrow> get_scoped e c key st)
        | (None, _) \<Rightarrow>
            if platform_linux e then
              (Some (VErr VDENIED unidentified), audit_op e c ''get'' (Some key) (''denied:'' @ unidentified) None None st)
            else get_scoped e c key st
        | (Some a, None) \<Rightarrow> get_scoped e c key st))"

text \<open>\<open>reapUnusableGrantToken\<close>: truncate the token file that holds exactly the dead token presented.\<close>

definition reapUnusableGrantToken :: "env \<Rightarrow> string option \<Rightarrow> string \<Rightarrow> DenyReason \<Rightarrow> broker \<Rightarrow> broker" where
  "reapUnusableGrantToken e agent presentedToken reason st =
     (if reason \<noteq> GrantInvalid \<and> reason \<noteq> GrantExpired then st
      else (case agent of None \<Rightarrow> st
        | Some a \<Rightarrow>
            if a = [] then st
            else (case map_of (token_files st) a of None \<Rightarrow> st
              | Some onDisk \<Rightarrow>
                  if js_trim onDisk = [] then st
                  else if js_trim onDisk \<noteq> js_trim presentedToken then st
                  else if token_truncate_ok e then st\<lparr>token_files := AList.update a [] (token_files st)\<rparr>
                  else st)))"

definition get_token :: "env \<Rightarrow> caller \<Rightarrow> string \<Rightarrow> string \<Rightarrow> DenyReason + GrantRow \<Rightarrow> broker \<Rightarrow> vb_response option \<times> broker" where
  "get_token e c key token grantResult st =
     (case grantResult of
        Inr grant \<Rightarrow>
          (let gid = Some (g_id grant); refuse = (\<lambda>code msg result. (Some (VErr code msg),
               audit_op e c ''get'' (Some key) result (Some ''grant'') gid st))
           in if agentName c \<noteq> None \<and> agentName c \<noteq> Some (g_agent_slug grant) then
                refuse VDENIED ''grant-identity-mismatch'' ''denied:grant-identity-mismatch''
              else (case secrets st of None \<Rightarrow> (None, st)
                | Some secs \<Rightarrow> (case map_of secs key of
                    None \<Rightarrow> refuse UNKNOWN_KEY (''Key not found: '' @ key) ''error:UNKNOWN_KEY''
                  | Some entry \<Rightarrow> (case checkEntryScope (e_scope entry) (Some (g_agent_slug grant)) of
                      DenyAcl reason \<Rightarrow> refuse VDENIED reason (''denied:'' @ reason)
                    | Allow \<Rightarrow> audited_release e c key (Some ''grant'') gid (entryResponse entry) st))))
      | Inl reason \<Rightarrow>
          if reason = GrantRevoked then
            (Some (VErr VDENIED ''grant-revoked''),
             audit_op e c ''get'' (Some key) ''denied:grant-revoked'' (Some ''grant'') (token_grant_id token) st)
          else get_acl e c key (reapUnusableGrantToken e (agentName c) token reason st))"

section \<open>put\<close>

definition given :: "string option \<Rightarrow> bool" where
  "given s \<longleftrightarrow> (case s of None \<Rightarrow> False | Some v \<Rightarrow> v \<noteq> [])"

definition posture_mode :: "broker \<Rightarrow> string" where
  "posture_mode st = (case broker_config st of None \<Rightarrow> ''passphrase''
     | Some cfg \<Rightarrow> (case approvalAuth cfg of None \<Rightarrow> ''passphrase'' | Some m \<Rightarrow> m))"

definition posture_agents :: "broker \<Rightarrow> string list" where
  "posture_agents st = (case broker_config st of None \<Rightarrow> [] | Some cfg \<Rightarrow> postureMintAgents cfg)"

text \<open>The attestation of a write: refused, or whether \<open>passphraseAttested\<close> is set.\<close>

definition put_attest :: "env \<Rightarrow> caller \<Rightarrow> put_request \<Rightarrow> broker \<Rightarrow> (vb_response + bool) \<times> broker" where
  "put_attest e c q st =
     (let aud = (\<lambda>result method. writeAudit e c ''put'' (Some (q_key q)) result method None st);
          refuse = (\<lambda>code msg result. (Inl (VErr code msg), aud result None))
      in if q_posture q \<and> given (q_passphrase q) then
           refuse VBAD_REQUEST ''put: passphrase and attest_via_posture are mutually exclusive'' ''denied:bad-request-both-attestations''
         else if q_posture q then
           (case agentName c of
              None \<Rightarrow> refuse VDENIED ''put attest_via_posture is per-agent only'' ''denied:posture-attest-needs-per-agent-peer''
            | Some a \<Rightarrow>
                if posture_mode st \<noteq> ''telegram-id'' then
                  refuse VDENIED ''put attest_via_posture requires vault.broker.approvalAuth: telegram-id in broker config''
                    ''denied:telegram-id-not-enabled''
                else if a \<notin> set (posture_agents st) then
                  refuse VDENIED (''agent '' @ quoted a @ '' is not on vault.broker.postureMintAgents - operator must opt this agent into posture-attested put'')
                    ''denied:posture-agent-not-allowlisted''
                else (Inr True, aud ''allowed:posture-attested'' (Some ''posture'')))
         else if given (q_passphrase q) then
           (if q_passphrase q = passphrase st then (Inr True, st)
            else (Inl (VErr VDENIED ''supplied passphrase does not match the broker's unlocked passphrase''),
                  audit_op e c ''put'' (Some (q_key q)) ''denied:passphrase-mismatch'' (Some ''passphrase'') None st))
         else (Inr False, st))"

text \<open>The entry a write leaves: a rotation that is not attested keeps the scope and the format.\<close>

definition next_entry :: "bool \<Rightarrow> put_request \<Rightarrow> VaultEntry option \<Rightarrow> VaultEntry" where
  "next_entry passphraseAttested q existing =
     (let fresh = \<lparr>e_kind = q_kind q, e_value = q_value q, e_format = None, e_scope = None\<rparr>
      in case existing of
           Some old \<Rightarrow> if passphraseAttested then fresh
             else fresh\<lparr>e_format := (if e_kind old = KFiles then None else e_format old), e_scope := e_scope old\<rparr>
         | None \<Rightarrow> fresh)"

definition put_method :: "bool \<Rightarrow> string option \<Rightarrow> string option" where
  "put_method attested wgid = (if attested then Some ''passphrase'' else if wgid \<noteq> None then Some ''grant'' else None)"

text \<open>
  Update in memory, then \<open>saveVault\<close>: the whole dictionary is encrypted under the retained passphrase over
  whatever file is on disk, which gets a fresh stamp. A failing save rolls the memory back. The save and the stamp taken after it are one step here:
  a write of another process between the two, which the code would take for its own, is outside the model.
\<close>

definition put_commit :: "env \<Rightarrow> caller \<Rightarrow> put_request \<Rightarrow> bool \<Rightarrow> string option \<Rightarrow> secret_map \<Rightarrow> broker \<Rightarrow> vb_response option \<times> broker" where
  "put_commit e c q attested wgid secs st =
     (let aud = (\<lambda>result. audit_op e c ''put'' (Some (q_key q)) result (put_method attested wgid) (if attested then None else wgid));
          secs' = AList.update (q_key q) (next_entry attested q (map_of secs (q_key q))) secs
      in case save_error e of
           Some msg \<Rightarrow> (Some (VErr VINTERNAL (''Failed to persist: '' @ msg)), aud (''error:'' @ msg) st)
         | None \<Rightarrow> (Some (VPut (q_key q)),
             aud ''allowed'' (st\<lparr>secrets := Some secs',
               disk := Some \<lparr>f_stamp = next_stamp st, f_pass = passphrase st, f_secrets = secs'\<rparr>,
               next_stamp := Suc (next_stamp st), vaultStamp := Some (next_stamp st), failedVaultStamp := None\<rparr>)))"

definition kind_name :: "entry_kind \<Rightarrow> string" where
  "kind_name k = (case k of KString \<Rightarrow> ''string'' | KBinary \<Rightarrow> ''binary'' | KFiles \<Rightarrow> ''files'')"

definition put_entry :: "env \<Rightarrow> caller \<Rightarrow> put_request \<Rightarrow> bool \<Rightarrow> string option \<Rightarrow> secret_map \<Rightarrow> broker \<Rightarrow> vb_response option \<times> broker" where
  "put_entry e c q attested wgid secs st =
     (let existing = map_of secs (q_key q); aud = (\<lambda>result. audit_op e c ''put'' (Some (q_key q)) result None None st)
      in if existing = None \<and> wgid = None \<and> \<not> attested then
           (Some (VErr UNKNOWN_KEY (''Key not found: '' @ q_key q @ '' (broker put cannot introduce new keys without a write-grant; ask operator to '' @
              quoted (''switchroom vault grant <agent> --write '' @ q_key q) @ '' or set it once via '' @ quoted ''switchroom vault set'' @
              '' from the host)'')), aud ''denied:unknown_key'')
         else (case existing of
             Some old \<Rightarrow>
               if e_kind old \<noteq> q_kind q \<and> \<not> attested then
                 (Some (VErr VBAD_REQUEST (''kind mismatch: existing entry is '' @ quoted (kind_name (e_kind old)) @ '', new entry is '' @
                    quoted (kind_name (q_kind q)))), aud (''denied:kind_mismatch '' @ kind_name (e_kind old) @ ''->'' @ kind_name (q_kind q)))
               else put_commit e c q attested wgid secs st
           | None \<Rightarrow> put_commit e c q attested wgid secs st))"

definition put_path :: "env \<Rightarrow> caller \<Rightarrow> put_request \<Rightarrow> bool \<Rightarrow> string option \<Rightarrow> broker \<Rightarrow> vb_response option \<times> broker" where
  "put_path e c q attested wgid st =
     (if wgid = None \<and> \<not> attested \<and> agentName c = None then
        (Some (VErr VDENIED ''put requires path-as-identity, a valid write-grant token, or operator-passphrase attestation''), st)
      else (case broker_config st of
          None \<Rightarrow> (Some (VErr VINTERNAL ''Broker config not loaded''), st)
        | Some cfg \<Rightarrow>
            (let aud = (\<lambda>reason. audit_op e c ''put'' (Some (q_key q)) (''denied:'' @ reason) None None st);
                 acl = (if wgid = None \<and> \<not> attested then checkAclByAgent cfg (the (agentName c)) (q_key q) else Allow)
             in case acl of
                  DenyAcl reason \<Rightarrow> (Some (VErr VDENIED reason), aud reason)
                | Allow \<Rightarrow> (case secrets st of None \<Rightarrow> (None, st)
                    | Some secs \<Rightarrow>
                        (let scope = (if wgid = None \<and> \<not> attested
                               then (case map_of secs (q_key q) of None \<Rightarrow> Allow | Some old \<Rightarrow> checkEntryScope (e_scope old) (agentName c))
                               else Allow)
                         in case scope of
                              DenyAcl reason \<Rightarrow> (Some (VErr VDENIED reason), aud reason)
                            | Allow \<Rightarrow> put_entry e c q attested wgid secs st)))))"

text \<open>\<open>put\<close> after the validation of its write token.\<close>

definition put_token :: "env \<Rightarrow> caller \<Rightarrow> put_request \<Rightarrow> bool \<Rightarrow> DenyReason + GrantRow \<Rightarrow> broker \<Rightarrow> vb_response option \<times> broker" where
  "put_token e c q attested v st =
     (case v of
        Inr grant \<Rightarrow>
          (let refuse = (\<lambda>msg. (Some (VErr VDENIED msg),
               audit_op e c ''put'' (Some (q_key q)) (''denied:'' @ msg) (Some ''grant'') (Some (g_id grant)) st))
           in if agentName c \<noteq> None \<and> agentName c \<noteq> Some (g_agent_slug grant) then refuse ''grant-identity-mismatch''
              else (case secrets st of None \<Rightarrow> (None, st)
                | Some secs \<Rightarrow>
                    (case (case map_of secs (q_key q) of None \<Rightarrow> Allow | Some old \<Rightarrow> checkEntryScope (e_scope old) (Some (g_agent_slug grant))) of
                       DenyAcl reason \<Rightarrow> refuse reason
                     | Allow \<Rightarrow> put_path e c q attested (Some (g_id grant)) st)))
      | Inl reason \<Rightarrow>
          if reason = GrantExpired \<or> reason = GrantRevoked then
            (let msg = (if reason = GrantExpired then ''grant-expired'' else ''grant-revoked'')
             in (Some (VErr VDENIED msg), audit_op e c ''put'' (Some (q_key q)) (''denied:'' @ msg) (Some ''grant'') None st))
          else put_path e c q attested None st)"

text \<open>\<open>put\<close> up to its \<open>await\<close>: refused, or ready with its attestation.\<close>

definition put_checks :: "env \<Rightarrow> caller \<Rightarrow> put_request \<Rightarrow> broker \<Rightarrow> (vb_response + bool) \<times> broker" where
  "put_checks e c q st =
     (let st1 = reloadSecretsIfVaultChanged e False st
      in if secrets st1 = None \<or> passphrase st1 = None then (Inl locked_response, st1)
         else if failedVaultStamp st1 \<noteq> None then
           (Inl (VErr VINTERNAL (''put refused: the vault file on disk changed and could not be decrypted with the passphrase this broker holds. '' @
              ''Writing now would overwrite it with the broker's older in-memory state. Restore the vault file the broker was unlocked with, or '' @
              ''restart the broker and unlock it with the current passphrase (reads keep serving the previously loaded secrets meanwhile).'')),
            writeAudit e c ''put'' (Some (q_key q)) ''denied:vault-file-unreadable'' None None st1)
         else put_attest e c q st1)"

end
