(* ===== verification/Broker_Grant_Ops.thy ===== *)
theory Broker_Grant_Ops
  imports Vault_Broker
begin

text \<open>
  The grant management of the vault broker (\<open>mint_grant\<close>, \<open>list_grants\<close>, \<open>revoke_grant\<close> in
  \<open>src/vault/broker/server.ts\<close>) behind its trust gate, the approval operations the broker serves on the
  same database, and the dispatcher \<open>_handleRequest\<close> as a step function with pending token validations.
\<close>

section \<open>The trust gate\<close>

record mint_request =
  q_agent :: string
  q_keys :: "string list"
  q_ttl :: "int option"
  q_description :: "string option"
  q_write_keys :: "string list"
  q_mint_passphrase :: "string option"
  q_mint_posture :: bool
  q_decision_id :: "string option"

datatype grant_op =
    MintOp mint_request
  | ListOp "string option" "string option" bool
  | RevokeOp string

definition grant_op_name :: "grant_op \<Rightarrow> string" where
  "grant_op_name oper = (case oper of MintOp _ \<Rightarrow> ''mint_grant'' | ListOp _ _ _ \<Rightarrow> ''list_grants'' | RevokeOp _ \<Rightarrow> ''revoke_grant'')"

definition op_passphrase :: "grant_op \<Rightarrow> string option" where
  "op_passphrase oper = (case oper of MintOp q \<Rightarrow> q_mint_passphrase q | ListOp _ p _ \<Rightarrow> p | RevokeOp _ \<Rightarrow> None)"

definition op_posture :: "grant_op \<Rightarrow> bool" where
  "op_posture oper = (case oper of MintOp q \<Rightarrow> q_mint_posture q | ListOp _ _ b \<Rightarrow> b | RevokeOp _ \<Rightarrow> False)"

definition isAdminAgent :: "caller \<Rightarrow> broker \<Rightarrow> bool" where
  "isAdminAgent c st =
     (case (agentName c, broker_config st) of
        (Some a, Some cfg) \<Rightarrow> (case map_of (agents cfg) a of None \<Rightarrow> False | Some ac \<Rightarrow> a_admin ac \<or> a_root ac)
      | _ \<Rightarrow> False)"

text \<open>The keys a posture mint may retain: those of the agent's active grants, read and write patterns alike.\<close>

definition retained_keys :: "string \<Rightarrow> broker \<Rightarrow> string list" where
  "retained_keys a st =
     concat (map (\<lambda>g. g_key_allow g @ g_write_allow g)
       (filter (\<lambda>g. case g_expires_at g of None \<Rightarrow> True | Some x \<Rightarrow> unix_seconds (grantsDb st) < x) (listGrants (Some a) (grantsDb st))))"

definition admin_only_patterns :: "broker \<Rightarrow> string list" where
  "admin_only_patterns st = (case broker_config st of None \<Rightarrow> [] | Some cfg \<Rightarrow> adminOnlyKeys cfg)"

definition blocked_keys :: "string \<Rightarrow> mint_request \<Rightarrow> broker \<Rightarrow> string list" where
  "blocked_keys a q st =
     (if 0 < length (admin_only_patterns st)
      then adminOnlyKeysBeingAdded (q_keys q @ q_write_keys q) (retained_keys a st) (admin_only_patterns st)
      else [])"

text \<open>The checks of an operation that claims posture attestation, in the order of the code; \<open>None\<close> when all pass.\<close>

definition posture_refusal :: "env \<Rightarrow> caller \<Rightarrow> grant_op \<Rightarrow> broker \<Rightarrow> (vb_error \<times> string \<times> string) option" where
  "posture_refusal e c oper st =
     (case agentName c of
        None \<Rightarrow> Some (VDENIED, ''mint_grant attest_via_posture is per-agent only'', ''denied:posture-attest-needs-per-agent-peer'')
      | Some a \<Rightarrow>
          if posture_mode st \<noteq> ''telegram-id'' then
            Some (VDENIED, ''mint_grant attest_via_posture requires vault.broker.approvalAuth: telegram-id in broker config'',
              ''denied:telegram-id-not-enabled'')
          else if a \<notin> set (posture_agents st) then
            Some (VDENIED, ''agent '' @ quoted a @ '' is not on vault.broker.postureMintAgents - operator must opt this agent into posture-attested mint'',
              ''denied:posture-agent-not-allowlisted'')
          else (case oper of
              MintOp q \<Rightarrow>
                if q_agent q \<noteq> a then
                  Some (VDENIED, ''posture-attested mint refused: request.agent='' @ q_agent q @ '' but calling peer is '' @ a,
                    ''denied:posture-cross-agent-mint-refused'')
                else if 0 < length (blocked_keys a q st) then
                  Some (VDENIED, ''admin-only credential(s) '' @ concat (map (\<lambda>k. k @ '', '') (blocked_keys a q st)) @
                    ''cannot be minted via posture attestation - they require the operator passphrase (vault.broker.adminOnlyKeys)'',
                    ''denied:posture-mint-admin-only-key'')
                else if passphrase st = None then Some (LOCKED, ''Broker is locked'', ''denied:broker-locked'')
                else if require_operator_mint e \<and>
                    \<not> isOperatorVerifiedDecision
                        (if given (q_decision_id q) then getDecision (the (q_decision_id q)) (approvalsDb st) else None)
                        a (wall_clock (approvalsDb st)) then
                  Some (VDENIED, ''posture-attested mint requires an operator-verified approval (host-side tap); none referenced. '' @
                    ''See RFC vault-approval-hard-boundary.'', ''denied:posture-mint-needs-operator-verified-decision'')
                else None
            | ListOp reqAgent _ _ \<Rightarrow>
                if reqAgent \<noteq> None \<and> reqAgent \<noteq> Some a then
                  Some (VDENIED, ''posture-attested list refused: request.agent='' @ the reqAgent @ '' but calling peer is '' @ a,
                    ''denied:posture-cross-agent-list-refused'')
                else if passphrase st = None then Some (LOCKED, ''Broker is locked'', ''denied:broker-locked'')
                else None
            | RevokeOp _ \<Rightarrow> None))"

text \<open>
  The gate: refused, or passed with the flag \<open>mintPassphraseAttested\<close>. The operator and admin agents pass by
  identity, any other agent by attestation only, a caller without identity if peercred found its peer.
\<close>

definition grant_gate :: "env \<Rightarrow> caller \<Rightarrow> grant_op \<Rightarrow> broker \<Rightarrow> (vb_response + bool) \<times> broker" where
  "grant_gate e c oper st =
     (let aud = (\<lambda>result method s. writeAudit e c (grant_op_name oper) None result method None s);
          byPass = given (op_passphrase oper); byPosture = op_posture oper
      in if byPass \<and> byPosture then
           (Inl (VErr VBAD_REQUEST ''mint_grant: passphrase and attest_via_posture are mutually exclusive''),
            aud ''denied:bad-request-both-attestations'' None st)
         else if byPass \<and> op_passphrase oper \<noteq> passphrase st then
           (Inl (VErr VDENIED ''supplied passphrase does not match the broker's unlocked passphrase''),
            aud ''denied:passphrase-mismatch'' (Some ''passphrase'') st)
         else (case (if byPosture then posture_refusal e c oper st else None) of
             Some (code, msg, result) \<Rightarrow> (Inl (VErr code msg), aud result None st)
           | None \<Rightarrow>
               (let st1 = (if byPosture then aud ''allowed:posture-attested'' (Some ''posture'') st else st)
                in if isOperator c then (Inr byPass, st1)
                   else (case agentName c of
                       Some a \<Rightarrow>
                         if isAdminAgent c st then (Inr byPass, st1)
                         else if byPass then (Inr True, aud ''allowed:passphrase-attested'' (Some ''passphrase'') st1)
                         else if byPosture then (Inr False, st1)
                         else (Inl (VErr VDENIED (''Grant management ops are operator-only; agent-bound listeners cannot mint, list, or revoke grants '' @
                             ''(set `admin: true` on this agent in switchroom.yaml + restart broker, OR forward operator-passphrase attestation '' @
                             ''if intended - see vault_request_access flow)'')), aud ''denied:agent-cannot-manage-grants'' None st1)
                     | None \<Rightarrow>
                         if \<not> byPass \<and> peer_label c = None \<and> \<not> allowNonLinux e then
                           (Inl (VErr VDENIED ''peercred unavailable; cannot verify operator identity''),
                            audit_op e c (grant_op_name oper) None ''denied:peercred-unavailable'' None None st1)
                         else (Inr byPass, st1)))))"

section \<open>The operations behind the gate\<close>

text \<open>
  \<open>mint_grant\<close> awaits the bcrypt hash between the gate and the insert; the model makes the two one step, so nothing
  comes between them.
\<close>

definition handle_mint :: "crypto \<Rightarrow> env \<Rightarrow> caller \<Rightarrow> mint_request \<Rightarrow> broker \<Rightarrow> vb_response \<times> broker" where
  "handle_mint k e c q st =
     (let aud = (\<lambda>result method gid s. audit_op e c ''mint_grant'' None result method gid s)
      in if length (q_keys q) = 0 \<and> length (q_write_keys q) = 0 then
           (VErr VBAD_REQUEST ''mint_grant requires at least one of `keys` or `write_keys` to be non-empty'', aud ''denied:no-capabilities'' None None st)
         else (case mintGrant (c_hash k) (rnd_hex e) (rnd_secret e) (rnd_salt e) (q_agent q) (q_keys q) (q_ttl q) (q_description q)
                 (q_write_keys q) (grantsDb st) of
             Inl _ \<Rightarrow> (VErr VINTERNAL ''Failed to mint grant: UNIQUE constraint failed'', aud ''error:UNIQUE constraint failed'' None None st)
           | Inr (minted, db) \<Rightarrow>
               (let st1 = st\<lparr>grantsDb := db\<rparr>; gid = Some (m_id minted)
                in case token_write_error e of
                     Some msg \<Rightarrow>
                       (case revokeGrant (m_id minted) db of (rolledBack, db2) \<Rightarrow>
                         (VErr VINTERNAL (''Failed to write token file for agent '' @ q_agent q @ '': '' @ msg @ '' ('' @
                            (if rolledBack then ''grant rolled back (revoked)''
                             else ''GRANT ROLLBACK FAILED - revoke '' @ m_id minted @ '' manually'') @ '')''),
                          aud (''error:token-write-failed:'' @ msg) (Some ''grant'') gid (st1\<lparr>grantsDb := db2\<rparr>)))
                   | None \<Rightarrow>
                       (VMinted (m_token minted) (m_id minted) (m_expires_at minted),
                        aud ''allowed'' (Some ''grant'') gid
                          (st1\<lparr>token_files := AList.update (q_agent q) (m_token minted) (token_files st1)\<rparr>)))))"

definition handle_list_grants :: "env \<Rightarrow> caller \<Rightarrow> string option \<Rightarrow> bool \<Rightarrow> broker \<Rightarrow> vb_response \<times> broker" where
  "handle_list_grants e c agent attested st =
     (let grants = listGrants agent (grantsDb st)
      in (VGrants (map (\<lambda>g. g\<lparr>g_revoked_at := None\<rparr>) grants),
          audit_op e c ''list_grants'' None (''allowed:'' @ show_nat (length grants)) (if attested then Some ''passphrase'' else None) None st))"

definition valid_agent_name :: "string \<Rightarrow> bool" where
  "valid_agent_name s \<longleftrightarrow> length s \<le> 64 \<and> slug_ok s \<and> \<not> isReservedAgentName s"

definition handle_revoke_grant :: "env \<Rightarrow> caller \<Rightarrow> string \<Rightarrow> broker \<Rightarrow> vb_response \<times> broker" where
  "handle_revoke_grant e c i st =
     (case revokeGrant i (grantsDb st) of (revoked, db) \<Rightarrow>
        (let st1 = st\<lparr>grantsDb := db\<rparr>;
             st2 = (case sql_get (\<lambda>r. g_id r = i) (rows db) of None \<Rightarrow> st1
                | Some row \<Rightarrow> if valid_agent_name (g_agent_slug row) \<and> token_truncate_ok e
                    then st1\<lparr>token_files := AList.delete (g_agent_slug row) (token_files st1)\<rparr> else st1)
         in (VRevoked revoked,
             audit_op e c ''revoke_grant'' None (if revoked then ''allowed'' else ''error:not-found'') (Some ''grant'') (Some i) st2)))"

definition handle_grant_op :: "crypto \<Rightarrow> env \<Rightarrow> caller \<Rightarrow> grant_op \<Rightarrow> broker \<Rightarrow> vb_response \<times> broker" where
  "handle_grant_op k e c oper st =
     (case grant_gate e c oper st of
        (Inl resp, st1) \<Rightarrow> (resp, st1)
      | (Inr attested, st1) \<Rightarrow>
          (case oper of MintOp q \<Rightarrow> handle_mint k e c q st1
           | ListOp agent _ _ \<Rightarrow> handle_list_grants e c agent attested st1
           | RevokeOp i \<Rightarrow> handle_revoke_grant e c i st1))"

section \<open>Approval operations\<close>

text \<open>\<open>_handleApprovalOp\<close>: the caller plays no part in it.\<close>

definition handleApprovalOp :: "env \<Rightarrow> BrokerRequest \<Rightarrow> kernel_db \<Rightarrow> BrokerResponse \<times> kernel_db" where
  "handleApprovalOp e req db =
     (let now = wall_clock db; failed = (RespError INTERNAL ''UNIQUE constraint failed'', db)
      in case req of
           ApprovalRequest a scope action approvers why ttl \<Rightarrow>
             (let counts = countPendingNonces db now; perAgentN = fst counts a
              in if MAX_PENDING_PER_AGENT \<le> perAgentN \<or> MAX_PENDING_GLOBAL \<le> snd counts then
                   (RespRateLimited (computeRetryAfterMs db (if MAX_PENDING_PER_AGENT \<le> perAgentN then Some a else None) now), db)
                 else (case requestApproval (rnd_request_id e)
                     \<lparr>i_agent_unit = a, i_scope = scope, i_action = action, i_approver_set = approvers, i_why = why,
                      i_ttl_ms = ttl, i_peer_uid = None, i_agent_name = None\<rparr> now db of
                     Inl _ \<Rightarrow> failed | Inr (res, db') \<Rightarrow> (RespPending (fst res) (snd res), db')))
         | ApprovalLookup a scope action approvers \<Rightarrow>
             (case lookupDecision a scope action approvers None now db of (r, db') \<Rightarrow>
                (RespLookup (lookup_state r) (case r of Granted d \<Rightarrow> Some (decision_meta None d) | Denied d \<Rightarrow> Some (decision_meta None d) | _ \<Rightarrow> None), db'))
         | ApprovalConsume rid \<Rightarrow>
             (case consumeNonce rid now db of
                (None, db') \<Rightarrow> (RespNotConsumed, db')
              | (Some n, db') \<Rightarrow> (RespConsumed None (n_agent_unit n) (n_scope n) (n_action n) (n_why n), db'))
         | ApprovalRevoke did actor reason \<Rightarrow>
             (case revokeDecision did actor reason now db of (b, db') \<Rightarrow> (RespRevoked b, db'))
         | ApprovalRecord rid mode approvers user ttl \<Rightarrow>
             (case getNonce rid db of
                None \<Rightarrow> (RespError BAD_REQUEST ''unknown request_id'', db)
              | Some nonce \<Rightarrow>
                  if consumed_at nonce = None then
                    (RespError BAD_REQUEST ''nonce must be consumed before recording - call approval_consume first'', db)
                  else (case recordDecision (rnd_uuid e)
                      \<lparr>r_nonce = nonce, r_decision = mode, r_approver_set = approvers, r_granted_by_user_id = user,
                       r_ttl_ms = ttl, r_origin = None, r_max_ttl_lifetime_ms = None\<rparr> now db of
                      Inl _ \<Rightarrow> failed | Inr (did, db') \<Rightarrow> (RespRecorded did, db')))
         | ApprovalList a \<Rightarrow> (RespDecisions (map (decision_meta None) (listDecisions a False now db)), db)
         | ApprovalLookupByRequest _ _ _ \<Rightarrow> (RespError BAD_REQUEST ''Unknown op: approval_lookup_by_request'', db)
         | ApprovalConsumeRecord _ _ _ _ _ \<Rightarrow> (RespError BAD_REQUEST ''Unknown op: approval_consume_record'', db)
         | OtherOp name \<Rightarrow> (RespError BAD_REQUEST (''Unknown op: '' @ name), db))"

section \<open>The dispatcher\<close>

datatype vb_request =
    StatusReq
  | LockReq
  | PreflightReq string "string list"
  | ListReq "string option"
  | GetReq string "string option"
  | PutReq put_request
  | GrantReq grant_op
  | ApprovalReq BrokerRequest

text \<open>A request that awaits the validation of its token.\<close>

datatype suspended =
    ListWait caller string validation
  | GetWait caller string string validation
  | PutWait caller put_request bool validation

text \<open>
  The first half of a request: answered at once, or suspended. A token that names no row is refused
  before any comparison, so its request goes on at once.
\<close>

definition begin_validation ::
  "crypto \<Rightarrow> bool \<Rightarrow> string \<Rightarrow> string \<Rightarrow> (validation \<Rightarrow> suspended)
   \<Rightarrow> (DenyReason + GrantRow \<Rightarrow> broker \<Rightarrow> vb_response option \<times> broker) \<Rightarrow> broker \<Rightarrow> (vb_response option + suspended) \<times> broker"
where
  "begin_validation k write token key wait cont st =
     (case validate_begin (c_sha256 k) write token key (grantsDb st) of
        Inl reason \<Rightarrow> (case cont (Inl reason) st of (r, st1) \<Rightarrow> (Inl r, st1))
      | Inr (v, db) \<Rightarrow> (Inr (wait v), st\<lparr>grantsDb := db\<rparr>))"

definition handle_begin :: "crypto \<Rightarrow> env \<Rightarrow> caller \<Rightarrow> vb_request \<Rightarrow> broker \<Rightarrow> (vb_response option + suspended) \<times> broker" where
  "handle_begin k e c req st =
     (let now_answer = (\<lambda>p. (Inl (fst p), snd p))
      in case req of
           StatusReq \<Rightarrow> (Inl (Some (getStatus st)), st)
         | LockReq \<Rightarrow> (Inl (Some VLocked), audit_op e c ''lock'' None ''allowed'' None None (lock_broker st))
         | PreflightReq agent keys \<Rightarrow> now_answer (handle_preflight e c agent keys st)
         | ListReq token \<Rightarrow>
             (let st1 = reloadSecretsIfVaultChanged e False st
              in case secrets st1 of None \<Rightarrow> (Inl (Some locked_response), st1)
                 | Some secs \<Rightarrow> (case token of None \<Rightarrow> now_answer (list_peercred e c st1)
                   | Some t \<Rightarrow> begin_validation k False t (case secs of [] \<Rightarrow> ''__list_check__'' | kv # _ \<Rightarrow> fst kv)
                       (ListWait c t) (list_token e c t) st1))
         | GetReq key token \<Rightarrow>
             (let st1 = reloadSecretsIfVaultChanged e False st
              in case secrets st1 of None \<Rightarrow> (Inl (Some locked_response), st1)
                 | Some secs \<Rightarrow> (case token of None \<Rightarrow> now_answer (get_acl e c key st1)
                   | Some t \<Rightarrow> begin_validation k False t key (GetWait c key t) (get_token e c key t) st1))
         | PutReq q \<Rightarrow>
             (case put_checks e c q st of
                (Inl resp, st1) \<Rightarrow> (Inl (Some resp), st1)
              | (Inr attested, st1) \<Rightarrow>
                  if given (q_token q)
                  then begin_validation k True (the (q_token q)) (q_key q) (PutWait c q attested) (put_token e c q attested) st1
                  else now_answer (put_path e c q attested None st1))
         | GrantReq oper \<Rightarrow> (case handle_grant_op k e c oper st of (r, st1) \<Rightarrow> (Inl (Some r), st1))
         | ApprovalReq r \<Rightarrow> (case handleApprovalOp e r (approvalsDb st) of
             (resp, db) \<Rightarrow> (Inl (Some (VApproval resp)), st\<lparr>approvalsDb := db\<rparr>)))"

text \<open>The second half, in the state the broker is in when the comparison is done.\<close>

definition handle_resume :: "crypto \<Rightarrow> env \<Rightarrow> suspended \<Rightarrow> broker \<Rightarrow> vb_response option \<times> broker" where
  "handle_resume k e w st =
     (let judged = (\<lambda>v cont. case validate_resume (c_compare k) (c_sha256 k) v (grantsDb st) of
            (result, db) \<Rightarrow> cont result (st\<lparr>grantsDb := db\<rparr>))
      in case w of
           ListWait c t v \<Rightarrow> judged v (list_token e c t)
         | GetWait c key t v \<Rightarrow> judged v (get_token e c key t)
         | PutWait c q attested v \<Rightarrow> judged v (put_token e c q attested))"

text \<open>A request during whose validation nothing else runs.\<close>

definition handle_request :: "crypto \<Rightarrow> env \<Rightarrow> caller \<Rightarrow> vb_request \<Rightarrow> broker \<Rightarrow> vb_response option \<times> broker" where
  "handle_request k e c req st =
     (case handle_begin k e c req st of
        (Inl r, st1) \<Rightarrow> (r, st1)
      | (Inr w, st1) \<Rightarrow> handle_resume k e w st1)"

end
