(* ===== verification/Broker_System.thy ===== *)
theory Broker_System
  imports Broker_Grant_Ops
begin

text \<open>
  The vault broker as a whole: its requests and continuations interleaved with writes to the vault file by
  other processes, unlocks, configuration reloads and time, and what holds along every such run: which
  releases are justified, that reads see the file, that writes keep what they must, that a locked
  broker gives nothing away, and what the mint gate lets through.
\<close>

section \<open>Frames\<close>

lemma log_row_frame [simp]:
  "secrets (log_row e r st) = secrets st" "passphrase (log_row e r st) = passphrase st"
  "vaultStamp (log_row e r st) = vaultStamp st" "failedVaultStamp (log_row e r st) = failedVaultStamp st"
  "broker_config (log_row e r st) = broker_config st" "grantsDb (log_row e r st) = grantsDb st"
  "approvalsDb (log_row e r st) = approvalsDb st" "disk (log_row e r st) = disk st"
  "next_stamp (log_row e r st) = next_stamp st" "token_files (log_row e r st) = token_files st"
  by (simp_all add: log_row_def)

lemma broker_audit_frame [simp]:
  "secrets (audit_op e c op k r m g st) = secrets st" "secrets (writeAudit e c op k r m g st) = secrets st"
  "passphrase (audit_op e c op k r m g st) = passphrase st" "passphrase (writeAudit e c op k r m g st) = passphrase st"
  "vaultStamp (audit_op e c op k r m g st) = vaultStamp st" "vaultStamp (writeAudit e c op k r m g st) = vaultStamp st"
  "failedVaultStamp (audit_op e c op k r m g st) = failedVaultStamp st" "failedVaultStamp (writeAudit e c op k r m g st) = failedVaultStamp st"
  "broker_config (audit_op e c op k r m g st) = broker_config st" "broker_config (writeAudit e c op k r m g st) = broker_config st"
  "grantsDb (audit_op e c op k r m g st) = grantsDb st" "grantsDb (writeAudit e c op k r m g st) = grantsDb st"
  "approvalsDb (audit_op e c op k r m g st) = approvalsDb st" "approvalsDb (writeAudit e c op k r m g st) = approvalsDb st"
  "disk (audit_op e c op k r m g st) = disk st" "disk (writeAudit e c op k r m g st) = disk st"
  "next_stamp (audit_op e c op k r m g st) = next_stamp st" "next_stamp (writeAudit e c op k r m g st) = next_stamp st"
  "token_files (audit_op e c op k r m g st) = token_files st" "token_files (writeAudit e c op k r m g st) = token_files st"
  by (simp_all add: audit_op_def writeAudit_def)

lemma reap_frame [simp]:
  "secrets (reapUnusableGrantToken e a t r st) = secrets st" "passphrase (reapUnusableGrantToken e a t r st) = passphrase st"
  "vaultStamp (reapUnusableGrantToken e a t r st) = vaultStamp st" "failedVaultStamp (reapUnusableGrantToken e a t r st) = failedVaultStamp st"
  "broker_config (reapUnusableGrantToken e a t r st) = broker_config st" "grantsDb (reapUnusableGrantToken e a t r st) = grantsDb st"
  "approvalsDb (reapUnusableGrantToken e a t r st) = approvalsDb st" "disk (reapUnusableGrantToken e a t r st) = disk st"
  "next_stamp (reapUnusableGrantToken e a t r st) = next_stamp st" "auditLog (reapUnusableGrantToken e a t r st) = auditLog st"
  by (simp_all add: reapUnusableGrantToken_def split: option.split)

text \<open>The part of the state the vault content depends on, as one value.\<close>

definition vault_view :: "broker \<Rightarrow> secret_map option \<times> string option \<times> nat option \<times> nat option \<times> vault_file option \<times> nat" where
  "vault_view st = (secrets st, passphrase st, vaultStamp st, failedVaultStamp st, disk st, next_stamp st)"

lemma vault_view_frame [simp]:
  "vault_view (log_row e r st) = vault_view st" "vault_view (audit_op e c op k r' m g st) = vault_view st"
  "vault_view (writeAudit e c op k r' m g st) = vault_view st" "vault_view (reapUnusableGrantToken e a t d st) = vault_view st"
  "vault_view (st\<lparr>grantsDb := db\<rparr>) = vault_view st" "vault_view (st\<lparr>approvalsDb := kdb\<rparr>) = vault_view st"
  "vault_view (st\<lparr>token_files := tf\<rparr>) = vault_view st"
  by (simp_all add: vault_view_def)

section \<open>What each operation does to the vault\<close>

lemma reads_keep_vault [simp]:
  "vault_view (snd (audited_release e c key m g r st)) = vault_view st"
  "vault_view (snd (get_scoped e c key st)) = vault_view st"
  "vault_view (snd (get_acl e c key st)) = vault_view st"
  "vault_view (snd (get_token e c key t res st)) = vault_view st"
  "vault_view (snd (list_peercred e c st)) = vault_view st"
  "vault_view (snd (list_token e c t res st)) = vault_view st"
proof -
  show 1: "vault_view (snd (audited_release e c key m g r st)) = vault_view st" for m g r st
    by (simp add: audited_release_def Let_def)
  show 2: "vault_view (snd (get_scoped e c key st)) = vault_view st" for st
    by (simp add: get_scoped_def 1 split: option.split AclResult.split)
  show 3: "vault_view (snd (get_acl e c key st)) = vault_view st" for st
    by (simp add: get_acl_def 2 split: option.split AclResult.split)
  show "vault_view (snd (get_token e c key t res st)) = vault_view st"
    by (simp add: get_token_def 1 3 Let_def split: sum.split option.split AclResult.split)
  show 4: "vault_view (snd (list_peercred e c st)) = vault_view st"
    by (simp add: list_peercred_def Let_def split: option.split)
  show "vault_view (snd (list_token e c t res st)) = vault_view st"
    by (simp add: list_token_def 4 Let_def)
qed

lemma grant_ops_keep_vault [simp]:
  "vault_view (snd (grant_gate e c oper st)) = vault_view st"
  "vault_view (snd (handle_mint k e c q st)) = vault_view st"
  "vault_view (snd (handle_list_grants e c ag att st)) = vault_view st"
  "vault_view (snd (handle_revoke_grant e c i st)) = vault_view st"
  "vault_view (snd (handle_grant_op k e c oper st)) = vault_view st"
proof -
  show 1: "vault_view (snd (grant_gate e c oper st)) = vault_view st"
    by (simp add: grant_gate_def Let_def split: option.split prod.split)
  show 2: "vault_view (snd (handle_mint k e c q st)) = vault_view st" for q st
    by (simp add: handle_mint_def Let_def split: sum.split option.split prod.split)
  show 3: "vault_view (snd (handle_list_grants e c ag att st)) = vault_view st" for ag att st
    by (simp add: handle_list_grants_def Let_def)
  show 4: "vault_view (snd (handle_revoke_grant e c i st)) = vault_view st" for i st
    by (simp add: handle_revoke_grant_def Let_def split: option.split prod.split)
  show "vault_view (snd (handle_grant_op k e c oper st)) = vault_view st"
    using 1 2 3 4 by (auto simp: handle_grant_op_def split: prod.split sum.split grant_op.split)
qed

lemma put_attest_keeps_vault [simp]: "vault_view (snd (put_attest e c q st)) = vault_view st"
  by (simp add: put_attest_def Let_def split: option.split)

lemma reload_cases:
  obtains (same) "reloadSecretsIfVaultChanged e force st = st"
  | (drift) "layout_drift e" "reloadSecretsIfVaultChanged e force st = failClosedOnVaultDrift e st"
  | (unreadable) cur where "readVaultStamp st = Some cur" "passphrase st \<noteq> None" "secrets st \<noteq> None"
      "openVault (the (passphrase st)) (disk st) = None"
      "reloadSecretsIfVaultChanged e force st = st\<lparr>failedVaultStamp := Some cur\<rparr>"
  | (loaded) cur secs where "readVaultStamp st = Some cur" "openVault (the (passphrase st)) (disk st) = Some secs"
      "secrets st \<noteq> None" "passphrase st \<noteq> None"
      "reloadSecretsIfVaultChanged e force st = st\<lparr>secrets := Some secs, vaultStamp := Some cur, failedVaultStamp := None\<rparr>"
proof (cases "refreshVaultIfChanged e force st")
  case None
  then show ?thesis using drift by (auto simp: reloadSecretsIfVaultChanged_def refreshVaultIfChanged_def split: option.splits if_splits)
next
  case (Some st')
  then have r: "reloadSecretsIfVaultChanged e force st = st'" by (simp add: reloadSecretsIfVaultChanged_def)
  have "st' = st \<or> (\<exists>cur secs. readVaultStamp st = Some cur \<and> secrets st \<noteq> None \<and> passphrase st \<noteq> None \<and>
      (openVault (the (passphrase st)) (disk st) = None \<and> st' = st\<lparr>failedVaultStamp := Some cur\<rparr>
       \<or> openVault (the (passphrase st)) (disk st) = Some secs
         \<and> st' = st\<lparr>secrets := Some secs, vaultStamp := Some cur, failedVaultStamp := None\<rparr>))"
    using Some unfolding refreshVaultIfChanged_def by (auto split: option.splits if_splits)
  then show ?thesis using r same unreadable loaded by metis
qed

section \<open>The broker as an event system\<close>

text \<open>
  Besides requests and continuations: another process replaces or removes the vault file, the unlock
  socket receives a passphrase, \<open>SIGHUP\<close> swaps the configuration, time passes.
\<close>

datatype vb_event =
    BeginReq env caller vb_request
  | ResumeReq env nat
  | ForeignWrite "string option" secret_map
  | ForeignDelete
  | UnlockReq env string
  | ReloadConfig env config
  | Wait nat

type_synonym vb_system = "broker \<times> suspended list"

fun vb_step :: "crypto \<Rightarrow> vb_event \<Rightarrow> vb_system \<Rightarrow> vb_system" where
  "vb_step k (BeginReq e c req) (st, ws) =
     (case handle_begin k e c req st of (Inl _, st') \<Rightarrow> (st', ws) | (Inr w, st') \<Rightarrow> (st', ws @ [w]))"
| "vb_step k (ResumeReq e n) (st, ws) =
     (if n < length ws then (snd (handle_resume k e (ws ! n) st), take n ws @ drop (Suc n) ws) else (st, ws))"
| "vb_step k (ForeignWrite pass secs) (st, ws) =
     (st\<lparr>disk := Some \<lparr>f_stamp = next_stamp st, f_pass = pass, f_secrets = secs\<rparr>, next_stamp := Suc (next_stamp st)\<rparr>, ws)"
| "vb_step k ForeignDelete (st, ws) = (st\<lparr>disk := None\<rparr>, ws)"
| "vb_step k (UnlockReq e pass) (st, ws) = (case unlockFromPassphrase e pass st of None \<Rightarrow> (st, ws) | Some st' \<Rightarrow> (st', ws))"
| "vb_step k (ReloadConfig e cfg) (st, ws) = (reload_config e cfg st, ws)"
| "vb_step k (Wait d) (st, ws) =
     (st\<lparr>grantsDb := (grantsDb st)\<lparr>clock := clock (grantsDb st) + int d\<rparr>,
         approvalsDb := (approvalsDb st)\<lparr>wall_clock := wall_clock (approvalsDb st) + int d\<rparr>\<rparr>, ws)"

text \<open>The response an event writes to its socket.\<close>

fun vb_answer :: "crypto \<Rightarrow> vb_event \<Rightarrow> vb_system \<Rightarrow> vb_response option" where
  "vb_answer k (BeginReq e c req) (st, ws) = (case fst (handle_begin k e c req st) of Inl r \<Rightarrow> r | Inr _ \<Rightarrow> None)"
| "vb_answer k (ResumeReq e n) (st, ws) = (if n < length ws then fst (handle_resume k e (ws ! n) st) else None)"
| "vb_answer k _ s = None"

definition initial_broker :: "config option \<Rightarrow> int \<Rightarrow> vault_file option \<Rightarrow> broker" where
  "initial_broker cfg t file =
     \<lparr>secrets = None, passphrase = None, vaultStamp = None, failedVaultStamp = None, broker_config = cfg,
      grantsDb = migrateGrantsSchema t, approvalsDb = migrateApprovalSchema t, disk = file,
      next_stamp = (case file of None \<Rightarrow> 0 | Some f \<Rightarrow> Suc (f_stamp f)), token_files = [], auditLog = []\<rparr>"

text \<open>A suspended request validates the key it asks for, for the access it asks for.\<close>

fun wait_ok :: "suspended \<Rightarrow> bool" where
  "wait_ok (ListWait c t v) = (\<not> v_write v)"
| "wait_ok (GetWait c key t v) = (v_key v = key \<and> \<not> v_write v)"
| "wait_ok (PutWait c q att v) = (v_key v = q_key q \<and> v_write v)"

lemma begin_validation_cases:
  obtains (refused) "begin_validation k w t key wait cont st = (Inl (fst (cont (Inl GrantInvalid) st)), snd (cont (Inl GrantInvalid) st))"
  | (suspended) v db where "begin_validation k w t key wait cont st = (Inr (wait v), st\<lparr>grantsDb := db\<rparr>)"
      "v_key v = key" "v_write v = w" "v_row v \<in> set (rows (grantsDb st))" "rows db = rows (grantsDb st)"
      "clock db = clock (grantsDb st)"
  by (rule validate_begin_cases [of "c_sha256 k" w t key "grantsDb st"])
     (auto simp: begin_validation_def split: prod.split)

lemma begin_validation_InrD:
  assumes "begin_validation k w t key wait cont st = (Inr x, st')"
  shows "\<exists>v db. x = wait v \<and> st' = st\<lparr>grantsDb := db\<rparr> \<and> v_key v = key \<and> v_write v = w
    \<and> v_row v \<in> set (rows (grantsDb st)) \<and> rows db = rows (grantsDb st) \<and> clock db = clock (grantsDb st)"
  by (rule begin_validation_cases [of k w t key wait cont st]) (use assms in auto)

lemma handle_begin_wait:
  assumes "handle_begin k e c req st = (Inr w, st')"
  shows "wait_ok w"
proof (cases req)
  case (ListReq t)
  then show ?thesis using assms
    by (auto simp: handle_begin_def Let_def split: option.splits prod.splits dest!: begin_validation_InrD)
next
  case (GetReq key t)
  then show ?thesis using assms
    by (auto simp: handle_begin_def Let_def split: option.splits prod.splits dest!: begin_validation_InrD)
next
  case (PutReq q)
  then show ?thesis using assms
    by (auto simp: handle_begin_def Let_def split: option.splits prod.splits sum.splits if_splits dest!: begin_validation_InrD)
qed (use assms in \<open>auto simp: handle_begin_def Let_def split: prod.splits\<close>)

section \<open>Every release is justified and audited\<close>

text \<open>The access a caller has without a token, and the access a validated token gives.\<close>

definition standing_access :: "env \<Rightarrow> caller \<Rightarrow> string \<Rightarrow> VaultEntry \<Rightarrow> broker \<Rightarrow> bool" where
  "standing_access e c key entry st \<longleftrightarrow>
     checkEntryScope (e_scope entry) (agentName c) = Allow
     \<and> (if isOperator c then checkEntryScope (e_scope entry) (Some ''operator'') = Allow
        else (case agentName c of
            Some a \<Rightarrow> (\<forall>cfg. broker_config st = Some cfg \<longrightarrow> checkAclByAgent cfg a key = Allow)
          | None \<Rightarrow> \<not> platform_linux e))"

definition token_access :: "crypto \<Rightarrow> caller \<Rightarrow> string \<Rightarrow> VaultEntry \<Rightarrow> validation \<Rightarrow> broker \<Rightarrow> bool" where
  "token_access k c key entry v st \<longleftrightarrow>
     (v_hit v \<or> c_compare k (v_secret v) (g_secret_hash (v_row v)) = Some True)
     \<and> g_revoked_at (v_row v) = None
     \<and> (\<forall>x. g_expires_at (v_row v) = Some x \<longrightarrow> unix_seconds (grantsDb st) \<le> x)
     \<and> key \<in> set (g_key_allow (v_row v))
     \<and> agentName c \<in> {None, Some (g_agent_slug (v_row v))}
     \<and> checkEntryScope (e_scope entry) (Some (g_agent_slug (v_row v))) = Allow"

definition release_audited :: "env \<Rightarrow> caller \<Rightarrow> string \<Rightarrow> broker \<Rightarrow> broker \<Rightarrow> bool" where
  "release_audited e c key st st' \<longleftrightarrow>
     (\<exists>row log. auditLog st' = log @ [row] \<and> au_op row = ''get'' \<and> au_key row = Some key
        \<and> au_result row = ''allowed'' \<and> au_caller row = auditCaller c)
     \<or> \<not> audit_durable e \<and> \<not> auditFailClosedEnabled e st"

lemma audited_release_entry:
  "fst (audited_release e c key m g resp st) = Some (VEntry w) \<Longrightarrow> resp = VEntry w \<and> release_audited e c key st (snd (audited_release e c key m g resp st))"
  by (auto simp: audited_release_def release_audited_def writeAudit_def log_row_def Let_def split: if_splits)

lemma get_scoped_entry:
  assumes "fst (get_scoped e c key st) = Some (VEntry w)"
  obtains secs entry where "secrets st = Some secs" "map_of secs key = Some entry" "entryResponse entry = VEntry w"
    "checkEntryScope (e_scope entry) (agentName c) = Allow" "release_audited e c key st (snd (get_scoped e c key st))"
  using assms by (auto simp: get_scoped_def split: option.splits AclResult.splits dest: audited_release_entry)

lemma get_acl_entry:
  assumes "fst (get_acl e c key st) = Some (VEntry w)"
  obtains secs entry where "secrets st = Some secs" "map_of secs key = Some entry" "entryResponse entry = VEntry w"
    "standing_access e c key entry st" "release_audited e c key st (snd (get_acl e c key st))"
proof -
  have g: "get_acl e c key st = get_scoped e c key st"
    and gate: "if isOperator c then (\<forall>secs entry. secrets st = Some secs \<longrightarrow> map_of secs key = Some entry
          \<longrightarrow> checkEntryScope (e_scope entry) (Some ''operator'') = Allow)
        else (case agentName c of Some a \<Rightarrow> (\<forall>cfg. broker_config st = Some cfg \<longrightarrow> checkAclByAgent cfg a key = Allow)
          | None \<Rightarrow> \<not> platform_linux e)"
    using assms by (auto simp: get_acl_def split: option.splits AclResult.splits if_splits)
  show ?thesis
    using assms unfolding g
    by (rule get_scoped_entry) (rule that, use gate in \<open>auto simp: standing_access_def g split: option.splits if_splits\<close>)
qed

lemma get_token_entry:
  assumes "fst (get_token e c key t res st) = Some (VEntry w)"
  obtains secs entry where "secrets st = Some secs" "map_of secs key = Some entry" "entryResponse entry = VEntry w"
    "standing_access e c key entry st \<or> (\<exists>grant. res = Inr grant \<and> agentName c \<in> {None, Some (g_agent_slug grant)}
        \<and> checkEntryScope (e_scope entry) (Some (g_agent_slug grant)) = Allow)"
    "release_audited e c key st (snd (get_token e c key t res st))"
proof (cases res)
  case (Inl reason)
  let ?st = "reapUnusableGrantToken e (agentName c) t reason st"
  have g: "get_token e c key t res st = get_acl e c key ?st"
    using assms Inl by (auto simp: get_token_def split: if_splits)
  have "standing_access e c key entry ?st = standing_access e c key entry st" for entry
    unfolding standing_access_def reap_frame ..
  moreover have "release_audited e c key ?st s = release_audited e c key st s" for s
    unfolding release_audited_def auditFailClosedEnabled_def reap_frame ..
  ultimately show ?thesis
    using assms unfolding g by (elim get_acl_entry) (rule that, auto simp: g)
next
  case (Inr grant)
  then show ?thesis using assms that
    by (auto simp: get_token_def Let_def split: option.splits AclResult.splits if_splits dest!: audited_release_entry)
qed

lemma validate_resume_InrD:
  assumes "fst (validate_resume compare sha256 v db) = Inr g"
  shows "v_hit v \<or> compare (v_secret v) (g_secret_hash (v_row v)) = Some True"
    and "g_revoked_at (v_row v) = None" and "g_expires_at (v_row v) = Some x \<Longrightarrow> unix_seconds db \<le> x"
    and "\<not> v_write v \<Longrightarrow> v_key v \<in> set (g_key_allow (v_row v))"
    and "v_write v \<Longrightarrow> keyMatchesPatterns (g_write_allow (v_row v)) (v_key v)"
    and "g_agent_slug g = g_agent_slug (v_row v)" and "g_id g = g_id (v_row v)"
proof -
  have j: "judge_row (v_write v) (v_key v) (v_row v) (unix_seconds db) = Inr g"
      and h: "v_hit v \<or> compare (v_secret v) (g_secret_hash (v_row v)) = Some True"
    using assms by (auto simp: validate_resume_def compare_finish_def unix_seconds_def Let_def split: if_splits option.splits)
  show "v_hit v \<or> compare (v_secret v) (g_secret_hash (v_row v)) = Some True" by (rule h)
  show "g_revoked_at (v_row v) = None" "g_expires_at (v_row v) = Some x \<Longrightarrow> unix_seconds db \<le> x"
    "\<not> v_write v \<Longrightarrow> v_key v \<in> set (g_key_allow (v_row v))"
    "v_write v \<Longrightarrow> keyMatchesPatterns (g_write_allow (v_row v)) (v_key v)"
    "g_agent_slug g = g_agent_slug (v_row v)" "g_id g = g_id (v_row v)"
    using j by (auto simp: judge_row_def rowToGrant_def Let_def split: if_splits)
qed

lemma other_ops_release_nothing:
  "fst (handle_preflight e c agent keys st) \<noteq> Some (VEntry w)" "fst (list_peercred e c st) \<noteq> Some (VEntry w)"
  "fst (list_token e c t res st) \<noteq> Some (VEntry w)" "fst (put_path e c q att g st) \<noteq> Some (VEntry w)"
  "fst (put_token e c q att res st) \<noteq> Some (VEntry w)" "fst (handle_grant_op k e c oper st) \<noteq> VEntry w"
  "fst (put_checks e c q st) \<noteq> Inl (VEntry w)"
proof -
  show 1: "fst (list_peercred e c st) \<noteq> Some (VEntry w)" for st
    by (simp add: list_peercred_def Let_def split: option.split)
  have "fst (put_entry e c q att g secs st) \<noteq> Some (VEntry w)" for att g secs st
    by (simp add: put_entry_def put_commit_def Let_def split: option.split)
  then show 2: "fst (put_path e c q att g st) \<noteq> Some (VEntry w)" for g st
    by (simp add: put_path_def Let_def split: option.split AclResult.split)
  show "fst (list_token e c t res st) \<noteq> Some (VEntry w)" using 1 by (simp add: list_token_def Let_def)
  show "fst (put_token e c q att res st) \<noteq> Some (VEntry w)"
    using 2 by (simp add: put_token_def Let_def split: option.split AclResult.split sum.split)
  show "fst (handle_preflight e c agent keys st) \<noteq> Some (VEntry w)"
    by (simp add: handle_preflight_def locked_response_def Let_def split: option.split)
  show "fst (put_checks e c q st) \<noteq> Inl (VEntry w)"
    by (simp add: put_checks_def put_attest_def locked_response_def Let_def split: option.split)
  have "fst (grant_gate e c oper st) \<noteq> Inl (VEntry w)"
    by (simp add: grant_gate_def Let_def split: option.split prod.split)
  then show "fst (handle_grant_op k e c oper st) \<noteq> VEntry w"
    by (auto simp: handle_grant_op_def handle_mint_def handle_list_grants_def handle_revoke_grant_def Let_def
        split: prod.split sum.split option.split grant_op.split)
qed

lemma begin_validation_fst:
  "fst (begin_validation k wr t key wait cont st) = Inl r \<Longrightarrow>
     fst (cont (Inl GrantInvalid) st) = r \<and> snd (begin_validation k wr t key wait cont st) = snd (cont (Inl GrantInvalid) st)"
  by (rule begin_validation_cases [of k wr t key wait cont st]) auto

lemma only_get_releases:
  assumes "fst (handle_begin k e c req st) = Inl (Some (VEntry w))"
  shows "\<exists>key tok. req = GetReq key tok"
proof (cases req)
  case (ListReq t)
  show ?thesis
    using assms ListReq other_ops_release_nothing(2,3)
    by (auto simp: handle_begin_def locked_response_def Let_def split: option.splits dest!: begin_validation_fst)
next
  case (PutReq q)
  show ?thesis
  proof (cases "put_checks e c q st")
    case (Pair r st1)
    then show ?thesis
      using assms PutReq other_ops_release_nothing(4,5) [of e c q _ _ st1 w] other_ops_release_nothing(7) [of e c q st w]
      by (cases r) (auto simp: handle_begin_def Let_def split: if_splits dest!: begin_validation_fst)
  qed
next
  case (GrantReq oper)
  then show ?thesis using assms other_ops_release_nothing(6) [of k e c oper st w]
    by (auto simp: handle_begin_def split: prod.splits)
next
  case (PreflightReq a ks)
  then show ?thesis using assms other_ops_release_nothing(1) by (auto simp: handle_begin_def Let_def)
next
  case (ApprovalReq r)
  then show ?thesis using assms by (auto simp: handle_begin_def split: prod.splits)
qed (use assms in \<open>simp_all add: handle_begin_def getStatus_def\<close>)

lemma handle_begin_entry:
  assumes "fst (handle_begin k e c req st) = Inl (Some (VEntry w))" and "loaded = reloadSecretsIfVaultChanged e False st"
  shows "\<exists>key tok secs entry. req = GetReq key tok \<and> secrets loaded = Some secs \<and> map_of secs key = Some entry
    \<and> entryResponse entry = VEntry w \<and> standing_access e c key entry loaded
    \<and> release_audited e c key loaded (snd (handle_begin k e c req st))"
proof -
  obtain key tok where req: "req = GetReq key tok" using only_get_releases [OF assms(1)] by blast
  show ?thesis
  proof (cases tok)
    case None
    then have "handle_begin k e c req st = (Inl (fst (get_acl e c key loaded)), snd (get_acl e c key loaded))"
        "fst (get_acl e c key loaded) = Some (VEntry w)"
      using assms req by (auto simp: handle_begin_def locked_response_def Let_def split: option.splits)
    then show ?thesis using req by (elim get_acl_entry) fastforce
  next
    case (Some t)
    have "handle_begin k e c req st = begin_validation k False t key (GetWait c key t) (get_token e c key t) loaded"
      using assms req Some by (auto simp: handle_begin_def locked_response_def Let_def split: option.splits)
    then have "fst (get_token e c key t (Inl GrantInvalid) loaded) = Some (VEntry w)"
        "snd (handle_begin k e c req st) = snd (get_token e c key t (Inl GrantInvalid) loaded)"
      using assms(1) begin_validation_fst [of k False t key "GetWait c key t" "get_token e c key t" loaded] by simp_all
    then show ?thesis using req by (elim get_token_entry) fastforce
  qed
qed

lemma handle_resume_entry:
  assumes "fst (handle_resume k e wt st) = Some (VEntry w)" and "wait_ok wt"
  shows "\<exists>c key tok v secs entry. wt = GetWait c key tok v \<and> secrets st = Some secs \<and> map_of secs key = Some entry
    \<and> entryResponse entry = VEntry w \<and> (standing_access e c key entry st \<or> token_access k c key entry v st)
    \<and> release_audited e c key st (snd (handle_resume k e wt st))"
proof -
  obtain c key tok v where wt: "wt = GetWait c key tok v"
    using assms(1) other_ops_release_nothing by (cases wt) (auto simp: handle_resume_def Let_def split: prod.splits)
  define db where "db = snd (validate_resume (c_compare k) (c_sha256 k) v (grantsDb st))"
  define res where "res = fst (validate_resume (c_compare k) (c_sha256 k) v (grantsDb st))"
  have h: "handle_resume k e wt st = get_token e c key tok res (st\<lparr>grantsDb := db\<rparr>)"
    by (simp add: wt handle_resume_def db_def res_def split_beta)
  have sa: "standing_access e c key entry (st\<lparr>grantsDb := db\<rparr>) = standing_access e c key entry st" for entry
    by (cases "agentName c") (simp_all add: standing_access_def)
  have ra: "release_audited e c key (st\<lparr>grantsDb := db\<rparr>) s = release_audited e c key st s" for s
    by (cases "fail_closed_env e") (simp_all add: release_audited_def auditFailClosedEnabled_def)
  have v: "v_key v = key" "\<not> v_write v" using assms(2) wt by simp_all
  from assms(1) [unfolded h] show ?thesis
  proof (rule get_token_entry)
    fix secs entry
    assume a: "secrets (st\<lparr>grantsDb := db\<rparr>) = Some secs" "map_of secs key = Some entry" "entryResponse entry = VEntry w"
      "standing_access e c key entry (st\<lparr>grantsDb := db\<rparr>) \<or> (\<exists>grant. res = Inr grant \<and> agentName c \<in> {None, Some (g_agent_slug grant)}
        \<and> checkEntryScope (e_scope entry) (Some (g_agent_slug grant)) = Allow)"
      "release_audited e c key (st\<lparr>grantsDb := db\<rparr>) (snd (get_token e c key tok res (st\<lparr>grantsDb := db\<rparr>)))"
    have acc: "standing_access e c key entry st \<or> token_access k c key entry v st"
      using a(4) unfolding sa
    proof
      assume "\<exists>grant. res = Inr grant \<and> agentName c \<in> {None, Some (g_agent_slug grant)}
        \<and> checkEntryScope (e_scope entry) (Some (g_agent_slug grant)) = Allow"
      then obtain grant where g: "res = Inr grant" "agentName c \<in> {None, Some (g_agent_slug grant)}"
          "checkEntryScope (e_scope entry) (Some (g_agent_slug grant)) = Allow" by blast
      note f = validate_resume_InrD [OF g(1) [unfolded res_def]]
      show ?thesis unfolding token_access_def using g(2,3) f(1,2,3,4) v unfolding f(6) by simp
    qed simp
    have s: "secrets st = Some secs" using a(1) by simp
    show ?thesis
      by (rule exI [of _ c], rule exI [of _ key], rule exI [of _ tok], rule exI [of _ v], rule exI [of _ secs],
          rule exI [of _ entry]) (intro conjI wt s a(2,3) acc a(5) [unfolded ra, folded h])
  qed
qed

lemma waits_ok_step:
  "list_all wait_ok (snd s) \<Longrightarrow> list_all wait_ok (snd (vb_step k ev s))"
  by (cases s; cases ev)
     (auto simp: list_all_iff split: prod.splits sum.splits option.splits dest: in_set_takeD in_set_dropD handle_begin_wait)

interpretation broker_waits: event_system "vb_step k" "\<lambda>s. list_all wait_ok (snd s)" for k
  by unfold_locales (rule waits_ok_step)

text \<open>
  Claim C36: every secret the broker releases is justified. Whatever has happened before and
  whatever is suspended, an entry leaves the broker only in answer to a \<open>get\<close> of its key, with exactly the
  stored value and without its scope; either the caller has standing access (the operator by scope, an
  agent by ACL and scope), or the request carried a token whose secret matched, whose grant was not
  revoked when it was read, is not expired, covers the key and belongs to the calling agent where the caller has an
  agent identity (a caller without one may use any agent's token), and the entry's
  scope admits the grant's owner. An audit row of the release is the last row of the log, unless the
  audit volume failed and the broker is not in fail-closed mode.
\<close>

theorem release_justified:
  assumes "(st, ws) = run (vb_step k) (initial_broker cfg t file, []) es"
  shows "(fst (handle_begin k e c req st) = Inl (Some (VEntry w)) \<longrightarrow>
      (\<exists>key tok secs entry. req = GetReq key tok \<and> secrets (reloadSecretsIfVaultChanged e False st) = Some secs
        \<and> map_of secs key = Some entry \<and> entryResponse entry = VEntry w
        \<and> standing_access e c key entry (reloadSecretsIfVaultChanged e False st)
        \<and> release_audited e c key (reloadSecretsIfVaultChanged e False st) (snd (handle_begin k e c req st))))
    \<and> (n < length ws \<and> fst (handle_resume k e (ws ! n) st) = Some (VEntry w) \<longrightarrow>
      (\<exists>c key tok v secs entry. ws ! n = GetWait c key tok v \<and> secrets st = Some secs
        \<and> map_of secs key = Some entry \<and> entryResponse entry = VEntry w
        \<and> (standing_access e c key entry st \<or> token_access k c key entry v st)
        \<and> release_audited e c key st (snd (handle_resume k e (ws ! n) st))))"
proof -
  have "list_all wait_ok ws"
    using broker_waits.invar_run [of "(initial_broker cfg t file, [])" k es] by (simp add: assms [symmetric])
  then have "n < length ws \<Longrightarrow> wait_ok (ws ! n)" by (simp add: list_all_length)
  then show ?thesis
    using handle_begin_entry [of k e c req st w, OF _ refl] handle_resume_entry [of k e "ws ! n" st w] by blast
qed

section \<open>A concrete broker\<close>

definition demo_crypto :: crypto where
  "demo_crypto = \<lparr>c_compare = demo_compare, c_sha256 = demo_sha, c_hash = demo_hash\<rparr>"

definition demo_env :: env where
  "demo_env = \<lparr>platform_linux = True, allowNonLinux = False, audit_durable = True, fail_closed_env = None, layout_drift = False,
     save_error = None, token_write_error = None, token_truncate_ok = True, require_operator_mint = False,
     rnd_hex = ''0a'', rnd_secret = ''s'', rnd_salt = ''x'', rnd_request_id = ''r1'', rnd_uuid = ''d1''\<rparr>"

definition demo_caller :: "string \<Rightarrow> caller" where
  "demo_caller a = \<lparr>agentName = Some a, isOperator = False, peer_label = None\<rparr>"

definition demo_entry :: "VaultEntryScope option \<Rightarrow> VaultEntry" where
  "demo_entry scope = \<lparr>e_kind = KString, e_value = ''v'', e_format = None, e_scope = scope\<rparr>"

definition demo_file :: vault_file where
  "demo_file = \<lparr>f_stamp = 7, f_pass = Some ''pw'', f_secrets = [(''px/key'', demo_entry None)]\<rparr>"

definition demo_unlocked :: broker where
  "demo_unlocked = fst (vb_step demo_crypto (UnlockReq demo_env ''pw'') (initial_broker (Some demo_config) 0 (Some demo_file), []))"

lemma demo_unlocked_run:
  "(demo_unlocked, []) = run (vb_step demo_crypto) (initial_broker (Some demo_config) 0 (Some demo_file), []) [UnlockReq demo_env ''pw'']"
  by (simp add: demo_unlocked_def split: option.split)

lemma demo_get:
  "fst (handle_begin demo_crypto demo_env (demo_caller ''coder'') (GetReq ''px/key'' None) demo_unlocked)
     = Inl (Some (VEntry \<lparr>w_kind = KString, w_value = ''v'', w_format = None\<rparr>))"
  by code_simp

theorem release_justified_witness:
  "\<exists>key tok secs entry. GetReq ''px/key'' None = GetReq key tok
     \<and> secrets (reloadSecretsIfVaultChanged demo_env False demo_unlocked) = Some secs \<and> map_of secs key = Some entry
     \<and> entryResponse entry = VEntry \<lparr>w_kind = KString, w_value = ''v'', w_format = None\<rparr>
     \<and> standing_access demo_env (demo_caller ''coder'') key entry (reloadSecretsIfVaultChanged demo_env False demo_unlocked)
     \<and> release_audited demo_env (demo_caller ''coder'') key (reloadSecretsIfVaultChanged demo_env False demo_unlocked)
         (snd (handle_begin demo_crypto demo_env (demo_caller ''coder'') (GetReq ''px/key'' None) demo_unlocked))"
  using release_justified [OF demo_unlocked_run, of demo_env "demo_caller ''coder''" "GetReq ''px/key'' None"
      "\<lparr>w_kind = KString, w_value = ''v'', w_format = None\<rparr>" 0] demo_get by blast

end
