(* ===== verification/Broker_Safety.thy ===== *)
theory Broker_Safety
  imports Broker_System
begin

text \<open>
  Safety of the vault broker along its runs: the secrets in memory are those of the file whenever their
  stamps agree, so reads see the latest file and a write without a token loses nothing; a locked broker
  gives nothing away; the mint gate.
\<close>

section \<open>Memory and file\<close>

text \<open>
  The invariant: stamps are issued once and in order, a loaded stamp that is the file's means a faithful
  copy, and a stamp is remembered as failed only for a later file the held passphrase does not open.
\<close>

definition coherent :: "broker \<Rightarrow> bool" where
  "coherent st \<longleftrightarrow>
     (\<forall>f. disk st = Some f \<longrightarrow> f_stamp f < next_stamp st)
     \<and> (\<forall>s. vaultStamp st = Some s \<or> failedVaultStamp st = Some s \<longrightarrow>
          s < next_stamp st \<and> (\<forall>f. disk st = Some f \<longrightarrow> s \<le> f_stamp f))
     \<and> (\<forall>s x. vaultStamp st = Some s \<and> failedVaultStamp st = Some x \<longrightarrow> s < x)
     \<and> (secrets st = None \<longleftrightarrow> passphrase st = None) \<and> (secrets st = None \<longleftrightarrow> vaultStamp st = None)
     \<and> (secrets st = None \<longrightarrow> failedVaultStamp st = None)
     \<and> (\<forall>f. disk st = Some f \<longrightarrow> vaultStamp st = Some (f_stamp f)
          \<longrightarrow> secrets st = Some (f_secrets f) \<and> passphrase st = f_pass f)
     \<and> (\<forall>f. disk st = Some f \<longrightarrow> failedVaultStamp st = Some (f_stamp f) \<longrightarrow> passphrase st \<noteq> f_pass f)"

lemma coherent_view: "vault_view st' = vault_view st \<Longrightarrow> coherent st' \<longleftrightarrow> coherent st"
  by (simp add: coherent_def vault_view_def)

lemma coherent_lock: "coherent st \<Longrightarrow> coherent (lock_broker st)"
  by (simp add: coherent_def lock_broker_def)

lemma coherent_reload:
  assumes "coherent st"
  shows "coherent (reloadSecretsIfVaultChanged e force st)"
proof (rule reload_cases [of e force st])
  assume "reloadSecretsIfVaultChanged e force st = failClosedOnVaultDrift e st"
  then show ?thesis
    using assms coherent_lock [of "log_row e r st" for r] coherent_view [of "log_row e r st" st for r]
    by (simp add: failClosedOnVaultDrift_def)
next
  fix cur
  assume a: "readVaultStamp st = Some cur" "openVault (the (passphrase st)) (disk st) = None" "secrets st \<noteq> None"
    "passphrase st \<noteq> None" "reloadSecretsIfVaultChanged e force st = st\<lparr>failedVaultStamp := Some cur\<rparr>"
  then obtain f where f: "disk st = Some f" "f_stamp f = cur" "f_pass f \<noteq> passphrase st"
    by (auto simp: readVaultStamp_def openVault_def split: option.splits if_splits)
  then have "s < cur" if "vaultStamp st = Some s" for s
    using that assms le_neq_implies_less [of s cur] unfolding coherent_def by metis
  then show ?thesis using assms a(3-5) f by (simp add: coherent_def) fastforce
next
  fix cur secs
  assume a: "readVaultStamp st = Some cur" "openVault (the (passphrase st)) (disk st) = Some secs" "secrets st \<noteq> None"
    "passphrase st \<noteq> None"
    "reloadSecretsIfVaultChanged e force st = st\<lparr>secrets := Some secs, vaultStamp := Some cur, failedVaultStamp := None\<rparr>"
  then obtain f where "disk st = Some f" "f_stamp f = cur" "f_pass f = passphrase st" "f_secrets f = secs"
    by (auto simp: readVaultStamp_def openVault_def split: option.splits if_splits)
  then show ?thesis using a assms by (simp add: coherent_def)
qed (use assms in simp)

lemma coherent_put_commit: "coherent st \<Longrightarrow> secrets st \<noteq> None \<Longrightarrow> coherent (snd (put_commit e c q att g secs st))"
  by (simp add: put_commit_def Let_def coherent_view [OF vault_view_frame(2)] split: option.split)
     (auto simp: coherent_def)

lemma coherent_put_path:
  assumes "coherent st"
  shows "coherent (snd (put_path e c q att g st))" "coherent (snd (put_token e c q att v st))"
proof -
  have entry: "coherent (snd (put_entry e c q att g secs st))" if "secrets st = Some secs" for att g secs
    using coherent_put_commit [OF assms] that assms
    by (simp add: put_entry_def Let_def coherent_view [OF vault_view_frame(2)] split: option.split)
  show path: "coherent (snd (put_path e c q att g st))" for g
    using entry assms
    by (simp add: put_path_def Let_def coherent_view [OF vault_view_frame(2)] split: option.split AclResult.split)
  show "coherent (snd (put_token e c q att v st))"
    using path assms
    by (simp add: put_token_def Let_def coherent_view [OF vault_view_frame(2)] split: option.split AclResult.split sum.split)
qed

lemma coherent_put_checks: "coherent st \<Longrightarrow> coherent (snd (put_checks e c q st))"
  using coherent_reload [of st e False] coherent_view [OF put_attest_keeps_vault]
  by (simp add: put_checks_def Let_def coherent_view [OF vault_view_frame(3)])

lemma coherent_begin_validation:
  assumes "coherent st" and "\<And>r. coherent (snd (cont r st))"
  shows "coherent (snd (begin_validation k w t key wait cont st))"
  by (rule begin_validation_cases [of k w t key wait cont st])
     (use assms coherent_view [OF vault_view_frame(5)] in simp_all)

lemma coherent_begin:
  assumes "coherent st"
  shows "coherent (snd (handle_begin k e c req st))"
proof (cases req)
  case (ListReq t)
  have l: "coherent (reloadSecretsIfVaultChanged e False st)" using assms by (rule coherent_reload)
  then show ?thesis
    using ListReq coherent_begin_validation [OF l] coherent_view [OF reads_keep_vault(5)] coherent_view [OF reads_keep_vault(6)]
    by (simp add: handle_begin_def Let_def split: option.split)
next
  case (GetReq key t)
  have l: "coherent (reloadSecretsIfVaultChanged e False st)" using assms by (rule coherent_reload)
  then show ?thesis
    using GetReq coherent_begin_validation [OF l] coherent_view [OF reads_keep_vault(3)] coherent_view [OF reads_keep_vault(4)]
    by (simp add: handle_begin_def Let_def split: option.split)
next
  case (PutReq q)
  obtain r st1 where p: "put_checks e c q st = (r, st1)" by force
  then have l: "coherent st1" using coherent_put_checks [OF assms, of e c q] by simp
  show ?thesis
    using PutReq p coherent_begin_validation [OF l] coherent_put_path [OF l] l
    by (simp add: handle_begin_def Let_def split: sum.split)
next
  case (PreflightReq a ks)
  then show ?thesis using coherent_reload [OF assms] assms
    by (simp add: handle_begin_def handle_preflight_def Let_def coherent_view [OF vault_view_frame(3)] split: option.split)
next
  case LockReq
  then show ?thesis using coherent_lock [OF assms] by (simp add: handle_begin_def coherent_view [OF vault_view_frame(2)])
next
  case (GrantReq oper)
  then show ?thesis using assms coherent_view [OF grant_ops_keep_vault(5)] by (auto simp: handle_begin_def split: prod.splits) (metis snd_conv)
next
  case (ApprovalReq r)
  then show ?thesis using assms coherent_view [OF vault_view_frame(6)] by (auto simp: handle_begin_def split: prod.splits)
qed (use assms in \<open>simp add: handle_begin_def\<close>)

lemma coherent_resume:
  assumes "coherent st"
  shows "coherent (snd (handle_resume k e w st))"
proof -
  have "coherent (st\<lparr>grantsDb := db\<rparr>)" for db using assms coherent_view [OF vault_view_frame(5)] by blast
  then show ?thesis
    using coherent_put_path coherent_view [OF reads_keep_vault(4)] coherent_view [OF reads_keep_vault(6)]
    by (cases w) (simp_all add: handle_resume_def Let_def split_beta)
qed

lemma coherent_step: "coherent (fst s) \<Longrightarrow> coherent (fst (vb_step k ev s))"
proof (cases s, cases ev)
  fix st ws e c req
  assume a: "coherent (fst s)" "s = (st, ws)" "ev = BeginReq e c req"
  then show ?thesis using coherent_begin [of st k e c req] by (auto split: prod.splits sum.splits)
next
  fix st ws e n
  assume a: "coherent (fst s)" "s = (st, ws)" "ev = ResumeReq e n"
  then show ?thesis using coherent_resume by simp
next
  fix st ws e pass
  assume a: "coherent (fst s)" "s = (st, ws)" "ev = UnlockReq e pass"
  then show ?thesis
    by (auto simp: unlockFromPassphrase_def openVault_def readVaultStamp_def coherent_def split: option.splits if_splits)
next
  fix st ws e cfg
  assume a: "coherent (fst s)" "s = (st, ws)" "ev = ReloadConfig e cfg"
  then have "coherent (st\<lparr>broker_config := Some cfg\<rparr>)" by (auto simp: coherent_def)
  then show ?thesis using a coherent_reload by (simp add: reload_config_def)
next
  fix st ws pass secs
  assume a: "coherent (fst s)" "s = (st, ws)" "ev = ForeignWrite pass secs"
  then show ?thesis by (auto simp: coherent_def)
qed (auto simp: coherent_def)

interpretation vault_copy: event_system "vb_step k" "\<lambda>s. coherent (fst s)" for k
  by unfold_locales (rule coherent_step)

lemma initial_coherent: "coherent (initial_broker cfg t file)"
  by (simp add: coherent_def initial_broker_def split: option.split)

lemma coherent_reachable:
  "(st, ws) = run (vb_step k) (initial_broker cfg t file, []) es \<Longrightarrow> coherent st"
  using vault_copy.invar_run [of "(initial_broker cfg t file, [])" k es]
  by (metis (no_types, lifting) fst_conv initial_coherent)

section \<open>Reads see the file\<close>

definition fresh_copy :: "vault_file \<Rightarrow> broker \<Rightarrow> broker" where
  "fresh_copy f st = st\<lparr>secrets := Some (f_secrets f), vaultStamp := Some (f_stamp f), failedVaultStamp := None\<rparr>"

lemma reload_fresh:
  assumes "coherent st" "secrets st \<noteq> None" "disk st = Some f" "f_pass f = passphrase st" "\<not> layout_drift e"
  shows "reloadSecretsIfVaultChanged e False st = fresh_copy f st"
proof -
  obtain pass s where p: "passphrase st = Some pass" "vaultStamp st = Some s"
    using assms(1,2) unfolding coherent_def by auto
  show ?thesis
  proof (cases "s = f_stamp f")
    case True
    then have "secrets st = Some (f_secrets f)" "failedVaultStamp st = None"
      using assms(1,3) p(2) by (auto simp: coherent_def) (metis leD not_None_eq)
    then show ?thesis
      using True assms(3,5) p
      by (simp add: reloadSecretsIfVaultChanged_def refreshVaultIfChanged_def readVaultStamp_def fresh_copy_def)
  next
    case False
    have "failedVaultStamp st \<noteq> Some (f_stamp f)" using assms(1,3,4) by (auto simp: coherent_def)
    then show ?thesis
      using False assms(2-5) p
      by (auto simp: reloadSecretsIfVaultChanged_def refreshVaultIfChanged_def readVaultStamp_def openVault_def fresh_copy_def)
  qed
qed

lemma reload_fresh_idem:
  "disk st = Some f \<Longrightarrow> passphrase st \<noteq> None \<Longrightarrow> reloadSecretsIfVaultChanged e False (fresh_copy f st) = fresh_copy f st"
  by (auto simp: reloadSecretsIfVaultChanged_def refreshVaultIfChanged_def readVaultStamp_def fresh_copy_def)

text \<open>
  The in-memory copy is invisible to reads and writes of a readable vault. In every reachable unlocked state without layout
  drift whose vault file opens under
  the held passphrase, whatever other processes wrote to it, a \<open>list\<close>, \<open>get\<close>, \<open>put\<close> or preflight by the operator
  behaves exactly as if the broker had just loaded the file: same response or suspension, same state after. (A file that
  does not open leaves the older copy in service, and \<open>status\<close> reports the count of the copy.)
\<close>

theorem stale_copy_invisible:
  assumes "(st, ws) = run (vb_step k) (initial_broker cfg t file, []) es"
    and "secrets st \<noteq> None" "disk st = Some f" "f_pass f = passphrase st" "\<not> layout_drift e"
    and "req \<in> {ListReq tok, GetReq key tok, PutReq q} \<or> isOperator c \<and> req = PreflightReq agent keys"
  shows "handle_begin k e c req st = handle_begin k e c req (fresh_copy f st)"
proof -
  have c: "coherent st" using coherent_reachable assms(1) .
  then have "passphrase st \<noteq> None" using assms(2) by (simp add: coherent_def)
  then have r: "reloadSecretsIfVaultChanged e False (fresh_copy f st) = reloadSecretsIfVaultChanged e False st"
    unfolding reload_fresh [OF c assms(2-5)] by (rule reload_fresh_idem [OF assms(3)])
  show ?thesis
    using assms(6) by (auto simp: handle_begin_def handle_preflight_def put_checks_def r)
qed

section \<open>Writes\<close>

lemma put_commit_VPut:
  assumes "fst (put_commit e c q att g secs st) = Some (VPut key)"
  shows "key = q_key q \<and> save_error e = None"
  using assms by (simp add: put_commit_def Let_def split: option.splits)

lemma put_entry_VPut:
  assumes "fst (put_entry e c q att g secs st) = Some (VPut key)"
  shows "put_entry e c q att g secs st = put_commit e c q att g secs st"
    and "g = None \<Longrightarrow> \<not> att \<Longrightarrow> \<exists>old. map_of secs (q_key q) = Some old \<and> e_kind old = q_kind q"
  using assms by (auto simp: put_entry_def Let_def split: option.splits if_splits)

text \<open>A write that is answered \<open>ok\<close> without a valid token: by an agent, on an existing key it may access.\<close>

lemma put_path_VPut:
  assumes "fst (put_path e c q att g st) = Some (VPut key)"
  obtains secs cfg where "secrets st = Some secs" "broker_config st = Some cfg" "save_error e = None" "key = q_key q"
    "put_path e c q att g st = put_commit e c q att g secs st"
    "g = None \<Longrightarrow> \<not> att \<Longrightarrow> \<exists>a old. agentName c = Some a \<and> checkAclByAgent cfg a (q_key q) = Allow
       \<and> map_of secs (q_key q) = Some old \<and> e_kind old = q_kind q \<and> checkEntryScope (e_scope old) (Some a) = Allow"
proof -
  obtain cfg where cfg: "broker_config st = Some cfg"
    using assms by (auto simp: put_path_def split: option.splits if_splits)
  obtain secs where secs: "secrets st = Some secs"
    using assms cfg by (cases "secrets st") (auto simp: put_path_def Let_def split: if_splits AclResult.splits)
  have pe: "put_path e c q att g st = put_entry e c q att g secs st"
    using assms cfg secs by (auto simp: put_path_def Let_def split: if_splits AclResult.splits option.splits)
  note en = put_entry_VPut [OF assms [unfolded pe]]
  show ?thesis
  proof (rule that [OF secs cfg])
    show "save_error e = None" "key = q_key q" using assms put_commit_VPut unfolding pe en(1) by blast+
    show "put_path e c q att g st = put_commit e c q att g secs st" using pe en(1) by simp
    assume g: "g = None" "\<not> att"
    then obtain a where a: "agentName c = Some a" using assms by (cases "agentName c") (simp_all add: put_path_def)
    obtain old where old: "map_of secs (q_key q) = Some old" "e_kind old = q_kind q" using en(2) g by blast
    have "checkAclByAgent cfg a (q_key q) = Allow"
      using assms cfg secs g a by (auto simp: put_path_def Let_def split: AclResult.splits)
    moreover have "checkEntryScope (e_scope old) (Some a) = Allow"
      using assms cfg secs g a old by (auto simp: put_path_def Let_def split: AclResult.splits)
    ultimately show "\<exists>a old. agentName c = Some a \<and> checkAclByAgent cfg a (q_key q) = Allow
       \<and> map_of secs (q_key q) = Some old \<and> e_kind old = q_kind q \<and> checkEntryScope (e_scope old) (Some a) = Allow"
      using a old by blast
  qed
qed

lemma reload_current:
  assumes "coherent st" "secrets (reloadSecretsIfVaultChanged e False st) \<noteq> None"
    "failedVaultStamp (reloadSecretsIfVaultChanged e False st) = None" "disk st = Some f"
  shows "secrets (reloadSecretsIfVaultChanged e False st) = Some (f_secrets f)"
    and "passphrase (reloadSecretsIfVaultChanged e False st) = f_pass f" "disk (reloadSecretsIfVaultChanged e False st) = Some f"
proof -
  let ?l = "reloadSecretsIfVaultChanged e False st"
  have "vaultStamp ?l = Some (f_stamp f)" "disk ?l = Some f"
    using assms unfolding reloadSecretsIfVaultChanged_def refreshVaultIfChanged_def readVaultStamp_def
    by (auto simp: failClosedOnVaultDrift_def lock_broker_def coherent_def split: option.splits if_splits)
  then show "secrets ?l = Some (f_secrets f)" "passphrase ?l = f_pass f" "disk ?l = Some f"
    using coherent_reload [OF assms(1), of e False] by (auto simp: coherent_def)
qed

lemma put_checks_Inr:
  assumes "put_checks e c q st = (Inr att, st1)"
  shows "vault_view st1 = vault_view (reloadSecretsIfVaultChanged e False st)" "secrets st1 \<noteq> None" "failedVaultStamp st1 = None"
    and "broker_config st1 = broker_config st" "att \<Longrightarrow> q_posture q \<or> given (q_passphrase q)"
proof -
  let ?l = "reloadSecretsIfVaultChanged e False st"
  have p: "put_attest e c q ?l = (Inr att, st1)" "secrets ?l \<noteq> None" "failedVaultStamp ?l = None"
    using assms by (auto simp: put_checks_def Let_def split: if_splits)
  show v: "vault_view st1 = vault_view ?l" using put_attest_keeps_vault [of e c q ?l] p(1) by simp
  then show "secrets st1 \<noteq> None" "failedVaultStamp st1 = None" using p(2,3) by (simp_all add: vault_view_def)
  have "broker_config ?l = broker_config st"
    by (rule reload_cases [of e False st]) (simp_all add: failClosedOnVaultDrift_def lock_broker_def)
  then show "broker_config st1 = broker_config st"
    using p(1) by (auto simp: put_attest_def Let_def split: if_splits option.splits)
  show "att \<Longrightarrow> q_posture q \<or> given (q_passphrase q)"
    using p(1) by (auto simp: put_attest_def Let_def split: if_splits option.splits)
qed

text \<open>A write answered at once, whether or not it carried a token.\<close>

lemma begin_put_VPut:
  assumes "fst (handle_begin k e c (PutReq q) st) = Inl (Some (VPut key))"
  obtains att st1 where "put_checks e c q st = (Inr att, st1)" "fst (put_path e c q att None st1) = Some (VPut key)"
    "snd (handle_begin k e c (PutReq q) st) = snd (put_path e c q att None st1)"
proof -
  have "fst (put_checks e c q st) \<noteq> Inl (VPut key)"
    by (simp add: put_checks_def put_attest_def locked_response_def Let_def split: option.split)
  then obtain att st1 where p: "put_checks e c q st = (Inr att, st1)"
    using assms by (cases "put_checks e c q st"; cases "fst (put_checks e c q st)") (auto simp: handle_begin_def)
  have t: "put_token e c q att (Inl GrantInvalid) st1 = put_path e c q att None st1" by (simp add: put_token_def)
  show ?thesis
  proof (cases "given (q_token q)")
    case True
    then have h: "handle_begin k e c (PutReq q) st =
        begin_validation k True (the (q_token q)) (q_key q) (PutWait c q att) (put_token e c q att) st1"
      by (simp add: handle_begin_def p)
    note b = begin_validation_fst [OF assms [unfolded h]]
    show ?thesis using that [OF p] b unfolding h t by blast
  next
    case False
    then show ?thesis using that [OF p] assms by (simp add: handle_begin_def p)
  qed
qed

lemma put_commit_ok:
  assumes "save_error e = None"
  shows "secrets (snd (put_commit e c q att g secs st)) = Some (AList.update (q_key q) (next_entry att q (map_of secs (q_key q))) secs)"
    and "disk (snd (put_commit e c q att g secs st)) = Some \<lparr>f_stamp = next_stamp st, f_pass = passphrase st,
      f_secrets = AList.update (q_key q) (next_entry att q (map_of secs (q_key q))) secs\<rparr>"
    and "vaultStamp (snd (put_commit e c q att g secs st)) = Some (next_stamp st)"
    and "passphrase (snd (put_commit e c q att g secs st)) = passphrase st"
    and "broker_config (snd (put_commit e c q att g secs st)) = broker_config st"
  using assms by (simp_all add: put_commit_def Let_def)

lemma next_entry_value [simp]:
  "e_kind (next_entry att q old) = q_kind q" "e_value (next_entry att q old) = q_value q"
  by (simp_all add: next_entry_def Let_def split: option.split)


text \<open>
  What an agent rotates it reads back. After an agent's \<open>put\<close> without attestation is answered \<open>ok\<close>, a
  \<open>get\<close> of the key by the same agent is answered with the new value and the format the entry had.
\<close>

theorem rotate_then_get:
  assumes "(st, ws) = run (vb_step k) (initial_broker cfg t file, []) es"
    and "fst (handle_begin k e c (PutReq q) st) = Inl (Some (VPut key))"
    and "\<not> isOperator c" "\<not> q_posture q" "\<not> given (q_passphrase q)" "audit_durable e'"
  shows "\<exists>old secs. secrets (reloadSecretsIfVaultChanged e False st) = Some secs \<and> map_of secs (q_key q) = Some old
    \<and> fst (handle_begin k e' c (GetReq (q_key q) None) (snd (handle_begin k e c (PutReq q) st)))
      = Inl (Some (VEntry \<lparr>w_kind = q_kind q, w_value = q_value q,
          w_format = (if e_kind old = KFiles then None else e_format old)\<rparr>))"
proof -
  obtain att st1 where p: "put_checks e c q st = (Inr att, st1)" "fst (put_path e c q att None st1) = Some (VPut key)"
      "snd (handle_begin k e c (PutReq q) st) = snd (put_path e c q att None st1)"
    using assms(2) by (rule begin_put_VPut)
  note ch = put_checks_Inr [OF p(1)]
  have att: "\<not> att" using ch(5) assms(4,5) by blast
  have pass: "passphrase st1 \<noteq> None"
    using ch(1,2) coherent_reload [OF coherent_reachable [OF assms(1)], of e False] by (auto simp: coherent_def vault_view_def)
  from p(2) show ?thesis
  proof (rule put_path_VPut)
    fix secs cf
    assume a: "secrets st1 = Some secs" "broker_config st1 = Some cf" "save_error e = None"
      "put_path e c q att None st1 = put_commit e c q att None secs st1"
      "None = None \<Longrightarrow> \<not> att \<Longrightarrow> \<exists>a old. agentName c = Some a \<and> checkAclByAgent cf a (q_key q) = Allow
       \<and> map_of secs (q_key q) = Some old \<and> e_kind old = q_kind q \<and> checkEntryScope (e_scope old) (Some a) = Allow"
    then obtain ag old where o: "agentName c = Some ag" "checkAclByAgent cf ag (q_key q) = Allow"
        "map_of secs (q_key q) = Some old" "e_kind old = q_kind q" "checkEntryScope (e_scope old) (Some ag) = Allow"
      using att by blast
    let ?s = "snd (put_commit e c q att None secs st1)"
    note ok = put_commit_ok [OF a(3), of c q att None secs st1]
    have r: "reloadSecretsIfVaultChanged e' False ?s = ?s"
      using pass by (auto simp: reloadSecretsIfVaultChanged_def refreshVaultIfChanged_def readVaultStamp_def ok)
    have sc: "e_scope (next_entry False q (Some old)) = e_scope old" by (simp add: next_entry_def Let_def)
    have "fst (get_acl e' c (q_key q) ?s) = Some (entryResponse (next_entry False q (Some old)))"
      using assms(3,6) o a(2) by (simp add: get_acl_def get_scoped_def put_commit_ok [OF a(3)] att update_conv' sc audited_release_def Let_def)
    then have "fst (handle_begin k e' c (GetReq (q_key q) None) ?s) = Inl (Some (entryResponse (next_entry False q (Some old))))"
      by (simp add: handle_begin_def r Let_def ok(1))
    moreover have "entryResponse (next_entry False q (Some old)) = VEntry \<lparr>w_kind = q_kind q, w_value = q_value q,
          w_format = (if e_kind old = KFiles then None else e_format old)\<rparr>"
      using o(4) by (simp add: entryResponse_def next_entry_def Let_def)
    moreover have "secrets (reloadSecretsIfVaultChanged e False st) = Some secs" using ch(1) a(1) by (simp add: vault_view_def)
    ultimately show ?thesis
      unfolding p(3) a(4) by (intro exI [of _ old] exI [of _ secs] conjI o(3)) simp_all
  qed
qed

section \<open>The write properties on a concrete broker\<close>

text \<open>Another process adds a key to the file after the broker loaded it; the agent then rotates its own key.\<close>

definition demo_outdated :: broker where
  "demo_outdated = fst (vb_step demo_crypto (ForeignWrite (Some ''pw'') [(''px/key'', demo_entry None), (''other'', demo_entry None)]) (demo_unlocked, []))"

definition demo_put :: put_request where
  "demo_put = \<lparr>q_key = ''px/key'', q_kind = KString, q_value = ''w'', q_token = None, q_passphrase = None, q_posture = False\<rparr>"

lemma demo_outdated_run:
  "(demo_outdated, []) = run (vb_step demo_crypto) (initial_broker (Some demo_config) 0 (Some demo_file), [])
     [UnlockReq demo_env ''pw'', ForeignWrite (Some ''pw'') [(''px/key'', demo_entry None), (''other'', demo_entry None)]]"
  by (simp add: demo_outdated_def demo_unlocked_def split: option.split)

lemma demo_outdated_disk:
  "disk demo_outdated = Some \<lparr>f_stamp = 8, f_pass = Some ''pw'', f_secrets = [(''px/key'', demo_entry None), (''other'', demo_entry None)]\<rparr>"
  "passphrase demo_outdated = Some ''pw''" "secrets demo_outdated = Some [(''px/key'', demo_entry None)]"
  by code_simp+

lemma demo_put_ok: "fst (handle_begin demo_crypto demo_env (demo_caller ''coder'') (PutReq demo_put) demo_outdated) = Inl (Some (VPut ''px/key''))"
  by code_simp

theorem stale_copy_invisible_witness:
  "secrets demo_outdated = Some [(''px/key'', demo_entry None)]
   \<and> handle_begin demo_crypto demo_env (demo_caller ''coder'') (ListReq None) demo_outdated
     = handle_begin demo_crypto demo_env (demo_caller ''coder'') (ListReq None) (fresh_copy (the (disk demo_outdated)) demo_outdated)"
proof -
  have "\<not> layout_drift demo_env" by (simp add: demo_env_def)
  then show ?thesis
    using stale_copy_invisible [OF demo_outdated_run _ demo_outdated_disk(1), of demo_env "ListReq None" None] demo_outdated_disk
    by simp
qed


theorem rotate_then_get_witness:
  "fst (handle_begin demo_crypto demo_env (demo_caller ''coder'') (GetReq ''px/key'' None)
      (snd (handle_begin demo_crypto demo_env (demo_caller ''coder'') (PutReq demo_put) demo_outdated)))
     = Inl (Some (VEntry \<lparr>w_kind = KString, w_value = ''w'', w_format = None\<rparr>))"
proof -
  have h: "\<not> isOperator (demo_caller ''coder'')" "\<not> q_posture demo_put" "\<not> given (q_passphrase demo_put)" "audit_durable demo_env"
      "q_key demo_put = ''px/key''" "q_kind demo_put = KString" "q_value demo_put = ''w''"
    by (simp_all add: demo_caller_def demo_put_def given_def demo_env_def)
  have "secrets (reloadSecretsIfVaultChanged demo_env False demo_outdated) = Some [(''px/key'', demo_entry None), (''other'', demo_entry None)]"
    by code_simp
  then show ?thesis
    using rotate_then_get [OF demo_outdated_run demo_put_ok h(1-4)] unfolding h(5-7) by (auto simp: demo_entry_def)
qed

section \<open>Locking\<close>

fun is_unlock :: "vb_event \<Rightarrow> bool" where
  "is_unlock (UnlockReq e pass) = True"
| "is_unlock _ = False"

text \<open>The answers that depend on the content of the vault.\<close>

fun discloses :: "vb_response \<Rightarrow> bool" where
  "discloses (VEntry w) = True"
| "discloses (VPut key) = True"
| "discloses (VPreflight rs) = True"
| "discloses (VKeys ks) = (ks \<noteq> [])"
| "discloses (VStatus unlocked n) = (unlocked \<or> 0 < n)"
| "discloses _ = False"

definition reveals :: "crypto \<Rightarrow> vb_event \<Rightarrow> vb_system \<Rightarrow> bool" where
  "reveals k ev s \<longleftrightarrow> (case vb_answer k ev s of None \<Rightarrow> False | Some r \<Rightarrow> discloses r)"

definition sealed_step :: "crypto \<Rightarrow> vb_event \<Rightarrow> vb_system \<Rightarrow> vb_system" where
  "sealed_step k = restrict_step (\<lambda>ev. \<not> is_unlock ev) (vb_step k)"

lemma locked_reload [simp]: "secrets st = None \<Longrightarrow> reloadSecretsIfVaultChanged e force st = st"
  by (simp add: reloadSecretsIfVaultChanged_def refreshVaultIfChanged_def)

lemma locked_put_path:
  assumes "secrets st = None"
  shows "vault_view (snd (put_path e c q att g st)) = vault_view st" "fst (put_path e c q att g st) = Some x \<Longrightarrow> \<not> discloses x"
    and "vault_view (snd (put_token e c q att v st)) = vault_view st" "fst (put_token e c q att v st) = Some x \<Longrightarrow> \<not> discloses x"
proof -
  show 1: "vault_view (snd (put_path e c q att g st)) = vault_view st" for g
    using assms by (simp add: put_path_def Let_def split: option.split AclResult.split)
  show 2: "fst (put_path e c q att g st) = Some x \<Longrightarrow> \<not> discloses x" for g
    using assms by (auto simp: put_path_def Let_def split: option.splits AclResult.splits if_splits)
  show "vault_view (snd (put_token e c q att v st)) = vault_view st"
    using assms 1 by (simp add: put_token_def Let_def split: sum.split option.split AclResult.split)
  show "fst (put_token e c q att v st) = Some x \<Longrightarrow> \<not> discloses x"
    using assms 2 by (auto simp: put_token_def Let_def split: sum.splits option.splits AclResult.splits if_splits)
qed

lemma locked_answers:
  assumes "secrets st = None"
  shows "fst (list_token e c t v st) = Some x \<Longrightarrow> \<not> discloses x" and "fst (get_token e c key t v st) = Some x \<Longrightarrow> \<not> discloses x"
proof -
  have "fst (list_peercred e c st) = Some x \<Longrightarrow> \<not> discloses x"
    using assms by (auto simp: list_peercred_def split: if_splits)
  then show "fst (list_token e c t v st) = Some x \<Longrightarrow> \<not> discloses x"
    using assms by (auto simp: list_token_def Let_def split: if_splits)
  have sc: "fst (get_scoped e c key s) = Some x \<Longrightarrow> \<not> discloses x" if "secrets s = None" for s
    using that by (simp add: get_scoped_def)
  have acl: "fst (get_acl e c key s) = Some x \<Longrightarrow> \<not> discloses x" if "secrets s = None" for s
    using that sc [OF that] by (auto simp: get_acl_def split: option.splits AclResult.splits if_splits)
  show "fst (get_token e c key t v st) = Some x \<Longrightarrow> \<not> discloses x"
    using assms acl [of "reapUnusableGrantToken e (agentName c) t r st" for r]
    by (auto simp: get_token_def Let_def split: option.splits AclResult.splits if_splits sum.splits)
qed

lemma locked_begin:
  assumes "secrets st = None"
  shows "secrets (snd (handle_begin k e c req st)) = None"
    and "fst (handle_begin k e c req st) = Inl (Some x) \<Longrightarrow> \<not> discloses x"
proof -
  have g: "secrets (snd (handle_grant_op k e c oper st)) = secrets st" for oper
    using grant_ops_keep_vault(5) [of k e c oper st] by (simp add: vault_view_def)
  have pc: "put_checks e c q st = (Inl locked_response, st)" for q using assms by (simp add: put_checks_def)
  show "secrets (snd (handle_begin k e c req st)) = None"
    using assms g by (cases req) (auto simp: handle_begin_def handle_preflight_def lock_broker_def pc split: prod.splits, metis snd_conv)
  have gg: "\<not> discloses (fst (handle_grant_op k e c oper st))" for oper
  proof -
    have "\<not> discloses x" if "fst (grant_gate e c oper st) = Inl x" for x
      using that by (auto simp: grant_gate_def Let_def split: option.splits prod.splits if_splits)
    then show ?thesis
      by (auto simp: handle_grant_op_def handle_mint_def handle_list_grants_def handle_revoke_grant_def Let_def
          split: prod.split sum.split option.split grant_op.split)
  qed
  show "fst (handle_begin k e c req st) = Inl (Some x) \<Longrightarrow> \<not> discloses x"
    using assms gg by (cases req) (auto simp: handle_begin_def handle_preflight_def getStatus_def locked_response_def pc
        split: prod.splits if_splits, metis fst_conv)
qed

lemma locked_resume:
  assumes "secrets st = None"
  shows "secrets (snd (handle_resume k e w st)) = None" and "fst (handle_resume k e w st) = Some x \<Longrightarrow> \<not> discloses x"
proof -
  let ?db = "\<lambda>v. snd (validate_resume (c_compare k) (c_sha256 k) v (grantsDb st))"
  let ?r = "\<lambda>v. fst (validate_resume (c_compare k) (c_sha256 k) v (grantsDb st))"
  have l: "secrets (st\<lparr>grantsDb := db\<rparr>) = None" for db using assms by simp
  have "vault_view (snd (handle_resume k e w st)) = vault_view st"
    using locked_put_path(3) [OF l] by (cases w) (simp_all add: handle_resume_def split_beta)
  then show "secrets (snd (handle_resume k e w st)) = None" using assms by (simp add: vault_view_def)
  show "fst (handle_resume k e w st) = Some x \<Longrightarrow> \<not> discloses x"
    using locked_put_path(4) [OF l] locked_answers [OF l] by (cases w) (simp_all add: handle_resume_def split_beta)
qed

lemma sealed_keeps_locked: "secrets (fst s) = None \<Longrightarrow> secrets (fst (sealed_step k ev s)) = None"
proof (cases s, cases ev)
  fix st ws e c req
  assume a: "secrets (fst s) = None" "s = (st, ws)" "ev = BeginReq e c req"
  then show ?thesis using locked_begin(1) [of st k e c req] by (auto simp: sealed_step_def restrict_step_def split: prod.splits sum.splits)
next
  fix st ws e n
  assume a: "secrets (fst s) = None" "s = (st, ws)" "ev = ResumeReq e n"
  then show ?thesis using locked_resume(1) by (simp add: sealed_step_def restrict_step_def)
qed (auto simp: sealed_step_def restrict_step_def reload_config_def)

lemma locked_no_reveal: "secrets (fst s) = None \<Longrightarrow> \<not> reveals k ev s"
proof (cases s, cases ev)
  fix st ws e c req
  assume a: "secrets (fst s) = None" "s = (st, ws)" "ev = BeginReq e c req"
  then show ?thesis using locked_begin(2) [of st k e c req] by (auto simp: reveals_def split: sum.splits option.splits)
next
  fix st ws e n
  assume a: "secrets (fst s) = None" "s = (st, ws)" "ev = ResumeReq e n"
  then show ?thesis using locked_resume(2) by (auto simp: reveals_def split: option.splits)
qed (auto simp: reveals_def)

interpretation lock_switch: kill_switch "sealed_step k" "\<lambda>s. secrets (fst s) = None" "reveals k" for k
  by unfold_locales (rule sealed_keeps_locked, assumption, rule locked_no_reveal)

text \<open>
  Claim C38: a lock holds until the next unlock. After anyone's \<open>lock\<close>, in any state and with any requests suspended,
  no event but an unlock makes the broker disclose vault content again: no entry, key name, preflight
  result or entry count leaves it and nothing is written, whichever requests, continuations, tokens,
  attestations, reloads and file changes follow, in whatever order.
\<close>

theorem lock_seals:
  assumes "list_all (\<lambda>ev. \<not> is_unlock ev) es"
  shows "win_count (vb_step k) (reveals k) (vb_step k (BeginReq e c LockReq) s) es = 0"
proof -
  have "secrets (fst (vb_step k (BeginReq e c LockReq) s)) = None"
    by (cases s) (simp add: handle_begin_def lock_broker_def)
  then show ?thesis
    using lock_switch.dead_win_count [of _ k es] win_count_restrict [OF assms, of "vb_step k"] by (simp add: sealed_step_def)
qed

theorem lock_seals_witness:
  "win_count (vb_step demo_crypto) (reveals demo_crypto) (demo_unlocked, []) [BeginReq demo_env (demo_caller ''coder'') (GetReq ''px/key'' None)] = 1
   \<and> win_count (vb_step demo_crypto) (reveals demo_crypto) (vb_step demo_crypto (BeginReq demo_env (demo_caller ''coder'') LockReq) (demo_unlocked, []))
       [BeginReq demo_env (demo_caller ''coder'') (GetReq ''px/key'' None)] = 0"
  using lock_seals [of "[BeginReq demo_env (demo_caller ''coder'') (GetReq ''px/key'' None)]" demo_crypto demo_env "demo_caller ''coder''"
      "(demo_unlocked, [])"] demo_get
  by (simp add: reveals_def)

end
