(* ===== verification/Broker_Mint.thy ===== *)
theory Broker_Mint
  imports Broker_System
begin

text \<open>
  Who gets a capability grant from the vault broker: what a successful \<open>mint_grant\<close> proves about its caller,
  what the operator-approval requirement of the posture path amounts to on the broker's own database,
  and the behaviours of the grant operations on concrete brokers that their comments exclude.
\<close>

section \<open>The callers a mint serves\<close>

lemma collect_unique_empty: "collect_unique p ks out = [] \<longleftrightarrow> out = [] \<and> (\<forall>k \<in> set ks. \<not> p k)"
  by (induction p ks out rule: collect_unique.induct) auto

lemma blocked_keys_empty:
  "blocked_keys a q st = [] \<longleftrightarrow>
     (\<forall>key \<in> set (q_keys q) \<union> set (q_write_keys q). matchesAdminOnlyKey key (admin_only_patterns st) \<longrightarrow> key \<in> set (retained_keys a st))"
  by (auto simp: blocked_keys_def adminOnlyKeysBeingAdded_def collect_unique_empty matchesAdminOnlyKey_def)

text \<open>What a posture attestation takes: an agent on the allow list, minting for itself, on an unlocked broker.\<close>

definition posture_holds :: "env \<Rightarrow> caller \<Rightarrow> mint_request \<Rightarrow> broker \<Rightarrow> bool" where
  "posture_holds e c q st \<longleftrightarrow>
     agentName c = Some (q_agent q) \<and> posture_mode st = ''telegram-id'' \<and> q_agent q \<in> set (posture_agents st) \<and> passphrase st \<noteq> None
     \<and> (\<forall>key \<in> set (q_keys q) \<union> set (q_write_keys q).
          matchesAdminOnlyKey key (admin_only_patterns st) \<longrightarrow> key \<in> set (retained_keys (q_agent q) st))
     \<and> (require_operator_mint e \<longrightarrow> isOperatorVerifiedDecision
          (if given (q_decision_id q) then getDecision (the (q_decision_id q)) (approvalsDb st) else None)
          (q_agent q) (wall_clock (approvalsDb st)))"

lemma if_Some_None: "(if b then Some x else y) = None \<longleftrightarrow> \<not> b \<and> y = None"
  by simp

lemma posture_refusal_None: "posture_refusal e c (MintOp q) st = None \<longleftrightarrow> posture_holds e c q st"
  by (cases "agentName c") (auto simp: posture_refusal_def posture_holds_def if_Some_None blocked_keys_empty)

definition passphrase_holds :: "string option \<Rightarrow> broker \<Rightarrow> bool" where
  "passphrase_holds p st \<longleftrightarrow> given p \<and> p = passphrase st"

lemma grant_gate_mint:
  assumes "grant_gate e c (MintOp q) st = (Inr att, st1)"
  shows "isOperator c \<or> isAdminAgent c st \<or> passphrase_holds (q_mint_passphrase q) st \<or> q_mint_posture q
      \<or> agentName c = None \<and> (peer_label c \<noteq> None \<or> allowNonLinux e)"
    and "q_mint_posture q \<Longrightarrow> posture_holds e c q st" and "given (q_mint_passphrase q) \<Longrightarrow> passphrase_holds (q_mint_passphrase q) st"
proof -
  define P where "P = (if q_mint_posture q then posture_refusal e c (MintOp q) st else None)"
  have gate: "grant_gate e c (MintOp q) st = (Inr att, st1)" by (rule assms)
  have P: "P = None"
    using gate by (cases P) (auto simp: grant_gate_def op_passphrase_def op_posture_def P_def [symmetric] Let_def split: if_splits)
  then show "q_mint_posture q \<Longrightarrow> posture_holds e c q st" by (simp add: P_def posture_refusal_None)
  show pass: "given (q_mint_passphrase q) \<Longrightarrow> passphrase_holds (q_mint_passphrase q) st"
    using gate by (auto simp: grant_gate_def op_passphrase_def op_posture_def passphrase_holds_def Let_def split: if_splits)
  have "agentName c = None \<and> (peer_label c \<noteq> None \<or> allowNonLinux e)"
    if n: "\<not> isOperator c" "\<not> isAdminAgent c st" "\<not> given (q_mint_passphrase q)" "\<not> q_mint_posture q"
    using gate n by (cases "agentName c") (auto simp: grant_gate_def op_passphrase_def op_posture_def Let_def split: if_splits)
  then show "isOperator c \<or> isAdminAgent c st \<or> passphrase_holds (q_mint_passphrase q) st \<or> q_mint_posture q
      \<or> agentName c = None \<and> (peer_label c \<noteq> None \<or> allowNonLinux e)" using pass by blast
qed

lemma grant_gate_db: "grantsDb (snd (grant_gate e c oper st)) = grantsDb st"
proof -
  define P where "P = (if op_posture oper then posture_refusal e c oper st else None)"
  have if_db: "grantsDb (if b then x else y) = (if b then grantsDb x else grantsDb y)" for b and x y :: broker by simp
  show ?thesis
    unfolding grant_gate_def P_def [symmetric] Let_def
    by (cases P; cases "agentName c") (simp_all add: if_db split_beta)
qed

lemma handle_mint_VMinted:
  assumes "handle_mint k e c q st = (VMinted tok i x, st')"
  shows "\<exists>r. rows (grantsDb st') = rows (grantsDb st) @ [r] \<and> g_id r = i \<and> g_agent_slug r = q_agent q \<and> g_key_allow r = q_keys q
    \<and> g_write_allow r = q_write_keys q \<and> g_revoked_at r = None \<and> g_expires_at r = x
    \<and> i \<notin> g_id ` set (rows (grantsDb st)) \<and> map_of (token_files st') (q_agent q) = Some tok"
proof -
  obtain m db where m: "mintGrant (c_hash k) (rnd_hex e) (rnd_secret e) (rnd_salt e) (q_agent q) (q_keys q) (q_ttl q) (q_description q)
                 (q_write_keys q) (grantsDb st) = Inr (m, db)"
      "grantsDb st' = db" "tok = m_token m" "i = m_id m" "x = m_expires_at m" "map_of (token_files st') (q_agent q) = Some (m_token m)"
    using assms by (auto simp: handle_mint_def Let_def update_conv' split: if_splits sum.splits option.splits prod.splits)
  show ?thesis using m(1) unfolding m(2-6) by (auto simp: mintGrant_def Let_def sql_insert_def split: if_splits)
qed

text \<open>
  Claim C39: every minted grant was authorised. A \<open>mint_grant\<close> that returns a token came from the operator, an admin
  agent, the holder of the vault passphrase, an agent under posture attestation, or a peer without an
  agent identity that peercred found; a forwarded passphrase is the vault's. Under posture attestation
  the agent is on the operator's list, mints for itself only, the broker is unlocked, and every
  key or write pattern it asks for that, read as a literal key, is admin-only is one its live grants already name; a write
  pattern that only covers admin-only keys is not caught by this (\<open>posture_mint_write_star\<close>). The grant is a new row with exactly
  the keys asked for, and the agent's token file holds the token returned.
\<close>

theorem mint_authorised:
  assumes "handle_grant_op k e c (MintOp q) st = (VMinted tok i x, st')"
  shows "(isOperator c \<or> isAdminAgent c st \<or> passphrase_holds (q_mint_passphrase q) st \<or> q_mint_posture q
      \<or> agentName c = None \<and> (peer_label c \<noteq> None \<or> allowNonLinux e))
    \<and> (given (q_mint_passphrase q) \<longrightarrow> passphrase_holds (q_mint_passphrase q) st)
    \<and> (q_mint_posture q \<longrightarrow> posture_holds e c q st)
    \<and> (\<exists>r. rows (grantsDb st') = rows (grantsDb st) @ [r] \<and> g_id r = i \<and> g_agent_slug r = q_agent q \<and> g_key_allow r = q_keys q
        \<and> g_write_allow r = q_write_keys q \<and> g_revoked_at r = None \<and> g_expires_at r = x
        \<and> i \<notin> g_id ` set (rows (grantsDb st)) \<and> map_of (token_files st') (q_agent q) = Some tok)"
proof -
  have no: "fst (grant_gate e c (MintOp q) st) \<noteq> Inl (VMinted tok i x)"
    by (simp add: grant_gate_def Let_def split: option.split prod.split)
  then obtain att st1 where g: "grant_gate e c (MintOp q) st = (Inr att, st1)" "handle_mint k e c q st1 = (VMinted tok i x, st')"
    using assms by (cases "grant_gate e c (MintOp q) st"; cases "fst (grant_gate e c (MintOp q) st)") (auto simp: handle_grant_op_def)
  have db: "grantsDb st1 = grantsDb st" using grant_gate_db [of e c "MintOp q" st] g(1) by simp
  show ?thesis using grant_gate_mint [OF g(1)] handle_mint_VMinted [OF g(2)] unfolding db by blast
qed

definition demo_posture_config :: config where
  "demo_posture_config = demo_config\<lparr>approvalAuth := Some ''telegram-id'', postureMintAgents := [''coder''], adminOnlyKeys := [''ops/*'']\<rparr>"

definition demo_posture :: broker where
  "demo_posture = fst (vb_step demo_crypto (UnlockReq demo_env ''pw'') (initial_broker (Some demo_posture_config) 0 (Some demo_file), []))"

definition demo_mint :: "string list \<Rightarrow> string list \<Rightarrow> mint_request" where
  "demo_mint keys wkeys = \<lparr>q_agent = ''coder'', q_keys = keys, q_ttl = Some 60, q_description = None, q_write_keys = wkeys,
     q_mint_passphrase = None, q_mint_posture = True, q_decision_id = None\<rparr>"

lemma demo_mint_ok:
  "handle_grant_op demo_crypto demo_env (demo_caller ''coder'') (MintOp (demo_mint [''px/key''] [])) demo_posture =
     (VMinted ''vg_0a.s'' ''vg_0a'' (Some 60),
      snd (handle_grant_op demo_crypto demo_env (demo_caller ''coder'') (MintOp (demo_mint [''px/key''] [])) demo_posture))"
  by (rule prod_eqI, code_simp, simp)

theorem mint_authorised_witness:
  "posture_holds demo_env (demo_caller ''coder'') (demo_mint [''px/key''] []) demo_posture"
  using mint_authorised [OF demo_mint_ok] by (simp add: demo_mint_def)

section \<open>The operator-approval requirement\<close>

text \<open>Every decision on the broker's own database is an agent's: it records no other origin.\<close>

definition agent_origins :: "kernel_db \<Rightarrow> bool" where
  "agent_origins db \<longleftrightarrow> (\<forall>d \<in> set (decisions db). d_origin d = AgentOrigin)"

lemma agent_origins_map:
  "agent_origins db \<Longrightarrow> touches_only i f \<Longrightarrow> decisions db' = map f (decisions db) \<Longrightarrow> agent_origins db'"
  by (auto simp: agent_origins_def touches_only_def)

lemma agent_origins_lookup:
  assumes "agent_origins db"
  shows "agent_origins (snd (lookupDecision a sc ac apps m now db))"
  by (rule lookupDecision_cases [of a sc ac apps m now db])
     (use assms agent_origins_map [OF assms touches_only_row_update evaluate_decisions] in simp_all)

lemma agent_origins_revoke:
  assumes "agent_origins db"
  shows "agent_origins (snd (revokeDecision did actor reason now db))"
  using assms by (auto simp: revokeDecision_def agent_origins_def Let_def set_sql_update split: option.split)

lemma agent_origins_record:
  assumes "agent_origins db" "recordDecision uuid input now db = Inr (did, db')" "r_origin input = None"
  shows "agent_origins db'"
  using assms(1,3) recordDecision_InrD(3) [OF assms(2)] by (auto simp: agent_origins_def recorded_row_def)

lemma agent_origins_approval_op:
  assumes "agent_origins db"
  shows "agent_origins (snd (handleApprovalOp e req db))"
proof (cases req)
  case (ApprovalRequest a sc ac apps why ttl)
  then show ?thesis using assms
    by (auto simp: handleApprovalOp_def agent_origins_def Let_def dest: requestApproval_InrD(1) split: sum.split prod.split)
next
  case (ApprovalConsume rid)
  have "agent_origins (snd (consumeNonce rid (wall_clock db) db))" using assms by (simp add: agent_origins_def)
  then show ?thesis using ApprovalConsume by (auto simp: handleApprovalOp_def Let_def split: prod.split option.split)
next
  case (ApprovalRecord rid mode apps user ttl)
  then show ?thesis using assms agent_origins_record [OF assms]
    by (auto simp: handleApprovalOp_def Let_def split: sum.split prod.split option.split)
next
  case (ApprovalLookup a sc ac apps)
  then show ?thesis using agent_origins_lookup [OF assms, of a sc ac apps None "wall_clock db"]
    by (auto simp: handleApprovalOp_def Let_def split: prod.split)
next
  case (ApprovalRevoke did actor reason)
  then show ?thesis using agent_origins_revoke [OF assms, of did actor reason "wall_clock db"]
    by (auto simp: handleApprovalOp_def Let_def split: prod.split)
qed (use assms in \<open>simp_all add: handleApprovalOp_def Let_def\<close>)

text \<open>Only the approval operations touch the decisions.\<close>

lemma reload_approvals [simp]: "approvalsDb (reloadSecretsIfVaultChanged e force st) = approvalsDb st"
  by (rule reload_cases [of e force st]) (simp_all add: failClosedOnVaultDrift_def lock_broker_def)

lemma reads_keep_approvals [simp]:
  "approvalsDb (snd (audited_release e c key m g r st)) = approvalsDb st"
  "approvalsDb (snd (get_scoped e c key st)) = approvalsDb st"
  "approvalsDb (snd (get_acl e c key st)) = approvalsDb st"
  "approvalsDb (snd (get_token e c key t res st)) = approvalsDb st"
  "approvalsDb (snd (list_peercred e c st)) = approvalsDb st"
  "approvalsDb (snd (list_token e c t res st)) = approvalsDb st"
proof -
  show 1: "approvalsDb (snd (audited_release e c key m g r st)) = approvalsDb st" for m g r st
    by (simp add: audited_release_def Let_def)
  show 2: "approvalsDb (snd (get_scoped e c key st)) = approvalsDb st" for st
    by (simp add: get_scoped_def 1 split: option.split AclResult.split)
  show 3: "approvalsDb (snd (get_acl e c key st)) = approvalsDb st" for st
    by (simp add: get_acl_def 2 split: option.split AclResult.split)
  show "approvalsDb (snd (get_token e c key t res st)) = approvalsDb st"
    by (simp add: get_token_def 1 3 Let_def split: sum.split option.split AclResult.split)
  show 4: "approvalsDb (snd (list_peercred e c st)) = approvalsDb st"
    by (simp add: list_peercred_def Let_def split: option.split)
  show "approvalsDb (snd (list_token e c t res st)) = approvalsDb st"
    by (simp add: list_token_def 4 Let_def)
qed

lemma puts_keep_approvals [simp]:
  "approvalsDb (snd (put_path e c q att g st)) = approvalsDb st"
  "approvalsDb (snd (put_token e c q att v st)) = approvalsDb st"
  "approvalsDb (snd (put_checks e c q st)) = approvalsDb st"
proof -
  have 1: "approvalsDb (snd (put_entry e c q att g secs st)) = approvalsDb st" for att g secs
    by (simp add: put_entry_def put_commit_def Let_def split: option.split)
  show 2: "approvalsDb (snd (put_path e c q att g st)) = approvalsDb st" for g
    by (simp add: put_path_def 1 Let_def split: option.split AclResult.split)
  show "approvalsDb (snd (put_token e c q att v st)) = approvalsDb st"
    by (simp add: put_token_def 2 Let_def split: sum.split option.split AclResult.split)
  show "approvalsDb (snd (put_checks e c q st)) = approvalsDb st"
    by (simp add: put_checks_def put_attest_def Let_def split: option.split)
qed

lemma grants_keep_approvals: "approvalsDb (snd (handle_grant_op k e c oper st)) = approvalsDb st"
proof -
  define P where "P = (if op_posture oper then posture_refusal e c oper st else None)"
  have if_db: "approvalsDb (if b then x else y) = (if b then approvalsDb x else approvalsDb y)" for b and x y :: broker by simp
  have 1: "approvalsDb (snd (grant_gate e c oper st)) = approvalsDb st"
    unfolding grant_gate_def P_def [symmetric] Let_def
    by (cases P; cases "agentName c") (simp_all add: if_db split_beta)
  have 2: "approvalsDb (snd (handle_mint k e c q s)) = approvalsDb s" for q s
    by (simp add: handle_mint_def Let_def split: sum.split option.split prod.split)
  have 3: "approvalsDb (snd (handle_list_grants e c ag att s)) = approvalsDb s" for ag att s
    by (simp add: handle_list_grants_def Let_def)
  have 4: "approvalsDb (snd (handle_revoke_grant e c i s)) = approvalsDb s" for i s
    by (simp add: handle_revoke_grant_def Let_def split: option.split prod.split)
  show ?thesis using 1 2 3 4 by (auto simp: handle_grant_op_def split: prod.split sum.split grant_op.split)
qed

lemma begin_validation_approvals:
  assumes "\<And>r. approvalsDb (snd (cont r st)) = approvalsDb st"
  shows "approvalsDb (snd (begin_validation k w t key wait cont st)) = approvalsDb st"
  by (rule begin_validation_cases [of k w t key wait cont st]) (use assms in simp_all)

lemma begin_approvals:
  assumes "agent_origins (approvalsDb st)"
  shows "agent_origins (approvalsDb (snd (handle_begin k e c req st)))"
proof (cases req)
  case (ApprovalReq r)
  then show ?thesis using agent_origins_approval_op [OF assms, of e r] by (auto simp: handle_begin_def split: prod.split)
next
  case (GrantReq oper)
  then show ?thesis using assms grants_keep_approvals [of k e c oper st] by (auto simp: handle_begin_def split: prod.split)
next
  case (PutReq q)
  obtain r st1 where p: "put_checks e c q st = (r, st1)" by force
  then have "approvalsDb st1 = approvalsDb st" using puts_keep_approvals(3) [of e c q st] unfolding p by simp
  then show ?thesis using assms p PutReq by (simp add: handle_begin_def begin_validation_approvals split: sum.split)
qed (use assms in \<open>simp_all add: handle_begin_def handle_preflight_def lock_broker_def begin_validation_approvals Let_def split: option.split\<close>)

lemma agent_origins_step: "agent_origins (approvalsDb (fst s)) \<Longrightarrow> agent_origins (approvalsDb (fst (vb_step k ev s)))"
proof (cases s, cases ev)
  fix st ws e c req
  assume "agent_origins (approvalsDb (fst s))" "s = (st, ws)" "ev = BeginReq e c req"
  then show ?thesis using begin_approvals [of st k e c req] by (auto split: prod.splits sum.splits)
next
  fix st ws e n
  assume a: "agent_origins (approvalsDb (fst s))" "s = (st, ws)" "ev = ResumeReq e n"
  have "approvalsDb (snd (handle_resume k e w st)) = approvalsDb st" for w
    by (cases w) (simp_all add: handle_resume_def split_beta)
  then show ?thesis using a by simp
qed (auto simp: agent_origins_def reload_config_def unlockFromPassphrase_def split: option.splits if_splits)

interpretation broker_origins: event_system "vb_step k" "\<lambda>s. agent_origins (approvalsDb (fst s))" for k
  by unfold_locales (rule agent_origins_step)

text \<open>
  Claim C40: the operator requirement blocks every posture mint. With \<open>SWITCHROOM_REQUIRE_OPERATOR_APPROVAL_MINT\<close> set, no
  posture-attested \<open>mint_grant\<close> is ever granted, in any reachable state and whatever decision it references: the
  gate looks the decision up in the broker's own database, and no approval operation of the broker
  records there a decision of operator origin. The requirement cannot be met, so it cannot be bypassed.
\<close>

theorem operator_requirement_blocks_mint:
  assumes "(st, ws) = run (vb_step k) (initial_broker cfg t file, []) es"
    and "require_operator_mint e" "q_mint_posture q"
  shows "\<exists>code msg. fst (handle_grant_op k e c (MintOp q) st) = VErr code msg \<and> grantsDb (snd (handle_grant_op k e c (MintOp q) st)) = grantsDb st"
proof -
  have "agent_origins (approvalsDb (initial_broker cfg t file))"
    by (simp add: initial_broker_def agent_origins_def migrateApprovalSchema_def)
  then have org: "agent_origins (approvalsDb st)"
    using broker_origins.invar_run [of "(initial_broker cfg t file, [])" k es] by (simp add: assms(1) [symmetric])
  then have "\<not> isOperatorVerifiedDecision (getDecision i (approvalsDb st)) a now" for i a now
    by (auto simp: isOperatorVerifiedDecision_def getDecision_def agent_origins_def split: option.split dest!: sql_get_SomeD)
  then have "\<not> posture_holds e c q st"
    using assms(2) by (simp add: posture_holds_def isOperatorVerifiedDecision_def)
  then obtain code msg result where P: "posture_refusal e c (MintOp q) st = Some (code, msg, result)"
    using posture_refusal_None [of e c q st] by (cases "posture_refusal e c (MintOp q) st") auto
  have "\<exists>code msg s. grant_gate e c (MintOp q) st = (Inl (VErr code msg), s)"
    using P assms(3) by (simp add: grant_gate_def op_posture_def op_passphrase_def Let_def)
  then obtain code msg s where g: "grant_gate e c (MintOp q) st = (Inl (VErr code msg), s)" by blast
  then have "grantsDb s = grantsDb st" using grant_gate_db [of e c "MintOp q" st] by simp
  then show ?thesis by (simp add: handle_grant_op_def g)
qed

theorem operator_requirement_blocks_mint_witness:
  "\<exists>code msg. fst (handle_grant_op demo_crypto (demo_env\<lparr>require_operator_mint := True\<rparr>) (demo_caller ''coder'')
     (MintOp (demo_mint [''px/key''] [])) demo_posture) = VErr code msg"
proof -
  have "(demo_posture, []) = run (vb_step demo_crypto) (initial_broker (Some demo_posture_config) 0 (Some demo_file), []) [UnlockReq demo_env ''pw'']"
    by (simp add: demo_posture_def split: option.split)
  from operator_requirement_blocks_mint [OF this, of "demo_env\<lparr>require_operator_mint := True\<rparr>" "demo_mint [''px/key''] []" "demo_caller ''coder''"]
  show ?thesis by (auto simp: demo_mint_def)
qed

section \<open>Behaviours the comments exclude\<close>

text \<open>
  The operator's \<open>get\<close> is checked a second time with no agent slug: an entry whose allow list names the operator
  is refused all the same, although \<open>list\<close> and \<open>preflight_access\<close> show it.
\<close>

lemma operator_get_refused:
  assumes "isOperator c" "agentName c = None" "secrets st = Some secs" "map_of secs key = Some entry"
    and "e_scope entry = Some s" "scope_allow s \<noteq> []"
  shows "fst (get_acl e c key st) \<noteq> Some (VEntry w)"
  using assms by (auto simp: get_acl_def get_scoped_def checkEntryScope_def Let_def split: AclResult.splits)

text \<open>A posture-attested \<open>list_grants\<close> without an agent shows every agent's grants: no coercion to the caller happens.\<close>

lemma posture_list_unset_lists_all:
  assumes "agentName c = Some a" "posture_mode st = ''telegram-id''" "a \<in> set (posture_agents st)" "passphrase st \<noteq> None"
    and "\<not> isOperator c"
  shows "\<exists>gs. fst (handle_grant_op k e c (ListOp None None True) st) = VGrants gs
    \<and> g_agent_slug ` set gs = g_agent_slug ` {r \<in> set (rows (grantsDb st)). g_revoked_at r = None}"
proof -
  have "posture_refusal e c (ListOp None None True) st = None" using assms by (simp add: posture_refusal_def)
  then obtain b st1 where g: "grant_gate e c (ListOp None None True) st = (Inr b, st1)"
    using assms(1,5) by (auto simp: grant_gate_def op_posture_def op_passphrase_def given_def Let_def)
  have db: "grantsDb st1 = grantsDb st" using grant_gate_db [of e c "ListOp None None True" st] g by simp
  have "fst (handle_grant_op k e c (ListOp None None True) st) = VGrants (map (\<lambda>g. g\<lparr>g_revoked_at := None\<rparr>) (listGrants None (grantsDb st)))"
    by (simp add: handle_grant_op_def g handle_list_grants_def Let_def db)
  moreover have "g_agent_slug ` set (map (\<lambda>g. g\<lparr>g_revoked_at := None\<rparr>) (listGrants None (grantsDb st)))
      = g_agent_slug ` {r \<in> set (rows (grantsDb st)). g_revoked_at r = None}"
    by (auto simp: listGrants_def rowToGrant_def image_iff)
  ultimately show ?thesis by blast
qed

text \<open>
  Write patterns are compared with the admin-only patterns as if they were keys: a posture mint of the
  write pattern \<open>*\<close> succeeds and covers the admin-only key \<open>ops/root\<close>, which the same path refuses by name.
\<close>

lemma posture_mint_write_star:
  "fst (handle_grant_op demo_crypto demo_env (demo_caller ''coder'') (MintOp (demo_mint [] [''*''])) demo_posture) = VMinted ''vg_0a.s'' ''vg_0a'' (Some 60)"
  "keyMatchesPatterns [''*''] ''ops/root''" "matchesAdminOnlyKey ''ops/root'' (admin_only_patterns demo_posture)"
  "posture_refusal demo_env (demo_caller ''coder'') (MintOp (demo_mint [''ops/root''] [])) demo_posture \<noteq> None"
  by code_simp+

text \<open>
  A \<open>put\<close> refreshes the copy before it awaits its token: the key another process adds to the file during the
  await is gone from the file after the \<open>put\<close> is answered \<open>ok\<close>.
\<close>

definition demo_granted :: broker where
  "demo_granted = snd (handle_grant_op demo_crypto demo_env (demo_caller ''coder'') (MintOp (demo_mint [''px/key''] [''px/*''])) demo_posture)"

definition demo_token_put :: put_request where
  "demo_token_put = \<lparr>q_key = ''px/key'', q_kind = KString, q_value = ''w'', q_token = Some ''vg_0a.s'', q_passphrase = None, q_posture = False\<rparr>"

definition demo_lost :: vb_system where
  "demo_lost = run (vb_step demo_crypto) (demo_granted, [])
     [BeginReq demo_env (demo_caller ''coder'') (PutReq demo_token_put),
      ForeignWrite (Some ''pw'') [(''px/key'', demo_entry None), (''added'', demo_entry None)]]"

lemma token_put_loses_foreign_write:
  "vb_answer demo_crypto (ResumeReq demo_env 0) demo_lost = Some (VPut ''px/key'')"
  "map_of (f_secrets (the (disk (fst demo_lost)))) ''added'' = Some (demo_entry None)"
  "map_of (f_secrets (the (disk (fst (vb_step demo_crypto (ResumeReq demo_env 0) demo_lost))))) ''added'' = None"
  by code_simp+

text \<open>A request suspended when the broker is locked is never answered: its continuation reads the secrets of a locked broker.\<close>

lemma lock_during_await_no_answer:
  "vb_answer demo_crypto (ResumeReq demo_env 0)
     (run (vb_step demo_crypto) (demo_granted, [])
       [BeginReq demo_env (demo_caller ''coder'') (GetReq ''px/key'' (Some ''vg_0a.s'')), BeginReq demo_env (demo_caller ''coder'') LockReq]) = None"
  by code_simp

text \<open>\<open>list\<close> honours a token another agent presents, which \<open>get\<close> refuses.\<close>

lemma foreign_token_lists_but_does_not_read:
  "fst (handle_request demo_crypto demo_env (demo_caller ''other'') (ListReq (Some ''vg_0a.s'')) demo_granted) = Some (VKeys [''px/key''])"
  "fst (handle_request demo_crypto demo_env (demo_caller ''other'') (GetReq ''px/key'' (Some ''vg_0a.s'')) demo_granted)
     = Some (VErr VDENIED ''grant-identity-mismatch'')"
  by code_simp+

end
