(* ===== verification/Account_Eligibility.thy ===== *)
theory Account_Eligibility
  imports Prelude Complex_Main
begin

text \<open>
  The decision layer of the auth broker (\<open>src/auth/broker/account-eligibility.ts\<close>,
  \<open>consumer-quota-sensor.ts\<close>, \<open>model-tier-quota.ts\<close>): is an account blocked, eligible or unknown given its
  exhaustion mark and the last quota probe, may a probe clear a mark, how far a mark may reach, and the
  soft-avoid tier with its hysteresis. Times are milliseconds; percentages, which the code computes
  as doubles, are rationals. A field that is \<open>null\<close> and one that is \<open>undefined\<close> are both \<open>None\<close>, which is how
  the code reads them.
\<close>

section \<open>Snapshots and marks\<close>

definition WALL_PCT :: rat where "WALL_PCT = 199 / 2"
definition HEALTHY_CLEAR_PCT :: rat where "HEALTHY_CLEAR_PCT = 80"
definition SNAPSHOT_STALE_AGE_MS :: int where "SNAPSHOT_STALE_AGE_MS = 24 * 60 * 60 * 1000"
definition OVERAGE_EXHAUSTED_REASONS :: "string list" where "OVERAGE_EXHAUSTED_REASONS = [''out_of_credits'']"

record QuotaSnapshot =
  fiveHourUtilizationPct :: rat
  sevenDayUtilizationPct :: rat
  capturedAt :: int
  overageStatus :: "string option"
  overageDisabledReason :: "string option"
  fiveHourUtilPresent :: "bool option"
  sevenDayUtilPresent :: "bool option"

record SoftAvoidSnapshot = QuotaSnapshot +
  fiveHourResetAtMs :: "int option"
  sevenDayResetAtMs :: "int option"

record ExhaustionMark =
  exhausted_until :: int
  marked_at :: "int option"

datatype AccountEligibility = Blocked | Eligible | Unknown

definition exhausted_reason :: "string option \<Rightarrow> bool" where
  "exhausted_reason reason = (case reason of None \<Rightarrow> False | Some r \<Rightarrow> r \<in> set OVERAGE_EXHAUSTED_REASONS)"

definition hasNoOverageHeadroom :: "'a QuotaSnapshot_scheme \<Rightarrow> bool" where
  "hasNoOverageHeadroom s = exhausted_reason (overageDisabledReason s)"

definition snapshotFreshWithin :: "int \<Rightarrow> 'a QuotaSnapshot_scheme option \<Rightarrow> int \<Rightarrow> bool" where
  "snapshotFreshWithin maxAgeMs snapshot now =
     (case snapshot of None \<Rightarrow> False | Some s \<Rightarrow> now - capturedAt s \<le> maxAgeMs \<and> capturedAt s \<le> now + 60000)"

abbreviation snapshotFresh :: "'a QuotaSnapshot_scheme option \<Rightarrow> int \<Rightarrow> bool" where
  "snapshotFresh \<equiv> snapshotFreshWithin SNAPSHOT_STALE_AGE_MS"

definition snapshotWalled :: "'a QuotaSnapshot_scheme \<Rightarrow> bool" where
  "snapshotWalled s \<longleftrightarrow> WALL_PCT \<le> fiveHourUtilizationPct s \<or> WALL_PCT \<le> sevenDayUtilizationPct s"

definition snapshotComplete :: "'a QuotaSnapshot_scheme \<Rightarrow> bool" where
  "snapshotComplete s \<longleftrightarrow> fiveHourUtilPresent s \<noteq> Some False \<and> sevenDayUtilPresent s \<noteq> Some False"

definition overageLiftsWall :: "'a QuotaSnapshot_scheme \<Rightarrow> bool \<Rightarrow> bool" where
  "overageLiftsWall s inAllowList =
     (if \<not> inAllowList then False
      else if overageStatus s \<noteq> Some ''allowed'' then False
      else \<not> exhausted_reason (overageDisabledReason s))"

definition snapshotClearlyHealthy :: "'a QuotaSnapshot_scheme \<Rightarrow> bool" where
  "snapshotClearlyHealthy s \<longleftrightarrow>
     fiveHourUtilizationPct s < HEALTHY_CLEAR_PCT \<and> sevenDayUtilizationPct s < HEALTHY_CLEAR_PCT"

section \<open>Eligibility\<close>

definition mark_time :: "ExhaustionMark option \<Rightarrow> int" where
  "mark_time mark = (case mark of None \<Rightarrow> 0 | Some m \<Rightarrow> (case marked_at m of None \<Rightarrow> 0 | Some t \<Rightarrow> t))"

definition mark_verdict :: "ExhaustionMark option \<Rightarrow> int \<Rightarrow> AccountEligibility" where
  "mark_verdict mark now = (case mark of None \<Rightarrow> Unknown | Some m \<Rightarrow> if now < exhausted_until m then Blocked else Unknown)"

definition accountEligibility ::
  "ExhaustionMark option \<Rightarrow> 'a QuotaSnapshot_scheme option \<Rightarrow> int \<Rightarrow> bool \<Rightarrow> bool \<Rightarrow> AccountEligibility"
where
  "accountEligibility mark snapshot now allowOverage entitlementBlocked =
     (if entitlementBlocked then Blocked
      else case snapshot of
        None \<Rightarrow> mark_verdict mark now
      | Some s \<Rightarrow>
          if snapshotFresh (Some s) now \<and> snapshotWalled s \<and> \<not> overageLiftsWall s allowOverage then Blocked
          else if snapshotFresh (Some s) now \<and> mark_time mark \<le> capturedAt s then
            (if snapshotWalled s then (if overageLiftsWall s allowOverage then Eligible else Blocked)
             else if snapshotComplete s then Eligible
             else mark_verdict mark now)
          else mark_verdict mark now)"

definition isAccountBlocked ::
  "ExhaustionMark option \<Rightarrow> 'a QuotaSnapshot_scheme option \<Rightarrow> int \<Rightarrow> bool \<Rightarrow> bool \<Rightarrow> bool"
where
  "isAccountBlocked mark snapshot now allowOverage entitlementBlocked \<longleftrightarrow>
     accountEligibility mark snapshot now allowOverage entitlementBlocked = Blocked"

definition snapshotShouldClearMark :: "'a QuotaSnapshot_scheme \<Rightarrow> ExhaustionMark option \<Rightarrow> int \<Rightarrow> bool" where
  "snapshotShouldClearMark s mark now =
     (if mark = None then False
      else if \<not> snapshotFresh (Some s) now then False
      else if capturedAt s < mark_time mark then False
      else if \<not> snapshotComplete s then False
      else snapshotClearlyHealthy s)"

definition clampMarkExpiry :: "int \<Rightarrow> int \<Rightarrow> int \<Rightarrow> 'a QuotaSnapshot_scheme option \<Rightarrow> int" where
  "clampMarkExpiry proposedUntil now shortMs snapshot =
     (let shortCeil = now + shortMs
      in if proposedUntil \<le> shortCeil then proposedUntil
         else if (case snapshot of None \<Rightarrow> False | Some s \<Rightarrow>
             snapshotFresh (Some s) now \<and> sevenDayUtilPresent s \<noteq> Some False \<and> sevenDayUtilizationPct s < WALL_PCT)
         then shortCeil else proposedUntil)"

section \<open>The soft-avoid tier\<close>

definition SOFT_AVOID_FIVE_HOUR_CAP :: rat where "SOFT_AVOID_FIVE_HOUR_CAP = 98"
definition SOFT_AVOID_EXIT_MARGIN :: rat where "SOFT_AVOID_EXIT_MARGIN = 5"

text \<open>A threshold per window: the five-hour one first.\<close>

definition softAvoidThresholds :: "rat \<Rightarrow> rat \<times> rat" where
  "softAvoidThresholds pct = (min (pct + 3) SOFT_AVOID_FIVE_HOUR_CAP, pct)"

record triggers =
  t_five :: bool
  t_seven :: bool

record SoftAvoidState =
  softAvoided :: bool
  triggeredBy :: "triggers option"
  fiveHourResetAt :: "int option"
  sevenDayResetAt :: "int option"

definition not_avoided :: SoftAvoidState where
  "not_avoided = \<lparr>softAvoided = False, triggeredBy = None, fiveHourResetAt = None, sevenDayResetAt = None\<rparr>"

definition both_triggers :: triggers where
  "both_triggers = \<lparr>t_five = True, t_seven = True\<rparr>"

definition latched_triggers :: "SoftAvoidState option \<Rightarrow> triggers" where
  "latched_triggers prev = (case prev of None \<Rightarrow> both_triggers
     | Some p \<Rightarrow> (case triggeredBy p of None \<Rightarrow> both_triggers | Some t \<Rightarrow> t))"

definition is_latched :: "SoftAvoidState option \<Rightarrow> bool" where
  "is_latched prev = (case prev of None \<Rightarrow> False | Some p \<Rightarrow> softAvoided p)"

definition or_else :: "'a option \<Rightarrow> 'a option \<Rightarrow> 'a option" where
  "or_else x y = (case x of None \<Rightarrow> y | Some _ \<Rightarrow> x)"

definition refilled :: "int option \<Rightarrow> int \<Rightarrow> bool" where
  "refilled resetAt now = (case resetAt of None \<Rightarrow> False | Some t \<Rightarrow> t \<le> now)"

definition epoch_advanced :: "int option \<Rightarrow> int option \<Rightarrow> bool" where
  "epoch_advanced before after = (case (before, after) of (Some b, Some a) \<Rightarrow> b < a | _ \<Rightarrow> False)"

definition nextState :: "SoftAvoidSnapshot \<Rightarrow> SoftAvoidState option \<Rightarrow> bool \<Rightarrow> triggers option \<Rightarrow> SoftAvoidState" where
  "nextState s prev avoid trig = \<lparr>softAvoided = avoid, triggeredBy = (if avoid then trig else None),
     fiveHourResetAt = or_else (fiveHourResetAtMs s) (Option.bind prev fiveHourResetAt),
     sevenDayResetAt = or_else (sevenDayResetAtMs s) (Option.bind prev sevenDayResetAt)\<rparr>"

text \<open>Entering the tier: a window that latched earlier and has not released stays among the triggers.\<close>

definition entry_triggers :: "bool \<Rightarrow> bool \<Rightarrow> SoftAvoidState option \<Rightarrow> triggers" where
  "entry_triggers five seven prev = \<lparr>t_five = (five \<or> (is_latched prev \<and> t_five (latched_triggers prev))),
     t_seven = (seven \<or> (is_latched prev \<and> t_seven (latched_triggers prev)))\<rparr>"

definition window_released :: "bool \<Rightarrow> bool \<Rightarrow> bool \<Rightarrow> rat \<Rightarrow> rat \<Rightarrow> bool" where
  "window_released trig refill advanced util threshold \<longleftrightarrow>
     \<not> trig \<or> refill \<or> advanced \<or> util < threshold - SOFT_AVOID_EXIT_MARGIN"

text \<open>A window whose reset time has passed reads as empty.\<close>

definition refill_normalised :: "int option \<Rightarrow> rat \<Rightarrow> int \<Rightarrow> rat" where
  "refill_normalised resetAt util now = (if refilled resetAt now then 0 else util)"

text \<open>The part of \<open>evaluateSoftAvoid\<close> after the freshness check.\<close>

definition five_released :: "SoftAvoidSnapshot \<Rightarrow> int \<Rightarrow> rat \<Rightarrow> SoftAvoidState option \<Rightarrow> bool" where
  "five_released s now pct prev = window_released (t_five (latched_triggers prev)) (refilled (fiveHourResetAtMs s) now)
     (epoch_advanced (Option.bind prev fiveHourResetAt) (fiveHourResetAtMs s))
     (refill_normalised (fiveHourResetAtMs s) (fiveHourUtilizationPct s) now) (fst (softAvoidThresholds pct))"

definition seven_released :: "SoftAvoidSnapshot \<Rightarrow> int \<Rightarrow> rat \<Rightarrow> SoftAvoidState option \<Rightarrow> bool" where
  "seven_released s now pct prev = window_released (t_seven (latched_triggers prev)) (refilled (sevenDayResetAtMs s) now)
     (epoch_advanced (Option.bind prev sevenDayResetAt) (sevenDayResetAtMs s))
     (refill_normalised (sevenDayResetAtMs s) (sevenDayUtilizationPct s) now) (snd (softAvoidThresholds pct))"

definition five_triggered :: "SoftAvoidSnapshot \<Rightarrow> int \<Rightarrow> rat \<Rightarrow> bool" where
  "five_triggered s now pct \<longleftrightarrow>
     fst (softAvoidThresholds pct) \<le> refill_normalised (fiveHourResetAtMs s) (fiveHourUtilizationPct s) now"

definition seven_triggered :: "SoftAvoidSnapshot \<Rightarrow> int \<Rightarrow> rat \<Rightarrow> bool" where
  "seven_triggered s now pct \<longleftrightarrow>
     snd (softAvoidThresholds pct) \<le> refill_normalised (sevenDayResetAtMs s) (sevenDayUtilizationPct s) now"

definition evaluate_fresh :: "SoftAvoidSnapshot \<Rightarrow> int \<Rightarrow> rat \<Rightarrow> SoftAvoidState option \<Rightarrow> SoftAvoidState" where
  "evaluate_fresh s now pct prev =
     (if five_triggered s now pct \<or> seven_triggered s now pct then
        nextState s prev True (Some (entry_triggers (five_triggered s now pct) (seven_triggered s now pct) prev))
      else if is_latched prev then
        (if five_released s now pct prev \<and> seven_released s now pct prev then nextState s prev False None
         else nextState s prev True (Some (latched_triggers prev)))
      else nextState s prev False None)"

definition evaluateSoftAvoid ::
  "SoftAvoidSnapshot option \<Rightarrow> int \<Rightarrow> rat option \<Rightarrow> bool \<Rightarrow> SoftAvoidState option \<Rightarrow> SoftAvoidState"
where
  "evaluateSoftAvoid snapshot now pct overageLifted prev =
     (case pct of None \<Rightarrow> not_avoided
      | Some p \<Rightarrow>
        if overageLifted then not_avoided
        else (case snapshot of
          None \<Rightarrow> (case prev of None \<Rightarrow> not_avoided | Some st \<Rightarrow> st)
        | Some s \<Rightarrow>
          if \<not> snapshotFresh (Some s) now then (case prev of None \<Rightarrow> not_avoided | Some st \<Rightarrow> st)
          else evaluate_fresh s now p prev))"

section \<open>Sensors\<close>

text \<open>What a quota probe returns; the fields of the answer the decisions read. A probe that throws is \<open>ProbeThrew\<close>.\<close>

record QuotaUtilization =
  q_five :: rat
  q_seven :: rat
  q_fiveReset :: "int option"
  q_sevenReset :: "int option"
  q_overageStatus :: "string option"
  q_overageDisabledReason :: "string option"
  q_fivePresent :: "bool option"
  q_sevenPresent :: "bool option"
  q_unifiedStatus :: "string option"
  q_representativeClaim :: "string option"
  q_sevenDayOiStatus :: "string option"
  q_sevenDayOiPct :: "rat option"
  q_sevenDayOiReset :: "int option"

datatype QuotaResult = ProbeOk QuotaUtilization | ProbeFailed (entitlement_failure: bool) | ProbeThrew

definition snapshot_of :: "QuotaUtilization \<Rightarrow> int \<Rightarrow> SoftAvoidSnapshot" where
  "snapshot_of d now = \<lparr>fiveHourUtilizationPct = q_five d, sevenDayUtilizationPct = q_seven d, capturedAt = now,
     overageStatus = q_overageStatus d, overageDisabledReason = q_overageDisabledReason d,
     fiveHourUtilPresent = q_fivePresent d, sevenDayUtilPresent = q_sevenPresent d,
     fiveHourResetAtMs = q_fiveReset d, sevenDayResetAtMs = q_sevenReset d\<rparr>"

definition later_reset :: "int option \<Rightarrow> int option \<Rightarrow> int option" where
  "later_reset x y = (case (x, y) of (Some a, Some b) \<Rightarrow> Some (max a b) | (Some a, None) \<Rightarrow> Some a | (None, b) \<Rightarrow> b)"

definition EXHAUSTION_PCT :: rat where "EXHAUSTION_PCT = 199 / 2"

text \<open>\<open>None\<close>: not exhausted; \<open>Some until\<close>: exhausted, with the reset of the maxed window when the probe carried one.\<close>

definition quotaIndicatesExhaustion :: "QuotaResult \<Rightarrow> bool \<Rightarrow> int option option" where
  "quotaIndicatesExhaustion result allowOverage =
     (case result of ProbeOk d \<Rightarrow>
        let fiveBlocked = (EXHAUSTION_PCT \<le> q_five d); sevenBlocked = (EXHAUSTION_PCT \<le> q_seven d)
        in if \<not> fiveBlocked \<and> \<not> sevenBlocked then None
           else if allowOverage \<and> overageLiftsWall (snapshot_of d 0) True then None
           else Some (later_reset (if fiveBlocked then q_fiveReset d else None) (if sevenBlocked then q_sevenReset d else None))
      | _ \<Rightarrow> None)"

definition MODEL_TIER_REPRESENTATIVE_CLAIM :: string where
  "MODEL_TIER_REPRESENTATIVE_CLAIM = ''seven_day_overage_included''"

definition MODEL_TIER_WALL_PCT :: rat where "MODEL_TIER_WALL_PCT = 199 / 2"
definition MODEL_TIER_WALL_DEFAULT_MS :: int where "MODEL_TIER_WALL_DEFAULT_MS = 5 * 60 * 60 * 1000"

text \<open>\<open>None\<close>: no wall; \<open>Some until\<close>: walled, with the reset the probe carried.\<close>

definition quotaIndicatesModelTierWall :: "QuotaResult \<Rightarrow> int option option" where
  "quotaIndicatesModelTierWall result =
     (case result of ProbeOk d \<Rightarrow>
        let statusRejected = (q_sevenDayOiStatus d = Some ''rejected'');
            claimRejected = (q_unifiedStatus d = Some ''rejected'' \<and> q_representativeClaim d = Some MODEL_TIER_REPRESENTATIVE_CLAIM);
            utilWalled = (case q_sevenDayOiPct d of None \<Rightarrow> False | Some u \<Rightarrow> MODEL_TIER_WALL_PCT \<le> u)
        in if \<not> statusRejected \<and> \<not> claimRejected \<and> \<not> utilWalled then None
           else Some (q_sevenDayOiReset d)
      | _ \<Rightarrow> None)"

definition quotaTierAllowed :: "QuotaResult \<Rightarrow> bool" where
  "quotaTierAllowed result =
     (case result of ProbeOk d \<Rightarrow>
        if quotaIndicatesModelTierWall result \<noteq> None then False
        else q_unifiedStatus d = Some ''allowed'' \<or> q_sevenDayOiStatus d = Some ''allowed''
      | _ \<Rightarrow> False)"

record ModelTierWallMark =
  premium_walled_until :: int
  premium_wall_marked_at :: "int option"

definition isModelTierWalled :: "ModelTierWallMark option \<Rightarrow> int \<Rightarrow> bool option \<Rightarrow> bool" where
  "isModelTierWalled mark now snapshotTierAllowed =
     (if snapshotTierAllowed = Some True then False
      else case mark of None \<Rightarrow> False | Some m \<Rightarrow> now < premium_walled_until m)"

section \<open>Most recent signal wins\<close>

lemma eligible_iff:
  "accountEligibility mark snapshot now ov ent = Eligible \<longleftrightarrow>
     \<not> ent \<and> (\<exists>s. snapshot = Some s \<and> snapshotFresh (Some s) now \<and> mark_time mark \<le> capturedAt s \<and>
       (if snapshotWalled s then overageLiftsWall s ov else snapshotComplete s))"
  by (auto simp: accountEligibility_def mark_verdict_def split: option.splits)

lemma blocked_iff:
  "isAccountBlocked mark snapshot now ov ent \<longleftrightarrow>
     ent \<or> (\<exists>s. snapshot = Some s \<and> snapshotFresh (Some s) now \<and> snapshotWalled s \<and> \<not> overageLiftsWall s ov) \<or>
     ((\<exists>m. mark = Some m \<and> now < exhausted_until m) \<and> accountEligibility mark snapshot now ov ent \<noteq> Eligible)"
  by (auto simp: isAccountBlocked_def accountEligibility_def mark_verdict_def split: option.splits)

lemma clear_implies_eligible:
  "snapshotShouldClearMark s mark now \<Longrightarrow> accountEligibility mark (Some s) now ov False = Eligible"
  by (auto simp: snapshotShouldClearMark_def eligible_iff snapshotWalled_def snapshotClearlyHealthy_def
      WALL_PCT_def HEALTHY_CLEAR_PCT_def split: if_splits)

lemma clamp_bounds:
  "clampMarkExpiry u now short snapshot \<le> u" "min u (now + short) \<le> clampMarkExpiry u now short snapshot"
  by (auto simp: clampMarkExpiry_def Let_def split: option.splits)

section \<open>Hysteresis of the soft-avoid tier\<close>

lemma fresh_simps:
  "softAvoided (evaluate_fresh s now pct prev) \<longleftrightarrow> five_triggered s now pct \<or> seven_triggered s now pct \<or>
     is_latched prev \<and> \<not> (five_released s now pct prev \<and> seven_released s now pct prev)"
  "fiveHourResetAt (evaluate_fresh s now pct prev) = or_else (fiveHourResetAtMs s) (Option.bind prev fiveHourResetAt)"
  "sevenDayResetAt (evaluate_fresh s now pct prev) = or_else (sevenDayResetAtMs s) (Option.bind prev sevenDayResetAt)"
  by (auto simp: evaluate_fresh_def nextState_def)

lemma fresh_triggers:
  "is_latched prev \<Longrightarrow> softAvoided (evaluate_fresh s now pct prev) \<Longrightarrow>
   (t_five (latched_triggers prev) \<longrightarrow> t_five (latched_triggers (Some (evaluate_fresh s now pct prev)))) \<and>
   (t_seven (latched_triggers prev) \<longrightarrow> t_seven (latched_triggers (Some (evaluate_fresh s now pct prev))))"
  by (auto simp: evaluate_fresh_def nextState_def latched_triggers_def entry_triggers_def
      split: if_splits option.split)

text \<open>
  The evaluations of one account over time, each at its snapshot and clock reading, with the operator's
  threshold set and no overage lift.
\<close>

definition soft_step :: "rat \<Rightarrow> SoftAvoidSnapshot option \<times> int \<Rightarrow> SoftAvoidState option \<Rightarrow> SoftAvoidState option" where
  "soft_step pct e prev = Some (evaluateSoftAvoid (fst e) (snd e) (Some pct) False prev)"

text \<open>A snapshot that gives the seven-day window no reason to release: hot, not refilled, and with the same reset.\<close>

definition seven_holds :: "rat \<Rightarrow> int \<Rightarrow> SoftAvoidSnapshot option \<times> int \<Rightarrow> bool" where
  "seven_holds pct r e \<longleftrightarrow> (case fst e of None \<Rightarrow> True | Some s \<Rightarrow> \<not> snapshotFresh (Some s) (snd e) \<or>
     (pct - SOFT_AVOID_EXIT_MARGIN \<le> sevenDayUtilizationPct s \<and> \<not> refilled (sevenDayResetAtMs s) (snd e) \<and>
      sevenDayResetAtMs s \<in> {None, Some r}))"

definition latched_by_seven :: "int \<Rightarrow> SoftAvoidState option \<Rightarrow> bool" where
  "latched_by_seven r prev \<longleftrightarrow> (\<exists>st. prev = Some st \<and> softAvoided st \<and> t_seven (latched_triggers prev) \<and>
     sevenDayResetAt st \<in> {None, Some r})"

lemma seven_not_released:
  assumes "latched_by_seven r prev" "pct - SOFT_AVOID_EXIT_MARGIN \<le> sevenDayUtilizationPct s"
    "\<not> refilled (sevenDayResetAtMs s) now" "sevenDayResetAtMs s \<in> {None, Some r}"
  shows "\<not> seven_released s now pct prev"
  using assms
  by (auto simp: seven_released_def window_released_def refill_normalised_def softAvoidThresholds_def latched_by_seven_def
      epoch_advanced_def split: option.split)

lemma latched_by_seven_step:
  assumes "seven_holds pct r e" and "latched_by_seven r prev"
  shows "latched_by_seven r (soft_step pct e prev)"
proof (cases "\<exists>s. fst e = Some s \<and> snapshotFresh (Some s) (snd e)")
  case True
  then obtain s where s: "fst e = Some s" "snapshotFresh (Some s) (snd e)" by blast
  with assms(1) have h: "pct - SOFT_AVOID_EXIT_MARGIN \<le> sevenDayUtilizationPct s"
    "\<not> refilled (sevenDayResetAtMs s) (snd e)" "sevenDayResetAtMs s \<in> {None, Some r}"
    by (auto simp: seven_holds_def)
  have l: "is_latched prev" "t_seven (latched_triggers prev)" "Option.bind prev sevenDayResetAt \<in> {None, Some r}"
    using assms(2) by (auto simp: latched_by_seven_def is_latched_def)
  let ?st = "evaluate_fresh s (snd e) pct prev"
  have step: "soft_step pct e prev = Some ?st" using s by (simp add: soft_step_def evaluateSoftAvoid_def)
  have avoided: "softAvoided ?st" using seven_not_released [OF assms(2) h] l(1) by (simp add: fresh_simps)
  have "sevenDayResetAt ?st \<in> {None, Some r}"
    using h(3) l(3) by (auto simp: fresh_simps or_else_def split: option.split)
  with step avoided fresh_triggers [OF l(1) avoided] l(2) show ?thesis
    by (auto simp: latched_by_seven_def)
next
  case False
  then have "soft_step pct e prev = prev"
    using assms(2) by (auto simp: soft_step_def evaluateSoftAvoid_def latched_by_seven_def split: option.split)
  with assms(2) show ?thesis by simp
qed

text \<open>
  Any evaluation, with the threshold set at that time and whether overage lifts the wall; and the ones that give the
  weekly window no reason to release.
\<close>

type_synonym soft_event = "SoftAvoidSnapshot option \<times> int \<times> rat option \<times> bool"

fun soft_eval :: "soft_event \<Rightarrow> SoftAvoidState option \<Rightarrow> SoftAvoidState option" where
  "soft_eval (snapshot, now, pct, overageLifted) prev = Some (evaluateSoftAvoid snapshot now pct overageLifted prev)"

fun weekly_holds :: "int \<Rightarrow> soft_event \<Rightarrow> bool" where
  "weekly_holds r (snapshot, now, Some pct, False) = seven_holds pct r (snapshot, now)"
| "weekly_holds r _ = False"

lemma latched_by_seven_eval:
  assumes "weekly_holds r e" "latched_by_seven r prev"
  shows "latched_by_seven r (soft_eval e prev)"
  using assms latched_by_seven_step [of _ r "(fst e, fst (snd e))" prev]
  by (cases "(r, e)" rule: weekly_holds.cases) (auto simp: soft_step_def)

interpretation weekly_latch: event_system "restrict_step (weekly_holds r) soft_eval" "latched_by_seven r"
  by unfold_locales (auto simp: restrict_step_def intro: latched_by_seven_eval)

lemma released_when_low:
  assumes "snapshotFresh (Some s) now" "fiveHourUtilizationPct s < fst (softAvoidThresholds pct) - SOFT_AVOID_EXIT_MARGIN"
    "sevenDayUtilizationPct s < snd (softAvoidThresholds pct) - SOFT_AVOID_EXIT_MARGIN" "5 < fst (softAvoidThresholds pct)" "5 < snd (softAvoidThresholds pct)"
  shows "\<not> softAvoided (evaluateSoftAvoid (Some s) now (Some pct) False prev)"
proof -
  have "refill_normalised (fiveHourResetAtMs s) (fiveHourUtilizationPct s) now < fst (softAvoidThresholds pct) - SOFT_AVOID_EXIT_MARGIN"
    "refill_normalised (sevenDayResetAtMs s) (sevenDayUtilizationPct s) now < snd (softAvoidThresholds pct) - SOFT_AVOID_EXIT_MARGIN"
    using assms by (auto simp: refill_normalised_def SOFT_AVOID_EXIT_MARGIN_def)
  then show ?thesis using assms(1)
    by (simp add: evaluateSoftAvoid_def fresh_simps five_released_def seven_released_def window_released_def
        five_triggered_def seven_triggered_def SOFT_AVOID_EXIT_MARGIN_def)
qed

text \<open>Asking twice about the same snapshot gives the same verdict, which the selection below relies on.\<close>

lemma released_stays:
  assumes "\<not> softAvoided (evaluate_fresh s now pct prev)"
  shows "\<not> softAvoided (evaluate_fresh s now pct (Some (evaluate_fresh s now pct prev)))"
  using assms by (simp add: fresh_simps is_latched_def)

lemma bind_or_else: "Option.bind (Some st) f = f st" by simp

lemma avoided_stays:
  assumes "softAvoided (evaluate_fresh s now pct prev)"
  shows "softAvoided (evaluate_fresh s now pct (Some (evaluate_fresh s now pct prev)))"
proof (cases "five_triggered s now pct \<or> seven_triggered s now pct")
  case False
  let ?st = "evaluate_fresh s now pct prev"
  have l: "is_latched prev" "\<not> (five_released s now pct prev \<and> seven_released s now pct prev)"
    using assms False by (auto simp: fresh_simps)
  then have trig: "latched_triggers (Some ?st) = latched_triggers prev"
    using False by (auto simp: evaluate_fresh_def nextState_def latched_triggers_def)
  have late: "\<not> epoch_advanced (or_else r b) r" for r b :: "int option"
    by (simp add: epoch_advanced_def or_else_def split: option.split)
  have "five_released s now pct (Some ?st) \<Longrightarrow> five_released s now pct prev"
    "seven_released s now pct (Some ?st) \<Longrightarrow> seven_released s now pct prev"
    by (auto simp: five_released_def seven_released_def window_released_def trig fresh_simps late)
  with l(2) have "\<not> (five_released s now pct (Some ?st) \<and> seven_released s now pct (Some ?st))" by blast
  moreover have "is_latched (Some ?st)" using assms by (simp add: is_latched_def)
  ultimately show ?thesis by (subst fresh_simps(1)) blast
qed (auto simp: fresh_simps)

lemma soft_verdict_stable:
  "softAvoided (evaluateSoftAvoid snapshot now pct lifted (Some (evaluateSoftAvoid snapshot now pct lifted prev))) =
   softAvoided (evaluateSoftAvoid snapshot now pct lifted prev)"
  using released_stays avoided_stays
  by (auto simp: evaluateSoftAvoid_def not_avoided_def split: option.splits)

text \<open>
  Claim C22: hysteresis of the soft-avoid tier. Once the weekly window has latched an account, no run of
  evaluations releases it in which, each time, a threshold is set, overage does not lift the wall, and the snapshot
  is missing or stale or shows the weekly utilisation within the exit margin of the threshold of that moment and a
  weekly window that neither refilled nor rolled over, whatever the five-hour window does meanwhile; and one fresh
  snapshot with both windows below their exit thresholds, or an evaluation with overage lifting the wall, releases
  the account from any state.
\<close>

theorem soft_avoid_hysteresis:
  assumes latched: "latched_by_seven r st"
    and run: "list_all (weekly_holds r) es"
    and low: "snapshotFresh (Some s) now" "fiveHourUtilizationPct s < fst (softAvoidThresholds pct) - SOFT_AVOID_EXIT_MARGIN"
      "sevenDayUtilizationPct s < snd (softAvoidThresholds pct) - SOFT_AVOID_EXIT_MARGIN" "5 < pct"
  shows "is_latched (run soft_eval st es) \<and> \<not> is_latched (soft_eval (Some s, now, Some pct, lifted) (run soft_eval st es))"
proof -
  have "latched_by_seven r (run soft_eval st es)"
    using weekly_latch.invar_run [OF latched, of es] run_restrict [OF run, of soft_eval st] by simp
  then have "is_latched (run soft_eval st es)" by (auto simp: latched_by_seven_def is_latched_def)
  moreover have "5 < fst (softAvoidThresholds pct)" "5 < snd (softAvoidThresholds pct)"
    using low(4) by (auto simp: softAvoidThresholds_def SOFT_AVOID_FIVE_HOUR_CAP_def)
  then have "\<not> softAvoided (evaluateSoftAvoid (Some s) now (Some pct) False (run soft_eval st es))"
    using released_when_low [OF low(1-3)] by simp
  moreover have "\<not> softAvoided (evaluateSoftAvoid (Some s) now (Some pct) True (run soft_eval st es))"
    using low(1) by (simp add: evaluateSoftAvoid_def not_avoided_def)
  ultimately show ?thesis by (cases lifted) (simp_all add: is_latched_def)
qed

definition demo_snapshot :: "rat \<Rightarrow> rat \<Rightarrow> int \<Rightarrow> int \<Rightarrow> int \<Rightarrow> SoftAvoidSnapshot" where
  "demo_snapshot five seven t0 fiveReset sevenReset = \<lparr>fiveHourUtilizationPct = five, sevenDayUtilizationPct = seven,
     capturedAt = t0, overageStatus = None, overageDisabledReason = None, fiveHourUtilPresent = Some True,
     sevenDayUtilPresent = Some True, fiveHourResetAtMs = Some fiveReset, sevenDayResetAtMs = Some sevenReset\<rparr>"

text \<open>Latched at 96 percent of the week; the five-hour window rolls twice while the week stays at 92.\<close>

lemmas soft_demo_simps = demo_snapshot_def soft_step_def evaluateSoftAvoid_def evaluate_fresh_def nextState_def entry_triggers_def
  latched_triggers_def is_latched_def window_released_def epoch_advanced_def or_else_def refilled_def five_released_def
  seven_released_def five_triggered_def seven_triggered_def refill_normalised_def softAvoidThresholds_def
  SOFT_AVOID_EXIT_MARGIN_def SOFT_AVOID_FIVE_HOUR_CAP_def snapshotFreshWithin_def SNAPSHOT_STALE_AGE_MS_def

lemma soft_avoid_hysteresis_witness:
  "let st = soft_step 95 (Some (demo_snapshot 10 96 1000 5000 900000), 1000) None;
       es = [(Some (demo_snapshot 20 92 6000 12000 900000), 6000, Some 95, False), (None, 7000, Some 95, False),
         (Some (demo_snapshot 1 92 13000 20000 900000), 13000, Some 94, False)]
   in is_latched (run soft_eval st es) \<and>
      \<not> is_latched (soft_eval (Some (demo_snapshot 3 60 30000 40000 900000), 30000, Some 95, False) (run soft_eval st es))"
proof -
  let ?st = "soft_step 95 (Some (demo_snapshot 10 96 1000 5000 900000), 1000) None"
  let ?es = "[(Some (demo_snapshot 20 92 6000 12000 900000), 6000, Some 95, False), (None, 7000, Some 95, False),
         (Some (demo_snapshot 1 92 13000 20000 900000), 13000, Some 94, False)]"
  have "latched_by_seven 900000 ?st" by (simp add: latched_by_seven_def soft_demo_simps)
  moreover have "list_all (weekly_holds 900000) ?es" by (simp add: seven_holds_def soft_demo_simps)
  ultimately show ?thesis
    unfolding Let_def by (rule soft_avoid_hysteresis) (simp_all add: soft_demo_simps)
qed

text \<open>
  A release is only counted at the evaluation that sees it. Here both windows latched the account; the five-hour
  window rolls first and the weekly one later, each visibly, yet the account stays in the tier because the
  second evaluation finds the five-hour window at 94, within its exit margin.
\<close>

lemma release_is_forgotten:
  "let prev = Some \<lparr>softAvoided = True, triggeredBy = Some both_triggers, fiveHourResetAt = Some 5000, sevenDayResetAt = Some 9000\<rparr>;
       first = (Some (demo_snapshot 94 96 6000 24000 9000), 6000);
       second = (Some (demo_snapshot 94 10 9500 24000 99000), 9500)
   in epoch_advanced (Some 5000) (Some 24000) \<and> epoch_advanced (Some 9000) (Some 99000) \<and>
      is_latched (run (soft_step 95) prev [first, second])"
  by (simp add: soft_demo_simps both_triggers_def)

end
