(* ===== verification/Usage_Ledger.thy ===== *)
theory Usage_Ledger
  imports Account_Eligibility
begin

text \<open>
  The rolling usage ledger of the auth broker (\<open>src/auth/broker/usage-ledger.ts\<close>): per account and tier a bounded
  ring of utilisation samples harvested from quota probes, and the headroom the premium roll prefers by.
\<close>

definition STANDARD_WALL_PCT :: rat where "STANDARD_WALL_PCT = 199 / 2"
definition USAGE_RING_CAP_DEFAULT :: nat where "USAGE_RING_CAP_DEFAULT = 288"

datatype UsageTier = Standard | Premium

record UsageSample =
  us_at :: int
  utilizationPct :: "rat option"
  us_resetAt :: "int option"
  us_status :: "string option"
  us_walled :: bool

record UsageTierLedger =
  samples :: "UsageSample list"
  observations :: nat
  firstObservedAt :: int
  lastObservedAt :: int

type_synonym usage_ledger = "string \<times> UsageTier \<Rightarrow> UsageTierLedger option"

section \<open>Samples\<close>

definition standardSampleFromResult :: "QuotaResult \<Rightarrow> int \<Rightarrow> UsageSample option" where
  "standardSampleFromResult result now =
     (case result of ProbeOk d \<Rightarrow>
        let fivePresent = (q_fivePresent d \<noteq> Some False); sevenPresent = (q_sevenPresent d \<noteq> Some False);
            five = (q_five d, q_fiveReset d); seven = (q_seven d, q_sevenReset d);
            binding = (if fivePresent \<and> sevenPresent then (if fst five < fst seven then seven else five)
              else if fivePresent then five else seven)
        in if \<not> fivePresent \<and> \<not> sevenPresent then None
           else Some \<lparr>us_at = now, utilizationPct = Some (fst binding), us_resetAt = snd binding,
             us_status = q_unifiedStatus d, us_walled = (STANDARD_WALL_PCT \<le> fst binding)\<rparr>
      | _ \<Rightarrow> None)"

definition premiumSampleFromResult :: "QuotaResult \<Rightarrow> int \<Rightarrow> UsageSample option" where
  "premiumSampleFromResult result now =
     (case result of ProbeOk d \<Rightarrow>
        if q_unifiedStatus d = None \<and> q_sevenDayOiStatus d = None \<and> q_sevenDayOiPct d = None then None
        else Some \<lparr>us_at = now, utilizationPct = q_sevenDayOiPct d, us_resetAt = q_sevenDayOiReset d,
          us_status = or_else (q_sevenDayOiStatus d) (q_unifiedStatus d),
          us_walled = (q_sevenDayOiStatus d = Some ''rejected'' \<or>
            (case q_sevenDayOiPct d of None \<Rightarrow> False | Some u \<Rightarrow> MODEL_TIER_WALL_PCT \<le> u))\<rparr>
      | _ \<Rightarrow> None)"

section \<open>The ring\<close>

definition trim_ring :: "nat \<Rightarrow> 'a list \<Rightarrow> 'a list" where
  "trim_ring cap xs = drop (length xs - cap) xs"

definition recordUsageSample :: "nat \<Rightarrow> string \<Rightarrow> UsageTier \<Rightarrow> UsageSample option \<Rightarrow> usage_ledger \<Rightarrow> usage_ledger" where
  "recordUsageSample ringCap account tier sample ledger =
     (case sample of None \<Rightarrow> ledger
      | Some s \<Rightarrow>
         let cap = (if 1 \<le> ringCap then ringCap else USAGE_RING_CAP_DEFAULT);
             led = (case ledger (account, tier) of
                 None \<Rightarrow> \<lparr>samples = [], observations = 0, firstObservedAt = us_at s, lastObservedAt = us_at s\<rparr>
               | Some t \<Rightarrow> t)
         in ledger((account, tier) \<mapsto> led\<lparr>samples := trim_ring cap (samples led @ [s]), observations := Suc (observations led),
              lastObservedAt := us_at s, firstObservedAt := min (us_at s) (firstObservedAt led)\<rparr>))"

definition premiumHeadroomPct :: "usage_ledger \<Rightarrow> string \<Rightarrow> int \<Rightarrow> rat option" where
  "premiumHeadroomPct ledger account now =
     (case ledger (account, Premium) of None \<Rightarrow> None
      | Some led \<Rightarrow> if samples led = [] then None
          else map_option (\<lambda>u. max 0 (100 - (if refilled (us_resetAt (last (samples led))) now then 0 else u)))
            (utilizationPct (last (samples led))))"

fun best_headroom :: "usage_ledger \<Rightarrow> int \<Rightarrow> string list \<Rightarrow> (string \<times> rat) option \<Rightarrow> string option" where
  "best_headroom ledger now [] best = map_option fst best"
| "best_headroom ledger now (cand # cs) best =
     best_headroom ledger now cs
       (case premiumHeadroomPct ledger cand now of None \<Rightarrow> best
        | Some h \<Rightarrow> if (case best of None \<Rightarrow> True | Some b \<Rightarrow> snd b < h) then Some (cand, h) else best)"

definition bestPremiumHeadroomAccount :: "usage_ledger \<Rightarrow> string list \<Rightarrow> int \<Rightarrow> string option" where
  "bestPremiumHeadroomAccount ledger candidates now = best_headroom ledger now candidates None"

section \<open>The ring stays bounded and the choice is the best one\<close>

definition ring_ok :: "nat \<Rightarrow> usage_ledger \<Rightarrow> bool" where
  "ring_ok cap ledger \<longleftrightarrow> (\<forall>k led. ledger k = Some led \<longrightarrow>
     length (samples led) \<le> cap \<and> samples led \<noteq> [] \<and> us_at (last (samples led)) = lastObservedAt led \<and>
     length (samples led) \<le> observations led)"

lemma trim_ring_length: "length (trim_ring cap xs) \<le> cap" "length (trim_ring cap xs) \<le> length xs"
  by (simp_all add: trim_ring_def)

lemma trim_ring_last: "0 < cap \<Longrightarrow> trim_ring cap (xs @ [x]) \<noteq> [] \<and> last (trim_ring cap (xs @ [x])) = x"
  by (simp add: trim_ring_def)

lemma ring_ok_record:
  assumes "1 \<le> cap" "ring_ok cap ledger"
  shows "ring_ok cap (recordUsageSample cap account tier sample ledger)"
proof (cases sample)
  case None
  with assms show ?thesis by (simp add: recordUsageSample_def)
next
  case (Some s)
  let ?r = "\<lambda>xs. trim_ring cap (xs @ [s])"
  have "length (?r xs) \<le> cap" "?r xs \<noteq> []" "last (?r xs) = s" "length (?r xs) \<le> Suc (length xs)" for xs
    using assms(1) trim_ring_length [of cap "xs @ [s]"] trim_ring_last [of cap xs s] by auto
  note r = this
  have "length (samples led) \<le> observations led" if "ledger k = Some led" for k led
    using assms(2) that unfolding ring_ok_def by blast
  then have "length (?r (samples led)) \<le> Suc (observations led)" if "ledger k = Some led" for k led
    using that r(4) [of "samples led"] by fastforce
  with assms r Some r(4) [of "[]"] show ?thesis
    unfolding ring_ok_def recordUsageSample_def by (auto simp: Let_def split: option.splits)
qed

lemma best_headroom_spec:
  assumes "best_headroom ledger now cs best = Some a"
    and "\<And>b h. best = Some (b, h) \<Longrightarrow> premiumHeadroomPct ledger b now = Some h"
  shows "(\<exists>h. premiumHeadroomPct ledger a now = Some h \<and> (\<forall>c \<in> set cs. \<forall>h'. premiumHeadroomPct ledger c now = Some h' \<longrightarrow> h' \<le> h) \<and>
    (\<forall>b h'. best = Some (b, h') \<longrightarrow> h' \<le> h)) \<and> (a \<in> set cs \<or> (\<exists>h. best = Some (a, h)))"
  using assms
proof (induction cs arbitrary: best)
  case (Cons c cs)
  show ?case
  proof (cases "premiumHeadroomPct ledger c now")
    case None
    with Cons.prems Cons.IH [of best] show ?thesis by auto
  next
    case (Some h)
    show ?thesis
    proof (cases "\<exists>b h'. best = Some (b, h') \<and> h \<le> h'")
      case True
      with Some Cons.prems Cons.IH [of best] show ?thesis by force
    next
      case False
      then have step: "best_headroom ledger now (c # cs) best = best_headroom ledger now cs (Some (c, h))"
        using Some by (cases best) auto
      have "best = Some (b, h') \<Longrightarrow> h' \<le> h" for b h' using False by force
      with step Cons.prems(1) Cons.IH [of "Some (c, h)"] Some show ?thesis by force
    qed
  qed
qed auto

lemma best_headroom_None:
  "best_headroom ledger now cs best = None \<Longrightarrow> best = None \<and> (\<forall>c \<in> set cs. premiumHeadroomPct ledger c now = None)"
  by (induction cs arbitrary: best) (auto split: option.splits if_splits)

lemma best_account_member: "bestPremiumHeadroomAccount ledger cs now = Some a \<Longrightarrow> a \<in> set cs"
  using best_headroom_spec [of ledger now cs None a] by (auto simp: bestPremiumHeadroomAccount_def)

end
