(* ===== verification/Auth_Broker.thy ===== *)
theory Auth_Broker
  imports Usage_Ledger
begin

text \<open>
  Account selection in the auth broker (\<open>src/auth/broker/server.ts\<close>): which account a caller is bound to, which one it
  is served, the exhaustion ledger with its marks and probes, the rolls off an exhausted account, and the
  credential mirrors the broker writes into agents and consumers. An operation that awaits is cut there: its first
  part leaves a \<open>pending\<close> record, its second part is a step of its own, so that anything may run in between.
  A mirror is the account whose credentials it was last written with. The outcome of a mirror write for
  reasons outside the process (paths, permissions) is an argument.
\<close>

section \<open>State\<close>

record agent_auth =
  ag_override :: "string option"
  ag_strict :: bool
  ag_exclusive :: bool

record consumer =
  cn_name :: string
  cn_account :: "string option"
  cn_mirror_dir :: bool

record auth_config =
  auth_block :: bool
  active_account :: "string option"
  fallback_order :: "string list"
  allow_overage_accounts :: "string list"
  proactive_failover_pct :: "rat option"
  consumers :: "consumer list"
  fleet_agents :: "(string \<times> agent_auth) list"

record QuotaEntry =
  qe_exhausted_until :: "int option"
  qe_marked_at :: "int option"
  throttled_until :: "int option"
  throttle_hits :: "int list option"
  qe_premium_walled_until :: "int option"
  qe_premium_marked_at :: "int option"
  entitlement_blocked :: bool

definition empty_entry :: QuotaEntry where
  "empty_entry = \<lparr>qe_exhausted_until = None, qe_marked_at = None, throttled_until = None, throttle_hits = None,
     qe_premium_walled_until = None, qe_premium_marked_at = None, entitlement_blocked = False\<rparr>"

record TierSnapshot =
  ts_unifiedStatus :: "string option"
  ts_sevenDayOiStatus :: "string option"
  ts_capturedAt :: int

text \<open>What \<open>accountCredentialsPath\<close> holds: nothing, text that is not JSON, or credentials.\<close>

datatype creds_file = NoCreds | BadCreds | GoodCreds

text \<open>
  An operation cut at an \<open>await\<close>: a roll whose target is selected, a roll waiting for the probes of the listed
  candidates, the probe of a throttled account, and the probe that corroborates a long mark (when it was
  written, until when it holds, and the time the operation read). The flag says that the throttle hits
  are cleared after the roll.
\<close>

datatype pending =
    RollTo (pending_account: string) (pending_target: "string option") bool
  | RollProbing (pending_account: string) "string list" bool
  | EscalateProbe (pending_account: string) bool
  | CorroborateProbe (pending_account: string) int int int

record auth_broker =
  auth :: auth_config
  quota :: "string \<Rightarrow> QuotaEntry option"
  lastQuotaCache :: "string \<Rightarrow> SoftAvoidSnapshot option"
  lastTierQuotaCache :: "string \<Rightarrow> TierSnapshot option"
  usageLedger :: usage_ledger
  usageRingCap :: nat
  softAvoidState :: "string \<Rightarrow> SoftAvoidState option"
  softAvoidRolledTo :: "string \<Rightarrow> string option"
  lastEscalationProbeAt :: "string \<Rightarrow> int option"
  auth_clock :: int
  cred_files :: "string \<Rightarrow> creds_file"
  agent_mirror :: "string \<Rightarrow> string option"
  consumer_mirror :: "string \<Rightarrow> string option"
  yamlActive :: "string option"
  active_override :: "(string \<times> string option) option"
  markCorroborations :: "(string \<times> int) list"
  pendings :: "pending list"

definition MARK_EXHAUSTED_DEFAULT_MS :: int where "MARK_EXHAUSTED_DEFAULT_MS = 5 * 60 * 60 * 1000"
definition MARK_THROTTLED_MAX_MS :: int where "MARK_THROTTLED_MAX_MS = 30 * 60 * 1000"
definition THROTTLE_ESCALATION_WINDOW_MS :: int where "THROTTLE_ESCALATION_WINDOW_MS = 10 * 60 * 1000"
definition THROTTLE_ESCALATION_PROBE_MIN_INTERVAL_MS :: int where "THROTTLE_ESCALATION_PROBE_MIN_INTERVAL_MS = 60 * 1000"
definition MARK_THROTTLED_MIN_INTERVAL_MS :: int where "MARK_THROTTLED_MIN_INTERVAL_MS = 5 * 1000"

section \<open>Identities and bindings\<close>

datatype auth_identity = OperatorId | ConsumerId string | AgentId string bool

definition truthy :: "string option \<Rightarrow> bool" where
  "truthy s \<longleftrightarrow> s \<noteq> None \<and> s \<noteq> Some []"

definition agent_auth_of :: "string \<Rightarrow> auth_broker \<Rightarrow> agent_auth option" where
  "agent_auth_of name b = map_of (fleet_agents (auth b)) name"

definition override_of :: "string \<Rightarrow> auth_broker \<Rightarrow> string option" where
  "override_of name b = Option.bind (agent_auth_of name b) ag_override"

definition strict_agent :: "string \<Rightarrow> auth_broker \<Rightarrow> bool" where
  "strict_agent name b = (case agent_auth_of name b of None \<Rightarrow> False | Some a \<Rightarrow> truthy (ag_override a) \<and> ag_strict a)"

definition isAdmin :: "auth_identity \<Rightarrow> bool" where
  "isAdmin i = (case i of OperatorId \<Rightarrow> True | AgentId _ admin \<Rightarrow> admin | ConsumerId _ \<Rightarrow> False)"

definition find_consumer :: "string \<Rightarrow> auth_broker \<Rightarrow> consumer option" where
  "find_consumer name b = find (\<lambda>c. cn_name c = name) (consumers (auth b))"

definition callerAccount :: "auth_identity \<Rightarrow> auth_broker \<Rightarrow> string option" where
  "callerAccount i b =
     (if \<not> auth_block (auth b) then None
      else case i of
        OperatorId \<Rightarrow> active_account (auth b)
      | ConsumerId name \<Rightarrow> (case find_consumer name b of None \<Rightarrow> None
          | Some c \<Rightarrow> or_else (cn_account c) (active_account (auth b)))
      | AgentId name _ \<Rightarrow> if truthy (override_of name b) then override_of name b else active_account (auth b))"

definition exclusiveOwnerOf :: "string \<Rightarrow> auth_broker \<Rightarrow> string option" where
  "exclusiveOwnerOf account b =
     map_option fst (find (\<lambda>(name, a). ag_exclusive a \<and> ag_override a = Some account) (fleet_agents (auth b)))"

definition isServableBy :: "string \<Rightarrow> string option \<Rightarrow> auth_broker \<Rightarrow> bool" where
  "isServableBy account forAgent b \<longleftrightarrow> exclusiveOwnerOf account b = None \<or> exclusiveOwnerOf account b = forAgent"

section \<open>Verdicts\<close>

definition isOverageAllowed :: "string \<Rightarrow> auth_broker \<Rightarrow> bool" where
  "isOverageAllowed account b \<longleftrightarrow> account \<in> set (allow_overage_accounts (auth b))"

definition exhaustionMarkOf :: "string \<Rightarrow> auth_broker \<Rightarrow> ExhaustionMark option" where
  "exhaustionMarkOf account b =
     (case quota b account of None \<Rightarrow> None
      | Some q \<Rightarrow> map_option (\<lambda>u. \<lparr>exhausted_until = u, marked_at = qe_marked_at q\<rparr>) (qe_exhausted_until q))"

definition isAccountEntitlementBlocked :: "string \<Rightarrow> auth_broker \<Rightarrow> bool" where
  "isAccountEntitlementBlocked account b = (case quota b account of None \<Rightarrow> False | Some q \<Rightarrow> entitlement_blocked q)"

definition accountEligibilityOf :: "string \<Rightarrow> auth_broker \<Rightarrow> AccountEligibility" where
  "accountEligibilityOf account b = accountEligibility (exhaustionMarkOf account b) (lastQuotaCache b account)
     (auth_clock b) (isOverageAllowed account b) (isAccountEntitlementBlocked account b)"

definition isAccountExhausted :: "string \<Rightarrow> auth_broker \<Rightarrow> bool" where
  "isAccountExhausted account b = isAccountBlocked (exhaustionMarkOf account b) (lastQuotaCache b account)
     (auth_clock b) (isOverageAllowed account b) (isAccountEntitlementBlocked account b)"

definition premiumWallMarkOf :: "string \<Rightarrow> auth_broker \<Rightarrow> ModelTierWallMark option" where
  "premiumWallMarkOf account b =
     (case quota b account of None \<Rightarrow> None
      | Some q \<Rightarrow> map_option (\<lambda>u. \<lparr>premium_walled_until = u, premium_wall_marked_at = qe_premium_marked_at q\<rparr>) (qe_premium_walled_until q))"

definition isAccountPremiumWalled :: "string \<Rightarrow> auth_broker \<Rightarrow> bool" where
  "isAccountPremiumWalled account b =
     (let mark = premiumWallMarkOf account b;
          markedAt = (case mark of None \<Rightarrow> 0 | Some m \<Rightarrow> (case premium_wall_marked_at m of None \<Rightarrow> 0 | Some t \<Rightarrow> t));
          tierAllowed = (case lastTierQuotaCache b account of None \<Rightarrow> False
            | Some tier \<Rightarrow> markedAt \<le> ts_capturedAt tier \<and> auth_clock b - ts_capturedAt tier \<le> SNAPSHOT_STALE_AGE_MS \<and>
                (ts_unifiedStatus tier = Some ''allowed'' \<or> ts_sevenDayOiStatus tier = Some ''allowed'') \<and>
                ts_sevenDayOiStatus tier \<noteq> Some ''rejected'')
      in isModelTierWalled mark (auth_clock b) (if tierAllowed then Some True else None))"

text \<open>The latch is re-evaluated, and stored, on every query.\<close>

definition isAccountSoftAvoided :: "string \<Rightarrow> auth_broker \<Rightarrow> bool \<times> auth_broker" where
  "isAccountSoftAvoided account b =
     (case proactive_failover_pct (auth b) of None \<Rightarrow> (False, b)
      | Some pct \<Rightarrow>
         let snapshot = lastQuotaCache b account;
             overageLifted = (case snapshot of None \<Rightarrow> False
               | Some s \<Rightarrow> snapshotFresh snapshot (auth_clock b) \<and> overageLiftsWall s (isOverageAllowed account b));
             st = evaluateSoftAvoid snapshot (auth_clock b) (Some pct) overageLifted (softAvoidState b account)
         in (softAvoided st, b\<lparr>softAvoidState := (softAvoidState b)(account \<mapsto> st)\<rparr>))"

text \<open>\<open>None\<close> is positive infinity.\<close>

definition softAvoidUtilScore :: "string \<Rightarrow> auth_broker \<Rightarrow> rat option" where
  "softAvoidUtilScore account b =
     (case lastQuotaCache b account of None \<Rightarrow> None
      | Some s \<Rightarrow> if snapshotFresh (Some s) (auth_clock b) then Some (max (fiveHourUtilizationPct s) (sevenDayUtilizationPct s)) else None)"

definition score_less :: "rat option \<Rightarrow> rat option \<Rightarrow> bool" where
  "score_less x y = (case x of None \<Rightarrow> False | Some a \<Rightarrow> (case y of None \<Rightarrow> True | Some c \<Rightarrow> a < c))"

definition accountExists :: "string \<Rightarrow> auth_broker \<Rightarrow> bool" where
  "accountExists label b \<longleftrightarrow> cred_files b label \<noteq> NoCreds"

definition readable_creds :: "string \<Rightarrow> auth_broker \<Rightarrow> bool" where
  "readable_creds label b \<longleftrightarrow> cred_files b label = GoodCreds"

definition isActiveOverageServing :: "string option \<Rightarrow> auth_broker \<Rightarrow> bool" where
  "isActiveOverageServing account b =
     (case account of None \<Rightarrow> False
      | Some a \<Rightarrow> a \<noteq> [] \<and> isOverageAllowed a b \<and>
          (case lastQuotaCache b a of None \<Rightarrow> False
           | Some s \<Rightarrow> snapshotFresh (Some s) (auth_clock b) \<and> overageLiftsWall s True \<and>
               accountEligibility (exhaustionMarkOf a b) (Some s) (auth_clock b) True (isAccountEntitlementBlocked a b) = Eligible))"

section \<open>Serving\<close>

text \<open>A fallback the scans accept: the loop guards in their order.\<close>

definition usable_fallback :: "string \<Rightarrow> string option \<Rightarrow> auth_broker \<Rightarrow> string \<Rightarrow> bool" where
  "usable_fallback account forAgent b cand \<longleftrightarrow>
     cand \<noteq> account \<and> \<not> isAccountExhausted cand b \<and> isServableBy cand forAgent b \<and> readable_creds cand b"

definition usable_active :: "string \<Rightarrow> string option \<Rightarrow> auth_broker \<Rightarrow> string option" where
  "usable_active account forAgent b =
     (case active_account (auth b) of None \<Rightarrow> None
      | Some a \<Rightarrow> if a \<noteq> [] \<and> usable_fallback account forAgent b a then Some a else None)"

text \<open>Pass 1: the first candidate outside the soft-avoid tier, and whether the tier excluded anyone before it.\<close>

fun preferred_fallback :: "string \<Rightarrow> string option \<Rightarrow> string list \<Rightarrow> bool \<Rightarrow> auth_broker \<Rightarrow> (string option \<times> bool) \<times> auth_broker" where
  "preferred_fallback account forAgent [] excluded b = ((None, excluded), b)"
| "preferred_fallback account forAgent (cand # cs) excluded b =
     (if cand = account \<or> isAccountExhausted cand b then preferred_fallback account forAgent cs excluded b
      else if \<not> isServableBy cand forAgent b then preferred_fallback account forAgent cs excluded b
      else case isAccountSoftAvoided cand b of
        (True, b1) \<Rightarrow> preferred_fallback account forAgent cs True b1
      | (False, b1) \<Rightarrow> if readable_creds cand b1 then ((Some cand, excluded), b1)
          else preferred_fallback account forAgent cs excluded b1)"

fun least_utilised :: "string \<Rightarrow> string option \<Rightarrow> auth_broker \<Rightarrow> string list \<Rightarrow> string \<Rightarrow> rat option \<Rightarrow> string" where
  "least_utilised account forAgent b [] best bestScore = best"
| "least_utilised account forAgent b (cand # cs) best bestScore =
     (if \<not> usable_fallback account forAgent b cand then least_utilised account forAgent b cs best bestScore
      else if score_less (softAvoidUtilScore cand b) bestScore
        then least_utilised account forAgent b cs cand (softAvoidUtilScore cand b)
        else least_utilised account forAgent b cs best bestScore)"

text \<open>The base account belongs to somebody else: a healthy fallback, the active account, or nothing.\<close>

definition denied_base :: "string \<Rightarrow> string option \<Rightarrow> auth_broker \<Rightarrow> string option" where
  "denied_base account forAgent b =
     (case find (usable_fallback account forAgent b) (fallback_order (auth b)) of
        Some cand \<Rightarrow> Some cand
      | None \<Rightarrow> usable_active account forAgent b)"

text \<open>Pass 2 and the last resort, when the base account is exhausted.\<close>

definition last_resort :: "string \<Rightarrow> string option \<Rightarrow> bool \<Rightarrow> auth_broker \<Rightarrow> string" where
  "last_resort account forAgent excludedAny b =
     (case (if excludedAny then find (usable_fallback account forAgent b) (fallback_order (auth b)) else None) of
        Some cand \<Rightarrow> cand
      | None \<Rightarrow> (case usable_active account forAgent b of Some a \<Rightarrow> a | None \<Rightarrow> account))"

definition fail_over :: "string \<Rightarrow> string option \<Rightarrow> bool \<Rightarrow> auth_broker \<Rightarrow> string \<times> auth_broker" where
  "fail_over account forAgent exhausted b =
     (case preferred_fallback account forAgent (fallback_order (auth b)) False b of
        ((Some cand, _), b1) \<Rightarrow> (cand, b1)
      | ((None, excludedAny), b1) \<Rightarrow>
          (if exhausted then last_resort account forAgent excludedAny b1
           else least_utilised account forAgent b1 (fallback_order (auth b1)) account (softAvoidUtilScore account b1), b1))"

definition accountWithFailover :: "string option \<Rightarrow> string option \<Rightarrow> auth_broker \<Rightarrow> string option \<times> auth_broker" where
  "accountWithFailover base forAgent b =
     (case base of None \<Rightarrow> (None, b)
      | Some account \<Rightarrow>
        if account = [] then (None, b)
        else if \<not> isServableBy account forAgent b then (denied_base account forAgent b, b)
        else if isAccountExhausted account b then apfst Some (fail_over account forAgent True b)
        else (case isAccountSoftAvoided account b of
            (False, b1) \<Rightarrow> (Some account, b1)
          | (True, b1) \<Rightarrow> apfst Some (fail_over account forAgent False b1)))"

definition servedAccountForAgent :: "string \<Rightarrow> auth_broker \<Rightarrow> string option \<times> auth_broker" where
  "servedAccountForAgent name b =
     (if strict_agent name b then (override_of name b, b)
      else accountWithFailover (or_else (override_of name b) (active_account (auth b))) (Some name) b)"

definition servingAccount :: "auth_identity \<Rightarrow> auth_broker \<Rightarrow> string option \<times> auth_broker" where
  "servingAccount i b =
     (case i of OperatorId \<Rightarrow> (callerAccount i b, b)
      | AgentId name _ \<Rightarrow> servedAccountForAgent name b
      | ConsumerId _ \<Rightarrow> accountWithFailover (callerAccount i b) None b)"

definition servingAccountForConsumer :: "string \<Rightarrow> auth_broker \<Rightarrow> string option \<times> auth_broker" where
  "servingAccountForConsumer name b =
     (case find_consumer name b of None \<Rightarrow> (None, b)
      | Some c \<Rightarrow> accountWithFailover (or_else (cn_account c) (active_account (auth b))) None b)"

text \<open>\<open>get-credentials\<close>: the account whose credentials the caller receives.\<close>

definition opGetCredentials :: "auth_identity \<Rightarrow> auth_broker \<Rightarrow> string option \<times> auth_broker" where
  "opGetCredentials i b =
     (case servingAccount i b of
        (None, b1) \<Rightarrow> (None, b1)
      | (Some account, b1) \<Rightarrow> if account \<noteq> [] \<and> readable_creds account b1 then (Some account, b1) else (None, b1))"

end
