(* ===== verification/Auth_Rolls.thy ===== *)
theory Auth_Rolls
  imports Auth_Broker
begin

text \<open>
  The operations of the auth broker that change its state (\<open>src/auth/broker/server.ts\<close>): mirror writes, probes and
  marks, the selection of a roll target, rolls and promotions, throttle marks, and the administrative
  operations, composed into one step function. \<open>writable\<close> says for which agents and consumers a mirror
  write gets through.
\<close>

section \<open>Mirrors\<close>

definition mirrorAccountToAgent :: "(string \<Rightarrow> bool) \<Rightarrow> string \<Rightarrow> string \<Rightarrow> auth_broker \<Rightarrow> auth_broker" where
  "mirrorAccountToAgent writable label name b =
     (if accountExists label b \<and> writable name then b\<lparr>agent_mirror := (agent_mirror b)(name \<mapsto> label)\<rparr> else b)"

definition mirrorAccountToConsumer :: "(string \<Rightarrow> bool) \<Rightarrow> string \<Rightarrow> consumer \<Rightarrow> auth_broker \<Rightarrow> auth_broker" where
  "mirrorAccountToConsumer writable label c b =
     (if cn_mirror_dir c \<and> accountExists label b \<and> writable (cn_name c)
      then b\<lparr>consumer_mirror := (consumer_mirror b)(cn_name c \<mapsto> label)\<rparr> else b)"

definition fanoutForAgent :: "(string \<Rightarrow> bool) \<Rightarrow> string \<Rightarrow> auth_broker \<Rightarrow> auth_broker" where
  "fanoutForAgent writable name b =
     (if agent_auth_of name b = None then b
      else case servedAccountForAgent name b of
        (None, b1) \<Rightarrow> b1
      | (Some effective, b1) \<Rightarrow> if effective = [] then b1 else mirrorAccountToAgent writable effective name b1)"

definition fanout_if_served :: "(string \<Rightarrow> bool) \<Rightarrow> string \<Rightarrow> string \<Rightarrow> auth_broker \<Rightarrow> auth_broker" where
  "fanout_if_served writable label name b =
     (case servedAccountForAgent name b of
        (effective, b1) \<Rightarrow> if effective = Some label then fanoutForAgent writable name b1 else b1)"

definition fanoutToAffectedAgents :: "(string \<Rightarrow> bool) \<Rightarrow> string \<Rightarrow> auth_broker \<Rightarrow> auth_broker" where
  "fanoutToAffectedAgents writable label b = fold (\<lambda>(name, _). fanout_if_served writable label name) (fleet_agents (auth b)) b"

definition fanout_consumer :: "(string \<Rightarrow> bool) \<Rightarrow> string \<Rightarrow> consumer \<Rightarrow> auth_broker \<Rightarrow> auth_broker" where
  "fanout_consumer writable label c b =
     (if \<not> cn_mirror_dir c then b
      else case servingAccountForConsumer (cn_name c) b of
        (effective, b1) \<Rightarrow>
          if or_else (cn_account c) (active_account (auth b)) \<noteq> Some label \<and> effective \<noteq> Some label then b1
          else (case effective of None \<Rightarrow> b1 | Some a \<Rightarrow> mirrorAccountToConsumer writable a c b1))"

definition fanoutToAffectedConsumers :: "(string \<Rightarrow> bool) \<Rightarrow> string \<Rightarrow> auth_broker \<Rightarrow> auth_broker" where
  "fanoutToAffectedConsumers writable label b = fold (fanout_consumer writable label) (consumers (auth b)) b"

definition fanout_any_consumer :: "(string \<Rightarrow> bool) \<Rightarrow> consumer \<Rightarrow> auth_broker \<Rightarrow> auth_broker" where
  "fanout_any_consumer writable c b =
     (if \<not> cn_mirror_dir c then b
      else case servingAccountForConsumer (cn_name c) b of
        (None, b1) \<Rightarrow> b1
      | (Some a, b1) \<Rightarrow> if a = [] then b1 else mirrorAccountToConsumer writable a c b1)"

definition fanoutAllConsumers :: "(string \<Rightarrow> bool) \<Rightarrow> auth_broker \<Rightarrow> auth_broker" where
  "fanoutAllConsumers writable b = fold (fanout_any_consumer writable) (consumers (auth b)) b"

definition fanoutAll :: "(string \<Rightarrow> bool) \<Rightarrow> auth_broker \<Rightarrow> auth_broker" where
  "fanoutAll writable b = fanoutAllConsumers writable (fold (\<lambda>(name, _). fanoutForAgent writable name) (fleet_agents (auth b)) b)"

text \<open>The roll: every agent bound to \<open>label\<close>, except strict pins and agents the target is closed to.\<close>

definition roll_agent :: "(string \<Rightarrow> bool) \<Rightarrow> string \<Rightarrow> string \<Rightarrow> string \<times> agent_auth \<Rightarrow> auth_broker \<Rightarrow> auth_broker" where
  "roll_agent writable label next_acct na b =
     (case na of (name, a) \<Rightarrow>
        if or_else (ag_override a) (active_account (auth b)) \<noteq> Some label then b
        else if truthy (ag_override a) \<and> ag_strict a then b
        else if \<not> isServableBy next_acct (Some name) b then b
        else mirrorAccountToAgent writable next_acct name b)"

definition fanoutFailoverTo :: "(string \<Rightarrow> bool) \<Rightarrow> string \<Rightarrow> string option \<Rightarrow> auth_broker \<Rightarrow> auth_broker" where
  "fanoutFailoverTo writable label target b =
     (if \<not> truthy target \<or> target = Some label then b
      else fold (roll_agent writable label (the target)) (fleet_agents (auth b)) b)"

section \<open>Probes and marks\<close>

definition entry_of :: "string \<Rightarrow> auth_broker \<Rightarrow> QuotaEntry" where
  "entry_of label b = (case quota b label of None \<Rightarrow> empty_entry | Some q \<Rightarrow> q)"

definition markEntitlementBlocked :: "string \<Rightarrow> QuotaResult \<Rightarrow> auth_broker \<Rightarrow> auth_broker" where
  "markEntitlementBlocked label result b =
     (case result of ProbeFailed True \<Rightarrow>
        if isAccountEntitlementBlocked label b then b
        else b\<lparr>quota := (quota b)(label \<mapsto> (entry_of label b)\<lparr>entitlement_blocked := True\<rparr>)\<rparr>
      | _ \<Rightarrow> b)"

definition clearEntitlementBlocked :: "string \<Rightarrow> auth_broker \<Rightarrow> auth_broker" where
  "clearEntitlementBlocked label b =
     (if isAccountEntitlementBlocked label b
      then b\<lparr>quota := (quota b)(label \<mapsto> (entry_of label b)\<lparr>entitlement_blocked := False\<rparr>)\<rparr> else b)"

definition cacheQuotaSnapshot :: "(string \<Rightarrow> bool) \<Rightarrow> string \<Rightarrow> QuotaResult \<Rightarrow> auth_broker \<Rightarrow> auth_broker" where
  "cacheQuotaSnapshot writable label result b =
     (case result of ProbeOk d \<Rightarrow>
        let b1 = clearEntitlementBlocked label b;
            s = snapshot_of d (auth_clock b);
            b2 = b1\<lparr>lastQuotaCache := (lastQuotaCache b1)(label \<mapsto> s),
              usageLedger := recordUsageSample (usageRingCap b) label Standard (standardSampleFromResult result (auth_clock b)) (usageLedger b1)\<rparr>
        in if snapshotShouldClearMark s (exhaustionMarkOf label b2) (auth_clock b)
           then fanoutToAffectedConsumers writable label (b2\<lparr>quota := (quota b2)(label := None)\<rparr>)
           else b2
      | _ \<Rightarrow> b)"

definition recordTierProbe :: "(string \<Rightarrow> bool) \<Rightarrow> string \<Rightarrow> QuotaResult \<Rightarrow> auth_broker \<Rightarrow> auth_broker" where
  "recordTierProbe writable label result b =
     (let b1 = (case result of ProbeOk d \<Rightarrow>
            b\<lparr>lastTierQuotaCache := (lastTierQuotaCache b)(label \<mapsto>
                \<lparr>ts_unifiedStatus = q_unifiedStatus d, ts_sevenDayOiStatus = q_sevenDayOiStatus d, ts_capturedAt = auth_clock b\<rparr>),
              usageLedger := recordUsageSample (usageRingCap b) label Premium (premiumSampleFromResult result (auth_clock b)) (usageLedger b)\<rparr>
          | _ \<Rightarrow> b)
      in if quotaTierAllowed result \<and> (case quota b1 label of None \<Rightarrow> False | Some q \<Rightarrow> qe_premium_walled_until q \<noteq> None)
         then fanoutToAffectedConsumers writable label
           (b1\<lparr>quota := (quota b1)(label \<mapsto> (entry_of label b1)\<lparr>qe_premium_walled_until := None, qe_premium_marked_at := None\<rparr>)\<rparr>)
         else b1)"

definition write_mark :: "string \<Rightarrow> int \<Rightarrow> auth_broker \<Rightarrow> auth_broker" where
  "write_mark account until b =
     b\<lparr>quota := (quota b)(account \<mapsto> (entry_of account b)\<lparr>qe_exhausted_until := Some until, qe_marked_at := Some (auth_clock b)\<rparr>)\<rparr>"

definition clamped_until :: "string \<Rightarrow> int option \<Rightarrow> auth_broker \<Rightarrow> int" where
  "clamped_until account until b =
     clampMarkExpiry (case until of None \<Rightarrow> auth_clock b + MARK_EXHAUSTED_DEFAULT_MS | Some u \<Rightarrow> u)
       (auth_clock b) MARK_EXHAUSTED_DEFAULT_MS (lastQuotaCache b account)"

section \<open>Selecting the target of a roll\<close>

text \<open>\<open>order.indexOf(current)\<close> and the ring that starts behind it and ends with it.\<close>

fun index_in :: "'a \<Rightarrow> 'a list \<Rightarrow> nat option" where
  "index_in x [] = None"
| "index_in x (y # ys) = (if x = y then Some 0 else map_option Suc (index_in x ys))"

definition ring :: "string \<Rightarrow> string list \<Rightarrow> string list" where
  "ring current order = (case index_in current order of None \<Rightarrow> order | Some start \<Rightarrow> rotate (Suc start) order)"

fun healthy_scan :: "string list \<Rightarrow> (string \<times> rat option) option \<Rightarrow> auth_broker \<Rightarrow> string option \<times> auth_broker" where
  "healthy_scan [] best b = (map_option fst best, b)"
| "healthy_scan (cand # cs) best b =
     (if cand = [] then healthy_scan cs best b
      else if isAccountExhausted cand b \<or> \<not> accountExists cand b then healthy_scan cs best b
      else if exclusiveOwnerOf cand b \<noteq> None then healthy_scan cs best b
      else case isAccountSoftAvoided cand b of
        (False, b1) \<Rightarrow> (Some cand, b1)
      | (True, b1) \<Rightarrow> healthy_scan cs
          (if (case best of None \<Rightarrow> True | Some x \<Rightarrow> score_less (softAvoidUtilScore cand b1) (snd x))
           then Some (cand, softAvoidUtilScore cand b1) else best) b1)"

definition nextHealthyAccount :: "string \<Rightarrow> string list \<Rightarrow> auth_broker \<Rightarrow> string option \<times> auth_broker" where
  "nextHealthyAccount current order b =
     (case index_in current order of
        None \<Rightarrow> (find (\<lambda>cand. cand \<noteq> [] \<and> exclusiveOwnerOf cand b = None) order, b)
      | Some start \<Rightarrow> healthy_scan (rotate (Suc start) order) None b)"

text \<open>\<open>nextHealthyAccountLive\<close> up to its probes: the cached choice when it is clearly eligible.\<close>

definition cached_choice :: "string \<Rightarrow> string list \<Rightarrow> auth_broker \<Rightarrow> string option \<times> auth_broker" where
  "cached_choice current order b =
     (case nextHealthyAccount current order b of
        (None, b1) \<Rightarrow> (None, b1)
      | (Some cached, b1) \<Rightarrow>
          if cached \<noteq> [] \<and> accountEligibilityOf cached b1 = Eligible then
            (case isAccountSoftAvoided cached b1 of (avoided, b2) \<Rightarrow> (if avoided then None else Some cached, b2))
          else (None, b1))"

definition unknown_candidates :: "string \<Rightarrow> string list \<Rightarrow> auth_broker \<Rightarrow> string list" where
  "unknown_candidates current order b = filter (\<lambda>cand. cand \<noteq> [] \<and> cand \<noteq> current \<and> accountExists cand b \<and>
     accountEligibilityOf cand b = Unknown) (ring current order)"

text \<open>Behind the probes: reselect, else the first candidate still unknown.\<close>

definition reselect :: "string \<Rightarrow> string list \<Rightarrow> auth_broker \<Rightarrow> string option \<times> auth_broker" where
  "reselect current order b =
     (let fallback = (\<lambda>b1. (find (\<lambda>cand. cand \<noteq> [] \<and> cand \<noteq> current \<and> accountExists cand b1 \<and>
          exclusiveOwnerOf cand b1 = None \<and> accountEligibilityOf cand b1 = Unknown) (ring current order), b1))
      in case nextHealthyAccount current order b of
        (None, b1) \<Rightarrow> fallback b1
      | (Some reselected, b1) \<Rightarrow> if reselected \<noteq> [] \<and> accountEligibilityOf reselected b1 = Eligible then (Some reselected, b1)
          else fallback b1)"

definition exhaustionLiveCorroborated :: "string \<Rightarrow> auth_broker \<Rightarrow> bool" where
  "exhaustionLiveCorroborated account b =
     (case lastQuotaCache b account of None \<Rightarrow> False
      | Some s \<Rightarrow> snapshotFreshWithin MARK_EXHAUSTED_DEFAULT_MS (Some s) (auth_clock b) \<and> snapshotWalled s \<and>
          \<not> overageLiftsWall s (isOverageAllowed account b))"

section \<open>Rolls\<close>

definition set_active_account :: "string \<Rightarrow> auth_broker \<Rightarrow> auth_broker" where
  "set_active_account a b = b\<lparr>auth := (auth b)\<lparr>active_account := Some a\<rparr>, active_override := Some (a, yamlActive b)\<rparr>"

text \<open>\<open>markExhaustedAndRoll\<close> up to its first \<open>await\<close>.\<close>

definition mark_begin :: "string \<Rightarrow> int option \<Rightarrow> bool \<Rightarrow> auth_broker \<Rightarrow> auth_broker" where
  "mark_begin account until clearHits b =
     (let u = clamped_until account until b;
          b1 = write_mark account u b;
          b2 = (if auth_clock b + MARK_EXHAUSTED_DEFAULT_MS < u
            then b1\<lparr>markCorroborations := markCorroborations b1 @ [(account, auth_clock b)]\<rparr> else b1)
      in case cached_choice account (fallback_order (auth b2)) b2 of
           (Some target, b3) \<Rightarrow> b3\<lparr>pendings := pendings b3 @ [RollTo account (Some target) clearHits]\<rparr>
         | (None, b3) \<Rightarrow> b3\<lparr>pendings := pendings b3 @
             [RollProbing account (unknown_candidates account (fallback_order (auth b3)) b3) clearHits]\<rparr>)"

text \<open>The part of the roll behind the selection.\<close>

definition roll_finish :: "(string \<Rightarrow> bool) \<Rightarrow> string \<Rightarrow> string option \<Rightarrow> bool \<Rightarrow> auth_broker \<Rightarrow> auth_broker" where
  "roll_finish writable account rolledTo clearHits b =
     (let b1 = fanoutFailoverTo writable account rolledTo b;
          b2 = fanoutToAffectedConsumers writable account b1;
          b3 = (if truthy rolledTo \<and> active_account (auth b2) = Some account \<and> exhaustionLiveCorroborated account b2
            then fanoutAllConsumers writable (set_active_account (the rolledTo) b2) else b2)
      in if clearHits then b3\<lparr>quota := (quota b3)(account \<mapsto> (entry_of account b3)\<lparr>throttle_hits := Some []\<rparr>)\<rparr> else b3)"

definition nextPremiumEligibleAccount :: "string \<Rightarrow> auth_broker \<Rightarrow> string option" where
  "nextPremiumEligibleAccount start b =
     (let eligible = filter (\<lambda>cand. cand \<noteq> [] \<and> cand \<noteq> start \<and> \<not> isAccountExhausted cand b \<and> \<not> isAccountPremiumWalled cand b \<and>
            exclusiveOwnerOf cand b = None \<and> readable_creds cand b) (ring start (fallback_order (auth b)))
      in case eligible of [] \<Rightarrow> None
         | first # _ \<Rightarrow> or_else (bestPremiumHeadroomAccount (usageLedger b) eligible (auth_clock b)) (Some first))"

definition write_premium_mark :: "string \<Rightarrow> int option \<Rightarrow> auth_broker \<Rightarrow> auth_broker" where
  "write_premium_mark account until b =
     b\<lparr>quota := (quota b)(account \<mapsto> (entry_of account b)\<lparr>
        qe_premium_walled_until := Some (case until of None \<Rightarrow> auth_clock b + MODEL_TIER_WALL_DEFAULT_MS | Some u \<Rightarrow> u),
        qe_premium_marked_at := Some (auth_clock b)\<rparr>)\<rparr>"

definition markPremiumWalledAndRoll :: "(string \<Rightarrow> bool) \<Rightarrow> string \<Rightarrow> int option \<Rightarrow> auth_broker \<Rightarrow> auth_broker" where
  "markPremiumWalledAndRoll writable account until b =
     (let b1 = write_premium_mark account until b
      in case nextPremiumEligibleAccount account b1 of
        None \<Rightarrow> b1
      | Some target \<Rightarrow>
          let b2 = fanoutToAffectedConsumers writable account (fanoutFailoverTo writable account (Some target) b1)
          in if active_account (auth b2) = Some account then fanoutAllConsumers writable (set_active_account target b2) else b2)"

definition softAvoidProbeRoll :: "(string \<Rightarrow> bool) \<Rightarrow> string \<Rightarrow> auth_broker \<Rightarrow> auth_broker" where
  "softAvoidProbeRoll writable label b =
     (let forget = (\<lambda>b'. b'\<lparr>softAvoidRolledTo := (softAvoidRolledTo b')(label := None)\<rparr>)
      in case isAccountSoftAvoided label b of
        (False, b1) \<Rightarrow> forget b1
      | (True, b1) \<Rightarrow> (case accountWithFailover (Some label) None b1 of
            (None, b2) \<Rightarrow> forget b2
          | (Some target, b2) \<Rightarrow>
              if target = [] \<or> target = label then forget b2
              else (case isAccountSoftAvoided target b2 of
                  (True, b3) \<Rightarrow> forget b3
                | (False, b3) \<Rightarrow>
                    if softAvoidRolledTo b3 label = Some target then b3
                    else fanoutToAffectedConsumers writable label (fanoutFailoverTo writable label (Some target)
                      (b3\<lparr>softAvoidRolledTo := (softAvoidRolledTo b3)(label \<mapsto> target)\<rparr>)))))"

text \<open>
  \<open>fleetQuotaProbeTick\<close>: the answer of one probe, the tier marks written before the second phase, and the second
  phase for one account.
\<close>

definition fleetProbed :: "(string \<Rightarrow> bool) \<Rightarrow> string \<Rightarrow> QuotaResult \<Rightarrow> auth_broker \<Rightarrow> auth_broker" where
  "fleetProbed writable label result b = markEntitlementBlocked label result (cacheQuotaSnapshot writable label result b)"

definition pinnedAgentAccount :: "string \<Rightarrow> auth_broker \<Rightarrow> bool" where
  "pinnedAgentAccount label b \<longleftrightarrow> label \<noteq> [] \<and> Some label \<in> set (map (ag_override \<circ> snd) (fleet_agents (auth b)))"

definition fleetAct :: "(string \<Rightarrow> bool) \<Rightarrow> string \<Rightarrow> QuotaResult \<Rightarrow> int option option \<Rightarrow> auth_broker \<Rightarrow> auth_broker" where
  "fleetAct writable label result tierWall b =
     (if active_account (auth b) \<noteq> Some label \<and> \<not> pinnedAgentAccount label b then b
      else case tierWall of
        Some until \<Rightarrow> markPremiumWalledAndRoll writable label until b
      | None \<Rightarrow> (case quotaIndicatesExhaustion result (isOverageAllowed label b) of
            Some until \<Rightarrow> mark_begin label until False b
          | None \<Rightarrow> softAvoidProbeRoll writable label b))"

text \<open>\<open>consumerQuotaProbeTick\<close> for one account, behind its probe.\<close>

definition consumerProbed :: "(string \<Rightarrow> bool) \<Rightarrow> string \<Rightarrow> QuotaResult \<Rightarrow> auth_broker \<Rightarrow> auth_broker" where
  "consumerProbed writable label result b =
     (let b1 = cacheQuotaSnapshot writable label result b
      in case quotaIndicatesExhaustion result (isOverageAllowed label b1) of
        None \<Rightarrow> b1
      | Some until \<Rightarrow>
          let u = clamped_until label until b1
          in if (case Option.bind (quota b1 label) qe_exhausted_until of None \<Rightarrow> False | Some existing \<Rightarrow> u \<le> existing) then b1
             else fanoutToAffectedConsumers writable label (write_mark label u b1))"

section \<open>Throttle marks\<close>

text \<open>\<open>maybeEscalateThrottle\<close> up to its probe.\<close>

definition escalate_begin :: "string \<Rightarrow> bool \<Rightarrow> auth_broker \<Rightarrow> auth_broker" where
  "escalate_begin account clearHits b =
     (if (case lastEscalationProbeAt b account of None \<Rightarrow> True
          | Some t \<Rightarrow> THROTTLE_ESCALATION_PROBE_MIN_INTERVAL_MS \<le> auth_clock b - t)
      then b\<lparr>lastEscalationProbeAt := (lastEscalationProbeAt b)(account \<mapsto> auth_clock b),
             pendings := pendings b @ [EscalateProbe account clearHits]\<rparr>
      else b)"

definition throttle_mark :: "string \<Rightarrow> int \<Rightarrow> auth_broker \<Rightarrow> bool \<times> auth_broker" where
  "throttle_mark account until b =
     (let now = auth_clock b;
          throttledUntil = min (max until (now + 1000)) (now + MARK_THROTTLED_MAX_MS);
          entry = entry_of account b;
          priorHits = (case throttle_hits entry of None \<Rightarrow> [] | Some h \<Rightarrow> h)
      in if priorHits \<noteq> [] \<and> now - last priorHits < MARK_THROTTLED_MIN_INTERVAL_MS then
           (False, b\<lparr>quota := (quota b)(account \<mapsto> entry\<lparr>throttled_until :=
              Some (max (case throttled_until entry of None \<Rightarrow> 0 | Some t \<Rightarrow> t) throttledUntil)\<rparr>)\<rparr>)
         else (True, b\<lparr>quota := (quota b)(account \<mapsto> entry\<lparr>throttled_until := Some throttledUntil,
              throttle_hits := Some (filter (\<lambda>t. now - t < THROTTLE_ESCALATION_WINDOW_MS) priorHits @ [now])\<rparr>)\<rparr>))"

definition opMarkThrottled :: "auth_identity \<Rightarrow> int \<Rightarrow> bool \<Rightarrow> auth_broker \<Rightarrow> auth_broker" where
  "opMarkThrottled i until probeOnly b =
     (if \<not> truthy (callerAccount i b) then b
      else if probeOnly then escalate_begin (the (callerAccount i b)) False b
      else case throttle_mark (the (callerAccount i b)) until b of
        (recorded, b1) \<Rightarrow> if recorded then escalate_begin (the (callerAccount i b)) True b1 else b1)"

definition escalate_finish :: "(string \<Rightarrow> bool) \<Rightarrow> string \<Rightarrow> bool \<Rightarrow> QuotaResult \<Rightarrow> auth_broker \<Rightarrow> auth_broker" where
  "escalate_finish writable account clearHits result b =
     (if \<not> readable_creds account b then b
      else let b1 = cacheQuotaSnapshot writable account result b
      in case quotaIndicatesExhaustion result (isOverageAllowed account b1) of
        None \<Rightarrow> b1
      | Some until \<Rightarrow> mark_begin account until clearHits b1)"

section \<open>Corroboration of long marks\<close>

definition corroborate_begin :: "string \<Rightarrow> int \<Rightarrow> auth_broker \<Rightarrow> auth_broker" where
  "corroborate_begin account markedAt b =
     (case quota b account of None \<Rightarrow> b
      | Some entry \<Rightarrow>
          if qe_marked_at entry \<noteq> Some markedAt then b
          else (case qe_exhausted_until entry of None \<Rightarrow> b
            | Some until \<Rightarrow>
                if until \<le> auth_clock b + MARK_EXHAUSTED_DEFAULT_MS then b
                else if \<not> readable_creds account b then b
                else b\<lparr>pendings := pendings b @ [CorroborateProbe account markedAt until (auth_clock b)]\<rparr>))"

definition corroborate_finish ::
  "(string \<Rightarrow> bool) \<Rightarrow> string \<Rightarrow> int \<Rightarrow> int \<Rightarrow> int \<Rightarrow> QuotaResult \<Rightarrow> auth_broker \<Rightarrow> auth_broker"
where
  "corroborate_finish writable account markedAt until now result b =
     (if result = ProbeThrew then b
      else let b1 = cacheQuotaSnapshot writable account result b;
               clampedUntil = clampMarkExpiry until now MARK_EXHAUSTED_DEFAULT_MS (lastQuotaCache b1 account)
           in if until \<le> clampedUntil then b1
              else (case quota b1 account of None \<Rightarrow> b1
                | Some live \<Rightarrow>
                    if qe_marked_at live \<noteq> Some markedAt \<or>
                       (case qe_exhausted_until live of None \<Rightarrow> 0 | Some u \<Rightarrow> u) \<le> clampedUntil then b1
                    else b1\<lparr>quota := (quota b1)(account \<mapsto> live\<lparr>qe_exhausted_until := Some clampedUntil\<rparr>)\<rparr>))"

section \<open>Administrative operations\<close>

definition opMarkExhausted :: "auth_identity \<Rightarrow> int option \<Rightarrow> auth_broker \<Rightarrow> auth_broker" where
  "opMarkExhausted i until b =
     (if \<not> truthy (callerAccount i b) then b else mark_begin (the (callerAccount i b)) until False b)"

definition opSetActive :: "(string \<Rightarrow> bool) \<Rightarrow> auth_identity \<Rightarrow> string \<Rightarrow> auth_broker \<Rightarrow> auth_broker" where
  "opSetActive writable i account b =
     (if \<not> isAdmin i then b
      else if \<not> accountExists account b then b
      else if exclusiveOwnerOf account b \<noteq> None then b
      else fanoutAllConsumers writable (fanoutToAffectedAgents writable account (set_active_account account b)))"

definition set_override :: "string \<Rightarrow> string option \<Rightarrow> auth_broker \<Rightarrow> auth_broker" where
  "set_override name account b =
     b\<lparr>auth := (auth b)\<lparr>fleet_agents := map (\<lambda>(n, a). (n, if n = name then a\<lparr>ag_override := account\<rparr> else a)) (fleet_agents (auth b))\<rparr>\<rparr>"

definition opSetOverride :: "(string \<Rightarrow> bool) \<Rightarrow> auth_identity \<Rightarrow> string \<Rightarrow> string option \<Rightarrow> auth_broker \<Rightarrow> auth_broker" where
  "opSetOverride writable i name account b =
     (if \<not> isAdmin i then b
      else case agent_auth_of name b of None \<Rightarrow> b
      | Some cur \<Rightarrow>
          if (case account of None \<Rightarrow> False | Some a \<Rightarrow> \<not> accountExists a b) then b
          else if (case account of None \<Rightarrow> False | Some a \<Rightarrow> exclusiveOwnerOf a b \<notin> {None, Some name}) then b
          else if (ag_strict cur \<or> ag_exclusive cur) \<and> account \<noteq> ag_override cur then b
          else fanoutForAgent writable name (set_override name account b))"

text \<open>\<open>valid\<close>: \<open>validateAccountLabel\<close> accepts the label and the write of the credentials succeeds.\<close>

definition opAddAccount :: "(string \<Rightarrow> bool) \<Rightarrow> auth_identity \<Rightarrow> string \<Rightarrow> bool \<Rightarrow> bool \<Rightarrow> auth_broker \<Rightarrow> auth_broker" where
  "opAddAccount writable i label replaced valid b =
     (if \<not> isAdmin i \<or> \<not> valid then b
      else if accountExists label b \<and> \<not> replaced then b
      else fanoutToAffectedAgents writable label
        (b\<lparr>cred_files := (cred_files b)(label := GoodCreds), softAvoidState := (softAvoidState b)(label := None),
           softAvoidRolledTo := (softAvoidRolledTo b)(label := None)\<rparr>))"

definition opRmAccount :: "auth_identity \<Rightarrow> string \<Rightarrow> auth_broker \<Rightarrow> auth_broker" where
  "opRmAccount i label b =
     (if \<not> isAdmin i then b
      else if \<not> accountExists label b then b
      else if active_account (auth b) = Some label then b
      else if Some label \<in> set (map (ag_override \<circ> snd) (fleet_agents (auth b))) then b
      else b\<lparr>cred_files := (cred_files b)(label := NoCreds), quota := (quota b)(label := None),
             lastQuotaCache := (lastQuotaCache b)(label := None), softAvoidState := (softAvoidState b)(label := None),
             softAvoidRolledTo := (softAvoidRolledTo b)(label := None)\<rparr>)"

section \<open>Reload\<close>

text \<open>
  \<open>reload\<close>, on SIGHUP: the configuration read anew replaces the one in force, a persisted swap of the active
  account is applied to it again, and nothing else of this state changes; a listener whose identity
  changed is closed, which the model does not see. The caller parses the file with the configuration schema.
\<close>

definition applyActiveOverride :: "auth_broker \<Rightarrow> auth_broker" where
  "applyActiveOverride b =
     (case active_override b of None \<Rightarrow> b
      | Some (a, yaml_active_at_write) \<Rightarrow>
          if a = [] then b
          else if yaml_active_at_write \<noteq> yamlActive b then b\<lparr>active_override := None\<rparr>
          else if \<not> accountExists a b then b
          else if exclusiveOwnerOf a b \<noteq> None then b\<lparr>active_override := None\<rparr>
          else b\<lparr>auth := (auth b)\<lparr>auth_block := True, active_account := Some a\<rparr>\<rparr>)"

definition reload_config :: "auth_config \<Rightarrow> auth_broker \<Rightarrow> auth_broker" where
  "reload_config cfg b = applyActiveOverride (b\<lparr>auth := cfg, yamlActive := active_account cfg\<rparr>)"

section \<open>The broker as an event system\<close>

datatype auth_event =
    GetCredentials auth_identity
  | MarkExhausted auth_identity "int option"
  | MarkThrottled auth_identity int bool
  | SetActive auth_identity string
  | SetOverride auth_identity string "string option"
  | AddAccount auth_identity string bool bool
  | RmAccount auth_identity string
  | ProbeQuota string QuotaResult
  | TierProbe string QuotaResult
  | FleetAct string QuotaResult "int option option"
  | TierMark string "int option"
  | ConsumerProbe string QuotaResult
  | Refreshed string
  | Booted
  | CandidateProbed nat string QuotaResult
  | SelectTarget nat
  | FinishRoll nat
  | ThrottleProbed nat QuotaResult
  | CorroborationDue nat
  | MarkProbed nat QuotaResult
  | Wait nat
  | Reload auth_config

definition remove_nth :: "nat \<Rightarrow> 'a list \<Rightarrow> 'a list" where
  "remove_nth k xs = take k xs @ drop (Suc k) xs"

definition drop_pending :: "nat \<Rightarrow> auth_broker \<Rightarrow> auth_broker" where
  "drop_pending k b = b\<lparr>pendings := remove_nth k (pendings b)\<rparr>"

definition pending_at :: "nat \<Rightarrow> auth_broker \<Rightarrow> pending option" where
  "pending_at k b = (if k < length (pendings b) then Some (pendings b ! k) else None)"

definition candidate_probed :: "(string \<Rightarrow> bool) \<Rightarrow> nat \<Rightarrow> string \<Rightarrow> QuotaResult \<Rightarrow> auth_broker \<Rightarrow> auth_broker" where
  "candidate_probed writable k label result b =
     (case pending_at k b of
        Some (RollProbing account cands clearHits) \<Rightarrow>
          if label \<in> set cands then
            fleetProbed writable label (if readable_creds label b then result else ProbeThrew)
              (b\<lparr>pendings := (pendings b)[k := RollProbing account (removeAll label cands) clearHits]\<rparr>)
          else b
      | _ \<Rightarrow> b)"

definition select_target :: "nat \<Rightarrow> auth_broker \<Rightarrow> auth_broker" where
  "select_target k b =
     (case pending_at k b of
        Some (RollProbing account [] clearHits) \<Rightarrow>
          (case reselect account (fallback_order (auth b)) b of
             (target, b1) \<Rightarrow> b1\<lparr>pendings := (pendings b1)[k := RollTo account target clearHits]\<rparr>)
      | _ \<Rightarrow> b)"

definition finish_roll :: "(string \<Rightarrow> bool) \<Rightarrow> nat \<Rightarrow> auth_broker \<Rightarrow> auth_broker" where
  "finish_roll writable k b =
     (case pending_at k b of
        Some (RollTo account target clearHits) \<Rightarrow> roll_finish writable account target clearHits (drop_pending k b)
      | _ \<Rightarrow> b)"

definition throttle_probed :: "(string \<Rightarrow> bool) \<Rightarrow> nat \<Rightarrow> QuotaResult \<Rightarrow> auth_broker \<Rightarrow> auth_broker" where
  "throttle_probed writable k result b =
     (case pending_at k b of
        Some (EscalateProbe account clearHits) \<Rightarrow> escalate_finish writable account clearHits result (drop_pending k b)
      | _ \<Rightarrow> b)"

definition corroboration_due :: "nat \<Rightarrow> auth_broker \<Rightarrow> auth_broker" where
  "corroboration_due k b =
     (if k < length (markCorroborations b)
      then (case markCorroborations b ! k of (account, markedAt) \<Rightarrow>
        corroborate_begin account markedAt (b\<lparr>markCorroborations := remove_nth k (markCorroborations b)\<rparr>))
      else b)"

definition mark_probed :: "(string \<Rightarrow> bool) \<Rightarrow> nat \<Rightarrow> QuotaResult \<Rightarrow> auth_broker \<Rightarrow> auth_broker" where
  "mark_probed writable k result b =
     (case pending_at k b of
        Some (CorroborateProbe account markedAt until now) \<Rightarrow>
          corroborate_finish writable account markedAt until now result (drop_pending k b)
      | _ \<Rightarrow> b)"

text \<open>
  Every event is an entry point, the continuation of a pending operation, the answer of a probe a tick or a
  dashboard asked for, or the passing of time; it comes with the mirror writes that get through.
\<close>

fun auth_step :: "auth_event \<times> (string \<Rightarrow> bool) \<Rightarrow> auth_broker \<Rightarrow> auth_broker" where
  "auth_step (GetCredentials i, w) b = snd (opGetCredentials i b)"
| "auth_step (MarkExhausted i until, w) b = opMarkExhausted i until b"
| "auth_step (MarkThrottled i until probeOnly, w) b = opMarkThrottled i until probeOnly b"
| "auth_step (SetActive i account, w) b = opSetActive w i account b"
| "auth_step (SetOverride i name account, w) b = opSetOverride w i name account b"
| "auth_step (AddAccount i label replaced valid, w) b = opAddAccount w i label replaced valid b"
| "auth_step (RmAccount i label, w) b = opRmAccount i label b"
| "auth_step (ProbeQuota label result, w) b = fleetProbed w label result b"
| "auth_step (TierProbe label result, w) b = recordTierProbe w label result b"
| "auth_step (TierMark label until, w) b = write_premium_mark label until b"
| "auth_step (FleetAct label result tierWall, w) b = fleetAct w label result tierWall b"
| "auth_step (ConsumerProbe label result, w) b = consumerProbed w label result b"
| "auth_step (Refreshed label, w) b = fanoutToAffectedConsumers w label (fanoutToAffectedAgents w label b)"
| "auth_step (Booted, w) b = fanoutAll w b"
| "auth_step (CandidateProbed k label result, w) b = candidate_probed w k label result b"
| "auth_step (SelectTarget k, w) b = select_target k b"
| "auth_step (FinishRoll k, w) b = finish_roll w k b"
| "auth_step (ThrottleProbed k result, w) b = throttle_probed w k result b"
| "auth_step (CorroborationDue k, w) b = corroboration_due k b"
| "auth_step (MarkProbed k result, w) b = mark_probed w k result b"
| "auth_step (Wait ms, w) b = b\<lparr>auth_clock := auth_clock b + int ms\<rparr>"
| "auth_step (Reload cfg, w) b = reload_config cfg b"

end
