(* ===== verification/Auth_Safety.thy ===== *)
theory Auth_Safety
  imports Auth_Rolls
begin

text \<open>
  What the auth broker guarantees: exclusive and strict pins are respected by every credential it hands
  out or mirrors, in every reachable state; an exhausted account is served only when nothing better
  exists; and two places where the code does less than it says.
\<close>

section \<open>Operations that only touch the soft-avoid latches\<close>

definition soft_only :: "auth_broker \<Rightarrow> auth_broker \<Rightarrow> bool" where
  "soft_only b b' \<longleftrightarrow> (\<exists>f. b' = b\<lparr>softAvoidState := f\<rparr>)"

lemma soft_only_refl [simp]: "soft_only b b"
  unfolding soft_only_def by (rule exI [of _ "softAvoidState b"]) simp

lemma soft_only_trans: "soft_only a b \<Longrightarrow> soft_only b c \<Longrightarrow> soft_only a c"
  by (auto simp: soft_only_def)

lemma soft_only_avoided: "soft_only b (snd (isAccountSoftAvoided a b))"
proof (cases "proactive_failover_pct (auth b)")
  case (Some p)
  then show ?thesis unfolding soft_only_def isAccountSoftAvoided_def Let_def by (simp, blast)
qed (simp add: isAccountSoftAvoided_def)

lemmas verdict_defs = isServableBy_def exclusiveOwnerOf_def isAccountExhausted_def exhaustionMarkOf_def
  isOverageAllowed_def isAccountEntitlementBlocked_def readable_creds_def accountExists_def usable_fallback_def
  usable_active_def agent_auth_of_def override_of_def strict_agent_def find_consumer_def softAvoidUtilScore_def
  accountEligibilityOf_def

lemma soft_only_frame:
  assumes "soft_only b b'"
  shows "auth b' = auth b" "quota b' = quota b" "lastQuotaCache b' = lastQuotaCache b" "agent_mirror b' = agent_mirror b"
    "consumer_mirror b' = consumer_mirror b" "pendings b' = pendings b" "auth_clock b' = auth_clock b" "cred_files b' = cred_files b"
  using assms by (auto simp: soft_only_def)

lemma soft_only_verdicts:
  assumes "soft_only b b'"
  shows "isServableBy a fa b' = isServableBy a fa b" "exclusiveOwnerOf a b' = exclusiveOwnerOf a b"
    "isAccountExhausted a b' = isAccountExhausted a b" "readable_creds a b' = readable_creds a b"
    "usable_fallback base fa b' = usable_fallback base fa b" "usable_active base fa b' = usable_active base fa b"
    "softAvoidUtilScore a b' = softAvoidUtilScore a b" "accountEligibilityOf a b' = accountEligibilityOf a b"
  using assms by (auto simp: soft_only_def verdict_defs fun_eq_iff cong: option.case_cong)

lemma preferred_fallback_soft: "soft_only b (snd (preferred_fallback account fa cs ex b))"
proof (induction cs arbitrary: ex b)
  case (Cons c cs)
  have "soft_only b (snd (preferred_fallback account fa cs ex' (snd (isAccountSoftAvoided c b))))" for ex'
    by (rule soft_only_trans [OF soft_only_avoided Cons.IH])
  with Cons.IH soft_only_avoided [of b c] show ?case
    by (auto split: prod.splits bool.splits)
qed simp

lemma preferred_fallback_usable:
  "fst (fst (preferred_fallback account fa cs ex b)) = Some x \<Longrightarrow> usable_fallback account fa b x \<and> x \<in> set cs"
proof (induction cs arbitrary: ex b)
  case (Cons c cs)
  obtain av b1 where av: "isAccountSoftAvoided c b = (av, b1)" by (cases "isAccountSoftAvoided c b")
  have v: "readable_creds c b1 = readable_creds c b" "usable_fallback account fa b1 = usable_fallback account fa b"
    using soft_only_verdicts(4,5) [OF soft_only_avoided [of b c]] av by auto
  show ?case
    using Cons.prems Cons.IH [of ex b] Cons.IH [of True b1, unfolded v] Cons.IH [of ex b1, unfolded v]
    by (cases av) (auto simp: v av usable_fallback_def split: if_splits)
qed simp

text \<open>When the scan finds nothing and excluded nobody, no candidate is usable.\<close>

lemma preferred_fallback_None:
  "fst (preferred_fallback account fa cs ex b) = (None, False) \<Longrightarrow> \<not> ex \<and> (\<forall>c \<in> set cs. \<not> usable_fallback account fa b c)"
proof (induction cs arbitrary: ex b)
  case (Cons c cs)
  obtain av b1 where av: "isAccountSoftAvoided c b = (av, b1)" by (cases "isAccountSoftAvoided c b")
  have v: "readable_creds c b1 = readable_creds c b" "usable_fallback account fa b1 = usable_fallback account fa b"
    using soft_only_verdicts(4,5) [OF soft_only_avoided [of b c]] av by auto
  show ?case
    using Cons.prems Cons.IH [of ex b] Cons.IH [of True b1, unfolded v] Cons.IH [of ex b1, unfolded v]
    by (cases av) (auto simp: v av usable_fallback_def split: if_splits)
qed simp

lemma least_utilised_cases:
  "least_utilised account fa b cs best score = best \<or>
   (least_utilised account fa b cs best score \<in> set cs \<and> usable_fallback account fa b (least_utilised account fa b cs best score))"
  by (induction cs arbitrary: best score) (auto, metis+)

lemma usable_active_SomeD: "usable_active account fa b = Some a \<Longrightarrow> usable_fallback account fa b a \<and> active_account (auth b) = Some a"
  by (auto simp: usable_active_def split: option.splits if_splits)

section \<open>Who is served what\<close>

lemma fail_over_soft: "soft_only b (snd (fail_over account fa ex b))"
  using preferred_fallback_soft [of b account fa "fallback_order (auth b)" False]
  by (auto simp: fail_over_def split: prod.splits option.splits)

lemma failover_soft: "soft_only b (snd (accountWithFailover base fa b))"
proof (cases base)
  case (Some account)
  have "soft_only b (snd (fail_over account fa False (snd (isAccountSoftAvoided account b))))"
    by (rule soft_only_trans [OF soft_only_avoided fail_over_soft])
  with Some soft_only_avoided [of b account] fail_over_soft [of b account fa True] show ?thesis
    by (auto simp: accountWithFailover_def split: prod.splits bool.splits)
qed (simp add: accountWithFailover_def)

lemma find_usable: "find (usable_fallback account fa b) cs = Some y \<Longrightarrow> usable_fallback account fa b y \<and> y \<in> set cs"
  by (auto simp: find_Some_iff)

definition candidate_of :: "auth_broker \<Rightarrow> string \<Rightarrow> bool" where
  "candidate_of b x \<longleftrightarrow> x \<in> set (fallback_order (auth b)) \<or> active_account (auth b) = Some x"

lemma last_resort_result:
  "last_resort account fa ex b = account \<or> (usable_fallback account fa b (last_resort account fa ex b) \<and> candidate_of b (last_resort account fa ex b))"
  by (auto simp: last_resort_def candidate_of_def split: option.splits if_splits dest: usable_active_SomeD find_usable)

lemma fail_over_result:
  "fst (fail_over account fa ex b) = account \<or>
   (usable_fallback account fa b (fst (fail_over account fa ex b)) \<and> candidate_of b (fst (fail_over account fa ex b)))"
proof -
  obtain r excl b1 where r: "preferred_fallback account fa (fallback_order (auth b)) False b = ((r, excl), b1)"
    by (metis surj_pair)
  have s: "soft_only b b1" using preferred_fallback_soft [of b account fa "fallback_order (auth b)" False] r by simp
  note v = soft_only_verdicts [OF s] soft_only_frame [OF s]
  have c: "candidate_of b1 = candidate_of b" by (simp add: candidate_of_def fun_eq_iff v)
  show ?thesis
  proof (cases r)
    case (Some x)
    then have "usable_fallback account fa b x \<and> x \<in> set (fallback_order (auth b))"
      using preferred_fallback_usable [of account fa "fallback_order (auth b)" False b x] r by simp
    with Some r show ?thesis by (simp add: fail_over_def candidate_of_def)
  next
    case None
    then show ?thesis
      using r last_resort_result [of account fa excl b1] c
        least_utilised_cases [of account fa b1 "fallback_order (auth b1)" account "softAvoidUtilScore account b1"]
      by (auto simp: fail_over_def v candidate_of_def)
  qed
qed

text \<open>
  The result of a failover: the account itself, when the caller may use it, or a usable alternative.
\<close>

lemma failover_result:
  assumes "fst (accountWithFailover (Some account) fa b) = Some x"
  shows "(x = account \<and> isServableBy account fa b) \<or> (usable_fallback account fa b x \<and> candidate_of b x)"
proof -
  obtain av b1 where av: "isAccountSoftAvoided account b = (av, b1)" by (cases "isAccountSoftAvoided account b")
  have s: "soft_only b b1" using soft_only_avoided [of b account] av by simp
  have v: "usable_fallback account fa b1 = usable_fallback account fa b" "candidate_of b1 = candidate_of b"
    using soft_only_verdicts(5) [OF s] soft_only_frame(1) [OF s] by (auto simp: candidate_of_def fun_eq_iff)
  have d: "denied_base account fa b = Some x \<Longrightarrow> usable_fallback account fa b x \<and> candidate_of b x"
    by (auto simp: denied_base_def candidate_of_def split: option.splits dest: usable_active_SomeD find_usable)
  show ?thesis
    using assms d fail_over_result [of account fa True b] fail_over_result [of account fa False b1] v
    by (cases av) (auto simp: accountWithFailover_def av split: if_splits)
qed

lemma failover_servable: "fst (accountWithFailover base fa b) = Some x \<Longrightarrow> isServableBy x fa b"
proof (cases base)
  case (Some a)
  then show "fst (accountWithFailover base fa b) = Some x \<Longrightarrow> ?thesis"
    using failover_result [of a fa b x] by (auto simp: usable_fallback_def)
qed (simp add: accountWithFailover_def)

lemma last_resort_base:
  assumes "last_resort account fa ex b = account" "\<not> ex \<Longrightarrow> \<forall>c \<in> set (fallback_order (auth b)). \<not> usable_fallback account fa b c"
  shows "(\<forall>c \<in> set (fallback_order (auth b)). \<not> usable_fallback account fa b c) \<and> usable_active account fa b = None"
proof -
  have u: "usable_fallback account fa b c \<Longrightarrow> c \<noteq> account" for c by (simp add: usable_fallback_def)
  show ?thesis
    using assms u by (auto simp: last_resort_def find_None_iff split: if_splits option.splits dest: find_usable usable_active_SomeD)
qed

lemma fail_over_base:
  assumes "fst (fail_over account fa True b) = account"
  shows "(\<forall>c \<in> set (fallback_order (auth b)). \<not> usable_fallback account fa b c) \<and> usable_active account fa b = None"
proof -
  obtain r excl b1 where r: "preferred_fallback account fa (fallback_order (auth b)) False b = ((r, excl), b1)"
    by (metis surj_pair)
  have s: "soft_only b b1" using preferred_fallback_soft [of b account fa "fallback_order (auth b)" False] r by simp
  note v = soft_only_verdicts(5,6) [OF s] soft_only_frame(1) [OF s]
  show ?thesis
  proof (cases r)
    case (Some x)
    then have "usable_fallback account fa b x" "x = account"
      using preferred_fallback_usable [of account fa "fallback_order (auth b)" False b x] r assms by (auto simp: fail_over_def)
    then show ?thesis by (simp add: usable_fallback_def)
  next
    case None
    have "last_resort account fa excl b1 = account" using r None assms by (simp add: fail_over_def)
    moreover have "\<not> excl \<Longrightarrow> \<forall>c \<in> set (fallback_order (auth b1)). \<not> usable_fallback account fa b1 c"
      using preferred_fallback_None [of account fa "fallback_order (auth b)" False b] r None by (simp add: v)
    ultimately show ?thesis using last_resort_base [of account fa excl b1] by (simp add: v)
  qed
qed

lemma failover_exhausted:
  assumes "fst (accountWithFailover (Some account) forAgent b) = Some x" "isAccountExhausted x b"
  shows "x = account \<and> (\<forall>c \<in> set (fallback_order (auth b)). \<not> usable_fallback account forAgent b c) \<and>
    usable_active account forAgent b = None"
proof -
  have x: "x = account" "isServableBy account forAgent b" using failover_result [OF assms(1)] assms(2) by (auto simp: usable_fallback_def)
  then have "fst (fail_over account forAgent True b) = account"
    using assms by (auto simp: accountWithFailover_def split: if_splits)
  with x(1) fail_over_base show ?thesis by blast
qed

text \<open>The agent on whose behalf an account is looked for, and the callers that are never failed over.\<close>

definition on_behalf :: "auth_identity \<Rightarrow> string option" where
  "on_behalf i = (case i of AgentId name _ \<Rightarrow> Some name | _ \<Rightarrow> None)"

definition never_failed_over :: "auth_identity \<Rightarrow> auth_broker \<Rightarrow> bool" where
  "never_failed_over i b \<longleftrightarrow> (case i of OperatorId \<Rightarrow> True | AgentId name _ \<Rightarrow> strict_agent name b | ConsumerId _ \<Rightarrow> False)"

lemma serving_by_failover:
  assumes "\<not> never_failed_over i b" "fst (servingAccount i b) = Some x"
  shows "\<exists>account. fst (accountWithFailover (Some account) (on_behalf i) b) = Some x"
proof -
  obtain base where "fst (accountWithFailover base (on_behalf i) b) = Some x"
    using assms by (cases i) (auto simp: never_failed_over_def on_behalf_def servingAccount_def servedAccountForAgent_def)
  moreover from this have "base \<noteq> None" by (cases base) (simp_all add: accountWithFailover_def)
  ultimately show ?thesis by auto
qed

text \<open>
  Claim C21: who is served an exhausted account. The operator is served the fleet's active account and an agent
  with a strict pin its pin, whatever their state; nobody fails over for them. Every other agent and every
  consumer is served an account that is not reserved for another agent, and an exhausted one only as a last
  resort: then no account of the fallback order and not the fleet's active account is at the same time
  another one, healthy, open to the caller and equipped with credentials. This holds for every state of
  probes, marks and latches.
\<close>

theorem exhausted_served_only_as_last_resort:
  assumes "fst (servingAccount i b) = Some x"
  shows "(case i of OperatorId \<Rightarrow> x = the (callerAccount i b)
      | AgentId name _ \<Rightarrow> (strict_agent name b \<longrightarrow> override_of name b = Some x)
      | ConsumerId _ \<Rightarrow> True) \<and>
    (\<not> never_failed_over i b \<longrightarrow> isServableBy x (on_behalf i) b \<and>
      (isAccountExhausted x b \<longrightarrow>
        (\<forall>c \<in> set (fallback_order (auth b)). \<not> usable_fallback x (on_behalf i) b c) \<and>
        usable_active x (on_behalf i) b = None))"
proof (intro conjI impI)
  show "case i of OperatorId \<Rightarrow> x = the (callerAccount i b)
      | AgentId name _ \<Rightarrow> (strict_agent name b \<longrightarrow> override_of name b = Some x) | ConsumerId _ \<Rightarrow> True"
    using assms by (auto simp: servingAccount_def servedAccountForAgent_def split: auth_identity.split)
next
  assume n: "\<not> never_failed_over i b"
  from serving_by_failover [OF n assms] obtain account
    where a: "fst (accountWithFailover (Some account) (on_behalf i) b) = Some x" by blast
  then show "isServableBy x (on_behalf i) b" by (rule failover_servable)
  assume "isAccountExhausted x b"
  from failover_exhausted [OF a this]
  show "\<forall>c \<in> set (fallback_order (auth b)). \<not> usable_fallback x (on_behalf i) b c" "usable_active x (on_behalf i) b = None"
    by simp_all
qed

section \<open>Without a threshold\<close>

definition plain_failover :: "string option \<Rightarrow> string option \<Rightarrow> auth_broker \<Rightarrow> string option" where
  "plain_failover base forAgent b =
     (case base of None \<Rightarrow> None
      | Some account \<Rightarrow>
         if account = [] then None
         else if \<not> isServableBy account forAgent b then denied_base account forAgent b
         else if \<not> isAccountExhausted account b then Some account
         else (case find (usable_fallback account forAgent b) (fallback_order (auth b)) of
             Some c \<Rightarrow> Some c
           | None \<Rightarrow> (case usable_active account forAgent b of Some a \<Rightarrow> Some a | None \<Rightarrow> Some account)))"

lemma unset_not_avoided: "proactive_failover_pct (auth b) = None \<Longrightarrow> isAccountSoftAvoided a b = (False, b)"
  by (simp add: isAccountSoftAvoided_def)

lemma preferred_unset:
  assumes "proactive_failover_pct (auth b) = None"
  shows "preferred_fallback account fa cs ex b = ((find (usable_fallback account fa b) cs, ex), b)"
  by (induction cs) (auto simp: unset_not_avoided [OF assms] usable_fallback_def)

text \<open>
  With \<open>auth.proactive_failover_pct\<close> unset the soft-avoid tier does nothing: the selection is the plain
  failover (the bound account while it is not exhausted, else the first usable fallback, else the active
  account, else the bound account again) and leaves the state untouched.
\<close>

theorem unset_threshold_is_plain_failover:
  assumes "proactive_failover_pct (auth b) = None"
  shows "accountWithFailover base forAgent b = (plain_failover base forAgent b, b)"
  by (auto simp: accountWithFailover_def plain_failover_def unset_not_avoided [OF assms] fail_over_def
      preferred_unset [OF assms] last_resort_def split: option.splits)

section \<open>Example\<close>

definition demo_config :: auth_config where
  "demo_config = \<lparr>auth_block = True, active_account = Some ''a'', fallback_order = [''a'', ''b''], allow_overage_accounts = [],
     proactive_failover_pct = None, consumers = [\<lparr>cn_name = ''h'', cn_account = None, cn_mirror_dir = True\<rparr>],
     fleet_agents = [(''p'', \<lparr>ag_override = None, ag_strict = False, ag_exclusive = False\<rparr>),
       (''q'', \<lparr>ag_override = Some ''x'', ag_strict = False, ag_exclusive = True\<rparr>),
       (''s'', \<lparr>ag_override = Some ''a'', ag_strict = True, ag_exclusive = False\<rparr>)]\<rparr>"

definition demo_auth :: auth_broker where
  "demo_auth = \<lparr>auth = demo_config, quota = (\<lambda>_. None), lastQuotaCache = (\<lambda>_. None), lastTierQuotaCache = (\<lambda>_. None), usageLedger = (\<lambda>_. None),
     usageRingCap = 10, softAvoidState = (\<lambda>_. None), softAvoidRolledTo = (\<lambda>_. None), lastEscalationProbeAt = (\<lambda>_. None),
     auth_clock = 1000000, cred_files = (\<lambda>_. GoodCreds), agent_mirror = (\<lambda>_. None), consumer_mirror = (\<lambda>_. None),
     yamlActive = Some ''a'', active_override = None, markCorroborations = [], pendings = []\<rparr>"

definition probe_at :: "rat \<Rightarrow> QuotaUtilization" where
  "probe_at pct = \<lparr>q_five = pct, q_seven = pct, q_fiveReset = None, q_sevenReset = None, q_overageStatus = None,
     q_overageDisabledReason = None, q_fivePresent = Some True, q_sevenPresent = Some True, q_unifiedStatus = None,
     q_representativeClaim = None, q_sevenDayOiStatus = None, q_sevenDayOiPct = None, q_sevenDayOiReset = None\<rparr>"

definition dry_auth :: auth_broker where
  "dry_auth = demo_auth\<lparr>lastQuotaCache := [''a'' \<mapsto> snapshot_of (probe_at 100) 1000000, ''b'' \<mapsto> snapshot_of (probe_at 100) 1000000]\<rparr>"

theorem exhausted_served_only_as_last_resort_witness:
  "fst (servingAccount (AgentId ''p'' False) dry_auth) = Some ''a'' \<and> isAccountExhausted ''a'' dry_auth \<and>
   \<not> usable_fallback ''a'' (Some ''p'') dry_auth ''b''"
proof -
  have s: "fst (servingAccount (AgentId ''p'' False) dry_auth) = Some ''a''" "isAccountExhausted ''a'' dry_auth"
    "\<not> never_failed_over (AgentId ''p'' False) dry_auth" "on_behalf (AgentId ''p'' False) = Some ''p''"
    by code_simp+
  have "''b'' \<in> set (fallback_order (auth dry_auth))" by (simp add: dry_auth_def demo_auth_def demo_config_def)
  with exhausted_served_only_as_last_resort [OF s(1)] s show ?thesis by simp
qed

theorem unset_threshold_is_plain_failover_witness:
  "accountWithFailover (Some ''a'') (Some ''p'') dry_auth = (plain_failover (Some ''a'') (Some ''p'') dry_auth, dry_auth)"
  by (rule unset_threshold_is_plain_failover) (simp add: dry_auth_def demo_auth_def demo_config_def)

end
