(* ===== verification/Auth_Pins.thy ===== *)
theory Auth_Pins
  imports Auth_Safety
begin

text \<open>
  Exclusive and strict account pins: the check of the configuration schema (\<open>src/config/schema.ts\<close>), and the
  invariant of the auth broker that every credential mirror respects them in every reachable state.
\<close>

section \<open>The schema check\<close>

text \<open>An exclusive account may not be routed to anybody else.\<close>

definition exclusive_pin_valid :: "auth_config \<Rightarrow> string \<times> agent_auth \<Rightarrow> bool" where
  "exclusive_pin_valid cfg na =
     (case na of (name, a) \<Rightarrow>
        if \<not> ag_exclusive a \<or> \<not> truthy (ag_override a) then True
        else active_account cfg \<noteq> ag_override a \<and> the (ag_override a) \<notin> set (fallback_order cfg) \<and>
          list_all (\<lambda>(other, oa). other = name \<or> ag_override oa \<noteq> ag_override a) (fleet_agents cfg) \<and>
          list_all (\<lambda>c. cn_account c \<noteq> ag_override a) (consumers cfg))"

definition exclusive_pins_valid :: "auth_config \<Rightarrow> bool" where
  "exclusive_pins_valid cfg = list_all (exclusive_pin_valid cfg) (fleet_agents cfg)"

text \<open>An agent may hold the credentials of an account: nobody else reserved it, and a strict pin is that account.\<close>

definition may_hold :: "auth_broker \<Rightarrow> string \<Rightarrow> string \<Rightarrow> bool" where
  "may_hold b name account \<longleftrightarrow> isServableBy account (Some name) b \<and> (strict_agent name b \<longrightarrow> override_of name b = Some account)"

definition roll_target_open :: "auth_broker \<Rightarrow> pending \<Rightarrow> bool" where
  "roll_target_open b p = (case p of RollTo _ (Some t) _ \<Rightarrow> exclusiveOwnerOf t b = None | _ \<Rightarrow> True)"

text \<open>
  The pins hold, except for mirrors in \<open>D\<close>: mirrors of agents and of consumers that were left as they are by
  a reload or from before the start.
\<close>

type_synonym left_mirrors = "(string \<Rightarrow> string \<Rightarrow> bool) \<times> (string \<Rightarrow> string \<Rightarrow> bool)"

definition pins_ok :: "left_mirrors \<Rightarrow> auth_broker \<Rightarrow> bool" where
  "pins_ok D b \<longleftrightarrow> distinct (map fst (fleet_agents (auth b))) \<and> exclusive_pins_valid (auth b) \<and>
     (\<forall>name account. agent_mirror b name = Some account \<longrightarrow> may_hold b name account \<or> fst D name account) \<and>
     (\<forall>name account. consumer_mirror b name = Some account \<longrightarrow> exclusiveOwnerOf account b = None \<or> snd D name account) \<and>
     list_all (roll_target_open b) (pendings b)"

section \<open>Frames\<close>

definition pins_same :: "auth_broker \<Rightarrow> auth_broker \<Rightarrow> bool" where
  "pins_same b b' \<longleftrightarrow> auth b' = auth b \<and> agent_mirror b' = agent_mirror b \<and> consumer_mirror b' = consumer_mirror b \<and>
     (\<forall>p \<in> set (pendings b'). p \<in> set (pendings b) \<or> (\<forall>a t h. p \<noteq> RollTo a (Some t) h))"

lemma pins_same_owner:
  assumes "fleet_agents (auth b') = fleet_agents (auth b)"
  shows "exclusiveOwnerOf a b' = exclusiveOwnerOf a b" "isServableBy a fa b' = isServableBy a fa b"
    "may_hold b' n a = may_hold b n a" "roll_target_open b' = roll_target_open b" "override_of n b' = override_of n b"
    "strict_agent n b' = strict_agent n b"
  using assms by (auto simp: verdict_defs may_hold_def roll_target_open_def fun_eq_iff split: pending.split option.split)

lemma pins_ok_same:
  assumes "pins_ok D b" "pins_same b b'" shows "pins_ok D b'"
proof -
  have au: "auth b' = auth b" using assms(2) by (simp add: pins_same_def)
  then have "fleet_agents (auth b') = fleet_agents (auth b)" by simp
  note f = pins_same_owner [OF this] au
  have "list_all (roll_target_open b) (pendings b')"
    unfolding list_all_iff
  proof
    fix p assume "p \<in> set (pendings b')"
    then consider "p \<in> set (pendings b)" | "\<forall>a t h. p \<noteq> RollTo a (Some t) h" using assms(2) unfolding pins_same_def by blast
    then show "roll_target_open b p"
      using assms(1) by cases (auto simp: pins_ok_def list_all_iff roll_target_open_def split: pending.split option.split)
  qed
  with assms show ?thesis by (simp add: pins_ok_def pins_same_def f)
qed

lemma pins_same_refl [simp]: "pins_same b b"
  by (auto simp: pins_same_def)

lemma pins_same_trans: "pins_same a b \<Longrightarrow> pins_same b c \<Longrightarrow> pins_same a c"
  unfolding pins_same_def by metis

lemma pins_same_soft: "soft_only b b' \<Longrightarrow> pins_same b b'"
  by (auto simp: soft_only_def pins_same_def)

lemma owner_SomeD:
  "exclusiveOwnerOf a b = Some name \<Longrightarrow> \<exists>x. (name, x) \<in> set (fleet_agents (auth b)) \<and> ag_exclusive x \<and> ag_override x = Some a"
  using sql_get_SomeD [of "\<lambda>(name, aa). ag_exclusive aa \<and> ag_override aa = Some a" "fleet_agents (auth b)"]
  by (auto simp: exclusiveOwnerOf_def sql_get_def)

text \<open>A served account may be held: strict agents get their own pin.\<close>

lemma valid_own_override:
  assumes "distinct (map fst (fleet_agents (auth b)))" "exclusive_pins_valid (auth b)" "override_of name b = Some a" "a \<noteq> []"
  shows "isServableBy a (Some name) b"
proof -
  have mine: "(name, x) \<in> set (fleet_agents (auth b)) \<Longrightarrow> ag_override x = Some a" for x
    using assms(1,3) by (auto simp: override_of_def agent_auth_of_def bind_eq_Some_conv)
  obtain x where x: "(name, x) \<in> set (fleet_agents (auth b))" "ag_override x = Some a"
    using assms(3) by (auto simp: override_of_def agent_auth_of_def bind_eq_Some_conv dest: map_of_SomeD)
  have "o' = name" if "(o', oa) \<in> set (fleet_agents (auth b))" "ag_exclusive oa" "ag_override oa = Some a" for o' oa
  proof -
    have "exclusive_pin_valid (auth b) (o', oa)" using assms(2) that(1) by (auto simp: exclusive_pins_valid_def list_all_iff)
    then show ?thesis using that x assms(4) by (auto simp: exclusive_pin_valid_def truthy_def list_all_iff)
  qed
  then have "exclusiveOwnerOf a b = Some o' \<Longrightarrow> o' = name" for o' by (auto dest: owner_SomeD)
  then show ?thesis by (cases "exclusiveOwnerOf a b") (auto simp: isServableBy_def)
qed

lemma served_may_hold:
  assumes "pins_ok D b" "fst (servedAccountForAgent name b) = Some a" "a \<noteq> []"
  shows "may_hold b name a"
  using assms valid_own_override [of b name a] failover_servable [of _ "Some name" b a]
  by (auto simp: servedAccountForAgent_def may_hold_def pins_ok_def split: if_splits)

lemma served_same: "pins_same b (snd (servedAccountForAgent name b))"
  by (auto simp: servedAccountForAgent_def intro!: pins_same_soft failover_soft)

lemma consumer_same: "pins_same b (snd (servingAccountForConsumer name b))"
  by (auto simp: servingAccountForConsumer_def intro!: pins_same_soft failover_soft split: option.split)

lemma consumer_open: "fst (servingAccountForConsumer name b) = Some a \<Longrightarrow> exclusiveOwnerOf a b = None"
  using failover_servable [of _ None b a] by (auto simp: servingAccountForConsumer_def isServableBy_def split: option.splits)

section \<open>Mirrors\<close>

lemma mirror_agent_ok:
  assumes "pins_ok D b" "may_hold b name a" shows "pins_ok D (mirrorAccountToAgent w a name b)"
proof (cases "accountExists a b \<and> w name")
  case True
  then have "fleet_agents (auth (mirrorAccountToAgent w a name b)) = fleet_agents (auth b)" by (simp add: mirrorAccountToAgent_def)
  from pins_same_owner [OF this] assms True show ?thesis by (simp add: pins_ok_def mirrorAccountToAgent_def)
qed (use assms in \<open>auto simp: mirrorAccountToAgent_def\<close>)

lemma mirror_consumer_ok:
  assumes "pins_ok D b" "exclusiveOwnerOf a b = None" shows "pins_ok D (mirrorAccountToConsumer w a c b)"
proof (cases "cn_mirror_dir c \<and> accountExists a b \<and> w (cn_name c)")
  case True
  then have "fleet_agents (auth (mirrorAccountToConsumer w a c b)) = fleet_agents (auth b)" by (simp add: mirrorAccountToConsumer_def)
  from pins_same_owner [OF this] assms True show ?thesis by (simp add: pins_ok_def mirrorAccountToConsumer_def)
qed (use assms in \<open>auto simp: mirrorAccountToConsumer_def\<close>)

lemma fanout_agent_ok: assumes "pins_ok D b" shows "pins_ok D (fanoutForAgent w name b)"
proof -
  obtain r b1 where r: "servedAccountForAgent name b = (r, b1)" by (cases "servedAccountForAgent name b")
  have same: "pins_same b b1" using served_same [of b name] r by simp
  then have ok: "pins_ok D b1" using assms by (rule pins_ok_same [rotated])
  have au: "fleet_agents (auth b1) = fleet_agents (auth b)" using same by (simp add: pins_same_def)
  have "may_hold b1 name a" if "r = Some a" "a \<noteq> []" for a
    using served_may_hold [OF assms, of name a] that r by (simp add: pins_same_owner(3) [OF au])
  with ok assms r show ?thesis by (auto simp: fanoutForAgent_def mirror_agent_ok split: option.split)
qed

lemma fanout_if_served_ok: assumes "pins_ok D b" shows "pins_ok D (fanout_if_served w label name b)"
proof -
  obtain r b1 where r: "servedAccountForAgent name b = (r, b1)" by (cases "servedAccountForAgent name b")
  then have "pins_ok D b1" using pins_ok_same [OF assms] served_same [of b name] by simp
  with r fanout_agent_ok [of D b1] show ?thesis by (simp add: fanout_if_served_def)
qed

lemma fold_ok: "(\<And>x b. pins_ok D b \<Longrightarrow> pins_ok D (f x b)) \<Longrightarrow> pins_ok D b \<Longrightarrow> pins_ok D (fold f xs b)"
  by (induction xs arbitrary: b) auto

lemma fanout_agents_ok: "pins_ok D b \<Longrightarrow> pins_ok D (fanoutToAffectedAgents w label b)"
  unfolding fanoutToAffectedAgents_def by (rule fold_ok) (auto intro: fanout_if_served_ok)

lemma fanout_consumer_ok: assumes "pins_ok D b" shows "pins_ok D (fanout_consumer w label c b)" "pins_ok D (fanout_any_consumer w c b)"
proof -
  obtain r b1 where r: "servingAccountForConsumer (cn_name c) b = (r, b1)" by (cases "servingAccountForConsumer (cn_name c) b")
  have same: "pins_same b b1" using consumer_same [of b "cn_name c"] r by simp
  then have ok: "pins_ok D b1" using assms by (rule pins_ok_same [rotated])
  have au: "fleet_agents (auth b1) = fleet_agents (auth b)" using same by (simp add: pins_same_def)
  have "exclusiveOwnerOf a b1 = None" if "r = Some a" for a
    using consumer_open [of "cn_name c" b a] that r by (simp add: pins_same_owner(1) [OF au])
  with ok assms r show "pins_ok D (fanout_consumer w label c b)" "pins_ok D (fanout_any_consumer w c b)"
    by (auto simp: fanout_consumer_def fanout_any_consumer_def mirror_consumer_ok split: option.split)
qed

lemma fanout_consumers_ok: "pins_ok D b \<Longrightarrow> pins_ok D (fanoutToAffectedConsumers w label b)" "pins_ok D b \<Longrightarrow> pins_ok D (fanoutAllConsumers w b)"
  unfolding fanoutToAffectedConsumers_def fanoutAllConsumers_def by (auto intro!: fold_ok fanout_consumer_ok)

lemma roll_agent_ok:
  assumes "pins_ok D b" "agent_auth_of (fst na) b = Some (snd na)" shows "pins_ok D (roll_agent w label t na b)"
proof -
  have "may_hold b (fst na) t" if "isServableBy t (Some (fst na)) b" "\<not> (truthy (ag_override (snd na)) \<and> ag_strict (snd na))"
    using that assms(2) by (auto simp: may_hold_def strict_agent_def)
  with assms(1) show ?thesis by (cases na) (auto simp: roll_agent_def mirror_agent_ok)
qed

lemma roll_agents_ok:
  assumes "pins_ok D b" "\<And>na. na \<in> set nas \<Longrightarrow> agent_auth_of (fst na) b = Some (snd na)"
  shows "pins_ok D (fold (roll_agent w label t) nas b)"
  using assms
proof (induction nas arbitrary: b)
  case (Cons na nas)
  have "agent_auth_of n (roll_agent w label t na b) = agent_auth_of n b" for n
    by (auto simp: roll_agent_def mirrorAccountToAgent_def agent_auth_of_def split: prod.split)
  with Cons.prems Cons.IH [of "roll_agent w label t na b"] roll_agent_ok [of D b na] show ?case by simp
qed simp

lemma fanout_failover_ok:
  assumes "pins_ok D b" shows "pins_ok D (fanoutFailoverTo w label target b)"
proof -
  have "agent_auth_of (fst na) b = Some (snd na)" if "na \<in> set (fleet_agents (auth b))" for na
    using assms that by (cases na) (auto simp: pins_ok_def agent_auth_of_def)
  with roll_agents_ok [OF assms, of "fleet_agents (auth b)"] assms show ?thesis by (auto simp: fanoutFailoverTo_def)
qed

section \<open>Probes, marks and targets\<close>

lemma quota_ops_same:
  "pins_same b (markEntitlementBlocked label result b)" "pins_same b (clearEntitlementBlocked label b)"
  "pins_same b (write_mark label u b)" "pins_same b (write_premium_mark label v b)"
  "pins_same b (snd (throttle_mark label u b))" "pins_same b (escalate_begin label h b)"
  "pins_same b (corroborate_begin label m b)" "pins_same b (drop_pending k b)"
  by (auto simp: pins_same_def markEntitlementBlocked_def clearEntitlementBlocked_def write_mark_def write_premium_mark_def
      throttle_mark_def escalate_begin_def corroborate_begin_def drop_pending_def remove_nth_def Let_def
      split: QuotaResult.split bool.split option.split dest: in_set_takeD in_set_dropD)

lemma set_quota_same: "pins_same b (b\<lparr>quota := q\<rparr>)"
  by (simp add: pins_same_def)

lemma cache_ok: assumes "pins_ok D b" shows "pins_ok D (cacheQuotaSnapshot w label result b)"
proof (cases result)
  case (ProbeOk d)
  let ?b2 = "(clearEntitlementBlocked label b)\<lparr>lastQuotaCache := (lastQuotaCache (clearEntitlementBlocked label b))(label \<mapsto> snapshot_of d (auth_clock b)),
     usageLedger := recordUsageSample (usageRingCap b) label Standard (standardSampleFromResult result (auth_clock b)) (usageLedger (clearEntitlementBlocked label b))\<rparr>"
  have "pins_same b ?b2" using quota_ops_same(2) [of b label] by (simp add: pins_same_def)
  then have ok: "pins_ok D ?b2" by (rule pins_ok_same [OF assms])
  have "pins_ok D (?b2\<lparr>quota := q\<rparr>)" for q by (rule pins_ok_same [OF ok set_quota_same])
  with ok ProbeOk show ?thesis by (auto simp: cacheQuotaSnapshot_def Let_def intro: fanout_consumers_ok)
qed (use assms in \<open>auto simp: cacheQuotaSnapshot_def\<close>)

lemma tier_probe_ok: assumes "pins_ok D b" shows "pins_ok D (recordTierProbe w label result b)"
proof -
  define b1 where "b1 = (case result of ProbeOk d \<Rightarrow>
            b\<lparr>lastTierQuotaCache := (lastTierQuotaCache b)(label \<mapsto>
                \<lparr>ts_unifiedStatus = q_unifiedStatus d, ts_sevenDayOiStatus = q_sevenDayOiStatus d, ts_capturedAt = auth_clock b\<rparr>),
              usageLedger := recordUsageSample (usageRingCap b) label Premium (premiumSampleFromResult result (auth_clock b)) (usageLedger b)\<rparr>
          | _ \<Rightarrow> b)"
  have "pins_same b b1" by (auto simp: b1_def pins_same_def split: QuotaResult.split)
  then have ok: "pins_ok D b1" by (rule pins_ok_same [OF assms])
  have "pins_ok D (b1\<lparr>quota := q\<rparr>)" for q by (rule pins_ok_same [OF ok set_quota_same])
  with ok show ?thesis unfolding recordTierProbe_def b1_def [symmetric] by (auto simp: Let_def intro: fanout_consumers_ok)
qed

lemma fleet_probed_ok: "pins_ok D b \<Longrightarrow> pins_ok D (fleetProbed w label result b)"
  unfolding fleetProbed_def by (rule pins_ok_same [OF cache_ok quota_ops_same(1)])

lemma healthy_scan_open:
  assumes "fst (healthy_scan cs best b) = Some x" "\<And>y. best = Some y \<Longrightarrow> exclusiveOwnerOf (fst y) b = None"
  shows "exclusiveOwnerOf x b = None"
  using assms
proof (induction cs arbitrary: best b)
  case (Cons c cs)
  obtain av b1 where av: "isAccountSoftAvoided c b = (av, b1)" by (cases "isAccountSoftAvoided c b")
  have v: "exclusiveOwnerOf y b1 = exclusiveOwnerOf y b" for y
    using soft_only_verdicts(2) [OF soft_only_avoided [of b c]] av by simp
  show ?case
    using Cons.prems Cons.IH [of best b] Cons.IH [of best b1, unfolded v] Cons.IH [of "Some (c, softAvoidUtilScore c b1)" b1, unfolded v]
    by (cases av) (auto simp: v av split: if_splits)
qed auto

lemma healthy_scan_soft: "soft_only b (snd (healthy_scan cs best b))"
proof (induction cs arbitrary: best b)
  case (Cons c cs)
  have "soft_only b (snd (healthy_scan cs best' (snd (isAccountSoftAvoided c b))))" for best'
    by (rule soft_only_trans [OF soft_only_avoided Cons.IH])
  with Cons.IH soft_only_avoided [of b c] show ?case by (auto split: prod.split bool.split)
qed simp

lemma next_healthy_open: "fst (nextHealthyAccount cur order b) = Some x \<Longrightarrow> exclusiveOwnerOf x b = None"
  by (auto simp: nextHealthyAccount_def find_Some_iff split: option.splits intro: healthy_scan_open [of _ None b x])

lemma next_healthy_soft: "soft_only b (snd (nextHealthyAccount cur order b))"
  by (auto simp: nextHealthyAccount_def healthy_scan_soft split: option.split)

lemma cached_choice_open: "fst (cached_choice cur order b) = Some x \<Longrightarrow> exclusiveOwnerOf x b = None"
  using next_healthy_open [of cur order b] by (auto simp: cached_choice_def split: prod.splits option.splits if_splits)

lemma cached_choice_soft: "soft_only b (snd (cached_choice cur order b))"
proof -
  obtain r b1 where r: "nextHealthyAccount cur order b = (r, b1)" by (cases "nextHealthyAccount cur order b")
  have s: "soft_only b b1" using next_healthy_soft [of b cur order] r by simp
  have "soft_only b b2" if "isAccountSoftAvoided c b1 = (av, b2)" for c av b2
    using soft_only_trans [OF s soft_only_avoided, of c] that by simp
  with s r show ?thesis by (auto simp: cached_choice_def split: option.split prod.split)
qed

lemma reselect_open: "fst (reselect cur order b) = Some x \<Longrightarrow> exclusiveOwnerOf x (snd (reselect cur order b)) = None"
proof -
  obtain r b1 where r: "nextHealthyAccount cur order b = (r, b1)" by (cases "nextHealthyAccount cur order b")
  have s: "soft_only b b1" using next_healthy_soft [of b cur order] r by simp
  show "fst (reselect cur order b) = Some x \<Longrightarrow> ?thesis"
    using next_healthy_open [of cur order b] r soft_only_verdicts(2) [OF s]
    by (auto simp: reselect_def Let_def find_Some_iff split: option.splits if_splits)
qed

lemma reselect_soft: "soft_only b (snd (reselect cur order b))"
  using next_healthy_soft [of b cur order] by (auto simp: reselect_def Let_def split: option.split prod.split)

section \<open>Rolls and administrative operations\<close>

lemma pins_ok_appended:
  "pins_ok D b \<Longrightarrow> roll_target_open b p \<Longrightarrow> pins_ok D (b\<lparr>pendings := pendings b @ [p]\<rparr>)"
proof -
  have e: "fleet_agents (auth (b\<lparr>pendings := pendings b @ [p]\<rparr>)) = fleet_agents (auth b)" by simp
  show "pins_ok D b \<Longrightarrow> roll_target_open b p \<Longrightarrow> ?thesis" by (simp add: pins_ok_def pins_same_owner [OF e])
qed

lemma pins_ok_replaced:
  "pins_ok D b \<Longrightarrow> roll_target_open b p \<Longrightarrow> pins_ok D (b\<lparr>pendings := (pendings b)[k := p]\<rparr>)"
proof -
  have e: "fleet_agents (auth (b\<lparr>pendings := (pendings b)[k := p]\<rparr>)) = fleet_agents (auth b)" by simp
  show "pins_ok D b \<Longrightarrow> roll_target_open b p \<Longrightarrow> ?thesis"
    by (auto simp: pins_ok_def pins_same_owner [OF e] list_all_iff dest!: set_update_subset_insert [THEN subsetD])
qed

lemma mark_begin_ok: assumes "pins_ok D b" shows "pins_ok D (mark_begin account until h b)"
proof -
  define u where "u = clamped_until account until b"
  define b2 where "b2 = (let b1 = write_mark account u b in
     if auth_clock b + MARK_EXHAUSTED_DEFAULT_MS < u then b1\<lparr>markCorroborations := markCorroborations b1 @ [(account, auth_clock b)]\<rparr> else b1)"
  have "pins_same b b2" using quota_ops_same(3) [of b account u] by (simp add: b2_def Let_def pins_same_def)
  then have ok2: "pins_ok D b2" by (rule pins_ok_same [OF assms])
  obtain r b3 where r: "cached_choice account (fallback_order (auth b2)) b2 = (r, b3)" by (metis surj_pair)
  have s: "soft_only b2 b3" using cached_choice_soft [of b2 account "fallback_order (auth b2)"] r by simp
  have ok3: "pins_ok D b3" by (rule pins_ok_same [OF ok2 pins_same_soft [OF s]])
  have "exclusiveOwnerOf t b3 = None" if "r = Some t" for t
    using cached_choice_open [of account "fallback_order (auth b2)" b2 t] that r soft_only_verdicts(2) [OF s] by simp
  moreover have "mark_begin account until h b = (case r of
      Some t \<Rightarrow> b3\<lparr>pendings := pendings b3 @ [RollTo account (Some t) h]\<rparr>
    | None \<Rightarrow> b3\<lparr>pendings := pendings b3 @ [RollProbing account (unknown_candidates account (fallback_order (auth b3)) b3) h]\<rparr>)"
    using r unfolding mark_begin_def Let_def u_def [symmetric] b2_def by (cases r) (simp_all add: Let_def)
  ultimately show ?thesis using ok3 by (auto intro!: pins_ok_appended simp: roll_target_open_def split: option.split)
qed

lemma owner_NoneD: "exclusiveOwnerOf a b = None \<Longrightarrow> (n, x) \<in> set (fleet_agents (auth b)) \<Longrightarrow> ag_exclusive x \<Longrightarrow> ag_override x \<noteq> Some a"
  by (fastforce simp: exclusiveOwnerOf_def find_None_iff)

lemma set_active_valid:
  assumes "exclusive_pins_valid (auth b)" "exclusiveOwnerOf t b = None"
  shows "exclusive_pins_valid (auth (set_active_account t b))"
  unfolding exclusive_pins_valid_def list_all_iff
proof
  fix na assume "na \<in> set (fleet_agents (auth (set_active_account t b)))"
  then have m: "na \<in> set (fleet_agents (auth b))" by (simp add: set_active_account_def)
  obtain n x where "na = (n, x)" by (cases na)
  with m have x: "na = (n, x)" "(n, x) \<in> set (fleet_agents (auth b))" by simp_all
  then have "exclusive_pin_valid (auth b) (n, x)" using assms(1) by (auto simp: exclusive_pins_valid_def list_all_iff)
  moreover have "ag_exclusive x \<Longrightarrow> Some t \<noteq> ag_override x" using owner_NoneD [OF assms(2) x(2)] by metis
  ultimately show "exclusive_pin_valid (auth (set_active_account t b)) na"
    unfolding x(1) exclusive_pin_valid_def by (simp add: set_active_account_def)
qed

lemma set_active_ok: assumes "pins_ok D b" "exclusiveOwnerOf t b = None" shows "pins_ok D (set_active_account t b)"
proof -
  have e: "fleet_agents (auth (set_active_account t b)) = fleet_agents (auth b)" by (simp add: set_active_account_def)
  have "exclusive_pins_valid (auth (set_active_account t b))" using assms set_active_valid by (simp add: pins_ok_def)
  moreover have "agent_mirror (set_active_account t b) = agent_mirror b" "consumer_mirror (set_active_account t b) = consumer_mirror b"
      "pendings (set_active_account t b) = pendings b" by (simp_all add: set_active_account_def)
  ultimately show ?thesis using assms(1) by (simp add: pins_ok_def pins_same_owner [OF e] e)
qed

lemma set_active_owner: "exclusiveOwnerOf a (set_active_account t b) = exclusiveOwnerOf a b"
  by (simp add: set_active_account_def exclusiveOwnerOf_def)

lemma fold_agents_same: "(\<And>x b. fleet_agents (auth (f x b)) = fleet_agents (auth b)) \<Longrightarrow> fleet_agents (auth (fold f xs b)) = fleet_agents (auth b)"
  by (induction xs arbitrary: b) auto

lemma mirror_frame: "auth (mirrorAccountToAgent w a n b) = auth b" "auth (mirrorAccountToConsumer w a c b) = auth b"
  by (auto simp: mirrorAccountToAgent_def mirrorAccountToConsumer_def)

lemma fanout_failover_frame: "fleet_agents (auth (fanoutFailoverTo w label t b)) = fleet_agents (auth b)"
  by (auto simp: fanoutFailoverTo_def roll_agent_def mirror_frame intro!: fold_agents_same split: prod.split)

lemma fanout_consumers_frame: "fleet_agents (auth (fanoutToAffectedConsumers w label b)) = fleet_agents (auth b)"
proof -
  have "fleet_agents (auth (fanout_consumer w label c b')) = fleet_agents (auth b')" for c b'
  proof -
    obtain r b1 where r: "servingAccountForConsumer (cn_name c) b' = (r, b1)" by (metis surj_pair)
    have "auth b1 = auth b'" using consumer_same [of b' "cn_name c"] r by (simp add: pins_same_def)
    with r show ?thesis by (auto simp: fanout_consumer_def mirror_frame split: option.split)
  qed
  then show ?thesis unfolding fanoutToAffectedConsumers_def by (rule fold_agents_same)
qed

lemma rolled_ok:
  assumes "pins_ok D b" "\<And>t. target = Some t \<Longrightarrow> exclusiveOwnerOf t b = None"
  shows "pins_ok D (fanoutToAffectedConsumers w account (fanoutFailoverTo w account target b))"
    "target = Some t \<Longrightarrow> pins_ok D (set_active_account t (fanoutToAffectedConsumers w account (fanoutFailoverTo w account target b)))"
proof -
  show ok: "pins_ok D (fanoutToAffectedConsumers w account (fanoutFailoverTo w account target b))"
    by (intro fanout_consumers_ok fanout_failover_ok assms)
  let ?b = "fanoutToAffectedConsumers w account (fanoutFailoverTo w account target b)"
  have e: "fleet_agents (auth ?b) = fleet_agents (auth b)" by (simp add: fanout_consumers_frame fanout_failover_frame)
  show "target = Some t \<Longrightarrow> pins_ok D (set_active_account t ?b)"
    using set_active_ok [OF ok, of t] assms(2) [of t] pins_same_owner(1) [OF e, of t] by simp
qed

lemma roll_finish_ok:
  assumes "pins_ok D b" "\<And>t. target = Some t \<Longrightarrow> exclusiveOwnerOf t b = None"
  shows "pins_ok D (roll_finish w account target h b)"
proof -
  define b2 where "b2 = fanoutToAffectedConsumers w account (fanoutFailoverTo w account target b)"
  define b3 where "b3 = (if truthy target \<and> active_account (auth b2) = Some account \<and> exhaustionLiveCorroborated account b2
            then fanoutAllConsumers w (set_active_account (the target) b2) else b2)"
  have "pins_ok D b2" "\<And>t. target = Some t \<Longrightarrow> pins_ok D (set_active_account t b2)"
    unfolding b2_def using rolled_ok [OF assms] by blast+
  then have ok: "pins_ok D b3" by (auto simp: b3_def truthy_def intro: fanout_consumers_ok)
  have "pins_ok D (b3\<lparr>quota := q\<rparr>)" for q by (rule pins_ok_same [OF ok set_quota_same])
  with ok show ?thesis unfolding roll_finish_def Let_def b2_def [symmetric] b3_def [symmetric] by simp
qed

lemma premium_target_open: "nextPremiumEligibleAccount a b = Some t \<Longrightarrow> exclusiveOwnerOf t b = None"
proof -
  define el where "el = filter (\<lambda>cand. cand \<noteq> [] \<and> cand \<noteq> a \<and> \<not> isAccountExhausted cand b \<and> \<not> isAccountPremiumWalled cand b \<and>
            exclusiveOwnerOf cand b = None \<and> readable_creds cand b) (ring a (fallback_order (auth b)))"
  have "x \<in> set el \<Longrightarrow> exclusiveOwnerOf x b = None" for x by (simp add: el_def)
  moreover have "nextPremiumEligibleAccount a b = Some t \<Longrightarrow> t \<in> set el"
    unfolding nextPremiumEligibleAccount_def el_def [symmetric] Let_def
    by (auto simp: or_else_def split: list.splits option.splits dest: best_account_member)
  ultimately show "nextPremiumEligibleAccount a b = Some t \<Longrightarrow> ?thesis" by blast
qed

lemma premium_roll_ok: assumes "pins_ok D b" shows "pins_ok D (markPremiumWalledAndRoll w account until b)"
proof -
  have ok: "pins_ok D (write_premium_mark account until b)" by (rule pins_ok_same [OF assms quota_ops_same(4)])
  show ?thesis
    unfolding markPremiumWalledAndRoll_def Let_def
    using ok rolled_ok [OF ok, of "Some _"] premium_target_open
    by (auto split: option.split intro!: fanout_consumers_ok)
qed

lemma forget_ok: assumes "pins_ok D b" shows "pins_ok D (b\<lparr>softAvoidRolledTo := f\<rparr>)"
  by (rule pins_ok_same [OF assms]) (simp add: pins_same_def)

lemma avoided_ok: "pins_ok D b \<Longrightarrow> isAccountSoftAvoided a b = (r, b1) \<Longrightarrow> pins_ok D b1"
  using pins_ok_same [OF _ pins_same_soft [OF soft_only_avoided [of b a]]] by simp

lemma failover_open_ok:
  assumes "pins_ok D b" "accountWithFailover base None b = (r, b1)"
  shows "pins_ok D b1" "r = Some t \<Longrightarrow> exclusiveOwnerOf t b1 = None"
proof -
  have s: "soft_only b b1" using failover_soft [of b base None] assms(2) by simp
  show "pins_ok D b1" by (rule pins_ok_same [OF assms(1) pins_same_soft [OF s]])
  show "r = Some t \<Longrightarrow> exclusiveOwnerOf t b1 = None"
    using failover_servable [of base None b t] assms(2) soft_only_verdicts(2) [OF s] by (simp add: isServableBy_def)
qed

lemma soft_roll_ok: assumes "pins_ok D b" shows "pins_ok D (softAvoidProbeRoll w label b)"
proof -
  obtain av1 b1 where a1: "isAccountSoftAvoided label b = (av1, b1)" by (metis surj_pair)
  obtain r b2 where a2: "accountWithFailover (Some label) None b1 = (r, b2)" by (metis surj_pair)
  have ok1: "pins_ok D b1" by (rule avoided_ok [OF assms a1])
  have ok2: "pins_ok D b2" by (rule failover_open_ok [OF ok1 a2])
  have ok3: "pins_ok D b3" if "isAccountSoftAvoided t b2 = (av, b3)" for t av b3 by (rule avoided_ok [OF ok2 that])
  have rolled: "pins_ok D (fanoutToAffectedConsumers w label (fanoutFailoverTo w label (Some t) b'))" if "pins_ok D b'" for t b'
    by (intro fanout_consumers_ok fanout_failover_ok that)
  show ?thesis
    unfolding softAvoidProbeRoll_def Let_def a1
    using ok1 ok2 ok3 a2 by (auto simp: forget_ok rolled split: bool.split option.split prod.split)
qed

lemma fleet_act_ok: "pins_ok D b \<Longrightarrow> pins_ok D (fleetAct w label result tw b)"
  by (auto simp: fleetAct_def premium_roll_ok mark_begin_ok soft_roll_ok split: option.split)

lemma consumer_probed_ok: assumes "pins_ok D b" shows "pins_ok D (consumerProbed w label result b)"
proof -
  have ok: "pins_ok D (cacheQuotaSnapshot w label result b)" by (rule cache_ok [OF assms])
  have "pins_ok D (write_mark label u (cacheQuotaSnapshot w label result b))" for u by (rule pins_ok_same [OF ok quota_ops_same(3)])
  with ok show ?thesis by (auto simp: consumerProbed_def Let_def intro: fanout_consumers_ok split: option.split)
qed

lemma escalate_finish_ok: "pins_ok D b \<Longrightarrow> pins_ok D (escalate_finish w account h result b)"
  by (auto simp: escalate_finish_def Let_def cache_ok mark_begin_ok split: option.split)

lemma corroborate_finish_ok: assumes "pins_ok D b" shows "pins_ok D (corroborate_finish w account m u now result b)"
proof -
  have ok: "pins_ok D (cacheQuotaSnapshot w account result b)" by (rule cache_ok [OF assms])
  have "pins_ok D ((cacheQuotaSnapshot w account result b)\<lparr>quota := q\<rparr>)" for q by (rule pins_ok_same [OF ok set_quota_same])
  with ok assms show ?thesis by (auto simp: corroborate_finish_def Let_def split: option.split)
qed

lemma mark_throttled_ok: assumes "pins_ok D b" shows "pins_ok D (opMarkThrottled i until p b)"
proof -
  have e: "pins_ok D b' \<Longrightarrow> pins_ok D (escalate_begin a h b')" for a h b' by (rule pins_ok_same [OF _ quota_ops_same(6)])
  have "pins_ok D (snd (throttle_mark a until b))" for a by (rule pins_ok_same [OF assms quota_ops_same(5)])
  with assms e show ?thesis by (auto simp: opMarkThrottled_def split: prod.split) (metis snd_conv)+
qed

lemma mark_exhausted_ok: "pins_ok D b \<Longrightarrow> pins_ok D (opMarkExhausted i until b)"
  by (simp add: opMarkExhausted_def mark_begin_ok)

lemma op_set_active_ok: "pins_ok D b \<Longrightarrow> pins_ok D (opSetActive w i account b)"
  by (auto simp: opSetActive_def intro!: fanout_consumers_ok fanout_agents_ok set_active_ok)

lemma op_add_ok: assumes "pins_ok D b" shows "pins_ok D (opAddAccount w i label r v b)"
proof -
  have "pins_ok D (b\<lparr>cred_files := c, softAvoidState := s, softAvoidRolledTo := t\<rparr>)" for c s t
    by (rule pins_ok_same [OF assms]) (simp add: pins_same_def)
  with assms show ?thesis by (simp add: opAddAccount_def fanout_agents_ok)
qed

lemma op_rm_ok: assumes "pins_ok D b" shows "pins_ok D (opRmAccount i label b)"
  by (rule pins_ok_same [OF assms]) (auto simp: pins_same_def opRmAccount_def)

section \<open>Overrides\<close>

lemma find_override:
  "\<forall>(n, x) \<in> set xs. n = name \<longrightarrow> \<not> ag_exclusive x \<Longrightarrow>
   find (\<lambda>(n, x). ag_exclusive x \<and> ag_override x = Some a) (map (\<lambda>(n, x). (n, if n = name then x\<lparr>ag_override := account\<rparr> else x)) xs) =
   find (\<lambda>(n, x). ag_exclusive x \<and> ag_override x = Some a) xs"
  by (induction xs) (auto split: if_splits)

lemma agent_unique:
  "agent_auth_of name b = Some cur \<Longrightarrow> distinct (map fst (fleet_agents (auth b))) \<Longrightarrow>
   (name, y) \<in> set (fleet_agents (auth b)) \<longleftrightarrow> y = cur"
  unfolding agent_auth_of_def by (metis map_of_eq_Some_iff option.inject)

lemma override_owner:
  assumes "agent_auth_of name b = Some cur" "\<not> ag_exclusive cur" "distinct (map fst (fleet_agents (auth b)))"
  shows "exclusiveOwnerOf a (set_override name account b) = exclusiveOwnerOf a b"
proof -
  have "\<forall>(n, x) \<in> set (fleet_agents (auth b)). n = name \<longrightarrow> \<not> ag_exclusive x"
    using assms(2) agent_unique [OF assms(1,3)] by auto
  from find_override [OF this] show ?thesis by (simp add: exclusiveOwnerOf_def set_override_def)
qed

lemma override_agents:
  "(n, x) \<in> set (fleet_agents (auth (set_override name account b))) \<longleftrightarrow>
   (\<exists>y. (n, y) \<in> set (fleet_agents (auth b)) \<and> x = (if n = name then y\<lparr>ag_override := account\<rparr> else y))"
  by (force simp: set_override_def)

lemma override_frame:
  "active_account (auth (set_override name account b)) = active_account (auth b)"
  "fallback_order (auth (set_override name account b)) = fallback_order (auth b)"
  "consumers (auth (set_override name account b)) = consumers (auth b)"
  "map fst (fleet_agents (auth (set_override name account b))) = map fst (fleet_agents (auth b))"
  "agent_mirror (set_override name account b) = agent_mirror b" "consumer_mirror (set_override name account b) = consumer_mirror b"
  "pendings (set_override name account b) = pendings b"
  by (auto simp: set_override_def)

lemma override_valid:
  assumes "agent_auth_of name b = Some cur" "\<not> ag_exclusive cur" "distinct (map fst (fleet_agents (auth b)))"
    "exclusive_pins_valid (auth b)" "\<And>a. account = Some a \<Longrightarrow> exclusiveOwnerOf a b \<in> {None, Some name}"
  shows "exclusive_pins_valid (auth (set_override name account b))"
  unfolding exclusive_pins_valid_def list_all_iff
proof
  fix na assume m: "na \<in> set (fleet_agents (auth (set_override name account b)))"
  obtain n x where "na = (n, x)" by (cases na)
  note x = this m [unfolded this]
  have own: "y = cur" if "(name, y) \<in> set (fleet_agents (auth b))" for y using that agent_unique [OF assms(1,3)] by simp
  show "exclusive_pin_valid (auth (set_override name account b)) na"
  proof (cases "ag_exclusive x \<and> truthy (ag_override x)")
    case True
    then have ne: "n \<noteq> name" using x(2) own assms(2) by (auto simp: override_agents)
    with x(2) have y: "(n, x) \<in> set (fleet_agents (auth b))" by (auto simp: override_agents)
    then have v: "exclusive_pin_valid (auth b) (n, x)" using assms(4) by (auto simp: exclusive_pins_valid_def list_all_iff)
    have "account \<noteq> ag_override x"
    proof
      assume acc: "account = ag_override x"
      with True obtain a where a: "account = Some a" by (auto simp: truthy_def)
      with owner_NoneD [of a b, OF _ y] True acc have "exclusiveOwnerOf a b \<noteq> None" by auto
      with assms(5) [OF a] owner_SomeD [of a b name] own assms(2) show False by auto
    qed
    with v True have "\<forall>(o', oa) \<in> set (fleet_agents (auth (set_override name account b))). o' = n \<or> ag_override oa \<noteq> ag_override x"
      by (auto simp: exclusive_pin_valid_def list_all_iff override_agents split: if_splits)
    with v True x(1) show ?thesis by (auto simp: exclusive_pin_valid_def override_frame list_all_iff)
  qed (auto simp: x(1) exclusive_pin_valid_def)
qed

lemma override_same:
  assumes "agent_auth_of name b = Some cur" "distinct (map fst (fleet_agents (auth b)))"
  shows "set_override name (ag_override cur) b = b"
proof -
  have "map (\<lambda>(n, a). (n, if n = name then a\<lparr>ag_override := ag_override cur\<rparr> else a)) (fleet_agents (auth b)) = fleet_agents (auth b)"
    using agent_unique [OF assms] by (intro map_idI) auto
  then show ?thesis by (simp add: set_override_def)
qed

lemma override_hold:
  assumes "agent_auth_of name b = Some cur" "\<not> ag_exclusive cur" "\<not> ag_strict cur" "distinct (map fst (fleet_agents (auth b)))"
  shows "may_hold b n a \<Longrightarrow> may_hold (set_override name account b) n a"
proof -
  let ?b = "set_override name account b"
  have "map_of (map (\<lambda>(n, x). (n, if n = name then x\<lparr>ag_override := account\<rparr> else x)) xs) n =
      map_option (\<lambda>x. if n = name then x\<lparr>ag_override := account\<rparr> else x) (map_of xs n)" for xs :: "(string \<times> agent_auth) list"
    by (induction xs) auto
  then have g: "agent_auth_of n ?b = map_option (\<lambda>x. if n = name then x\<lparr>ag_override := account\<rparr> else x) (agent_auth_of n b)"
    by (simp add: agent_auth_of_def set_override_def)
  have "\<not> strict_agent n ?b" if "n = name" using g that assms(1,3) by (simp add: strict_agent_def)
  moreover have "strict_agent n ?b = strict_agent n b \<and> override_of n ?b = override_of n b" if "n \<noteq> name"
    using g that by (simp add: strict_agent_def override_of_def option.map_ident cong: option.case_cong)
  ultimately show "may_hold b n a \<Longrightarrow> may_hold ?b n a"
    unfolding may_hold_def isServableBy_def override_owner [OF assms(1,2,4)] by metis
qed

lemma set_override_ok:
  assumes "pins_ok D b" "agent_auth_of name b = Some cur" "\<And>a. account = Some a \<Longrightarrow> exclusiveOwnerOf a b \<in> {None, Some name}"
    "ag_strict cur \<or> ag_exclusive cur \<Longrightarrow> account = ag_override cur"
  shows "pins_ok D (set_override name account b)"
proof (cases "ag_strict cur \<or> ag_exclusive cur")
  case True
  then show ?thesis using assms override_same [of name b cur] by (simp add: pins_ok_def)
next
  case False
  have d: "distinct (map fst (fleet_agents (auth b)))" using assms(1) by (simp add: pins_ok_def)
  note own = override_owner [OF assms(2) _ d, of _ account]
  have "roll_target_open (set_override name account b) = roll_target_open b"
    using False own by (auto simp: roll_target_open_def fun_eq_iff split: pending.split option.split)
  moreover have "exclusive_pins_valid (auth (set_override name account b))"
    by (rule override_valid [OF assms(2) _ d _ assms(3)]) (use False assms(1) in \<open>auto simp: pins_ok_def\<close>)
  moreover have "may_hold b n a \<or> x \<Longrightarrow> may_hold (set_override name account b) n a \<or> x" for n a x
    using False override_hold [OF assms(2) _ _ d] by blast
  ultimately show ?thesis
    using assms(1) False own by (simp add: pins_ok_def override_frame)
qed

lemma op_set_override_ok: "pins_ok D b \<Longrightarrow> pins_ok D (opSetOverride w i name account b)"
  by (auto simp: opSetOverride_def intro!: fanout_agent_ok set_override_ok split: option.split)

section \<open>Continuations\<close>

lemma candidate_probed_ok: assumes "pins_ok D b" shows "pins_ok D (candidate_probed w k label result b)"
proof -
  have "pins_ok D (b\<lparr>pendings := (pendings b)[k := RollProbing account cs h]\<rparr>)" for account cs h
    by (rule pins_ok_replaced [OF assms]) (simp add: roll_target_open_def)
  with assms show ?thesis by (auto simp: candidate_probed_def fleet_probed_ok split: option.split pending.split)
qed

lemma select_target_ok: assumes "pins_ok D b" shows "pins_ok D (select_target k b)"
proof -
  have "pins_ok D (b1\<lparr>pendings := (pendings b1)[k := RollTo account target h]\<rparr>)"
    if r: "reselect account order b = (target, b1)" for account order target b1 h
  proof (rule pins_ok_replaced)
    show "pins_ok D b1" using pins_ok_same [OF assms pins_same_soft [OF reselect_soft [of b account order]]] r by simp
    show "roll_target_open b1 (RollTo account target h)"
      using reselect_open [of account order b] r by (auto simp: roll_target_open_def split: option.split)
  qed
  with assms show ?thesis by (auto simp: select_target_def split: option.split pending.split list.split prod.split)
qed

lemma drop_ok: "pins_ok D b \<Longrightarrow> pins_ok D (drop_pending k b)"
  by (rule pins_ok_same [OF _ quota_ops_same(8)])

lemma finish_roll_ok: assumes "pins_ok D b" shows "pins_ok D (finish_roll w k b)"
proof (cases "pending_at k b")
  case (Some p)
  then have "p \<in> set (pendings b)" by (auto simp: pending_at_def split: if_splits)
  then have o': "roll_target_open b p" using assms by (auto simp: pins_ok_def list_all_iff)
  have e: "fleet_agents (auth (drop_pending k b)) = fleet_agents (auth b)" by (simp add: drop_pending_def)
  have "exclusiveOwnerOf t (drop_pending k b) = None" if "p = RollTo account (Some t) h" for account t h
    using o' that pins_same_owner(1) [OF e, of t] by (simp add: roll_target_open_def)
  with drop_ok [OF assms, of k] assms Some show ?thesis
    by (auto simp: finish_roll_def split: pending.split intro!: roll_finish_ok)
qed (use assms in \<open>simp add: finish_roll_def\<close>)

lemma throttle_probed_ok: "pins_ok D b \<Longrightarrow> pins_ok D (throttle_probed w k result b)"
  by (auto simp: throttle_probed_def drop_ok escalate_finish_ok split: option.split pending.split)

lemma mark_probed_ok: "pins_ok D b \<Longrightarrow> pins_ok D (mark_probed w k result b)"
  by (auto simp: mark_probed_def drop_ok corroborate_finish_ok split: option.split pending.split)

lemma corroboration_due_ok: assumes "pins_ok D b" shows "pins_ok D (corroboration_due k b)"
proof -
  have "pins_ok D (b\<lparr>markCorroborations := xs\<rparr>)" for xs by (rule pins_ok_same [OF assms]) (simp add: pins_same_def)
  then have "pins_ok D (corroborate_begin a m (b\<lparr>markCorroborations := xs\<rparr>))" for a m xs
    by (rule pins_ok_same [OF _ quota_ops_same(7)])
  with assms show ?thesis by (auto simp: corroboration_due_def split: prod.split)
qed

lemma fanout_all_ok: "pins_ok D b \<Longrightarrow> pins_ok D (fanoutAll w b)"
  unfolding fanoutAll_def by (intro fanout_consumers_ok fold_ok) (auto intro: fanout_agent_ok)

lemma get_same: "pins_same b (snd (opGetCredentials i b))"
proof -
  have "pins_same b (snd (servingAccount i b))"
    by (auto simp: servingAccount_def split: auth_identity.split intro!: served_same pins_same_soft failover_soft)
  then show ?thesis by (auto simp: opGetCredentials_def split: prod.split option.split)
qed

lemma wait_ok: assumes "pins_ok D b" shows "pins_ok D (b\<lparr>auth_clock := t\<rparr>)"
  by (rule pins_ok_same [OF assms]) (simp add: pins_same_def)

fun is_reload :: "auth_event \<times> (string \<Rightarrow> bool) \<Rightarrow> bool" where
  "is_reload (Reload cfg, w) = True"
| "is_reload _ = False"

lemma auth_step_ok:
  assumes ok: "pins_ok D b" and "\<not> is_reload e" shows "pins_ok D (auth_step e b)"
proof -
  obtain ev w where e: "e = (ev, w)" by (cases e)
  show ?thesis
  proof (cases ev)
    case (GetCredentials i)
    then show ?thesis using pins_ok_same [OF ok get_same [of b i]] e by simp
  next
    case (TierMark label until)
    then show ?thesis using pins_ok_same [OF ok quota_ops_same(4)] e by simp
  qed (use assms e in \<open>simp_all add: mark_exhausted_ok mark_throttled_ok op_set_active_ok op_set_override_ok op_add_ok op_rm_ok
      fleet_probed_ok tier_probe_ok fleet_act_ok consumer_probed_ok fanout_consumers_ok fanout_agents_ok fanout_all_ok
      candidate_probed_ok select_target_ok finish_roll_ok throttle_probed_ok corroboration_due_ok mark_probed_ok wait_ok\<close>)
qed

text \<open>
  A reload finds no roll whose target is chosen: the continuation behind the choice runs in the microtask
  queue, before the next signal is handled. Its configuration passed the schema.
\<close>

definition target_open_to_choice :: "pending \<Rightarrow> bool" where
  "target_open_to_choice p \<longleftrightarrow> (case p of RollTo _ t _ \<Rightarrow> t = None | _ \<Rightarrow> True)"

fun reloads_fit :: "auth_broker \<Rightarrow> (auth_event \<times> (string \<Rightarrow> bool)) list \<Rightarrow> bool" where
  "reloads_fit b [] \<longleftrightarrow> True"
| "reloads_fit b (e # es) \<longleftrightarrow>
     (case fst e of
        Reload cfg \<Rightarrow> distinct (map fst (fleet_agents cfg)) \<and> exclusive_pins_valid cfg \<and> list_all target_open_to_choice (pendings b)
      | _ \<Rightarrow> True) \<and> reloads_fit (auth_step e b) es"

definition everything :: left_mirrors where
  "everything = (\<lambda>_ _. True, \<lambda>_ _. True)"

interpretation pins: event_system "restrict_step (\<lambda>e. \<not> is_reload e) auth_step" "pins_ok D" for D
  by unfold_locales (simp add: restrict_step_def auth_step_ok)

lemma reload_free_ok:
  assumes "pins_ok D b" "\<not> list_ex is_reload es" shows "pins_ok D (run auth_step b es)"
proof -
  have "run auth_step b es = run (restrict_step (\<lambda>e. \<not> is_reload e) auth_step) b es"
    using assms(2) by (induction es arbitrary: b) (simp_all add: restrict_step_def)
  then show ?thesis using pins.invar_run [OF assms(1)] by simp
qed

lemma applied_override:
  "auth (applyActiveOverride b) = auth b \<or>
   (\<exists>t. exclusiveOwnerOf t b = None \<and> auth (applyActiveOverride b) = (auth b)\<lparr>auth_block := True, active_account := Some t\<rparr>)"
  "agent_mirror (applyActiveOverride b) = agent_mirror b" "consumer_mirror (applyActiveOverride b) = consumer_mirror b"
  "pendings (applyActiveOverride b) = pendings b"
  by (auto simp: applyActiveOverride_def split: option.split)

lemma block_irrelevant: "exclusive_pin_valid (cfg\<lparr>auth_block := x, active_account := a\<rparr>) = exclusive_pin_valid (cfg\<lparr>active_account := a\<rparr>)"
  by (simp add: exclusive_pin_valid_def fun_eq_iff)

lemma reload_ok:
  assumes "distinct (map fst (fleet_agents cfg))" "exclusive_pins_valid cfg" "list_all target_open_to_choice (pendings b)"
  shows "pins_ok everything (reload_config cfg b)"
proof -
  let ?b = "b\<lparr>auth := cfg, yamlActive := active_account cfg\<rparr>"
  let ?r = "reload_config cfg b"
  note o' = applied_override [of ?b]
  have "exclusive_pins_valid ((auth ?b)\<lparr>auth_block := True, active_account := Some t\<rparr>)" if "exclusiveOwnerOf t ?b = None" for t
    using set_active_valid [of ?b t] that assms(2)
    by (simp add: set_active_account_def exclusive_pins_valid_def block_irrelevant)
  then have "exclusive_pins_valid (auth ?r)" "fleet_agents (auth ?r) = fleet_agents cfg"
    using o'(1) assms(2) unfolding reload_config_def by auto
  moreover have "roll_target_open ?r p" if "target_open_to_choice p" for p
    using that by (cases p) (auto simp: roll_target_open_def target_open_to_choice_def split: option.splits)
  then have "list_all (roll_target_open ?r) (pendings ?r)"
    using assms(3) o'(4) unfolding reload_config_def by (simp add: list_all_iff)
  ultimately show ?thesis using assms(1) by (simp add: pins_ok_def everything_def)
qed

lemma reloads_ok:
  "pins_ok everything b \<Longrightarrow> reloads_fit b es \<Longrightarrow> pins_ok everything (run auth_step b es)"
proof (induction es arbitrary: b)
  case (Cons e es)
  have "pins_ok everything (auth_step e b)"
  proof (cases "is_reload e")
    case True
    then obtain cfg w where "e = (Reload cfg, w)" by (cases e rule: is_reload.cases) auto
    with Cons.prems(2) show ?thesis by (simp add: reload_ok)
  next
    case False
    then show ?thesis using auth_step_ok Cons.prems(1) by simp
  qed
  with Cons show ?case by simp
qed simp

lemma get_may_hold:
  assumes "pins_ok D b" "fst (opGetCredentials (AgentId name admin) b) = Some account"
  shows "may_hold b name account"
  using assms served_may_hold [of D b name account]
  by (auto simp: opGetCredentials_def servingAccount_def split: prod.splits option.splits if_splits)

lemma get_consumer_open:
  "fst (opGetCredentials (ConsumerId name) b) = Some account \<Longrightarrow> exclusiveOwnerOf account b = None"
  using failover_servable [of "callerAccount (ConsumerId name) b" None b account]
  by (auto simp: opGetCredentials_def servingAccount_def isServableBy_def split: prod.splits option.splits if_splits)

text \<open>
  Claim C20: the pins of the configuration are never violated. From a configuration the schema accepts and any
  mirrors, whatever requests, probes, ticks, overrides, failed writes, interleavings of cut operations and reloads
  of acceptable configurations follow: the configuration in force stays acceptable to the schema, and every
  answer of \<open>get-credentials\<close> respects it, to an agent an account no other agent has reserved, and the pinned
  account itself for a strict agent, to a consumer an account nobody has reserved. From there on, up to the
  next reload, the same holds of every credential mirror, except that one which broke a pin at that moment,
  left by a reload or from before the start, may still be there unchanged.
\<close>

theorem pins_never_violated:
  assumes "distinct (map fst (fleet_agents (auth b)))" "exclusive_pins_valid (auth b)" "pendings b = []"
    "reloads_fit b es" "c = run auth_step b es" "\<not> list_ex is_reload later" "d = run auth_step c later"
  shows "exclusive_pins_valid (auth c) \<and>
    (\<forall>name admin account. fst (opGetCredentials (AgentId name admin) c) = Some account \<longrightarrow> may_hold c name account) \<and>
    (\<forall>name account. fst (opGetCredentials (ConsumerId name) c) = Some account \<longrightarrow> exclusiveOwnerOf account c = None) \<and>
    (\<forall>name account. agent_mirror d name = Some account \<longrightarrow>
       may_hold d name account \<or> (agent_mirror c name = Some account \<and> \<not> may_hold c name account)) \<and>
    (\<forall>name account. consumer_mirror d name = Some account \<longrightarrow>
       exclusiveOwnerOf account d = None \<or> (consumer_mirror c name = Some account \<and> exclusiveOwnerOf account c \<noteq> None))"
proof -
  have "pins_ok everything b" using assms(1-3) by (simp add: pins_ok_def everything_def)
  then have c: "pins_ok everything c" using reloads_ok assms(4,5) by blast
  define D :: left_mirrors where "D = (\<lambda>name account. agent_mirror c name = Some account \<and> \<not> may_hold c name account,
    \<lambda>name account. consumer_mirror c name = Some account \<and> exclusiveOwnerOf account c \<noteq> None)"
  have "pins_ok D c" using c by (auto simp: pins_ok_def D_def)
  then have "pins_ok D d" using reload_free_ok assms(6,7) by blast
  then show ?thesis using get_may_hold [OF c] get_consumer_open c unfolding pins_ok_def D_def by auto
qed

definition demo_events :: "(auth_event \<times> (string \<Rightarrow> bool)) list" where
  "demo_events = [(Booted, \<lambda>_. True), (MarkExhausted (AgentId ''p'' False) None, \<lambda>_. True), (CandidateProbed 0 ''b'' ProbeThrew, \<lambda>_. True),
     (SelectTarget 0, \<lambda>_. True), (FinishRoll 0, \<lambda>_. True)]"

lemma demo_run:
  "agent_mirror (run auth_step (run auth_step demo_auth [(Reload demo_config, \<lambda>_. True)]) demo_events) ''p'' = Some ''b''"
  "agent_mirror (run auth_step demo_auth [(Reload demo_config, \<lambda>_. True)]) ''p'' = None"
  by code_simp+

theorem pins_never_violated_witness:
  "may_hold (run auth_step (run auth_step demo_auth [(Reload demo_config, \<lambda>_. True)]) demo_events) ''p'' ''b'' \<and>
   agent_mirror (run auth_step (run auth_step demo_auth [(Reload demo_config, \<lambda>_. True)]) demo_events) ''p'' = Some ''b''"
proof -
  have "distinct (map fst (fleet_agents (auth demo_auth)))" "exclusive_pins_valid (auth demo_auth)" by code_simp+
  moreover have "pendings demo_auth = []" by (simp add: demo_auth_def)
  moreover have "reloads_fit demo_auth [(Reload demo_config, \<lambda>_. True)]" by code_simp
  moreover have "\<not> list_ex is_reload demo_events" by (simp add: demo_events_def)
  ultimately show ?thesis
    using pins_never_violated [of demo_auth "[(Reload demo_config, \<lambda>_. True)]" _ demo_events, OF _ _ _ _ refl _ refl] demo_run
    by (metis option.distinct(1))
qed

text \<open>
  A reload does not write the mirrors anew: an account that becomes exclusive stays in the mirror of another
  agent, and \<open>get-credentials\<close> no longer serves it there, until a fan-out happens to reach that agent.
\<close>

definition reserving_config :: auth_config where
  "reserving_config = demo_config\<lparr>active_account := Some ''b'', fallback_order := [''b''],
     fleet_agents := [(''p'', \<lparr>ag_override = None, ag_strict = False, ag_exclusive = False\<rparr>),
       (''s'', \<lparr>ag_override = Some ''a'', ag_strict = True, ag_exclusive = True\<rparr>)]\<rparr>"

lemma reload_leaves_mirror:
  "exclusive_pins_valid reserving_config"
  "agent_mirror (run auth_step demo_auth [(Booted, \<lambda>_. True), (Reload reserving_config, \<lambda>_. True)]) ''p'' = Some ''a''"
  "exclusiveOwnerOf ''a'' (run auth_step demo_auth [(Booted, \<lambda>_. True), (Reload reserving_config, \<lambda>_. True)]) = Some ''s''"
  "fst (opGetCredentials (AgentId ''p'' False) (run auth_step demo_auth [(Booted, \<lambda>_. True), (Reload reserving_config, \<lambda>_. True)])) = Some ''b''"
  by code_simp+

section \<open>Two shortcomings\<close>

text \<open>
  A mark on an account outside the fallback order: \<open>nextHealthyAccount\<close> returns the first entry of the order without
  a health check. Here that entry is walled and the second one is eligible, yet the selection of the roll
  ends with no target.
\<close>

definition measured_auth :: auth_broker where
  "measured_auth = demo_auth\<lparr>lastQuotaCache := [''a'' \<mapsto> snapshot_of (probe_at 100) 1000000, ''b'' \<mapsto> snapshot_of (probe_at 10) 1000000]\<rparr>"

lemma roll_misses_eligible:
  "accountEligibilityOf ''b'' measured_auth = Eligible"
  "unknown_candidates ''x'' (fallback_order (auth measured_auth)) measured_auth = []"
  "fst (cached_choice ''x'' (fallback_order (auth measured_auth)) measured_auth) = None"
  "fst (reselect ''x'' (fallback_order (auth measured_auth)) measured_auth) = None"
  by code_simp+

text \<open>
  A healthy probe that clears an exhaustion mark deletes the whole quota entry of the account, and with it the wall of
  its model tier and its throttle, of which the probe says nothing.
\<close>

definition walled_auth :: auth_broker where
  "walled_auth = demo_auth\<lparr>quota := [''a'' \<mapsto> empty_entry\<lparr>qe_exhausted_until := Some 9000000, qe_marked_at := Some 500000,
     qe_premium_walled_until := Some 9000000, qe_premium_marked_at := Some 900000, throttled_until := Some 1500000\<rparr>]\<rparr>"

lemma selfheal_drops_tier_wall:
  "isAccountPremiumWalled ''a'' walled_auth"
  "\<not> isAccountPremiumWalled ''a'' (fleetProbed (\<lambda>_. True) ''a'' (ProbeOk (probe_at 10)) walled_auth)"
  "Option.bind (quota (fleetProbed (\<lambda>_. True) ''a'' (ProbeOk (probe_at 10)) walled_auth) ''a'') throttled_until = None"
  by code_simp+

end
