(* ===== verification/Send_Gate.thy ===== *)
theory Send_Gate
  imports Prelude Complex_Main "HOL-Library.Option_ord"
begin

text \<open>
  The outbound send gate (\<open>telegram-plugin/send-gate.ts\<close>): token buckets with suppression windows, admission by priority
  class, and the serialised driver of each edited message. Every call is cut at its awaits: a waiting admission
  remembers when its nap ends and is resumed by an event, an admission that is decided waits for the event that
  continues it, a send for the event that settles it. Rates and token counts are rational, times are in
  milliseconds. The per-message states are objects that the map refers to by index, because a driver keeps
  its state after the map has dropped it. A payload is the hash the code compares.
\<close>

section \<open>Token buckets\<close>

record token_bucket =
  tb_capacity :: rat
  refillPerMs :: rat
  tokens :: rat
  lastRefillMs :: int
  tb_suppressedUntilMs :: int
  rampCapacity :: rat
  rampUntilMs :: int

definition new_bucket :: "rat \<Rightarrow> rat \<Rightarrow> int \<Rightarrow> (rat \<times> int) option \<Rightarrow> token_bucket" where
  "new_bucket cap rate now ramp =
     (let rc = (case ramp of None \<Rightarrow> cap | Some r \<Rightarrow> fst r);
          ru = (case ramp of None \<Rightarrow> 0 | Some r \<Rightarrow> snd r)
      in \<lparr>tb_capacity = cap, refillPerMs = rate, tokens = (if now < ru then rc else cap), lastRefillMs = now,
          tb_suppressedUntilMs = 0, rampCapacity = rc, rampUntilMs = ru\<rparr>)"

definition capAt :: "int \<Rightarrow> token_bucket \<Rightarrow> rat" where
  "capAt now b = (if now < rampUntilMs b then rampCapacity b else tb_capacity b)"

definition refill :: "int \<Rightarrow> token_bucket \<Rightarrow> token_bucket" where
  "refill now b =
     (if now \<le> lastRefillMs b then b
      else b\<lparr>tokens := min (capAt now b) (tokens b + of_int (now - lastRefillMs b) * refillPerMs b), lastRefillMs := now\<rparr>)"

definition suppressUntil :: "int \<Rightarrow> token_bucket \<Rightarrow> token_bucket" where
  "suppressUntil u b = (if tb_suppressedUntilMs b < u then b\<lparr>tb_suppressedUntilMs := u\<rparr> else b)"

definition windowRemainingMs :: "int \<Rightarrow> token_bucket \<Rightarrow> int" where
  "windowRemainingMs now b = (if now < tb_suppressedUntilMs b then tb_suppressedUntilMs b - now else 0)"

definition msUntilAvailable :: "int \<Rightarrow> token_bucket \<Rightarrow> int \<times> token_bucket" where
  "msUntilAvailable now b =
     (let b1 = refill now b;
          tokenWait = (if 1 \<le> tokens b1 then 0 else \<lceil>(1 - tokens b1) / refillPerMs b1\<rceil>)
      in (max (windowRemainingMs now b) tokenWait, b1))"

definition take_token :: "int \<Rightarrow> token_bucket \<Rightarrow> token_bucket" where
  "take_token now b = (let b1 = refill now b in b1\<lparr>tokens := tokens b1 - 1\<rparr>)"

section \<open>Configuration and calls\<close>

datatype ChatType = Private | Group | Supergroup | Channel

datatype PriorityClass = Cosmetic | Useful | Critical

fun PRIORITY_RANK :: "PriorityClass \<Rightarrow> nat" where
  "PRIORITY_RANK Cosmetic = 0"
| "PRIORITY_RANK Useful = 1"
| "PRIORITY_RANK Critical = 2"

definition maxPriority :: "PriorityClass \<Rightarrow> PriorityClass \<Rightarrow> PriorityClass" where
  "maxPriority a b = (if PRIORITY_RANK a < PRIORITY_RANK b then b else a)"

text \<open>\<open>editPayload\<close> is the hash of the payload, when the options carry one.\<close>

record SendGateOpts =
  chat_id :: "string option"
  chatType :: "ChatType option"
  messageId :: "int option"
  editPayload :: "string option"
  priorityClass :: "PriorityClass option"

record gate_config =
  enabled :: bool
  globalRate :: rat
  globalBurst :: rat
  perChatRate :: rat
  perChatBurst :: rat
  perGroupRate :: rat
  perGroupBurst :: rat
  editFloorMs :: int
  perMessageEditWindowMs :: int
  perMessageEditMaxPerWindow :: nat
  messageStateTtlMs :: int
  maxMessageStates :: nat
  usefulTtlMs :: int
  criticalFailFastMs :: int
  criticalJitterMaxMs :: int
  conservativeGlobalFloodScope :: bool
  bootRamp :: "(rat \<times> int) option"

text \<open>The defaults: 25 a second with burst 4, 1 a second with burst 3 per chat, 18 a minute with burst 2 per group.\<close>

definition SEND_GATE_DEFAULTS :: gate_config where
  "SEND_GATE_DEFAULTS = \<lparr>enabled = True, globalRate = 25 / 1000, globalBurst = 4, perChatRate = 1 / 1000, perChatBurst = 3,
     perGroupRate = 18 / 60000, perGroupBurst = 2, editFloorMs = 1500, perMessageEditWindowMs = 300000,
     perMessageEditMaxPerWindow = 150, messageStateTtlMs = 60000, maxMessageStates = 5000, usefulTtlMs = 120000,
     criticalFailFastMs = 60000, criticalJitterMaxMs = 250, conservativeGlobalFloodScope = False, bootRamp = None\<rparr>"

datatype scope = GlobalScope | ChatScope string | GroupScope string | MsgEditScope string

definition parse_scope :: "string \<Rightarrow> scope option" where
  "parse_scope k =
     (if k = ''global'' then Some GlobalScope
      else if startsWith k ''chat:'' then Some (ChatScope (drop 5 k))
      else if startsWith k ''group:'' then Some (GroupScope (drop 6 k))
      else if startsWith k ''msg-edit:'' then Some (MsgEditScope (drop 9 k))
      else None)"

definition scope_key :: "scope \<Rightarrow> string" where
  "scope_key s = (case s of GlobalScope \<Rightarrow> ''global'' | ChatScope c \<Rightarrow> ''chat:'' @ c | GroupScope c \<Rightarrow> ''group:'' @ c
     | MsgEditScope k \<Rightarrow> ''msg-edit:'' @ k)"

section \<open>State\<close>

text \<open>
  An admission in progress: waiting in \<open>admitLoop\<close> (with its deadline, whether it was counted as queued, and the end of
  its nap), queued behind another serialised critical, waiting out the jitter, waiting in \<open>admitCriticalLoop\<close>
  (serialised or not), decided, or past its admission with the send under way.
\<close>

datatype adm_outcome = Admitted | ShedOut | Expired | Interrupted | FailFast int

datatype adm =
    Looping "int option" bool (adm_wake: int)
  | InTail
  | Jittering (adm_wake: int)
  | CritLooping bool bool (adm_wake: int)
  | Decided adm_outcome
  | InFlight

datatype task = TCall nat | TEdit nat

record call =
  c_id :: nat
  c_opts :: SendGateOpts
  c_adm :: adm

record PendingEdit =
  pe_hash :: string
  pe_class :: PriorityClass
  pe_callers :: "nat list"

datatype driver = Idle | Floored int SendGateOpts | Driving PendingEdit SendGateOpts adm bool

record MessageEditState =
  lastSentMs :: "int option"
  lastHash :: "string option"
  pe_pending :: "PendingEdit option"
  me_driver :: driver
  suppressedUntilMs :: int
  editWindowTs :: "int list"

record BucketCounters =
  n_sent :: nat
  n_queued :: nat
  n_coalesced :: nat
  n_dropped :: nat
  n_shed :: nat
  n_expired :: nat
  n_failedFast :: nat
  n_budgetDeferred :: nat

datatype send_error = FloodWaitActive int | OtherError

datatype gate_result = Landed | NoOpDropped | ReleasedEarly | WasShed | WasExpired | Rejected send_error

text \<open>What happens to the edits of one state object.\<close>

datatype edit_note = Accepted string | Started string int | OnScreen string | Failed string | Skipped string

record send_gate =
  sg :: gate_config
  sg_now :: int
  buckets :: "scope \<Rightarrow> token_bucket option"
  perMessage :: "(string \<times> nat) list"
  objs :: "MessageEditState list"
  lastSweepMs :: int
  counters :: BucketCounters
  criticalTail :: "task list"
  calls :: "call list"
  admitted :: "(scope \<times> int) list"
  edit_log :: "(nat \<times> edit_note) list"
  windows_log :: "(string \<times> int) list"
  settled :: "(nat \<times> gate_result) list"

definition initial_gate :: "gate_config \<Rightarrow> int \<Rightarrow> send_gate" where
  "initial_gate cfg now =
     \<lparr>sg = cfg, sg_now = now,
      buckets = [GlobalScope \<mapsto> new_bucket (globalBurst cfg) (globalRate cfg) now
        (map_option (\<lambda>r. (max 1 (of_int \<lfloor>globalBurst cfg * fst r\<rfloor>), now + snd r)) (bootRamp cfg))],
      perMessage = [], objs = [], lastSweepMs = now,
      counters = \<lparr>n_sent = 0, n_queued = 0, n_coalesced = 0, n_dropped = 0, n_shed = 0, n_expired = 0, n_failedFast = 0, n_budgetDeferred = 0\<rparr>,
      criticalTail = [], calls = [], admitted = [], edit_log = [], windows_log = [], settled = []\<rparr>"

section \<open>Buckets of a call\<close>

definition present :: "string option \<Rightarrow> bool" where
  "present s \<longleftrightarrow> s \<noteq> None \<and> s \<noteq> Some []"

definition is_group :: "ChatType option \<Rightarrow> bool" where
  "is_group t \<longleftrightarrow> t = Some Group \<or> t = Some Supergroup"

definition scopes_of :: "SendGateOpts \<Rightarrow> scope list" where
  "scopes_of opts =
     (if present (chat_id opts)
      then [GlobalScope, ChatScope (the (chat_id opts))] @ (if is_group (chatType opts) then [GroupScope (the (chat_id opts))] else [])
      else [GlobalScope])"

definition fresh_bucket :: "gate_config \<Rightarrow> int \<Rightarrow> scope \<Rightarrow> token_bucket" where
  "fresh_bucket cfg now s =
     (case s of ChatScope _ \<Rightarrow> new_bucket (perChatBurst cfg) (perChatRate cfg) now None
      | GroupScope _ \<Rightarrow> new_bucket (perGroupBurst cfg) (perGroupRate cfg) now None
      | _ \<Rightarrow> new_bucket (globalBurst cfg) (globalRate cfg) now None)"

definition bucket_at :: "scope \<Rightarrow> send_gate \<Rightarrow> token_bucket" where
  "bucket_at s st = (case buckets st s of Some b \<Rightarrow> b | None \<Rightarrow> fresh_bucket (sg st) (sg_now st) s)"

definition set_bucket :: "scope \<Rightarrow> token_bucket \<Rightarrow> send_gate \<Rightarrow> send_gate" where
  "set_bucket s b st = st\<lparr>buckets := (buckets st)(s \<mapsto> b)\<rparr>"

text \<open>\<open>bucketsFor\<close>: the buckets of the call, created on first use.\<close>

definition ensure :: "scope \<Rightarrow> send_gate \<Rightarrow> send_gate" where
  "ensure s st = set_bucket s (bucket_at s st) st"

definition bucketsFor :: "SendGateOpts \<Rightarrow> send_gate \<Rightarrow> send_gate" where
  "bucketsFor opts st = fold ensure (scopes_of opts) st"

text \<open>The longest wait over the buckets (each is refilled on the way), and taking one token from each.\<close>

definition poll_one :: "scope \<Rightarrow> int \<times> send_gate \<Rightarrow> int \<times> send_gate" where
  "poll_one s ws = (case msUntilAvailable (sg_now (snd ws)) (bucket_at s (snd ws)) of
     (w, b) \<Rightarrow> (max (fst ws) w, set_bucket s b (snd ws)))"

definition poll :: "scope list \<Rightarrow> send_gate \<Rightarrow> int \<times> send_gate" where
  "poll scopes st = fold poll_one scopes (0, st)"

definition window_remaining :: "scope list \<Rightarrow> send_gate \<Rightarrow> int" where
  "window_remaining scopes st = fold (\<lambda>s r. max r (windowRemainingMs (sg_now st) (bucket_at s st))) scopes 0"

definition consume :: "scope \<Rightarrow> send_gate \<Rightarrow> send_gate" where
  "consume s st = (let st1 = set_bucket s (take_token (sg_now st) (bucket_at s st)) st in st1\<lparr>admitted := admitted st1 @ [(s, sg_now st)]\<rparr>)"

definition consume_all :: "scope list \<Rightarrow> send_gate \<Rightarrow> send_gate" where
  "consume_all scopes st = fold consume scopes st"

definition bump :: "(BucketCounters \<Rightarrow> BucketCounters) \<Rightarrow> send_gate \<Rightarrow> send_gate" where
  "bump f st = st\<lparr>counters := f (counters st)\<rparr>"

definition count_queued :: "bool \<Rightarrow> send_gate \<Rightarrow> send_gate" where
  "count_queued counted st = (if counted then st else bump (\<lambda>c. c\<lparr>n_queued := Suc (n_queued c)\<rparr>) st)"

section \<open>Admission\<close>

text \<open>One turn of the loop of \<open>admitLoop\<close>.\<close>

definition admit_iter :: "int option \<Rightarrow> bool \<Rightarrow> bool \<Rightarrow> scope list \<Rightarrow> send_gate \<Rightarrow> adm \<times> send_gate" where
  "admit_iter deadline fired counted scopes st =
     (if fired then (Decided Interrupted, st)
      else case poll scopes st of (wait, st1) \<Rightarrow>
        if wait \<le> 0 then (Decided Admitted, consume_all scopes st1)
        else (case deadline of
            Some d \<Rightarrow> if d < sg_now st + wait then (Decided Expired, st1)
              else (Looping deadline True (sg_now st + min wait (d - sg_now st)), count_queued counted st1)
          | None \<Rightarrow> (Looping None True (sg_now st + wait), count_queued counted st1)))"

text \<open>The serialised section is left as soon as its job is decided.\<close>

definition leave_tail :: "bool \<Rightarrow> task \<Rightarrow> send_gate \<Rightarrow> send_gate" where
  "leave_tail serialised t st = (if serialised then st\<lparr>criticalTail := remove1 t (criticalTail st)\<rparr> else st)"

text \<open>One turn of the loop of \<open>admitCriticalLoop\<close>.\<close>

definition crit_iter :: "task \<Rightarrow> bool \<Rightarrow> bool \<Rightarrow> scope list \<Rightarrow> send_gate \<Rightarrow> adm \<times> send_gate" where
  "crit_iter t serialised counted scopes st =
     (let remaining = window_remaining scopes st
      in case poll scopes st of (wait, st1) \<Rightarrow>
        if criticalFailFastMs (sg st) < remaining
        then (Decided (FailFast (sg_now st + remaining)), leave_tail serialised t st1)
        else if wait \<le> 0 then (Decided Admitted, leave_tail serialised t (consume_all scopes st1))
        else (CritLooping serialised True (sg_now st + wait), count_queued counted st1))"

definition admitPriority :: "task \<Rightarrow> scope list \<Rightarrow> PriorityClass \<Rightarrow> send_gate \<Rightarrow> adm \<times> send_gate" where
  "admitPriority t scopes priority st =
     (case priority of
        Cosmetic \<Rightarrow> (case poll scopes st of (wait, st1) \<Rightarrow>
          if 0 < wait then (Decided ShedOut, st1) else (Decided Admitted, consume_all scopes st1))
      | Critical \<Rightarrow>
          let remaining = window_remaining scopes st
          in if criticalFailFastMs (sg st) < remaining then (Decided (FailFast (sg_now st + remaining)), st)
             else if 0 < remaining then (InTail, st\<lparr>criticalTail := criticalTail st @ [t]\<rparr>)
             else crit_iter t False False scopes st
      | Useful \<Rightarrow> admit_iter (Some (sg_now st + usefulTtlMs (sg st))) False False scopes st)"

text \<open>Resuming an admission: its nap is over, an interrupt fired, or its turn in the serialised section has come.\<close>

definition jitter_ms :: "int \<Rightarrow> send_gate \<Rightarrow> int" where
  "jitter_ms j st = max 0 (min j (criticalJitterMaxMs (sg st)))"

definition resume_adm :: "task \<Rightarrow> int \<Rightarrow> bool \<Rightarrow> scope list \<Rightarrow> adm \<Rightarrow> send_gate \<Rightarrow> adm \<times> send_gate" where
  "resume_adm t j fired scopes a st =
     (case a of
        Looping deadline counted wake \<Rightarrow>
          if fired \<or> wake \<le> sg_now st then admit_iter deadline fired counted scopes st else (a, st)
      | InTail \<Rightarrow>
          if criticalTail st = [] \<or> hd (criticalTail st) \<noteq> t then (a, st)
          else if 0 < jitter_ms j st then (Jittering (sg_now st + jitter_ms j st), st)
          else crit_iter t True False scopes st
      | Jittering wake \<Rightarrow> if wake \<le> sg_now st then crit_iter t True False scopes st else (a, st)
      | CritLooping serialised counted wake \<Rightarrow>
          if wake \<le> sg_now st then crit_iter t serialised counted scopes st else (a, st)
      | Decided _ \<Rightarrow> (a, st)
      | InFlight \<Rightarrow> (a, st))"

section \<open>Message states and flood windows\<close>

definition messageKey :: "string option \<Rightarrow> int \<Rightarrow> string" where
  "messageKey chat mid = (case chat of None \<Rightarrow> [] | Some c \<Rightarrow> c) @ '':'' @ show_int mid"

definition fresh_state :: MessageEditState where
  "fresh_state = \<lparr>lastSentMs = None, lastHash = None, pe_pending = None, me_driver = Idle, suppressedUntilMs = 0, editWindowTs = []\<rparr>"

definition isEvictable :: "int \<Rightarrow> MessageEditState \<Rightarrow> bool" where
  "isEvictable now s \<longleftrightarrow> pe_pending s = None \<and> me_driver s = Idle \<and> suppressedUntilMs s \<le> now"

text \<open>The map keeps insertion order; \<open>lastSentMs\<close> is negative infinity before the first send.\<close>

definition lru_victims :: "nat \<Rightarrow> send_gate \<Rightarrow> string list" where
  "lru_victims target st =
     take (length (perMessage st) - target)
       (map fst (sort_key (\<lambda>(k, i). lastSentMs (objs st ! i)) (filter (\<lambda>(k, i). isEvictable (sg_now st) (objs st ! i)) (perMessage st))))"

definition idle_expired :: "int \<Rightarrow> int \<Rightarrow> MessageEditState \<Rightarrow> bool" where
  "idle_expired ttl now s \<longleftrightarrow> isEvictable now s \<and> (case lastSentMs s of None \<Rightarrow> True | Some t \<Rightarrow> ttl < now - t)"

definition maybeEvict :: "bool \<Rightarrow> send_gate \<Rightarrow> send_gate" where
  "maybeEvict reserving st =
     (let target = maxMessageStates (sg st) - (if reserving then 1 else 0);
          st1 = st\<lparr>perMessage := filter (\<lambda>(k, _). k \<notin> set (lru_victims target st)) (perMessage st)\<rparr>
      in if messageStateTtlMs (sg st) \<le> sg_now st - lastSweepMs st
         then st1\<lparr>lastSweepMs := sg_now st,
           perMessage := filter (\<lambda>(k, i). \<not> idle_expired (messageStateTtlMs (sg st)) (sg_now st) (objs st ! i)) (perMessage st1)\<rparr>
         else st1)"

text \<open>\<open>existing ?? messageState(key)\<close>: the object looked up before the eviction, else the one in the map now, else a new one.\<close>

definition messageState :: "string \<Rightarrow> send_gate \<Rightarrow> nat \<times> send_gate" where
  "messageState key st =
     (case map_of (perMessage st) key of
        Some i \<Rightarrow> (i, st)
      | None \<Rightarrow> (length (objs st), st\<lparr>objs := objs st @ [fresh_state], perMessage := perMessage st @ [(key, length (objs st))]\<rparr>))"

definition state_for :: "string \<Rightarrow> send_gate \<Rightarrow> nat \<times> send_gate" where
  "state_for key st =
     (let existing = map_of (perMessage st) key;
          st1 = maybeEvict (existing = None) st
      in case existing of Some i \<Rightarrow> (i, st1) | None \<Rightarrow> messageState key st1)"

definition upd_obj :: "nat \<Rightarrow> (MessageEditState \<Rightarrow> MessageEditState) \<Rightarrow> send_gate \<Rightarrow> send_gate" where
  "upd_obj i f st = st\<lparr>objs := (objs st)[i := f (objs st ! i)]\<rparr>"

definition suppress_bucket :: "scope \<Rightarrow> int \<Rightarrow> send_gate \<Rightarrow> send_gate" where
  "suppress_bucket s u st = set_bucket s (suppressUntil u (bucket_at s st)) st"

text \<open>\<open>persist\<close>: the write-through hook is called; a hook that throws changes nothing here.\<close>

definition applyWindow :: "bool \<Rightarrow> int \<Rightarrow> string \<Rightarrow> send_gate \<Rightarrow> send_gate" where
  "applyWindow persist u k st0 =
     (let st = (if persist then st0\<lparr>windows_log := windows_log st0 @ [(k, u)]\<rparr> else st0)
      in case parse_scope k of
           None \<Rightarrow> st
         | Some (MsgEditScope key) \<Rightarrow>
             (if key = [] then st
              else case state_for key st of (i, st1) \<Rightarrow>
                upd_obj i (\<lambda>m. if suppressedUntilMs m < u then m\<lparr>suppressedUntilMs := u\<rparr> else m) st1)
         | Some s \<Rightarrow> suppress_bucket s u st)"

definition openFloodWindow :: "string \<Rightarrow> int \<Rightarrow> send_gate \<Rightarrow> send_gate" where
  "openFloodWindow k u st = (if enabled (sg st) then applyWindow True u k st else st)"

text \<open>The windows a flood answer to a call opens.\<close>

definition flood_scopes :: "bool \<Rightarrow> SendGateOpts \<Rightarrow> scope list" where
  "flood_scopes conservative opts =
     (if \<not> present (chat_id opts) \<or> conservative then [GlobalScope] else []) @
     (if present (chat_id opts) then ChatScope (the (chat_id opts)) # (if is_group (chatType opts) then [GroupScope (the (chat_id opts))] else []) else []) @
     (case messageId opts of None \<Rightarrow> [] | Some m \<Rightarrow> [MsgEditScope (messageKey (chat_id opts) m)])"

definition openScopedWindowsForOpts :: "SendGateOpts \<Rightarrow> int \<Rightarrow> send_gate \<Rightarrow> send_gate" where
  "openScopedWindowsForOpts opts u st =
     fold (\<lambda>s. applyWindow True u (scope_key s)) (flood_scopes (conservativeGlobalFloodScope (sg st)) opts) st"

definition openScopedFloodWindows :: "SendGateOpts \<Rightarrow> int \<Rightarrow> send_gate \<Rightarrow> send_gate" where
  "openScopedFloodWindows opts u st = (if enabled (sg st) then openScopedWindowsForOpts opts u st else st)"

text \<open>The windows read from disk at boot are applied without being written again.\<close>

definition createSendGate :: "gate_config \<Rightarrow> int \<Rightarrow> (string \<times> int) list \<Rightarrow> send_gate" where
  "createSendGate cfg now windows =
     fold (\<lambda>(k, u). applyWindow False u k) windows (initial_gate cfg now)"

section \<open>The driver of a message\<close>

definition set_driver :: "nat \<Rightarrow> driver \<Rightarrow> send_gate \<Rightarrow> send_gate" where
  "set_driver i d st = upd_obj i (\<lambda>m. m\<lparr>me_driver := d\<rparr>) st"

definition note_edit :: "nat \<Rightarrow> edit_note \<Rightarrow> send_gate \<Rightarrow> send_gate" where
  "note_edit i n st = st\<lparr>edit_log := edit_log st @ [(i, n)]\<rparr>"

definition settle_callers :: "nat list \<Rightarrow> gate_result \<Rightarrow> send_gate \<Rightarrow> send_gate" where
  "settle_callers ids r st = st\<lparr>settled := settled st @ map (\<lambda>c. (c, r)) ids\<rparr>"

definition budgeted :: "gate_config \<Rightarrow> PendingEdit \<Rightarrow> bool" where
  "budgeted cfg p \<longleftrightarrow> 0 < perMessageEditMaxPerWindow cfg \<and> pe_class p = Cosmetic"

definition prune_window :: "gate_config \<Rightarrow> int \<Rightarrow> int list \<Rightarrow> int list" where
  "prune_window cfg now ts = dropWhile (\<lambda>t. t \<le> now - perMessageEditWindowMs cfg) ts"

definition floor_ready :: "gate_config \<Rightarrow> MessageEditState \<Rightarrow> int" where
  "floor_ready cfg m = (case lastSentMs m of None \<Rightarrow> suppressedUntilMs m | Some t \<Rightarrow> max (t + editFloorMs cfg) (suppressedUntilMs m))"

text \<open>When the rolling budget is full: the time its oldest send ages out, if that is later than the floor.\<close>

definition budget_ready :: "gate_config \<Rightarrow> PendingEdit \<Rightarrow> MessageEditState \<Rightarrow> int list \<Rightarrow> int option" where
  "budget_ready cfg p m ts =
     (if budgeted cfg p \<and> perMessageEditMaxPerWindow cfg \<le> length ts \<and> floor_ready cfg m < hd ts + perMessageEditWindowMs cfg
      then Some (hd ts + perMessageEditWindowMs cfg) else None)"

definition start_admission :: "nat \<Rightarrow> PendingEdit \<Rightarrow> SendGateOpts \<Rightarrow> send_gate \<Rightarrow> send_gate" where
  "start_admission i p opts st =
     (case (if pe_class p = Critical then admitPriority (TEdit i) (scopes_of opts) Critical (bucketsFor opts st)
            else admit_iter None False False (scopes_of opts) (bucketsFor opts st)) of
        (a, st1) \<Rightarrow> set_driver i (Driving p opts a False) st1)"

definition turn_times :: "send_gate \<Rightarrow> PendingEdit \<Rightarrow> MessageEditState \<Rightarrow> int list" where
  "turn_times st p m = (if budgeted (sg st) p then prune_window (sg st) (sg_now st) (editWindowTs m) else editWindowTs m)"

definition ready_at :: "send_gate \<Rightarrow> PendingEdit \<Rightarrow> MessageEditState \<Rightarrow> int" where
  "ready_at st p m = (case budget_ready (sg st) p m (turn_times st p m) of None \<Rightarrow> floor_ready (sg st) m | Some r \<Rightarrow> r)"

text \<open>The window is pruned and a deferral counted; the edit is taken; an edit that is on screen already is dropped.\<close>

definition begin_turn :: "nat \<Rightarrow> PendingEdit \<Rightarrow> send_gate \<Rightarrow> send_gate" where
  "begin_turn i p st =
     (let m = objs st ! i; st1 = upd_obj i (\<lambda>m. m\<lparr>editWindowTs := turn_times st p m\<rparr>) st
      in if budget_ready (sg st) p m (turn_times st p m) = None then st1
         else bump (\<lambda>c. c\<lparr>n_budgetDeferred := Suc (n_budgetDeferred c)\<rparr>) st1)"

definition take_pending :: "nat \<Rightarrow> send_gate \<Rightarrow> send_gate" where
  "take_pending i st = upd_obj i (\<lambda>m. m\<lparr>pe_pending := None\<rparr>) st"

definition skip_edit :: "nat \<Rightarrow> PendingEdit \<Rightarrow> send_gate \<Rightarrow> send_gate" where
  "skip_edit i p st = set_driver i Idle (note_edit i (Skipped (pe_hash p)) (settle_callers (pe_callers p) NoOpDropped
     (bump (\<lambda>c. c\<lparr>n_dropped := Suc (n_dropped c)\<rparr>) st)))"

text \<open>One turn of the loop of \<open>drive\<close>, up to its next \<open>await\<close> or its end.\<close>

definition drive_turn :: "nat \<Rightarrow> SendGateOpts \<Rightarrow> send_gate \<Rightarrow> send_gate" where
  "drive_turn i opts st =
     (let m = objs st ! i
      in case pe_pending m of
           None \<Rightarrow> set_driver i Idle st
         | Some p \<Rightarrow>
             if sg_now st < ready_at st p m then set_driver i (Floored (ready_at st p m) opts) (begin_turn i p st)
             else if lastHash m = Some (pe_hash p) then skip_edit i p (take_pending i (begin_turn i p st))
             else start_admission i p opts (take_pending i (begin_turn i p st)))"

definition supersede :: "nat \<Rightarrow> PendingEdit \<Rightarrow> send_gate \<Rightarrow> send_gate" where
  "supersede i p st = upd_obj i (\<lambda>m. m\<lparr>pe_pending := Some (case pe_pending m of
       None \<Rightarrow> p
     | Some n \<Rightarrow> n\<lparr>pe_class := maxPriority (pe_class n) (pe_class p), pe_callers := pe_callers n @ pe_callers p\<rparr>)\<rparr>) st"

text \<open>The send starts: the floor and the rolling budget are measured from here.\<close>

definition start_send :: "nat \<Rightarrow> PendingEdit \<Rightarrow> SendGateOpts \<Rightarrow> send_gate \<Rightarrow> send_gate" where
  "start_send i p opts st =
     note_edit i (Started (pe_hash p) (sg_now st)) (upd_obj i (\<lambda>m. m\<lparr>lastSentMs := Some (sg_now st),
       editWindowTs := (if budgeted (sg st) p
         then (let ts = editWindowTs m @ [sg_now st] in drop (length ts - Suc (perMessageEditMaxPerWindow (sg st))) ts)
         else editWindowTs m),
       me_driver := Driving p opts InFlight False\<rparr>) st)"

definition proceed_edit :: "nat \<Rightarrow> send_gate \<Rightarrow> send_gate" where
  "proceed_edit i st =
     (if length (objs st) \<le> i then st
      else case me_driver (objs st ! i) of
        Driving p opts (Decided out) fired \<Rightarrow>
          (case out of
             Admitted \<Rightarrow> start_send i p opts st
           | FailFast u \<Rightarrow> drive_turn i opts (note_edit i (Failed (pe_hash p)) (settle_callers (pe_callers p) (Rejected (FloodWaitActive u))
               (openScopedWindowsForOpts opts u (bump (\<lambda>c. c\<lparr>n_failedFast := Suc (n_failedFast c)\<rparr>) st))))
           | _ \<Rightarrow> drive_turn i opts (supersede i p st))
      | _ \<Rightarrow> st)"

definition settle_edit :: "nat \<Rightarrow> send_error option \<Rightarrow> send_gate \<Rightarrow> send_gate" where
  "settle_edit i err st =
     (if length (objs st) \<le> i then st
      else case me_driver (objs st ! i) of
        Driving p opts InFlight fired \<Rightarrow>
          (case err of
             None \<Rightarrow> drive_turn i opts (note_edit i (OnScreen (pe_hash p)) (settle_callers (pe_callers p) Landed
               (bump (\<lambda>c. c\<lparr>n_sent := Suc (n_sent c)\<rparr>) (upd_obj i (\<lambda>m. m\<lparr>lastHash := Some (pe_hash p)\<rparr>) st))))
           | Some e \<Rightarrow> drive_turn i opts (note_edit i (Failed (pe_hash p)) (settle_callers (pe_callers p) (Rejected e)
               (case e of FloodWaitActive u \<Rightarrow> openScopedWindowsForOpts opts u st | OtherError \<Rightarrow> st))))
      | _ \<Rightarrow> st)"

section \<open>Submitting an edit\<close>

fun pressure_scan :: "scope list \<Rightarrow> send_gate \<Rightarrow> bool \<times> send_gate" where
  "pressure_scan [] st = (False, st)"
| "pressure_scan (s # ss) st =
     (case msUntilAvailable (sg_now st) (bucket_at s st) of
        (w, b) \<Rightarrow> if 0 < w then (True, set_bucket s b st) else pressure_scan ss (set_bucket s b st))"

definition editUnderPressure :: "nat \<Rightarrow> SendGateOpts \<Rightarrow> send_gate \<Rightarrow> bool \<times> send_gate" where
  "editUnderPressure i opts st =
     (if sg_now st < suppressedUntilMs (objs st ! i) then (True, st) else pressure_scan (scopes_of opts) (bucketsFor opts st))"

definition drop_caller :: "nat \<Rightarrow> PendingEdit \<Rightarrow> PendingEdit" where
  "drop_caller c p = p\<lparr>pe_callers := removeAll c (pe_callers p)\<rparr>"

definition release_caller :: "nat \<Rightarrow> nat \<Rightarrow> send_gate \<Rightarrow> send_gate" where
  "release_caller c i st = settle_callers [c] ReleasedEarly (upd_obj i (\<lambda>m. m\<lparr>pe_pending := map_option (drop_caller c) (pe_pending m),
     me_driver := (case me_driver m of Driving p o' a f \<Rightarrow> Driving (drop_caller c p) o' a f | d \<Rightarrow> d)\<rparr>) st)"

text \<open>The caller's id is among the edit's callers already; a cosmetic edit under pressure releases it at once.\<close>

definition settleForCaller :: "nat \<Rightarrow> nat \<Rightarrow> PriorityClass \<Rightarrow> SendGateOpts \<Rightarrow> send_gate \<Rightarrow> send_gate" where
  "settleForCaller c i priority opts st =
     (if priority \<noteq> Cosmetic then st
      else case editUnderPressure i opts st of (pressed, st1) \<Rightarrow> if pressed then release_caller c i st1 else st1)"

definition criticalWake :: "nat \<Rightarrow> send_gate \<Rightarrow> send_gate" where
  "criticalWake i st = upd_obj i (\<lambda>m. m\<lparr>me_driver := (case me_driver m of
       Driving p o' a f \<Rightarrow> Driving p o' a (f \<or> (pe_class p \<noteq> Critical \<and> a \<noteq> InFlight))
     | d \<Rightarrow> d)\<rparr>) st"

definition coalesce :: "nat \<Rightarrow> string \<Rightarrow> PriorityClass \<Rightarrow> PendingEdit \<Rightarrow> PendingEdit" where
  "coalesce c hash prio q = q\<lparr>pe_hash := hash, pe_class := maxPriority (pe_class q) prio, pe_callers := pe_callers q @ [c]\<rparr>"

definition edit_priority :: "SendGateOpts \<Rightarrow> PriorityClass" where
  "edit_priority opts = (case priorityClass opts of None \<Rightarrow> Useful | Some p \<Rightarrow> p)"

definition handleEdit :: "nat \<Rightarrow> int \<Rightarrow> string \<Rightarrow> SendGateOpts \<Rightarrow> send_gate \<Rightarrow> send_gate" where
  "handleEdit c mid hash opts st =
     (let prio = edit_priority opts
      in case state_for (messageKey (chat_id opts) mid) st of
        (i, st1) \<Rightarrow>
          (case pe_pending (objs st1 ! i) of
             Some q \<Rightarrow>
               let q' = coalesce c hash prio q;
                   st2 = upd_obj i (\<lambda>m. m\<lparr>pe_pending := Some q'\<rparr>) st1;
                   st3 = (if pe_hash q = hash then st2
                     else note_edit i (Accepted hash) (bump (\<lambda>k. k\<lparr>n_coalesced := Suc (n_coalesced k)\<rparr>) st2));
                   st4 = (if pe_class q' = Critical then criticalWake i st3 else st3)
               in settleForCaller c i prio opts st4
           | None \<Rightarrow>
               if lastHash (objs st1 ! i) = Some hash
               then settle_callers [c] NoOpDropped (bump (\<lambda>k. k\<lparr>n_dropped := Suc (n_dropped k)\<rparr>) st1)
               else let st2 = note_edit i (Accepted hash)
                          (upd_obj i (\<lambda>m. m\<lparr>pe_pending := Some \<lparr>pe_hash = hash, pe_class = prio, pe_callers = [c]\<rparr>\<rparr>) st1);
                        st3 = (if me_driver (objs st1 ! i) = Idle then drive_turn i opts st2
                          else if prio = Critical then criticalWake i st2 else st2)
                    in settleForCaller c i prio opts st3))"

section \<open>Calls and events\<close>

definition UNTAGGED_SEND_CLASS :: PriorityClass where "UNTAGGED_SEND_CLASS = Critical"

definition gate :: "nat \<Rightarrow> SendGateOpts \<Rightarrow> send_gate \<Rightarrow> send_gate" where
  "gate c opts st =
     (if \<not> enabled (sg st) then st
      else case (messageId opts, editPayload opts) of
        (Some mid, Some hash) \<Rightarrow> handleEdit c mid hash opts st
      | _ \<Rightarrow> (case admitPriority (TCall c) (scopes_of opts) (case priorityClass opts of None \<Rightarrow> UNTAGGED_SEND_CLASS | Some p \<Rightarrow> p)
            (bucketsFor opts st) of
          (a, st1) \<Rightarrow> st1\<lparr>calls := calls st1 @ [\<lparr>c_id = c, c_opts = opts, c_adm = a\<rparr>]\<rparr>))"

definition find_call :: "nat \<Rightarrow> send_gate \<Rightarrow> call option" where
  "find_call c st = find (\<lambda>x. c_id x = c) (calls st)"

definition drop_call :: "nat \<Rightarrow> gate_result \<Rightarrow> send_gate \<Rightarrow> send_gate" where
  "drop_call c r st = settle_callers [c] r (st\<lparr>calls := filter (\<lambda>x. c_id x \<noteq> c) (calls st)\<rparr>)"

definition set_adm :: "nat \<Rightarrow> adm \<Rightarrow> send_gate \<Rightarrow> send_gate" where
  "set_adm c a st = st\<lparr>calls := map (\<lambda>x. if c_id x = c then x\<lparr>c_adm := a\<rparr> else x) (calls st)\<rparr>"

definition proceed_call :: "nat \<Rightarrow> send_gate \<Rightarrow> send_gate" where
  "proceed_call c st =
     (case find_call c st of None \<Rightarrow> st
      | Some x \<Rightarrow> (case c_adm x of
          Decided out \<Rightarrow> (case out of
              Admitted \<Rightarrow> set_adm c InFlight st
            | ShedOut \<Rightarrow> drop_call c WasShed (bump (\<lambda>k. k\<lparr>n_shed := Suc (n_shed k)\<rparr>) st)
            | FailFast u \<Rightarrow> drop_call c (Rejected (FloodWaitActive u))
                (openScopedWindowsForOpts (c_opts x) u (bump (\<lambda>k. k\<lparr>n_failedFast := Suc (n_failedFast k)\<rparr>) st))
            | _ \<Rightarrow> drop_call c WasExpired (bump (\<lambda>k. k\<lparr>n_expired := Suc (n_expired k)\<rparr>) st))
        | _ \<Rightarrow> st))"

definition settle_call :: "nat \<Rightarrow> send_error option \<Rightarrow> send_gate \<Rightarrow> send_gate" where
  "settle_call c err st =
     (case find_call c st of None \<Rightarrow> st
      | Some x \<Rightarrow>
          if c_adm x \<noteq> InFlight then st
          else (case err of
              None \<Rightarrow> drop_call c Landed (bump (\<lambda>k. k\<lparr>n_sent := Suc (n_sent k)\<rparr>) st)
            | Some e \<Rightarrow> drop_call c (Rejected e)
                (case e of FloodWaitActive u \<Rightarrow> openScopedWindowsForOpts (c_opts x) u st | OtherError \<Rightarrow> st)))"

definition resume_call :: "nat \<Rightarrow> int \<Rightarrow> send_gate \<Rightarrow> send_gate" where
  "resume_call c j st =
     (case find_call c st of None \<Rightarrow> st
      | Some x \<Rightarrow> (case resume_adm (TCall c) j False (scopes_of (c_opts x)) (c_adm x) st of (a, st1) \<Rightarrow> set_adm c a st1))"

definition resume_edit :: "nat \<Rightarrow> int \<Rightarrow> send_gate \<Rightarrow> send_gate" where
  "resume_edit i j st =
     (if length (objs st) \<le> i then st
      else case me_driver (objs st ! i) of
        Floored wake opts \<Rightarrow> if wake \<le> sg_now st then drive_turn i opts st else st
      | Driving p opts a fired \<Rightarrow> (case resume_adm (TEdit i) j fired (scopes_of opts) a st of (a', st1) \<Rightarrow> set_driver i (Driving p opts a' fired) st1)
      | Idle \<Rightarrow> st)"

datatype gate_event =
    Gate nat SendGateOpts
  | Resume task int
  | Continue task
  | Settle task "send_error option"
  | OpenWindow string int
  | OpenScoped SendGateOpts int
  | Tick nat

fun gate_step :: "gate_event \<Rightarrow> send_gate \<Rightarrow> send_gate" where
  "gate_step (Gate c opts) st = gate c opts st"
| "gate_step (Resume (TCall c) j) st = resume_call c j st"
| "gate_step (Resume (TEdit i) j) st = resume_edit i j st"
| "gate_step (Continue (TCall c)) st = proceed_call c st"
| "gate_step (Continue (TEdit i)) st = proceed_edit i st"
| "gate_step (Settle (TCall c) err) st = settle_call c err st"
| "gate_step (Settle (TEdit i) err) st = settle_edit i err st"
| "gate_step (OpenWindow k u) st = openFloodWindow k u st"
| "gate_step (OpenScoped opts u) st = openScopedFloodWindows opts u st"
| "gate_step (Tick ms) st = st\<lparr>sg_now := sg_now st + int ms\<rparr>"

end
