(* ===== verification/Send_Gate_Safety.thy ===== *)
theory Send_Gate_Safety
  imports Send_Gate
begin

text \<open>
  What the send gate guarantees: the rate of every bucket over every interval of time, silence while a flood
  window is open, the pacing of the edits of a message and the fate of the newest one; and where the code
  forgets a message too early.
\<close>

section \<open>Primitive moves on the buckets\<close>

definition same_buckets :: "send_gate \<Rightarrow> send_gate \<Rightarrow> bool" where
  "same_buckets st st' \<longleftrightarrow> sg st' = sg st \<and> sg_now st' = sg_now st \<and> buckets st' = buckets st \<and> admitted st' = admitted st \<and>
     windows_log st' = windows_log st"

text \<open>The bucket scope of a window key.\<close>

definition bucket_scope :: "string \<Rightarrow> scope option" where
  "bucket_scope k = (case parse_scope k of None \<Rightarrow> None | Some (MsgEditScope _) \<Rightarrow> None | Some s \<Rightarrow> Some s)"

definition log_window :: "string \<Rightarrow> int \<Rightarrow> send_gate \<Rightarrow> send_gate" where
  "log_window k u st = st\<lparr>windows_log := windows_log st @ [(k, u)]\<rparr>"

text \<open>Every operation reaches the buckets through these: creation, refill, suppression, and taking a token that is there.\<close>

inductive moves :: "send_gate \<Rightarrow> send_gate \<Rightarrow> bool" where
  m_same: "same_buckets st st' \<Longrightarrow> moves st st'"
| m_ensure: "moves st (ensure s st)"
| m_refill: "moves st (set_bucket s (refill (sg_now st) (bucket_at s st)) st)"
| m_suppress: "moves st (suppress_bucket s u st)"
| m_window: "bucket_scope k = Some s \<Longrightarrow> moves st (suppress_bucket s u (log_window k u st))"
| m_other: "bucket_scope k = None \<Longrightarrow> moves st (log_window k u st)"
| m_consume: "1 \<le> tokens (refill (sg_now st) (bucket_at s st)) \<Longrightarrow> tb_suppressedUntilMs (bucket_at s st) \<le> sg_now st \<Longrightarrow>
    moves st (consume s st)"
| m_trans: "moves st1 st2 \<Longrightarrow> moves st2 st3 \<Longrightarrow> moves st1 st3"

lemma moves_refl [simp, intro]: "moves st st"
  by (rule m_same) (simp add: same_buckets_def)

lemma moves_fold: "(\<And>x st. moves st (f x st)) \<Longrightarrow> moves st (fold f xs st)"
proof (induction xs arbitrary: st)
  case (Cons x xs)
  then show ?case using m_trans [OF Cons.prems [of st x] Cons.IH [OF Cons.prems]] by simp
qed simp

lemma bucket_at_set [simp]: "bucket_at s' (set_bucket s b st) = (if s' = s then b else bucket_at s' st)"
  by (simp add: bucket_at_def set_bucket_def split: option.split)

lemma set_bucket_simps [simp]: "sg (set_bucket s b st) = sg st" "sg_now (set_bucket s b st) = sg_now st"
  "admitted (set_bucket s b st) = admitted st" "objs (set_bucket s b st) = objs st" "perMessage (set_bucket s b st) = perMessage st"
  "criticalTail (set_bucket s b st) = criticalTail st" "calls (set_bucket s b st) = calls st" "edit_log (set_bucket s b st) = edit_log st"
  "windows_log (set_bucket s b st) = windows_log st" "buckets (set_bucket s b st) s' = (if s' = s then Some b else buckets st s')"
  by (simp_all add: set_bucket_def)

lemma consume_simps [simp]: "sg (consume s st) = sg st" "sg_now (consume s st) = sg_now st"
  "bucket_at s' (consume s st) = (if s' = s then take_token (sg_now st) (bucket_at s st) else bucket_at s' st)"
  "admitted (consume s st) = admitted st @ [(s, sg_now st)]" "windows_log (consume s st) = windows_log st"
  by (simp_all add: consume_def Let_def bucket_at_def set_bucket_def split: option.split)

lemma refill_simps [simp]: "tb_suppressedUntilMs (refill now b) = tb_suppressedUntilMs b" "refillPerMs (refill now b) = refillPerMs b"
  "tb_capacity (refill now b) = tb_capacity b" "rampCapacity (refill now b) = rampCapacity b" "rampUntilMs (refill now b) = rampUntilMs b"
  "refill now (refill now b) = refill now b"
  by (auto simp: refill_def)

lemma bucketsFor_moves: "moves st (bucketsFor opts st)"
  unfolding bucketsFor_def by (rule moves_fold) (rule m_ensure)

lemma ensure_simps [simp]: "sg (ensure s st) = sg st" "sg_now (ensure s st) = sg_now st" "admitted (ensure s st) = admitted st"
  "bucket_at s' (ensure s st) = bucket_at s' st"
  by (simp_all add: ensure_def)

section \<open>Polling and taking\<close>

lemma poll_one_snd: "snd (poll_one s ws) = set_bucket s (refill (sg_now (snd ws)) (bucket_at s (snd ws))) (snd ws)"
  by (simp add: poll_one_def msUntilAvailable_def Let_def)

lemma poll_one_fst: "fst (poll_one s ws) = max (fst ws) (fst (msUntilAvailable (sg_now (snd ws)) (bucket_at s (snd ws))))"
  by (simp add: poll_one_def split: prod.split)

lemma poll_fold_moves: "moves (snd ws) (snd (fold poll_one ss ws))"
proof (induction ss arbitrary: ws)
  case (Cons s ss)
  have "moves (snd ws) (snd (poll_one s ws))" unfolding poll_one_snd by (rule m_refill)
  then show ?case using Cons.IH [of "poll_one s ws"] by (auto intro: m_trans)
qed simp

lemma poll_moves: "moves st (snd (poll ss st))"
  using poll_fold_moves [of "(0, st)" ss] by (simp add: poll_def)

definition ready :: "scope \<Rightarrow> send_gate \<Rightarrow> bool" where
  "ready s st \<longleftrightarrow> 1 \<le> tokens (refill (sg_now st) (bucket_at s st)) \<and> tb_suppressedUntilMs (bucket_at s st) \<le> sg_now st"

definition rates_ok :: "send_gate \<Rightarrow> bool" where
  "rates_ok st \<longleftrightarrow> (\<forall>s. 0 < refillPerMs (bucket_at s st))"

lemma wait_ready: "0 < refillPerMs b \<Longrightarrow> fst (msUntilAvailable now b) \<le> 0 \<Longrightarrow> 1 \<le> tokens (refill now b) \<and> tb_suppressedUntilMs b \<le> now"
  by (auto simp: msUntilAvailable_def Let_def windowRemainingMs_def divide_le_0_iff split: if_splits)

lemma poll_fold:
  "sg_now (snd (fold poll_one ss ws)) = sg_now (snd ws)" "sg (snd (fold poll_one ss ws)) = sg (snd ws)"
  "bucket_at s (snd (fold poll_one ss ws)) = (if s \<in> set ss then refill (sg_now (snd ws)) (bucket_at s (snd ws)) else bucket_at s (snd ws))"
  by (induction ss arbitrary: ws) (auto simp: poll_one_snd)

lemma ms_refill: "msUntilAvailable now (refill now b) = msUntilAvailable now b"
  by (simp add: msUntilAvailable_def windowRemainingMs_def)

lemma poll_fold_wait:
  "fst (fold poll_one ss ws) \<le> 0 \<longleftrightarrow> fst ws \<le> 0 \<and> (\<forall>s \<in> set ss. fst (msUntilAvailable (sg_now (snd ws)) (bucket_at s (snd ws))) \<le> 0)"
proof (induction ss arbitrary: ws)
  case (Cons s ss)
  have b: "bucket_at x (snd (poll_one s ws)) = (if x = s then refill (sg_now (snd ws)) (bucket_at s (snd ws)) else bucket_at x (snd ws))" for x
    by (simp add: poll_one_snd)
  have n: "sg_now (snd (poll_one s ws)) = sg_now (snd ws)" by (simp add: poll_one_snd)
  show ?case
    unfolding fold_Cons o_apply Cons.IH n b poll_one_fst by (auto simp: ms_refill)
qed simp

lemma poll_frame:
  "sg_now (snd (poll ss st)) = sg_now st" "sg (snd (poll ss st)) = sg st"
  "bucket_at s (snd (poll ss st)) = (if s \<in> set ss then refill (sg_now st) (bucket_at s st) else bucket_at s st)"
  by (simp_all add: poll_def poll_fold)

lemma poll_ready: "rates_ok st \<Longrightarrow> fst (poll ss st) \<le> 0 \<Longrightarrow> s \<in> set ss \<Longrightarrow> ready s (snd (poll ss st))"
  using wait_ready [of "bucket_at s st" "sg_now st"] poll_fold_wait [of ss "(0, st)"]
  by (auto simp: ready_def poll_frame rates_ok_def) (auto simp: poll_def)

lemma consume_all_moves:
  "distinct ss \<Longrightarrow> (\<And>s. s \<in> set ss \<Longrightarrow> ready s st) \<Longrightarrow> moves st (consume_all ss st)"
  unfolding consume_all_def
proof (induction ss arbitrary: st)
  case (Cons s ss)
  have "moves st (consume s st)" using Cons.prems(2) [of s] by (auto simp: ready_def intro: m_consume)
  moreover have "moves (consume s st) (fold consume ss (consume s st))"
    using Cons.prems by (intro Cons.IH) (auto simp: ready_def)
  ultimately show ?case by (auto intro: m_trans)
qed simp

lemma scopes_distinct [simp]: "distinct (scopes_of opts)"
  by (simp add: scopes_of_def)

lemma same_bucket_at: "same_buckets st st' \<Longrightarrow> bucket_at s st' = bucket_at s st"
  by (simp add: same_buckets_def bucket_at_def split: option.split)

lemma moves_frame: "moves st st' \<Longrightarrow> sg st' = sg st \<and> sg_now st' = sg_now st"
  by (induction rule: moves.induct) (auto simp: same_buckets_def suppress_bucket_def log_window_def)

lemma log_window_simps [simp]: "sg (log_window k u st) = sg st" "sg_now (log_window k u st) = sg_now st" "buckets (log_window k u st) = buckets st"
  "admitted (log_window k u st) = admitted st" "windows_log (log_window k u st) = windows_log st @ [(k, u)]"
  "bucket_at s (log_window k u st) = bucket_at s st"
  by (simp_all add: log_window_def bucket_at_def split: option.split)

lemma moves_rates: "moves st st' \<Longrightarrow> rates_ok st \<Longrightarrow> rates_ok st'"
  by (induction rule: moves.induct)
    (auto simp: rates_ok_def same_bucket_at suppress_bucket_def suppressUntil_def take_token_def Let_def)

section \<open>Every operation is made of moves\<close>

lemma moves_then_same: "moves st st1 \<Longrightarrow> same_buckets st1 st2 \<Longrightarrow> moves st st2"
  by (rule m_trans [OF _ m_same])

lemma count_queued_same: "same_buckets st (count_queued c st)"
  by (simp add: same_buckets_def count_queued_def bump_def)

lemma leave_tail_same: "same_buckets st (leave_tail b t st)"
  by (simp add: same_buckets_def leave_tail_def)

lemma polled_moves:
  assumes "rates_ok st" "distinct ss" "poll ss st = (w, st1)"
  shows "moves st st1" "w \<le> 0 \<Longrightarrow> moves st (consume_all ss st1)"
proof -
  show m: "moves st st1" using poll_moves [of st ss] assms(3) by simp
  show "w \<le> 0 \<Longrightarrow> moves st (consume_all ss st1)"
    using m_trans [OF m consume_all_moves [OF assms(2)]] poll_ready [OF assms(1), of ss] assms(3) by auto
qed

lemma admit_iter_moves: assumes "rates_ok st" "distinct ss" shows "moves st (snd (admit_iter d f c ss st))"
proof -
  obtain w st1 where p: "poll ss st = (w, st1)" by (metis surj_pair)
  note m = polled_moves [OF assms p]
  from m p show ?thesis
    by (auto simp: admit_iter_def split: option.split intro: moves_then_same [OF _ count_queued_same])
qed

lemma crit_iter_moves: assumes "rates_ok st" "distinct ss" shows "moves st (snd (crit_iter t ser c ss st))"
proof -
  obtain w st1 where p: "poll ss st = (w, st1)" by (metis surj_pair)
  note m = polled_moves [OF assms p]
  from m p show ?thesis
    by (auto simp: crit_iter_def Let_def intro: moves_then_same [OF _ count_queued_same] moves_then_same [OF _ leave_tail_same])
qed

lemma admit_priority_moves: assumes "rates_ok st" "distinct ss" shows "moves st (snd (admitPriority t ss pr st))"
proof -
  obtain w st1 where p: "poll ss st = (w, st1)" by (metis surj_pair)
  note m = polled_moves [OF assms p]
  have "same_buckets st (st\<lparr>criticalTail := q\<rparr>)" for q by (simp add: same_buckets_def)
  with m p show ?thesis
    by (auto simp: admitPriority_def Let_def admit_iter_moves [OF assms] crit_iter_moves [OF assms] m_same split: PriorityClass.split)
qed

lemma resume_moves: assumes "rates_ok st" "distinct ss" shows "moves st (snd (resume_adm t j f ss a st))"
  by (auto simp: resume_adm_def admit_iter_moves [OF assms] crit_iter_moves [OF assms] split: adm.split)

lemma same_trans: "same_buckets a b \<Longrightarrow> same_buckets b c \<Longrightarrow> same_buckets a c"
  by (simp add: same_buckets_def)

lemma local_same:
  "same_buckets st (upd_obj i f st)" "same_buckets st (bump g st)" "same_buckets st (note_edit i n st)"
  "same_buckets st (settle_callers cs r st)" "same_buckets st (set_driver i d st)" "same_buckets st (supersede i p st)"
  "same_buckets st (criticalWake i st)" "same_buckets st (release_caller c i st)" "same_buckets st (snd (state_for k st))"
  "same_buckets st (set_adm c a st)" "same_buckets st (drop_call c r st)" "same_buckets st (st\<lparr>calls := q\<rparr>)"
  "same_buckets st (start_send i p opts st)" "same_buckets st (begin_turn i p st)" "same_buckets st (take_pending i st)"
  "same_buckets st (skip_edit i p st)"
  by (simp_all add: same_buckets_def upd_obj_def bump_def note_edit_def settle_callers_def set_driver_def supersede_def
      criticalWake_def release_caller_def set_adm_def drop_call_def state_for_def messageState_def maybeEvict_def Let_def start_send_def
      begin_turn_def take_pending_def skip_edit_def split: option.split)

lemma moves_same_then: "same_buckets st st1 \<Longrightarrow> moves st1 st2 \<Longrightarrow> moves st st2"
  by (rule m_trans [OF m_same])

lemma state_for_moves: "moves st st1 \<Longrightarrow> moves st (upd_obj i f (snd (state_for key st1)))"
  by (rule moves_then_same [OF _ same_trans [OF local_same(9) local_same(1)]])

lemma apply_window_moves: "moves st (applyWindow persist u k st)"
proof (cases "bucket_scope k")
  case None
  then have "moves st (if persist then log_window k u st else st)" by (simp add: m_other)
  with None show ?thesis
    by (auto simp: applyWindow_def Let_def log_window_def bucket_scope_def case_prod_unfold intro: state_for_moves split: option.splits scope.splits)
next
  case (Some s)
  then have "applyWindow persist u k st = suppress_bucket s u (if persist then log_window k u st else st)"
    by (auto simp: applyWindow_def Let_def log_window_def bucket_scope_def split: option.splits scope.splits)
  with Some m_window [OF Some] m_suppress show ?thesis by (cases persist) simp_all
qed

lemma open_scoped_moves: "moves st (openScopedWindowsForOpts opts u st)"
  unfolding openScopedWindowsForOpts_def by (rule moves_fold) (rule apply_window_moves)

lemma start_admission_moves: assumes "rates_ok st" shows "moves st (start_admission i p opts st)"
proof -
  let ?st = "bucketsFor opts st"
  have r: "rates_ok ?st" using moves_rates [OF bucketsFor_moves assms] .
  note a = m_trans [OF bucketsFor_moves admit_priority_moves [OF r scopes_distinct [of opts]]]
    m_trans [OF bucketsFor_moves admit_iter_moves [OF r scopes_distinct [of opts]]]
  have "moves st (set_driver i d st1)" if "moves st st1" for d st1 using moves_then_same [OF that local_same(5)] .
  with a show ?thesis by (simp add: start_admission_def case_prod_unfold)
qed

lemma drive_turn_moves: assumes "rates_ok st" shows "moves st (drive_turn i opts st)"
proof -
  have t: "same_buckets st (take_pending i (begin_turn i p st))" for p by (rule same_trans [OF local_same(14) local_same(15)])
  have "moves st (start_admission i p opts (take_pending i (begin_turn i p st)))" for p
    using moves_rates [OF m_same [OF t] assms] by (rule moves_same_then [OF t start_admission_moves])
  moreover have "moves st (skip_edit i p (take_pending i (begin_turn i p st)))" for p by (rule m_same [OF same_trans [OF t local_same(16)]])
  moreover have "moves st (set_driver i d (begin_turn i p st))" for d p by (rule m_same [OF same_trans [OF local_same(14) local_same(5)]])
  ultimately show ?thesis by (auto simp: drive_turn_def Let_def intro: m_same local_same split: option.split)
qed

lemma pressure_moves: "moves st (snd (pressure_scan ss st))"
proof (induction ss arbitrary: st)
  case (Cons s ss)
  have "moves st (set_bucket s (snd (msUntilAvailable (sg_now st) (bucket_at s st))) st)"
    by (simp add: msUntilAvailable_def Let_def m_refill)
  from this m_trans [OF this Cons.IH] show ?case by (auto split: prod.split)
qed simp

lemma settle_caller_moves: "moves st (settleForCaller c i pr opts st)"
proof -
  have "moves st (snd (editUnderPressure i opts st))"
    by (auto simp: editUnderPressure_def intro: m_trans [OF bucketsFor_moves pressure_moves])
  then show ?thesis
    by (auto simp: settleForCaller_def split: prod.split intro: moves_then_same [OF _ local_same(8)])
qed

lemma handle_edit_moves: assumes "rates_ok st" shows "moves st (handleEdit c mid h opts st)"
proof -
  obtain i st1 where s: "state_for (messageKey (chat_id opts) mid) st = (i, st1)" by (metis surj_pair)
  have s1: "same_buckets st st1" using local_same(9) [of st "messageKey (chat_id opts) mid"] s by simp
  have st: "moves st (settleForCaller c i pr opts x)" if "moves st x" for pr x by (rule m_trans [OF that settle_caller_moves])
  have w: "moves st (criticalWake i x)" if "moves st x" for x by (rule moves_then_same [OF that local_same(7)])
  have n: "moves st (note_edit i nn x)" if "moves st x" for x nn by (rule moves_then_same [OF that local_same(3)])
  have b: "moves st (bump g x)" if "moves st x" for x g by (rule moves_then_same [OF that local_same(2)])
  have u: "moves st (upd_obj i f x)" if "moves st x" for x f by (rule moves_then_same [OF that local_same(1)])
  have cs: "moves st (settle_callers [c] r x)" if "moves st x" for x r by (rule moves_then_same [OF that local_same(4)])
  have d: "moves st (drive_turn i opts x)" if "moves st x" for x
    by (rule m_trans [OF that drive_turn_moves [OF moves_rates [OF that assms]]])
  show ?thesis
    unfolding handleEdit_def Let_def s
    by (auto split: option.split intro!: st w n b u cs d m_same [OF s1])
qed

lemma gate_moves: assumes "rates_ok st" shows "moves st (gate c opts st)"
proof -
  have r: "rates_ok (bucketsFor opts st)" using moves_rates [OF bucketsFor_moves assms] .
  have "moves st (snd (admitPriority t (scopes_of opts) pr (bucketsFor opts st)))" for t pr
    by (rule m_trans [OF bucketsFor_moves admit_priority_moves [OF r scopes_distinct]])
  then show ?thesis
    by (auto simp: gate_def handle_edit_moves [OF assms] case_prod_unfold split: option.split intro: moves_then_same [OF _ local_same(12)])
qed

lemma gate_step_moves: assumes "rates_ok st" "\<And>ms. e \<noteq> Tick ms" shows "moves st (gate_step e st)"
proof -
  have dr: "moves st (drive_turn i opts x)" if "moves st x" for i opts x
    by (rule m_trans [OF that drive_turn_moves [OF moves_rates [OF that assms(1)]]])
  have n: "moves st (note_edit i nn x)" if "moves st x" for x i nn by (rule moves_then_same [OF that local_same(3)])
  have b: "moves st (bump g x)" if "moves st x" for x g by (rule moves_then_same [OF that local_same(2)])
  have u: "moves st (upd_obj i f x)" if "moves st x" for x i f by (rule moves_then_same [OF that local_same(1)])
  have cs: "moves st (settle_callers k r x)" if "moves st x" for x k r by (rule moves_then_same [OF that local_same(4)])
  have os: "moves st (openScopedWindowsForOpts opts v x)" if "moves st x" for x opts v by (rule m_trans [OF that open_scoped_moves])
  have dc: "moves st (drop_call c r x)" if "moves st x" for x c r by (rule moves_then_same [OF that local_same(11)])
  have sp: "moves st (supersede i p x)" if "moves st x" for x i p by (rule moves_then_same [OF that local_same(6)])
  have sd: "moves st (set_driver i d x)" if "moves st x" for x i d by (rule moves_then_same [OF that local_same(5)])
  have sa: "moves st (set_adm c a x)" if "moves st x" for x c a by (rule moves_then_same [OF that local_same(10)])
  note rs = resume_moves [OF assms(1) scopes_distinct]
  have "moves st (proceed_edit i st)" for i
    by (auto simp: proceed_edit_def intro!: dr n cs os b sp m_same [OF local_same(13)] split: driver.split adm.split adm_outcome.split)
  moreover have "moves st (settle_edit i err st)" for i err
    by (auto simp: settle_edit_def intro!: dr n cs os b u split: driver.split adm.split option.split send_error.split)
  moreover have "moves st (proceed_call c st)" for c
    by (auto simp: proceed_call_def intro!: dc os b m_same [OF local_same(10)] split: option.split adm.split adm_outcome.split)
  moreover have "moves st (settle_call c err st)" for c err
    by (auto simp: settle_call_def intro!: dc os b split: option.split send_error.split)
  moreover have "moves st (resume_call c j st)" for c j
    using rs by (auto simp: resume_call_def case_prod_unfold split: option.split intro!: sa)
  moreover have "moves st (resume_edit i j st)" for i j
    using rs by (auto simp: resume_edit_def case_prod_unfold split: driver.split intro!: sd dr)
  ultimately show ?thesis
    using assms gate_moves [OF assms(1)]
    by (cases "(e, st)" rule: gate_step.cases)
      (auto simp: openFloodWindow_def openScopedFloodWindows_def apply_window_moves open_scoped_moves)
qed

section \<open>The rate of a bucket\<close>

definition rate_of :: "gate_config \<Rightarrow> scope \<Rightarrow> rat" where
  "rate_of cfg s = (case s of ChatScope _ \<Rightarrow> perChatRate cfg | GroupScope _ \<Rightarrow> perGroupRate cfg | _ \<Rightarrow> globalRate cfg)"

definition burst_of :: "gate_config \<Rightarrow> scope \<Rightarrow> rat" where
  "burst_of cfg s = (case s of ChatScope _ \<Rightarrow> perChatBurst cfg | GroupScope _ \<Rightarrow> perGroupBurst cfg | _ \<Rightarrow> globalBurst cfg)"

definition config_ok :: "gate_config \<Rightarrow> bool" where
  "config_ok cfg \<longleftrightarrow> (\<forall>s. 0 < rate_of cfg s \<and> 1 \<le> burst_of cfg s) \<and> (case bootRamp cfg of None \<Rightarrow> True | Some r \<Rightarrow> fst r \<le> 1)"

definition grant_times :: "scope \<Rightarrow> send_gate \<Rightarrow> int list" where
  "grant_times s st = map snd (filter (\<lambda>x. fst x = s) (admitted st))"

definition count_in :: "int \<Rightarrow> int \<Rightarrow> int list \<Rightarrow> rat" where
  "count_in a e ts = of_nat (length (filter (\<lambda>t. a \<le> t \<and> t \<le> e) ts))"

definition count_from :: "int \<Rightarrow> int list \<Rightarrow> rat" where
  "count_from a ts = of_nat (length (filter (\<lambda>t. a \<le> t) ts))"

text \<open>
  The potential argument: tokens in the bucket plus admissions since any earlier time are covered by the capacity and
  what was refilled since.
\<close>

definition bucket_ok :: "rat \<Rightarrow> rat \<Rightarrow> int \<Rightarrow> int list \<Rightarrow> token_bucket \<Rightarrow> bool" where
  "bucket_ok cap rate now ts b \<longleftrightarrow>
     tb_capacity b = cap \<and> refillPerMs b = rate \<and> 0 \<le> tokens b \<and> 0 \<le> rampCapacity b \<and> rampCapacity b \<le> cap \<and> lastRefillMs b \<le> now \<and>
     (\<forall>t \<in> set ts. t \<le> lastRefillMs b) \<and> tokens b \<le> cap \<and>
     (\<forall>a \<le> lastRefillMs b. tokens b + count_from a ts \<le> cap + rate * of_int (lastRefillMs b - a))"

definition rate_bounded :: "rat \<Rightarrow> rat \<Rightarrow> int list \<Rightarrow> bool" where
  "rate_bounded cap rate ts \<longleftrightarrow> (\<forall>a e. a \<le> e \<longrightarrow> count_in a e ts \<le> cap + rate * of_int (e - a))"

lemma count_simps [simp]: "count_from a [] = 0" "count_in a e [] = 0"
  "count_from a (ts @ [t]) = count_from a ts + (if a \<le> t then 1 else 0)"
  "count_in a e (ts @ [t]) = count_in a e ts + (if a \<le> t \<and> t \<le> e then 1 else 0)"
  by (auto simp: count_from_def count_in_def)

lemma count_in_le: "count_in a e ts \<le> count_from a ts"
proof -
  have "length (filter (\<lambda>t. a \<le> t \<and> t \<le> e) ts) \<le> length (filter (\<lambda>t. a \<le> t) ts)" by (induction ts) auto
  then show ?thesis by (simp add: count_in_def count_from_def)
qed

lemma count_from_zero: "\<forall>t \<in> set ts. t < a \<Longrightarrow> count_from a ts = 0"
  by (auto simp: count_from_def filter_empty_conv)

lemma count_in_zero: "\<forall>t \<in> set ts. t < a \<Longrightarrow> count_in a e ts = 0"
  by (auto simp: count_in_def filter_empty_conv)

lemma bucket_ok_refill:
  assumes "bucket_ok cap rate now ts b" "0 \<le> rate"
  shows "bucket_ok cap rate now ts (refill now b)" "lastRefillMs (refill now b) = now"
proof -
  show "lastRefillMs (refill now b) = now" using assms(1) by (auto simp: refill_def bucket_ok_def)
  show "bucket_ok cap rate now ts (refill now b)"
  proof (cases "now \<le> lastRefillMs b")
    case False
    define d where "d = rat_of_int (now - lastRefillMs b) * refillPerMs b"
    have d: "0 \<le> d" using False assms by (simp add: d_def bucket_ok_def)
    have cap: "0 \<le> capAt now b" "capAt now b \<le> cap" using assms(1) by (auto simp: capAt_def bucket_ok_def)
    define tk where "tk = min (capAt now b) (tokens b + d)"
    have tk: "0 \<le> tk" "tk \<le> cap" "tk \<le> tokens b + d"
      using cap d assms(1) by (auto simp: tk_def bucket_ok_def)
    have "tk + count_from a ts \<le> cap + rate * of_int (now - a)" if "a \<le> now" for a
    proof (cases "a \<le> lastRefillMs b")
      case True
      then have "tokens b + count_from a ts \<le> cap + rate * of_int (lastRefillMs b - a)" using assms(1) by (auto simp: bucket_ok_def)
      moreover have "rate * of_int (lastRefillMs b - a) + d = rate * of_int (now - a)"
        using assms(1) by (simp add: d_def bucket_ok_def algebra_simps)
      ultimately show ?thesis using tk(3) by linarith
    next
      case False
      then have "count_from a ts = 0" using assms(1) by (intro count_from_zero) (auto simp: bucket_ok_def)
      moreover have "0 \<le> rate * of_int (now - a)" using assms(2) that by simp
      ultimately show ?thesis using tk(2) by linarith
    qed
    moreover have "refill now b = b\<lparr>tokens := tk, lastRefillMs := now\<rparr>" using False by (simp add: refill_def tk_def d_def)
    ultimately show ?thesis using tk False assms(1) by (auto simp: bucket_ok_def)
  qed (use assms in \<open>auto simp: refill_def\<close>)
qed

lemma bucket_ok_take:
  assumes "bucket_ok cap rate now ts b" "0 \<le> rate" "1 \<le> tokens (refill now b)"
  shows "bucket_ok cap rate now (ts @ [now]) (take_token now b)"
  using bucket_ok_refill [OF assms(1,2)] assms(3) by (auto simp: take_token_def Let_def bucket_ok_def)

lemma spread_take:
  assumes "bucket_ok cap rate now ts b" "0 \<le> rate" "1 \<le> tokens (refill now b)" "rate_bounded cap rate ts"
  shows "rate_bounded cap rate (ts @ [now])"
  unfolding rate_bounded_def
proof (intro allI impI)
  fix a e :: int assume ae: "a \<le> e"
  show "count_in a e (ts @ [now]) \<le> cap + rate * of_int (e - a)"
  proof (cases "a \<le> now \<and> now \<le> e")
    case True
    have "tokens (refill now b) + count_from a ts \<le> cap + rate * of_int (now - a)"
      using bucket_ok_refill [OF assms(1,2)] True by (auto simp: bucket_ok_def)
    moreover have "rate * of_int (now - a) \<le> rate * of_int (e - a)" using True assms(2) by (intro mult_left_mono) auto
    ultimately show ?thesis using True assms(3) count_in_le [of a e ts] by simp
  next
    case False
    then show ?thesis using assms(4) ae by (auto simp: rate_bounded_def)
  qed
qed

definition gate_ok :: "send_gate \<Rightarrow> bool" where
  "gate_ok st \<longleftrightarrow> config_ok (sg st) \<and>
     (\<forall>s. bucket_ok (burst_of (sg st) s) (rate_of (sg st) s) (sg_now st) (grant_times s st) (bucket_at s st) \<and>
          rate_bounded (burst_of (sg st) s) (rate_of (sg st) s) (grant_times s st))"

lemma grant_times_consume: "grant_times s' (consume s st) = (if s' = s then grant_times s' st @ [sg_now st] else grant_times s' st)"
  by (simp add: grant_times_def)

lemma moves_gate_ok: "moves st st' \<Longrightarrow> gate_ok st \<Longrightarrow> gate_ok st'"
proof (induction rule: moves.induct)
  case (m_same st st')
  then show ?case by (simp add: gate_ok_def same_bucket_at grant_times_def) (simp add: same_buckets_def)
next
  case (m_ensure st s)
  then show ?case by (simp add: gate_ok_def grant_times_def)
next
  case (m_refill st s)
  then have "0 < rate_of (sg st) s" by (auto simp: gate_ok_def config_ok_def)
  with m_refill show ?case by (auto simp: gate_ok_def grant_times_def intro: bucket_ok_refill)
next
  case (m_suppress st s u)
  then show ?case by (auto simp: gate_ok_def grant_times_def suppress_bucket_def suppressUntil_def bucket_ok_def)
next
  case (m_window k s st u)
  then show ?case by (auto simp: gate_ok_def grant_times_def suppress_bucket_def suppressUntil_def bucket_ok_def)
next
  case (m_other k st u)
  then show ?case by (simp add: gate_ok_def grant_times_def)
next
  case (m_consume st s)
  then have "0 < rate_of (sg st) s" by (auto simp: gate_ok_def config_ok_def)
  with m_consume show ?case by (auto simp: gate_ok_def grant_times_consume intro: bucket_ok_take spread_take)
qed auto

lemma gate_ok_rates: "gate_ok st \<Longrightarrow> rates_ok st"
  by (auto simp: gate_ok_def config_ok_def rates_ok_def bucket_ok_def)

lemma bucket_ok_later: "bucket_ok cap rate now ts b \<Longrightarrow> now \<le> now' \<Longrightarrow> bucket_ok cap rate now' ts b"
  by (auto simp: bucket_ok_def)

lemma bucket_ok_new:
  assumes "1 \<le> cap" "0 < rate" "\<And>r. ramp = Some r \<Longrightarrow> 0 \<le> fst r \<and> fst r \<le> cap"
  shows "bucket_ok cap rate now [] (new_bucket cap rate now ramp)"
proof -
  obtain rc ru where r: "(case ramp of None \<Rightarrow> cap | Some r \<Rightarrow> fst r) = rc" "(case ramp of None \<Rightarrow> 0 | Some r \<Rightarrow> snd r) = ru"
      and rc: "0 \<le> rc" "rc \<le> cap"
    using assms by (cases ramp) auto
  have "x \<le> cap + rate * of_int (now - a)" if "x \<le> cap" "a \<le> now" for x a
  proof -
    have "0 \<le> rate * of_int (now - a)" using assms(2) that(2) by simp
    with that(1) show ?thesis by linarith
  qed
  with rc assms(1) show ?thesis by (simp add: bucket_ok_def new_bucket_def r del: of_int_diff)
qed

lemma bucket_ok_fresh: assumes "config_ok cfg" shows "bucket_ok (burst_of cfg s) (rate_of cfg s) now [] (fresh_bucket cfg now s)"
proof -
  have c: "1 \<le> burst_of cfg s" "0 < rate_of cfg s" using assms by (auto simp: config_ok_def)
  have "fresh_bucket cfg now s = new_bucket (burst_of cfg s) (rate_of cfg s) now None"
    by (simp add: fresh_bucket_def burst_of_def rate_of_def split: scope.split)
  with bucket_ok_new [OF c, of None now] show ?thesis by simp
qed

text \<open>A bucket that does not exist yet has admitted nothing.\<close>

definition untouched :: "send_gate \<Rightarrow> bool" where
  "untouched st \<longleftrightarrow> (\<forall>s. buckets st s = None \<longrightarrow> grant_times s st = [])"

lemma moves_untouched: "moves st st' \<Longrightarrow> untouched st \<Longrightarrow> untouched st'"
  by (induction rule: moves.induct)
    (auto simp: untouched_def same_buckets_def grant_times_def suppress_bucket_def ensure_def consume_def Let_def)

lemma gate_ok_tick: "gate_ok st \<Longrightarrow> untouched st \<Longrightarrow> gate_ok (st\<lparr>sg_now := sg_now st + int ms\<rparr>)"
proof -
  assume a: "gate_ok st" "untouched st"
  let ?st = "st\<lparr>sg_now := sg_now st + int ms\<rparr>"
  have "bucket_ok (burst_of (sg st) s) (rate_of (sg st) s) (sg_now ?st) (grant_times s ?st) (bucket_at s ?st)" for s
  proof (cases "buckets st s")
    case None
    then show ?thesis using a bucket_ok_fresh [of "sg st" s] by (auto simp: gate_ok_def untouched_def bucket_at_def grant_times_def)
  next
    case (Some b)
    have "bucket_ok (burst_of (sg st) s) (rate_of (sg st) s) (sg_now st) (grant_times s st) (bucket_at s st)" using a(1) by (simp add: gate_ok_def)
    from bucket_ok_later [OF this, of "sg_now st + int ms"] Some show ?thesis by (simp add: bucket_at_def grant_times_def)
  qed
  with a(1) show ?thesis by (simp add: gate_ok_def grant_times_def)
qed

definition gate_invar :: "send_gate \<Rightarrow> bool" where
  "gate_invar st \<longleftrightarrow> gate_ok st \<and> untouched st"

lemma gate_invar_step: assumes "gate_invar st" shows "gate_invar (gate_step e st)"
proof (cases "\<exists>ms. e = Tick ms")
  case True
  moreover have "untouched st \<Longrightarrow> untouched (st\<lparr>sg_now := t\<rparr>)" for t by (simp add: untouched_def grant_times_def)
  ultimately show ?thesis using assms by (auto simp: gate_invar_def gate_ok_tick)
next
  case False
  then have "moves st (gate_step e st)" using assms by (intro gate_step_moves gate_ok_rates) (auto simp: gate_invar_def)
  with assms moves_gate_ok moves_untouched show ?thesis by (auto simp: gate_invar_def)
qed

interpretation gate_buckets: event_system gate_step gate_invar
  by unfold_locales (rule gate_invar_step)

lemma initial_ok: "config_ok cfg \<Longrightarrow> gate_invar (initial_gate cfg now)"
proof -
  assume c: "config_ok cfg"
  have r: "0 \<le> max 1 (rat_of_int \<lfloor>globalBurst cfg * f\<rfloor>) \<and> max 1 (rat_of_int \<lfloor>globalBurst cfg * f\<rfloor>) \<le> globalBurst cfg" if "f \<le> 1" for f
  proof -
    have b: "1 \<le> globalBurst cfg" using c by (auto simp: config_ok_def burst_of_def split: scope.splits)
    then have "globalBurst cfg * f \<le> globalBurst cfg * 1" using that by (intro mult_left_mono) auto
    then have "rat_of_int \<lfloor>globalBurst cfg * f\<rfloor> \<le> globalBurst cfg" by (intro order_trans [OF of_int_floor_le]) simp
    with b show ?thesis by simp
  qed
  have f: "fresh_bucket cfg now GlobalScope = new_bucket (globalBurst cfg) (globalRate cfg) now None" by (simp add: fresh_bucket_def)
  have "bucket_ok (burst_of cfg s) (rate_of cfg s) now [] (bucket_at s (initial_gate cfg now))" for s
  proof (cases "s = GlobalScope")
    case True
    have "1 \<le> globalBurst cfg" "0 < globalRate cfg" using c by (auto simp: config_ok_def burst_of_def rate_of_def split: scope.splits)
    then have "bucket_ok (globalBurst cfg) (globalRate cfg) now [] (new_bucket (globalBurst cfg) (globalRate cfg) now
        (map_option (\<lambda>r. (max 1 (of_int \<lfloor>globalBurst cfg * fst r\<rfloor>), now + snd r)) (bootRamp cfg)))"
      by (rule bucket_ok_new) (use r c in \<open>auto simp: config_ok_def split: option.splits\<close>)
    with True show ?thesis by (simp add: initial_gate_def bucket_at_def burst_of_def rate_of_def)
  next
    case False
    with c bucket_ok_fresh [of cfg s now] show ?thesis by (simp add: initial_gate_def bucket_at_def)
  qed
  moreover have "rate_bounded (burst_of cfg s) (rate_of cfg s) []" for s
  proof -
    have "1 \<le> burst_of cfg s" "0 < rate_of cfg s" using c by (auto simp: config_ok_def)
    then have "0 \<le> burst_of cfg s + rate_of cfg s * of_int (e - a)" if "a \<le> e" for a e :: int
      using that by (intro add_nonneg_nonneg mult_nonneg_nonneg) auto
    then show ?thesis by (simp add: rate_bounded_def del: of_int_diff)
  qed
  moreover have "sg (initial_gate cfg now) = cfg" "sg_now (initial_gate cfg now) = now" "grant_times s (initial_gate cfg now) = []" for s
    by (simp_all add: initial_gate_def grant_times_def)
  moreover have "untouched (initial_gate cfg now)" by (simp add: untouched_def grant_times_def initial_gate_def)
  ultimately show ?thesis using c by (simp add: gate_invar_def gate_ok_def)
qed

lemma created_ok: assumes "config_ok cfg" shows "gate_invar (createSendGate cfg now ws)"
proof -
  have "moves (initial_gate cfg now) (createSendGate cfg now ws)"
    unfolding createSendGate_def by (rule moves_fold) (auto simp: apply_window_moves)
  with initial_ok [OF assms, of now] moves_gate_ok moves_untouched show ?thesis by (auto simp: gate_invar_def)
qed

lemma created_config: "sg (createSendGate cfg now ws) = cfg"
proof -
  have "moves (initial_gate cfg now) (createSendGate cfg now ws)"
    unfolding createSendGate_def by (rule moves_fold) (auto simp: apply_window_moves)
  from moves_frame [OF this] show ?thesis by (simp add: initial_gate_def)
qed

lemma step_config: "gate_invar st \<Longrightarrow> sg (gate_step e st) = sg st"
  using moves_frame [OF gate_step_moves [OF gate_ok_rates]] by (cases "\<exists>ms. e = Tick ms") (auto simp: gate_invar_def)

lemma run_config: "gate_invar st \<Longrightarrow> sg (run gate_step st es) = sg st"
  by (induction es arbitrary: st) (simp_all add: gate_invar_step step_config)

text \<open>
  Claim C23: the gate keeps its rates. Whatever calls, edits, naps, answers and flood windows there are, and however they
  interleave: the number of admissions a bucket has granted between any two instants is at most its burst capacity
  plus its rate times the time between them. This holds for the bot as a whole, for every chat and for every group.
\<close>

theorem admissions_keep_rate:
  assumes "config_ok cfg" "a \<le> e"
  shows "of_nat (length (filter (\<lambda>t. a \<le> t \<and> t \<le> e) (grant_times s (run gate_step (createSendGate cfg now ws) es))))
    \<le> burst_of cfg s + rate_of cfg s * of_int (e - a)"
proof -
  note ok = created_ok [OF assms(1), of now ws]
  have "gate_invar (run gate_step (createSendGate cfg now ws) es)" by (rule gate_buckets.invar_run [OF ok])
  with assms(2) show ?thesis
    by (auto simp: gate_invar_def gate_ok_def rate_bounded_def count_in_def run_config [OF ok] created_config)
qed

text \<open>The definitions a concrete run is evaluated with.\<close>

lemmas bucket_eval = new_bucket_def capAt_def refill_def suppressUntil_def windowRemainingMs_def msUntilAvailable_def take_token_def
  present_def is_group_def scopes_of_def fresh_bucket_def bucket_at_def set_bucket_def ensure_def bucketsFor_def poll_one_def
  poll_def window_remaining_def consume_def consume_all_def bump_def count_queued_def admit_iter_def leave_tail_def crit_iter_def
  admitPriority_def jitter_ms_def resume_adm_def suppress_bucket_def

lemmas driver_eval = fresh_state_def isEvictable_def lru_victims_def idle_expired_def maybeEvict_def messageState_def state_for_def
  upd_obj_def applyWindow_def openFloodWindow_def flood_scopes_def scope_key_def parse_scope_def openScopedWindowsForOpts_def
  openScopedFloodWindows_def createSendGate_def initial_gate_def set_driver_def note_edit_def settle_callers_def budgeted_def prune_window_def
  floor_ready_def budget_ready_def start_admission_def turn_times_def ready_at_def begin_turn_def take_pending_def skip_edit_def
  drive_turn_def supersede_def start_send_def proceed_edit_def settle_edit_def editUnderPressure_def drop_caller_def release_caller_def
  settleForCaller_def criticalWake_def coalesce_def edit_priority_def handleEdit_def UNTAGGED_SEND_CLASS_def gate_def find_call_def
  drop_call_def set_adm_def proceed_call_def settle_call_def resume_call_def resume_edit_def messageKey_def startsWith_def

lemmas gate_eval = bucket_eval driver_eval SEND_GATE_DEFAULTS_def Let_def maxPriority_def

lemma defaults_ok: "config_ok SEND_GATE_DEFAULTS"
  by (auto simp: config_ok_def SEND_GATE_DEFAULTS_def rate_of_def burst_of_def split: scope.split)

definition to_chat :: "string \<Rightarrow> SendGateOpts" where
  "to_chat c = \<lparr>chat_id = Some c, chatType = None, messageId = None, editPayload = None, priorityClass = Some Useful\<rparr>"

text \<open>With the defaults a second never holds more than 29 admissions, and four calls to one chat at once grant three.\<close>

theorem admissions_keep_rate_witness:
  "(\<forall>es. length (filter (\<lambda>t. 0 \<le> t \<and> t \<le> 1000) (grant_times GlobalScope (run gate_step (createSendGate SEND_GATE_DEFAULTS 0 []) es))) \<le> 29) \<and>
   grant_times (ChatScope ''c'') (run gate_step (createSendGate SEND_GATE_DEFAULTS 0 [])
     [Gate 1 (to_chat ''c''), Gate 2 (to_chat ''c''), Gate 3 (to_chat ''c''), Gate 4 (to_chat ''c'')]) = [0, 0, 0]"
proof -
  have "of_nat (length (filter (\<lambda>t. 0 \<le> t \<and> t \<le> 1000) (grant_times GlobalScope (run gate_step (createSendGate SEND_GATE_DEFAULTS 0 []) es))))
      \<le> (29::rat)" for es
    using admissions_keep_rate [OF defaults_ok, of 0 1000 GlobalScope 0 "[]" es] by (simp add: burst_of_def rate_of_def SEND_GATE_DEFAULTS_def)
  then have "\<forall>es. length (filter (\<lambda>t. 0 \<le> t \<and> t \<le> 1000) (grant_times GlobalScope (run gate_step (createSendGate SEND_GATE_DEFAULTS 0 []) es))) \<le> 29"
    by (metis of_nat_le_iff of_nat_numeral)
  then show ?thesis by (rule conjI) (simp add: gate_eval to_chat_def grant_times_def)
qed

section \<open>Flood windows\<close>

definition quiet_until :: "scope \<Rightarrow> int \<Rightarrow> send_gate \<Rightarrow> bool" where
  "quiet_until s u st \<longleftrightarrow> u \<le> tb_suppressedUntilMs (bucket_at s st)"

lemma moves_windows:
  "moves st st' \<Longrightarrow> (\<forall>s. tb_suppressedUntilMs (bucket_at s st) \<le> tb_suppressedUntilMs (bucket_at s st')) \<and>
    (\<exists>new. admitted st' = admitted st @ new \<and> (\<forall>(s, t) \<in> set new. t = sg_now st \<and> tb_suppressedUntilMs (bucket_at s st) \<le> t)) \<and>
    (\<exists>log. windows_log st' = windows_log st @ log \<and> (\<forall>(k, u) \<in> set log. \<forall>s. bucket_scope k = Some s \<longrightarrow> quiet_until s u st'))"
proof (induction rule: moves.induct)
  case (m_same st st')
  then show ?case by (simp add: same_bucket_at) (simp add: same_buckets_def)
next
  case (m_trans st1 st2 st3)
  obtain n1 l1 where 1: "\<forall>s. tb_suppressedUntilMs (bucket_at s st1) \<le> tb_suppressedUntilMs (bucket_at s st2)"
      "admitted st2 = admitted st1 @ n1" "\<forall>(s, t) \<in> set n1. t = sg_now st1 \<and> tb_suppressedUntilMs (bucket_at s st1) \<le> t"
      "windows_log st2 = windows_log st1 @ l1" "\<forall>(k, u) \<in> set l1. \<forall>s. bucket_scope k = Some s \<longrightarrow> quiet_until s u st2"
    using m_trans.IH(1) by blast
  obtain n2 l2 where 2: "\<forall>s. tb_suppressedUntilMs (bucket_at s st2) \<le> tb_suppressedUntilMs (bucket_at s st3)"
      "admitted st3 = admitted st2 @ n2" "\<forall>(s, t) \<in> set n2. t = sg_now st2 \<and> tb_suppressedUntilMs (bucket_at s st2) \<le> t"
      "windows_log st3 = windows_log st2 @ l2" "\<forall>(k, u) \<in> set l2. \<forall>s. bucket_scope k = Some s \<longrightarrow> quiet_until s u st3"
    using m_trans.IH(2) by blast
  have now: "sg_now st2 = sg_now st1" using moves_frame [OF m_trans.hyps(1)] by simp
  have "\<forall>(s, t) \<in> set (n1 @ n2). t = sg_now st1 \<and> tb_suppressedUntilMs (bucket_at s st1) \<le> t"
    using 1(1,3) 2(3) now by (fastforce intro: order_trans)
  moreover have "\<forall>(k, u) \<in> set (l1 @ l2). \<forall>s. bucket_scope k = Some s \<longrightarrow> quiet_until s u st3"
    using 1(5) 2(1,5) unfolding quiet_until_def by (fastforce intro: order_trans)
  ultimately show ?case using 1(1,2,4) 2(1,2,4) by (auto intro: order_trans)
qed (auto simp: suppress_bucket_def suppressUntil_def take_token_def Let_def quiet_until_def ensure_def)

lemma step_windows:
  assumes "gate_invar st"
  shows "tb_suppressedUntilMs (bucket_at s st) \<le> tb_suppressedUntilMs (bucket_at s (gate_step e st))"
    "\<exists>new. grant_times s (gate_step e st) = grant_times s st @ new \<and> (\<forall>t \<in> set new. tb_suppressedUntilMs (bucket_at s st) \<le> t)"
    "(k, u) \<in> set (windows_log (gate_step e st)) \<Longrightarrow> (k, u) \<notin> set (windows_log st) \<Longrightarrow> bucket_scope k = Some s \<Longrightarrow> quiet_until s u (gate_step e st)"
proof -
  have *: "tb_suppressedUntilMs (bucket_at s st) \<le> tb_suppressedUntilMs (bucket_at s (gate_step e st)) \<and>
    (\<exists>new. grant_times s (gate_step e st) = grant_times s st @ new \<and> (\<forall>t \<in> set new. tb_suppressedUntilMs (bucket_at s st) \<le> t)) \<and>
    ((k, u) \<in> set (windows_log (gate_step e st)) \<longrightarrow> (k, u) \<notin> set (windows_log st) \<longrightarrow> bucket_scope k = Some s \<longrightarrow> quiet_until s u (gate_step e st))"
  proof (cases "\<exists>ms. e = Tick ms")
    case True
    then show ?thesis by (auto simp: grant_times_def bucket_at_def fresh_bucket_def new_bucket_def Let_def split: option.split scope.split)
  next
    case False
    then have m: "moves st (gate_step e st)" using assms by (intro gate_step_moves gate_ok_rates) (auto simp: gate_invar_def)
    obtain new log where w: "tb_suppressedUntilMs (bucket_at s st) \<le> tb_suppressedUntilMs (bucket_at s (gate_step e st))"
        "admitted (gate_step e st) = admitted st @ new" "\<forall>(s, t) \<in> set new. t = sg_now st \<and> tb_suppressedUntilMs (bucket_at s st) \<le> t"
        "windows_log (gate_step e st) = windows_log st @ log" "\<forall>(k, u) \<in> set log. \<forall>s. bucket_scope k = Some s \<longrightarrow> quiet_until s u (gate_step e st)"
      using moves_windows [OF m] by blast
    have "grant_times s (gate_step e st) = grant_times s st @ map snd (filter (\<lambda>x. fst x = s) new)" using w(2) by (simp add: grant_times_def)
    moreover have "\<forall>t \<in> set (map snd (filter (\<lambda>x. fst x = s) new)). tb_suppressedUntilMs (bucket_at s st) \<le> t" using w(3) by auto
    moreover have "(k, u) \<in> set log \<Longrightarrow> bucket_scope k = Some s \<Longrightarrow> quiet_until s u (gate_step e st)" using w(5) by auto
    ultimately show ?thesis using w(1,4) by auto
  qed
  then show "tb_suppressedUntilMs (bucket_at s st) \<le> tb_suppressedUntilMs (bucket_at s (gate_step e st))"
    "\<exists>new. grant_times s (gate_step e st) = grant_times s st @ new \<and> (\<forall>t \<in> set new. tb_suppressedUntilMs (bucket_at s st) \<le> t)"
    "(k, u) \<in> set (windows_log (gate_step e st)) \<Longrightarrow> (k, u) \<notin> set (windows_log st) \<Longrightarrow> bucket_scope k = Some s \<Longrightarrow> quiet_until s u (gate_step e st)"
    by blast+
qed

lemma quiet_run:
  assumes "gate_invar st" "quiet_until s u st"
  shows "\<forall>t \<in> set (drop (length (grant_times s st)) (grant_times s (run gate_step st es))). u \<le> t"
proof -
  have "\<exists>new. grant_times s (run gate_step st es) = grant_times s st @ new \<and> (\<forall>t \<in> set new. u \<le> t)"
    using assms
  proof (induction es arbitrary: st)
    case (Cons e es)
    have q: "quiet_until s u (gate_step e st)" using step_windows(1) [OF Cons.prems(1), of s e] Cons.prems(2) by (simp add: quiet_until_def)
    obtain n1 where 1: "grant_times s (gate_step e st) = grant_times s st @ n1" "\<forall>t \<in> set n1. u \<le> t"
      using step_windows(2) [OF Cons.prems(1), of s e] Cons.prems(2) unfolding quiet_until_def by (meson order_trans)
    from Cons.IH [OF gate_invar_step [OF Cons.prems(1)] q] 1 show ?case by auto
  qed simp
  then show ?thesis by auto
qed

lemma logged_quiet:
  assumes "gate_invar st" "\<forall>(k, u) \<in> set (windows_log st). \<forall>s. bucket_scope k = Some s \<longrightarrow> quiet_until s u st"
  shows "\<forall>(k, u) \<in> set (windows_log (run gate_step st es)). \<forall>s. bucket_scope k = Some s \<longrightarrow> quiet_until s u (run gate_step st es)"
  using assms
proof (induction es arbitrary: st)
  case (Cons e es)
  have "quiet_until s u (gate_step e st)" if "(k, u) \<in> set (windows_log (gate_step e st))" "bucket_scope k = Some s" for k u s
  proof (cases "(k, u) \<in> set (windows_log st)")
    case True
    then have "quiet_until s u st" using Cons.prems(2) that(2) by auto
    then show ?thesis using step_windows(1) [OF Cons.prems(1), of s e] by (simp add: quiet_until_def)
  qed (rule step_windows(3) [OF Cons.prems(1) that(1) _ that(2)])
  then have "\<forall>(k, u) \<in> set (windows_log (gate_step e st)). \<forall>s. bucket_scope k = Some s \<longrightarrow> quiet_until s u (gate_step e st)" by blast
  from Cons.IH [OF gate_invar_step [OF Cons.prems(1)] this] show ?case by simp
qed simp

lemma boot_quiet:
  assumes "(k, u) \<in> set ws" "bucket_scope k = Some s"
  shows "quiet_until s u (fold (\<lambda>(k, u). applyWindow False u k) ws st)"
  using assms(1)
proof (induction ws arbitrary: st)
  case (Cons w ws)
  have mono: "quiet_until s u st1 \<Longrightarrow> quiet_until s u (fold (\<lambda>(k, u). applyWindow False u k) ws st1)" for st1
    using moves_windows [OF moves_fold [of "\<lambda>(k, u). applyWindow False u k" st1 ws]] apply_window_moves
    by (auto simp: quiet_until_def split_beta intro: order_trans)
  show ?case
  proof (cases "(k, u) \<in> set ws")
    case False
    then have "w = (k, u)" using Cons.prems by simp
    moreover have "quiet_until s u (applyWindow False u k st)"
      using assms(2) by (auto simp: applyWindow_def bucket_scope_def quiet_until_def suppress_bucket_def suppressUntil_def split: option.splits scope.splits)
    ultimately show ?thesis using mono by simp
  qed (use Cons.IH in \<open>simp add: split_beta\<close>)
qed simp

lemma boot_log: "windows_log (createSendGate cfg now ws) = []"
proof -
  have "windows_log (applyWindow False u k st) = windows_log st" for u k st
    by (auto simp: applyWindow_def suppress_bucket_def upd_obj_def state_for_def messageState_def maybeEvict_def Let_def
        split: option.split scope.split prod.split)
  then have "windows_log (fold (\<lambda>(k, u). applyWindow False u k) ws st) = windows_log st" for st
    by (induction ws arbitrary: st) (auto simp: split_beta)
  then show ?thesis by (simp add: createSendGate_def initial_gate_def)
qed

text \<open>
  Claim C24: a flood window of the bot, of a chat or of a group silences it. Once such a window is open, because it
  was read from disk at boot, because Telegram answered a call with a flood wait, or because the gateway opened
  it, no call and no edit is granted a token of that scope before the window ends, of whatever priority and
  however its admission was under way. (The window of a single message has no bucket and is not covered: it is
  checked when the driver picks an edit up, and an edit already waiting for its admission passes it.)
\<close>

theorem flood_window_silences:
  assumes "config_ok cfg" "st = run gate_step (createSendGate cfg now ws) es" "(k, u) \<in> set ws \<union> set (windows_log st)"
    "bucket_scope k = Some s"
  shows "\<forall>t \<in> set (drop (length (grant_times s st)) (grant_times s (run gate_step st es'))). u \<le> t"
proof -
  note ok = created_ok [OF assms(1), of now ws]
  have inv: "gate_invar st" unfolding assms(2) by (rule gate_buckets.invar_run [OF ok])
  have mono: "quiet_until s u (createSendGate cfg now ws) \<Longrightarrow> quiet_until s u st"
  proof -
    have "gate_invar x \<Longrightarrow> quiet_until s u x \<Longrightarrow> quiet_until s u (run gate_step x es)" for x
    proof (induction es arbitrary: x)
      case (Cons e es)
      then show ?case using step_windows(1) [OF Cons.prems(1), of s e] gate_invar_step by (auto simp: quiet_until_def)
    qed simp
    then show "quiet_until s u (createSendGate cfg now ws) \<Longrightarrow> quiet_until s u st" using ok assms(2) by blast
  qed
  have "quiet_until s u st"
  proof (cases "(k, u) \<in> set ws")
    case True
    from boot_quiet [OF this assms(4), of "initial_gate cfg now"] show ?thesis by (intro mono) (simp add: createSendGate_def)
  next
    case False
    have "\<forall>(k, u) \<in> set (windows_log st). \<forall>s. bucket_scope k = Some s \<longrightarrow> quiet_until s u st"
      unfolding assms(2) by (rule logged_quiet [OF ok]) (simp add: boot_log)
    with False assms(3,4) show ?thesis by auto
  qed
  from quiet_run [OF inv this] show ?thesis .
qed

text \<open>A call to a chat is answered with a flood wait of two minutes; a later one fails fast, and one from disk holds the bot.\<close>

theorem flood_window_silences_witness:
  "windows_log (run gate_step (createSendGate SEND_GATE_DEFAULTS 0 [(''global'', 5)])
      [Tick 10, Gate 1 (to_chat ''c''), Continue (TCall 1), Settle (TCall 1) (Some (FloodWaitActive 120000))]) = [(''chat:c'', 120000)] \<and>
   (\<forall>es. list_all (\<lambda>t. 120000 \<le> t) (drop 1 (grant_times (ChatScope ''c'') (run gate_step (run gate_step (createSendGate SEND_GATE_DEFAULTS 0 [(''global'', 5)])
      [Tick 10, Gate 1 (to_chat ''c''), Continue (TCall 1), Settle (TCall 1) (Some (FloodWaitActive 120000))]) es))))"
proof -
  let ?st = "run gate_step (createSendGate SEND_GATE_DEFAULTS 0 [(''global'', 5)])
      [Tick 10, Gate 1 (to_chat ''c''), Continue (TCall 1), Settle (TCall 1) (Some (FloodWaitActive 120000))]"
  have l: "windows_log ?st = [(''chat:c'', 120000)]" by (simp add: gate_eval to_chat_def)
  have t: "length (grant_times (ChatScope ''c'') ?st) = 1" by (simp add: gate_eval to_chat_def grant_times_def)
  have "bucket_scope ''chat:c'' = Some (ChatScope ''c'')" by code_simp
  from flood_window_silences [OF defaults_ok refl _ this, of 120000 "[(''global'', 5)]" 0
      "[Tick 10, Gate 1 (to_chat ''c''), Continue (TCall 1), Settle (TCall 1) (Some (FloodWaitActive 120000))]"] l t
  show ?thesis by (simp add: list_all_iff)
qed

end
