(* ===== verification/Send_Gate_Edits.thy ===== *)
theory Send_Gate_Edits
  imports Send_Gate_Safety
begin

text \<open>
  The edits of one message in the send gate: the newest accepted payload is queued, under way, on screen or
  rejected, never lost, and the sends of one state object keep the edit floor. Three runs show where a message
  loses its state: a revert while another payload is under way, and the eviction of an idle message.
\<close>

section \<open>Trace of a state object\<close>

definition obj_trace :: "nat \<Rightarrow> send_gate \<Rightarrow> edit_note list" where
  "obj_trace i st = map snd (filter (\<lambda>x. fst x = i) (edit_log st))"

text \<open>The newest accepted payload, and whether its send was rejected.\<close>

fun track :: "edit_note \<Rightarrow> string option \<times> bool \<Rightarrow> string option \<times> bool" where
  "track (Accepted h) r = (Some h, False)"
| "track (Failed h) r = (fst r, snd r \<or> fst r = Some h)"
| "track (Started h t) r = r"
| "track (OnScreen h) r = r"
| "track (Skipped h) r = r"

definition newest_of :: "edit_note list \<Rightarrow> string option \<times> bool" where
  "newest_of ns = fold track ns (None, False)"

text \<open>The payload Telegram took last.\<close>

fun show_note :: "edit_note \<Rightarrow> string option \<Rightarrow> string option" where
  "show_note (OnScreen h) r = Some h"
| "show_note _ r = r"

definition screen :: "edit_note list \<Rightarrow> string option" where
  "screen ns = fold show_note ns None"

fun started_at :: "edit_note \<Rightarrow> int list" where
  "started_at (Started h t) = [t]"
| "started_at _ = []"

definition starts :: "edit_note list \<Rightarrow> int list" where
  "starts ns = concat (map started_at ns)"

fun gaps_ok :: "int \<Rightarrow> int list \<Rightarrow> bool" where
  "gaps_ok f (a # b # ts) \<longleftrightarrow> a + f \<le> b \<and> gaps_ok f (b # ts)"
| "gaps_ok f ts \<longleftrightarrow> True"

definition last_start :: "edit_note list \<Rightarrow> int option" where
  "last_start ns = (if starts ns = [] then None else Some (last (starts ns)))"

lemma newest_snoc [simp]: "newest_of (ns @ [n]) = track n (newest_of ns)" "newest_of [] = (None, False)"
  by (simp_all add: newest_of_def)

lemma screen_snoc [simp]: "screen (ns @ [n]) = show_note n (screen ns)" "screen [] = None"
  by (simp_all add: screen_def)

lemma starts_snoc [simp]: "starts (ns @ [n]) = starts ns @ started_at n" "starts [] = []"
  by (simp_all add: starts_def)

lemma gaps_snoc: "gaps_ok f (ts @ [t]) \<longleftrightarrow> gaps_ok f ts \<and> (ts = [] \<or> last ts + f \<le> t)"
  by (induction f ts rule: gaps_ok.induct) auto

lemma obj_trace_note [simp]: "obj_trace i (note_edit j n st) = (if i = j then obj_trace i st @ [n] else obj_trace i st)"
  by (simp add: obj_trace_def note_edit_def)

section \<open>The invariant of a state object\<close>

text \<open>Nothing accepted yet, or the newest payload is on screen, or its send was rejected.\<close>

definition at_rest :: "MessageEditState \<Rightarrow> edit_note list \<Rightarrow> bool" where
  "at_rest m ns \<longleftrightarrow> fst (newest_of ns) = None \<or> lastHash m = fst (newest_of ns) \<or> snd (newest_of ns)"

definition newest_kept :: "MessageEditState \<Rightarrow> edit_note list \<Rightarrow> bool" where
  "newest_kept m ns = (case pe_pending m of
       Some q \<Rightarrow> fst (newest_of ns) = Some (pe_hash q)
     | None \<Rightarrow> (case me_driver m of Driving p o' a f \<Rightarrow> fst (newest_of ns) = Some (pe_hash p) | _ \<Rightarrow> at_rest m ns))"

definition log_kept :: "int \<Rightarrow> int \<Rightarrow> MessageEditState \<Rightarrow> edit_note list \<Rightarrow> bool" where
  "log_kept f now m ns \<longleftrightarrow> gaps_ok f (starts ns) \<and> lastSentMs m = last_start ns \<and>
     lastHash m = screen ns \<and> (\<forall>t. lastSentMs m = Some t \<longrightarrow> t \<le> now)"

definition admitting_late :: "int \<Rightarrow> int \<Rightarrow> MessageEditState \<Rightarrow> bool" where
  "admitting_late f now m = (case me_driver m of
       Driving p o' a fired \<Rightarrow> a \<noteq> InFlight \<longrightarrow> (case lastSentMs m of None \<Rightarrow> True | Some t \<Rightarrow> t + f \<le> now)
     | _ \<Rightarrow> True)"

definition obj_ok :: "int \<Rightarrow> int \<Rightarrow> MessageEditState \<Rightarrow> edit_note list \<Rightarrow> bool" where
  "obj_ok f now m ns \<longleftrightarrow> newest_kept m ns \<and> log_kept f now m ns \<and> admitting_late f now m \<and>
     (pe_pending m \<noteq> None \<longrightarrow> me_driver m \<noteq> Idle)"

text \<open>All objects but those of \<open>X\<close>, which an operation has in its hands.\<close>

definition objs_ok :: "nat set \<Rightarrow> send_gate \<Rightarrow> bool" where
  "objs_ok X st \<longleftrightarrow> (\<forall>j < length (objs st). j \<notin> X \<longrightarrow> obj_ok (editFloorMs (sg st)) (sg_now st) (objs st ! j) (obj_trace j st)) \<and>
     (\<forall>x \<in> set (edit_log st). fst x < length (objs st)) \<and> (\<forall>x \<in> set (perMessage st). snd x < length (objs st))"

section \<open>Frames\<close>

definition same_objs :: "send_gate \<Rightarrow> send_gate \<Rightarrow> bool" where
  "same_objs st st' \<longleftrightarrow> sg st' = sg st \<and> sg_now st' = sg_now st \<and> objs st' = objs st \<and> edit_log st' = edit_log st \<and>
     perMessage st' = perMessage st"

lemma same_objs_refl [simp]: "same_objs st st"
  by (simp add: same_objs_def)

lemma same_objs_trans: "same_objs a b \<Longrightarrow> same_objs b c \<Longrightarrow> same_objs a c"
  by (simp add: same_objs_def)

lemma same_objs_ok: "same_objs st st' \<Longrightarrow> objs_ok X st' = objs_ok X st"
  by (simp add: same_objs_def objs_ok_def obj_trace_def)

lemma same_objs_fold: "(\<And>x s. same_objs s (f x s)) \<Longrightarrow> same_objs st (fold f xs st)"
proof (induction xs arbitrary: st)
  case (Cons x xs)
  then show ?case using same_objs_trans [OF Cons.prems [of st x] Cons.IH [OF Cons.prems]] by simp
qed simp

lemma bucket_same_objs: "same_objs st (set_bucket s b st)" "same_objs st (ensure s st)" "same_objs st (consume s st)"
  "same_objs st (suppress_bucket s u st)" "same_objs st (bump g st)" "same_objs st (count_queued c st)" "same_objs st (leave_tail b' t st)"
  "same_objs st (settle_callers cs r st)" "same_objs st (drop_call c' r st)" "same_objs st (set_adm c' a st)"
  "same_objs st (st\<lparr>calls := q\<rparr>)" "same_objs st (st\<lparr>criticalTail := ct\<rparr>)"
  by (simp_all add: same_objs_def ensure_def consume_def suppress_bucket_def bump_def count_queued_def leave_tail_def settle_callers_def
      drop_call_def set_adm_def set_bucket_def Let_def)

lemma buckets_for_objs: "same_objs st (bucketsFor opts st)"
  unfolding bucketsFor_def by (rule same_objs_fold) (rule bucket_same_objs)

lemma poll_objs: "same_objs st (snd (poll ss st))"
proof -
  have "same_objs (snd ws) (snd (fold poll_one ss ws))" for ws
  proof (induction ss arbitrary: ws)
    case (Cons s ss)
    show ?case using same_objs_trans [OF bucket_same_objs(1) Cons.IH [of "poll_one s ws", unfolded poll_one_snd]] by (simp add: poll_one_snd)
  qed simp
  from this [of "(0, st)"] show ?thesis by (simp add: poll_def)
qed

lemma consume_all_objs: "same_objs st (consume_all ss st)"
  unfolding consume_all_def by (rule same_objs_fold) (rule bucket_same_objs)

lemma polled_objs: "poll ss st = (w, st1) \<Longrightarrow> same_objs st st1 \<and> same_objs st (consume_all ss st1) \<and>
    same_objs st (count_queued c st1) \<and> same_objs st (leave_tail b t st1) \<and> same_objs st (leave_tail b t (consume_all ss st1))"
  using poll_objs [of st ss] consume_all_objs [of st1 ss] bucket_same_objs(6) [of st1 c] bucket_same_objs(7) [of st1 b t]
    bucket_same_objs(7) [of "consume_all ss st1" b t] by (simp add: same_objs_def)

lemma admit_iter_objs: "same_objs st (snd (admit_iter d f c ss st))"
proof -
  obtain w st1 where p: "poll ss st = (w, st1)" by (metis surj_pair)
  from polled_objs [OF p, of c] p show ?thesis by (auto simp: admit_iter_def split: option.split)
qed

lemma crit_iter_objs: "same_objs st (snd (crit_iter t s c ss st))"
proof -
  obtain w st1 where p: "poll ss st = (w, st1)" by (metis surj_pair)
  from polled_objs [OF p, of c s t] p show ?thesis by (auto simp: crit_iter_def Let_def)
qed

lemma admit_priority_objs: "same_objs st (snd (admitPriority t ss pr st))"
proof -
  obtain w st1 where p: "poll ss st = (w, st1)" by (metis surj_pair)
  from polled_objs [OF p] p show ?thesis
    by (auto simp: admitPriority_def Let_def admit_iter_objs crit_iter_objs bucket_same_objs split: PriorityClass.split)
qed

lemma resume_objs: "same_objs st (snd (resume_adm t j f ss a st))"
  by (auto simp: resume_adm_def admit_iter_objs crit_iter_objs split: adm.split)

lemma pressure_objs: "same_objs st (snd (editUnderPressure i opts st))"
proof -
  have "same_objs x (snd (pressure_scan ss x))" for ss x
  proof (induction ss arbitrary: x)
    case (Cons s ss)
    show ?case using bucket_same_objs(1) same_objs_trans [OF bucket_same_objs(1) Cons.IH] by (auto split: prod.split)
  qed simp
  then have "same_objs st (snd (pressure_scan ss (bucketsFor opts st)))" for ss by (rule same_objs_trans [OF buckets_for_objs])
  then show ?thesis by (simp add: editUnderPressure_def)
qed

section \<open>One object in hand\<close>

lemma upd_obj_simps [simp]: "length (objs (upd_obj i f st)) = length (objs st)" "sg (upd_obj i f st) = sg st"
  "sg_now (upd_obj i f st) = sg_now st" "edit_log (upd_obj i f st) = edit_log st" "perMessage (upd_obj i f st) = perMessage st" "obj_trace j (upd_obj i f st) = obj_trace j st"
  "i < length (objs st) \<Longrightarrow> objs (upd_obj i f st) ! i = f (objs st ! i)" "j \<noteq> i \<Longrightarrow> objs (upd_obj i f st) ! j = objs st ! j"
  by (simp_all add: upd_obj_def obj_trace_def)

lemma note_edit_simps [simp]: "objs (note_edit i n st) = objs st" "sg (note_edit i n st) = sg st" "sg_now (note_edit i n st) = sg_now st"
    "perMessage (note_edit i n st) = perMessage st"
  by (simp_all add: note_edit_def)

lemma hand_upd: "objs_ok {i} st \<Longrightarrow> objs_ok {i} (upd_obj i f st)"
  by (simp add: objs_ok_def)

lemma hand_note: "objs_ok {i} st \<Longrightarrow> i < length (objs st) \<Longrightarrow> objs_ok {i} (note_edit i n st)"
  by (auto simp: objs_ok_def note_edit_def obj_trace_def)

lemma take_in_hand: "objs_ok {} st \<Longrightarrow> objs_ok {i} st"
  by (simp add: objs_ok_def)

lemma put_back:
  "objs_ok {i} st \<Longrightarrow> (i < length (objs st) \<Longrightarrow> obj_ok (editFloorMs (sg st)) (sg_now st) (objs st ! i) (obj_trace i st)) \<Longrightarrow> objs_ok {} st"
  unfolding objs_ok_def by auto

lemma obj_of: "objs_ok {} st \<Longrightarrow> i < length (objs st) \<Longrightarrow> obj_ok (editFloorMs (sg st)) (sg_now st) (objs st ! i) (obj_trace i st)"
  by (simp add: objs_ok_def)

lemma same_objs_hand:
  "same_objs st st' \<Longrightarrow> objs st' = objs st \<and> obj_trace i st' = obj_trace i st \<and> sg st' = sg st \<and> sg_now st' = sg_now st"
  by (simp add: same_objs_def obj_trace_def)

text \<open>Windows change nothing of an object but its suppression, and add fresh objects.\<close>

definition windows_only :: "send_gate \<Rightarrow> send_gate \<Rightarrow> bool" where
  "windows_only st st' \<longleftrightarrow> sg st' = sg st \<and> sg_now st' = sg_now st \<and> edit_log st' = edit_log st \<and> length (objs st) \<le> length (objs st') \<and>
     (\<forall>j < length (objs st). \<exists>v. objs st' ! j = (objs st ! j)\<lparr>suppressedUntilMs := v\<rparr>) \<and>
     (\<forall>j < length (objs st'). length (objs st) \<le> j \<longrightarrow> (\<exists>v. objs st' ! j = fresh_state\<lparr>suppressedUntilMs := v\<rparr>)) \<and>
     (\<forall>x \<in> set (perMessage st'). x \<in> set (perMessage st) \<or> snd x < length (objs st'))"

lemma window_self: "\<exists>v. x = x\<lparr>suppressedUntilMs := v\<rparr>" for x :: MessageEditState
  by (rule exI [of _ "suppressedUntilMs x"]) simp

lemma windows_only_objs: "objs st' = objs st \<Longrightarrow> sg st' = sg st \<Longrightarrow> sg_now st' = sg_now st \<Longrightarrow> edit_log st' = edit_log st \<Longrightarrow>
    set (perMessage st') \<subseteq> set (perMessage st) \<Longrightarrow> windows_only st st'"
  using window_self unfolding windows_only_def by auto

lemma windows_old: "windows_only st st' \<Longrightarrow> j < length (objs st) \<Longrightarrow> \<exists>v. objs st' ! j = (objs st ! j)\<lparr>suppressedUntilMs := v\<rparr>"
  unfolding windows_only_def by blast

lemma windows_new: "windows_only st st' \<Longrightarrow> j < length (objs st') \<Longrightarrow> \<not> j < length (objs st) \<Longrightarrow>
    \<exists>v. objs st' ! j = fresh_state\<lparr>suppressedUntilMs := v\<rparr>"
  unfolding windows_only_def by (meson not_le)

lemma windows_only_trans:
  assumes "windows_only a b" "windows_only b c" shows "windows_only a c"
proof -
  have "\<exists>v. objs c ! j = (objs a ! j)\<lparr>suppressedUntilMs := v\<rparr>" if j: "j < length (objs a)" for j
  proof -
    obtain v1 where "objs b ! j = (objs a ! j)\<lparr>suppressedUntilMs := v1\<rparr>" using windows_old [OF assms(1) j] by blast
    moreover have "j < length (objs b)" using assms(1) j by (simp add: windows_only_def)
    moreover obtain v2 where "objs c ! j = (objs b ! j)\<lparr>suppressedUntilMs := v2\<rparr>" using windows_old [OF assms(2) calculation(2)] by blast
    ultimately show ?thesis by auto
  qed
  moreover have "\<exists>v. objs c ! j = fresh_state\<lparr>suppressedUntilMs := v\<rparr>" if j: "j < length (objs c)" "length (objs a) \<le> j" for j
  proof (cases "j < length (objs b)")
    case True
    then obtain v1 where "objs b ! j = fresh_state\<lparr>suppressedUntilMs := v1\<rparr>" using windows_new [OF assms(1), of j] j by auto
    moreover obtain v2 where "objs c ! j = (objs b ! j)\<lparr>suppressedUntilMs := v2\<rparr>" using windows_old [OF assms(2) True] by blast
    ultimately show ?thesis by auto
  next
    case False
    from windows_new [OF assms(2) j(1) this] show ?thesis .
  qed
  ultimately show ?thesis using assms by (auto simp: windows_only_def)
qed

lemma state_for_windows: "windows_only st (snd (state_for k st))"
proof -
  have 1: "windows_only st (maybeEvict r st)" for r
    by (rule windows_only_objs) (auto simp: maybeEvict_def Let_def)
  have f: "\<exists>v. fresh_state = fresh_state\<lparr>suppressedUntilMs := v\<rparr>" by (rule exI [of _ 0]) (simp add: fresh_state_def)
  have "windows_only x (snd (messageState k x))" for x
    using f window_self by (auto simp: messageState_def windows_only_def nth_append split: option.split)
  then have "windows_only st (snd (messageState k (maybeEvict r st)))" for r by (rule windows_only_trans [OF 1])
  with 1 show ?thesis by (auto simp: state_for_def Let_def split: option.split)
qed

lemma suppress_windows: "windows_only st (upd_obj i (\<lambda>m. if suppressedUntilMs m < u then m\<lparr>suppressedUntilMs := u\<rparr> else m) st)"
proof -
  have m: "\<exists>v. x = x\<lparr>suppressedUntilMs := v\<rparr>" for x :: MessageEditState by (rule exI [of _ "suppressedUntilMs x"]) simp
  have "\<exists>v. objs (upd_obj i (\<lambda>m. if suppressedUntilMs m < u then m\<lparr>suppressedUntilMs := u\<rparr> else m) st) ! j = (objs st ! j)\<lparr>suppressedUntilMs := v\<rparr>"
    if "j < length (objs st)" for j
    using that m by (cases "j = i") auto
  then show ?thesis by (auto simp: windows_only_def)
qed

lemma apply_window_only: "windows_only st (applyWindow p u k st)"
proof -
  let ?st = "if p then st\<lparr>windows_log := windows_log st @ [(k, u)]\<rparr> else st"
  have 1: "windows_only st ?st" by (rule windows_only_objs) simp_all
  have "windows_only ?st (suppress_bucket s u ?st)" for s by (rule windows_only_objs) (simp_all add: suppress_bucket_def)
  moreover have "windows_only ?st (upd_obj (fst (state_for key ?st)) (\<lambda>m. if suppressedUntilMs m < u then m\<lparr>suppressedUntilMs := u\<rparr> else m) (snd (state_for key ?st)))" for key
    by (rule windows_only_trans [OF state_for_windows suppress_windows])
  moreover have "windows_only ?st ?st" by (rule windows_only_objs) simp_all
  ultimately have "windows_only ?st (applyWindow p u k st)"
    by (auto simp: applyWindow_def Let_def case_prod_unfold split: option.split scope.split)
  with 1 show ?thesis by (rule windows_only_trans)
qed

lemma open_scoped_only: "windows_only st (openScopedWindowsForOpts opts u st)"
proof -
  have "windows_only x (fold (\<lambda>s. applyWindow True u (scope_key s)) ss x)" for ss x
  proof (induction ss arbitrary: x)
    case (Cons s ss)
    show ?case using windows_only_trans [OF apply_window_only Cons.IH] by simp
  qed (simp add: windows_only_objs)
  then show ?thesis by (simp add: openScopedWindowsForOpts_def)
qed

lemma obj_ok_suppress: "obj_ok f now (m\<lparr>suppressedUntilMs := v\<rparr>) ns = obj_ok f now m ns"
  by (simp add: obj_ok_def newest_kept_def at_rest_def log_kept_def admitting_late_def cong: option.case_cong driver.case_cong)

lemma obj_ok_fresh: "obj_ok f now fresh_state []"
  by (simp add: obj_ok_def newest_kept_def at_rest_def log_kept_def admitting_late_def fresh_state_def last_start_def)

lemma windows_only_ok:
  assumes "windows_only st st'" "objs_ok X st" shows "objs_ok X st'"
proof -
  have t: "obj_trace j st' = obj_trace j st" for j using assms(1) by (simp add: windows_only_def obj_trace_def)
  have "obj_ok (editFloorMs (sg st')) (sg_now st') (objs st' ! j) (obj_trace j st')" if j: "j < length (objs st')" "j \<notin> X" for j
  proof (cases "j < length (objs st)")
    case True
    then obtain v where "objs st' ! j = (objs st ! j)\<lparr>suppressedUntilMs := v\<rparr>" using windows_old [OF assms(1)] by blast
    with assms True j show ?thesis by (simp add: t obj_ok_suppress objs_ok_def windows_only_def)
  next
    case False
    then obtain v where "objs st' ! j = fresh_state\<lparr>suppressedUntilMs := v\<rparr>" using windows_new [OF assms(1) j(1)] by blast
    moreover have "obj_trace j st = []" using assms(2) False by (auto simp: obj_trace_def objs_ok_def filter_empty_conv)
    ultimately show ?thesis by (simp add: t obj_ok_suppress obj_ok_fresh)
  qed
  moreover have "snd x < length (objs st')" if "x \<in> set (perMessage st')" for x
  proof (cases "x \<in> set (perMessage st)")
    case True
    then have "snd x < length (objs st)" using assms(2) by (simp add: objs_ok_def)
    then show ?thesis using assms(1) by (simp add: windows_only_def)
  qed (use assms(1) that in \<open>auto simp: windows_only_def\<close>)
  ultimately show ?thesis using assms by (auto simp: objs_ok_def windows_only_def)
qed

section \<open>The driver keeps the invariant\<close>

lemma ready_after_floor: "lastSentMs m = Some t \<Longrightarrow> t + editFloorMs (sg st) \<le> ready_at st p m"
  by (auto simp: ready_at_def budget_ready_def floor_ready_def split: option.split)

lemma begin_turn_hand:
  "objs_ok {i} st \<Longrightarrow> objs_ok {i} (begin_turn i p st)" "length (objs (begin_turn i p st)) = length (objs st)"
  "sg (begin_turn i p st) = sg st" "sg_now (begin_turn i p st) = sg_now st" "obj_trace j (begin_turn i p st) = obj_trace j st"
  "i < length (objs st) \<Longrightarrow> objs (begin_turn i p st) ! i = (objs st ! i)\<lparr>editWindowTs := turn_times st p (objs st ! i)\<rparr>"
  by (auto simp: begin_turn_def Let_def bump_def obj_trace_def upd_obj_def objs_ok_def)

definition turn_ready :: "MessageEditState \<Rightarrow> edit_note list \<Rightarrow> bool" where
  "turn_ready m ns = (case pe_pending m of Some q \<Rightarrow> fst (newest_of ns) = Some (pe_hash q) | None \<Rightarrow> at_rest m ns)"

lemma start_admission_objs:
  "\<exists>a st1. same_objs st st1 \<and> start_admission i p opts st = set_driver i (Driving p opts a False) st1"
proof -
  define r where "r = (if pe_class p = Critical then admitPriority (TEdit i) (scopes_of opts) Critical (bucketsFor opts st)
      else admit_iter None False False (scopes_of opts) (bucketsFor opts st))"
  have "same_objs (bucketsFor opts st) (snd r)" by (simp add: r_def admit_priority_objs admit_iter_objs)
  then have "same_objs st (snd r)" by (rule same_objs_trans [OF buckets_for_objs])
  moreover have "start_admission i p opts st = set_driver i (Driving p opts (fst r) False) (snd r)"
    by (simp add: start_admission_def r_def case_prod_unfold)
  ultimately show ?thesis by blast
qed

lemma drive_turn_ok:
  assumes "objs_ok {i} st" "i < length (objs st)" "turn_ready (objs st ! i) (obj_trace i st)"
    "log_kept (editFloorMs (sg st)) (sg_now st) (objs st ! i) (obj_trace i st)"
  shows "objs_ok {} (drive_turn i opts st)"
proof (cases "pe_pending (objs st ! i)")
  case None
  have "obj_ok (editFloorMs (sg st)) (sg_now st) ((objs st ! i)\<lparr>me_driver := Idle\<rparr>) (obj_trace i st)"
    using assms(3,4) None by (simp add: obj_ok_def newest_kept_def turn_ready_def at_rest_def log_kept_def admitting_late_def)
  with None assms(1,2) show ?thesis
    by (intro put_back [of i]) (simp_all add: drive_turn_def set_driver_def hand_upd)
next
  case (Some q)
  let ?m = "objs st ! i" and ?b = "begin_turn i q st"
  note b = begin_turn_hand
  have nw: "fst (newest_of (obj_trace i st)) = Some (pe_hash q)" using assms(3) Some by (simp add: turn_ready_def)
  have fk: "gaps_ok (editFloorMs (sg st)) (starts (obj_trace i st))" "lastSentMs ?m = last_start (obj_trace i st)" "\<forall>t. lastSentMs ?m = Some t \<longrightarrow> t \<le> sg_now st"
      "lastHash ?m = screen (obj_trace i st)"
    using assms(4) by (simp_all add: log_kept_def)
  consider (wait) "sg_now st < ready_at st q ?m" | (skip) "\<not> sg_now st < ready_at st q ?m" "lastHash ?m = Some (pe_hash q)"
    | (go) "\<not> sg_now st < ready_at st q ?m" "lastHash ?m \<noteq> Some (pe_hash q)" by blast
  then show ?thesis
  proof cases
    case wait
    then have "drive_turn i opts st = set_driver i (Floored (ready_at st q ?m) opts) ?b" using Some by (simp add: drive_turn_def Let_def)
    then show ?thesis
      using assms(1,2) Some nw fk
      by (intro put_back [of i]) (simp_all add: set_driver_def hand_upd b obj_ok_def newest_kept_def log_kept_def admitting_late_def)
  next
    case skip
    let ?T = "settle_callers (pe_callers q) NoOpDropped (bump (\<lambda>c. c\<lparr>n_dropped := Suc (n_dropped c)\<rparr>) (take_pending i ?b))"
    have so: "same_objs (take_pending i ?b) ?T" by (rule same_objs_trans [OF bucket_same_objs(5,8)])
    have t: "objs_ok {i} (take_pending i ?b)" "length (objs (take_pending i ?b)) = length (objs st)"
        "objs (take_pending i ?b) ! i = ?m\<lparr>editWindowTs := turn_times st q ?m, pe_pending := None\<rparr>"
      using assms(1,2) by (simp_all add: take_pending_def hand_upd b)
    have "objs_ok {i} ?T" using same_objs_ok [OF so] t(1) by simp
    moreover note same_objs_hand [OF so, of i] t
    moreover have "drive_turn i opts st = set_driver i Idle (note_edit i (Skipped (pe_hash q)) ?T)"
      using skip Some by (simp add: drive_turn_def Let_def skip_edit_def)
    ultimately show ?thesis
      using assms(2) skip nw fk
      by (intro put_back [of i]) (simp_all add: set_driver_def hand_upd hand_note take_pending_def b obj_ok_def newest_kept_def at_rest_def
          log_kept_def admitting_late_def last_start_def)
  next
    case go
    let ?t = "take_pending i ?b"
    obtain a st1 where s: "same_objs ?t st1" "start_admission i q opts ?t = set_driver i (Driving q opts a False) st1"
      using start_admission_objs by blast
    have t: "objs_ok {i} ?t" "length (objs ?t) = length (objs st)" "sg ?t = sg st" "sg_now ?t = sg_now st" "obj_trace i ?t = obj_trace i st"
        "objs ?t ! i = ?m\<lparr>editWindowTs := turn_times st q ?m, pe_pending := None\<rparr>"
      using assms(1,2) by (simp_all add: take_pending_def hand_upd b)
    have late: "case lastSentMs ?m of None \<Rightarrow> True | Some t \<Rightarrow> t + editFloorMs (sg st) \<le> sg_now st"
      using ready_after_floor [of ?m _ st q] go(1) by (auto split: option.split)
    have "objs_ok {i} st1" using same_objs_ok [OF s(1)] t(1) by simp
    moreover note same_objs_hand [OF s(1), of i]
    moreover have "drive_turn i opts st = set_driver i (Driving q opts a False) st1" using go Some s(2) by (simp add: drive_turn_def Let_def)
    ultimately show ?thesis
      using assms(2) t nw fk late
      by (intro put_back [of i]) (simp_all add: set_driver_def hand_upd obj_ok_def newest_kept_def log_kept_def admitting_late_def)
  qed
qed

section \<open>Events keep the invariant\<close>

lemma obj_facts:
  assumes "objs_ok {} st" "i < length (objs st)" "me_driver (objs st ! i) = Driving p opts a fired"
  shows "case pe_pending (objs st ! i) of Some q \<Rightarrow> fst (newest_of (obj_trace i st)) = Some (pe_hash q) | None \<Rightarrow> fst (newest_of (obj_trace i st)) = Some (pe_hash p)"
    "log_kept (editFloorMs (sg st)) (sg_now st) (objs st ! i) (obj_trace i st)"
    "a \<noteq> InFlight \<Longrightarrow> lastSentMs (objs st ! i) = Some t \<Longrightarrow> t + editFloorMs (sg st) \<le> sg_now st"
  using obj_of [OF assms(1,2)] assms(3) by (auto simp: obj_ok_def newest_kept_def admitting_late_def split: option.splits)

text \<open>From a state that differs from a sound one by windows, callers and counters only.\<close>

definition like :: "nat \<Rightarrow> send_gate \<Rightarrow> send_gate \<Rightarrow> bool" where
  "like i st st' \<longleftrightarrow> objs_ok {} st' \<and> length (objs st) \<le> length (objs st') \<and> sg st' = sg st \<and> sg_now st' = sg_now st \<and>
     obj_trace i st' = obj_trace i st \<and> (\<exists>v. objs st' ! i = (objs st ! i)\<lparr>suppressedUntilMs := v\<rparr>)"

lemma like_windows:
  assumes "objs_ok {} st" "i < length (objs st)" "windows_only st st'" shows "like i st st'"
  using windows_only_ok [OF assms(3,1)] windows_old [OF assms(3,2)] assms(3) by (auto simp: like_def windows_only_def obj_trace_def)

lemma same_windows: "same_objs st st' \<Longrightarrow> windows_only st st'"
  by (rule windows_only_objs) (simp_all add: same_objs_def)

lemma failed_turn_ok:
  assumes "objs_ok {} st" "i < length (objs st)" "me_driver (objs st ! i) = Driving p opts a fired" "windows_only st st'"
  shows "objs_ok {} (drive_turn i opts (note_edit i (Failed (pe_hash p)) st'))"
proof -
  note f = obj_facts [OF assms(1-3)]
  have l: "like i st st'" by (rule like_windows [OF assms(1,2,4)])
  then obtain v where v: "objs st' ! i = (objs st ! i)\<lparr>suppressedUntilMs := v\<rparr>" by (auto simp: like_def)
  have len: "i < length (objs st')" using l assms(2) by (simp add: like_def)
  show ?thesis
  proof (rule drive_turn_ok)
    show "objs_ok {i} (note_edit i (Failed (pe_hash p)) st')" using l len by (simp add: like_def hand_note take_in_hand)
    show "turn_ready (objs (note_edit i (Failed (pe_hash p)) st') ! i) (obj_trace i (note_edit i (Failed (pe_hash p)) st'))"
      using f(1) l v by (auto simp: turn_ready_def at_rest_def like_def split: option.splits)
    show "log_kept (editFloorMs (sg (note_edit i (Failed (pe_hash p)) st'))) (sg_now (note_edit i (Failed (pe_hash p)) st'))
        (objs (note_edit i (Failed (pe_hash p)) st') ! i) (obj_trace i (note_edit i (Failed (pe_hash p)) st'))"
      using f(2) l v by (auto simp: log_kept_def like_def last_start_def)
  qed (simp add: len)
qed

lemma proceed_edit_ok: assumes "objs_ok {} st" shows "objs_ok {} (proceed_edit i st)"
proof (cases "i < length (objs st) \<and> (\<exists>p opts out fired. me_driver (objs st ! i) = Driving p opts (Decided out) fired)")
  case True
  then obtain p opts out fired where d: "i < length (objs st)" "me_driver (objs st ! i) = Driving p opts (Decided out) fired" by blast
  note f = obj_facts [OF assms d]
  have adm: "objs_ok {} (start_send i p opts st)"
  proof (rule put_back [of i])
    show "objs_ok {i} (start_send i p opts st)" using assms d(1) by (simp add: start_send_def hand_note hand_upd take_in_hand)
    have "gaps_ok (editFloorMs (sg st)) (starts (obj_trace i st) @ [sg_now st])"
    proof (cases "starts (obj_trace i st) = []")
      case False
      then have "lastSentMs (objs st ! i) = Some (last (starts (obj_trace i st)))" using f(2) by (simp add: log_kept_def last_start_def)
      from f(3) [OF _ this] f(2) False show ?thesis by (simp add: log_kept_def gaps_snoc)
    qed simp
    then show "obj_ok (editFloorMs (sg (start_send i p opts st))) (sg_now (start_send i p opts st)) (objs (start_send i p opts st) ! i)
        (obj_trace i (start_send i p opts st))"
      using f(1,2) d(1) by (auto simp: start_send_def obj_ok_def newest_kept_def log_kept_def admitting_late_def last_start_def split: option.splits)
  qed
  have sup: "objs_ok {} (drive_turn i opts (supersede i p st))"
  proof (rule drive_turn_ok)
    show "objs_ok {i} (supersede i p st)" using assms by (simp add: supersede_def hand_upd take_in_hand)
    show "turn_ready (objs (supersede i p st) ! i) (obj_trace i (supersede i p st))"
      using f(1) d(1) by (auto simp: supersede_def turn_ready_def split: option.splits)
    show "log_kept (editFloorMs (sg (supersede i p st))) (sg_now (supersede i p st)) (objs (supersede i p st) ! i) (obj_trace i (supersede i p st))"
      using f(2) d(1) by (simp add: supersede_def log_kept_def)
  qed (use d(1) in \<open>simp add: supersede_def\<close>)
  have ff: "objs_ok {} (drive_turn i opts (note_edit i (Failed (pe_hash p)) (settle_callers cs r (openScopedWindowsForOpts opts u (bump g st)))))" for cs r u g
    by (rule failed_turn_ok [OF assms d]) (rule windows_only_trans [OF same_windows [OF bucket_same_objs(5)]
        windows_only_trans [OF open_scoped_only same_windows [OF bucket_same_objs(8)]]])
  show ?thesis using d adm sup ff by (auto simp: proceed_edit_def split: adm_outcome.split)
qed (use assms in \<open>auto simp: proceed_edit_def split: driver.split adm.split\<close>)

lemma settle_edit_ok: assumes "objs_ok {} st" shows "objs_ok {} (settle_edit i err st)"
proof (cases "i < length (objs st) \<and> (\<exists>p opts fired. me_driver (objs st ! i) = Driving p opts InFlight fired)")
  case True
  then obtain p opts fired where d: "i < length (objs st)" "me_driver (objs st ! i) = Driving p opts InFlight fired" by blast
  note f = obj_facts [OF assms d]
  have landed: "objs_ok {} (drive_turn i opts (note_edit i (OnScreen (pe_hash p)) st'))"
    if s: "same_objs (upd_obj i (\<lambda>m. m\<lparr>lastHash := Some (pe_hash p)\<rparr>) st) st'" for st'
  proof -
    note h = same_objs_hand [OF s, of i]
    have h1: "objs_ok {i} st'" using same_objs_ok [OF s, of "{i}"] assms by (simp add: hand_upd take_in_hand)
    have len: "i < length (objs st')" using h d(1) by simp
    show ?thesis
    proof (rule drive_turn_ok)
      show "objs_ok {i} (note_edit i (OnScreen (pe_hash p)) st')" by (rule hand_note [OF h1 len])
      show "turn_ready (objs (note_edit i (OnScreen (pe_hash p)) st') ! i) (obj_trace i (note_edit i (OnScreen (pe_hash p)) st'))"
        using f(1) h d(1) by (auto simp: turn_ready_def at_rest_def split: option.splits)
      show "log_kept (editFloorMs (sg (note_edit i (OnScreen (pe_hash p)) st'))) (sg_now (note_edit i (OnScreen (pe_hash p)) st'))
          (objs (note_edit i (OnScreen (pe_hash p)) st') ! i) (obj_trace i (note_edit i (OnScreen (pe_hash p)) st'))"
        using f(2) h d(1) by (simp add: log_kept_def last_start_def)
    qed (simp add: len)
  qed
  have 1: "objs_ok {} (drive_turn i opts (note_edit i (OnScreen (pe_hash p)) (settle_callers cs r (bump g (upd_obj i (\<lambda>m. m\<lparr>lastHash := Some (pe_hash p)\<rparr>) st)))))" for cs r g
    by (rule landed) (rule same_objs_trans [OF bucket_same_objs(5) bucket_same_objs(8)])
  have 2: "objs_ok {} (drive_turn i opts (note_edit i (Failed (pe_hash p)) (settle_callers cs r (openScopedWindowsForOpts opts u st))))" for cs r u
    by (rule failed_turn_ok [OF assms d]) (rule windows_only_trans [OF open_scoped_only same_windows [OF bucket_same_objs(8)]])
  have 3: "objs_ok {} (drive_turn i opts (note_edit i (Failed (pe_hash p)) (settle_callers cs r st)))" for cs r
    by (rule failed_turn_ok [OF assms d]) (rule same_windows [OF bucket_same_objs(8)])
  from d 1 2 3 show ?thesis by (auto simp: settle_edit_def split: option.split send_error.split)
qed (use assms in \<open>auto simp: settle_edit_def split: driver.split adm.split\<close>)

section \<open>Submissions and the remaining events\<close>

lemma obj_ok_drivers:
  assumes "obj_ok f now m ns" "me_driver m = Driving p o' a fired" "pe_hash p' = pe_hash p" "a = InFlight \<longrightarrow> a' = InFlight"
  shows "obj_ok f now (m\<lparr>me_driver := Driving p' o'' a' fired'\<rparr>) ns"
  using assms by (auto simp: obj_ok_def newest_kept_def log_kept_def admitting_late_def split: option.splits)

lemma wake_ok: assumes "objs_ok {} st" shows "objs_ok {} (criticalWake i st)"
proof (rule put_back [of i])
  show "objs_ok {i} (criticalWake i st)" using assms by (simp add: criticalWake_def hand_upd take_in_hand)
  assume "i < length (objs (criticalWake i st))"
  then have i: "i < length (objs st)" by (simp add: criticalWake_def)
  show "obj_ok (editFloorMs (sg (criticalWake i st))) (sg_now (criticalWake i st)) (objs (criticalWake i st) ! i) (obj_trace i (criticalWake i st))"
  proof (cases "me_driver (objs st ! i)")
    case (Driving p o' a f)
    from obj_ok_drivers [OF obj_of [OF assms i] Driving refl, of a] i Driving show ?thesis by (simp add: criticalWake_def)
  qed (use obj_of [OF assms i] i in \<open>auto simp: criticalWake_def obj_ok_def newest_kept_def at_rest_def log_kept_def admitting_late_def
      split: option.splits\<close>)
qed

lemma release_ok: assumes "objs_ok {} st" shows "objs_ok {} (release_caller c i st)"
proof -
  let ?g = "\<lambda>m. m\<lparr>pe_pending := map_option (drop_caller c) (pe_pending m),
     me_driver := (case me_driver m of Driving p o' a f \<Rightarrow> Driving (drop_caller c p) o' a f | d \<Rightarrow> d)\<rparr>"
  have "objs_ok {} (upd_obj i ?g st)"
  proof (rule put_back [of i])
    show "objs_ok {i} (upd_obj i ?g st)" using assms by (simp add: hand_upd take_in_hand)
    assume "i < length (objs (upd_obj i ?g st))"
    with obj_of [OF assms, of i] show "obj_ok (editFloorMs (sg (upd_obj i ?g st))) (sg_now (upd_obj i ?g st)) (objs (upd_obj i ?g st) ! i)
        (obj_trace i (upd_obj i ?g st))"
      by (auto simp: obj_ok_def newest_kept_def at_rest_def log_kept_def admitting_late_def drop_caller_def split: option.splits driver.splits)
  qed
  with same_objs_ok [OF bucket_same_objs(8) [of "upd_obj i ?g st"]] show ?thesis by (simp add: release_caller_def)
qed

lemma settle_caller_ok: assumes "objs_ok {} st" shows "objs_ok {} (settleForCaller c i pr opts st)"
proof -
  obtain b st1 where p: "editUnderPressure i opts st = (b, st1)" by (metis surj_pair)
  then have "objs_ok {} st1" using pressure_objs [of st i opts] same_objs_ok [of st st1] assms by simp
  with p assms show ?thesis by (auto simp: settleForCaller_def release_ok)
qed

lemma turn_ok:
  assumes "objs_ok {} st" "i < length (objs st)" "\<not> (\<exists>p o' a f. me_driver (objs st ! i) = Driving p o' a f)"
  shows "objs_ok {} (drive_turn i opts st)"
proof (rule drive_turn_ok)
  show "turn_ready (objs st ! i) (obj_trace i st)"
    using obj_of [OF assms(1,2)] assms(3) by (auto simp: obj_ok_def newest_kept_def turn_ready_def split: option.splits driver.splits)
  show "log_kept (editFloorMs (sg st)) (sg_now st) (objs st ! i) (obj_trace i st)" using obj_of [OF assms(1,2)] by (simp add: obj_ok_def)
qed (use assms take_in_hand in auto)

lemma queue_obj:
  assumes "obj_ok f now m ns" "fst (newest_of ns') = Some (pe_hash q)" "starts ns' = starts ns" "screen ns' = screen ns" "me_driver m \<noteq> Idle"
  shows "obj_ok f now (m\<lparr>pe_pending := Some q\<rparr>) ns'"
  using assms by (auto simp: obj_ok_def newest_kept_def log_kept_def admitting_late_def last_start_def split: driver.splits)

lemma submit_ok:
  assumes "objs_ok {} st" "i < length (objs st)" "me_driver (objs st ! i) \<noteq> Idle"
  shows "fst (newest_of (obj_trace i st)) = Some (pe_hash q) \<Longrightarrow> objs_ok {} (upd_obj i (\<lambda>m. m\<lparr>pe_pending := Some q\<rparr>) st)"
    and "objs_ok {} (note_edit i (Accepted (pe_hash q)) (upd_obj i (\<lambda>m. m\<lparr>pe_pending := Some q\<rparr>) st))"
proof -
  let ?u = "upd_obj i (\<lambda>m. m\<lparr>pe_pending := Some q\<rparr>) st"
  have u: "objs_ok {i} ?u" using assms(1) by (simp add: hand_upd take_in_hand)
  note o' = obj_of [OF assms(1,2)]
  show "objs_ok {} ?u" if "fst (newest_of (obj_trace i st)) = Some (pe_hash q)"
    using queue_obj [OF o' that refl refl assms(3)] assms(2) by (intro put_back [OF u]) simp
  show "objs_ok {} (note_edit i (Accepted (pe_hash q)) ?u)"
    using queue_obj [OF o', of "obj_trace i st @ [Accepted (pe_hash q)]" q] assms(2,3) by (intro put_back [OF hand_note [OF u]]) simp_all
qed

lemma state_for_index: "objs_ok X st \<Longrightarrow> state_for k st = (i, st1) \<Longrightarrow> i < length (objs st1)"
proof -
  assume a: "objs_ok X st" "state_for k st = (i, st1)"
  have e: "objs (maybeEvict r st) = objs st" for r by (simp add: maybeEvict_def Let_def)
  have m: "set (perMessage (maybeEvict r st)) \<subseteq> set (perMessage st)" for r by (auto simp: maybeEvict_def Let_def)
  have b: "(k, j) \<in> set (perMessage st) \<Longrightarrow> j < length (objs st)" for j using a(1) by (fastforce simp: objs_ok_def)
  have "map_of (perMessage st) k = Some j \<Longrightarrow> j < length (objs st)" for j by (rule b) (rule map_of_SomeD)
  moreover have "map_of (perMessage (maybeEvict r st)) k = Some j \<Longrightarrow> j < length (objs st)" for r j
    by (rule b) (rule subsetD [OF m map_of_SomeD])
  ultimately show ?thesis using a(2) by (auto simp: state_for_def messageState_def Let_def e split: option.splits)
qed

lemma handle_edit_ok: assumes "objs_ok {} st" shows "objs_ok {} (handleEdit c mid h opts st)"
proof -
  obtain i st1 where s: "state_for (messageKey (chat_id opts) mid) st = (i, st1)" by (metis surj_pair)
  have ok1: "objs_ok {} st1" using windows_only_ok [OF state_for_windows assms, of "messageKey (chat_id opts) mid"] s by simp
  have len: "i < length (objs st1)" by (rule state_for_index [OF assms s])
  note o' = obj_of [OF ok1 len]
  show ?thesis
  proof (cases "pe_pending (objs st1 ! i)")
    case None
    let ?q = "\<lparr>pe_hash = h, pe_class = edit_priority opts, pe_callers = [c]\<rparr>"
    let ?st2 = "note_edit i (Accepted h) (upd_obj i (\<lambda>m. m\<lparr>pe_pending := Some ?q\<rparr>) st1)"
    have ok2: "objs_ok {} ?st2" if "me_driver (objs st1 ! i) \<noteq> Idle" using submit_ok(2) [OF ok1 len that, of ?q] by simp
    have "objs_ok {} (drive_turn i opts ?st2)"
    proof (rule drive_turn_ok)
      show "objs_ok {i} ?st2" using ok1 len by (simp add: hand_note hand_upd take_in_hand)
      show "log_kept (editFloorMs (sg ?st2)) (sg_now ?st2) (objs ?st2 ! i) (obj_trace i ?st2)"
        using o' len by (simp add: obj_ok_def log_kept_def last_start_def)
    qed (use len in \<open>simp_all add: turn_ready_def\<close>)
    moreover have "objs_ok {} (settle_callers [c] r (bump g st1))" for r g
      using same_objs_ok [OF same_objs_trans [OF bucket_same_objs(5) bucket_same_objs(8)]] ok1 by blast
    moreover obtain pr where pr: "edit_priority opts = pr" by blast
    ultimately show ?thesis
      using None s ok2 wake_ok [OF ok2, of i] unfolding pr by (auto simp: handleEdit_def Let_def settle_caller_ok pr)
  next
    case (Some q)
    let ?q = "coalesce c h (edit_priority opts) q"
    let ?st2 = "upd_obj i (\<lambda>m. m\<lparr>pe_pending := Some ?q\<rparr>) st1"
    have qh: "pe_hash ?q = h" by (simp add: coalesce_def)
    have nw: "fst (newest_of (obj_trace i st1)) = Some (pe_hash q)" using o' Some by (simp add: obj_ok_def newest_kept_def)
    have awake: "me_driver (objs st1 ! i) \<noteq> Idle" using o' Some by (simp add: obj_ok_def)
    have same: "objs_ok {} ?st2" if "pe_hash q = h" by (rule submit_ok(1) [OF ok1 len awake]) (simp add: qh nw that)
    have "objs_ok {} (note_edit i (Accepted h) ?st2)" using submit_ok(2) [OF ok1 len awake, of ?q] qh by simp
    moreover have "same_objs (note_edit i (Accepted h) ?st2) (note_edit i (Accepted h) (bump g ?st2))" for g
      by (simp add: same_objs_def note_edit_def bump_def)
    ultimately have diff: "objs_ok {} (note_edit i (Accepted h) (bump g ?st2))" for g using same_objs_ok by blast
    show ?thesis using Some s same diff by (simp add: handleEdit_def Let_def settle_caller_ok wake_ok)
  qed
qed

lemma gate_call_ok: assumes "objs_ok {} st" shows "objs_ok {} (gate c opts st)"
proof -
  have "same_objs st (snd (admitPriority t ss pr (bucketsFor opts st)))" for t ss pr
    by (rule same_objs_trans [OF buckets_for_objs admit_priority_objs])
  then have "same_objs st ((snd (admitPriority t ss pr (bucketsFor opts st)))\<lparr>calls := q\<rparr>)" for t ss pr q
    by (rule same_objs_trans [OF _ bucket_same_objs(11)])
  from same_objs_ok [OF this] assms handle_edit_ok [OF assms] show ?thesis
    by (auto simp: gate_def case_prod_unfold split: option.split)
qed

lemma resume_edit_ok: assumes "objs_ok {} st" shows "objs_ok {} (resume_edit i j st)"
proof (cases "i < length (objs st)")
  case True
  show ?thesis
  proof (cases "me_driver (objs st ! i)")
    case (Floored w opts)
    then show ?thesis using True assms turn_ok [OF assms True] by (simp add: resume_edit_def)
  next
    case (Driving p opts a fired)
    obtain a' st1 where r: "resume_adm (TEdit i) j fired (scopes_of opts) a st = (a', st1)" by (metis surj_pair)
    have so: "same_objs st st1" using resume_objs [of st "TEdit i" j fired "scopes_of opts" a] r by simp
    have ok1: "objs_ok {} st1" using same_objs_ok [OF so] assms by simp
    have "a = InFlight \<longrightarrow> a' = InFlight" using r by (auto simp: resume_adm_def)
    with obj_ok_drivers [OF obj_of [OF assms True] Driving refl, of a'] same_objs_hand [OF so, of i] True ok1
    have "objs_ok {} (set_driver i (Driving p opts a' fired) st1)"
      by (intro put_back [of i]) (simp_all add: set_driver_def hand_upd take_in_hand)
    with r True Driving show ?thesis by (simp add: resume_edit_def)
  qed (use assms True in \<open>simp add: resume_edit_def\<close>)
qed (use assms in \<open>simp add: resume_edit_def\<close>)

lemma call_events_ok:
  assumes "objs_ok {} st"
  shows "objs_ok {} (resume_call c j st)" "objs_ok {} (proceed_call c st)" "objs_ok {} (settle_call c err st)"
proof -
  have so: "objs_ok {} y" if "same_objs x y" "objs_ok {} x" for x y using same_objs_ok [OF that(1)] that(2) by simp
  have dc: "objs_ok {} (drop_call c r x)" if "objs_ok {} x" for c r x by (rule so [OF bucket_same_objs(9) that])
  have bp: "objs_ok {} (bump g x)" if "objs_ok {} x" for g x by (rule so [OF bucket_same_objs(5) that])
  have os: "objs_ok {} (openScopedWindowsForOpts opts u x)" if "objs_ok {} x" for opts u x by (rule windows_only_ok [OF open_scoped_only that])
  have sa: "objs_ok {} (set_adm c a x)" if "objs_ok {} x" for c a x by (rule so [OF bucket_same_objs(10) that])
  show "objs_ok {} (resume_call c j st)"
    using sa [OF so [OF resume_objs assms]] assms by (auto simp: resume_call_def case_prod_unfold split: option.split)
  show "objs_ok {} (proceed_call c st)"
    using assms by (auto simp: proceed_call_def dc bp os sa split: option.split adm.split adm_outcome.split)
  show "objs_ok {} (settle_call c err st)"
    using assms by (auto simp: settle_call_def dc bp os split: option.split send_error.split)
qed

lemma obj_ok_later: "obj_ok f now m ns \<Longrightarrow> now \<le> now' \<Longrightarrow> obj_ok f now' m ns"
  by (fastforce simp: obj_ok_def log_kept_def admitting_late_def split: driver.splits option.splits)

lemma tick_ok: "objs_ok {} st \<Longrightarrow> objs_ok {} (st\<lparr>sg_now := sg_now st + int ms\<rparr>)"
  using obj_ok_later [of _ "sg_now st" _ _ "sg_now st + int ms"] by (simp add: objs_ok_def obj_trace_def)

lemma gate_step_objs: "objs_ok {} st \<Longrightarrow> objs_ok {} (gate_step e st)"
  by (cases "(e, st)" rule: gate_step.cases)
    (simp_all add: gate_call_ok call_events_ok resume_edit_ok proceed_edit_ok settle_edit_ok tick_ok openFloodWindow_def
      openScopedFloodWindows_def windows_only_ok [OF apply_window_only] windows_only_ok [OF open_scoped_only])

interpretation gate_messages: event_system gate_step "objs_ok {}"
  by unfold_locales (rule gate_step_objs)

section \<open>What a message is promised\<close>

lemma created_objs: "objs_ok {} (createSendGate cfg now ws)"
proof -
  have f: "objs_ok {} st \<Longrightarrow> objs_ok {} (fold (\<lambda>(k, u). applyWindow False u k) ws st)" for st
    by (induction ws arbitrary: st) (auto simp: windows_only_ok [OF apply_window_only])
  show ?thesis unfolding createSendGate_def by (rule f) (simp add: objs_ok_def initial_gate_def)
qed

text \<open>
  Claim C25: no edit is lost. In every state the gate reaches, whatever edits were submitted, coalesced, interrupted or
  answered with an error: the newest payload a message's state object accepted is queued with a driver awake to send it,
  or is with the driver and nothing newer is queued, or is what Telegram took last, or its own send was rejected.
\<close>

theorem newest_edit_lands:
  assumes "st = run gate_step (createSendGate cfg now ws) es" "i < length (objs st)" "fst (newest_of (obj_trace i st)) = Some h"
  shows "(\<exists>q. pe_pending (objs st ! i) = Some q \<and> pe_hash q = h \<and> me_driver (objs st ! i) \<noteq> Idle) \<or>
    (\<exists>p opts a fired. pe_pending (objs st ! i) = None \<and> me_driver (objs st ! i) = Driving p opts a fired \<and> pe_hash p = h) \<or>
    screen (obj_trace i st) = Some h \<or> snd (newest_of (obj_trace i st))"
proof -
  have "objs_ok {} st" unfolding assms(1) by (rule gate_messages.invar_run [OF created_objs])
  from obj_of [OF this assms(2)] assms(3) show ?thesis
    by (auto simp: obj_ok_def newest_kept_def at_rest_def log_kept_def split: option.splits driver.splits)
qed

text \<open>
  The edit floor. The sends of one state object start at least the edit floor apart, whatever the priority of
  the edits, the windows and the errors in between.
\<close>

theorem edit_floor_kept:
  assumes "config_ok cfg"
  shows "gaps_ok (editFloorMs cfg) (starts (obj_trace i (run gate_step (createSendGate cfg now ws) es)))"
proof -
  let ?st = "run gate_step (createSendGate cfg now ws) es"
  have ok: "objs_ok {} ?st" by (rule gate_messages.invar_run [OF created_objs])
  have c: "sg ?st = cfg" by (simp add: run_config [OF created_ok [OF assms]] created_config)
  show ?thesis
  proof (cases "i < length (objs ?st)")
    case True
    from obj_of [OF ok this] show ?thesis by (simp add: obj_ok_def log_kept_def c)
  next
    case False
    with ok have "obj_trace i ?st = []" by (auto simp: obj_trace_def objs_ok_def filter_empty_conv)
    then show ?thesis by simp
  qed
qed

definition edit_to :: "int \<Rightarrow> string \<Rightarrow> SendGateOpts" where
  "edit_to m h = \<lparr>chat_id = Some ''c'', chatType = None, messageId = Some m, editPayload = Some h, priorityClass = Some Useful\<rparr>"

text \<open>Two edits follow a first one within its floor: they become one send, which starts at the floor and carries the newest payload.\<close>

definition burst_run :: "gate_event list" where
  "burst_run = [Gate 1 (edit_to 7 ''A''), Continue (TEdit 0), Settle (TEdit 0) None, Tick 100, Gate 2 (edit_to 7 ''B''),
     Gate 3 (edit_to 7 ''C''), Tick 1400, Resume (TEdit 0) 0, Continue (TEdit 0)]"

theorem newest_edit_lands_witness:
  "(\<exists>p opts a fired. me_driver (objs (run gate_step (createSendGate SEND_GATE_DEFAULTS 0 []) burst_run) ! 0) = Driving p opts a fired \<and>
     pe_hash p = ''C'') \<and>
   edit_log (run gate_step (createSendGate SEND_GATE_DEFAULTS 0 []) burst_run) =
     [(0, Accepted ''A''), (0, Started ''A'' 0), (0, OnScreen ''A''), (0, Accepted ''B''), (0, Accepted ''C''), (0, Started ''C'' 1500)]"
proof -
  let ?st = "run gate_step (createSendGate SEND_GATE_DEFAULTS 0 []) burst_run"
  have o: "length (objs ?st) = 1" "pe_pending (objs ?st ! 0) = None" by (simp_all add: burst_run_def edit_to_def gate_eval)
  have l: "edit_log ?st = [(0, Accepted ''A''), (0, Started ''A'' 0), (0, OnScreen ''A''), (0, Accepted ''B''), (0, Accepted ''C''), (0, Started ''C'' 1500)]"
    by (simp add: burst_run_def edit_to_def gate_eval)
  then have "newest_of (obj_trace 0 ?st) = (Some ''C'', False)" "screen (obj_trace 0 ?st) = Some ''A''" by (simp_all add: obj_trace_def newest_of_def screen_def)
  with newest_edit_lands [OF refl, of 0 SEND_GATE_DEFAULTS 0 "[]" burst_run "''C''"] o l show ?thesis by auto
qed

theorem edit_floor_kept_witness:
  "starts (obj_trace 0 (run gate_step (createSendGate SEND_GATE_DEFAULTS 0 []) burst_run)) = [0, 1500] \<and>
   gaps_ok 1500 (starts (obj_trace 0 (run gate_step (createSendGate SEND_GATE_DEFAULTS 0 []) burst_run)))"
proof
  show "starts (obj_trace 0 (run gate_step (createSendGate SEND_GATE_DEFAULTS 0 []) burst_run)) = [0, 1500]"
    by (simp add: burst_run_def edit_to_def gate_eval obj_trace_def starts_def)
  show "gaps_ok 1500 (starts (obj_trace 0 (run gate_step (createSendGate SEND_GATE_DEFAULTS 0 []) burst_run)))"
    using edit_floor_kept [OF defaults_ok, of 0 0 "[]" burst_run] by (simp add: SEND_GATE_DEFAULTS_def)
qed

section \<open>Where a message loses its state\<close>

text \<open>A is on screen, B is under way, and A is submitted again: it is dropped as a repeat, and B stays on screen.\<close>

definition revert_run :: "gate_event list" where
  "revert_run = [Gate 1 (edit_to 7 ''A''), Continue (TEdit 0), Settle (TEdit 0) None, Tick 1500, Gate 2 (edit_to 7 ''B''),
     Continue (TEdit 0), Gate 3 (edit_to 7 ''A''), Settle (TEdit 0) None]"

lemma revert_during_send_is_lost:
  "settled (run gate_step (createSendGate SEND_GATE_DEFAULTS 0 []) revert_run) = [(1, Landed), (3, NoOpDropped), (2, Landed)]"
  "screen (obj_trace 0 (run gate_step (createSendGate SEND_GATE_DEFAULTS 0 []) revert_run)) = Some ''B''"
  "me_driver (objs (run gate_step (createSendGate SEND_GATE_DEFAULTS 0 []) revert_run) ! 0) = Idle"
  by (simp_all add: revert_run_def edit_to_def gate_eval obj_trace_def screen_def)

text \<open>
  An edit of a message idle for a minute sweeps the entry it has just looked up: its driver works on an object the map no
  longer holds, the next edit starts a second driver at the same instant, and the older payload can end on screen.
\<close>

definition swept_run :: "gate_event list" where
  "swept_run = [Gate 1 (edit_to 7 ''A''), Continue (TEdit 0), Settle (TEdit 0) None, Tick 62000, Gate 2 (edit_to 7 ''B''),
     Continue (TEdit 0), Gate 3 (edit_to 7 ''C''), Continue (TEdit 1), Settle (TEdit 1) None, Settle (TEdit 0) None]"

lemma sweep_detaches_the_driver:
  "drop 3 (edit_log (run gate_step (createSendGate SEND_GATE_DEFAULTS 0 []) swept_run)) =
     [(0, Accepted ''B''), (0, Started ''B'' 62000), (1, Accepted ''C''), (1, Started ''C'' 62000), (1, OnScreen ''C''), (0, OnScreen ''B'')]"
  by (simp add: swept_run_def edit_to_def gate_eval)

text \<open>
  The window of one message is consulted when its driver picks the edit up, not when the admission behind it ends: an
  edit that waits for a token is sent at 1000 although its window was opened until 1000000 meanwhile.
\<close>

definition late_window_run :: "gate_event list" where
  "late_window_run = [Gate 1 (to_chat ''c''), Continue (TCall 1), Gate 2 (to_chat ''c''), Continue (TCall 2), Gate 3 (to_chat ''c''), Continue (TCall 3),
     Gate 4 (edit_to 7 ''A''), OpenWindow (''msg-edit:'' @ messageKey (Some ''c'') 7) 1000000, Tick 1000, Resume (TEdit 0) 0, Continue (TEdit 0)]"

lemma window_during_admission_ignored:
  "edit_log (run gate_step (createSendGate SEND_GATE_DEFAULTS 0 []) late_window_run) = [(0, Accepted ''A''), (0, Started ''A'' 1000)]"
  "suppressedUntilMs (objs (run gate_step (createSendGate SEND_GATE_DEFAULTS 0 []) late_window_run) ! 0) = 1000000"
  by (simp_all add: late_window_run_def edit_to_def to_chat_def gate_eval messageKey_def)

text \<open>The rolling budget of a message (here two cosmetic edits in five minutes) is forgotten when the message is swept after a minute.\<close>

definition paint :: "int \<Rightarrow> string \<Rightarrow> SendGateOpts" where
  "paint m h = (edit_to m h)\<lparr>priorityClass := Some Cosmetic\<rparr>"

definition budget_run :: "gate_event list" where
  "budget_run = [Gate 1 (paint 7 ''A''), Continue (TEdit 0), Settle (TEdit 0) None, Tick 1500, Gate 2 (paint 7 ''B''),
     Continue (TEdit 0), Settle (TEdit 0) None, Tick 62000, Gate 3 (paint 8 ''X''), Gate 4 (paint 7 ''C''), Continue (TEdit (Suc (Suc 0)))]"

lemma keys_differ: "show_int 7 \<noteq> show_int 8" "show_int 8 \<noteq> show_int 7"
  by code_simp+

lemma sweep_forgets_the_budget:
  "perMessageEditWindowMs SEND_GATE_DEFAULTS = 300000"
  "filter (\<lambda>x. fst x \<noteq> 1) (edit_log (run gate_step (createSendGate (SEND_GATE_DEFAULTS\<lparr>perMessageEditMaxPerWindow := 2\<rparr>) 0 []) budget_run)) =
     [(0, Accepted ''A''), (0, Started ''A'' 0), (0, OnScreen ''A''), (0, Accepted ''B''), (0, Started ''B'' 1500), (0, OnScreen ''B''),
      (Suc (Suc 0), Accepted ''C''), (Suc (Suc 0), Started ''C'' 63500)]"
  by (simp_all add: budget_run_def paint_def edit_to_def gate_eval keys_differ)

end
