(* ===== verification/Config_Merge.thy ===== *)
theory Config_Merge
  imports Vault_Acl
begin

text \<open>
  The configuration cascade (\<open>src/config/merge.ts\<close>): global defaults, the named profile and the agent's own block are merged
  layer by layer. A parsed YAML value is a \<open>json\<close>, an object is the list of its properties in insertion order, and
  each block of \<open>mergeAgentConfig\<close> is a rule that says what the merge assigns to one property. The schema has checked
  the layers before: a block that is declared as an object (an array) is one when it is present, so that
  \<open>x ?? {}\<close> and the enumeration of its entries are \<open>fields_of\<close> (\<open>items_of\<close>).
\<close>

section \<open>Values\<close>

datatype json = JUndef | JNull | JBool bool | JNum int | JStr string | JArr "json list" | JObj "(string \<times> json) list"

type_synonym obj = "(string \<times> json) list"

definition field :: "string \<Rightarrow> obj \<Rightarrow> json" where
  "field k m = (case map_of m k of None \<Rightarrow> JUndef | Some v \<Rightarrow> v)"

definition put :: "string \<Rightarrow> json \<Rightarrow> obj \<Rightarrow> obj" where
  "put k v m = AList.update k v m"

fun json_truthy :: "json \<Rightarrow> bool" where
  "json_truthy JUndef = False"
| "json_truthy JNull = False"
| "json_truthy (JBool b) = b"
| "json_truthy (JNum n) = (n \<noteq> 0)"
| "json_truthy (JStr s) = (s \<noteq> [])"
| "json_truthy _ = True"

fun fields_of :: "json \<Rightarrow> obj" where
  "fields_of (JObj m) = m"
| "fields_of _ = []"

fun items_of :: "json \<Rightarrow> json list" where
  "items_of (JArr xs) = xs"
| "items_of _ = []"

definition is_obj :: "json \<Rightarrow> bool" where
  "is_obj v \<longleftrightarrow> (case v of JObj _ \<Rightarrow> True | _ \<Rightarrow> False)"

text \<open>\<open>d ?? e\<close>\<close>

definition nullish_or :: "json \<Rightarrow> json \<Rightarrow> json" where
  "nullish_or d e = (if d = JUndef \<or> d = JNull then e else d)"

fun dedupe_from :: "json list \<Rightarrow> json list \<Rightarrow> json list" where
  "dedupe_from seen [] = []"
| "dedupe_from seen (x # xs) = (if x \<in> set seen then dedupe_from seen xs else x # dedupe_from (x # seen) xs)"

definition dedupe :: "json list \<Rightarrow> json list" where
  "dedupe xs = dedupe_from [] xs"

section \<open>Deep merge\<close>

definition POLLUTION_KEYS :: "string list" where
  "POLLUTION_KEYS = [''__proto__'', ''constructor'', ''prototype'']"

fun deepMergeJson :: "json \<Rightarrow> json \<Rightarrow> json"
  and deep_into :: "obj \<Rightarrow> obj \<Rightarrow> obj" where
  "deepMergeJson base override =
     (case override of
        JUndef \<Rightarrow> base
      | JObj ov \<Rightarrow> (case base of JObj bs \<Rightarrow> JObj (deep_into bs ov) | _ \<Rightarrow> override)
      | _ \<Rightarrow> override)"
| "deep_into out [] = out"
| "deep_into out ((k, v) # kvs) =
     deep_into (if k \<in> set POLLUTION_KEYS then out else put k (deepMergeJson (field k out) v) out) kvs"

declare deepMergeJson.simps [simp del]

section \<open>The rules of the merge\<close>

text \<open>A rule gets the value of the property in the defaults and in the agent; \<open>None\<close> leaves the agent's value.\<close>

type_synonym rule = "json \<Rightarrow> json \<Rightarrow> json option"

definition override_rule :: rule where
  "override_rule d a = (if d \<noteq> JUndef \<and> a = JUndef then Some d else None)"

definition either_set :: "(json \<Rightarrow> json \<Rightarrow> json) \<Rightarrow> rule" where
  "either_set f d a = (if json_truthy d \<or> json_truthy a then Some (f d a) else None)"

definition union_items :: "json \<Rightarrow> json \<Rightarrow> json" where
  "union_items d a = JArr (dedupe (items_of d @ items_of a))"

definition union_rule :: rule where
  "union_rule = either_set union_items"

definition tools_rule :: rule where
  "tools_rule = either_set (\<lambda>d a.
     JObj [(''allow'', union_items (field ''allow'' (fields_of d)) (field ''allow'' (fields_of a))),
           (''deny'', union_items (field ''deny'' (fields_of d)) (field ''deny'' (fields_of a)))])"

definition field_merge :: "obj \<Rightarrow> obj \<Rightarrow> obj" where
  "field_merge base override = fold (\<lambda>(k, v) m. if v = JUndef then m else put k v m) override base"

definition field_rule :: rule where
  "field_rule = either_set (\<lambda>d a. JObj (field_merge (fields_of d) (fields_of a)))"

definition soul_rule :: rule where
  "soul_rule = either_set (\<lambda>d a.
     (let base = fields_of d; override = fields_of a; combined = field_merge base override
      in JObj (if field ''shape'' base \<noteq> JUndef \<and>
             (field ''shape'' override = JUndef \<or> field ''shape'' override = JStr ''generalist'')
           then put ''shape'' (field ''shape'' base) combined else combined)))"

definition nested_merge :: "string list \<Rightarrow> obj \<Rightarrow> obj \<Rightarrow> obj" where
  "nested_merge ks base override =
     fold (\<lambda>(k, v) m. if v = JUndef then m
       else if k \<in> set ks \<and> json_truthy (field k base) \<and> is_obj v
         then put k (JObj (spread (fields_of (field k base)) (fields_of v))) m
       else put k v m) override base"

definition nested_rule :: "string list \<Rightarrow> rule" where
  "nested_rule ks = either_set (\<lambda>d a. JObj (nested_merge ks (fields_of d) (fields_of a)))"

definition spread_rule :: rule where
  "spread_rule = either_set (\<lambda>d a. JObj (spread (fields_of d) (fields_of a)))"

definition hooks_rule :: rule where
  "hooks_rule = either_set (\<lambda>d a.
     (let dHooks = fields_of d; aHooks = fields_of a; events = js_unique (map fst dHooks @ map fst aHooks)
      in JObj (fold (\<lambda>event m. put event (JArr (items_of (field event dHooks) @ items_of (field event aHooks))) m) events [])))"

definition subagents_rule :: rule where
  "subagents_rule = either_set (\<lambda>d a.
     (let dSub = fields_of d
      in JObj (fold (\<lambda>(name, override) m.
           if is_obj (field name dSub) \<and> is_obj override
           then put name (JObj (field_merge (fields_of (field name dSub)) (fields_of override))) m
           else put name override m) (fields_of a) dSub)))"

definition channels_rule :: rule where
  "channels_rule = either_set (\<lambda>d a.
     JObj (fold (\<lambda>(key, value) m. if value = JUndef then m
       else put key (JObj (field_merge (fields_of (field key m)) (fields_of value))) m) (fields_of a) (fields_of d)))"

fun text_of :: "json \<Rightarrow> string" where
  "text_of (JStr s) = s"
| "text_of _ = []"

definition join_blocks :: "string list \<Rightarrow> string" where
  "join_blocks parts = (case filter (\<lambda>p. p \<noteq> []) parts of [] \<Rightarrow> [] | p # ps \<Rightarrow> p @ concat (map (\<lambda>q. [CHR 10, CHR 10] @ q) ps))"

definition text_rule :: rule where
  "text_rule = either_set (\<lambda>d a. JStr (join_blocks [text_of d, text_of a]))"

definition schedule_rule :: rule where
  "schedule_rule d a = (if items_of d \<noteq> [] then Some (JArr (items_of d @ items_of a)) else None)"

definition settings_rule :: rule where
  "settings_rule = either_set (\<lambda>d a. deepMergeJson (nullish_or d (JObj [])) (nullish_or a (JObj [])))"

definition concat_rule :: rule where
  "concat_rule = either_set (\<lambda>d a. JArr (items_of d @ items_of a))"

section \<open>The cascade\<close>

text \<open>The blocks of \<open>mergeAgentConfig\<close> in the order of the code, before and behind the default of the capture emojis.\<close>

definition CASCADE :: "(string \<times> rule) list" where
  "CASCADE =
     [(''bot_token'', override_rule), (''timezone'', override_rule), (''model'', override_rule), (''dangerous_mode'', override_rule),
      (''network_isolation'', override_rule), (''thinking_effort'', override_rule), (''permission_mode'', override_rule),
      (''fallback_model'', override_rule), (''tools'', tools_rule), (''secrets'', union_rule), (''soul'', soul_rule),
      (''memory'', nested_rule [''recall'', ''retain'', ''disposition'']), (''mcp_servers'', spread_rule),
      (''bundled_skills'', spread_rule), (''hooks'', hooks_rule), (''env'', spread_rule), (''litellm'', nested_rule [''tags'']),
      (''subagents'', subagents_rule), (''session'', field_rule), (''session_continuity'', field_rule), (''release'', override_rule),
      (''channels'', channels_rule), (''system_prompt_append'', text_rule), (''schedule'', schedule_rule), (''skills'', union_rule),
      (''settings_raw'', settings_rule), (''claude_md_raw'', text_rule), (''cli_args'', concat_rule), (''allowed_tools'', union_rule),
      (''disallowed_tools'', union_rule), (''extra_stable_files'', union_rule), (''reactions'', field_rule),
      (''reaction_dispatch'', field_rule)]"

definition CASCADE_TAIL :: "(string \<times> rule) list" where
  "CASCADE_TAIL = [(''resources'', spread_rule), (''experimental'', spread_rule)]"

definition apply_rule :: "obj \<Rightarrow> string \<times> rule \<Rightarrow> obj \<Rightarrow> obj" where
  "apply_rule d kf m = (case snd kf (field (fst kf) d) (field (fst kf) m) of None \<Rightarrow> m | Some v \<Rightarrow> put (fst kf) v m)"

definition apply_rules :: "(string \<times> rule) list \<Rightarrow> obj \<Rightarrow> obj \<Rightarrow> obj" where
  "apply_rules steps d m = fold (apply_rule d) steps m"

text \<open>The two capture emojis (a technologist and a pin) by name.\<close>

definition CAPTURE_EMOJIS :: json where
  "CAPTURE_EMOJIS = JArr [JStr '':technologist:'', JStr '':pushpin:'']"

definition linearEnabled :: "obj \<Rightarrow> bool" where
  "linearEnabled m \<longleftrightarrow>
     field ''enabled'' (fields_of (field ''linear_agent'' (fields_of (field ''telegram'' (fields_of (field ''channels'' m)))))) = JBool True"

definition linear_default :: "obj \<Rightarrow> obj" where
  "linear_default m =
     (let rd = field ''reaction_dispatch'' m
      in if linearEnabled m \<and> (\<not> json_truthy rd \<or> field ''emojis'' (fields_of rd) = JUndef)
         then put ''reaction_dispatch'' (JObj [(''enabled'', nullish_or (field ''enabled'' (fields_of rd)) (JBool True)),
           (''emojis'', CAPTURE_EMOJIS)]) m
         else m)"

section \<open>Deprecated fields\<close>

definition DEPRECATED :: "string list" where
  "DEPRECATED = [''voice_in'', ''telegraph'', ''webhook_sources'']"

definition deprecation :: "string \<Rightarrow> string" where
  "deprecation k = k @ '' at the agent root is deprecated; move under channels.telegram.'' @ k @ '' (#596).''"

definition foldDeprecatedTelegramFields :: "obj \<Rightarrow> obj \<times> string list" where
  "foldDeprecatedTelegramFields root =
     (if \<forall>k \<in> set DEPRECATED. field k root = JUndef then (root, [])
      else let channels = fields_of (field ''channels'' root);
               present = filter (\<lambda>k. field k root \<noteq> JUndef) DEPRECATED;
               tg = fold (\<lambda>k tg. if field k tg = JUndef then put k (field k root) tg else tg) present
                 (fields_of (field ''telegram'' channels));
               rest = filter (\<lambda>(k, _). k \<notin> set DEPRECATED) root
           in (put ''channels'' (JObj (put ''telegram'' (JObj tg) channels)) rest, map deprecation present))"

section \<open>The public operations\<close>

text \<open>The process-wide flags of the module and the lines it wrote to the console.\<close>

record merge_state =
  suppressDeprecationLogs :: bool
  notifiedWorkerIsolationMove :: bool
  warned :: "string list"

definition merge_layers :: "obj option \<Rightarrow> obj \<Rightarrow> obj" where
  "merge_layers defs agent =
     (case defs of
        None \<Rightarrow> fst (foldDeprecatedTelegramFields agent)
      | Some d \<Rightarrow> let d' = fst (foldDeprecatedTelegramFields d)
          in apply_rules CASCADE_TAIL d' (linear_default (apply_rules CASCADE d' (fst (foldDeprecatedTelegramFields agent)))))"

definition mergeAgentConfig :: "obj option \<Rightarrow> obj \<Rightarrow> merge_state \<Rightarrow> obj \<times> merge_state" where
  "mergeAgentConfig defs agent st =
     (let msgs = snd (foldDeprecatedTelegramFields agent) @ (case defs of None \<Rightarrow> [] | Some d \<Rightarrow> snd (foldDeprecatedTelegramFields d))
      in (merge_layers defs agent,
          if suppressDeprecationLogs st then st else st\<lparr>warned := warned st @ map (\<lambda>m. ''[switchroom] DEPRECATION: '' @ m) msgs\<rparr>))"

definition ISOLATION_NOTICE :: string where
  "ISOLATION_NOTICE = ''[switchroom] NOTICE: defaults.subagents.worker.isolation moved to the `coding` profile in switchroom 0.6.6 (#682). Agents extending coding still get worktree-isolated workers; other agents would have hard-failed the first time they delegated. See CHANGELOG.''"

definition worker_isolated :: "obj option \<Rightarrow> bool" where
  "worker_isolated defs \<longleftrightarrow> (case defs of None \<Rightarrow> False
     | Some d \<Rightarrow> field ''isolation'' (fields_of (field ''worker'' (fields_of (field ''subagents'' d)))) = JStr ''worktree'')"

definition notice :: "obj option \<Rightarrow> merge_state \<Rightarrow> merge_state" where
  "notice defs st =
     (if \<not> suppressDeprecationLogs st \<and> \<not> notifiedWorkerIsolationMove st \<and> worker_isolated defs
      then st\<lparr>notifiedWorkerIsolationMove := True, warned := warned st @ [ISOLATION_NOTICE]\<rparr> else st)"

text \<open>The profile an agent extends; the property \<open>extends\<close> of the profile itself is stripped.\<close>

definition profile_of :: "(string \<times> obj) list option \<Rightarrow> obj \<Rightarrow> obj option" where
  "profile_of profs agent =
     (case field ''extends'' agent of
        JStr name \<Rightarrow> if name = [] then None else (case profs of None \<Rightarrow> None | Some ps \<Rightarrow> map_of ps name)
      | _ \<Rightarrow> None)"

definition without_extends :: "obj \<Rightarrow> obj" where
  "without_extends p = filter (\<lambda>(k, _). k \<noteq> ''extends'') p"

definition resolveAgentConfig :: "obj option \<Rightarrow> (string \<times> obj) list option \<Rightarrow> obj \<Rightarrow> merge_state \<Rightarrow> obj \<times> merge_state" where
  "resolveAgentConfig defs profs agent st0 =
     (let st = notice defs st0
      in case profile_of profs agent of
           None \<Rightarrow> mergeAgentConfig defs agent st
         | Some p \<Rightarrow> (case mergeAgentConfig defs (without_extends p) st of
             (layered, st1) \<Rightarrow> mergeAgentConfig (Some layered) agent st1))"

definition usesSwitchroomTelegramPlugin :: "obj \<Rightarrow> bool" where
  "usesSwitchroomTelegramPlugin agent \<longleftrightarrow>
     field ''plugin'' (fields_of (field ''telegram'' (fields_of (field ''channels'' agent)))) \<noteq> JStr ''official''"

text \<open>The hook entries in the shape of the settings file, one matcher group per event; \<open>async\<close> and the others only when set.\<close>

definition claude_entry :: "obj \<Rightarrow> json" where
  "claude_entry e =
     JObj ([(''type'', JStr ''command''), (''command'', field ''command'' e)] @
       filter (\<lambda>(k, v). v \<noteq> JUndef) (map (\<lambda>k. (k, field k e)) [''timeout'', ''async'', ''env'', ''matcher'']))"

definition translateHooksToClaudeShape :: "json \<Rightarrow> json" where
  "translateHooksToClaudeShape hooks =
     (let out = fold (\<lambda>(event, entries) m. if items_of entries = [] then m
            else put event (JArr [JObj [(''hooks'', JArr (map (claude_entry \<circ> fields_of) (items_of entries)))]]) m) (fields_of hooks) []
      in if \<not> json_truthy hooks then JUndef else if out = [] then JUndef else JObj out)"

end
