(* ===== verification/Config_Layers.thy ===== *)
theory Config_Layers
  imports Config_Merge
begin

text \<open>
  What the cascade promises: which layer wins where, that lists accumulate and texts are joined over all three layers, that
  the deep merge is the merge of the paths, and that the access decision of the vault broker, which reads the raw
  layers, is the decision on the merged configuration. Concrete configurations show where the code
  departs from its own description.
\<close>

section \<open>Properties of objects\<close>

lemma field_put [simp]: "field k (put k' v m) = (if k = k' then v else field k m)"
  by (simp add: field_def put_def update_conv)

lemma field_Nil [simp]: "field k [] = JUndef"
  by (simp add: field_def)

lemma field_Cons [simp]: "field k ((k', v) # m) = (if k = k' then v else field k m)"
  by (simp add: field_def)

lemma map_of_drop: "map_of (filter (\<lambda>(x, _). x \<notin> S) m) k = (if k \<in> S then None else map_of m k)"
  by (induction m) auto

lemma field_drop: "k \<notin> S \<Longrightarrow> field k (filter (\<lambda>(x, _). x \<notin> S) m) = field k m"
  by (simp add: field_def map_of_drop)

lemma field_without_extends [simp]: "k \<noteq> ''extends'' \<Longrightarrow> field k (without_extends p) = field k p"
  using field_drop [of k "{''extends''}" p] by (simp add: without_extends_def)

lemma deprecated_field: "k \<notin> set DEPRECATED \<Longrightarrow> k \<noteq> ''channels'' \<Longrightarrow> field k (fst (foldDeprecatedTelegramFields m)) = field k m"
  by (simp add: foldDeprecatedTelegramFields_def Let_def field_drop)

lemma dedupe_from_set [simp]: "set (dedupe_from seen xs) = set xs - set seen"
  by (induction seen xs rule: dedupe_from.induct) auto

lemma dedupe_from_distinct: "distinct (dedupe_from seen xs)"
  by (induction seen xs rule: dedupe_from.induct) auto

lemma set_dedupe [simp]: "set (dedupe xs) = set xs" "distinct (dedupe xs)"
  by (simp_all add: dedupe_def dedupe_from_distinct)

section \<open>One property of the merge\<close>

definition ruled :: "rule \<Rightarrow> json \<Rightarrow> json \<Rightarrow> json" where
  "ruled f d a = (case f d a of None \<Rightarrow> a | Some v \<Rightarrow> v)"

definition rule_for :: "string \<Rightarrow> rule" where
  "rule_for k = (case map_of (CASCADE @ CASCADE_TAIL) k of None \<Rightarrow> (\<lambda>d a. None) | Some f \<Rightarrow> f)"

lemma apply_rule_field: "field k (apply_rule d kf m) = (if k = fst kf then ruled (snd kf) (field k d) (field k m) else field k m)"
  by (auto simp: apply_rule_def ruled_def split: option.split)

lemma apply_rules_field:
  "distinct (map fst steps) \<Longrightarrow>
    field k (apply_rules steps d m) = (case map_of steps k of None \<Rightarrow> field k m | Some f \<Rightarrow> ruled f (field k d) (field k m))"
proof (induction steps arbitrary: m)
  case (Cons s steps)
  from Cons.IH [of "apply_rule d s m"] Cons.prems show ?case
    by (cases s) (auto simp: apply_rules_def apply_rule_field split: option.split dest: map_of_SomeD intro: rev_image_eqI)
qed (simp add: apply_rules_def)

lemma cascade_distinct: "distinct (map fst (CASCADE @ CASCADE_TAIL))"
  by (simp add: CASCADE_def CASCADE_TAIL_def)

definition plain_key :: "string \<Rightarrow> bool" where
  "plain_key k \<longleftrightarrow> k \<notin> set DEPRECATED \<and> k \<noteq> ''channels'' \<and> k \<noteq> ''reaction_dispatch'' \<and> k \<noteq> ''extends''"

lemma linear_default_field: "k \<noteq> ''reaction_dispatch'' \<Longrightarrow> field k (linear_default m) = field k m"
  by (simp add: linear_default_def Let_def)

lemma merge_layers_field:
  assumes "plain_key k \<or> k = ''extends''"
  shows "field k (merge_layers defs a) = (case defs of None \<Rightarrow> field k a | Some d \<Rightarrow> ruled (rule_for k) (field k d) (field k a))"
proof -
  have k: "k \<notin> set DEPRECATED" "k \<noteq> ''channels''" "k \<noteq> ''reaction_dispatch''"
    using assms by (auto simp: plain_key_def DEPRECATED_def)
  have d: "distinct (map fst CASCADE)" "distinct (map fst CASCADE_TAIL)" "set (map fst CASCADE) \<inter> set (map fst CASCADE_TAIL) = {}"
    using cascade_distinct by auto
  have disj: "map_of CASCADE k = Some f \<Longrightarrow> map_of CASCADE_TAIL k = Some g \<Longrightarrow> False" for f g
    using d(3) by (metis disjoint_iff domI dom_map_of_conv_image_fst list.set_map)
  show ?thesis
    using k d disj by (auto simp: merge_layers_def Let_def apply_rules_field linear_default_field deprecated_field rule_for_def map_add_def
        ruled_def split: option.split)
qed

definition layers :: "obj option \<Rightarrow> (string \<times> obj) list option \<Rightarrow> obj \<Rightarrow> obj list" where
  "layers defs profs agent =
     (case defs of None \<Rightarrow> [] | Some d \<Rightarrow> [d]) @ (case profile_of profs agent of None \<Rightarrow> [] | Some p \<Rightarrow> [p]) @ [agent]"

definition values_of :: "string \<Rightarrow> obj list \<Rightarrow> json list" where
  "values_of k ls = map (field k) ls"

definition resolved :: "obj option \<Rightarrow> (string \<times> obj) list option \<Rightarrow> obj \<Rightarrow> obj" where
  "resolved defs profs agent =
     (case profile_of profs agent of None \<Rightarrow> merge_layers defs agent
      | Some p \<Rightarrow> merge_layers (Some (merge_layers defs (without_extends p))) agent)"

lemma resolve_resolved: "fst (resolveAgentConfig defs profs agent st) = resolved defs profs agent"
  by (simp add: resolveAgentConfig_def resolved_def mergeAgentConfig_def Let_def split: option.split)

fun combine :: "(json \<Rightarrow> json \<Rightarrow> json) \<Rightarrow> json list \<Rightarrow> json" where
  "combine f [] = JUndef"
| "combine f (v # vs) = foldl f v vs"

lemma combine_snoc: "vs \<noteq> [] \<Longrightarrow> combine f (vs @ [v]) = f (combine f vs) v"
  by (cases vs) simp_all

lemma resolved_field: "plain_key k \<Longrightarrow> field k (resolved defs profs agent) = combine (ruled (rule_for k)) (values_of k (layers defs profs agent))"
  by (auto simp: resolved_def merge_layers_field layers_def values_of_def plain_key_def split: option.split)

lemma values_nonempty [simp]: "values_of k (layers defs profs agent) \<noteq> []"
  by (simp add: layers_def values_of_def)

text \<open>A rule that is a homomorphism for a reading of the values is one over all layers.\<close>

lemma combine_hom:
  assumes "\<And>d a. g (ruled f d a) = h (g d) (g a)" "vs \<noteq> []"
  shows "g (combine (ruled f) vs) = foldl h (g (hd vs)) (map g (tl vs))"
  using assms(2)
proof (induction vs rule: rev_nonempty_induct)
  case (snoc v vs)
  then show ?case by (simp add: combine_snoc assms(1))
qed simp

section \<open>Which layer wins\<close>

definition OVERRIDE_KEYS :: "string list" where
  "OVERRIDE_KEYS = [''bot_token'', ''timezone'', ''model'', ''dangerous_mode'', ''network_isolation'', ''thinking_effort'',
     ''permission_mode'', ''fallback_model'', ''release'']"

text \<open>The value of the most specific layer that has one; the layers run from the least to the most specific.\<close>

definition most_specific :: "json list \<Rightarrow> json" where
  "most_specific vs = (case filter (\<lambda>v. v \<noteq> JUndef) (rev vs) of [] \<Rightarrow> JUndef | v # _ \<Rightarrow> v)"

lemma combine_override: "combine (ruled override_rule) vs = most_specific vs"
proof (induction vs rule: rev_induct)
  case (snoc v vs)
  show ?case
  proof (cases "vs = []")
    case False
    have "ruled override_rule d v = (if v = JUndef then d else v)" for d
      by (auto simp: ruled_def override_rule_def)
    with False snoc show ?thesis by (auto simp: combine_snoc most_specific_def)
  qed (simp add: most_specific_def)
qed (simp add: most_specific_def)

lemma override_rules: "k \<in> set OVERRIDE_KEYS \<Longrightarrow> plain_key k \<and> rule_for k = override_rule"
proof -
  have "list_all (\<lambda>k. plain_key k \<and> rule_for k = override_rule) OVERRIDE_KEYS"
    by (simp add: OVERRIDE_KEYS_def plain_key_def DEPRECATED_def rule_for_def CASCADE_def CASCADE_TAIL_def)
  then show "k \<in> set OVERRIDE_KEYS \<Longrightarrow> plain_key k \<and> rule_for k = override_rule" by (simp add: list_all_iff)
qed

lemma resolved_other:
  assumes "k \<notin> set (map fst (CASCADE @ CASCADE_TAIL))" "k \<notin> set DEPRECATED"
  shows "field k (resolved defs profs agent) = field k agent"
proof -
  from assms(1) have "k \<noteq> ''channels''" "k \<noteq> ''reaction_dispatch''" by (auto simp: CASCADE_def)
  with assms have p: "plain_key k \<or> k = ''extends''" by (auto simp: plain_key_def)
  have "map_of (CASCADE @ CASCADE_TAIL) k = None" using assms(1) by (simp only: map_of_eq_None_iff set_map) simp
  then have "rule_for k = (\<lambda>d a. None)" by (simp only: rule_for_def option.case)
  then show ?thesis using p by (simp add: resolved_def merge_layers_field ruled_def split: option.split)
qed

text \<open>
  Claim C26: which layer wins. For a property that overrides (the bot token, the model, the permission mode, network isolation,
  the release and the others) the resolved value is that of the most specific layer that sets it, agent before
  profile before defaults; a property the cascade does not know comes from the agent alone, \<open>notion_workspace\<close> included,
  which the documentation describes as inherited (\<open>notion_databases_not_inherited\<close>).
\<close>

theorem most_specific_layer_wins:
  assumes "r = fst (resolveAgentConfig defs profs agent st)"
  shows "(\<forall>k \<in> set OVERRIDE_KEYS. field k r = most_specific (values_of k (layers defs profs agent))) \<and>
    (\<forall>k. k \<notin> set (map fst (CASCADE @ CASCADE_TAIL)) \<and> k \<notin> set DEPRECATED \<longrightarrow> field k r = field k agent)"
  using resolved_other by (simp add: assms resolve_resolved resolved_field override_rules combine_override)

section \<open>Lists accumulate\<close>

definition UNION_KEYS :: "string list" where
  "UNION_KEYS = [''secrets'', ''skills'', ''allowed_tools'', ''disallowed_tools'', ''extra_stable_files'']"

lemma untruthy [simp]: "\<not> json_truthy v \<Longrightarrow> items_of v = []" "\<not> json_truthy v \<Longrightarrow> fields_of v = []" "\<not> json_truthy v \<Longrightarrow> text_of v = []"
  by (cases v; simp)+

lemma combine_union:
  assumes "\<And>d a. g (ruled f d a) = g d \<union> g a" "vs \<noteq> []"
  shows "g (combine (ruled f) vs) = (\<Union>v \<in> set vs. g v)"
  using assms(2) by (induction vs rule: rev_nonempty_induct) (auto simp: combine_snoc assms(1))

lemma combine_append:
  assumes "\<And>d a. g (ruled f d a) = g d @ g a" "vs \<noteq> []"
  shows "g (combine (ruled f) vs) = concat (map g vs)"
  using assms(2) by (induction vs rule: rev_nonempty_induct) (auto simp: combine_snoc assms(1))

lemma union_items_set [simp]: "set (items_of (union_items d a)) = set (items_of d) \<union> set (items_of a)" "distinct (items_of (union_items d a))"
  by (simp_all add: union_items_def)

lemma ruled_union: "set (items_of (ruled union_rule d a)) = set (items_of d) \<union> set (items_of a)"
  by (auto simp: ruled_def union_rule_def either_set_def)

definition tool_list :: "string \<Rightarrow> json \<Rightarrow> json list" where
  "tool_list k v = items_of (field k (fields_of v))"

lemma ruled_tools:
  "k = ''allow'' \<or> k = ''deny'' \<Longrightarrow> set (tool_list k (ruled tools_rule d a)) = set (tool_list k d) \<union> set (tool_list k a)"
  by (auto simp: tool_list_def ruled_def tools_rule_def either_set_def)

lemma union_rules: "k \<in> set UNION_KEYS \<Longrightarrow> plain_key k \<and> rule_for k = union_rule"
proof -
  have "list_all (\<lambda>k. plain_key k \<and> rule_for k = union_rule) UNION_KEYS"
    by (simp add: UNION_KEYS_def plain_key_def DEPRECATED_def rule_for_def CASCADE_def CASCADE_TAIL_def)
  then show "k \<in> set UNION_KEYS \<Longrightarrow> plain_key k \<and> rule_for k = union_rule" by (simp add: list_all_iff)
qed

lemma tools_rules: "plain_key ''tools''" "rule_for ''tools'' = tools_rule"
  by (simp_all add: plain_key_def DEPRECATED_def rule_for_def CASCADE_def CASCADE_TAIL_def)

text \<open>
  Claim C27: restrictions accumulate. The denied tools of the resolved configuration are those denied by any layer, so no layer
  can lift a denial of a layer below it; the same holds for the allowed tools, the tool patterns of the command line, the
  standing vault grants and the skills: nothing is dropped, and nothing is added that no layer names.
\<close>

theorem restrictions_accumulate:
  assumes "r = fst (resolveAgentConfig defs profs agent st)" "ls = layers defs profs agent"
  shows "(\<forall>k \<in> set UNION_KEYS. set (items_of (field k r)) = (\<Union>v \<in> set (values_of k ls). set (items_of v))) \<and>
    (\<forall>k \<in> {''allow'', ''deny''}. set (tool_list k (field ''tools'' r)) = (\<Union>v \<in> set (values_of ''tools'' ls). set (tool_list k v)))"
proof (intro conjI ballI)
  fix k assume "k \<in> set UNION_KEYS"
  then show "set (items_of (field k r)) = (\<Union>v \<in> set (values_of k ls). set (items_of v))"
    using combine_union [where g = "\<lambda>v. set (items_of v)", OF ruled_union values_nonempty]
    by (simp add: assms resolve_resolved resolved_field union_rules)
next
  fix k assume "k \<in> {''allow'', ''deny''}"
  then have "set (tool_list k (ruled tools_rule d a)) = set (tool_list k d) \<union> set (tool_list k a)" for d a using ruled_tools by blast
  from combine_union [where g = "\<lambda>v. set (tool_list k v)", OF this values_nonempty]
  show "set (tool_list k (field ''tools'' r)) = (\<Union>v \<in> set (values_of ''tools'' ls). set (tool_list k v))"
    by (simp add: assms resolve_resolved resolved_field tools_rules)
qed

section \<open>Layers are concatenated\<close>

lemma ruled_append:
  "items_of (ruled schedule_rule d a) = items_of d @ items_of a" "items_of (ruled concat_rule d a) = items_of d @ items_of a"
  by (auto simp: ruled_def schedule_rule_def concat_rule_def either_set_def)

definition hook_list :: "string \<Rightarrow> json \<Rightarrow> json list" where
  "hook_list ev v = items_of (field ev (fields_of v))"

lemma fold_put_all: "field k (fold (\<lambda>ev m. put ev (g ev) m) evs m) = (if k \<in> set evs then g k else field k m)"
  by (induction evs arbitrary: m) auto

lemma field_unset: "k \<notin> set (map fst m) \<Longrightarrow> field k m = JUndef"
  by (simp add: field_def map_of_eq_None_iff [THEN iffD2])

lemma ruled_hooks: "hook_list ev (ruled hooks_rule d a) = hook_list ev d @ hook_list ev a"
  by (auto simp: hook_list_def ruled_def hooks_rule_def either_set_def Let_def fold_put_all field_unset)

lemma join_blocks_append: "join_blocks [join_blocks ps, q] = join_blocks (ps @ [q])"
  by (cases "filter (\<lambda>p. p \<noteq> []) ps"; cases q) (auto simp: join_blocks_def filter_eq_Cons_iff)

lemma combine_text: "vs \<noteq> [] \<Longrightarrow> text_of (combine (ruled text_rule) vs) = join_blocks (map text_of vs)"
proof (induction vs rule: rev_nonempty_induct)
  case (snoc v vs)
  have "text_of (ruled text_rule d a) = join_blocks [text_of d, text_of a]" for d a
    by (auto simp: ruled_def text_rule_def either_set_def join_blocks_def)
  with snoc show ?case by (simp add: combine_snoc join_blocks_append)
qed (simp add: join_blocks_def)

lemma list_rules:
  "plain_key ''schedule''" "rule_for ''schedule'' = schedule_rule" "plain_key ''cli_args''" "rule_for ''cli_args'' = concat_rule"
  "plain_key ''hooks''" "rule_for ''hooks'' = hooks_rule" "plain_key ''system_prompt_append''" "rule_for ''system_prompt_append'' = text_rule"
  "plain_key ''claude_md_raw''" "rule_for ''claude_md_raw'' = text_rule"
  by (simp_all add: plain_key_def DEPRECATED_def rule_for_def CASCADE_def CASCADE_TAIL_def)

text \<open>
  Layers are concatenated in order: the scheduled entries, the flags of the command line and the hooks of every
  event are those of the defaults, then of the profile, then of the agent, all of them; and the additions to the prompt and
  the instructions are the non-empty texts of the layers in that order, with a blank line between them.
\<close>

theorem layers_concatenate:
  assumes "r = fst (resolveAgentConfig defs profs agent st)" "ls = layers defs profs agent"
  shows "(\<forall>k \<in> {''schedule'', ''cli_args''}. items_of (field k r) = concat (map items_of (values_of k ls))) \<and>
    (\<forall>ev. hook_list ev (field ''hooks'' r) = concat (map (hook_list ev) (values_of ''hooks'' ls))) \<and>
    (\<forall>k \<in> {''system_prompt_append'', ''claude_md_raw''}. text_of (field k r) = join_blocks (map text_of (values_of k ls)))"
  using combine_append [where g = items_of, OF ruled_append(1) values_nonempty] combine_append [where g = items_of, OF ruled_append(2) values_nonempty]
    combine_append [where g = "hook_list ev" for ev, OF ruled_hooks values_nonempty] combine_text [OF values_nonempty]
  by (auto simp: assms resolve_resolved resolved_field list_rules)

section \<open>Deep merge of the raw settings\<close>

fun at_path :: "json \<Rightarrow> string list \<Rightarrow> json" where
  "at_path v [] = v"
| "at_path v (k # p) = at_path (field k (fields_of v)) p"

fun unique_json :: "json \<Rightarrow> bool" where
  "unique_json (JObj m) \<longleftrightarrow> distinct (map fst m) \<and> list_all (\<lambda>kv. unique_json (snd kv)) m"
| "unique_json _ \<longleftrightarrow> True"

definition no_pollution :: "string list \<Rightarrow> bool" where
  "no_pollution p \<longleftrightarrow> set p \<inter> set POLLUTION_KEYS = {}"

lemma at_path_undef [simp]: "at_path JUndef p = JUndef"
  by (induction p) simp_all

lemma merge_undef [simp]: "deepMergeJson b JUndef = b"
  by (simp add: deepMergeJson.simps)

lemma merge_objects [simp]: "deepMergeJson (JObj bs) (JObj os) = JObj (deep_into bs os)"
  by (simp add: deepMergeJson.simps)

lemma merge_replaces: "o' \<noteq> JUndef \<Longrightarrow> \<not> (is_obj b \<and> is_obj o') \<Longrightarrow> deepMergeJson b o' = o'"
  by (auto simp: deepMergeJson.simps is_obj_def split: json.split)

lemma deep_into_field:
  "distinct (map fst kvs) \<Longrightarrow>
    field k (deep_into out kvs) = (if k \<in> set POLLUTION_KEYS then field k out else deepMergeJson (field k out) (field k kvs))"
proof (induction kvs arbitrary: out)
  case (Cons kv kvs)
  obtain k' v where kv: "kv = (k', v)" by fastforce
  have "field k' kvs = JUndef" using Cons.prems kv by (intro field_unset) simp
  with Cons.IH Cons.prems kv show ?case by auto
qed simp

lemma unique_field: "unique_json (JObj m) \<Longrightarrow> unique_json (field k m)"
  by (auto simp: field_def list_all_iff split: option.split dest!: map_of_SomeD)

lemma field_of_nonobj: "\<not> is_obj v \<Longrightarrow> fields_of v = []"
  by (cases v) (simp_all add: is_obj_def)

text \<open>
  Claim C28: the deep merge is a merge of paths. Take a path without the names that would reach a prototype. A value of the
  override at that path that is not an object is the value of the result there; and where the override has no value at the path and
  only objects (or nothing) on the way to it, the result has what the base had, so a partial override touches nothing else.
\<close>

theorem deep_merge_paths:
  assumes "unique_json ov" "no_pollution p"
  shows "(at_path ov p \<noteq> JUndef \<and> \<not> is_obj (at_path ov p) \<longrightarrow> at_path (deepMergeJson b ov) p = at_path ov p) \<and>
    (at_path ov p = JUndef \<and> (\<forall>i < length p. is_obj (at_path ov (take i p)) \<or> at_path ov (take i p) = JUndef)
      \<longrightarrow> at_path (deepMergeJson b ov) p = at_path b p)"
  using assms
proof (induction p arbitrary: b ov)
  case (Cons k p)
  show ?case
  proof (cases "is_obj b \<and> is_obj ov")
    case True
    then obtain bs os where m: "b = JObj bs" "ov = JObj os" by (auto simp: is_obj_def split: json.splits)
    have u: "distinct (map fst os)" "unique_json (field k os)" using Cons.prems(1) unique_field unfolding m by auto
    have "k \<notin> set POLLUTION_KEYS" "no_pollution p" using Cons.prems(2) by (auto simp: no_pollution_def)
    with Cons.IH [OF u(2), of "field k bs"] u(1) show ?thesis
      by (auto simp: m deep_into_field less_Suc_eq_0_disj)
  next
    case False
    show ?thesis
    proof (cases "ov = JUndef")
      case False
      with \<open>\<not> (is_obj b \<and> is_obj ov)\<close> merge_replaces [of ov b] show ?thesis
        using field_of_nonobj [of b] by auto
    qed simp
  qed
qed (auto simp: merge_replaces)

section \<open>A configuration in three layers\<close>

definition demo_defaults :: obj where
  "demo_defaults = [(''model'', JStr ''sonnet''), (''timezone'', JStr ''UTC''),
     (''tools'', JObj [(''allow'', JArr [JStr ''Read'']), (''deny'', JArr [JStr ''Bash''])]),
     (''schedule'', JArr [JObj [(''cron'', JStr ''0 8 * * *''), (''secrets'', JArr [JStr ''news/key''])]]),
     (''system_prompt_append'', JStr ''Be brief.'')]"

definition demo_profiles :: "(string \<times> obj) list" where
  "demo_profiles = [(''coding'', [(''model'', JStr ''opus''), (''secrets'', JArr [JStr ''git/token'']),
     (''tools'', JObj [(''deny'', JArr [JStr ''WebFetch''])])])]"

definition demo_coder :: obj where
  "demo_coder = [(''extends'', JStr ''coding''), (''tools'', JObj [(''allow'', JArr [JStr ''Bash''])]),
     (''secrets'', JArr [JStr ''ci/token'']), (''system_prompt_append'', JStr ''You write code.'')]"

definition quiet :: merge_state where
  "quiet = \<lparr>suppressDeprecationLogs = True, notifiedWorkerIsolationMove = False, warned = []\<rparr>"

lemma demo_layers: "layers (Some demo_defaults) (Some demo_profiles) demo_coder = [demo_defaults, snd (hd demo_profiles), demo_coder]"
  by (simp add: layers_def profile_of_def demo_defaults_def demo_profiles_def demo_coder_def)

lemma demo_of: "values_of k (layers (Some demo_defaults) (Some demo_profiles) demo_coder) =
    [field k demo_defaults, field k (snd (hd demo_profiles)), field k demo_coder]"
  by (simp add: demo_layers values_of_def)

lemma demo_values:
  "values_of ''model'' (layers (Some demo_defaults) (Some demo_profiles) demo_coder) = [JStr ''sonnet'', JStr ''opus'', JUndef]"
  "values_of ''timezone'' (layers (Some demo_defaults) (Some demo_profiles) demo_coder) = [JStr ''UTC'', JUndef, JUndef]"
  "values_of ''tools'' (layers (Some demo_defaults) (Some demo_profiles) demo_coder) =
    [JObj [(''allow'', JArr [JStr ''Read'']), (''deny'', JArr [JStr ''Bash''])], JObj [(''deny'', JArr [JStr ''WebFetch''])],
     JObj [(''allow'', JArr [JStr ''Bash''])]]"
  "values_of ''secrets'' (layers (Some demo_defaults) (Some demo_profiles) demo_coder) = [JUndef, JArr [JStr ''git/token''], JArr [JStr ''ci/token'']]"
  "values_of ''system_prompt_append'' (layers (Some demo_defaults) (Some demo_profiles) demo_coder) =
    [JStr ''Be brief.'', JUndef, JStr ''You write code.'']"
  "map items_of (values_of ''schedule'' (layers (Some demo_defaults) (Some demo_profiles) demo_coder)) =
    [[JObj [(''cron'', JStr ''0 8 * * *''), (''secrets'', JArr [JStr ''news/key''])]], [], []]"
  unfolding demo_of by (simp_all add: demo_defaults_def demo_profiles_def demo_coder_def)

lemma demo_extends: "field ''extends'' demo_coder = JStr ''coding''"
  by (simp add: demo_coder_def)

theorem most_specific_layer_wins_witness:
  "field ''model'' (fst (resolveAgentConfig (Some demo_defaults) (Some demo_profiles) demo_coder quiet)) = JStr ''opus'' \<and>
   field ''timezone'' (fst (resolveAgentConfig (Some demo_defaults) (Some demo_profiles) demo_coder quiet)) = JStr ''UTC'' \<and>
   field ''extends'' (fst (resolveAgentConfig (Some demo_defaults) (Some demo_profiles) demo_coder quiet)) = JStr ''coding''"
proof -
  have "''extends'' \<notin> set (map fst (CASCADE @ CASCADE_TAIL)) \<and> ''extends'' \<notin> set DEPRECATED"
    by (simp add: CASCADE_def CASCADE_TAIL_def DEPRECATED_def)
  with most_specific_layer_wins [OF refl, of "Some demo_defaults" "Some demo_profiles" demo_coder quiet] show ?thesis
    by (simp add: OVERRIDE_KEYS_def most_specific_def demo_values demo_extends)
qed

theorem restrictions_accumulate_witness:
  "set (tool_list ''deny'' (field ''tools'' (fst (resolveAgentConfig (Some demo_defaults) (Some demo_profiles) demo_coder quiet)))) =
     {JStr ''Bash'', JStr ''WebFetch''} \<and>
   set (items_of (field ''secrets'' (fst (resolveAgentConfig (Some demo_defaults) (Some demo_profiles) demo_coder quiet)))) =
     {JStr ''git/token'', JStr ''ci/token''}"
  using restrictions_accumulate [OF refl refl, of "Some demo_defaults" "Some demo_profiles" demo_coder quiet]
  by (simp add: UNION_KEYS_def tool_list_def demo_values insert_commute)

theorem layers_concatenate_witness:
  "text_of (field ''system_prompt_append'' (fst (resolveAgentConfig (Some demo_defaults) (Some demo_profiles) demo_coder quiet))) =
     ''Be brief.'' @ [CHR 10, CHR 10] @ ''You write code.'' \<and>
   length (items_of (field ''schedule'' (fst (resolveAgentConfig (Some demo_defaults) (Some demo_profiles) demo_coder quiet)))) = 1"
  using layers_concatenate [OF refl refl, of "Some demo_defaults" "Some demo_profiles" demo_coder quiet]
  by (simp add: join_blocks_def demo_values)

theorem deep_merge_paths_witness:
  "at_path (deepMergeJson (JObj [(''permissions'', JObj [(''defaultMode'', JStr ''auto'')])])
       (JObj [(''permissions'', JObj [(''deny'', JArr [])])])) [''permissions'', ''defaultMode''] = JStr ''auto'' \<and>
   at_path (deepMergeJson (JObj [(''permissions'', JObj [(''defaultMode'', JStr ''auto'')])])
       (JObj [(''permissions'', JObj [(''deny'', JArr [])])])) [''permissions'', ''deny''] = JArr []"
proof -
  let ?o = "JObj [(''permissions'', JObj [(''deny'', JArr [])])]"
  have c: "no_pollution [''permissions'', ''defaultMode'']" "no_pollution [''permissions'', ''deny'']" by (simp_all add: no_pollution_def POLLUTION_KEYS_def)
  have u: "unique_json ?o" by simp
  show ?thesis
    using deep_merge_paths [OF u c(1), of "JObj [(''permissions'', JObj [(''defaultMode'', JStr ''auto'')])]"]
      deep_merge_paths [OF u c(2), of "JObj [(''permissions'', JObj [(''defaultMode'', JStr ''auto'')])]"]
    by (simp add: is_obj_def less_Suc_eq_0_disj all_conj_distrib del: merge_objects)
qed

section \<open>The vault broker reads the raw layers\<close>

definition strings_of :: "json \<Rightarrow> string list" where
  "strings_of v = map text_of (items_of v)"

definition string_opt :: "json \<Rightarrow> string option" where
  "string_opt v = (case v of JStr s \<Rightarrow> Some s | _ \<Rightarrow> None)"

definition mcp_view :: "json \<Rightarrow> mcp_entry" where
  "mcp_view v = (if v = JBool False then McpFalse
     else McpObject (case field ''secrets'' (fields_of v) of JArr xs \<Rightarrow> Some (map text_of xs) | _ \<Rightarrow> None))"

definition mcp_views :: "json \<Rightarrow> (string \<times> mcp_entry) list" where
  "mcp_views v = map (\<lambda>(k, e). (k, mcp_view e)) (fields_of v)"

definition agent_layer_view :: "obj \<Rightarrow> agent_config" where
  "agent_layer_view a = \<lparr>a_bot_token = string_opt (field ''bot_token'' a), a_extends = string_opt (field ''extends'' a),
     a_mcp_servers = mcp_views (field ''mcp_servers'' a), a_secrets = strings_of (field ''secrets'' a),
     a_schedule = map (\<lambda>e. strings_of (field ''secrets'' (fields_of e))) (items_of (field ''schedule'' a)),
     a_google_account = string_opt (field ''account'' (fields_of (field ''google_workspace'' a))),
     a_admin = (field ''admin'' a = JBool True), a_root = (field ''root'' a = JBool True)\<rparr>"

definition profile_view :: "obj \<Rightarrow> profile_config" where
  "profile_view p = \<lparr>p_mcp_servers = mcp_views (field ''mcp_servers'' p), p_secrets = strings_of (field ''secrets'' p)\<rparr>"

definition or_empty :: "obj option \<Rightarrow> obj" where
  "or_empty d = (case d of None \<Rightarrow> [] | Some m \<Rightarrow> m)"

text \<open>The configuration the broker reads, and the one in which the cascade has been resolved beforehand.\<close>

definition raw_view :: "config \<Rightarrow> obj option \<Rightarrow> (string \<times> obj) list option \<Rightarrow> (string \<times> obj) list \<Rightarrow> config" where
  "raw_view base defs profs ags = base\<lparr>agents := map (\<lambda>(n, a). (n, agent_layer_view a)) ags, defaults := profile_view (or_empty defs),
     profiles := map (\<lambda>(n, p). (n, profile_view p)) (case profs of None \<Rightarrow> [] | Some ps \<Rightarrow> ps)\<rparr>"

definition merged_view :: "config \<Rightarrow> obj option \<Rightarrow> (string \<times> obj) list option \<Rightarrow> (string \<times> obj) list \<Rightarrow> merge_state \<Rightarrow> config" where
  "merged_view base defs profs ags st = base\<lparr>agents := map (\<lambda>(n, a). (n, agent_layer_view (fst (resolveAgentConfig defs profs a st)))) ags,
     defaults := profile_view [], profiles := []\<rparr>"

lemma spread_Nil: "distinct (map fst m) \<Longrightarrow> spread [] m = m"
proof (induction m rule: rev_induct)
  case (snoc kv m)
  have "k \<notin> set (map fst m) \<Longrightarrow> AList.update k v m = m @ [(k, v)]" for k v by (induction m) auto
  with snoc show ?case by (cases kv) (simp add: spread_def)
qed (simp add: spread_def)

lemma view_update: "map (\<lambda>(k, e). (k, f e)) (AList.update k v m) = AList.update k (f v) (map (\<lambda>(k, e). (k, f e)) m)"
  by (induction m) auto

lemma view_spread: "map (\<lambda>(k, e). (k, f e)) (spread l u) = spread (map (\<lambda>(k, e). (k, f e)) l) (map (\<lambda>(k, e). (k, f e)) u)"
  by (induction u arbitrary: l) (auto simp: spread_def view_update)

lemma ruled_spread: "fields_of (ruled spread_rule d a) = spread (fields_of d) (fields_of a)"
  by (auto simp: ruled_def spread_rule_def either_set_def spread_def)

lemma mcp_rules: "plain_key ''mcp_servers''" "rule_for ''mcp_servers'' = spread_rule"
  by (simp_all add: plain_key_def DEPRECATED_def rule_for_def CASCADE_def CASCADE_TAIL_def)

definition servers :: "obj \<Rightarrow> obj" where
  "servers l = fields_of (field ''mcp_servers'' l)"

lemma resolved_servers:
  assumes "\<forall>l \<in> set (layers defs profs agent). distinct (map fst (servers l))"
  shows "servers (resolved defs profs agent) =
     spread (spread (servers (or_empty defs)) (servers (or_empty (profile_of profs agent)))) (servers agent)"
proof -
  have d: "distinct (map fst (servers agent))" using assms by (simp add: layers_def)
  have e: "servers [] = []" by (simp add: servers_def)
  have "servers (resolved defs profs agent) = foldl spread (hd (map servers (layers defs profs agent))) (tl (map servers (layers defs profs agent)))"
    using combine_hom [where g = fields_of and h = spread and f = spread_rule, OF ruled_spread values_nonempty]
    by (simp add: servers_def resolved_field mcp_rules values_of_def layers_def split: option.split)
  with assms d show ?thesis by (auto simp: layers_def or_empty_def e spread_Nil spread_distinct split: option.split)
       (simp_all add: spread_def)
qed

lemma resolved_secrets: "set (strings_of (field ''secrets'' (resolved defs profs agent))) =
    set (strings_of (field ''secrets'' (or_empty defs)) @ strings_of (field ''secrets'' (or_empty (profile_of profs agent))) @
      strings_of (field ''secrets'' agent))"
proof -
  have "set (items_of (field ''secrets'' (resolved defs profs agent))) = (\<Union>v \<in> set (values_of ''secrets'' (layers defs profs agent)). set (items_of v))"
    using combine_union [where g = "\<lambda>v. set (items_of v)", OF ruled_union values_nonempty]
    by (simp add: resolved_field union_rules UNION_KEYS_def)
  then show ?thesis by (auto simp: strings_of_def values_of_def layers_def or_empty_def split: option.splits)
qed

text \<open>The layers below the agent leave alone what the broker reads from the agent only.\<close>

definition lower_silent :: "obj \<Rightarrow> bool" where
  "lower_silent l \<longleftrightarrow> field ''bot_token'' l = JUndef \<and> items_of (field ''schedule'' l) = [] \<and>
     field ''webkite'' (servers l) \<noteq> JBool False \<and> field ''gdrive'' (servers l) \<noteq> JBool False"

lemma lower_none [simp]: "lower_silent []"
  by (simp add: lower_silent_def servers_def)

lemma opted_out: "map_of (map (\<lambda>(k, e). (k, mcp_view e)) m) k = Some McpFalse \<longleftrightarrow> field k m = JBool False"
proof -
  have v: "mcp_view e = McpFalse \<longleftrightarrow> e = JBool False" for e by (simp add: mcp_view_def)
  have "map_of (map (\<lambda>(k, e). (k, mcp_view e)) m) k = map_option mcp_view (map_of m k)" by (simp add: map_of_map)
  then show ?thesis by (auto simp: v field_def split: option.split)
qed

lemma field_spread: "distinct (map fst u) \<Longrightarrow> field k (spread l u) = (case map_of u k of None \<Rightarrow> field k l | Some v \<Rightarrow> v)"
  by (simp add: field_def spread_map_of map_add_def split: option.split)

lemma opt_out_spread:
  assumes "distinct (map fst p)" "distinct (map fst a)" "field k d \<noteq> JBool False" "field k p \<noteq> JBool False"
  shows "field k (spread (spread d p) a) = JBool False \<longleftrightarrow> field k a = JBool False"
proof (cases "map_of a k")
  case None
  moreover have "field k (spread d p) \<noteq> JBool False"
  proof (cases "map_of p k")
    case (Some v)
    then show ?thesis using assms(4) by (simp add: field_spread [OF assms(1)]) (simp add: field_def)
  qed (simp add: field_spread [OF assms(1)] assms(3))
  ultimately show ?thesis using assms(2) by (simp add: field_spread) (simp add: field_def)
next
  case (Some v)
  then show ?thesis using assms(2) by (simp add: field_spread) (simp add: field_def)
qed

lemma resolved_view:
  assumes "\<forall>l \<in> set (layers defs profs agent). distinct (map fst (servers l))"
    "lower_silent (or_empty defs)" "lower_silent (or_empty (profile_of profs agent))"
  defines "r \<equiv> agent_layer_view (resolved defs profs agent)" and "a \<equiv> agent_layer_view agent"
  shows "a_bot_token r = a_bot_token a" "a_schedule r = a_schedule a" "a_google_account r = a_google_account a"
    "k \<in> {''webkite'', ''gdrive''} \<Longrightarrow> map_of (a_mcp_servers r) k = Some McpFalse \<longleftrightarrow> map_of (a_mcp_servers a) k = Some McpFalse"
proof -
  have low: "\<forall>l \<in> set (butlast (layers defs profs agent)). lower_silent l"
    using assms(2,3) by (auto simp: layers_def or_empty_def split: option.splits)
  have ov: "plain_key ''bot_token''" "rule_for ''bot_token'' = override_rule" using override_rules [of "''bot_token''"] by (simp_all add: OVERRIDE_KEYS_def)
  have "field ''bot_token'' (resolved defs profs agent) = field ''bot_token'' agent"
    using assms(2,3) by (auto simp: resolved_field ov combine_override most_specific_def values_of_def layers_def
        lower_silent_def or_empty_def split: option.splits)
  then show "a_bot_token r = a_bot_token a" by (simp add: r_def a_def agent_layer_view_def)
  have "items_of (field ''schedule'' (resolved defs profs agent)) = items_of (field ''schedule'' agent)"
    using assms(2,3) combine_append [where g = items_of, OF ruled_append(1) values_nonempty]
    by (auto simp: resolved_field list_rules values_of_def layers_def lower_silent_def or_empty_def split: option.splits)
  then show "a_schedule r = a_schedule a" by (simp add: r_def a_def agent_layer_view_def)
  have "field ''google_workspace'' (resolved defs profs agent) = field ''google_workspace'' agent"
    by (rule resolved_other) (simp_all add: CASCADE_def CASCADE_TAIL_def DEPRECATED_def)
  then show "a_google_account r = a_google_account a" by (simp add: r_def a_def agent_layer_view_def)
  assume k: "k \<in> {''webkite'', ''gdrive''}"
  have d: "distinct (map fst (servers agent))" "distinct (map fst (servers (or_empty (profile_of profs agent))))"
    using assms(1) by (auto simp: layers_def or_empty_def servers_def split: option.splits)
  have "field k (servers (resolved defs profs agent)) = JBool False \<longleftrightarrow> field k (servers agent) = JBool False"
    unfolding resolved_servers [OF assms(1)] by (rule opt_out_spread [OF d(2,1)]) (use k assms(2,3) in \<open>auto simp: lower_silent_def\<close>)
  then show "map_of (a_mcp_servers r) k = Some McpFalse \<longleftrightarrow> map_of (a_mcp_servers a) k = Some McpFalse"
    by (simp add: r_def a_def agent_layer_view_def mcp_views_def opted_out servers_def)
qed

text \<open>
  Claim C29: the vault broker agrees with the cascade. It reads the raw layers of the configuration; where the defaults and the
  profile declare no bot token, no schedule entry and no opt-out of the two built-in servers, its answer to every agent and
  key is the one it would give on the configuration the cascade resolves, the reason of a denial included.
\<close>

theorem broker_agrees_with_cascade:
  assumes "map_of ags agentName = Some agent"
    "\<forall>l \<in> set (layers defs profs agent). distinct (map fst (servers l))"
    "lower_silent (or_empty defs)" "lower_silent (or_empty (profile_of profs agent))"
  shows "checkAclByAgent (raw_view base defs profs ags) agentName key = checkAclByAgent (merged_view base defs profs ags st) agentName key"
proof -
  define r where "r = resolved defs profs agent"
  let ?raw = "raw_view base defs profs ags" and ?mer = "merged_view base defs profs ags st"
  note v = resolved_view [OF assms(2-4), folded r_def]
  have ag: "map_of (agents ?raw) agentName = Some (agent_layer_view agent)" "map_of (agents ?mer) agentName = Some (agent_layer_view r)"
    using assms(1) by (simp_all add: raw_view_def merged_view_def map_of_map resolve_resolved r_def)
  have base: "google_accounts ?raw = google_accounts ?mer" "google_ws ?raw = google_ws ?mer" "telegram_bot_token ?raw = telegram_bot_token ?mer"
    by (simp_all add: raw_view_def merged_view_def)
  have empty: "profile_view [] = \<lparr>p_mcp_servers = [], p_secrets = []\<rparr>" by (simp add: profile_view_def mcp_views_def strings_of_def)
  have ext: "a_extends (agent_layer_view agent) = string_opt (field ''extends'' agent)" by (simp add: agent_layer_view_def)
  have ps: "profiles ?raw = map (\<lambda>(n, p). (n, profile_view p)) (case profs of None \<Rightarrow> [] | Some ps \<Rightarrow> ps)" "profiles ?mer = []"
    by (simp_all add: raw_view_def merged_view_def)
  have prof: "agent_profile ?raw (agent_layer_view agent) = profile_view (or_empty (profile_of profs agent))"
    by (auto simp: agent_profile_def Let_def ps ext string_opt_def profile_of_def or_empty_def map_of_map empty split: json.split option.split)
  have prof': "agent_profile ?mer x = profile_view []" for x
    by (simp add: agent_profile_def Let_def ps empty split: option.split)
  have "servers [] = []" by (simp add: servers_def)
  with assms(2) have "distinct (map fst (servers (or_empty defs)))" by (auto simp: layers_def or_empty_def split: option.splits)
  then have dr: "distinct (map fst (servers r))" by (simp add: r_def resolved_servers [OF assms(2)] spread_distinct)
  have mcp: "effectiveMcp ?raw (agent_layer_view agent) = effectiveMcp ?mer (agent_layer_view r)"
  proof -
    have "effectiveMcp ?raw (agent_layer_view agent) = map (\<lambda>(k, e). (k, mcp_view e)) (servers r)"
      unfolding r_def resolved_servers [OF assms(2)] view_spread
      by (simp add: effectiveMcp_def prof) (simp add: raw_view_def profile_view_def agent_layer_view_def mcp_views_def servers_def)
    moreover have "effectiveMcp ?mer (agent_layer_view r) = map (\<lambda>(k, e). (k, mcp_view e)) (servers r)"
      using dr by (simp add: effectiveMcp_def prof') (simp add: merged_view_def profile_view_def agent_layer_view_def mcp_views_def servers_def spread_Nil
          spread_def [of "[]" "[]"] comp_def case_prod_beta)
    ultimately show ?thesis by simp
  qed
  have unset: "strings_of JUndef = []" by (simp add: strings_of_def)
  have std: "set (standingSecrets ?raw (agent_layer_view agent)) = set (standingSecrets ?mer (agent_layer_view r))"
    by (simp add: standingSecrets_def prof prof') (simp add: raw_view_def merged_view_def profile_view_def agent_layer_view_def r_def resolved_secrets unset)
  have "bot_token_key ?raw (agent_layer_view agent) = bot_token_key ?mer (agent_layer_view r)" by (simp only: bot_token_key_def base v(1))
  moreover have "isGoogleClientCredentialKeyForAgent ?raw agentName key = isGoogleClientCredentialKeyForAgent ?mer agentName key"
    using v(4) [of "''gdrive''"] by (simp add: isGoogleClientCredentialKeyForAgent_def ag base v(3))
  moreover have "isWebkiteCredentialKeyForAgent (agent_layer_view agent) key = isWebkiteCredentialKeyForAgent (agent_layer_view r) key"
    using v(4) [of "''webkite''"] by (simp add: isWebkiteCredentialKeyForAgent_def)
  moreover have "checkGoogleAccountAcl ?raw agentName account key = checkGoogleAccountAcl ?mer agentName account key" for account
    by (simp add: checkGoogleAccountAcl_def base)
  ultimately show ?thesis by (simp add: checkAclByAgent_def ag mcp std v(2) split: option.split)
qed

definition demo_base :: config where
  "demo_base = \<lparr>agents = [], defaults = \<lparr>p_mcp_servers = [], p_secrets = []\<rparr>, profiles = [], google_accounts = [], google_ws = None,
     telegram_bot_token = Some ''vault:bot'', approvalAuth = None, postureMintAgents = [], adminOnlyKeys = [], auditFailClosed = False\<rparr>"

definition silent_defaults :: obj where
  "silent_defaults = [(''secrets'', JArr [JStr ''weather/key'']),
     (''mcp_servers'', JObj [(''search'', JObj [(''secrets'', JArr [JStr ''search/key''])])])]"

theorem broker_agrees_with_cascade_witness:
  "checkAclByAgent (raw_view demo_base (Some silent_defaults) (Some demo_profiles) [(''coder'', demo_coder)]) ''coder'' ''search/key'' = Allow \<and>
   checkAclByAgent (merged_view demo_base (Some silent_defaults) (Some demo_profiles) [(''coder'', demo_coder)] quiet) ''coder'' ''search/key'' = Allow"
proof -
  have p: "profile_of (Some demo_profiles) demo_coder = Some [(''model'', JStr ''opus''), (''secrets'', JArr [JStr ''git/token'']),
      (''tools'', JObj [(''deny'', JArr [JStr ''WebFetch''])])]"
    by (simp add: profile_of_def demo_profiles_def demo_coder_def)
  have l: "\<forall>l \<in> set (layers (Some silent_defaults) (Some demo_profiles) demo_coder). distinct (map fst (servers l))"
    unfolding layers_def p by (simp add: servers_def silent_defaults_def demo_coder_def)
  have q: "lower_silent (or_empty (Some silent_defaults))" "lower_silent (or_empty (profile_of (Some demo_profiles) demo_coder))"
    unfolding p by (simp_all add: lower_silent_def or_empty_def servers_def silent_defaults_def)
  have "checkAclByAgent (raw_view demo_base (Some silent_defaults) (Some demo_profiles) [(''coder'', demo_coder)]) ''coder'' ''search/key'' = Allow"
    by code_simp
  with broker_agrees_with_cascade [OF _ l q, of "[(''coder'', demo_coder)]" "''coder''" demo_base "''search/key''" quiet]
  show ?thesis by simp
qed

section \<open>Departures\<close>

text \<open>
  A schedule entry in the defaults reaches every agent's merged schedule, with the vault keys it declares; the broker looks at the
  agent's own entries only and denies those keys to every agent.
\<close>

lemma default_schedule_secrets_denied:
  "map (\<lambda>e. strings_of (field ''secrets'' (fields_of e))) (items_of (field ''schedule''
     (fst (resolveAgentConfig (Some demo_defaults) None demo_coder quiet)))) = [[''news/key'']]"
  "\<not> allows (checkAclByAgent (raw_view demo_base (Some demo_defaults) None [(''coder'', demo_coder)]) ''coder'' ''news/key'')"
  "allows (checkAclByAgent (merged_view demo_base (Some demo_defaults) None [(''coder'', demo_coder)] quiet) ''coder'' ''news/key'')"
  by code_simp+

definition linear_channels :: "bool \<Rightarrow> json" where
  "linear_channels b = JObj [(''telegram'', JObj [(''linear_agent'', JObj [(''enabled'', JBool b)])])]"

text \<open>The capture emojis are filled in only when there is a defaults block, however empty.\<close>

lemma capture_needs_defaults:
  "field ''reaction_dispatch'' (fst (resolveAgentConfig None None [(''channels'', linear_channels True)] quiet)) = JUndef"
  "field ''emojis'' (fields_of (field ''reaction_dispatch'' (fst (resolveAgentConfig (Some []) None [(''channels'', linear_channels True)] quiet)))) = CAPTURE_EMOJIS"
  by code_simp+

text \<open>An agent that turns the integration off still gets them when it extends a profile: they were filled in one layer below.\<close>

lemma capture_outlives_opt_out:
  "linearEnabled (fst (resolveAgentConfig (Some [(''channels'', linear_channels True)]) (Some [(''p'', [])])
     [(''extends'', JStr ''p''), (''channels'', linear_channels False)] quiet)) = False"
  "field ''emojis'' (fields_of (field ''reaction_dispatch'' (fst (resolveAgentConfig (Some [(''channels'', linear_channels True)]) (Some [(''p'', [])])
     [(''extends'', JStr ''p''), (''channels'', linear_channels False)] quiet)))) = CAPTURE_EMOJIS"
  "field ''reaction_dispatch'' (fst (resolveAgentConfig (Some [(''channels'', linear_channels True)]) None
     [(''channels'', linear_channels False)] quiet)) = JUndef"
  by code_simp+

text \<open>A name the deep merge skips is kept when it comes inside a subtree the base does not have.\<close>

lemma polluting_subtree_kept:
  "at_path (deepMergeJson (JObj []) (JObj [(''__proto__'', JObj [(''admin'', JBool True)])])) [''__proto__''] = JUndef"
  "at_path (deepMergeJson (JObj []) (JObj [(''env'', JObj [(''__proto__'', JObj [(''admin'', JBool True)])])])) [''env'', ''__proto__'', ''admin''] = JBool True"
  by code_simp+

text \<open>A property of \<open>experimental\<close> that is present without a value clobbers the layer below.\<close>

lemma undefined_clobbers:
  "field ''legacy_pty'' (fields_of (field ''experimental'' (fst (resolveAgentConfig (Some [(''experimental'', JObj [(''legacy_pty'', JBool True)])]) None
     [(''experimental'', JObj [(''legacy_pty'', JUndef)])] quiet)))) = JUndef"
  by code_simp

text \<open>The databases a profile grants do not reach an agent that extends it: nothing in the cascade merges \<open>notion_workspace\<close>.\<close>

lemma notion_databases_not_inherited:
  "field ''notion_workspace'' (fst (resolveAgentConfig (Some [(''notion_workspace'', JObj [(''databases'', JArr [JStr ''tasks''])])])
     (Some [(''p'', [(''notion_workspace'', JObj [(''databases'', JArr [JStr ''notes''])])])]) [(''extends'', JStr ''p'')] quiet)) = JUndef"
  by code_simp

end
