(* ===== verification/Edit_Fuse.thy ===== *)
theory Edit_Fuse
  imports Send_Gate
begin

text \<open>
  The edit-flood fuse (\<open>telegram-plugin/edit-flood-fuse.ts\<close>), the last ceiling below every call of the bot. A call crosses a
  list of tiers, each a rolling window; it takes a slot, waits, is dropped or is let through late. \<open>fuse_step\<close> interleaves
  arrivals, resumptions after each \<open>await\<close>, the answers of Telegram, the persisted flood marker and the clock.
  Windows are kept for every key: the eviction of idle keys, which starts at 4096 of them, is left out, and so are the
  report of \<open>stats\<close> and the configuration read from the environment. Times are milliseconds, the tightening factor a
  rational.
\<close>

section \<open>Methods and classes\<close>

datatype fuse_kind = FUnmetered | FEdit | FSend | FChatAction | FOther

definition EDIT_METHODS :: "string list" where
  "EDIT_METHODS = [''editMessageText'', ''editMessageCaption'', ''editMessageMedia'', ''editMessageReplyMarkup'',
     ''editMessageLiveLocation'', ''editMessageChecklist'']"

definition SEND_METHODS :: "string list" where
  "SEND_METHODS = [''sendMessage'', ''sendPhoto'', ''sendDocument'', ''sendMediaGroup'', ''sendAnimation'', ''sendVideo'', ''sendVoice'',
     ''sendAudio'', ''sendSticker'', ''sendLocation'', ''forwardMessage'', ''forwardMessages'', ''copyMessage'', ''copyMessages'',
     ''sendRichMessage'']"

definition CHAT_ACTION_METHODS :: "string list" where "CHAT_ACTION_METHODS = [''sendChatAction'']"

definition UNMETERED_METHODS :: "string list" where "UNMETERED_METHODS = [''getUpdates'']"

definition method_kind :: "string \<Rightarrow> fuse_kind" where
  "method_kind m = (if m \<in> set UNMETERED_METHODS then FUnmetered else if m \<in> set EDIT_METHODS then FEdit
     else if m \<in> set SEND_METHODS then FSend else if m \<in> set CHAT_ACTION_METHODS then FChatAction else FOther)"

definition defaultOutboundClass :: "bool \<Rightarrow> PriorityClass" where
  "defaultOutboundClass isEdit = (if isEdit then Cosmetic else Critical)"

definition fuse_class :: "PriorityClass option \<Rightarrow> fuse_kind \<Rightarrow> PriorityClass" where
  "fuse_class tagged kind = (case tagged of Some c \<Rightarrow> c
     | None \<Rightarrow> if kind = FChatAction then Cosmetic else defaultOutboundClass (kind = FEdit))"

section \<open>Configuration\<close>

record fuse_config =
  f_enabled :: bool
  perMessageMax :: int
  perMessageWindowMs :: int
  perChatEditMax :: int
  perChatSendMax :: int
  cosmeticPerMessageMax :: int
  cosmeticPerChatMax :: int
  cosmeticFairShareEnabled :: bool
  cosmeticFloorPerWindow :: int
  cosmeticFloorSlots :: int
  throttleNoticeMs :: int
  perChatTotalMax :: int
  perChatReplyReserve :: int
  perChatCriticalMin :: int
  perTokenMax :: int
  perTokenWindowMs :: int
  chatActionMaxDeferMs :: int
  lateReleaseMax :: int
  perChatWindowMs :: int
  maxDeferMs :: int
  tightenFactor :: rat
  tightenMs :: int
  maxTightenLevel :: nat
  probes :: bool
  floodProbeIntervalMs :: int

definition EDIT_FLOOD_FUSE_DEFAULTS :: fuse_config where
  "EDIT_FLOOD_FUSE_DEFAULTS = \<lparr>f_enabled = True, perMessageMax = 20, perMessageWindowMs = 60000, perChatEditMax = 30, perChatSendMax = 25,
     cosmeticPerMessageMax = 4, cosmeticPerChatMax = 6, cosmeticFairShareEnabled = True, cosmeticFloorPerWindow = 2,
     cosmeticFloorSlots = 2, throttleNoticeMs = 45000, perChatTotalMax = 20, perChatReplyReserve = 8, perChatCriticalMin = 3,
     perTokenMax = 25, perTokenWindowMs = 1000, chatActionMaxDeferMs = 3000, lateReleaseMax = 2, perChatWindowMs = 60000,
     maxDeferMs = 30000, tightenFactor = 1 / 2, tightenMs = 600000, maxTightenLevel = 4, probes = False, floodProbeIntervalMs = 1000\<rparr>"

text \<open>What \<open>createEditFloodFuse\<close> derives from the configured values.\<close>

definition clamp_config :: "fuse_config \<Rightarrow> fuse_config" where
  "clamp_config c =
     (let perMsg = min (perMessageMax c) (cosmeticPerMessageMax c)
      in c\<lparr>cosmeticPerMessageMax := perMsg, cosmeticPerChatMax := min (perChatEditMax c) (cosmeticPerChatMax c),
           cosmeticFloorPerWindow := min perMsg (max 0 (cosmeticFloorPerWindow c)),
           throttleNoticeMs := max 0 (throttleNoticeMs c),
           perChatReplyReserve := min (max 0 (perChatReplyReserve c)) (max 0 (perChatTotalMax c - 1)),
           perChatCriticalMin := max 0 (perChatCriticalMin c), perTokenMax := max 1 (perTokenMax c),
           perTokenWindowMs := max 1 (perTokenWindowMs c), lateReleaseMax := max 0 (lateReleaseMax c),
           floodProbeIntervalMs := max 0 (floodProbeIntervalMs c)\<rparr>)"

definition cosmeticFloorAggMax :: "fuse_config \<Rightarrow> int" where
  "cosmeticFloorAggMax c = min (cosmeticPerChatMax c) (cosmeticFloorPerWindow c * max 0 (cosmeticFloorSlots c))"

definition cosmeticRemainderMax :: "fuse_config \<Rightarrow> int" where
  "cosmeticRemainderMax c = max 0 (cosmeticPerChatMax c - cosmeticFloorAggMax c)"

definition replyReserveFraction :: "fuse_config \<Rightarrow> rat" where
  "replyReserveFraction c = (if 0 < perChatTotalMax c then of_int (perChatReplyReserve c) / of_int (perChatTotalMax c) else 0)"

section \<open>State\<close>

datatype fuse_key = KToken | KMsg string string | KEdit string | KSend string | KTotal string | KFloor string string | KFloorAll string
  | KRest string | KLate string

record fuse_window =
  w_ts :: "int list"
  w_waiter :: "nat option"
  w_inflight :: nat

text \<open>The ceiling a tier asks for, resolved at every turn from the tighten level and the class of the call.\<close>

datatype cap = CapMsg | CapEdit | CapSend | CapTotal | CapToken

datatype WaitMode = Supersede | DropLate | Release

datatype tier = Room (t_key: fuse_key) (t_cap: cap) (t_mode: WaitMode) (t_deadline: int) | FairShare (t_deadline: int)

text \<open>
  Entering its next tier, asleep in it (when it wakes, whether it was counted, when it began to wait and whether the notice was
  raised), killed by a newer edit while asleep, or with Telegram.
\<close>

datatype fuse_status = Entering | Asleep int bool "int option" bool | Killed | OnTheWire

record fuse_call =
  f_id :: nat
  f_kind :: fuse_kind
  f_class :: PriorityClass
  f_chat :: "string option"
  f_msg :: "string option"
  f_at :: int
  f_tiers :: "tier list"
  f_slots :: "(fuse_key \<times> int) list"
  f_status :: fuse_status

datatype drop_reason = Superseded | NewerInFlight | LateBudget | Expiring

record fuse_counters =
  k_deferred :: nat
  k_dropped :: nat
  k_superseded :: nat
  k_floodObserved :: nat
  k_meteredByDefault :: nat
  k_chatless :: nat
  k_throttled :: nat

text \<open>
  \<open>f_marker\<close> is the end of the flood window the marker file holds. The logs record what the fuse did: the calls dropped with their
  reason, and the calls let through with the slots they hold.
\<close>

record fuse =
  fz :: fuse_config
  f_now :: int
  f_windows :: "fuse_key \<Rightarrow> fuse_window"
  f_counters :: fuse_counters
  tightenLevel :: nat
  tightenedUntil :: int
  probedAt :: "int option"
  probedRemainingMs :: int
  f_marker :: int
  f_calls :: "fuse_call list"
  f_drops :: "(fuse_call \<times> drop_reason) list"
  f_passed :: "fuse_call list"

definition createEditFloodFuse :: "fuse_config \<Rightarrow> int \<Rightarrow> int \<Rightarrow> fuse" where
  "createEditFloodFuse c now marker = \<lparr>fz = clamp_config c, f_now = now, f_windows = (\<lambda>k. \<lparr>w_ts = [], w_waiter = None, w_inflight = 0\<rparr>),
     f_counters = \<lparr>k_deferred = 0, k_dropped = 0, k_superseded = 0, k_floodObserved = 0, k_meteredByDefault = 0, k_chatless = 0, k_throttled = 0\<rparr>,
     tightenLevel = 0, tightenedUntil = 0, probedAt = None, probedRemainingMs = 0, f_marker = marker, f_calls = [], f_drops = [], f_passed = []\<rparr>"

definition upd_window :: "fuse_key \<Rightarrow> (fuse_window \<Rightarrow> fuse_window) \<Rightarrow> fuse \<Rightarrow> fuse" where
  "upd_window k g st = st\<lparr>f_windows := (f_windows st)(k := g (f_windows st k))\<rparr>"

definition count_fuse :: "(fuse_counters \<Rightarrow> fuse_counters) \<Rightarrow> fuse \<Rightarrow> fuse" where
  "count_fuse g st = st\<lparr>f_counters := g (f_counters st)\<rparr>"

section \<open>Tightening\<close>

definition tightenStepFor :: "fuse_config \<Rightarrow> rat \<Rightarrow> nat" where
  "tightenStepFor c sec = (if sec \<le> 5 then 1 else if sec \<le> 60 then 2 else if sec \<le> 600 then 3 else maxTightenLevel c)"

text \<open>The marker is read at most once an interval; between two reads the cached rest is counted down.\<close>

definition persistedFloodRemainingMs :: "fuse \<Rightarrow> int \<times> fuse" where
  "persistedFloodRemainingMs st =
     (if \<not> probes (fz st) then (0, st)
      else case probedAt st of
        Some t \<Rightarrow> if f_now st - t < floodProbeIntervalMs (fz st) then (max 0 (probedRemainingMs st - (f_now st - t)), st)
          else (max 0 (f_marker st - f_now st), st\<lparr>probedAt := Some (f_now st), probedRemainingMs := max 0 (f_marker st - f_now st)\<rparr>)
      | None \<Rightarrow> (max 0 (f_marker st - f_now st), st\<lparr>probedAt := Some (f_now st), probedRemainingMs := max 0 (f_marker st - f_now st)\<rparr>))"

fun decay :: "int \<Rightarrow> int \<Rightarrow> nat \<Rightarrow> int \<Rightarrow> nat \<times> int" where
  "decay now per 0 until = (0, until)"
| "decay now per (Suc n) until = (if until \<le> now then decay now per n (if 0 < n then until + per else 0) else (Suc n, until))"

definition levelAt :: "fuse \<Rightarrow> nat \<times> fuse" where
  "levelAt st =
     (case decay (f_now st) (tightenMs (fz st)) (tightenLevel st) (tightenedUntil st) of (n, u) \<Rightarrow>
      case persistedFloodRemainingMs (st\<lparr>tightenLevel := n, tightenedUntil := u\<rparr>) of (remaining, st1) \<Rightarrow>
        (if 0 < remaining then max n (min (maxTightenLevel (fz st)) (tightenStepFor (fz st) (of_int remaining / 1000))) else n, st1))"

definition ceiling_at :: "fuse_config \<Rightarrow> nat \<Rightarrow> int \<Rightarrow> int" where
  "ceiling_at c level base = (if level = 0 then base else max 1 \<lfloor>of_int base * tightenFactor c ^ level\<rfloor>)"

definition classCeiling :: "fuse_config \<Rightarrow> nat \<Rightarrow> PriorityClass \<Rightarrow> int \<Rightarrow> int" where
  "classCeiling c level cls base =
     (if cls \<noteq> Critical then ceiling_at c level base else max (ceiling_at c level base) (min base (perChatCriticalMin c)))"

definition cosmeticMessageCeiling :: "fuse_config \<Rightarrow> nat \<Rightarrow> int" where
  "cosmeticMessageCeiling c level =
     (let eff = ceiling_at c level (cosmeticPerMessageMax c)
      in if cosmeticFairShareEnabled c then max eff (min (cosmeticPerMessageMax c) (cosmeticFloorPerWindow c)) else eff)"

definition js_round :: "rat \<Rightarrow> int" where "js_round x = \<lfloor>x + 1 / 2\<rfloor>"

definition cosmeticTotalMax :: "fuse_config \<Rightarrow> nat \<Rightarrow> int" where
  "cosmeticTotalMax c level =
     (let eff = ceiling_at c level (perChatTotalMax c)
      in if replyReserveFraction c \<le> 0 then eff
         else max 0 (eff - min eff (max 1 (js_round (of_int eff * replyReserveFraction c)))))"

definition totalMaxFor :: "fuse_config \<Rightarrow> nat \<Rightarrow> PriorityClass \<Rightarrow> int" where
  "totalMaxFor c level cls = (if cls = Cosmetic then cosmeticTotalMax c level else classCeiling c level cls (perChatTotalMax c))"

fun cap_value :: "fuse_config \<Rightarrow> nat \<Rightarrow> PriorityClass \<Rightarrow> cap \<Rightarrow> int" where
  "cap_value c level cls CapMsg = (if cls = Cosmetic then cosmeticMessageCeiling c level else classCeiling c level cls (perMessageMax c))"
| "cap_value c level cls CapEdit =
     (if cls = Cosmetic then ceiling_at c level (cosmeticPerChatMax c) else classCeiling c level cls (perChatEditMax c))"
| "cap_value c level cls CapSend = classCeiling c level cls (perChatSendMax c)"
| "cap_value c level cls CapTotal = totalMaxFor c level cls"
| "cap_value c level cls CapToken = ceiling_at c level (perTokenMax c)"

definition noteFlood :: "int \<Rightarrow> fuse \<Rightarrow> fuse" where
  "noteFlood retryAfterSec st0 =
     (let st = snd (levelAt (count_fuse (\<lambda>k. k\<lparr>k_floodObserved := Suc (k_floodObserved k)\<rparr>) st0))
      in st\<lparr>tightenLevel := min (maxTightenLevel (fz st)) (tightenLevel st + tightenStepFor (fz st) (of_int retryAfterSec)),
            tightenedUntil := f_now st + max (tightenMs (fz st)) (retryAfterSec * 1000 + tightenMs (fz st))\<rparr>)"

section \<open>Windows\<close>

definition window_ms :: "fuse_config \<Rightarrow> fuse_key \<Rightarrow> int" where
  "window_ms c k = (case k of KToken \<Rightarrow> perTokenWindowMs c | KMsg _ _ \<Rightarrow> perMessageWindowMs c | _ \<Rightarrow> perChatWindowMs c)"

definition prune :: "int \<Rightarrow> int list \<Rightarrow> int list" where
  "prune cutoff ts = dropWhile (\<lambda>t. t \<le> cutoff) ts"

definition prune_key :: "fuse_key \<Rightarrow> fuse \<Rightarrow> fuse" where
  "prune_key k st = upd_window k (\<lambda>w. w\<lparr>w_ts := prune (f_now st - window_ms (fz st) k) (w_ts w)\<rparr>) st"

text \<open>\<open>waitFor\<close> on a pruned window.\<close>

definition waitFor :: "fuse_key \<Rightarrow> int \<Rightarrow> fuse \<Rightarrow> int" where
  "waitFor k mx st =
     (let ts = w_ts (f_windows st k); ms = window_ms (fz st) k
      in if mx \<le> 0 then (if ts \<noteq> [] then max 1 (hd ts + ms - f_now st) else max 1 ms)
         else if int (length ts) < mx then 0
         else max 1 (hd ts + ms - f_now st))"

definition push_slot :: "fuse_key \<Rightarrow> fuse \<Rightarrow> fuse" where
  "push_slot k st = upd_window k (\<lambda>w. w\<lparr>w_ts := w_ts w @ [f_now st]\<rparr>) st"

fun remove_last :: "int \<Rightarrow> int list \<Rightarrow> int list" where
  "remove_last x xs = rev (remove1 x (rev xs))"

definition unreserve :: "fuse_key \<times> int \<Rightarrow> fuse \<Rightarrow> fuse" where
  "unreserve s st = upd_window (fst s) (\<lambda>w. w\<lparr>w_ts := remove_last (snd s) (w_ts w)\<rparr>) st"

section \<open>One turn in a tier\<close>

text \<open>The keys of a call; they are read only where the payload names the chat, and the message of an edit.\<close>

definition chat_of :: "fuse_call \<Rightarrow> string" where
  "chat_of c = (case f_chat c of None \<Rightarrow> [] | Some x \<Rightarrow> x)"

definition msg_of :: "fuse_call \<Rightarrow> string" where
  "msg_of c = (case f_msg c of None \<Rightarrow> [] | Some x \<Rightarrow> x)"

definition msg_key :: "fuse_call \<Rightarrow> fuse_key" where
  "msg_key c = KMsg (chat_of c) (msg_of c)"

datatype turn = Took "(fuse_key \<times> int) list" | Dropped drop_reason | Nap int

definition is_edit_call :: "fuse_call \<Rightarrow> bool" where
  "is_edit_call c \<longleftrightarrow> f_kind c = FEdit \<and> f_chat c \<noteq> None \<and> f_msg c \<noteq> None"

definition newer_in_flight :: "fuse_call \<Rightarrow> fuse \<Rightarrow> bool" where
  "newer_in_flight c st \<longleftrightarrow> 1 < w_inflight (f_windows st (msg_key c))"

text \<open>The late release of a cosmetic edit is charged to its own window, or refused when that budget is spent.\<close>

definition charge_late :: "fuse_call \<Rightarrow> fuse \<Rightarrow> bool \<times> fuse" where
  "charge_late c st0 =
     (let k = KLate (chat_of c)
      in case levelAt (prune_key k st0) of (level, st) \<Rightarrow>
        if ceiling_at (fz st) level (lateReleaseMax (fz st)) \<le> int (length (w_ts (f_windows st k))) then (False, st) else (True, push_slot k st))"

definition late_keyed :: "fuse_call \<Rightarrow> bool" where
  "late_keyed c \<longleftrightarrow> is_edit_call c \<and> f_class c = Cosmetic"

definition wants_notice :: "fuse_call \<Rightarrow> fuse \<Rightarrow> bool" where
  "wants_notice c st \<longleftrightarrow> cosmeticFairShareEnabled (fz st) \<and> f_class c = Cosmetic \<and> 0 < throttleNoticeMs (fz st)"

definition sleepCap :: "fuse_call \<Rightarrow> int option \<Rightarrow> bool \<Rightarrow> fuse \<Rightarrow> int \<Rightarrow> int" where
  "sleepCap c firstAt fired st nap =
     (case firstAt of Some t \<Rightarrow> if wants_notice c st \<and> \<not> fired then min nap (max 1 (t + throttleNoticeMs (fz st) - f_now st)) else nap
      | None \<Rightarrow> nap)"

definition count_drop :: "fuse \<Rightarrow> fuse" where
  "count_drop st = count_fuse (\<lambda>k. k\<lparr>k_dropped := Suc (k_dropped k)\<rparr>) st"

definition push_slots :: "fuse_key list \<Rightarrow> fuse \<Rightarrow> turn \<times> fuse" where
  "push_slots ks st = (Took (map (\<lambda>k. (k, f_now st)) ks), fold push_slot ks st)"

definition late_release :: "fuse_call \<Rightarrow> fuse_key list \<Rightarrow> fuse \<Rightarrow> turn \<times> fuse" where
  "late_release c ks st0 =
     (case charge_late c st0 of (ok, st) \<Rightarrow> if ok then push_slots ks st else (Dropped LateBudget, count_drop st))"

text \<open>\<open>awaitRoom\<close>: the ceiling is resolved and the window pruned, then the deadline comes after the check for room.\<close>

definition room_view :: "fuse_call \<Rightarrow> fuse_key \<Rightarrow> cap \<Rightarrow> fuse \<Rightarrow> int \<times> fuse" where
  "room_view c k cp st0 = (case levelAt st0 of (level, st) \<Rightarrow> (cap_value (fz st) level (f_class c) cp, prune_key k st))"

definition room_turn :: "fuse_call \<Rightarrow> fuse_key \<Rightarrow> cap \<Rightarrow> WaitMode \<Rightarrow> int \<Rightarrow> fuse \<Rightarrow> turn \<times> fuse" where
  "room_turn c k cp mode deadline st0 =
     (case room_view c k cp st0 of (mx, st) \<Rightarrow>
        if waitFor k mx st = 0 then push_slots [k] st
        else if deadline \<le> f_now st then
          (if mode \<noteq> Release \<and> (\<not> is_edit_call c \<or> newer_in_flight c st)
           then (Dropped (if is_edit_call c then NewerInFlight else Expiring), count_drop st)
           else if late_keyed c \<and> k \<noteq> KToken then late_release c [k] st
           else push_slots [k] st)
        else (Nap (waitFor k mx st), st))"

text \<open>\<open>awaitCosmeticChatFair\<close>: the floor lane first, then the shared rest, whose ceiling tightens.\<close>

definition floor_keys :: "fuse_call \<Rightarrow> fuse_key list" where
  "floor_keys c = [KFloor (chat_of c) (msg_of c), KFloorAll (chat_of c)]"

definition fair_view :: "fuse_call \<Rightarrow> fuse \<Rightarrow> int \<times> fuse" where
  "fair_view c st0 =
     (let st = fold prune_key (floor_keys c) st0; rest = cosmeticRemainderMax (fz st)
      in case (if rest \<le> 0 then (0, st) else case levelAt st of (level, st1) \<Rightarrow> (ceiling_at (fz st1) level rest, st1)) of
           (remCap, st1) \<Rightarrow> (remCap, prune_key (KRest (chat_of c)) st1))"

definition floor_wait :: "fuse_call \<Rightarrow> fuse \<Rightarrow> int" where
  "floor_wait c st = max (waitFor (KFloor (chat_of c) (msg_of c)) (cosmeticFloorPerWindow (fz st)) st)
     (waitFor (KFloorAll (chat_of c)) (cosmeticFloorAggMax (fz st)) st)"

definition fair_turn :: "fuse_call \<Rightarrow> int \<Rightarrow> fuse \<Rightarrow> turn \<times> fuse" where
  "fair_turn c deadline st0 =
     (case fair_view c st0 of (remCap, st) \<Rightarrow>
        let rest = KRest (chat_of c); wRem = waitFor rest remCap st
        in if floor_wait c st = 0 then push_slots (floor_keys c) st
           else if 0 < remCap \<and> wRem = 0 then push_slots [rest] st
           else if deadline \<le> f_now st then
             (if newer_in_flight c st then (Dropped NewerInFlight, count_drop st)
              else late_release c (if 0 < cosmeticRemainderMax (fz st) then [rest] else floor_keys c) st)
           else (Nap (min (floor_wait c st) wRem), st))"

fun tier_turn :: "fuse_call \<Rightarrow> tier \<Rightarrow> fuse \<Rightarrow> turn \<times> fuse" where
  "tier_turn c (Room k cp mode deadline) st = room_turn c k cp mode deadline st"
| "tier_turn c (FairShare deadline) st = fair_turn c deadline st"

section \<open>A call\<close>

definition set_fcall :: "fuse_call \<Rightarrow> fuse \<Rightarrow> fuse" where
  "set_fcall c st = st\<lparr>f_calls := map (\<lambda>x. if f_id x = f_id c then c else x) (f_calls st)\<rparr>"

definition end_fcall :: "fuse_call \<Rightarrow> fuse \<Rightarrow> fuse" where
  "end_fcall c st = st\<lparr>f_calls := filter (\<lambda>x. f_id x \<noteq> f_id c) (f_calls st)\<rparr>"

text \<open>The \<open>finally\<close> of the edit path, which runs as soon as the last tier is entered.\<close>

definition leave_flight :: "fuse_call \<Rightarrow> fuse \<Rightarrow> fuse" where
  "leave_flight c st = (if is_edit_call c
     then upd_window (msg_key c) (\<lambda>w. w\<lparr>w_inflight := w_inflight w - 1\<rparr>) st else st)"

definition drop_fcall :: "fuse_call \<Rightarrow> drop_reason \<Rightarrow> fuse \<Rightarrow> fuse" where
  "drop_fcall c r st = (leave_flight c (fold unreserve (f_slots c) (end_fcall c st)))\<lparr>f_drops := f_drops st @ [(c, r)]\<rparr>"

fun superseding :: "tier \<Rightarrow> bool" where
  "superseding (Room k cp mode deadline) = (mode = Supersede)"
| "superseding (FairShare deadline) = False"

text \<open>A newer edit of the message kills the one that waits, and waits in its place.\<close>

definition take_waiter :: "fuse_call \<Rightarrow> fuse \<Rightarrow> fuse" where
  "take_waiter c st =
     (let k = msg_key c;
          st1 = (case w_waiter (f_windows st k) of None \<Rightarrow> st
            | Some i \<Rightarrow> st\<lparr>f_calls := map (\<lambda>x. if f_id x = i then x\<lparr>f_status := Killed\<rparr> else x) (f_calls st)\<rparr>)
      in upd_window k (\<lambda>w. w\<lparr>w_waiter := Some (f_id c)\<rparr>) st1)"

text \<open>The notice: when the call began to wait in this tier, and whether it is raised now.\<close>

definition first_wait :: "fuse_call \<Rightarrow> int option \<Rightarrow> fuse \<Rightarrow> int option" where
  "first_wait c firstAt st = (if wants_notice c st then Some (case firstAt of None \<Rightarrow> f_now st | Some x \<Rightarrow> x) else None)"

definition notice_fires :: "fuse_call \<Rightarrow> int option \<Rightarrow> bool \<Rightarrow> fuse \<Rightarrow> bool" where
  "notice_fires c firstAt fired st \<longleftrightarrow>
     (case first_wait c firstAt st of None \<Rightarrow> False | Some x \<Rightarrow> \<not> fired \<and> throttleNoticeMs (fz st) \<le> f_now st - x)"

definition note_wait :: "fuse_call \<Rightarrow> bool \<Rightarrow> int option \<Rightarrow> bool \<Rightarrow> fuse \<Rightarrow> fuse" where
  "note_wait c counted firstAt fired st = count_fuse (\<lambda>k.
     k\<lparr>k_deferred := (if counted then k_deferred k else Suc (k_deferred k)),
       k_throttled := (if notice_fires c firstAt fired st then Suc (k_throttled k) else k_throttled k)\<rparr>) st"

definition nap_fcall :: "fuse_call \<Rightarrow> tier \<Rightarrow> bool \<Rightarrow> int option \<Rightarrow> bool \<Rightarrow> int \<Rightarrow> fuse \<Rightarrow> fuse" where
  "nap_fcall c t counted firstAt fired wait st0 =
     (let st = note_wait c counted firstAt fired st0; since = first_wait c firstAt st0; raised = fired \<or> notice_fires c firstAt fired st0;
          nap = sleepCap c since raised st (min wait (t_deadline t - f_now st))
      in set_fcall (c\<lparr>f_status := Asleep (f_now st + nap) True since raised\<rparr>) (if superseding t then take_waiter c st else st))"

definition run_tier :: "fuse_call \<Rightarrow> bool \<Rightarrow> int option \<Rightarrow> bool \<Rightarrow> fuse \<Rightarrow> fuse" where
  "run_tier c counted firstAt fired st0 =
     (case f_tiers c of
        [] \<Rightarrow> st0
      | t # ts \<Rightarrow>
          let st = (if ts = [] \<and> f_status c = Entering then leave_flight c st0 else st0)
          in (case tier_turn c t st of
                (Took slots, st1) \<Rightarrow>
                  let c' = c\<lparr>f_tiers := ts, f_slots := f_slots c @ slots, f_status := if ts = [] then OnTheWire else Entering\<rparr>
                  in if ts = [] then (set_fcall c' st1)\<lparr>f_passed := f_passed st1 @ [c']\<rparr> else set_fcall c' st1
              | (Dropped r, st1) \<Rightarrow> drop_fcall c r st1
              | (Nap wait, st1) \<Rightarrow> nap_fcall c t counted firstAt fired wait st1))"

definition edit_tiers :: "fuse_config \<Rightarrow> string \<Rightarrow> string \<Rightarrow> PriorityClass \<Rightarrow> int \<Rightarrow> tier list" where
  "edit_tiers cfg chat msg cls deadline =
     [Room (KMsg chat msg) CapMsg Supersede deadline,
      (if cls = Cosmetic \<and> cosmeticFairShareEnabled cfg then FairShare deadline else Room (KEdit chat) CapEdit DropLate deadline),
      Room (KTotal chat) CapTotal (if cls = Cosmetic then DropLate else Release) deadline,
      Room KToken CapToken Release deadline]"

definition tiers_of :: "fuse_config \<Rightarrow> fuse_call \<Rightarrow> tier list" where
  "tiers_of cfg c =
     (let deadline = f_at c + maxDeferMs cfg; chat = chat_of c; pass = Room KToken CapToken Release deadline
      in if f_kind c = FUnmetered then []
         else if f_chat c = None then [pass]
         else if is_edit_call c then edit_tiers cfg chat (msg_of c) (f_class c) deadline
         else if f_kind c = FSend then [Room (KSend chat) CapSend Release deadline, Room (KTotal chat) CapTotal Release deadline, pass]
         else if f_kind c = FChatAction
         then [Room (KTotal chat) CapTotal DropLate (min deadline (f_at c + chatActionMaxDeferMs cfg)), pass]
         else [Room (KTotal chat) CapTotal Release deadline, pass])"

definition new_fcall :: "nat \<Rightarrow> string \<Rightarrow> string option \<Rightarrow> string option \<Rightarrow> PriorityClass option \<Rightarrow> fuse \<Rightarrow> fuse_call" where
  "new_fcall i meth chat msg tagged st =
     (let kind = method_kind meth;
          c = \<lparr>f_id = i, f_kind = kind, f_class = fuse_class tagged kind, f_chat = chat, f_msg = msg, f_at = f_now st, f_tiers = [], f_slots = [],
               f_status = (if kind = FUnmetered then OnTheWire else Entering)\<rparr>
      in c\<lparr>f_tiers := tiers_of (fz st) c\<rparr>)"

text \<open>What \<open>apply\<close> counts before the first tier.\<close>

definition note_arrival :: "fuse_call \<Rightarrow> fuse \<Rightarrow> fuse" where
  "note_arrival c st =
     (if f_kind c = FUnmetered then st
      else if f_chat c = None then count_fuse (\<lambda>k. k\<lparr>k_chatless := Suc (k_chatless k)\<rparr>) st
      else if is_edit_call c then upd_window (msg_key c) (\<lambda>w. w\<lparr>w_inflight := Suc (w_inflight w)\<rparr>) st
      else if f_kind c = FSend then st
      else count_fuse (\<lambda>k. k\<lparr>k_meteredByDefault := Suc (k_meteredByDefault k)\<rparr>) st)"

definition arrive :: "nat \<Rightarrow> string \<Rightarrow> string option \<Rightarrow> string option \<Rightarrow> PriorityClass option \<Rightarrow> fuse \<Rightarrow> fuse" where
  "arrive i meth chat msg tagged st =
     (if \<not> f_enabled (fz st) \<or> i \<in> f_id ` set (f_calls st) then st
      else let c = new_fcall i meth chat msg tagged st; st1 = note_arrival c st
           in run_tier c False None False (st1\<lparr>f_calls := f_calls st1 @ [c]\<rparr>))"

definition find_fcall :: "nat \<Rightarrow> fuse \<Rightarrow> fuse_call option" where
  "find_fcall i st = find (\<lambda>c. f_id c = i) (f_calls st)"

definition resume_fcall :: "nat \<Rightarrow> fuse \<Rightarrow> fuse" where
  "resume_fcall i st =
     (case find_fcall i st of None \<Rightarrow> st
      | Some c \<Rightarrow> (case f_status c of
          Entering \<Rightarrow> run_tier c False None False st
        | Asleep wake counted firstAt fired \<Rightarrow>
            if f_now st < wake then st
            else run_tier c counted firstAt fired
              (if f_tiers c \<noteq> [] \<and> superseding (hd (f_tiers c))
               then upd_window (msg_key c) (\<lambda>w. w\<lparr>w_waiter := None\<rparr>) st else st)
        | Killed \<Rightarrow> drop_fcall c Superseded (count_fuse (\<lambda>k. k\<lparr>k_superseded := Suc (k_superseded k)\<rparr>) st)
        | OnTheWire \<Rightarrow> st))"

definition answer_fcall :: "nat \<Rightarrow> int option \<Rightarrow> fuse \<Rightarrow> fuse" where
  "answer_fcall i flood st =
     (case find_fcall i st of None \<Rightarrow> st
      | Some c \<Rightarrow> if f_status c \<noteq> OnTheWire then st
          else (case flood of None \<Rightarrow> end_fcall c st | Some ra \<Rightarrow> noteFlood ra (end_fcall c st)))"

datatype fuse_event = Arrive nat string "string option" "string option" "PriorityClass option" | FResume nat | Answer nat "int option"
  | Marker int | FTick nat

fun fuse_step :: "fuse_event \<Rightarrow> fuse \<Rightarrow> fuse" where
  "fuse_step (Arrive i meth chat msg tagged) st = arrive i meth chat msg tagged st"
| "fuse_step (FResume i) st = resume_fcall i st"
| "fuse_step (Answer i flood) st = answer_fcall i flood st"
| "fuse_step (Marker u) st = st\<lparr>f_marker := u\<rparr>"
| "fuse_step (FTick ms) st = st\<lparr>f_now := f_now st + int ms\<rparr>"

end
