(* ===== verification/Edit_Fuse_Safety.thy ===== *)
theory Edit_Fuse_Safety
  imports Edit_Fuse
begin

text \<open>
  What the edit-flood fuse guarantees in every interleaving: which calls it may drop and why, how long it may hold one, how many
  cosmetic edits of a chat it lets through in a window, and what is left for a reply under every tightening; and four places
  where it does less than its documentation says.
\<close>

section \<open>Totals over keyed lists\<close>

lemma sum_replace:
  fixes g :: "'a \<Rightarrow> nat"
  shows "distinct (map key xs) \<Longrightarrow> x \<in> set xs \<Longrightarrow> key x = key y \<Longrightarrow>
    sum_list (map g (map (\<lambda>z. if key z = key y then y else z) xs)) + g x = sum_list (map g xs) + g y"
proof (induction xs)
  case (Cons a xs)
  show ?case
  proof (cases "a = x")
    case True
    then have "map (\<lambda>z. if key z = key y then y else z) xs = xs" using Cons.prems by (intro map_idI) (force simp: image_iff)
    then show ?thesis using True Cons.prems(3) by simp
  next
    case False
    then have "x \<in> set xs" "key a \<noteq> key y" using Cons.prems by (auto simp: image_iff)
    then show ?thesis using Cons.IH Cons.prems by simp
  qed
qed simp

lemma sum_remove:
  fixes g :: "'a \<Rightarrow> nat"
  shows "distinct (map key xs) \<Longrightarrow> x \<in> set xs \<Longrightarrow>
    sum_list (map g (filter (\<lambda>z. key z \<noteq> key x) xs)) + g x = sum_list (map g xs)"
proof (induction xs)
  case (Cons a xs)
  show ?case
  proof (cases "a = x")
    case True
    then have "filter (\<lambda>z. key z \<noteq> key x) xs = xs" using Cons.prems by (intro filter_True) (force simp: image_iff)
    then show ?thesis using True by simp
  next
    case False
    then have "x \<in> set xs" "key a \<noteq> key x" using Cons.prems by (auto simp: image_iff)
    then show ?thesis using Cons.IH Cons.prems by simp
  qed
qed simp

lemma find_fcall_SomeD: "find_fcall i st = Some c \<Longrightarrow> c \<in> set (f_calls st) \<and> f_id c = i"
  by (auto simp: find_fcall_def find_Some_iff)

lemma same_id: "distinct (map f_id cs) \<Longrightarrow> x \<in> set cs \<Longrightarrow> y \<in> set cs \<Longrightarrow> f_id x = f_id y \<Longrightarrow> x = y"
  by (induction cs) (auto simp: image_iff)

section \<open>What a turn leaves alone\<close>

text \<open>A turn touches time stamps, the level of tightening and counters; never a call, a waiter or a count of frames in flight.\<close>

definition same_flow :: "fuse \<Rightarrow> fuse \<Rightarrow> bool" where
  "same_flow st st' \<longleftrightarrow> f_calls st' = f_calls st \<and> fz st' = fz st \<and> f_now st' = f_now st \<and> f_drops st' = f_drops st \<and>
     f_passed st' = f_passed st \<and> k_throttled (f_counters st') = k_throttled (f_counters st) \<and>
     (\<forall>k. w_waiter (f_windows st' k) = w_waiter (f_windows st k) \<and> w_inflight (f_windows st' k) = w_inflight (f_windows st k))"

lemma same_flow_refl [simp, intro]: "same_flow st st"
  by (simp add: same_flow_def)

lemma same_flow_trans [trans]: "same_flow a b \<Longrightarrow> same_flow b c \<Longrightarrow> same_flow a c"
  by (simp add: same_flow_def)

lemma same_flowD: "same_flow st st' \<Longrightarrow> f_calls st' = f_calls st" "same_flow st st' \<Longrightarrow> fz st' = fz st" "same_flow st st' \<Longrightarrow> f_now st' = f_now st"
  "same_flow st st' \<Longrightarrow> f_drops st' = f_drops st" "same_flow st st' \<Longrightarrow> f_passed st' = f_passed st"
  "same_flow st st' \<Longrightarrow> k_throttled (f_counters st') = k_throttled (f_counters st)"
  "same_flow st st' \<Longrightarrow> w_waiter (f_windows st' k) = w_waiter (f_windows st k)"
  "same_flow st st' \<Longrightarrow> w_inflight (f_windows st' k) = w_inflight (f_windows st k)"
  by (simp_all add: same_flow_def)

lemma same_flow_fold: "(\<And>x st. same_flow st (f x st)) \<Longrightarrow> same_flow st (fold f xs st)"
proof (induction xs arbitrary: st)
  case (Cons x xs)
  then show ?case using same_flow_trans [of st "f x st" "fold f xs (f x st)"] by simp
qed simp

lemma probe_flow: "persistedFloodRemainingMs st = (r, st') \<Longrightarrow> same_flow st st' \<and> f_windows st' = f_windows st"
  by (auto simp: persistedFloodRemainingMs_def same_flow_def split: if_splits option.splits)

lemma levelAt_flow: "levelAt st = (n, st') \<Longrightarrow> same_flow st st' \<and> f_windows st' = f_windows st"
  by (fastforce simp: levelAt_def same_flow_def split: prod.splits dest: probe_flow)

lemma prune_key_flow [simp]: "same_flow st (prune_key k st)"
  by (simp add: same_flow_def prune_key_def upd_window_def)

lemma push_slot_flow [simp]: "same_flow st (push_slot k st)"
  by (simp add: same_flow_def push_slot_def upd_window_def)

lemma unreserve_flow [simp]: "same_flow st (unreserve s st)"
  by (simp add: same_flow_def unreserve_def upd_window_def)

lemma push_slots_flow: "push_slots ks st = (r, st') \<Longrightarrow> same_flow st st'"
  by (auto simp: push_slots_def intro: same_flow_fold)

lemma count_drop_flow [simp]: "same_flow st (count_drop st)"
  by (simp add: same_flow_def count_drop_def count_fuse_def)

lemma charge_late_flow: "charge_late c st = (ok, st') \<Longrightarrow> same_flow st st'"
  by (auto simp: charge_late_def Let_def split: prod.splits if_splits dest!: levelAt_flow
      intro: same_flow_trans [OF prune_key_flow] same_flow_trans [OF same_flow_trans [OF prune_key_flow] push_slot_flow])

lemma late_release_flow: "late_release c ks st = (r, st') \<Longrightarrow> same_flow st st'"
  by (auto simp: late_release_def split: prod.splits if_splits dest!: charge_late_flow push_slots_flow
      intro: same_flow_trans same_flow_trans [OF _ count_drop_flow])

lemma room_view_flow: "room_view c k cp st = (mx, st') \<Longrightarrow> same_flow st st'"
  by (auto simp: room_view_def split: prod.splits dest!: levelAt_flow intro: same_flow_trans [OF _ prune_key_flow])

lemma fair_view_flow: "fair_view c st = (mx, st') \<Longrightarrow> same_flow st st'"
proof -
  let ?a = "fold prune_key (floor_keys c) st"
  have a: "same_flow st ?a" by (rule same_flow_fold) simp
  then have b: "same_flow st ?a \<and> same_flow ?a (snd (levelAt ?a))" using levelAt_flow [of ?a "fst (levelAt ?a)" "snd (levelAt ?a)"] by simp
  show "fair_view c st = (mx, st') \<Longrightarrow> same_flow st st'"
    using a b by (auto simp: fair_view_def Let_def split: if_splits prod.splits intro: same_flow_trans [OF _ prune_key_flow] same_flow_trans [OF same_flow_trans [OF _ _] prune_key_flow])
qed

lemma room_turn_flow: "room_turn c k cp mode d st = (r, st') \<Longrightarrow> same_flow st st'"
  by (auto simp: room_turn_def split: prod.splits if_splits dest!: room_view_flow late_release_flow push_slots_flow
      intro: same_flow_trans [OF _ count_drop_flow] same_flow_trans)

lemma fair_turn_flow: "fair_turn c d st = (r, st') \<Longrightarrow> same_flow st st'"
  by (auto simp: fair_turn_def Let_def split: prod.splits if_splits dest!: fair_view_flow late_release_flow push_slots_flow
      intro: same_flow_trans [OF _ count_drop_flow] same_flow_trans)

lemma tier_turn_flow: "tier_turn c t st = (r, st') \<Longrightarrow> same_flow st st'"
  by (cases t) (auto dest: room_turn_flow fair_turn_flow)

section \<open>How a turn ends\<close>

text \<open>Why a tier may refuse a call: another frame of the message in flight, the spent overshoot budget, or a status that expires.\<close>

lemma push_slots_Took: "fst (push_slots ks st) = Took (map (\<lambda>k. (k, f_now st)) ks)"
  by (simp add: push_slots_def)

lemma late_release_ends: "late_release c ks st = (r, st') \<Longrightarrow> r = Dropped LateBudget \<or> (\<exists>st1. f_now st1 = f_now st \<and> push_slots ks st1 = (r, st'))"
  by (auto simp: late_release_def split: prod.splits if_splits dest!: charge_late_flow same_flowD(3))

lemma newer_flow: "same_flow st st' \<Longrightarrow> newer_in_flight c st' = newer_in_flight c st"
  by (simp add: newer_in_flight_def same_flow_def)

definition may_drop :: "fuse_call \<Rightarrow> tier \<Rightarrow> drop_reason \<Rightarrow> fuse \<Rightarrow> bool" where
  "may_drop c t r st \<longleftrightarrow>
     (r = NewerInFlight \<and> newer_in_flight c st \<and> (\<exists>d. t = FairShare d \<or> (is_edit_call c \<and> t_mode t \<noteq> Release))) \<or>
     (r = Expiring \<and> \<not> is_edit_call c \<and> (\<exists>k cp m d. t = Room k cp m d \<and> m \<noteq> Release)) \<or>
     (r = LateBudget \<and> ((\<exists>d. t = FairShare d) \<or> late_keyed c \<and> (\<exists>k cp m d. t = Room k cp m d \<and> k \<noteq> KToken)))"

lemma turn_dropped:
  assumes "tier_turn c t st = (Dropped r, st')"
  shows "may_drop c t r st"
proof (cases t)
  case (Room k cp m d)
  obtain mx st1 where v: "room_view c k cp st = (mx, st1)" by (cases "room_view c k cp st")
  then have n: "newer_in_flight c st1 = newer_in_flight c st" using room_view_flow newer_flow by blast
  from assms show ?thesis
    using push_slots_Took [of "[k]" st1] late_release_ends [of c "[k]" st1 "Dropped r" st']
    by (auto simp: Room room_turn_def v n may_drop_def push_slots_def split: if_splits)
next
  case (FairShare d)
  obtain mx st1 where v: "fair_view c st = (mx, st1)" by (cases "fair_view c st")
  then have n: "newer_in_flight c st1 = newer_in_flight c st" using fair_view_flow newer_flow by blast
  from assms show ?thesis
    using late_release_ends [of c "[KRest (chat_of c)]" st1 "Dropped r" st'] late_release_ends [of c "floor_keys c" st1 "Dropped r" st']
    by (auto simp: FairShare fair_turn_def Let_def v n may_drop_def push_slots_def split: if_splits)
qed

lemma turn_nap: "tier_turn c t st = (Nap w, st') \<Longrightarrow> f_now st < t_deadline t"
  by (cases t) (auto simp: room_turn_def fair_turn_def Let_def push_slots_def split: prod.splits if_splits
      dest!: late_release_ends same_flowD(3) [OF room_view_flow] same_flowD(3) [OF fair_view_flow])

text \<open>The slots a turn takes: those of the tier, in the fair tier one of its two lanes.\<close>

definition turn_keys :: "fuse_call \<Rightarrow> tier \<Rightarrow> fuse_key list set" where
  "turn_keys c t = (case t of Room k cp m d \<Rightarrow> {[k]} | FairShare d \<Rightarrow> {[KRest (chat_of c)], floor_keys c})"

lemma turn_took: "tier_turn c t st = (Took slots, st') \<Longrightarrow> \<exists>ks \<in> turn_keys c t. slots = map (\<lambda>k. (k, f_now st)) ks"
  by (cases t) (auto simp: room_turn_def fair_turn_def turn_keys_def Let_def push_slots_def split: prod.splits if_splits
      dest!: late_release_ends same_flowD(3) [OF room_view_flow] same_flowD(3) [OF fair_view_flow])

section \<open>The path of a call\<close>

lemma edit_keyed [simp]: "is_edit_call (c\<lparr>f_tiers := ts\<rparr>) = is_edit_call c" "is_edit_call (c\<lparr>f_slots := ss\<rparr>) = is_edit_call c" "is_edit_call (c\<lparr>f_status := s\<rparr>) = is_edit_call c"
  by (simp_all add: is_edit_call_def)

lemma chat_keyed [simp]: "chat_of (c\<lparr>f_tiers := ts\<rparr>) = chat_of c" "chat_of (c\<lparr>f_slots := ss\<rparr>) = chat_of c" "chat_of (c\<lparr>f_status := s\<rparr>) = chat_of c"
  by (simp_all add: chat_of_def)

lemma msg_keyed [simp]: "msg_of (c\<lparr>f_tiers := ts\<rparr>) = msg_of c" "msg_of (c\<lparr>f_slots := ss\<rparr>) = msg_of c" "msg_of (c\<lparr>f_status := s\<rparr>) = msg_of c"
  by (simp_all add: msg_of_def)

lemma key_keyed [simp]: "msg_key (c\<lparr>f_tiers := ts\<rparr>) = msg_key c" "msg_key (c\<lparr>f_slots := ss\<rparr>) = msg_key c" "msg_key (c\<lparr>f_status := s\<rparr>) = msg_key c"
  by (simp_all add: msg_key_def)

lemma tiers_keyed [simp]: "tiers_of cfg (c\<lparr>f_tiers := ts\<rparr>) = tiers_of cfg c" "tiers_of cfg (c\<lparr>f_slots := ss\<rparr>) = tiers_of cfg c" "tiers_of cfg (c\<lparr>f_status := s\<rparr>) = tiers_of cfg c"
  by (simp_all add: tiers_of_def Let_def cong: if_cong)

text \<open>What each tier of a call is, by position.\<close>

lemma tier_deadline: "t \<in> set (tiers_of cfg c) \<Longrightarrow> t_deadline t \<le> f_at c + maxDeferMs cfg"
  by (auto simp: tiers_of_def edit_tiers_def Let_def split: if_splits)

lemma tier_drops: "t \<in> set (tiers_of cfg c) \<Longrightarrow> may_drop c t r st \<Longrightarrow>
    (is_edit_call c \<and> r \<noteq> Expiring \<and> (r = LateBudget \<longrightarrow> f_class c = Cosmetic) \<and> (r = NewerInFlight \<longrightarrow> newer_in_flight c st)
      \<or> f_kind c = FChatAction \<and> r = Expiring) \<and> r \<noteq> Superseded \<and> (\<forall>d. t \<noteq> Room KToken CapToken Release d)"
  by (auto simp: tiers_of_def edit_tiers_def Let_def may_drop_def late_keyed_def is_edit_call_def split: if_splits)

lemma tier_last: "tiers_of cfg c \<noteq> [] \<Longrightarrow> last (tiers_of cfg c) = Room KToken CapToken Release (f_at c + maxDeferMs cfg)"
  by (auto simp: tiers_of_def edit_tiers_def Let_def)

lemma tier_superseding:
  assumes "drop n (tiers_of cfg c) = t # ts" "superseding t"
  shows "n = 0 \<and> is_edit_call c \<and> (\<exists>a b. ts = a # b)"
proof -
  have "n < length (tiers_of cfg c)" using assms(1) by (metis drop_all list.distinct(1) not_le)
  then have t: "t = tiers_of cfg c ! n" "ts = drop (Suc n) (tiers_of cfg c)" using assms(1) Cons_nth_drop_Suc by (metis list.inject)+
  show ?thesis
    using assms(2) \<open>n < _\<close> unfolding t
    by (auto simp: tiers_of_def edit_tiers_def Let_def less_Suc_eq nth_Cons' split: if_splits)
qed

section \<open>The invariant of the calls\<close>

definition in_flight :: "fuse_call \<Rightarrow> bool" where
  "in_flight c \<longleftrightarrow> is_edit_call c \<and> (1 < length (f_tiers c) \<or> length (f_tiers c) = 1 \<and> f_status c = Entering)"

definition waits_in :: "fuse_call \<Rightarrow> fuse_key \<Rightarrow> bool" where
  "waits_in c k \<longleftrightarrow> msg_key c = k \<and> (\<exists>wake b s f. f_status c = Asleep wake b s f) \<and> f_tiers c \<noteq> [] \<and> superseding (hd (f_tiers c))"

definition in_lane :: "string \<Rightarrow> fuse_key \<times> int \<Rightarrow> bool" where
  "in_lane ch s \<longleftrightarrow> fst s = KFloorAll ch \<or> fst s = KRest ch"

definition pooled :: "fuse_config \<Rightarrow> fuse_call \<Rightarrow> bool" where
  "pooled cfg c \<longleftrightarrow> is_edit_call c \<and> f_class c = Cosmetic \<and> cosmeticFairShareEnabled cfg"

definition call_ok :: "fuse_config \<Rightarrow> int \<Rightarrow> fuse_call \<Rightarrow> bool" where
  "call_ok cfg now c \<longleftrightarrow> f_at c \<le> now \<and> (\<exists>n. f_tiers c = drop n (tiers_of cfg c)) \<and> (f_tiers c = [] \<longleftrightarrow> f_status c = OnTheWire) \<and>
     (\<forall>wake b s f. f_status c = Asleep wake b s f \<longrightarrow> wake \<le> f_at c + maxDeferMs cfg \<and> (\<forall>t. s = Some t \<longrightarrow> f_at c \<le> t)) \<and>
     (f_status c = Killed \<longrightarrow> is_edit_call c \<and> 1 < length (f_tiers c)) \<and>
     (pooled cfg c \<and> length (f_tiers c) \<le> 2 \<longrightarrow> list_ex (in_lane (chat_of c)) (f_slots c))"

definition drop_ok :: "fuse_call \<times> drop_reason \<Rightarrow> bool" where
  "drop_ok d \<longleftrightarrow> (case d of (c, r) \<Rightarrow>
     is_edit_call c \<and> (r = Superseded \<or> r = NewerInFlight \<or> r = LateBudget \<and> f_class c = Cosmetic) \<or> f_kind c = FChatAction \<and> r = Expiring)"

definition flow_ok :: "fuse_config \<Rightarrow> fuse \<Rightarrow> bool" where
  "flow_ok cfg st \<longleftrightarrow> fz st = cfg \<and> distinct (map f_id (f_calls st)) \<and> list_all (call_ok cfg (f_now st)) (f_calls st) \<and>
     (\<forall>ch m i. w_waiter (f_windows st (KMsg ch m)) = Some i \<longrightarrow> (\<exists>c \<in> set (f_calls st). f_id c = i \<and> waits_in c (KMsg ch m))) \<and>
     (\<forall>ch m. w_inflight (f_windows st (KMsg ch m)) = sum_list (map (\<lambda>c. of_bool (in_flight c \<and> msg_key c = KMsg ch m)) (f_calls st))) \<and>
     list_all drop_ok (f_drops st) \<and> list_all (\<lambda>c. call_ok cfg (f_now st) c \<and> f_tiers c = []) (f_passed st) \<and>
     (maxDeferMs cfg \<le> throttleNoticeMs cfg \<longrightarrow> k_throttled (f_counters st) = 0)"

lemma flow_okD:
  assumes "flow_ok cfg st"
  shows "fz st = cfg" "distinct (map f_id (f_calls st))" "c \<in> set (f_calls st) \<Longrightarrow> call_ok cfg (f_now st) c"
    "w_waiter (f_windows st (KMsg ch m)) = Some i \<Longrightarrow> \<exists>c \<in> set (f_calls st). f_id c = i \<and> waits_in c (KMsg ch m)"
    "w_inflight (f_windows st (KMsg ch m)) = sum_list (map (\<lambda>c. of_bool (in_flight c \<and> msg_key c = KMsg ch m)) (f_calls st))"
    "list_all drop_ok (f_drops st)" "c \<in> set (f_passed st) \<Longrightarrow> call_ok cfg (f_now st) c \<and> f_tiers c = []"
    "maxDeferMs cfg \<le> throttleNoticeMs cfg \<Longrightarrow> k_throttled (f_counters st) = 0"
  using assms by (auto simp: flow_ok_def list_all_iff)

lemma flow_same: "same_flow st st' \<Longrightarrow> flow_ok cfg st' \<longleftrightarrow> flow_ok cfg st"
  by (simp add: flow_ok_def same_flow_def)

text \<open>One call changes: it is replaced, keeping its message, and is not a waiter unless it now waits.\<close>

lemma flow_replace:
  assumes ok: "flow_ok cfg st" and x: "x \<in> set (f_calls st)" and y: "f_id y = f_id x" "msg_key y = msg_key x" "call_ok cfg (f_now st) y"
    and fields: "f_calls st' = map (\<lambda>z. if f_id z = f_id y then y else z) (f_calls st)" "fz st' = fz st" "f_now st' = f_now st" "f_drops st' = f_drops st"
      "f_passed st' = f_passed st \<or> f_passed st' = f_passed st @ [y] \<and> f_tiers y = []"
    and quiet: "maxDeferMs cfg \<le> throttleNoticeMs cfg \<Longrightarrow> k_throttled (f_counters st') = k_throttled (f_counters st)"
    and waiters: "\<And>ch m i. w_waiter (f_windows st' (KMsg ch m)) = Some i \<Longrightarrow>
      w_waiter (f_windows st (KMsg ch m)) = Some i \<and> i \<noteq> f_id x \<or> i = f_id y \<and> waits_in y (KMsg ch m)"
    and flights: "\<And>ch m. w_inflight (f_windows st' (KMsg ch m)) + of_bool (in_flight x \<and> msg_key x = KMsg ch m) =
      w_inflight (f_windows st (KMsg ch m)) + of_bool (in_flight y \<and> msg_key x = KMsg ch m)"
  shows "flow_ok cfg st'"
proof -
  note d = flow_okD [OF ok]
  let ?r = "\<lambda>z. if f_id z = f_id y then y else z"
  have ids: "map f_id (f_calls st') = map f_id (f_calls st)" by (simp add: fields(1))
  have y_in: "y \<in> set (f_calls st')" using x y(1) by (force simp: fields(1) image_iff)
  have w: "\<exists>c \<in> set (f_calls st'). f_id c = i \<and> waits_in c (KMsg ch m)" if "w_waiter (f_windows st' (KMsg ch m)) = Some i" for ch m i
    using waiters [OF that]
  proof
    assume o: "w_waiter (f_windows st (KMsg ch m)) = Some i \<and> i \<noteq> f_id x"
    then obtain c where c: "c \<in> set (f_calls st)" "f_id c = i" "waits_in c (KMsg ch m)" using d(4) by blast
    then have "?r c \<in> set (f_calls st')" "?r c = c" using o y(1) by (auto simp: fields(1))
    with c show ?thesis by auto
  qed (use y_in in auto)
  have f: "w_inflight (f_windows st' (KMsg ch m)) = sum_list (map (\<lambda>c. of_bool (in_flight c \<and> msg_key c = KMsg ch m)) (f_calls st'))" for ch m
    using sum_replace [OF d(2) x y(1) [symmetric], of "\<lambda>c. of_bool (in_flight c \<and> msg_key c = KMsg ch m)"] flights [of ch m] d(5) [of ch m] y(2)
    unfolding fields(1) by simp
  have c: "list_all (call_ok cfg (f_now st')) (f_calls st')" using d(3) y(3) by (auto simp: fields list_all_iff)
  have p: "list_all (\<lambda>c. call_ok cfg (f_now st') c \<and> f_tiers c = []) (f_passed st')" using d(7) fields(3,5) y(3) by (auto simp: list_all_iff)
  show ?thesis using d(1,2,6,8) ids w f c p quiet fields(2,4) unfolding flow_ok_def by simp
qed

lemma flow_remove:
  assumes ok: "flow_ok cfg st" and x: "x \<in> set (f_calls st)"
    and fields: "f_calls st' = filter (\<lambda>z. f_id z \<noteq> f_id x) (f_calls st)" "fz st' = fz st" "f_now st' = f_now st" "f_passed st' = f_passed st"
      "list_all drop_ok (f_drops st')" "k_throttled (f_counters st') = k_throttled (f_counters st)"
    and waiters: "\<And>ch m i. w_waiter (f_windows st' (KMsg ch m)) = Some i \<Longrightarrow> w_waiter (f_windows st (KMsg ch m)) = Some i \<and> i \<noteq> f_id x"
    and flights: "\<And>ch m. w_inflight (f_windows st' (KMsg ch m)) + of_bool (in_flight x \<and> msg_key x = KMsg ch m) = w_inflight (f_windows st (KMsg ch m))"
  shows "flow_ok cfg st'"
proof -
  note d = flow_okD [OF ok]
  have w: "\<exists>c \<in> set (f_calls st'). f_id c = i \<and> waits_in c (KMsg ch m)" if "w_waiter (f_windows st' (KMsg ch m)) = Some i" for ch m i
    using waiters [OF that] d(4) [of ch m i] by (auto simp: fields(1))
  have f: "w_inflight (f_windows st' (KMsg ch m)) = sum_list (map (\<lambda>c. of_bool (in_flight c \<and> msg_key c = KMsg ch m)) (f_calls st'))" for ch m
    using sum_remove [OF d(2) x, of "\<lambda>c. of_bool (in_flight c \<and> msg_key c = KMsg ch m)"] flights [of ch m] d(5) [of ch m]
    unfolding fields(1) by simp
  have i: "distinct (map f_id (f_calls st'))" using d(2) by (simp add: fields(1) distinct_map_filter)
  show ?thesis using d(1,3,7,8) i w f fields unfolding flow_ok_def by (auto simp: list_all_iff)
qed

section \<open>One turn of a call keeps it\<close>

lemma leave_flight_fields [simp]: "f_calls (leave_flight c st) = f_calls st" "fz (leave_flight c st) = fz st" "f_now (leave_flight c st) = f_now st"
  "f_drops (leave_flight c st) = f_drops st" "f_passed (leave_flight c st) = f_passed st" "f_counters (leave_flight c st) = f_counters st"
  "w_waiter (f_windows (leave_flight c st) k) = w_waiter (f_windows st k)" "w_ts (f_windows (leave_flight c st) k) = w_ts (f_windows st k)"
  by (simp_all add: leave_flight_def upd_window_def)

lemma in_flight_counted:
  assumes "flow_ok cfg st" "c \<in> set (f_calls st)" "in_flight c" "msg_key c = KMsg ch m"
  shows "0 < w_inflight (f_windows st (KMsg ch m))"
proof -
  have "of_bool (in_flight c \<and> msg_key c = KMsg ch m) \<le> sum_list (map (\<lambda>c. of_bool (in_flight c \<and> msg_key c = KMsg ch m) :: nat) (f_calls st))"
    using assms(2) by (intro member_le_sum_list) auto
  then show ?thesis using flow_okD(5) [OF assms(1)] assms(3,4) by simp
qed

lemma leave_flight_count:
  assumes "flow_ok cfg st" "c \<in> set (f_calls st)" "in_flight c"
  shows "w_inflight (f_windows (leave_flight c st) (KMsg ch m)) + of_bool (msg_key c = KMsg ch m) = w_inflight (f_windows st (KMsg ch m))"
  using in_flight_counted [OF assms, of ch m] assms(3) by (auto simp: leave_flight_def upd_window_def in_flight_def)

text \<open>A call about to take a turn: entering a tier, or woken in it.\<close>

definition ready :: "fuse_call \<Rightarrow> bool \<Rightarrow> int option \<Rightarrow> bool \<Rightarrow> bool" where
  "ready c counted firstAt fired \<longleftrightarrow> f_tiers c \<noteq> [] \<and>
     (f_status c = Entering \<and> firstAt = None \<or> (\<exists>wake. f_status c = Asleep wake counted firstAt fired))"

definition no_waiter :: "nat \<Rightarrow> fuse \<Rightarrow> bool" where
  "no_waiter i st \<longleftrightarrow> (\<forall>ch m. w_waiter (f_windows st (KMsg ch m)) \<noteq> Some i)"

lemma tiers_step:
  assumes "call_ok cfg now c" "f_tiers c = t # ts"
  shows "t \<in> set (tiers_of cfg c)" "\<exists>n. ts = drop n (tiers_of cfg c)" "ts = [] \<Longrightarrow> t = Room KToken CapToken Release (f_at c + maxDeferMs cfg)"
    "superseding t \<Longrightarrow> is_edit_call c \<and> ts \<noteq> []"
proof -
  obtain n where n: "drop n (tiers_of cfg c) = t # ts" using assms unfolding call_ok_def by metis
  have l: "n < length (tiers_of cfg c)" using n by (metis drop_all list.distinct(1) not_le)
  show "t \<in> set (tiers_of cfg c)" using n by (metis in_set_dropD list.set_intros(1))
  have "ts = drop (Suc n) (tiers_of cfg c)" using n l Cons_nth_drop_Suc by (metis list.inject)
  then show "\<exists>n. ts = drop n (tiers_of cfg c)" by blast
  have "last (tiers_of cfg c) = last (t # ts)" using n l last_drop by metis
  then show "ts = [] \<Longrightarrow> t = Room KToken CapToken Release (f_at c + maxDeferMs cfg)" using tier_last [of cfg c] l by (cases "tiers_of cfg c = []") auto
  show "superseding t \<Longrightarrow> is_edit_call c \<and> ts \<noteq> []" using tier_superseding [OF n] by auto
qed

text \<open>In the fair tier a call gets its lane.\<close>

lemma lane_taken:
  assumes c: "call_ok cfg now c" and t: "f_tiers c = t # ts" and slots: "\<exists>ks \<in> turn_keys c t. slots = map (\<lambda>k. (k, x)) ks"
    and p: "pooled cfg c" "length ts \<le> 2"
  shows "list_ex (in_lane (chat_of c)) (f_slots c @ slots)"
proof (cases "length (f_tiers c) \<le> 2")
  case True
  then show ?thesis using c p by (auto simp: call_ok_def list_ex_iff)
next
  case False
  then have l: "length (f_tiers c) = 3" using p(2) t by simp
  obtain n where n: "f_tiers c = drop n (tiers_of cfg c)" using c by (auto simp: call_ok_def)
  have "tiers_of cfg c = edit_tiers cfg (chat_of c) (msg_of c) Cosmetic (f_at c + maxDeferMs cfg)"
    using p(1) by (auto simp: pooled_def tiers_of_def Let_def is_edit_call_def)
  then have e: "length (tiers_of cfg c) = 4" "tiers_of cfg c ! 1 = FairShare (f_at c + maxDeferMs cfg)" using p(1) by (simp_all add: edit_tiers_def pooled_def)
  then have "n = 1" using l n by simp
  then have "t = tiers_of cfg c ! 1" using n t e(1) by (metis Cons_nth_drop_Suc list.inject one_less_numeral_iff semiring_norm(76))
  then show ?thesis using slots e(2) by (auto simp: turn_keys_def floor_keys_def in_lane_def list_ex_iff)
qed

text \<open>A turn that is not the last keeps the frame in flight; the last one takes it out.\<close>

definition entered :: "fuse_call \<Rightarrow> fuse \<Rightarrow> fuse" where
  "entered c st = (if length (f_tiers c) = 1 \<and> f_status c = Entering then leave_flight c st else st)"

lemma entered_fields [simp]: "f_calls (entered c st) = f_calls st" "fz (entered c st) = fz st" "f_now (entered c st) = f_now st"
  "f_drops (entered c st) = f_drops st" "f_passed (entered c st) = f_passed st" "f_counters (entered c st) = f_counters st"
  "w_waiter (f_windows (entered c st) k) = w_waiter (f_windows st k)" "w_ts (f_windows (entered c st) k) = w_ts (f_windows st k)"
  by (simp_all add: entered_def)

lemma entered_count:
  assumes "flow_ok cfg st" "c \<in> set (f_calls st)" "ready c counted s f" "f_tiers c = t # ts"
  shows "w_inflight (f_windows (entered c st) (KMsg ch m)) + of_bool (in_flight c \<and> msg_key c = KMsg ch m) =
    w_inflight (f_windows st (KMsg ch m)) + of_bool (is_edit_call c \<and> ts \<noteq> [] \<and> msg_key c = KMsg ch m)"
proof (cases "ts = [] \<and> f_status c = Entering")
  case True
  show ?thesis
  proof (cases "is_edit_call c")
    case e: True
    then show ?thesis using True leave_flight_count [OF assms(1,2), of ch m] assms(4) by (auto simp: entered_def in_flight_def)
  qed (use True assms(4) in \<open>auto simp: entered_def in_flight_def leave_flight_def\<close>)
next
  case False
  then show ?thesis using assms(3,4) by (auto simp: entered_def in_flight_def ready_def neq_Nil_conv)
qed

lemma entered_turn:
  assumes "tier_turn c t (entered c st) = (r, st')"
  shows "f_calls st' = f_calls st" "fz st' = fz st" "f_now st' = f_now st" "f_drops st' = f_drops st" "f_passed st' = f_passed st"
    "k_throttled (f_counters st') = k_throttled (f_counters st)" "w_waiter (f_windows st' k) = w_waiter (f_windows st k)"
    "w_inflight (f_windows st' k) = w_inflight (f_windows (entered c st) k)"
  using same_flowD [OF tier_turn_flow [OF assms]] by simp_all

lemma took_ok:
  assumes ok: "flow_ok cfg st" and c: "c \<in> set (f_calls st)" "ready c counted s f" "no_waiter (f_id c) st" and t: "f_tiers c = t # ts"
    and turn: "tier_turn c t (entered c st) = (Took slots, st1)"
    and c': "c' = c\<lparr>f_tiers := ts, f_slots := f_slots c @ slots, f_status := if ts = [] then OnTheWire else Entering\<rparr>"
  shows "flow_ok cfg (if ts = [] then (set_fcall c' st1)\<lparr>f_passed := f_passed st1 @ [c']\<rparr> else set_fcall c' st1)" (is "flow_ok cfg ?st")
proof -
  have co: "call_ok cfg (f_now st) c" using flow_okD(3) [OF ok] c(1) by blast
  note e = entered_turn [OF turn]
  have "pooled cfg c \<and> length ts \<le> 2 \<longrightarrow> list_ex (in_lane (chat_of c)) (f_slots c @ slots)"
    using lane_taken [OF co t turn_took [OF turn]] by blast
  then have y: "call_ok cfg (f_now st) c'"
    using co tiers_step(2) [OF co t] by (simp add: c' call_ok_def pooled_def)
  have fl: "in_flight c' \<longleftrightarrow> is_edit_call c \<and> ts \<noteq> []"
    by (cases ts) (auto simp: c' in_flight_def)
  show ?thesis
  proof (rule flow_replace [OF ok c(1) _ _ y])
    show "w_inflight (f_windows ?st (KMsg ch m)) + of_bool (in_flight c \<and> msg_key c = KMsg ch m) =
      w_inflight (f_windows st (KMsg ch m)) + of_bool (in_flight c' \<and> msg_key c = KMsg ch m)" for ch m
      using entered_count [OF ok c(1,2) t, of ch m] e(8) by (simp add: fl set_fcall_def)
    show "w_waiter (f_windows ?st (KMsg ch m)) = Some i \<Longrightarrow> w_waiter (f_windows st (KMsg ch m)) = Some i \<and> i \<noteq> f_id c \<or> i = f_id c' \<and> waits_in c' (KMsg ch m)"
      for ch m i using c(3) e(7) by (auto simp: no_waiter_def set_fcall_def split: if_splits)
  qed (use e in \<open>auto simp: c' set_fcall_def\<close>)
qed

lemma dropped_ok:
  assumes ok: "flow_ok cfg st" and c: "c \<in> set (f_calls st)" "in_flight c \<longleftrightarrow> is_edit_call c" "no_waiter (f_id c) st" and d: "drop_ok (c, r)"
  shows "flow_ok cfg (drop_fcall c r st)"
proof -
  let ?st = "fold unreserve (f_slots c) (end_fcall c st)"
  have s: "same_flow (end_fcall c st) ?st" by (rule same_flow_fold) simp
  note sd = same_flowD [OF s]
  show ?thesis
  proof (rule flow_remove [OF ok c(1)])
    show "w_inflight (f_windows (drop_fcall c r st) (KMsg ch m)) + of_bool (in_flight c \<and> msg_key c = KMsg ch m) = w_inflight (f_windows st (KMsg ch m))" for ch m
    proof (cases "is_edit_call c \<and> msg_key c = KMsg ch m")
      case True
      then have "0 < w_inflight (f_windows st (KMsg ch m))" using in_flight_counted [OF ok c(1)] c(2) by blast
      then show ?thesis using True c(2) sd(8) by (simp add: drop_fcall_def leave_flight_def upd_window_def end_fcall_def)
    qed (use c(2) sd(8) in \<open>auto simp: drop_fcall_def leave_flight_def upd_window_def end_fcall_def\<close>)
    show "w_waiter (f_windows (drop_fcall c r st) (KMsg ch m)) = Some i \<Longrightarrow> w_waiter (f_windows st (KMsg ch m)) = Some i \<and> i \<noteq> f_id c" for ch m i
      using c(3) sd(7) by (auto simp: drop_fcall_def end_fcall_def no_waiter_def)
  qed (use sd d flow_okD(6) [OF ok] in \<open>auto simp: drop_fcall_def end_fcall_def\<close>)
qed

text \<open>A newer edit kills the one that waits; then it waits itself.\<close>

definition kill_waiter :: "fuse_key \<Rightarrow> fuse \<Rightarrow> fuse" where
  "kill_waiter k st = upd_window k (\<lambda>w. w\<lparr>w_waiter := None\<rparr>) (case w_waiter (f_windows st k) of None \<Rightarrow> st
     | Some i \<Rightarrow> st\<lparr>f_calls := map (\<lambda>x. if f_id x = i then x\<lparr>f_status := Killed\<rparr> else x) (f_calls st)\<rparr>)"

lemma kill_waiter_fields [simp]: "fz (kill_waiter k st) = fz st" "f_now (kill_waiter k st) = f_now st" "f_drops (kill_waiter k st) = f_drops st"
  "f_passed (kill_waiter k st) = f_passed st" "f_counters (kill_waiter k st) = f_counters st"
  "w_waiter (f_windows (kill_waiter k st) k') = (if k' = k then None else w_waiter (f_windows st k'))"
  "w_inflight (f_windows (kill_waiter k st) k') = w_inflight (f_windows st k')" "w_ts (f_windows (kill_waiter k st) k') = w_ts (f_windows st k')"
  by (simp_all add: kill_waiter_def upd_window_def split: option.split)

lemma kill_waiter_ok:
  assumes ok: "flow_ok cfg st"
  shows "flow_ok cfg (kill_waiter (KMsg ch m) st)"
proof (cases "w_waiter (f_windows st (KMsg ch m))")
  case None
  then have "same_flow st (kill_waiter (KMsg ch m) st)" by (simp add: same_flow_def kill_waiter_def upd_window_def)
  then show ?thesis using ok flow_same by blast
next
  case (Some i)
  then obtain x where x: "x \<in> set (f_calls st)" "f_id x = i" "waits_in x (KMsg ch m)" using flow_okD(4) [OF ok] by blast
  have co: "call_ok cfg (f_now st) x" using flow_okD(3) [OF ok x(1)] .
  obtain t ts where t: "f_tiers x = t # ts" "superseding t" using x(3) by (cases "f_tiers x") (auto simp: waits_in_def)
  have e: "is_edit_call x" "ts \<noteq> []" using tiers_step(4) [OF co t] by auto
  let ?y = "x\<lparr>f_status := Killed\<rparr>"
  have u: "z = x" if "z \<in> set (f_calls st)" "f_id z = i" for z using same_id [OF flow_okD(2) [OF ok] that(1) x(1)] that(2) x(2) by simp
  have calls: "f_calls (kill_waiter (KMsg ch m) st) = map (\<lambda>z. if f_id z = f_id ?y then ?y else z) (f_calls st)"
    by (simp add: kill_waiter_def upd_window_def Some x(2), intro ballI impI, drule (1) u, simp)
  have y: "call_ok cfg (f_now st) ?y"
    using co e t x(3) by (simp add: call_ok_def pooled_def)
  have fl: "in_flight x = in_flight ?y" using e t(1) by (auto simp: in_flight_def)
  have w: "w_waiter (f_windows st (KMsg ch' m')) = Some i \<Longrightarrow> KMsg ch' m' = KMsg ch m" for ch' m'
    using flow_okD(4) [OF ok, of ch' m' i] x same_id [OF flow_okD(2) [OF ok]] unfolding waits_in_def by metis
  show ?thesis
    by (rule flow_replace [OF ok x(1) _ _ y calls]) (use w x(2) fl in \<open>auto split: if_splits\<close>)
qed

lemma take_waiter_fields [simp]: "fz (take_waiter c st) = fz st" "f_now (take_waiter c st) = f_now st" "f_drops (take_waiter c st) = f_drops st"
  "f_passed (take_waiter c st) = f_passed st" "f_counters (take_waiter c st) = f_counters st"
  "f_calls (take_waiter c st) = f_calls (kill_waiter (msg_key c) st)"
  "w_waiter (f_windows (take_waiter c st) k) = (if k = msg_key c then Some (f_id c) else w_waiter (f_windows st k))"
  "w_inflight (f_windows (take_waiter c st) k) = w_inflight (f_windows st k)" "w_ts (f_windows (take_waiter c st) k) = w_ts (f_windows st k)"
  by (simp_all add: take_waiter_def kill_waiter_def upd_window_def Let_def split: option.split)

lemma note_wait_fields [simp]: "fz (note_wait c b s f st) = fz st" "f_now (note_wait c b s f st) = f_now st" "f_drops (note_wait c b s f st) = f_drops st"
  "f_passed (note_wait c b s f st) = f_passed st" "f_windows (note_wait c b s f st) = f_windows st" "f_calls (note_wait c b s f st) = f_calls st"
  "k_throttled (f_counters (note_wait c b s f st)) = (if notice_fires c s f st then Suc (k_throttled (f_counters st)) else k_throttled (f_counters st))"
  by (simp_all add: note_wait_def count_fuse_def)

lemma set_fcall_fields [simp]: "fz (set_fcall c st) = fz st" "f_now (set_fcall c st) = f_now st" "f_drops (set_fcall c st) = f_drops st"
  "f_passed (set_fcall c st) = f_passed st" "f_windows (set_fcall c st) = f_windows st" "f_counters (set_fcall c st) = f_counters st"
  "f_calls (set_fcall c st) = map (\<lambda>x. if f_id x = f_id c then c else x) (f_calls st)"
  by (simp_all add: set_fcall_def)

lemma sleepCap_le: "sleepCap c s f st nap \<le> nap"
  by (auto simp: sleepCap_def split: option.split)

lemma kill_waiter_calls:
  assumes "f_calls st' = f_calls st" "w_waiter (f_windows st' k) = w_waiter (f_windows st k)"
  shows "f_calls (kill_waiter k st') = f_calls (kill_waiter k st)"
  using assms by (simp add: kill_waiter_def upd_window_def split: option.split)

lemma kill_keeps: "c \<in> set (f_calls st) \<Longrightarrow> no_waiter (f_id c) st \<Longrightarrow> c \<in> set (f_calls (kill_waiter (KMsg ch m) st))"
  by (force simp: kill_waiter_def upd_window_def no_waiter_def image_iff split: option.split)

lemma nap_ok:
  assumes ok: "flow_ok cfg st" and c: "c \<in> set (f_calls st)" "ready c counted s fired" "no_waiter (f_id c) st" and t: "f_tiers c = t # ts"
    and turn: "tier_turn c t (entered c st) = (Nap wait, st1)"
  shows "flow_ok cfg (nap_fcall c t counted s fired wait st1)" (is "flow_ok cfg ?st")
proof -
  have co: "call_ok cfg (f_now st) c" using flow_okD(3) [OF ok c(1)] .
  note e = entered_turn [OF turn]
  have now: "f_now st < t_deadline t" "t_deadline t \<le> f_at c + maxDeferMs cfg"
    using turn_nap [OF turn] tier_deadline [OF tiers_step(1) [OF co t]] by simp_all
  have since: "first_wait c s st1 = Some x \<Longrightarrow> f_at c \<le> x" for x
    using co c(2) e(3) by (auto simp: first_wait_def ready_def call_ok_def split: if_splits option.splits)
  then have silent: "\<not> notice_fires c s fired st1" if "maxDeferMs cfg \<le> throttleNoticeMs cfg"
    using that now e(2,3) flow_okD(1) [OF ok] by (fastforce simp: notice_fires_def split: option.splits)
  define nap where "nap = sleepCap c (first_wait c s st1) (fired \<or> notice_fires c s fired st1) (note_wait c counted s fired st1) (min wait (t_deadline t - f_now st))"
  have nap: "nap \<le> t_deadline t - f_now st" unfolding nap_def by (rule order_trans [OF sleepCap_le]) simp
  let ?y = "c\<lparr>f_status := Asleep (f_now st + nap) True (first_wait c s st1) (fired \<or> notice_fires c s fired st1)\<rparr>"
  have y: "call_ok cfg (f_now st) ?y" using co t nap now(2) since by (auto simp: call_ok_def pooled_def)
  have fl: "in_flight ?y \<longleftrightarrow> is_edit_call c \<and> ts \<noteq> []" using t by (auto simp: in_flight_def)
  define st0 where "st0 = (if superseding t then kill_waiter (msg_key c) st else st)"
  have ok0: "flow_ok cfg st0" "c \<in> set (f_calls st0)"
    using ok c(1) kill_waiter_ok [OF ok] kill_keeps [OF c(1,3)] by (auto simp: st0_def msg_key_def)
  have st: "?st = set_fcall ?y (if superseding t then take_waiter c (note_wait c counted s fired st1) else note_wait c counted s fired st1)"
    using e(3) by (simp add: nap_fcall_def Let_def nap_def)
  have calls: "f_calls (kill_waiter (msg_key c) (note_wait c counted s fired st1)) = f_calls (kill_waiter (msg_key c) st)"
    by (rule kill_waiter_calls) (use e in simp_all)
  show ?thesis unfolding st
  proof (rule flow_replace [OF ok0, of ?y])
    show "w_inflight (f_windows (set_fcall ?y (if superseding t then take_waiter c (note_wait c counted s fired st1) else note_wait c counted s fired st1)) (KMsg ch m)) +
        of_bool (in_flight c \<and> msg_key c = KMsg ch m) = w_inflight (f_windows st0 (KMsg ch m)) + of_bool (in_flight ?y \<and> msg_key c = KMsg ch m)" for ch m
      using entered_count [OF ok c(1,2) t, of ch m] e(8) by (simp add: fl st0_def)
    show "w_waiter (f_windows (set_fcall ?y (if superseding t then take_waiter c (note_wait c counted s fired st1) else note_wait c counted s fired st1)) (KMsg ch m)) = Some i \<Longrightarrow>
        w_waiter (f_windows st0 (KMsg ch m)) = Some i \<and> i \<noteq> f_id c \<or> i = f_id ?y \<and> waits_in ?y (KMsg ch m)" for ch m i
      using c(3) e(7) t by (auto simp: st0_def no_waiter_def waits_in_def split: if_splits)
  qed (use y e silent calls in \<open>auto simp: st0_def\<close>)
qed

lemma run_tier_entered:
  "run_tier c counted s fired st = (case f_tiers c of [] \<Rightarrow> st | t # ts \<Rightarrow>
     (case tier_turn c t (entered c st) of
        (Took slots, st1) \<Rightarrow>
          let c' = c\<lparr>f_tiers := ts, f_slots := f_slots c @ slots, f_status := if ts = [] then OnTheWire else Entering\<rparr>
          in if ts = [] then (set_fcall c' st1)\<lparr>f_passed := f_passed st1 @ [c']\<rparr> else set_fcall c' st1
      | (Dropped r, st1) \<Rightarrow> drop_fcall c r st1
      | (Nap wait, st1) \<Rightarrow> nap_fcall c t counted s fired wait st1))"
  by (simp add: run_tier_def entered_def split: list.split)

lemma run_tier_ok:
  assumes ok: "flow_ok cfg st" and c: "c \<in> set (f_calls st)" "ready c counted s fired" "no_waiter (f_id c) st"
  shows "flow_ok cfg (run_tier c counted s fired st)"
proof -
  obtain t ts where t: "f_tiers c = t # ts" using c(2) by (cases "f_tiers c") (auto simp: ready_def)
  obtain r st1 where turn: "tier_turn c t (entered c st) = (r, st1)" by (cases "tier_turn c t (entered c st)")
  have co: "call_ok cfg (f_now st) c" using flow_okD(3) [OF ok c(1)] .
  show ?thesis
  proof (cases r)
    case (Took slots)
    then show ?thesis using took_ok [OF ok c t _ refl] turn t by (simp add: run_tier_entered Let_def)
  next
    case (Nap w)
    then show ?thesis using nap_ok [OF ok c t] turn t by (simp add: run_tier_entered)
  next
    case (Dropped q)
    note dr = tier_drops [OF tiers_step(1) [OF co t] turn_dropped [OF turn [unfolded Dropped]]]
    then have ts: "ts \<noteq> []" using tiers_step(3) [OF co t] by blast
    then have en: "entered c st = st" using t by (simp add: entered_def)
    have fl: "same_flow st st1" using tier_turn_flow [OF turn] en by simp
    have "flow_ok cfg st1" using fl ok flow_same by blast
    moreover have "c \<in> set (f_calls st1)" "no_waiter (f_id c) st1" using c(1,3) fl by (simp_all add: same_flow_def no_waiter_def)
    moreover have "in_flight c \<longleftrightarrow> is_edit_call c" using t ts by (auto simp: in_flight_def)
    moreover have "drop_ok (c, q)" using dr by (cases q) (auto simp: drop_ok_def)
    ultimately show ?thesis using dropped_ok turn t by (simp add: run_tier_entered Dropped)
  qed
qed

section \<open>Every event keeps it\<close>

text \<open>Only calls that wait in the message tier are waiters, so no other call is.\<close>

lemma not_waiting:
  assumes "flow_ok cfg st" "c \<in> set (f_calls st)" "\<And>k. \<not> waits_in c k"
  shows "no_waiter (f_id c) st"
  using flow_okD(4) [OF assms(1)] same_id [OF flow_okD(2) [OF assms(1)] _ assms(2)] assms(3) unfolding no_waiter_def by metis

lemma clear_waiter_ok:
  assumes ok: "flow_ok cfg st"
  shows "flow_ok cfg (upd_window k (\<lambda>w. w\<lparr>w_waiter := None\<rparr>) st)"
  using ok unfolding flow_ok_def upd_window_def by auto

lemma resume_cases:
  assumes ok: "flow_ok cfg st"
  obtains (idle) "resume_fcall i st = st" "\<And>c. c \<in> set (f_calls st) \<Longrightarrow> f_id c = i \<Longrightarrow> f_status c = OnTheWire \<or> (\<exists>w b s f. f_status c = Asleep w b s f \<and> f_now st < w)"
  | (turn) c counted s f st' where "resume_fcall i st = run_tier c counted s f st'" "st' = st \<or> st' = upd_window (msg_key c) (\<lambda>w. w\<lparr>w_waiter := None\<rparr>) st"
      "f_id c = i" "c \<in> set (f_calls st')" "ready c counted s f" "no_waiter (f_id c) st'"
  | (killed) c where "resume_fcall i st = drop_fcall c Superseded (count_fuse (\<lambda>k. k\<lparr>k_superseded := Suc (k_superseded k)\<rparr>) st)"
      "f_id c = i" "c \<in> set (f_calls st)" "f_status c = Killed" "no_waiter (f_id c) st"
proof (cases "find_fcall i st")
  case None
  then have "resume_fcall i st = st" "\<And>c. c \<in> set (f_calls st) \<Longrightarrow> f_id c \<noteq> i"
    by (simp_all add: resume_fcall_def) (auto simp: find_fcall_def find_None_iff)
  then show ?thesis using idle by blast
next
  case (Some c)
  then have c: "c \<in> set (f_calls st)" "f_id c = i" using find_fcall_SomeD by auto
  have co: "call_ok cfg (f_now st) c" using flow_okD(3) [OF ok c(1)] .
  have u: "z = c" if "z \<in> set (f_calls st)" "f_id z = i" for z using same_id [OF flow_okD(2) [OF ok] that(1) c(1)] that(2) c(2) by simp
  show ?thesis
  proof (cases "f_status c")
    case Entering
    then have "no_waiter (f_id c) st" by (intro not_waiting [OF ok c(1)]) (simp add: waits_in_def)
    then show ?thesis using Entering Some co c by (intro turn [of c False None False st]) (simp_all add: resume_fcall_def ready_def call_ok_def)
  next
    case (Asleep wake counted s fired)
    let ?st = "if f_tiers c \<noteq> [] \<and> superseding (hd (f_tiers c)) then upd_window (msg_key c) (\<lambda>w. w\<lparr>w_waiter := None\<rparr>) st else st"
    have n: "no_waiter (f_id c) ?st"
    proof (cases "f_tiers c \<noteq> [] \<and> superseding (hd (f_tiers c))")
      case True
      then show ?thesis using flow_okD(4) [OF ok] same_id [OF flow_okD(2) [OF ok] _ c(1)]
        unfolding no_waiter_def by (auto simp: upd_window_def waits_in_def) metis
    next
      case False
      then show ?thesis using not_waiting [OF ok c(1)] by (auto simp: waits_in_def)
    qed
    have r: "ready c counted s fired" "c \<in> set (f_calls ?st)" using Asleep co c by (simp_all add: ready_def call_ok_def upd_window_def)
    show ?thesis
    proof (cases "f_now st < wake")
      case True
      then show ?thesis using Some Asleep u by (intro idle) (auto simp: resume_fcall_def)
    next
      case False
      then show ?thesis using Some Asleep c n r by (intro turn [of c counted s fired ?st]) (auto simp: resume_fcall_def)
    qed
  next
    case Killed
    then have "no_waiter (f_id c) st" using not_waiting [OF ok c(1)] by (simp add: waits_in_def)
    then show ?thesis using killed Killed Some c by (simp add: resume_fcall_def)
  next
    case OnTheWire
    then show ?thesis using Some u by (intro idle) (auto simp: resume_fcall_def)
  qed
qed

lemma superseded_ok:
  assumes ok: "flow_ok cfg st" and c: "c \<in> set (f_calls st)" "f_status c = Killed" "no_waiter (f_id c) st"
  shows "flow_ok cfg (drop_fcall c Superseded (count_fuse (\<lambda>k. k\<lparr>k_superseded := Suc (k_superseded k)\<rparr>) st))" (is "flow_ok cfg (drop_fcall c Superseded ?st)")
proof -
  have co: "call_ok cfg (f_now st) c" using flow_okD(3) [OF ok c(1)] .
  have "same_flow st ?st" by (simp add: same_flow_def count_fuse_def)
  then have "flow_ok cfg ?st" using ok flow_same by blast
  moreover have "no_waiter (f_id c) ?st" "c \<in> set (f_calls ?st)" using c by (simp_all add: no_waiter_def count_fuse_def)
  moreover have "in_flight c \<longleftrightarrow> is_edit_call c" "drop_ok (c, Superseded)" using co c(2) by (auto simp: in_flight_def drop_ok_def call_ok_def)
  ultimately show ?thesis using dropped_ok by blast
qed

lemma resume_ok:
  assumes "flow_ok cfg st"
  shows "flow_ok cfg (resume_fcall i st)"
  by (rule resume_cases [OF assms, of i]) (use assms in \<open>auto intro: run_tier_ok superseded_ok clear_waiter_ok\<close>)

lemma note_arrival_fields [simp]: "f_calls (note_arrival c st) = f_calls st" "fz (note_arrival c st) = fz st" "f_now (note_arrival c st) = f_now st"
  "f_drops (note_arrival c st) = f_drops st" "f_passed (note_arrival c st) = f_passed st"
  "k_throttled (f_counters (note_arrival c st)) = k_throttled (f_counters st)"
  "w_waiter (f_windows (note_arrival c st) k) = w_waiter (f_windows st k)" "w_ts (f_windows (note_arrival c st) k) = w_ts (f_windows st k)"
  "w_inflight (f_windows (note_arrival c st) k) = w_inflight (f_windows st k) + of_bool (f_kind c \<noteq> FUnmetered \<and> is_edit_call c \<and> msg_key c = k)"
  by (auto simp: note_arrival_def upd_window_def count_fuse_def is_edit_call_def)

lemma new_fcall_fields [simp]: "f_id (new_fcall i m ch ms tg st) = i" "f_at (new_fcall i m ch ms tg st) = f_now st"
  "f_kind (new_fcall i m ch ms tg st) = method_kind m" "f_class (new_fcall i m ch ms tg st) = fuse_class tg (method_kind m)"
  "f_chat (new_fcall i m ch ms tg st) = ch" "f_msg (new_fcall i m ch ms tg st) = ms" "f_slots (new_fcall i m ch ms tg st) = []"
  "f_status (new_fcall i m ch ms tg st) = (if method_kind m = FUnmetered then OnTheWire else Entering)"
  by (simp_all add: new_fcall_def Let_def)

lemma new_fcall_tiers [simp]: "f_tiers (new_fcall i m ch ms tg st) = tiers_of (fz st) (new_fcall i m ch ms tg st)"
  unfolding new_fcall_def Let_def tiers_keyed by simp

lemma tiers_of_shape: "tiers_of cfg c = [] \<longleftrightarrow> f_kind c = FUnmetered" "is_edit_call c \<Longrightarrow> length (tiers_of cfg c) = 4"
  by (auto simp: tiers_of_def edit_tiers_def Let_def is_edit_call_def)

lemma arrive_cases:
  assumes ok: "flow_ok cfg st"
  obtains (refused) "arrive i meth chat msg tagged st = st"
  | (taken) c st' where "st' = (note_arrival c st)\<lparr>f_calls := f_calls st @ [c]\<rparr>" "flow_ok cfg st'" "f_slots c = []" "f_id c = i" "f_id c \<notin> f_id ` set (f_calls st)"
      "arrive i meth chat msg tagged st = st' \<or>
       arrive i meth chat msg tagged st = run_tier c False None False st' \<and> ready c False None False \<and> no_waiter (f_id c) st'"
proof (cases "\<not> f_enabled (fz st) \<or> i \<in> f_id ` set (f_calls st)")
  case True
  then show ?thesis by (intro refused) (auto simp: arrive_def)
next
  case False
  define c where "c = new_fcall i meth chat msg tagged st"
  let ?st = "(note_arrival c st)\<lparr>f_calls := f_calls st @ [c]\<rparr>"
  note d = flow_okD [OF ok]
  have f: "f_id c = i" "f_at c = f_now st" "f_tiers c = tiers_of cfg c" "f_status c = (if f_kind c = FUnmetered then OnTheWire else Entering)" "f_slots c = []"
    using d(1) by (simp_all add: c_def)
  have c: "call_ok cfg (f_now st) c"
    unfolding call_ok_def pooled_def using f tiers_of_shape(1) [of cfg c] tiers_of_shape(2) [of c cfg] by (auto intro: exI [of _ 0])
  have fl: "in_flight c \<longleftrightarrow> f_kind c \<noteq> FUnmetered \<and> is_edit_call c" using f tiers_of_shape(2) [of c cfg] by (auto simp: in_flight_def is_edit_call_def)
  have ok': "flow_ok cfg ?st"
    using ok c False f(1) fl unfolding flow_ok_def by (auto simp: list_all_iff)
  have r: "arrive i meth chat msg tagged st = run_tier c False None False ?st"
    using False by (simp add: arrive_def Let_def c_def)
  show ?thesis
  proof (cases "f_kind c = FUnmetered")
    case True
    then have "arrive i meth chat msg tagged st = ?st" using r f(3) tiers_of_shape(1) [of cfg c] by (simp add: run_tier_def)
    then show ?thesis using False f(1,5) by (intro taken [OF refl ok']) auto
  next
    case k: False
    then have "no_waiter (f_id c) ?st" by (intro not_waiting [OF ok']) (use f(4) in \<open>auto simp: waits_in_def\<close>)
    moreover have "ready c False None False" using f k tiers_of_shape(1) [of cfg c] by (auto simp: ready_def)
    ultimately show ?thesis using False f(1,5) r by (intro taken [OF refl ok']) auto
  qed
qed

lemma arrive_ok:
  assumes "flow_ok cfg st"
  shows "flow_ok cfg (arrive i meth chat msg tagged st)"
  by (rule arrive_cases [OF assms, of i meth chat msg tagged]) (use assms in \<open>auto intro!: run_tier_ok\<close>)

lemma noteFlood_flow: "same_flow st (noteFlood r st)"
proof -
  let ?a = "count_fuse (\<lambda>k. k\<lparr>k_floodObserved := Suc (k_floodObserved k)\<rparr>) st"
  have "same_flow st ?a" by (simp add: same_flow_def count_fuse_def)
  also have "same_flow ?a (snd (levelAt ?a))" using levelAt_flow [of ?a "fst (levelAt ?a)" "snd (levelAt ?a)"] by simp
  finally show ?thesis by (simp add: noteFlood_def Let_def same_flow_def)
qed

lemma answer_ok:
  assumes ok: "flow_ok cfg st"
  shows "flow_ok cfg (answer_fcall i flood st)"
proof (cases "find_fcall i st")
  case (Some c)
  then have c: "c \<in> set (f_calls st)" "f_id c = i" using find_fcall_SomeD by auto
  show ?thesis
  proof (cases "f_status c = OnTheWire")
    case True
    have n: "no_waiter (f_id c) st" using not_waiting [OF ok c(1)] True by (simp add: waits_in_def)
    have "f_tiers c = []" using flow_okD(3) [OF ok c(1)] True by (simp add: call_ok_def)
    then have "flow_ok cfg (end_fcall c st)"
      by (intro flow_remove [OF ok c(1)]) (use n flow_okD(6) [OF ok] in \<open>auto simp: end_fcall_def in_flight_def no_waiter_def\<close>)
    then show ?thesis using True Some flow_same [OF noteFlood_flow] by (simp add: answer_fcall_def split: option.split)
  qed (use Some ok in \<open>simp add: answer_fcall_def\<close>)
qed (use ok in \<open>simp add: answer_fcall_def\<close>)

lemma call_ok_later: "call_ok cfg now c \<Longrightarrow> now \<le> now' \<Longrightarrow> call_ok cfg now' c"
  unfolding call_ok_def by auto

lemma flow_step: "flow_ok cfg st \<Longrightarrow> flow_ok cfg (fuse_step e st)"
proof (cases e)
  case (FTick ms)
  then show "flow_ok cfg st \<Longrightarrow> ?thesis" by (auto simp: flow_ok_def list_all_iff intro: call_ok_later)
next
  case (Marker u)
  then show "flow_ok cfg st \<Longrightarrow> ?thesis" by (simp add: flow_ok_def)
qed (simp_all add: arrive_ok resume_ok answer_ok)

interpretation fuse_calls: event_system fuse_step "flow_ok cfg" for cfg
  by unfold_locales (rule flow_step)

lemma flow_created: "flow_ok (clamp_config c) (createEditFloodFuse c now marker)"
  by (simp add: flow_ok_def createEditFloodFuse_def)

lemmas flow_run = fuse_calls.invar_run [OF flow_created]

end
