(* ===== verification/Edit_Fuse_Pool.thy ===== *)
theory Edit_Fuse_Pool
  imports Edit_Fuse_Safety "HOL-Library.Multiset"
begin

text \<open>
  The pool of cosmetic edits of a chat: what its two lanes hold in a window, the slots the calls let through hold in it, and the
  bound on the cosmetic edits of a chat that follows.
\<close>

section \<open>Slots are kept\<close>

abbreviation slots_at :: "fuse \<Rightarrow> fuse_key \<Rightarrow> int list" where
  "slots_at st k \<equiv> w_ts (f_windows st k)"

text \<open>A window keeps its slots while they count, and gains at least those a turn takes.\<close>

definition keeps :: "fuse \<Rightarrow> fuse \<Rightarrow> (fuse_key \<times> int) list \<Rightarrow> bool" where
  "keeps st st' slots \<longleftrightarrow> f_now st' = f_now st \<and> fz st' = fz st \<and>
     (\<forall>k t. f_now st - window_ms (fz st) k < t \<longrightarrow> count_list (slots_at st k) t + count_list slots (k, t) \<le> count_list (slots_at st' k) t)"

lemma keeps_trans: "keeps a b s1 \<Longrightarrow> keeps b c s2 \<Longrightarrow> keeps a c (s1 @ s2)"
  unfolding keeps_def by (clarsimp simp: add.assoc [symmetric]) (meson add_right_mono order_trans)

lemma keeps_trans0: "keeps a b [] \<Longrightarrow> keeps b c s \<Longrightarrow> keeps a c s"
  using keeps_trans [of a b "[]"] by simp

lemma keeps_refl [simp]: "keeps st st []"
  by (simp add: keeps_def)

lemma keeps_weaken: "keeps a b s \<Longrightarrow> keeps a b []"
  unfolding keeps_def by (auto intro: order_trans [OF le_add1])

lemma count_dropWhile:
  fixes x :: int
  shows "lo < x \<Longrightarrow> count_list (dropWhile (\<lambda>y. y \<le> lo) ys) x = count_list ys x"
  by (induction ys) auto

lemma keeps_prune [simp]: "keeps st (prune_key k st) []"
  by (auto simp: keeps_def prune_key_def upd_window_def prune_def count_dropWhile)

lemma keeps_push: "keeps st (push_slot k st) [(k, f_now st)]"
  by (auto simp: keeps_def push_slot_def upd_window_def)

lemma keeps_level: "levelAt st = (n, st') \<Longrightarrow> keeps st st' []"
  using levelAt_flow [of st n st'] by (simp add: keeps_def same_flow_def)

lemma keeps_fold_push: "keeps st (fold push_slot ks st) (map (\<lambda>k. (k, f_now st)) ks)"
proof (induction ks arbitrary: st)
  case (Cons k ks)
  have "f_now (push_slot k st) = f_now st" by (simp add: push_slot_def upd_window_def)
  then show ?case using keeps_trans [OF keeps_push Cons.IH [of "push_slot k st"]] by simp
qed simp

definition taken :: "turn \<Rightarrow> (fuse_key \<times> int) list" where
  "taken r = (case r of Took slots \<Rightarrow> slots | _ \<Rightarrow> [])"

lemma keeps_push_slots: "push_slots ks st = (r, st') \<Longrightarrow> keeps st st' (taken r)"
  using keeps_fold_push [of st ks] by (auto simp: push_slots_def taken_def)

lemma keeps_fold_prune: "keeps st (fold prune_key ks st) []"
proof (induction ks arbitrary: st)
  case (Cons k ks)
  show ?case using keeps_trans0 [OF keeps_prune Cons.IH] by simp
qed simp

lemma keeps_drop [simp]: "keeps st (count_drop st) []"
  by (simp add: keeps_def count_drop_def count_fuse_def)

lemma keeps_charge: "charge_late c st = (ok, st') \<Longrightarrow> keeps st st' []"
  by (auto simp: charge_late_def Let_def split: prod.splits if_splits dest!: keeps_level
      intro: keeps_trans0 [OF keeps_prune] keeps_trans0 [OF keeps_trans0 [OF keeps_prune] keeps_weaken [OF keeps_push]])

lemma keeps_late: "late_release c ks st = (r, st') \<Longrightarrow> keeps st st' (taken r)"
  by (auto simp: late_release_def split: prod.splits if_splits dest!: keeps_charge dest: keeps_push_slots intro: keeps_trans0)
    (auto simp: taken_def intro: keeps_trans0)

lemma keeps_room_view: "room_view c k cp st = (mx, st') \<Longrightarrow> keeps st st' []"
  by (auto simp: room_view_def split: prod.splits dest!: keeps_level intro: keeps_trans0)

lemma keeps_fair_view: "fair_view c st = (mx, st') \<Longrightarrow> keeps st st' []"
  using keeps_fold_prune [of st "floor_keys c"]
  by (auto simp: fair_view_def Let_def split: if_splits prod.splits dest!: keeps_level intro: keeps_trans0 keeps_trans0 [OF keeps_trans0])

lemma keeps_turn:
  assumes "tier_turn c t st = (r, st')"
  shows "keeps st st' (taken r)"
proof (cases t)
  case (Room k cp m d)
  obtain mx st1 where v: "room_view c k cp st = (mx, st1)" by (cases "room_view c k cp st")
  have "keeps st1 st' (taken r)"
    using assms keeps_drop [of st1] by (auto simp: Room room_turn_def v taken_def split: if_splits dest: keeps_push_slots keeps_late)
  then show ?thesis using keeps_room_view [OF v] keeps_trans0 by blast
next
  case (FairShare d)
  obtain mx st1 where v: "fair_view c st = (mx, st1)" by (cases "fair_view c st")
  have "keeps st1 st' (taken r)"
    using assms keeps_drop [of st1] by (auto simp: FairShare fair_turn_def Let_def v taken_def split: if_splits dest: keeps_push_slots keeps_late)
  then show ?thesis using keeps_fair_view [OF v] keeps_trans0 by blast
qed

section \<open>The slots the calls hold are in the windows\<close>

definition slot_count :: "fuse_key \<Rightarrow> int \<Rightarrow> fuse_call \<Rightarrow> nat" where
  "slot_count k t c = (if f_status c = OnTheWire then 0 else count_list (f_slots c) (k, t))"

definition held :: "fuse_key \<Rightarrow> int \<Rightarrow> fuse \<Rightarrow> nat" where
  "held k t st = sum_list (map (\<lambda>c. count_list (f_slots c) (k, t)) (f_passed st)) + sum_list (map (slot_count k t) (f_calls st))"

definition no_late :: "fuse_call \<Rightarrow> bool" where
  "no_late c \<longleftrightarrow> list_all (\<lambda>s. \<forall>ch. fst s \<noteq> KLate ch) (f_slots c)"

definition held_ok :: "fuse \<Rightarrow> bool" where
  "held_ok st \<longleftrightarrow> (\<forall>k t. f_now st - window_ms (fz st) k < t \<longrightarrow> held k t st \<le> count_list (slots_at st k) t) \<and> list_all no_late (f_calls st)"

lemma held_keeps:
  assumes "held_ok st" "keeps st st' []" "f_passed st' = f_passed st" "\<And>k t. map (slot_count k t) (f_calls st') = map (slot_count k t) (f_calls st)"
    "list_all no_late (f_calls st')"
  shows "held_ok st'"
  using assms unfolding held_ok_def held_def keeps_def by (fastforce intro: order_trans)

lemma entered_keeps: "keeps st (entered c st) []"
  by (simp add: keeps_def)

lemma tier_not_late: "t \<in> set (tiers_of cfg c) \<Longrightarrow> ks \<in> turn_keys c t \<Longrightarrow> KLate ch \<notin> set ks"
  by (auto simp: tiers_of_def edit_tiers_def turn_keys_def floor_keys_def Let_def split: if_splits)

lemma held_took:
  assumes ok: "flow_ok cfg st" "held_ok st" and c: "c \<in> set (f_calls st)" "ready c counted s f" and t: "f_tiers c = t # ts"
    and turn: "tier_turn c t (entered c st) = (Took slots, st1)"
    and c': "c' = c\<lparr>f_tiers := ts, f_slots := f_slots c @ slots, f_status := if ts = [] then OnTheWire else Entering\<rparr>"
  shows "held_ok (if ts = [] then (set_fcall c' st1)\<lparr>f_passed := f_passed st1 @ [c']\<rparr> else set_fcall c' st1)" (is "held_ok ?st")
proof -
  note e = entered_turn [OF turn]
  have k: "keeps st st1 slots" using keeps_trans0 [OF entered_keeps keeps_turn [OF turn]] by (simp add: taken_def)
  have live: "f_status c \<noteq> OnTheWire" using c(2) by (auto simp: ready_def)
  have y: "f_id c' = f_id c" "slot_count k x c' = (if ts = [] then 0 else slot_count k x c + count_list slots (k, x))"
    "count_list (f_slots c') (k, x) = slot_count k x c + count_list slots (k, x)" for k x
    using live by (simp_all add: c' slot_count_def)
  have h: "held k x ?st = held k x st + count_list slots (k, x)" for k x
    using sum_replace [OF flow_okD(2) [OF ok(1)] c(1) y(1) [symmetric], of "slot_count k x"] y(2,3) [of k x] e(1,5)
    by (cases "ts = []") (simp_all add: held_def)
  have l: "no_late c" using ok(2) c(1) by (simp add: held_ok_def list_all_iff)
  have "t \<in> set (tiers_of cfg c)" using tiers_step(1) [OF flow_okD(3) [OF ok(1) c(1)] t] .
  then have "no_late c'" using turn_took [OF turn] l by (auto simp: c' no_late_def list_all_iff dest: tier_not_late)
  then have "list_all no_late (f_calls ?st)" using ok(2) e(1) by (auto simp: held_ok_def list_all_iff set_fcall_def)
  moreover have "held k x ?st \<le> count_list (slots_at ?st k) x" if "f_now ?st - window_ms (fz ?st) k < x" for k x
  proof -
    have "held k x st + count_list slots (k, x) \<le> count_list (slots_at st k) x + count_list slots (k, x)"
      using ok(2) that e(2,3) by (auto simp: held_ok_def set_fcall_def split: if_splits)
    also have "\<dots> \<le> count_list (slots_at st1 k) x" using k that e(2,3) by (auto simp: keeps_def set_fcall_def split: if_splits)
    finally show ?thesis unfolding h by (simp add: set_fcall_def)
  qed
  ultimately show ?thesis by (simp add: held_ok_def)
qed

lemma count_remove_last: "count_list (remove_last x xs) y = count_list xs y - of_bool (x = y)"
proof -
  have r: "count_list (rev zs) y = count_list zs y" for zs :: "int list" by (induction zs) auto
  have m: "count_list (remove1 x zs) y = count_list zs y - of_bool (x = y)" for zs
    by (induction zs) (auto simp: count_list_0_iff)
  show ?thesis by (simp add: r m)
qed

lemma count_unreserved:
  "count_list (slots_at (fold unreserve ss st) k) x = count_list (slots_at st k) x - count_list ss (k, x)"
proof (induction ss arbitrary: st)
  case (Cons s ss)
  then show ?case by (auto simp: unreserve_def upd_window_def count_remove_last)
qed simp

lemma held_dropped:
  assumes ok: "flow_ok cfg st" "held_ok st" and c: "c \<in> set (f_calls st)" "f_status c \<noteq> OnTheWire"
  shows "held_ok (drop_fcall c r st)"
proof -
  let ?st = "fold unreserve (f_slots c) (end_fcall c st)"
  have s: "same_flow (end_fcall c st) ?st" by (rule same_flow_fold) simp
  note sd = same_flowD [OF s]
  have f: "f_calls (drop_fcall c r st) = filter (\<lambda>z. f_id z \<noteq> f_id c) (f_calls st)" "f_passed (drop_fcall c r st) = f_passed st"
    "f_now (drop_fcall c r st) = f_now st" "fz (drop_fcall c r st) = fz st"
    "count_list (slots_at (drop_fcall c r st) k) x = count_list (slots_at st k) x - count_list (f_slots c) (k, x)" for k x
    using sd by (simp_all add: drop_fcall_def count_unreserved end_fcall_def)
  have h: "held k x (drop_fcall c r st) + count_list (f_slots c) (k, x) = held k x st" for k x
    using sum_remove [OF flow_okD(2) [OF ok(1)] c(1), of "slot_count k x"] c(2) by (simp add: held_def f(1,2) slot_count_def)
  have "list_all no_late (f_calls (drop_fcall c r st))" using ok(2) by (auto simp: held_ok_def f(1) list_all_iff)
  moreover have "held k x (drop_fcall c r st) \<le> count_list (slots_at (drop_fcall c r st) k) x" if "f_now st - window_ms (fz st) k < x" for k x
    using ok(2) that h [of k x] unfolding f(5) held_ok_def by (metis diff_le_mono add_diff_cancel_right')
  ultimately show ?thesis by (simp add: held_ok_def f(3,4))
qed

lemma killed_counts:
  assumes "flow_ok cfg st"
  shows "map (slot_count k x) (f_calls (kill_waiter (KMsg ch m) st)) = map (slot_count k x) (f_calls st)"
proof (cases "w_waiter (f_windows st (KMsg ch m))")
  case (Some i)
  then obtain w where w: "w \<in> set (f_calls st)" "f_id w = i" "waits_in w (KMsg ch m)" using flow_okD(4) [OF assms] by blast
  have u: "z = w" if "z \<in> set (f_calls st)" "f_id z = i" for z using same_id [OF flow_okD(2) [OF assms] that(1) w(1)] that(2) w(2) by simp
  have "f_status w \<noteq> OnTheWire" using w(3) by (auto simp: waits_in_def)
  then show ?thesis using u by (auto simp: kill_waiter_def upd_window_def Some slot_count_def)
qed (simp add: kill_waiter_def upd_window_def)

lemma killed_no_late: "list_all no_late (f_calls (kill_waiter k st)) = list_all no_late (f_calls st)"
proof -
  have "no_late (if f_id z = i then z\<lparr>f_status := Killed\<rparr> else z) = no_late z" for z i by (simp add: no_late_def)
  then show ?thesis by (simp add: kill_waiter_def upd_window_def list.pred_map o_def split: option.split)
qed

lemma kill_other: "z \<in> set (f_calls (kill_waiter (KMsg ch m) st)) \<Longrightarrow> no_waiter (f_id z) st \<Longrightarrow> z \<in> set (f_calls st)"
  by (auto simp: kill_waiter_def upd_window_def no_waiter_def split: option.splits if_splits)

lemma set_fcall_counts:
  assumes "\<And>z. z \<in> set (f_calls st) \<Longrightarrow> f_id z = f_id y \<Longrightarrow> slot_count k x z = slot_count k x y"
  shows "map (slot_count k x) (f_calls (set_fcall y st)) = map (slot_count k x) (f_calls st)"
  using assms by auto

lemma nap_shape:
  "\<exists>y. nap_fcall c t counted s f w st = set_fcall y (if superseding t then take_waiter c (note_wait c counted s f st) else note_wait c counted s f st) \<and>
     f_id y = f_id c \<and> f_slots y = f_slots c \<and> f_status y \<noteq> OnTheWire"
  unfolding nap_fcall_def Let_def by (rule exI, rule conjI, rule refl, simp)

lemma held_nap:
  assumes ok: "flow_ok cfg st" "held_ok st" and c: "c \<in> set (f_calls st)" "ready c counted s f" "no_waiter (f_id c) st"
    and turn: "tier_turn c t (entered c st) = (Nap w, st1)"
  shows "held_ok (nap_fcall c t counted s f w st1)"
proof -
  note e = entered_turn [OF turn]
  have k: "keeps st st1 []" using keeps_trans0 [OF entered_keeps keeps_turn [OF turn]] by (simp add: taken_def)
  have live: "f_status c \<noteq> OnTheWire" using c(2) by (auto simp: ready_def)
  have u: "z = c" if "z \<in> set (f_calls st)" "f_id z = f_id c" for z using same_id [OF flow_okD(2) [OF ok(1)] that(1) c(1)] that(2) by simp
  obtain ch m where mk: "msg_key c = KMsg ch m" by (simp add: msg_key_def)
  define st2 where "st2 = (if superseding t then take_waiter c (note_wait c counted s f st1) else note_wait c counted s f st1)"
  have calls2: "f_calls st2 = (if superseding t then f_calls (kill_waiter (KMsg ch m) st) else f_calls st)"
    using e mk kill_waiter_calls [where st' = "note_wait c counted s f st1" and st = st and k = "KMsg ch m"] by (simp add: st2_def)
  obtain y where y: "f_id y = f_id c" "f_slots y = f_slots c" "f_status y \<noteq> OnTheWire" "nap_fcall c t counted s f w st1 = set_fcall y st2"
    using nap_shape [of c t counted s f w st1] unfolding st2_def by blast
  have "slot_count k x z = slot_count k x y" if "z \<in> set (f_calls st2)" "f_id z = f_id y" for z k x
    using that u kill_other [of z ch m st] c(3) y(1-3) live by (auto simp: calls2 slot_count_def split: if_splits)
  then have m: "map (slot_count k x) (f_calls (nap_fcall c t counted s f w st1)) = map (slot_count k x) (f_calls st)" for k x
    unfolding y(4) using killed_counts [OF ok(1)] by (subst set_fcall_counts) (auto simp: calls2)
  have "list_all no_late (f_calls st2)" using ok(2) killed_no_late by (simp add: calls2 held_ok_def)
  moreover have "no_late y" using ok(2) c(1) y(2) by (simp add: held_ok_def no_late_def list_all_iff)
  ultimately have l: "list_all no_late (f_calls (nap_fcall c t counted s f w st1))" unfolding y(4) by (auto simp: list_all_iff)
  have "keeps st1 (nap_fcall c t counted s f w st1) []" unfolding y(4) st2_def by (simp add: keeps_def)
  then show ?thesis using held_keeps [OF ok(2) keeps_trans0 [OF k]] m l e(5) y(4) by (simp add: st2_def)
qed

section \<open>The lanes of the pool\<close>

definition slots_after :: "int \<Rightarrow> fuse \<Rightarrow> fuse_key \<Rightarrow> int" where
  "slots_after lo st k = int (length (filter (\<lambda>x. lo < x) (slots_at st k)))"

text \<open>
  In every window that has not ended, a lane holds no more than its share, and the late releases beyond it; of these there is
  one at least while the ceilings are tightened.
\<close>

definition lane_ok :: "fuse_config \<Rightarrow> string \<Rightarrow> int \<Rightarrow> fuse \<Rightarrow> bool" where
  "lane_ok cfg ch lo st \<longleftrightarrow>
     slots_after lo st (KFloorAll ch) \<le> cosmeticFloorAggMax cfg + (if 0 < cosmeticRemainderMax cfg then 0 else slots_after lo st (KLate ch)) \<and>
     slots_after lo st (KRest ch) \<le> cosmeticRemainderMax cfg + (if 0 < cosmeticRemainderMax cfg then slots_after lo st (KLate ch) else 0) \<and>
     slots_after lo st (KLate ch) \<le> max 1 (lateReleaseMax cfg)"

definition lanes_ok :: "fuse_config \<Rightarrow> fuse \<Rightarrow> bool" where
  "lanes_ok cfg st \<longleftrightarrow> (\<forall>ch lo. f_now st - perChatWindowMs cfg \<le> lo \<longrightarrow> lane_ok cfg ch lo st)"

definition pool_config :: "fuse_config \<Rightarrow> bool" where
  "pool_config cfg \<longleftrightarrow> 0 \<le> cosmeticFloorAggMax cfg \<and> 0 \<le> lateReleaseMax cfg \<and> 0 \<le> tightenFactor cfg \<and> tightenFactor cfg \<le> 1"

lemma lanes_cong: "f_now st' = f_now st \<Longrightarrow> (\<And>k. slots_at st' k = slots_at st k) \<Longrightarrow> lanes_ok cfg st' = lanes_ok cfg st"
  by (simp add: lanes_ok_def lane_ok_def slots_after_def)

lemma filter_dropWhile: "c \<le> lo \<Longrightarrow> filter (\<lambda>x. lo < x) (dropWhile (\<lambda>y. y \<le> c) xs) = filter (\<lambda>x. (lo :: int) < x) xs"
  by (induction xs) auto

lemma slots_prune: "f_now st - window_ms (fz st) k \<le> lo \<Longrightarrow> slots_after lo (prune_key k st) k' = slots_after lo st k'"
  by (auto simp: slots_after_def prune_key_def upd_window_def prune_def filter_dropWhile)

lemma slots_push: "slots_after lo (push_slot k st) k' = slots_after lo st k' + of_bool (k' = k \<and> lo < f_now st)"
  by (auto simp: slots_after_def push_slot_def upd_window_def)

lemma slots_le: "slots_after lo st k \<le> int (length (slots_at st k))"
  by (simp add: slots_after_def)

lemma push_now [simp]: "f_now (push_slot k st) = f_now st" "fz (push_slot k st) = fz st" "f_now (prune_key k st) = f_now st" "fz (prune_key k st) = fz st"
  by (simp_all add: push_slot_def prune_key_def upd_window_def)

lemma window_lanes [simp]: "window_ms cfg (KFloorAll ch) = perChatWindowMs cfg" "window_ms cfg (KRest ch) = perChatWindowMs cfg"
  "window_ms cfg (KLate ch) = perChatWindowMs cfg"
  by (simp_all add: window_ms_def)

definition lane_key :: "fuse_key \<Rightarrow> bool" where
  "lane_key k \<longleftrightarrow> (\<exists>ch. k = KFloorAll ch \<or> k = KRest ch \<or> k = KLate ch)"

lemma lanes_prune:
  assumes "fz st = cfg" "lanes_ok cfg st"
  shows "lanes_ok cfg (prune_key k st)"
proof (cases "lane_key k")
  case True
  then show ?thesis using assms slots_prune [of st k] by (auto simp: lanes_ok_def lane_ok_def lane_key_def)
next
  case False
  then have "slots_at (prune_key k st) j = slots_at st j" if "lane_key j" for j using that by (auto simp: prune_key_def upd_window_def)
  then have "slots_after lo (prune_key k st) j = slots_after lo st j" if "lane_key j" for lo j using that by (simp add: slots_after_def)
  then have "lane_ok cfg ch lo (prune_key k st) = lane_ok cfg ch lo st" for ch lo by (simp add: lane_ok_def lane_key_def)
  then show ?thesis using assms by (simp add: lanes_ok_def)
qed

lemma lanes_push_other: "lanes_ok cfg st \<Longrightarrow> \<not> lane_key k \<Longrightarrow> lanes_ok cfg (push_slot k st)"
  by (auto simp: lanes_ok_def lane_ok_def slots_push lane_key_def)

lemma waitFor_0: "waitFor k mx st = 0 \<Longrightarrow> 0 < mx \<and> int (length (slots_at st k)) < mx" "0 \<le> waitFor k mx st"
  by (auto simp: waitFor_def Let_def split: if_splits)

lemma lanes_push:
  assumes ok: "lanes_ok cfg st"
    and room: "k = KFloorAll ch \<and> int (length (slots_at st k)) < cosmeticFloorAggMax cfg \<or>
      k = KRest ch \<and> int (length (slots_at st k)) < cosmeticRemainderMax cfg"
  shows "lanes_ok cfg (push_slot k st)"
  unfolding lanes_ok_def
proof (intro allI impI)
  fix ch' lo assume "f_now (push_slot k st) - perChatWindowMs cfg \<le> lo"
  then have "lane_ok cfg ch' lo st" using ok by (simp add: lanes_ok_def)
  moreover have "slots_after lo st k \<le> int (length (slots_at st k))" "0 \<le> slots_after lo st (KLate ch')" by (simp_all add: slots_after_def)
  ultimately show "lane_ok cfg ch' lo (push_slot k st)" using room by (auto simp: lane_ok_def slots_push)
qed

lemma lanes_push_late:
  assumes ok: "lanes_ok cfg st" and room: "int (length (slots_at st (KLate ch))) < max 1 (lateReleaseMax cfg)"
    and k: "k = KRest ch \<and> 0 < cosmeticRemainderMax cfg \<or> k = KFloorAll ch \<and> \<not> 0 < cosmeticRemainderMax cfg \<or> \<not> lane_key k"
  shows "lanes_ok cfg (push_slot k (push_slot (KLate ch) st))"
  unfolding lanes_ok_def
proof (intro allI impI)
  fix ch' lo assume "f_now (push_slot k (push_slot (KLate ch) st)) - perChatWindowMs cfg \<le> lo"
  then have "lane_ok cfg ch' lo st" using ok by (simp add: lanes_ok_def)
  moreover have "slots_after lo st (KLate ch) < max 1 (lateReleaseMax cfg)" using room slots_le [of lo st "KLate ch"] by simp
  ultimately show "lane_ok cfg ch' lo (push_slot k (push_slot (KLate ch) st))"
    using k by (auto simp: lane_ok_def slots_push lane_key_def)
qed

section \<open>A turn keeps the lanes\<close>

lemma ceiling_le: "pool_config cfg \<Longrightarrow> 0 \<le> base \<Longrightarrow> ceiling_at cfg n base \<le> max 1 base"
proof -
  assume p: "pool_config cfg" "0 \<le> base"
  have "tightenFactor cfg ^ n \<le> 1" using p(1) by (intro power_le_one) (auto simp: pool_config_def)
  then have "of_int base * tightenFactor cfg ^ n \<le> of_int base" using p(2) by (simp add: mult_left_le)
  then have "\<lfloor>of_int base * tightenFactor cfg ^ n\<rfloor> \<le> base" by (simp add: floor_le_iff)
  then show ?thesis by (auto simp: ceiling_at_def)
qed

definition same_slots :: "fuse \<Rightarrow> fuse \<Rightarrow> bool" where
  "same_slots st st' \<longleftrightarrow> f_now st' = f_now st \<and> fz st' = fz st \<and> (\<forall>k. slots_at st' k = slots_at st k)"

lemma level_slots: "levelAt st = (n, st') \<Longrightarrow> same_slots st st'"
  using levelAt_flow [of st n st'] by (simp add: same_slots_def same_flow_def)

lemma lanes_same: "same_slots st st' \<Longrightarrow> lanes_ok cfg st' = lanes_ok cfg st"
  by (rule lanes_cong) (simp_all add: same_slots_def)

lemma lanes_late:
  assumes p: "pool_config cfg" and st: "fz st = cfg" "lanes_ok cfg st"
    and ks: "ks = [k] \<and> (k = KRest (chat_of c) \<and> 0 < cosmeticRemainderMax cfg \<or> \<not> lane_key k) \<or>
      ks = floor_keys c \<and> \<not> 0 < cosmeticRemainderMax cfg"
    and late: "late_release c ks st = (r, st')"
  shows "lanes_ok cfg st'"
proof -
  let ?k = "KLate (chat_of c)" and ?a = "prune_key (KLate (chat_of c)) st"
  obtain n st1 where l: "levelAt ?a = (n, st1)" by (cases "levelAt ?a")
  have s: "same_slots ?a st1" "fz st1 = cfg" using level_slots [OF l] st(1) by (simp_all add: same_slots_def)
  have ok: "lanes_ok cfg st1" using lanes_prune [OF st] lanes_same [OF s(1)] by blast
  show ?thesis
  proof (cases "ceiling_at cfg n (lateReleaseMax cfg) \<le> int (length (slots_at st1 ?k))")
    case True
    then have "st' = count_drop st1" using late s(2) by (simp add: late_release_def charge_late_def Let_def l)
    then show ?thesis using ok lanes_cong [of st' st1] by (simp add: count_drop_def count_fuse_def)
  next
    case False
    then have room: "int (length (slots_at st1 ?k)) < max 1 (lateReleaseMax cfg)" using ceiling_le [OF p, of "lateReleaseMax cfg" n] p by (simp add: pool_config_def)
    have st': "st' = fold push_slot ks (push_slot ?k st1)"
      using late False s(2) by (auto simp: late_release_def charge_late_def Let_def l push_slots_def)
    have swap: "lanes_ok cfg (push_slot (KFloorAll ch) (push_slot (KFloor x y) (push_slot ?k st1))) =
        lanes_ok cfg (push_slot (KFloor x y) (push_slot (KFloorAll ch) (push_slot ?k st1)))" for ch x y
      by (rule lanes_cong) (simp_all add: push_slot_def upd_window_def)
    show ?thesis using ks lanes_push_late [OF ok room, of k] lanes_push_other [OF lanes_push_late [OF ok room, of "KFloorAll (chat_of c)"]] swap
      by (auto simp: st' floor_keys_def lane_key_def)
  qed
qed

lemma lanes_fair_view:
  assumes p: "pool_config cfg" and st: "fz st = cfg" "lanes_ok cfg st" and v: "fair_view c st = (cap, st')"
  shows "fz st' = cfg" "lanes_ok cfg st'" "0 < cap \<Longrightarrow> 0 < cosmeticRemainderMax cfg \<and> cap \<le> cosmeticRemainderMax cfg"
proof -
  let ?a = "fold prune_key (floor_keys c) st"
  have a: "fz ?a = cfg" "lanes_ok cfg ?a" using st by (simp_all add: floor_keys_def lanes_prune)
  obtain n st1 where l: "levelAt ?a = (n, st1)" by (cases "levelAt ?a")
  have s: "same_slots ?a st1" "fz st1 = cfg" using level_slots [OF l] a(1) by (simp_all add: same_slots_def)
  have ok: "lanes_ok cfg st1" using a(2) lanes_same [OF s(1)] by blast
  show "fz st' = cfg" "lanes_ok cfg st'" "0 < cap \<Longrightarrow> 0 < cosmeticRemainderMax cfg \<and> cap \<le> cosmeticRemainderMax cfg"
    using v a s(2) ok ceiling_le [OF p, of "cosmeticRemainderMax cfg" n]
    by (auto simp: fair_view_def Let_def l lanes_prune split: if_splits)
qed

lemma lanes_room_view:
  assumes st: "fz st = cfg" "lanes_ok cfg st" and v: "room_view c k cp st = (mx, st')"
  shows "fz st' = cfg" "lanes_ok cfg st'"
proof -
  obtain n st1 where l: "levelAt st = (n, st1)" by (cases "levelAt st")
  have s: "same_slots st st1" "fz st1 = cfg" using level_slots [OF l] st(1) by (simp_all add: same_slots_def)
  have ok: "lanes_ok cfg st1" using st(2) lanes_same [OF s(1)] by blast
  show "fz st' = cfg" "lanes_ok cfg st'" using v s(2) ok by (auto simp: room_view_def l lanes_prune)
qed

lemma lanes_count_drop [simp]: "lanes_ok cfg (count_drop st) = lanes_ok cfg st"
  by (rule lanes_cong) (simp_all add: count_drop_def count_fuse_def)

lemma lanes_turn:
  assumes p: "pool_config cfg" and st: "fz st = cfg" "lanes_ok cfg st" and t: "\<And>k cp m d. t = Room k cp m d \<Longrightarrow> \<not> lane_key k"
    and turn: "tier_turn c t st = (r, st')"
  shows "lanes_ok cfg st'"
proof (cases t)
  case (Room k cp m d)
  obtain mx st1 where v: "room_view c k cp st = (mx, st1)" by (cases "room_view c k cp st")
  note s = lanes_room_view [OF st v]
  show ?thesis
    using turn lanes_push_other [OF s(2) t [OF Room]] lanes_late [OF p s, of "[k]" k c r st'] t [OF Room] s(2)
    by (auto simp: Room room_turn_def v push_slots_def split: if_splits)
next
  case (FairShare d)
  obtain cap st1 where v: "fair_view c st = (cap, st1)" by (cases "fair_view c st")
  note s = lanes_fair_view [OF p st v]
  let ?rest = "KRest (chat_of c)"
  have floor: "lanes_ok cfg (fold push_slot (floor_keys c) st1)" if "floor_wait c st1 = 0"
  proof -
    have "waitFor (KFloorAll (chat_of c)) (cosmeticFloorAggMax cfg) st1 = 0"
      using that waitFor_0(2) [of "KFloorAll (chat_of c)" "cosmeticFloorAggMax cfg" st1] s(1) by (simp add: floor_wait_def)
    then have "int (length (slots_at st1 (KFloorAll (chat_of c)))) < cosmeticFloorAggMax cfg" using waitFor_0(1) by blast
    then show ?thesis
      using lanes_push [OF lanes_push_other [OF s(2), of "KFloor (chat_of c) (msg_of c)"], of "KFloorAll (chat_of c)" "chat_of c"]
      by (simp add: floor_keys_def lane_key_def) (simp add: push_slot_def upd_window_def)
  qed
  have rest: "lanes_ok cfg (push_slot ?rest st1)" if "0 < cap" "waitFor ?rest cap st1 = 0"
    using lanes_push [OF s(2), of ?rest "chat_of c"] waitFor_0(1) [OF that(2)] s(3) that(1) by simp
  show ?thesis
    using turn floor rest s(1,2) lanes_late [OF p s(1,2), of "[?rest]" ?rest c r st'] lanes_late [OF p s(1,2), of "floor_keys c" ?rest c r st']
    by (auto simp: FairShare fair_turn_def Let_def v push_slots_def split: if_splits)
qed

section \<open>Every event keeps slots and lanes\<close>

definition pool_ok :: "fuse_config \<Rightarrow> fuse \<Rightarrow> bool" where
  "pool_ok cfg st \<longleftrightarrow> flow_ok cfg st \<and> held_ok st \<and> lanes_ok cfg st"

lemma filter_remove_last: "length (filter P (remove_last x xs)) \<le> length (filter P xs)"
proof -
  have "length (filter P (remove1 x ys)) \<le> length (filter P ys)" for ys by (induction ys) auto
  from this [of "rev xs"] show ?thesis by (simp add: rev_filter [symmetric])
qed

lemma lanes_unreserve:
  assumes "lanes_ok cfg st" "\<And>ch. fst s \<noteq> KLate ch"
  shows "lanes_ok cfg (unreserve s st)"
  unfolding lanes_ok_def
proof (intro allI impI)
  fix ch lo assume "f_now (unreserve s st) - perChatWindowMs cfg \<le> lo"
  then have ok: "lane_ok cfg ch lo st" using assms(1) by (simp add: lanes_ok_def unreserve_def upd_window_def)
  have le: "slots_after lo (unreserve s st) k \<le> slots_after lo st k" for k
    using filter_remove_last by (simp add: slots_after_def unreserve_def upd_window_def)
  have late: "slots_after lo (unreserve s st) (KLate ch) = slots_after lo st (KLate ch)"
    using assms(2) [of ch] by (simp add: slots_after_def unreserve_def upd_window_def)
  show "lane_ok cfg ch lo (unreserve s st)"
    using ok late le [of "KFloorAll ch"] le [of "KRest ch"] by (cases "0 < cosmeticRemainderMax cfg") (simp_all add: lane_ok_def)
qed

lemma lanes_dropped:
  assumes "lanes_ok cfg st" "no_late c"
  shows "lanes_ok cfg (drop_fcall c r st)"
proof -
  have f: "lanes_ok cfg (fold unreserve ss st')" if "lanes_ok cfg st'" "list_all (\<lambda>s. \<forall>ch. fst s \<noteq> KLate ch) ss" for ss st'
    using that by (induction ss arbitrary: st') (auto intro: lanes_unreserve)
  have "lanes_ok cfg (end_fcall c st)" using assms(1) by (subst lanes_cong [of _ st]) (simp_all add: end_fcall_def)
  from f [OF this assms(2) [unfolded no_late_def]] show ?thesis
    by (subst lanes_cong [of _ "fold unreserve (f_slots c) (end_fcall c st)"]) (simp_all add: drop_fcall_def)
qed

lemma tier_not_lane: "Room k cp m d \<in> set (tiers_of cfg c) \<Longrightarrow> \<not> lane_key k"
  by (auto simp: tiers_of_def edit_tiers_def Let_def lane_key_def split: if_splits)

lemma lanes_nap: "lanes_ok cfg st \<Longrightarrow> lanes_ok cfg (nap_fcall c t counted s f w st)"
  using nap_shape [of c t counted s f w st]
  by (subst lanes_cong [of _ st]) (auto simp: nap_fcall_def Let_def)

lemma pool_run_tier:
  assumes p: "pool_config cfg" and ok: "pool_ok cfg st" and c: "c \<in> set (f_calls st)" "ready c counted s f" "no_waiter (f_id c) st"
  shows "pool_ok cfg (run_tier c counted s f st)"
proof -
  have o: "flow_ok cfg st" "held_ok st" "lanes_ok cfg st" using ok by (simp_all add: pool_ok_def)
  obtain t ts where t: "f_tiers c = t # ts" using c(2) by (cases "f_tiers c") (auto simp: ready_def)
  obtain r st1 where turn: "tier_turn c t (entered c st) = (r, st1)" by (cases "tier_turn c t (entered c st)")
  note e = entered_turn [OF turn]
  have tin: "t \<in> set (tiers_of cfg c)" using tiers_step(1) [OF flow_okD(3) [OF o(1) c(1)] t] .
  have l: "lanes_ok cfg st1"
  proof (rule lanes_turn [OF p _ _ _ turn])
    show "fz (entered c st) = cfg" using flow_okD(1) [OF o(1)] by simp
    show "lanes_ok cfg (entered c st)" using o(3) by (subst lanes_cong [of _ st]) simp_all
    show "t = Room k cp m d \<Longrightarrow> \<not> lane_key k" for k cp m d using tin tier_not_lane by blast
  qed
  have fl: "flow_ok cfg (run_tier c counted s f st)" using run_tier_ok [OF o(1) c] .
  show ?thesis
  proof (cases r)
    case (Took slots)
    let ?c = "c\<lparr>f_tiers := ts, f_slots := f_slots c @ slots, f_status := if ts = [] then OnTheWire else Entering\<rparr>"
    let ?st = "if ts = [] then (set_fcall ?c st1)\<lparr>f_passed := f_passed st1 @ [?c]\<rparr> else set_fcall ?c st1"
    have r: "run_tier c counted s f st = ?st" using turn t by (simp add: run_tier_entered Took Let_def)
    have "held_ok ?st" using held_took [OF o(1,2) c(1,2) t turn [unfolded Took] refl] .
    moreover have "lanes_ok cfg ?st" using l by (subst lanes_cong [of _ st1]) (simp_all add: set_fcall_def)
    ultimately show ?thesis using fl unfolding r pool_ok_def by blast
  next
    case (Nap w)
    then have "run_tier c counted s f st = nap_fcall c t counted s f w st1" using turn t by (simp add: run_tier_entered)
    then show ?thesis using fl held_nap [OF o(1,2) c turn [unfolded Nap]] lanes_nap [OF l] by (simp add: pool_ok_def)
  next
    case (Dropped q)
    then have "run_tier c counted s f st = drop_fcall c q st1" using turn t by (simp add: run_tier_entered)
    moreover have "held_ok (drop_fcall c q st1)"
    proof (rule held_dropped)
      have "ts \<noteq> []" using tier_drops [OF tin turn_dropped [OF turn [unfolded Dropped]]] tiers_step(3) [OF flow_okD(3) [OF o(1) c(1)] t] by blast
      then have "entered c st = st" using t by (simp add: entered_def)
      then show "flow_ok cfg st1" using tier_turn_flow [OF turn] flow_same o(1) by auto
      show "held_ok st1" using held_keeps [OF o(2) keeps_trans0 [OF entered_keeps keeps_weaken [OF keeps_turn [OF turn]]]] e(1,5) o(2) by (simp add: held_ok_def)
    qed (use c e(1) in \<open>auto simp: ready_def\<close>)
    moreover have "no_late c" using o(2) c(1) by (simp add: held_ok_def list_all_iff)
    ultimately show ?thesis using fl lanes_dropped [OF l] by (simp add: pool_ok_def)
  qed
qed

lemma pool_same: "same_flow st st' \<Longrightarrow> f_windows st' = f_windows st \<Longrightarrow> pool_ok cfg st \<Longrightarrow> pool_ok cfg st'"
  using flow_same [of st st' cfg] lanes_cong [of st' st cfg]
  by (simp add: pool_ok_def held_ok_def held_def same_flow_def)

lemma pool_clear_waiter: "pool_ok cfg st \<Longrightarrow> pool_ok cfg (upd_window k (\<lambda>w. w\<lparr>w_waiter := None\<rparr>) st)"
  using clear_waiter_ok [of cfg st k] lanes_cong [of "upd_window k (\<lambda>w. w\<lparr>w_waiter := None\<rparr>) st" st cfg]
  by (auto simp: pool_ok_def held_ok_def held_def upd_window_def)

lemma pool_resume:
  assumes p: "pool_config cfg" and ok: "pool_ok cfg st"
  shows "pool_ok cfg (resume_fcall i st)"
proof -
  have o: "flow_ok cfg st" using ok by (simp add: pool_ok_def)
  show ?thesis
  proof (rule resume_cases [OF o, of i])
    fix c counted s f st'
    assume r: "resume_fcall i st = run_tier c counted s f st'" "st' = st \<or> st' = upd_window (msg_key c) (\<lambda>w. w\<lparr>w_waiter := None\<rparr>) st"
      and c: "c \<in> set (f_calls st')" "ready c counted s f" "no_waiter (f_id c) st'"
    from r(2) have "pool_ok cfg st'" using ok pool_clear_waiter by auto
    from pool_run_tier [OF p this c] show ?thesis by (simp add: r(1))
  next
    fix c assume r: "resume_fcall i st = drop_fcall c Superseded (count_fuse (\<lambda>k. k\<lparr>k_superseded := Suc (k_superseded k)\<rparr>) st)"
      and c: "c \<in> set (f_calls st)" "f_status c = Killed" "no_waiter (f_id c) st"
    let ?st = "count_fuse (\<lambda>k. k\<lparr>k_superseded := Suc (k_superseded k)\<rparr>) st"
    have s: "pool_ok cfg ?st" by (rule pool_same [OF _ _ ok]) (simp_all add: same_flow_def count_fuse_def)
    have l: "no_late c" using ok c(1) by (simp add: pool_ok_def held_ok_def list_all_iff)
    have "c \<in> set (f_calls ?st)" using c(1) by (simp add: count_fuse_def)
    then show ?thesis
      using s superseded_ok [OF o c] held_dropped [of cfg ?st c] lanes_dropped [OF _ l, of cfg ?st] c(2) unfolding r pool_ok_def by simp
  qed (use ok in simp)
qed

lemma pool_arrive:
  assumes p: "pool_config cfg" and ok: "pool_ok cfg st"
  shows "pool_ok cfg (arrive i meth chat msg tagged st)"
proof -
  have o: "flow_ok cfg st" using ok by (simp add: pool_ok_def)
  show ?thesis
  proof (rule arrive_cases [OF o, of i meth chat msg tagged])
    fix c st' assume st': "st' = (note_arrival c st)\<lparr>f_calls := f_calls st @ [c]\<rparr>" "flow_ok cfg st'" "f_slots c = []"
      and r: "arrive i meth chat msg tagged st = st' \<or>
       arrive i meth chat msg tagged st = run_tier c False None False st' \<and> ready c False None False \<and> no_waiter (f_id c) st'"
    have "held_ok st'" using ok st'(3) by (simp add: pool_ok_def held_ok_def held_def st'(1) slot_count_def no_late_def)
    moreover have "lanes_ok cfg st'" using ok by (subst lanes_cong [of _ st]) (simp_all add: st'(1) pool_ok_def)
    ultimately have "pool_ok cfg st'" using st'(2) by (simp add: pool_ok_def)
    moreover have "c \<in> set (f_calls st')" by (simp add: st'(1))
    ultimately show ?thesis using r pool_run_tier [OF p] by auto
  qed (use ok in simp)
qed

lemma pool_answer:
  assumes ok: "pool_ok cfg st"
  shows "pool_ok cfg (answer_fcall i flood st)"
proof (cases "find_fcall i st")
  case (Some c)
  then have c: "c \<in> set (f_calls st)" "f_id c = i" using find_fcall_SomeD by auto
  have o: "flow_ok cfg st" "held_ok st" "lanes_ok cfg st" using ok by (simp_all add: pool_ok_def)
  show ?thesis
  proof (cases "f_status c = OnTheWire")
    case True
    have a: "answer_fcall i None st = end_fcall c st" using True Some by (simp add: answer_fcall_def)
    have "held k x (end_fcall c st) = held k x st" for k x
      using sum_remove [OF flow_okD(2) [OF o(1)] c(1), of "slot_count k x"] True by (simp add: held_def end_fcall_def slot_count_def)
    then have "held_ok (end_fcall c st)" using o(2) by (auto simp: held_ok_def end_fcall_def list_all_iff)
    moreover have "lanes_ok cfg (end_fcall c st)" using o(3) by (subst lanes_cong [of _ st]) (simp_all add: end_fcall_def)
    ultimately have e: "pool_ok cfg (end_fcall c st)" using answer_ok [OF o(1), of i None] by (simp add: a pool_ok_def)
    have w: "f_windows (noteFlood ra st') = f_windows st'" for ra st'
      using levelAt_flow [of "count_fuse (\<lambda>k. k\<lparr>k_floodObserved := Suc (k_floodObserved k)\<rparr>) st'"]
      by (simp add: noteFlood_def Let_def count_fuse_def) (metis prod.collapse)
    show ?thesis using True Some e pool_same [OF noteFlood_flow w] by (simp add: answer_fcall_def split: option.split)
  qed (use Some ok in \<open>simp add: answer_fcall_def\<close>)
qed (use ok in \<open>simp add: answer_fcall_def\<close>)

lemma pool_step:
  assumes p: "pool_config cfg" and ok: "pool_ok cfg st"
  shows "pool_ok cfg (fuse_step e st)"
proof (cases e)
  case (FTick ms)
  then show ?thesis
    using ok flow_step [of cfg st e] by (fastforce simp: pool_ok_def held_ok_def held_def lanes_ok_def lane_ok_def slots_after_def)
next
  case (Marker u)
  then show ?thesis
    using ok flow_step [of cfg st e] lanes_cong [of "st\<lparr>f_marker := u\<rparr>" st cfg] by (simp add: pool_ok_def held_ok_def held_def)
qed (use p ok in \<open>simp_all add: pool_arrive pool_resume pool_answer\<close>)

text \<open>The invariant of the pool, where the configuration is sound; elsewhere it says nothing.\<close>

interpretation fuse_pool: event_system fuse_step "\<lambda>st. pool_config cfg \<longrightarrow> pool_ok cfg st" for cfg
  by unfold_locales (simp add: pool_step)

lemma pool_created: "pool_config (clamp_config c) \<Longrightarrow> pool_ok (clamp_config c) (createEditFloodFuse c now marker)"
  using flow_created [of c now marker]
  by (simp add: pool_ok_def held_ok_def held_def lanes_ok_def lane_ok_def slots_after_def createEditFloodFuse_def pool_config_def cosmeticRemainderMax_def le_max_iff_disj)

section \<open>The cosmetic edits of a chat in one window\<close>

text \<open>The cosmetic edits of a chat let through whose slot in the pool was taken in the window that ends now.\<close>

definition recent_edits :: "string \<Rightarrow> fuse \<Rightarrow> fuse_call list" where
  "recent_edits ch st = filter (\<lambda>c. list_ex (\<lambda>s. in_lane ch s \<and> f_now st - perChatWindowMs (fz st) < snd s) (f_slots c)) (f_passed st)"

definition slot_times :: "fuse_key \<Rightarrow> fuse_call \<Rightarrow> int list" where
  "slot_times k c = map snd (filter (\<lambda>s. fst s = k) (f_slots c))"

lemma count_slot_times: "count_list (slot_times k c) x = count_list (f_slots c) (k, x)"
proof -
  have "count_list (map snd (filter (\<lambda>s. fst s = k) ss)) x = count_list ss (k, x)" for ss :: "(fuse_key \<times> int) list"
    by (induction ss) auto
  then show ?thesis by (simp add: slot_times_def)
qed

lemma count_concat: "count_list (concat (map g xs)) x = sum_list (map (\<lambda>c. count_list (g c) x) xs)"
  by (induction xs) simp_all

lemma length_filter_counts:
  assumes "\<And>x. P x \<Longrightarrow> count_list xs x \<le> count_list ys x"
  shows "length (filter P xs) \<le> length (filter P ys)"
proof -
  have "mset (filter P xs) \<subseteq># mset (filter P ys)"
    using assms by (intro mset_subset_eqI) (simp add: count_mset)
  then have "size (mset (filter P xs)) \<le> size (mset (filter P ys))" by (rule size_mset_mono)
  then show ?thesis unfolding size_mset .
qed

lemma recent_le:
  assumes ok: "held_ok st" and cfg: "fz st = cfg"
  defines "lo \<equiv> f_now st - perChatWindowMs cfg"
  shows "int (length (recent_edits ch st)) \<le> slots_after lo st (KFloorAll ch) + slots_after lo st (KRest ch)"
proof -
  let ?n = "\<lambda>k. length (filter (\<lambda>x. lo < x) (concat (map (slot_times k) (f_passed st))))"
  have k: "int (?n k) \<le> slots_after lo st k" if "window_ms cfg k = perChatWindowMs cfg" for k
  proof -
    have "count_list (concat (map (slot_times k) (f_passed st))) x \<le> count_list (slots_at st k) x" if "lo < x" for x
    proof -
      have "held k x st \<le> count_list (slots_at st k) x" using ok that \<open>window_ms cfg k = _\<close> cfg by (simp add: held_ok_def lo_def)
      from add_leD1 [OF this [unfolded held_def]] show ?thesis by (simp add: count_concat count_slot_times o_def)
    qed
    then have "?n k \<le> length (filter (\<lambda>x. lo < x) (slots_at st k))" by (rule length_filter_counts)
    then show ?thesis by (simp add: slots_after_def)
  qed
  have r: "length (filter (\<lambda>c. list_ex (\<lambda>s. in_lane ch s \<and> lo < snd s) (f_slots c)) cs) \<le>
    length (filter (\<lambda>x. lo < x) (concat (map (slot_times (KFloorAll ch)) cs))) + length (filter (\<lambda>x. lo < x) (concat (map (slot_times (KRest ch)) cs)))" for cs
  proof (induction cs)
    case (Cons c cs)
    have "1 \<le> length (filter (\<lambda>x. lo < x) (slot_times (KFloorAll ch) c)) + length (filter (\<lambda>x. lo < x) (slot_times (KRest ch) c))"
      if a: "list_ex (\<lambda>s. in_lane ch s \<and> lo < snd s) (f_slots c)"
    proof -
      obtain k x where s: "(k, x) \<in> set (f_slots c)" "k = KFloorAll ch \<or> k = KRest ch" "lo < x" using a by (auto simp: list_ex_iff in_lane_def)
      then have "x \<in> set (filter (\<lambda>x. lo < x) (slot_times k c))" by (force simp: slot_times_def)
      then have "0 < length (filter (\<lambda>x. lo < x) (slot_times k c))" by (metis length_pos_if_in_set)
      then show ?thesis using s(2) by (elim disjE) (simp_all del: length_greater_0_conv)
    qed
    then show ?case using Cons by auto
  qed simp
  have "length (recent_edits ch st) \<le> ?n (KFloorAll ch) + ?n (KRest ch)"
    using r [of "f_passed st"] by (simp add: recent_edits_def cfg lo_def)
  then show ?thesis using k [of "KFloorAll ch"] k [of "KRest ch"] by simp
qed

lemma pool_split: "cosmeticFloorAggMax cfg + cosmeticRemainderMax cfg = cosmeticPerChatMax cfg"
  by (simp add: cosmeticFloorAggMax_def cosmeticRemainderMax_def max_def min_def)

text \<open>
  Claim C34: the pool of a chat. In every interleaving, whatever the messages, the classes and the floods, the cosmetic edits of a chat
  that were let through on a slot of the window that ends now are at most as many as the pool has, and the late releases beyond it; and
  every cosmetic edit of the chat that was let through holds such a slot, so none reaches Telegram beside the pool.
\<close>

theorem cosmetic_edits_bounded:
  assumes "0 \<le> perMessageMax c" "0 \<le> cosmeticPerMessageMax c" "0 \<le> perChatEditMax c" "0 \<le> cosmeticPerChatMax c"
    "0 \<le> tightenFactor c" "tightenFactor c \<le> 1"
    and "st = run fuse_step (createEditFloodFuse c now marker) es"
  shows "int (length (recent_edits ch st)) \<le> min (perChatEditMax c) (cosmeticPerChatMax c) + max 1 (lateReleaseMax c) \<and>
    (cosmeticFairShareEnabled c \<longrightarrow> list_all (\<lambda>x. is_edit_call x \<and> f_class x = Cosmetic \<longrightarrow> list_ex (in_lane (chat_of x)) (f_slots x)) (f_passed st))"
proof -
  let ?g = "clamp_config c"
  have p: "pool_config ?g" using assms(1-6) by (simp add: pool_config_def cosmeticFloorAggMax_def clamp_config_def Let_def)
  have ok: "pool_ok ?g st" using fuse_pool.invar_run [of ?g "createEditFloodFuse c now marker" es] pool_created [OF p] p assms(7) by simp
  then have f: "flow_ok ?g st" "held_ok st" "lanes_ok ?g st" by (simp_all add: pool_ok_def)
  have z: "fz st = ?g" using flow_okD(1) [OF f(1)] .
  have l: "lane_ok ?g ch (f_now st - perChatWindowMs ?g) st" using f(3) by (simp add: lanes_ok_def)
  have late: "0 \<le> slots_after (f_now st - perChatWindowMs ?g) st (KLate ch)" "max 1 (lateReleaseMax ?g) = max 1 (lateReleaseMax c)"
    by (auto simp: slots_after_def clamp_config_def Let_def)
  have pool: "cosmeticFloorAggMax ?g + cosmeticRemainderMax ?g = min (perChatEditMax c) (cosmeticPerChatMax c)"
    using pool_split [of ?g] by (simp add: clamp_config_def Let_def)
  have "int (length (recent_edits ch st)) \<le> min (perChatEditMax c) (cosmeticPerChatMax c) + max 1 (lateReleaseMax c)"
    using recent_le [OF f(2) z, of ch] l late pool by (auto simp: lane_ok_def split: if_splits)
  moreover have "list_ex (in_lane (chat_of x)) (f_slots x)"
    if "cosmeticFairShareEnabled c" "x \<in> set (f_passed st)" "is_edit_call x" "f_class x = Cosmetic" for x
    using flow_okD(7) [OF f(1) that(2)] that by (auto simp: call_ok_def pooled_def clamp_config_def Let_def)
  ultimately show ?thesis by (auto simp: list_all_iff)
qed

end
