(* ===== verification/Edit_Fuse_Promises.thy ===== *)
theory Edit_Fuse_Promises
  imports Edit_Fuse_Pool
begin

text \<open>
  What the fuse promises its callers: which calls it drops and why, how long it holds one, the room it leaves for a reply under any
  tightening; and runs in which it does less than its documentation says.
\<close>

section \<open>Why a call is dropped\<close>

lemma newer_other:
  assumes ok: "flow_ok cfg st" and c: "c \<in> set (f_calls st)" "newer_in_flight c st"
  shows "\<exists>y \<in> set (f_calls st). f_id y \<noteq> f_id c \<and> in_flight y \<and> msg_key y = msg_key c"
proof (rule ccontr)
  assume n: "\<not> ?thesis"
  obtain ch m where k: "msg_key c = KMsg ch m" by (simp add: msg_key_def)
  let ?g = "\<lambda>y. of_bool (in_flight y \<and> msg_key y = KMsg ch m) :: nat"
  have "sum_list (map ?g (filter (\<lambda>z. f_id z \<noteq> f_id c) (f_calls st))) = 0" using n k by (auto simp: sum_list_eq_0_iff)
  moreover have "?g c \<le> 1" by simp
  ultimately have "sum_list (map ?g (f_calls st)) \<le> 1" using sum_remove [OF flow_okD(2) [OF ok] c(1), of ?g] by linarith
  then show False using c(2) flow_okD(5) [OF ok, of ch m] k by (simp add: newer_in_flight_def)
qed

lemma newer_entered:
  assumes "newer_in_flight c (entered c st)"
  shows "newer_in_flight c st"
  using assms by (auto simp: newer_in_flight_def entered_def leave_flight_def upd_window_def split: if_splits)

lemma run_tier_drops:
  assumes ok: "flow_ok cfg st" and c: "c \<in> set (f_calls st)" "ready c counted s f"
  shows "f_drops (run_tier c counted s f st) = f_drops st \<or>
    (\<exists>r. f_drops (run_tier c counted s f st) = f_drops st @ [(c, r)] \<and> (r = NewerInFlight \<longrightarrow> newer_in_flight c st))"
proof -
  obtain t ts where t: "f_tiers c = t # ts" using c(2) by (cases "f_tiers c") (auto simp: ready_def)
  obtain r st1 where turn: "tier_turn c t (entered c st) = (r, st1)" by (cases "tier_turn c t (entered c st)")
  note e = entered_turn [OF turn]
  have tin: "t \<in> set (tiers_of cfg c)" using tiers_step(1) [OF flow_okD(3) [OF ok c(1)] t] .
  show ?thesis
  proof (cases r)
    case (Took slots)
    then show ?thesis using turn t e(4) by (simp add: run_tier_entered Let_def)
  next
    case (Nap w)
    then show ?thesis using turn t e(4) nap_shape [of c t counted s f w st1] by (auto simp: run_tier_entered)
  next
    case (Dropped q)
    have "f_drops (fold unreserve (f_slots c) (end_fcall c st1)) = f_drops (end_fcall c st1)"
      by (rule same_flowD(4)) (rule same_flow_fold, simp)
    then have "f_drops (drop_fcall c q st1) = f_drops st @ [(c, q)]" using e(4) by (simp add: drop_fcall_def end_fcall_def)
    moreover have "q = NewerInFlight \<longrightarrow> newer_in_flight c st"
      using turn_dropped [OF turn [unfolded Dropped]] newer_entered by (auto simp: may_drop_def)
    ultimately show ?thesis using turn t by (simp add: run_tier_entered Dropped)
  qed
qed

lemma noteFlood_drops [simp]: "f_drops (noteFlood ra st) = f_drops st"
  using same_flowD(4) [OF noteFlood_flow] .

lemma step_drops:
  assumes ok: "flow_ok cfg st" and d: "f_drops (fuse_step e st) = f_drops st @ [(x, NewerInFlight)]"
  shows "\<exists>y \<in> set (f_calls st). f_id y \<noteq> f_id x \<and> in_flight y \<and> msg_key y = msg_key x"
proof (cases e)
  case (Arrive i meth chat msg tagged)
  show ?thesis
  proof (rule arrive_cases [OF ok, of i meth chat msg tagged])
    fix c st' assume c: "st' = (note_arrival c st)\<lparr>f_calls := f_calls st @ [c]\<rparr>" "flow_ok cfg st'"
      "arrive i meth chat msg tagged st = st' \<or>
       arrive i meth chat msg tagged st = run_tier c False None False st' \<and> ready c False None False \<and> no_waiter (f_id c) st'"
    have "f_drops st' = f_drops st" "c \<in> set (f_calls st')" by (simp_all add: c(1))
    then have "x = c \<and> newer_in_flight c st'" using d c(3) run_tier_drops [OF c(2), of c False None False] by (auto simp: Arrive)
    then show ?thesis using newer_other [OF c(2)] c(1) by auto
  qed (use d in \<open>simp add: Arrive\<close>)
next
  case (FResume i)
  show ?thesis
  proof (rule resume_cases [OF ok, of i])
    fix c counted s f st'
    assume r: "resume_fcall i st = run_tier c counted s f st'" "st' = st \<or> st' = upd_window (msg_key c) (\<lambda>w. w\<lparr>w_waiter := None\<rparr>) st"
      and c: "c \<in> set (f_calls st')" "ready c counted s f"
    have ok': "flow_ok cfg st'" using r(2) ok clear_waiter_ok by auto
    have f: "f_drops st' = f_drops st" "f_calls st' = f_calls st" using r(2) by (auto simp: upd_window_def)
    then have "x = c \<and> newer_in_flight c st'" using d run_tier_drops [OF ok' c] by (auto simp: FResume r(1))
    then show ?thesis using newer_other [OF ok' c(1)] f(2) by auto
  next
    fix c assume r: "resume_fcall i st = drop_fcall c Superseded (count_fuse (\<lambda>k. k\<lparr>k_superseded := Suc (k_superseded k)\<rparr>) st)"
    have "f_drops (fold unreserve (f_slots c) st') = f_drops st'" for st' by (rule same_flowD(4)) (rule same_flow_fold, simp)
    then show ?thesis using d by (simp add: FResume r drop_fcall_def end_fcall_def count_fuse_def)
  qed (use d in \<open>simp add: FResume\<close>)
qed (use d in \<open>auto simp: answer_fcall_def end_fcall_def split: option.splits if_splits\<close>)

text \<open>
  Claim C32: nothing that matters is dropped. In every interleaving the fuse drops only edits of a message and chat actions: never a
  reply, a reaction, a deletion or a call without a chat. A chat action is dropped because it expires; an edit because a newer frame of
  its message superseded it while it waited, or because another frame of its message is still on its way to the screen when its time is
  up, and that frame exists at that moment; only a cosmetic edit is also dropped because the budget of late releases is spent.
\<close>

theorem drops_are_harmless:
  assumes "st = run fuse_step (createEditFloodFuse c now marker) es"
  shows "list_all drop_ok (f_drops st) \<and>
    (\<forall>e x. f_drops (fuse_step e st) = f_drops st @ [(x, NewerInFlight)] \<longrightarrow>
      (\<exists>y \<in> set (f_calls st). f_id y \<noteq> f_id x \<and> in_flight y \<and> msg_key y = msg_key x))"
proof -
  have ok: "flow_ok (clamp_config c) st" unfolding assms by (rule flow_run)
  show ?thesis using flow_okD(6) [OF ok] step_drops [OF ok] by blast
qed

section \<open>How long a call is held\<close>

lemma late_resume:
  assumes ok: "flow_ok cfg st" and c: "c \<in> set (f_calls st)" and late: "f_at c + maxDeferMs cfg \<le> f_now st"
    and y: "y \<in> set (f_calls (resume_fcall (f_id c) st))" "f_id y = f_id c"
  shows "f_status y = OnTheWire \<or> f_status y = Entering \<and> length (f_tiers y) < length (f_tiers c) \<and> f_at y = f_at c"
proof -
  have u: "z = c" if "z \<in> set (f_calls st)" "f_id z = f_id c" for z using same_id [OF flow_okD(2) [OF ok] that(1) c] that(2) by simp
  show ?thesis
  proof (rule resume_cases [OF ok, of "f_id c"])
    assume i: "resume_fcall (f_id c) st = st" "\<And>d. d \<in> set (f_calls st) \<Longrightarrow> f_id d = f_id c \<Longrightarrow> f_status d = OnTheWire \<or> (\<exists>w b s f. f_status d = Asleep w b s f \<and> f_now st < w)"
    have "\<not> f_now st < w" if "f_status c = Asleep w b s f" for w b s f
      using flow_okD(3) [OF ok c] that late by (auto simp: call_ok_def)
    moreover have "y = c" using u y i(1) by simp
    ultimately show ?thesis using i(2) [OF c refl] by auto
  next
    fix d counted s f st'
    assume r: "resume_fcall (f_id c) st = run_tier d counted s f st'" "st' = st \<or> st' = upd_window (msg_key d) (\<lambda>w. w\<lparr>w_waiter := None\<rparr>) st"
      and d: "f_id d = f_id c" "d \<in> set (f_calls st')" "ready d counted s f" "no_waiter (f_id d) st'"
    have ok': "flow_ok cfg st'" using r(2) ok clear_waiter_ok by auto
    have f: "f_calls st' = f_calls st" "f_now st' = f_now st" using r(2) by (auto simp: upd_window_def)
    then have dc: "d = c" using u d(1,2) by simp
    obtain t ts where t: "f_tiers c = t # ts" using d(3) dc by (cases "f_tiers c") (auto simp: ready_def)
    obtain q st1 where turn: "tier_turn c t (entered c st') = (q, st1)" by (cases "tier_turn c t (entered c st')")
    note e = entered_turn [OF turn]
    have "t_deadline t \<le> f_now st'" using tier_deadline [OF tiers_step(1) [OF flow_okD(3) [OF ok c] t]] late f(2) by simp
    then have nap: "q \<noteq> Nap w" for w using turn_nap [of c t "entered c st'" w st1] turn by auto
    show ?thesis
    proof (cases q)
      case (Took slots)
      then show ?thesis using y turn t u e(1) f(1) unfolding r(1) dc by (auto simp: run_tier_entered Let_def split: if_splits)
    next
      case (Dropped w)
      have "f_calls (fold unreserve ss x) = f_calls x" for ss x by (rule same_flowD(1)) (rule same_flow_fold, simp)
      then show ?thesis using Dropped y turn t unfolding r(1) dc by (auto simp: run_tier_entered drop_fcall_def end_fcall_def)
    qed (use nap in simp)
  next
    fix d assume r: "resume_fcall (f_id c) st = drop_fcall d Superseded (count_fuse (\<lambda>k. k\<lparr>k_superseded := Suc (k_superseded k)\<rparr>) st)" "f_id d = f_id c"
    have "f_calls (fold unreserve ss x) = f_calls x" for ss x by (rule same_flowD(1)) (rule same_flow_fold, simp)
    then show ?thesis using y unfolding r(1) by (auto simp: drop_fcall_def end_fcall_def count_fuse_def r(2))
  qed
qed

lemma run_tier_now: "f_now (run_tier c counted s f st) = f_now st"
proof (cases "f_tiers c")
  case (Cons t ts)
  obtain r st1 where turn: "tier_turn c t (entered c st) = (r, st1)" by (cases "tier_turn c t (entered c st)")
  note e = entered_turn [OF turn]
  have "f_now (fold unreserve ss x) = f_now x" for ss x by (rule same_flowD(3)) (rule same_flow_fold, simp)
  then show ?thesis
    using Cons turn e(3) nap_shape [of c t counted s f _ st1] by (cases r) (auto simp: run_tier_entered Let_def drop_fcall_def end_fcall_def nap_fcall_def)
qed (simp add: run_tier_entered)

lemma resume_now: "f_now (resume_fcall i st) = f_now st"
proof -
  have "f_now (fold unreserve ss x) = f_now x" for ss x by (rule same_flowD(3)) (rule same_flow_fold, simp)
  then show ?thesis
    by (simp add: resume_fcall_def run_tier_now drop_fcall_def end_fcall_def count_fuse_def upd_window_def split: option.split fuse_status.split)
qed

lemma late_resumes:
  assumes "flow_ok cfg st" "\<And>y. y \<in> set (f_calls st) \<Longrightarrow> f_id y = i \<Longrightarrow> f_status y = OnTheWire \<or> f_at y + maxDeferMs cfg \<le> f_now st \<and> length (f_tiers y) \<le> n"
    and "y \<in> set (f_calls (run fuse_step st (replicate n (FResume i))))" "f_id y = i"
  shows "f_status y = OnTheWire"
  using assms
proof (induction n arbitrary: st)
  case 0
  then show ?case using flow_okD(3) [OF 0(1)] by (auto simp: call_ok_def)
next
  case (Suc n)
  let ?st = "fuse_step (FResume i) st"
  have ok: "flow_ok cfg ?st" using flow_step [OF Suc.prems(1)] .
  have "f_status z = OnTheWire \<or> f_at z + maxDeferMs cfg \<le> f_now ?st \<and> length (f_tiers z) \<le> n"
    if z: "z \<in> set (f_calls ?st)" "f_id z = i" for z
  proof (cases "find_fcall i st")
    case None
    then have "\<forall>c \<in> set (f_calls st). f_id c \<noteq> i" by (auto simp: find_fcall_def find_None_iff)
    then show ?thesis using z None by (simp add: resume_fcall_def)
  next
    case (Some c)
    then have c: "c \<in> set (f_calls st)" "f_id c = i" using find_fcall_SomeD by auto
    show ?thesis
    proof (cases "f_status c = OnTheWire")
      case True
      then have "?st = st" using Some by (simp add: resume_fcall_def)
      then show ?thesis using True z c same_id [OF flow_okD(2) [OF Suc.prems(1)]] by metis
    next
      case False
      then show ?thesis
        using Suc.prems(2) [OF c] late_resume [OF Suc.prems(1) c(1), of z] z c(2) by (auto simp: resume_now)
    qed
  qed
  then show ?case using Suc.IH [OF ok _ _ Suc.prems(4)] Suc.prems(3) by simp
qed

lemma at_most_four: "length (tiers_of cfg c) \<le> 4"
  by (simp add: tiers_of_def edit_tiers_def Let_def)

text \<open>
  Claim C33: no call is held beyond its deadline. In every interleaving a sleeping call has its alarm set for at most the hold of the
  configuration after its arrival, whatever tiers it crosses and however the clock has moved; and once that time has passed, four resumptions
  take any call through: it is on the wire or was dropped, and never sleeps again.
\<close>

theorem hold_is_bounded:
  assumes "st = run fuse_step (createEditFloodFuse c now marker) es" and "x \<in> set (f_calls st)"
  shows "(\<forall>wake b s f. f_status x = Asleep wake b s f \<longrightarrow> wake \<le> f_at x + maxDeferMs c) \<and>
    (f_at x + maxDeferMs c \<le> f_now st \<longrightarrow>
      list_all (\<lambda>y. f_id y = f_id x \<longrightarrow> f_status y = OnTheWire) (f_calls (run fuse_step st (replicate 4 (FResume (f_id x))))))"
proof -
  let ?g = "clamp_config c"
  have ok: "flow_ok ?g st" unfolding assms(1) by (rule flow_run)
  have d: "maxDeferMs ?g = maxDeferMs c" by (simp add: clamp_config_def Let_def)
  have co: "call_ok ?g (f_now st) x" using flow_okD(3) [OF ok assms(2)] .
  then obtain n where n: "f_tiers x = drop n (tiers_of ?g x)" by (auto simp: call_ok_def)
  then have "length (f_tiers x) \<le> 4" using at_most_four [of ?g x] by simp
  then have "f_status y = OnTheWire"
    if "f_at x + maxDeferMs c \<le> f_now st" "y \<in> set (f_calls (run fuse_step st (replicate 4 (FResume (f_id x)))))" "f_id y = f_id x" for y
    using late_resumes [OF ok _ that(2,3)] that(1) same_id [OF flow_okD(2) [OF ok] _ assms(2)] d by auto
  then show ?thesis using co d by (auto simp: call_ok_def list_all_iff)
qed

section \<open>Room for a reply\<close>

lemma decay_again: "decay now per n u = (m, v) \<Longrightarrow> decay now per m v = (m, v)"
proof (induction n arbitrary: u)
  case (Suc n)
  then show ?case by (cases "u \<le> now") auto
qed simp

lemma probe_again:
  assumes "persistedFloodRemainingMs st = (r, st1)" "f_now st' = f_now st1" "fz st' = fz st1"
    "probedAt st' = probedAt st1" "probedRemainingMs st' = probedRemainingMs st1" "f_marker st' = f_marker st1"
  shows "fst (persistedFloodRemainingMs st') = r"
  using assms by (cases "probedAt st") (auto simp: persistedFloodRemainingMs_def split: if_splits)

lemma level_again:
  assumes l: "levelAt st = (n, st1)" and s: "f_now st' = f_now st1" "fz st' = fz st1" "tightenLevel st' = tightenLevel st1" "tightenedUntil st' = tightenedUntil st1"
    "probedAt st' = probedAt st1" "probedRemainingMs st' = probedRemainingMs st1" "f_marker st' = f_marker st1"
  shows "fst (levelAt st') = n"
proof -
  obtain m u where d: "decay (f_now st) (tightenMs (fz st)) (tightenLevel st) (tightenedUntil st) = (m, u)"
    by (cases "decay (f_now st) (tightenMs (fz st)) (tightenLevel st) (tightenedUntil st)")
  obtain r st2 where p: "persistedFloodRemainingMs (st\<lparr>tightenLevel := m, tightenedUntil := u\<rparr>) = (r, st2)"
    by (cases "persistedFloodRemainingMs (st\<lparr>tightenLevel := m, tightenedUntil := u\<rparr>)")
  have n: "n = (if 0 < r then max m (min (maxTightenLevel (fz st)) (tightenStepFor (fz st) (of_int r / 1000))) else m)" "st1 = st2"
    using l by (simp_all add: levelAt_def d p split: if_splits)
  have k: "tightenLevel st2 = m" "tightenedUntil st2 = u" "f_now st2 = f_now st" "fz st2 = fz st"
    using p by (auto simp: persistedFloodRemainingMs_def split: if_splits option.splits)
  have d': "decay (f_now st') (tightenMs (fz st')) (tightenLevel st') (tightenedUntil st') = (m, u)"
    using decay_again [OF d] s k n(2) by simp
  obtain r' st3 where p': "persistedFloodRemainingMs (st'\<lparr>tightenLevel := m, tightenedUntil := u\<rparr>) = (r', st3)"
    by (cases "persistedFloodRemainingMs (st'\<lparr>tightenLevel := m, tightenedUntil := u\<rparr>)")
  have "fst (persistedFloodRemainingMs (st'\<lparr>tightenLevel := m, tightenedUntil := u\<rparr>)) = r"
    by (rule probe_again [OF p]) (use s n(2) in simp_all)
  then have "r' = r" using p' by simp
  moreover have "fz st' = fz st" using s(2) k(4) n(2) by simp
  ultimately show ?thesis unfolding levelAt_def d' by (simp add: p' n(1))
qed

lemma cosmetic_below_critical:
  assumes "0 < perChatReplyReserve c" "1 < perChatTotalMax c"
  shows "totalMaxFor (clamp_config c) n Cosmetic < totalMaxFor (clamp_config c) n Critical"
proof -
  let ?g = "clamp_config c"
  have r: "0 < replyReserveFraction ?g" using assms by (simp add: replyReserveFraction_def clamp_config_def Let_def)
  have e: "1 \<le> ceiling_at ?g n (perChatTotalMax ?g)" using assms(2) by (simp add: ceiling_at_def clamp_config_def Let_def)
  then have "cosmeticTotalMax ?g n < ceiling_at ?g n (perChatTotalMax ?g)" using r by (auto simp: cosmeticTotalMax_def Let_def)
  then show ?thesis by (simp add: totalMaxFor_def classCeiling_def)
qed

text \<open>
  Claim C35: a reply finds room behind a repaint. With a positive reply reserve and a chat budget above one, whatever the floods have tightened and whatever the window of the chat holds: when a cosmetic
  call finds a slot in the budget of its chat, a critical call of the same chat still finds one at that moment.
\<close>

theorem reply_finds_room:
  assumes "fz st = clamp_config c" "0 < perChatReplyReserve c" "1 < perChatTotalMax c"
    and "f_class x = Cosmetic" "f_class y = Critical"
    and "tier_turn x (Room (KTotal ch) CapTotal m d) st = (Took slots, st')" "f_now st < d"
  shows "\<exists>slots' st''. tier_turn y (Room (KTotal ch) CapTotal m' d') st' = (Took slots', st'')"
proof -
  obtain n st1 where l: "levelAt st = (n, st1)" by (cases "levelAt st")
  have f: "fz st1 = clamp_config c" "f_now st1 = f_now st" using levelAt_flow [OF l] assms(1) by (simp_all add: same_flow_def)
  let ?k = "KTotal ch" and ?mx = "totalMaxFor (clamp_config c) n"
  have w: "waitFor ?k (?mx Cosmetic) (prune_key ?k st1) = 0" and st': "st' = push_slot ?k (prune_key ?k st1)"
    using assms(4,6,7) f by (auto simp: room_turn_def room_view_def l push_slots_def split: if_splits)
  obtain n' st2 where l': "levelAt st' = (n', st2)" by (cases "levelAt st'")
  have n: "n' = n" using level_again [OF l, of st'] l' by (simp add: st' push_slot_def prune_key_def upd_window_def)
  have s2: "fz st2 = clamp_config c" "f_now st2 = f_now st" "slots_at st2 ?k = slots_at (prune_key ?k st1) ?k @ [f_now st]"
    using levelAt_flow [OF l'] f by (auto simp: same_flow_def st' push_slot_def prune_key_def upd_window_def)
  have "int (length (slots_at (prune_key ?k st2) ?k)) \<le> int (length (slots_at st2 ?k))"
    by (simp add: prune_key_def upd_window_def prune_def length_dropWhile_le)
  also have "\<dots> \<le> ?mx Cosmetic" using waitFor_0(1) [OF w] s2(3) by simp
  also have "\<dots> < ?mx Critical" by (rule cosmetic_below_critical [OF assms(2,3)])
  finally have r: "int (length (slots_at (prune_key ?k st2) ?k)) < ?mx Critical" .
  then have "waitFor ?k (?mx Critical) (prune_key ?k st2) = 0" by (simp add: waitFor_def Let_def)
  then show ?thesis using assms(5) s2(1) n by (simp add: room_turn_def room_view_def l' push_slots_def)
qed

section \<open>Runs of the code\<close>

text \<open>The definitions a run evaluates.\<close>

lemmas run_defs = Let_def createEditFloodFuse_def arrive_def new_fcall_def note_arrival_def method_kind_def UNMETERED_METHODS_def
  EDIT_METHODS_def SEND_METHODS_def CHAT_ACTION_METHODS_def fuse_class_def defaultOutboundClass_def tiers_of_def edit_tiers_def
  is_edit_call_def chat_of_def msg_of_def msg_key_def run_tier_def leave_flight_def room_turn_def room_view_def levelAt_def
  persistedFloodRemainingMs_def waitFor_def prune_key_def upd_window_def prune_def window_ms_def push_slots_def push_slot_def fair_turn_def
  fair_view_def floor_keys_def floor_wait_def late_release_def charge_late_def late_keyed_def newer_in_flight_def count_drop_def
  count_fuse_def ceiling_at_def classCeiling_def cosmeticMessageCeiling_def totalMaxFor_def set_fcall_def end_fcall_def drop_fcall_def
  unreserve_def nap_fcall_def note_wait_def first_wait_def notice_fires_def wants_notice_def sleepCap_def take_waiter_def resume_fcall_def find_fcall_def

lemmas fuse_defs = run_defs clamp_config_def EDIT_FLOOD_FUSE_DEFAULTS_def cosmeticFloorAggMax_def cosmeticRemainderMax_def
  cosmeticTotalMax_def js_round_def replyReserveFraction_def

text \<open>Frames of message 4 in chat 7; a frame that finds room crosses its other tiers with three resumptions.\<close>

definition frame :: "nat \<Rightarrow> PriorityClass option \<Rightarrow> fuse_event" where
  "frame i cls = Arrive i ''editMessageText'' (Some ''7'') (Some ''4'') cls"

definition through :: "nat \<Rightarrow> fuse_event list" where
  "through i = [FResume i, FResume i, FResume i]"

definition tight_fuse :: fuse_config where
  "tight_fuse = EDIT_FLOOD_FUSE_DEFAULTS\<lparr>perMessageMax := 2, cosmeticPerMessageMax := 1\<rparr>"

text \<open>Its fields, so that a run carries the configuration as a constant.\<close>

lemma tight_fields:
  "f_enabled (clamp_config tight_fuse)" "perMessageMax (clamp_config tight_fuse) = 2" "perMessageWindowMs (clamp_config tight_fuse) = 60000"
  "perChatEditMax (clamp_config tight_fuse) = 30" "perChatSendMax (clamp_config tight_fuse) = 25" "cosmeticPerMessageMax (clamp_config tight_fuse) = 1"
  "cosmeticPerChatMax (clamp_config tight_fuse) = 6" "cosmeticFairShareEnabled (clamp_config tight_fuse)" "cosmeticFloorPerWindow (clamp_config tight_fuse) = 1"
  "cosmeticFloorSlots (clamp_config tight_fuse) = 2" "throttleNoticeMs (clamp_config tight_fuse) = 45000" "perChatTotalMax (clamp_config tight_fuse) = 20"
  "perChatReplyReserve (clamp_config tight_fuse) = 8" "perChatCriticalMin (clamp_config tight_fuse) = 3" "perTokenMax (clamp_config tight_fuse) = 25"
  "perTokenWindowMs (clamp_config tight_fuse) = 1000" "chatActionMaxDeferMs (clamp_config tight_fuse) = 3000" "lateReleaseMax (clamp_config tight_fuse) = 2"
  "perChatWindowMs (clamp_config tight_fuse) = 60000" "maxDeferMs (clamp_config tight_fuse) = 30000" "tightenFactor (clamp_config tight_fuse) = (1/2)"
  "tightenMs (clamp_config tight_fuse) = 600000" "maxTightenLevel (clamp_config tight_fuse) = 4" "\<not> probes (clamp_config tight_fuse)"
  "floodProbeIntervalMs (clamp_config tight_fuse) = 1000"
  by (simp_all add: clamp_config_def tight_fuse_def EDIT_FLOOD_FUSE_DEFAULTS_def Let_def)

lemma tight_derived: "cosmeticFloorAggMax (clamp_config tight_fuse) = 2" "cosmeticRemainderMax (clamp_config tight_fuse) = 4" "cosmeticTotalMax (clamp_config tight_fuse) 0 = 12"
  by (simp_all add: cosmeticFloorAggMax_def cosmeticRemainderMax_def tight_fields cosmeticTotalMax_def ceiling_at_def replyReserveFraction_def js_round_def Let_def floor_eq_iff)

lemmas tight_run = frame_def through_def tight_fields tight_derived run_defs

definition strict_fuse :: fuse_config where
  "strict_fuse = EDIT_FLOOD_FUSE_DEFAULTS\<lparr>perMessageMax := 1, lateReleaseMax := 0\<rparr>"

definition narrow :: fuse_config where
  "narrow = EDIT_FLOOD_FUSE_DEFAULTS\<lparr>perChatEditMax := 1\<rparr>"

definition overtaken :: fuse where
  "overtaken = run fuse_step (createEditFloodFuse tight_fuse 0 0) (frame 1 None # through 1 @ frame 2 None # frame 3 (Some Critical) # through 3)"

definition repainted :: fuse where
  "repainted = run fuse_step (createEditFloodFuse strict_fuse 0 0) (frame 1 (Some Critical) # through 1 @ [frame 2 (Some Critical), frame 3 None, FResume 2])"

definition crowded :: fuse where
  "crowded = run fuse_step (createEditFloodFuse narrow 0 0) [frame 1 (Some Useful), FResume 1, frame 2 (Some Useful), FResume 2, frame 3 (Some Useful), FResume 3, FTick 30000]"

text \<open>
  A frame that waits is superseded only by a frame that waits too. The critical frame 3 finds room at once, overtakes the cosmetic frame 2,
  and frame 2 is released behind it: the screen ends on the older frame.
\<close>

lemma overtaken_run:
  "map f_status (f_calls overtaken) = [OnTheWire, Asleep 30000 True (Some 0) False, OnTheWire]" "length (f_calls overtaken) = 3"
  "f_id (f_calls overtaken ! 1) = 2" "f_at (f_calls overtaken ! 1) = 0" "f_now overtaken = 0"
  by (simp_all add: overtaken_def tight_run cong: if_weak_cong)

lemma stale_frame_lands_last:
  "map f_id (f_passed (run fuse_step overtaken (FTick 30000 # FResume 2 # through 2))) = [1, 3, 2]"
  by (simp add: overtaken_def tight_run cong: if_weak_cong)

text \<open>
  The frame that supersedes another need not paint: the critical frame 2 is killed by the cosmetic frame 3, which is then dropped itself,
  and no later frame of the message is under way.
\<close>

lemma killer_is_dropped:
  "map (\<lambda>(c, r). (f_id c, f_class c, r)) (f_drops (run fuse_step repainted [FTick 30000, FResume 3])) =
     [(2, Critical, Superseded), (3, Cosmetic, LateBudget)] \<and>
   map f_id (f_calls (run fuse_step repainted [FTick 30000, FResume 3])) = [1]"
  by (simp add: repainted_def frame_def through_def strict_fuse_def fuse_defs cong: if_weak_cong)

text \<open>A flood of a second shortens the hold a flood of an hour has set, and the tightening is over before that hour is.\<close>

lemma short_flood_shortens_the_hold:
  "tightenedUntil (noteFlood 3600 (createEditFloodFuse EDIT_FLOOD_FUSE_DEFAULTS 0 0)) = 4200000 \<and>
   tightenedUntil (noteFlood 1 (noteFlood 3600 (createEditFloodFuse EDIT_FLOOD_FUSE_DEFAULTS 0 0))) = 601000 \<and>
   fst (levelAt ((noteFlood 1 (noteFlood 3600 (createEditFloodFuse EDIT_FLOOD_FUSE_DEFAULTS 0 0)))\<lparr>f_now := 2401000\<rparr>)) = 0"
  by (simp add: noteFlood_def tightenStepFor_def fuse_defs eval_nat_numeral)

text \<open>A budget of no late releases is one late release while the ceilings are tightened.\<close>

lemma no_late_release_is_one: "0 < n \<Longrightarrow> ceiling_at cfg n 0 = 1"
  by (simp add: ceiling_at_def)

text \<open>The notice of a throttled card is due later than any call is held, so with the default configuration it is never raised.\<close>

lemma notice_never_raised:
  "k_throttled (f_counters (run fuse_step (createEditFloodFuse EDIT_FLOOD_FUSE_DEFAULTS now marker) es)) = 0"
  by (rule flow_okD(8) [OF flow_run]) (simp add: clamp_config_def EDIT_FLOOD_FUSE_DEFAULTS_def Let_def)

section \<open>The promises in these runs\<close>

lemma crowded_run:
  "f_drops crowded = []" "f_drops (fuse_step (FResume 2) crowded) = [(f_calls crowded ! 1, NewerInFlight)]" "f_id (f_calls crowded ! 1) = 2"
  by (simp_all add: crowded_def frame_def narrow_def fuse_defs cong: if_weak_cong)

theorem drops_are_harmless_witness:
  "list_all drop_ok (f_drops (run fuse_step repainted [FTick 30000, FResume 3])) \<and>
   list_ex (\<lambda>y. f_id y \<noteq> 2 \<and> in_flight y \<and> msg_key y = msg_key (f_calls crowded ! 1)) (f_calls crowded)"
proof
  have "run fuse_step repainted [FTick 30000, FResume 3] = run fuse_step (createEditFloodFuse strict_fuse 0 0)
      (frame 1 (Some Critical) # through 1 @ [frame 2 (Some Critical), frame 3 None, FResume 2] @ [FTick 30000, FResume 3])"
    unfolding repainted_def by (simp add: run_append)
  from drops_are_harmless [OF this] show "list_all drop_ok (f_drops (run fuse_step repainted [FTick 30000, FResume 3]))" by blast
  show "list_ex (\<lambda>y. f_id y \<noteq> 2 \<and> in_flight y \<and> msg_key y = msg_key (f_calls crowded ! 1)) (f_calls crowded)"
    using drops_are_harmless [OF crowded_def, THEN conjunct2, rule_format, of "FResume 2" "f_calls crowded ! 1"] crowded_run by (auto simp: list_ex_iff)
qed

theorem hold_is_bounded_witness:
  "list_all (\<lambda>y. f_status y = OnTheWire)
     (filter (\<lambda>y. f_id y = 2) (f_calls (run fuse_step (run fuse_step overtaken [FTick 30000]) (replicate 4 (FResume 2)))))"
proof -
  let ?st = "run fuse_step overtaken [FTick 30000]"
  have st: "?st = run fuse_step (createEditFloodFuse tight_fuse 0 0) ((frame 1 None # through 1 @ frame 2 None # frame 3 (Some Critical) # through 3) @ [FTick 30000])"
    unfolding overtaken_def by (simp add: run_append)
  define x where "x = f_calls overtaken ! 1"
  have x: "x \<in> set (f_calls ?st)" "f_id x = 2" "f_at x = 0" "f_now ?st = 30000" using overtaken_run by (simp_all add: x_def)
  have "f_at x + maxDeferMs tight_fuse \<le> f_now ?st" using x(3,4) by (simp add: tight_fuse_def EDIT_FLOOD_FUSE_DEFAULTS_def)
  with hold_is_bounded [OF st x(1)] show ?thesis using x(2) by (simp add: list_all_iff)
qed

definition quiet_chat :: fuse where "quiet_chat = createEditFloodFuse EDIT_FLOOD_FUSE_DEFAULTS 0 0"

definition typing :: fuse_call where "typing = new_fcall 1 ''sendChatAction'' (Some ''7'') None None quiet_chat"

definition answer :: fuse_call where "answer = new_fcall 2 ''sendMessage'' (Some ''7'') None None quiet_chat"

theorem reply_finds_room_witness:
  "\<exists>slots st. tier_turn answer (Room (KTotal ''7'') CapTotal Release 30000)
     (snd (tier_turn typing (Room (KTotal ''7'') CapTotal DropLate 3000) quiet_chat)) = (Took slots, st)"
proof -
  have "fst (tier_turn typing (Room (KTotal ''7'') CapTotal DropLate 3000) quiet_chat) = Took [(KTotal ''7'', 0)]"
    by (simp add: typing_def quiet_chat_def fuse_defs cong: if_weak_cong)
  then have t: "tier_turn typing (Room (KTotal ''7'') CapTotal DropLate 3000) quiet_chat =
      (Took [(KTotal ''7'', 0)], snd (tier_turn typing (Room (KTotal ''7'') CapTotal DropLate 3000) quiet_chat))" by (metis prod.collapse)
  show ?thesis
    by (rule reply_finds_room [OF _ _ _ _ _ t, of EDIT_FLOOD_FUSE_DEFAULTS])
      (simp_all add: quiet_chat_def createEditFloodFuse_def EDIT_FLOOD_FUSE_DEFAULTS_def typing_def answer_def method_kind_def fuse_class_def
        defaultOutboundClass_def UNMETERED_METHODS_def EDIT_METHODS_def SEND_METHODS_def CHAT_ACTION_METHODS_def)
qed

theorem cosmetic_edits_bounded_witness:
  "int (length (recent_edits ''7'' (run fuse_step (createEditFloodFuse tight_fuse 0 0) (frame 1 None # through 1)))) \<le> 8 \<and>
   map f_id (recent_edits ''7'' (run fuse_step (createEditFloodFuse tight_fuse 0 0) (frame 1 None # through 1))) = [1]"
proof
  show "int (length (recent_edits ''7'' (run fuse_step (createEditFloodFuse tight_fuse 0 0) (frame 1 None # through 1)))) \<le> 8"
    using cosmetic_edits_bounded [of tight_fuse _ 0 0 "frame 1 None # through 1" "''7''", OF _ _ _ _ _ _ refl]
    by (simp add: tight_fuse_def EDIT_FLOOD_FUSE_DEFAULTS_def)
  show "map f_id (recent_edits ''7'' (run fuse_step (createEditFloodFuse tight_fuse 0 0) (frame 1 None # through 1))) = [1]"
    by (simp add: recent_edits_def in_lane_def tight_run cong: if_weak_cong)
qed

end
