(* ===== verification/Obligation_Sweep.thy ===== *)
theory Obligation_Sweep
  imports Delivery_Confirm Obligation_Ledger
begin

text \<open>
  The gateway's side of the obligation ledger: \<open>telegram-plugin/gateway/obligation-wiring.ts\<close> opens, closes and cancels
  obligations and sweeps them when the agent is idle, with the modules it decides by: \<open>represent-guard.ts\<close>,
  \<open>escalation-staleness.ts\<close>, \<open>answer-route-overrides.ts\<close>, \<open>escalation-drive.ts\<close>, the dispatcher of
  \<open>captured-answer-resume.ts\<close>, and the outbound query of \<open>history.ts\<close>. One state, the desk, holds the ledger and what
  these modules keep beside it; every call, timer tick and settled promise is an event on it. The ledger is switched on
  (\<open>OBLIGATION_LEDGER_ENABLED\<close>), and a handler runs within one millisecond of the clock.
\<close>

section \<open>The outbound history\<close>

text \<open>A row of \<open>messages\<close> with role \<open>assistant\<close>: its time is in whole seconds.\<close>

record sent_row =
  r_chat :: string
  r_thread :: "int option"
  r_ts :: int
  r_chars :: nat

datatype thread_scope = AnyThread | ChatRoot | Topic int

fun in_scope :: "thread_scope \<Rightarrow> int option \<Rightarrow> bool" where
  "in_scope AnyThread t = True"
| "in_scope ChatRoot t = (t = None)"
| "in_scope (Topic n) t = (t = Some n)"

definition ceil_seconds :: "int \<Rightarrow> int" where
  "ceil_seconds ms = - ((- ms) div 1000)"

definition delivered_row :: "string \<Rightarrow> int \<Rightarrow> thread_scope \<Rightarrow> nat \<Rightarrow> int option \<Rightarrow> sent_row \<Rightarrow> bool" where
  "delivered_row c sinceMs scope minChars untilMs r \<longleftrightarrow>
     r_chat r = c \<and> sinceMs div 1000 \<le> r_ts r \<and> max 1 minChars \<le> r_chars r
     \<and> (case untilMs of None \<Rightarrow> True | Some u \<Rightarrow> r_ts r \<le> ceil_seconds u) \<and> in_scope scope (r_thread r)"

definition hasOutboundDeliveredSince ::
    "sent_row list \<Rightarrow> string \<Rightarrow> int \<Rightarrow> thread_scope \<Rightarrow> nat \<Rightarrow> int option \<Rightarrow> bool" where
  "hasOutboundDeliveredSince rows c sinceMs scope minChars untilMs =
     list_ex (delivered_row c sinceMs scope minChars untilMs) rows"

definition DEFAULT_MIN_CHARS :: nat where
  "DEFAULT_MIN_CHARS = 200"

text \<open>An obligation without a topic asks for any thread.\<close>

definition own_scope :: "Obligation \<Rightarrow> thread_scope" where
  "own_scope b = (case Obligation.threadId b of None \<Rightarrow> AnyThread | Some t \<Rightarrow> Topic t)"

section \<open>The record of rerouted answers\<close>

record route_override =
  routedThreadId :: "int option"
  atMs :: int

record override_note =
  n_chat :: string
  n_enabled :: bool
  n_explicit :: "int option"
  n_anchored :: bool
  n_routed :: "int option"
  n_now :: int

type_synonym overrides = "(string \<times> route_override list) list"

definition MAX_OVERRIDE_KEYS :: nat where "MAX_OVERRIDE_KEYS = 64"
definition MAX_PER_KEY :: nat where "MAX_PER_KEY = 8"

definition keyFor :: "string \<Rightarrow> int option \<Rightarrow> string" where
  "keyFor c t = c @ '':'' @ (case t of None \<Rightarrow> ''_'' | Some n \<Rightarrow> show_int n)"

definition overridden :: "override_note \<Rightarrow> bool" where
  "overridden a \<longleftrightarrow> n_enabled a \<and> n_explicit a \<noteq> None \<and> n_anchored a \<and> n_routed a \<noteq> n_explicit a"

definition overrides_for :: "string \<Rightarrow> int option \<Rightarrow> overrides \<Rightarrow> route_override list" where
  "overrides_for c t os = (case map_of os (keyFor c t) of None \<Rightarrow> [] | Some es \<Rightarrow> es)"

text \<open>Both maps and lists give up their oldest entries when they are over their bound.\<close>

definition keep_last :: "nat \<Rightarrow> 'a list \<Rightarrow> 'a list" where
  "keep_last n xs = drop (length xs - n) xs"

definition note_override :: "override_note \<Rightarrow> overrides \<Rightarrow> overrides" where
  "note_override a os =
     (if overridden a then
        keep_last MAX_OVERRIDE_KEYS
          (AList.update (keyFor (n_chat a) (n_explicit a))
             (keep_last MAX_PER_KEY (overrides_for (n_chat a) (n_explicit a) os @ [\<lparr>routedThreadId = n_routed a, atMs = n_now a\<rparr>])) os)
      else os)"

text \<open>The first record of each routed thread, among those not older than the bound.\<close>

fun routed_loop :: "int \<Rightarrow> route_override list \<Rightarrow> route_override list \<Rightarrow> route_override list" where
  "routed_loop notBefore acc [] = acc"
| "routed_loop notBefore acc (e # es) =
     routed_loop notBefore
       (if atMs e < notBefore then acc
        else if list_ex (\<lambda>s. routedThreadId s = routedThreadId e) acc then acc else acc @ [e]) es"

definition routedOverridesSince :: "string \<Rightarrow> int option \<Rightarrow> int \<Rightarrow> overrides \<Rightarrow> route_override list" where
  "routedOverridesSince c t notBefore os = routed_loop notBefore [] (overrides_for c t os)"

section \<open>The settle gate\<close>

type_synonym settle_gate = "(string \<times> (int \<times> int)) list"

definition MAX_SETTLE_KEYS :: nat where "MAX_SETTLE_KEYS = 256"

definition open_window :: "string \<Rightarrow> int \<Rightarrow> int \<Rightarrow> settle_gate \<Rightarrow> settle_gate" where
  "open_window i t opened g = keep_last MAX_SETTLE_KEYS (AList.update i (t, opened) g)"

text \<open>The entries are pairs of the first reading and the opening time of the obligation it belongs to.\<close>

definition shouldDefer :: "int \<Rightarrow> string \<Rightarrow> int \<Rightarrow> int \<Rightarrow> settle_gate \<Rightarrow> bool \<times> settle_gate" where
  "shouldDefer settleMs i t opened g =
     (if \<not> 0 < settleMs then (False, g)
      else (case map_of g i of
          None \<Rightarrow> (True, open_window i t opened g)
        | Some (firstMs, prevOpened) \<Rightarrow>
            if prevOpened \<noteq> opened then (True, open_window i t opened g)
            else if t < firstMs then (True, AList.update i (t, opened) g)
            else (t - firstMs < settleMs, g)))"

definition firstAt :: "string \<Rightarrow> int \<Rightarrow> settle_gate \<Rightarrow> int option" where
  "firstAt i opened g = (case map_of g i of None \<Rightarrow> None
     | Some (firstMs, prevOpened) \<Rightarrow> if prevOpened \<noteq> opened then None else Some firstMs)"

definition clear_window :: "string \<Rightarrow> settle_gate \<Rightarrow> settle_gate" where
  "clear_window i g = AList.delete i g"

section \<open>The desk\<close>

record sweep_config =
  escalateGraceMs :: int
  backgroundWorkGraceMs :: int
  representGrace :: int
  guardMinChars :: nat
  escalateMax :: nat
  settleMs :: int
  rerouteWindowMs :: int
  historyEnabled :: bool

text \<open>
  \<open>awaiting\<close> are the escalation sends under way with the number of their attempt, whose keys are
  \<open>obligationEscalateInFlight\<close>; \<open>resuming\<close> is the dispatcher's set of resumes under way.
\<close>

record desk =
  led :: ledger
  settling :: settle_gate
  awaiting :: "(string \<times> nat) list"
  resuming :: "string list"
  sent :: "sent_row list"
  routes :: overrides

definition new_desk :: "nat \<Rightarrow> desk" where
  "new_desk n = \<lparr>led = new_ledger n, settling = [], awaiting = [], resuming = [], sent = [], routes = []\<rparr>"

text \<open>What a sweep reads around the ledger: the clock, the turn machine, the buffer, the bridge.\<close>

record surroundings =
  s_now :: int
  s_turnInFlight :: bool
  s_backgroundWork :: bool
  s_sessionBusy :: bool
  s_bufferDepth :: nat
  s_bridgeAlive :: bool
  s_historyReadable :: bool

text \<open>A query that fails answers false, as if there were no rows.\<close>

definition readable :: "surroundings \<Rightarrow> desk \<Rightarrow> sent_row list" where
  "readable v d = (if s_historyReadable v then sent d else [])"

section \<open>Has it been answered?\<close>

definition shouldSuppressRepresent :: "sweep_config \<Rightarrow> sent_row list \<Rightarrow> Obligation \<Rightarrow> bool" where
  "shouldSuppressRepresent c rows b =
     (if \<not> historyEnabled c then False
      else (case lastRepresentedAt b of
          None \<Rightarrow> hasOutboundDeliveredSince rows (Obligation.chatId b) (openedAt b) (own_scope b) (guardMinChars c) None
        | Some r \<Rightarrow> hasOutboundDeliveredSince rows (Obligation.chatId b) r (own_scope b) (guardMinChars c) None))"

definition routed_scope :: "route_override \<Rightarrow> thread_scope" where
  "routed_scope e = (case routedThreadId e of None \<Rightarrow> ChatRoot | Some t \<Rightarrow> Topic t)"

definition rerouted_answer :: "int \<Rightarrow> sent_row list \<Rightarrow> Obligation \<Rightarrow> route_override \<Rightarrow> bool" where
  "rerouted_answer window rows b e =
     hasOutboundDeliveredSince rows (Obligation.chatId b) (max (atMs e) (openedAt b)) (routed_scope e) DEFAULT_MIN_CHARS
       (Some (atMs e + window))"

definition answeredSinceOpen :: "sweep_config \<Rightarrow> sent_row list \<Rightarrow> overrides \<Rightarrow> int \<Rightarrow> Obligation \<Rightarrow> bool" where
  "answeredSinceOpen c rows os anchor b =
     (if \<not> historyEnabled c then False
      else if hasOutboundDeliveredSince rows (Obligation.chatId b) (openedAt b) (own_scope b) DEFAULT_MIN_CHARS None then True
      else if \<not> 0 < rerouteWindowMs c then False
      else list_ex (rerouted_answer (rerouteWindowMs c) rows b)
        (routedOverridesSince (Obligation.chatId b) (Obligation.threadId b) (max (openedAt b) (anchor - rerouteWindowMs c)) os))"

section \<open>The idle sweep\<close>

datatype sweep_outcome =
    Quiet
  | ClosedSilently string
  | Presented Obligation
  | Resumed Obligation
  | Settling string
  | Nudged Obligation

definition silent_close :: "Obligation \<Rightarrow> desk \<Rightarrow> sweep_outcome \<times> desk" where
  "silent_close b d = (ClosedSilently (originTurnId b),
     d\<lparr>settling := clear_window (originTurnId b) (settling d), led := snd (close (Some (originTurnId b)) (led d))\<rparr>)"

definition mark :: "surroundings \<Rightarrow> Obligation \<Rightarrow> desk \<Rightarrow> desk" where
  "mark v b d = d\<lparr>led := snd (markRepresented (originTurnId b) (s_now v) (led d))\<rparr>"

text \<open>\<open>capturedResume.dispatch\<close>: the budget is spent before the delivery starts.\<close>

definition dispatch :: "surroundings \<Rightarrow> Obligation \<Rightarrow> CapturedDeliverySnapshot \<Rightarrow> desk \<Rightarrow> sweep_outcome \<times> desk" where
  "dispatch v b snapshot d =
     (if chunks snapshot = [] then (Quiet, d)
      else if originTurnId b \<in> set (resuming d) then (Quiet, d)
      else (Resumed b, mark v b (d\<lparr>resuming := originTurnId b # resuming d\<rparr>)))"

definition represent_branch :: "sweep_config \<Rightarrow> surroundings \<Rightarrow> Obligation \<Rightarrow> desk \<Rightarrow> sweep_outcome \<times> desk" where
  "represent_branch c v b d =
     (if shouldSuppressRepresent c (readable v d) b then silent_close b d
      else (case capturedDelivery b of Some snapshot \<Rightarrow> dispatch v b snapshot d
        | None \<Rightarrow> if 0 < s_bufferDepth v then (Quiet, d) else (Presented b, mark v b d)))"

text \<open>\<open>driveEscalation\<close> up to the send; \<open>finish_nudge\<close> below is the chain behind it.\<close>

definition driveEscalation :: "Obligation \<Rightarrow> desk \<Rightarrow> sweep_outcome \<times> desk" where
  "driveEscalation b d =
     (if originTurnId b \<in> fst ` set (awaiting d) then (Quiet, d)
      else (case markEscalateAttempt (originTurnId b) (led d) of (attempt, l) \<Rightarrow>
        (Nudged b, d\<lparr>led := l, awaiting := (originTurnId b, attempt) # awaiting d\<rparr>)))"

definition escalate_branch :: "sweep_config \<Rightarrow> surroundings \<Rightarrow> Obligation \<Rightarrow> desk \<Rightarrow> sweep_outcome \<times> desk" where
  "escalate_branch c v b d =
     (if \<not> s_bridgeAlive v then (Quiet, d)
      else
        let anchor = (case firstAt (originTurnId b) (openedAt b) (settling d) of None \<Rightarrow> s_now v | Some f \<Rightarrow> f)
        in if answeredSinceOpen c (readable v d) (routes d) anchor b then silent_close b d
           else (case shouldDefer (settleMs c) (originTurnId b) (s_now v) (openedAt b) (settling d) of (defer, g) \<Rightarrow>
             if defer then (Settling (originTurnId b), d\<lparr>settling := g\<rparr>)
             else (case driveEscalation b d of (outcome, d') \<Rightarrow>
               (outcome, d'\<lparr>settling := clear_window (originTurnId b) (settling d')\<rparr>))))"

definition background_active :: "sweep_config \<Rightarrow> surroundings \<Rightarrow> bool" where
  "background_active c v \<longleftrightarrow> 0 < backgroundWorkGraceMs c \<and> (s_backgroundWork v \<or> s_sessionBusy v)"

definition sweep_opts :: "sweep_config \<Rightarrow> surroundings \<Rightarrow> idle_opts option" where
  "sweep_opts c v =
     (if 0 < escalateGraceMs c \<or> background_active c v \<or> 0 < representGrace c then
        Some \<lparr>now = s_now v, graceMs = escalateGraceMs c, backgroundWorkActive = background_active c v,
              backgroundGraceMs = backgroundWorkGraceMs c, representGraceMs = representGrace c\<rparr>
      else None)"

definition obligationSweep :: "sweep_config \<Rightarrow> surroundings \<Rightarrow> desk \<Rightarrow> sweep_outcome \<times> desk" where
  "obligationSweep c v d =
     (if \<not> hasOpen (led d) then (Quiet, d)
      else if s_turnInFlight v then (Quiet, d)
      else (case decideAtIdle (sweep_opts c v) (led d) of
          NoAction \<Rightarrow> (Quiet, d)
        | Represent b \<Rightarrow> represent_branch c v b d
        | Escalate b \<Rightarrow> escalate_branch c v b d))"

section \<open>What settles later\<close>

text \<open>
  The chain behind the send, which \<open>withDeadline\<close> always settles: closed when the nudge was delivered, closed
  when this was the last attempt, left open otherwise.
\<close>

definition finish_nudge :: "sweep_config \<Rightarrow> string \<Rightarrow> bool \<Rightarrow> desk \<Rightarrow> desk" where
  "finish_nudge c i ok d = (case map_of (awaiting d) i of None \<Rightarrow> d
     | Some attempt \<Rightarrow>
         (let l = (if ok then snd (close (Some i) (led d))
                   else if escalateMax c \<le> attempt then snd (close (Some i) (led d)) else led d)
          in d\<lparr>led := l, awaiting := AList.delete i (awaiting d)\<rparr>))"

text \<open>\<open>run\<close> of the dispatcher: closed when every chunk landed, left open when the tail did not land or it raised.\<close>

definition finish_resume :: "string \<Rightarrow> bool \<Rightarrow> desk \<Rightarrow> desk" where
  "finish_resume i delivered d =
     (if i \<in> set (resuming d) then
        d\<lparr>led := (if delivered then snd (close (Some i) (led d)) else led d), resuming := removeAll i (resuming d)\<rparr>
      else d)"

section \<open>Opening, closing, cancelling\<close>

definition chatKey :: "string \<Rightarrow> int option \<Rightarrow> string" where
  "chatKey c t = c @ '':'' @ (case t of None \<Rightarrow> ''_'' | Some n \<Rightarrow> if n = 0 then ''_'' else show_int n)"

definition deriveTurnId :: "string \<Rightarrow> int option \<Rightarrow> int \<Rightarrow> string option" where
  "deriveTurnId c t m = (if m = 0 then None else Some (chatKey c t @ ''#'' @ show_int m))"

definition openObligationFromInbound :: "InboundMessage \<Rightarrow> bool \<Rightarrow> bool \<Rightarrow> string \<Rightarrow> int \<Rightarrow> desk \<Rightarrow> desk" where
  "openObligationFromInbound m isSteering isInterrupt effectiveText t d =
     (if \<not> shouldTrackDelivery isSteering isInterrupt (source m \<noteq> None) (Some effectiveText) then d
      else (case deriveTurnId (InboundMessage.chatId m) (InboundMessage.threadId m) (InboundMessage.messageId m) of
          None \<Rightarrow> d
        | Some oid \<Rightarrow> d\<lparr>led := snd (openIfAbsent
            \<lparr>in_originTurnId = oid, in_chatId = InboundMessage.chatId m, in_threadId = InboundMessage.threadId m,
             in_messageId = InboundMessage.messageId m, in_text = msg_text m, in_openedAt = t\<rparr> (led d))\<rparr>))"

text \<open>The ids of the echoed, live and routed turns, each looked up by the caller.\<close>

definition reply_target :: "string option \<Rightarrow> string option \<Rightarrow> string option \<Rightarrow> ledger \<Rightarrow> string option" where
  "reply_target echoed live routedOrigin l =
     resolveCloseTarget echoed live (if routedOrigin \<noteq> None \<and> echoed = None then routedOrigin else None) l"

definition closeObligationOnSubstantiveReply :: "string option \<Rightarrow> string option \<Rightarrow> string option \<Rightarrow> desk \<Rightarrow> desk" where
  "closeObligationOnSubstantiveReply echoed live routedOrigin d =
     (case reply_target echoed live routedOrigin (led d) of None \<Rightarrow> d
      | Some i \<Rightarrow> d\<lparr>led := snd (close (Some i) (led d)), settling := clear_window i (settling d)\<rparr>)"

definition cancelInterruptedObligation :: "string option \<Rightarrow> desk \<Rightarrow> desk" where
  "cancelInterruptedObligation turn d = (case turn of None \<Rightarrow> d
     | Some i \<Rightarrow> (case close (Some i) (led d) of (closed, l) \<Rightarrow>
         if closed then d\<lparr>led := l, settling := clear_window i (settling d)\<rparr> else d\<lparr>led := l\<rparr>))"

text \<open>\<open>decideObligationTurnEnd\<close> and the turn end that acts on it; the flush backstop defers its close.\<close>

definition closesAtTurnEnd :: "bool \<Rightarrow> bool \<Rightarrow> bool" where
  "closesAtTurnEnd finalAnswerDelivered replyCalled \<longleftrightarrow> finalAnswerDelivered \<or> replyCalled"

definition turn_end :: "string \<Rightarrow> bool \<Rightarrow> bool \<Rightarrow> int \<Rightarrow> desk \<Rightarrow> desk" where
  "turn_end i finalAnswerDelivered replyCalled t d =
     d\<lparr>led := (if closesAtTurnEnd finalAnswerDelivered replyCalled then snd (close (Some i) (led d))
              else noteTurnEnded i t (led d))\<rparr>"

definition flush_settled :: "string \<Rightarrow> bool \<Rightarrow> int \<Rightarrow> desk \<Rightarrow> desk" where
  "flush_settled i delivered t d =
     d\<lparr>led := (if delivered then snd (close (Some i) (led d)) else noteTurnEnded i t (led d))\<rparr>"

text \<open>A restart keeps the snapshot of the ledger and the history; the rest was in memory.\<close>

definition reboot :: "desk \<Rightarrow> desk" where
  "reboot d = d\<lparr>led := restart (led d), settling := [], awaiting := [], resuming := [], routes := []\<rparr>"

datatype desk_event =
    Received InboundMessage bool bool string int
  | Replied "string option" "string option" "string option"
  | Interrupted "string option"
  | TurnEnd string bool bool int
  | FlushSettled string bool int
  | ProseSettled string
  | TailCaptured string CapturedDeliverySnapshot
  | Tick surroundings
  | NudgeSettled string bool
  | ResumeSettled string bool
  | Recorded sent_row
  | Rerouted override_note
  | Reboot

fun desk_step :: "sweep_config \<Rightarrow> desk_event \<Rightarrow> desk \<Rightarrow> desk" where
  "desk_step c (Received m isSteering isInterrupt txt t) d = openObligationFromInbound m isSteering isInterrupt txt t d"
| "desk_step c (Replied echoed live routedOrigin) d = closeObligationOnSubstantiveReply echoed live routedOrigin d"
| "desk_step c (Interrupted turn) d = cancelInterruptedObligation turn d"
| "desk_step c (TurnEnd i final replied t) d = turn_end i final replied t d"
| "desk_step c (FlushSettled i delivered t) d = flush_settled i delivered t d"
| "desk_step c (ProseSettled i) d = d\<lparr>led := snd (close (Some i) (led d))\<rparr>"
| "desk_step c (TailCaptured i snapshot) d = d\<lparr>led := noteCapturedDelivery i snapshot (led d)\<rparr>"
| "desk_step c (Tick v) d = snd (obligationSweep c v d)"
| "desk_step c (NudgeSettled i ok) d = finish_nudge c i ok d"
| "desk_step c (ResumeSettled i delivered) d = finish_resume i delivered d"
| "desk_step c (Recorded r) d = d\<lparr>sent := sent d @ [r]\<rparr>"
| "desk_step c (Rerouted a) d = d\<lparr>routes := note_override a (routes d)\<rparr>"
| "desk_step c Reboot d = reboot d"

section \<open>What each operation does to one obligation\<close>

named_theorems ledger_gets \<open>the obligation a query finds after an operation of the ledger\<close>

lemma isOpen_get: "isOpen l i \<longleftrightarrow> getObligation l i \<noteq> None"
  by (simp add: isOpen_def getObligation_def)

lemma get_close [ledger_gets]: "getObligation (snd (close (Some j) l)) i = (if i = j then None else getObligation l i)"
  by (auto simp: close_def isOpen_def getObligation_def delete_conv')

lemma get_touch [ledger_gets]:
  "getObligation (touch j f l) i = (if i = j then map_option f (getObligation l j) else getObligation l i)"
  by (cases "map_of (open_map l) j") (auto simp: touch_def getObligation_def update_conv')

lemma get_open [ledger_gets]:
  "getObligation (snd (openIfAbsent inp l)) i =
     (if i = in_originTurnId inp \<and> getObligation l i = None then Some (fresh_obligation inp) else getObligation l i)"
  by (auto simp: openIfAbsent_def isOpen_def getObligation_def update_conv')

lemma get_represented [ledger_gets]:
  "getObligation (snd (markRepresented j t l)) i =
     (if i = j then map_option (\<lambda>b. b\<lparr>representCount := Suc (representCount b), lastRepresentedAt := Some t\<rparr>) (getObligation l j)
      else getObligation l i)"
  by (simp add: markRepresented_def Let_def get_touch)

lemma get_attempt [ledger_gets]:
  "getObligation (snd (markEscalateAttempt j l)) i =
     (if i = j then map_option (\<lambda>b. b\<lparr>escalateAttempts := Some (Suc (attempts b))\<rparr>) (getObligation l j)
      else getObligation l i)"
  by (simp add: markEscalateAttempt_def Let_def get_touch)

lemma get_ended [ledger_gets]:
  "getObligation (noteTurnEnded j t l) i =
     (if i = j then map_option (\<lambda>b. b\<lparr>lastTurnEndedAt := Some t\<rparr>) (getObligation l j) else getObligation l i)"
  by (simp add: noteTurnEnded_def get_touch)

lemma get_captured [ledger_gets]:
  "getObligation (noteCapturedDelivery j s l) i =
     (if i = j \<and> chunks s \<noteq> [] then map_option (\<lambda>b. b\<lparr>capturedDelivery := Some s\<rparr>) (getObligation l j)
      else getObligation l i)"
  by (simp add: noteCapturedDelivery_def get_touch)

lemma attempt_number: "getObligation l j = Some b \<Longrightarrow> fst (markEscalateAttempt j l) = Suc (attempts b)"
  using get_touch [of j "\<lambda>b. b\<lparr>escalateAttempts := Some (Suc (attempts b))\<rparr>" l j]
  by (simp add: markEscalateAttempt_def Let_def getObligation_def attempts_def split: option.splits)

lemma maxRepresents_step [simp]: "maxRepresents (ledger_step e l) = maxRepresents l"
  by (cases e) (auto simp: openIfAbsent_def close_def noteTurnEnded_def noteCapturedDelivery_def markRepresented_def
      markEscalateAttempt_def touch_def Let_def split: option.splits)

section \<open>The desk keeps the ledger's contract\<close>

text \<open>Every event performs at most one operation of the ledger.\<close>

definition ledger_move :: "ledger \<Rightarrow> ledger \<Rightarrow> bool" where
  "ledger_move l l' \<longleftrightarrow> l' = l \<or> (\<exists>e. named e \<and> l' = ledger_step e l)"

lemma ledger_moveI [intro]:
  "ledger_move l l" "ledger_move l (snd (close t l))" "ledger_move l (snd (markRepresented i s l))"
  "ledger_move l (snd (markEscalateAttempt i l))" "ledger_move l (noteTurnEnded i s l)"
  "ledger_move l (noteCapturedDelivery i cs l)" "ledger_move l (restart l)"
  "in_originTurnId inp \<noteq> [] \<Longrightarrow> ledger_move l (snd (openIfAbsent inp l))"
  unfolding ledger_move_def
  by (blast, metis ledger_step.simps(2) named.simps(2), metis ledger_step.simps(5) named.simps(5),
      metis ledger_step.simps(6) named.simps(6), metis ledger_step.simps(3) named.simps(3),
      metis ledger_step.simps(4) named.simps(4), metis ledger_step.simps(7) named.simps(7),
      metis ledger_step.simps(1) named.simps(1))

lemma ledger_move_ok: "ledger_move l l' \<Longrightarrow> ledger_ok l \<Longrightarrow> ledger_ok l' \<and> maxRepresents l' = maxRepresents l"
  by (auto simp: ledger_move_def ledger_ok_step)

lemma deriveTurnId_named: "deriveTurnId c t m = Some i \<Longrightarrow> i \<noteq> []"
  by (auto simp: deriveTurnId_def split: if_splits)

definition answered :: "sweep_config \<Rightarrow> surroundings \<Rightarrow> desk \<Rightarrow> Obligation \<Rightarrow> bool" where
  "answered c v d b \<longleftrightarrow> shouldSuppressRepresent c (readable v d) b
     \<or> (\<exists>anchor. answeredSinceOpen c (readable v d) (routes d) anchor b)"

text \<open>What a sweep can do, and what it rests on.\<close>

lemma sweep_cases [consumes 2, case_names quiet silent presented resumed settle nudged]:
  assumes "obligationSweep c v d = (out, d')" and "keyed (open_map (led d))"
  obtains "out = Quiet" "led d' = led d" "awaiting d' = awaiting d" "resuming d' = resuming d" "sent d' = sent d"
      "routes d' = routes d" "settling d' = settling d \<or> (\<exists>i. settling d' = clear_window i (settling d))"
    | b where "getObligation (led d) (originTurnId b) = Some b" "out = ClosedSilently (originTurnId b)"
        "d' = snd (silent_close b d)" "answered c v d b"
    | b where "getObligation (led d) (originTurnId b) = Some b" "representCount b < maxRepresents (led d)"
        "out = Presented b" "d' = mark v b d"
    | b where "getObligation (led d) (originTurnId b) = Some b" "representCount b < maxRepresents (led d)"
        "out = Resumed b" "originTurnId b \<notin> set (resuming d)" "d' = mark v b (d\<lparr>resuming := originTurnId b # resuming d\<rparr>)"
    | b g where "getObligation (led d) (originTurnId b) = Some b" "out = Settling (originTurnId b)" "d' = d\<lparr>settling := g\<rparr>"
        "shouldDefer (settleMs c) (originTurnId b) (s_now v) (openedAt b) (settling d) = (True, g)"
    | b where "getObligation (led d) (originTurnId b) = Some b" "originTurnId b \<notin> fst ` set (awaiting d)" "out = Nudged b"
        "d' = d\<lparr>led := snd (markEscalateAttempt (originTurnId b) (led d)),
          awaiting := (originTurnId b, Suc (attempts b)) # awaiting d, settling := clear_window (originTurnId b) (settling d)\<rparr>"
proof (cases "hasOpen (led d) \<and> \<not> s_turnInFlight v")
  case False
  then show thesis using assms that(1) by (auto simp: obligationSweep_def split: if_splits)
next
  case True
  note mem = decide_mem [OF assms(2), where opts = "sweep_opts c v"]
  show thesis
  proof (cases "decideAtIdle (sweep_opts c v) (led d)")
    case NoAction
    then show thesis using assms True that(1) by (simp add: obligationSweep_def)
  next
    case (Represent b)
    have b: "getObligation (led d) (originTurnId b) = Some b" using mem Represent by (simp add: getObligation_def)
    have rc: "representCount b < maxRepresents (led d)"
      using Represent by (auto simp: decideAtIdle_def Let_def split: option.splits if_splits)
    have out: "represent_branch c v b d = (out, d')" using assms(1) True Represent by (simp add: obligationSweep_def)
    show thesis
    proof (cases "shouldSuppressRepresent c (readable v d) b")
      case True
      then show thesis using that(2) [OF b] out by (auto simp: represent_branch_def answered_def silent_close_def)
    next
      case False
      show thesis
      proof (cases "capturedDelivery b")
        case None
        then show thesis using out False that(1) that(3) [OF b rc]
          by (cases "0 < s_bufferDepth v") (simp_all add: represent_branch_def)
      next
        case (Some snapshot)
        then have "dispatch v b snapshot d = (out, d')" using out False by (simp add: represent_branch_def)
        then have di: "(out, d') = dispatch v b snapshot d" by simp
        show thesis
        proof (cases "chunks snapshot = [] \<or> originTurnId b \<in> set (resuming d)")
          case True
          then have "out = Quiet" "d' = d" using di by (auto simp: dispatch_def split: if_splits)
          then show thesis using that(1) by simp
        next
          case False
          then have "out = Resumed b" "originTurnId b \<notin> set (resuming d)"
            "d' = mark v b (d\<lparr>resuming := originTurnId b # resuming d\<rparr>)" using di by (simp_all add: dispatch_def)
          then show thesis by (rule that(4) [OF b rc])
        qed
      qed
    qed
  next
    case (Escalate b)
    have b: "getObligation (led d) (originTurnId b) = Some b" using mem Escalate by (simp add: getObligation_def)
    have out: "escalate_branch c v b d = (out, d')" using assms(1) True Escalate by (simp add: obligationSweep_def)
    define anchor where "anchor = (case firstAt (originTurnId b) (openedAt b) (settling d) of None \<Rightarrow> s_now v | Some f \<Rightarrow> f)"
    obtain dfr g where sd: "shouldDefer (settleMs c) (originTurnId b) (s_now v) (openedAt b) (settling d) = (dfr, g)"
      by (cases "shouldDefer (settleMs c) (originTurnId b) (s_now v) (openedAt b) (settling d)")
    show thesis
    proof (cases "s_bridgeAlive v")
      case False
      then show thesis using out that(1) by (simp add: escalate_branch_def)
    next
      case alive: True
      show thesis
      proof (cases "answeredSinceOpen c (readable v d) (routes d) anchor b")
        case True
        then have "answered c v d b" unfolding answered_def by blast
        then show thesis using that(2) [OF b] out alive True
          by (simp add: escalate_branch_def Let_def anchor_def silent_close_def)
      next
        case unanswered: False
        show thesis
        proof (cases dfr)
          case True
          then show thesis using that(5) [OF b, of g] out alive unanswered sd
            by (simp add: escalate_branch_def Let_def anchor_def)
        next
          case False
          then have dr: "(out, d') = (case driveEscalation b d of (outcome, d') \<Rightarrow>
              (outcome, d'\<lparr>settling := clear_window (originTurnId b) (settling d')\<rparr>))"
            using out alive unanswered sd by (simp add: escalate_branch_def Let_def anchor_def)
          show thesis
          proof (cases "originTurnId b \<in> fst ` set (awaiting d)")
            case True
            then show thesis using dr that(1) by (auto simp: driveEscalation_def)
          next
            case False
            then show thesis using dr that(6) [OF b] attempt_number [OF b]
              by (simp add: driveEscalation_def split_beta)
          qed
        qed
      qed
    qed
  qed
qed

lemma sweep_ledger:
  assumes "keyed (open_map (led d))"
  shows "ledger_move (led d) (led (snd (obligationSweep c v d)))"
proof -
  obtain out d' where o: "obligationSweep c v d = (out, d')" by (cases "obligationSweep c v d")
  then have "ledger_move (led d) (led d')"
    using assms by (cases rule: sweep_cases) (auto simp: silent_close_def mark_def)
  then show ?thesis by (simp add: o)
qed

lemma desk_ledger:
  assumes "ledger_ok (led d)"
  shows "ledger_move (led d) (led (desk_step c e d))"
proof (cases e)
  case (Received m steer intr eff t)
  then show ?thesis
    by (auto simp: openObligationFromInbound_def deriveTurnId_named split: option.splits)
next
  case (Replied ec lv ro)
  then show ?thesis by (auto simp: closeObligationOnSubstantiveReply_def split: option.splits)
next
  case (Interrupted turn)
  then show ?thesis
    using ledger_moveI(2) [of "led d" turn]
    by (auto simp: cancelInterruptedObligation_def split: option.splits prod.splits)
next
  case (Tick v)
  then show ?thesis using sweep_ledger assms by (simp add: ledger_ok_def)
qed (auto simp: turn_end_def flush_settled_def finish_nudge_def finish_resume_def reboot_def Let_def split: option.splits)

text \<open>The invariant of the desk: a sound ledger, captured answers that are not empty, and bounded maps with unique keys.\<close>

definition captured_ok :: "ledger \<Rightarrow> bool" where
  "captured_ok l \<longleftrightarrow> (\<forall>i b s. getObligation l i = Some b \<longrightarrow> capturedDelivery b = Some s \<longrightarrow> chunks s \<noteq> [])"

definition gate_ok :: "settle_gate \<Rightarrow> bool" where
  "gate_ok g \<longleftrightarrow> distinct (map fst g) \<and> length g \<le> MAX_SETTLE_KEYS"

definition desk_ok :: "nat \<Rightarrow> desk \<Rightarrow> bool" where
  "desk_ok n d \<longleftrightarrow> ledger_ok (led d) \<and> maxRepresents (led d) = n \<and> captured_ok (led d)
     \<and> gate_ok (settling d) \<and> distinct (map fst (awaiting d))"

lemma desk_ok_new: "desk_ok n (new_desk n)"
  by (simp add: desk_ok_def captured_ok_def gate_ok_def new_desk_def new_ledger_def ledger_ok_def keyed_def listObligations_def
      getObligation_def)

lemma captured_move:
  assumes "ledger_move l l'" "ledger_ok l" "captured_ok l"
  shows "captured_ok l'"
proof -
  consider (same) "l' = l" | (step) e where "l' = ledger_step e l" using assms(1) by (auto simp: ledger_move_def)
  then show ?thesis
  proof cases
    case step
    show ?thesis
    proof (cases e)
      case (CloseTarget t)
      then show ?thesis using assms(3) step by (cases t) (auto simp: captured_ok_def ledger_gets close_def [of None])
    qed (use assms(2,3) step in \<open>auto simp: captured_ok_def ledger_gets restart_get fresh_obligation_def split: if_splits\<close>)
  qed (use assms(3) in simp)
qed

lemma gate_clear [simp]: "gate_ok g \<Longrightarrow> gate_ok (clear_window i g)"
  unfolding gate_ok_def clear_window_def AList.delete_eq
  by (metis (no_types, lifting) distinct_map_filter le_trans length_filter_le)

lemma map_of_clear: "map_of (clear_window i g) j = (if j = i then None else map_of g j)"
  by (auto simp: clear_window_def delete_conv')

lemma length_update_mem: "i \<in> fst ` set g \<Longrightarrow> length (AList.update i v g) = length g"
  by (induction g) auto

lemma gate_open: "gate_ok g \<Longrightarrow> gate_ok (open_window i t opened g)"
  by (auto simp: gate_ok_def open_window_def keep_last_def drop_map [symmetric] distinct_update)

lemma gate_defer:
  assumes "gate_ok g" "shouldDefer w i t opened g = (dfr, g')"
  shows "gate_ok g'"
proof -
  have "gate_ok (AList.update i (t, opened) g)" if "map_of g i = Some e" for e
  proof -
    have "i \<in> fst ` set g" using that by (force dest: map_of_SomeD)
    then show ?thesis using assms(1) by (simp add: gate_ok_def length_update_mem distinct_update)
  qed
  then show ?thesis using assms gate_open [OF assms(1)] by (auto simp: shouldDefer_def split: if_splits option.splits)
qed

lemma sweep_desk_ok:
  assumes "desk_ok n d" "obligationSweep c v d = (out, d')"
  shows "gate_ok (settling d') \<and> distinct (map fst (awaiting d'))"
proof -
  have "keyed (open_map (led d))" using assms(1) by (simp add: desk_ok_def ledger_ok_def)
  with assms(2) show ?thesis
  proof (cases rule: sweep_cases)
    case (settle b g)
    then show ?thesis using assms(1) gate_defer by (auto simp: desk_ok_def)
  qed (use assms(1) in \<open>auto simp: desk_ok_def silent_close_def mark_def\<close>)
qed

lemma desk_ok_step: "desk_ok n d \<Longrightarrow> desk_ok n (desk_step c e d)"
proof -
  assume d: "desk_ok n d"
  then have l: "ledger_ok (led d)" "captured_ok (led d)" by (simp_all add: desk_ok_def)
  note move = desk_ledger [OF l(1), of c e]
  have "gate_ok (settling (desk_step c e d)) \<and> distinct (map fst (awaiting (desk_step c e d)))"
  proof (cases e)
    case (Tick v)
    then show ?thesis using sweep_desk_ok [OF d, of c v] by (metis desk_step.simps(8) prod.collapse)
  next
    case (NudgeSettled i ok)
    then show ?thesis using d
      by (auto simp: desk_ok_def finish_nudge_def Let_def AList.delete_eq distinct_map_filter split: option.splits)
  qed (use d in \<open>auto simp: desk_ok_def openObligationFromInbound_def closeObligationOnSubstantiveReply_def
      cancelInterruptedObligation_def turn_end_def flush_settled_def finish_resume_def reboot_def gate_ok_def [of "[]"]
      split: option.splits prod.splits\<close>)
  then show ?thesis using ledger_move_ok [OF move l(1)] captured_move [OF move l] d by (simp add: desk_ok_def)
qed

interpretation sweeping: event_system "desk_step c" "desk_ok n" for c n
  by unfold_locales (rule desk_ok_step)

lemma desk_ok_run: "desk_ok n (run (desk_step c) (new_desk n) es)"
  by (rule sweeping.invar_run [OF desk_ok_new])

section \<open>An obligation leaves for a reason\<close>

fun nudges :: "sweep_config \<Rightarrow> string \<Rightarrow> desk_event \<Rightarrow> desk \<Rightarrow> bool" where
  "nudges c i (Tick v) d = (case fst (obligationSweep c v d) of Nudged b \<Rightarrow> originTurnId b = i | _ \<Rightarrow> False)"
| "nudges c i _ d = False"

text \<open>
  A row of the history that shows an obligation answered: in its chat and its topic, or in a topic where the router
  is on record as having sent an answer meant for its topic, within the window of that record. The history counts in
  seconds, so its times are good to 999 milliseconds.
\<close>

definition own_answer :: "sweep_config \<Rightarrow> Obligation \<Rightarrow> sent_row \<Rightarrow> bool" where
  "own_answer c b r \<longleftrightarrow> in_scope (own_scope b) (r_thread r) \<and>
     (openedAt b \<le> 1000 * r_ts r + 999 \<or> (case lastRepresentedAt b of None \<Rightarrow> False | Some t \<Rightarrow> t \<le> 1000 * r_ts r + 999))
     \<and> (guardMinChars c \<le> r_chars r \<or> DEFAULT_MIN_CHARS \<le> r_chars r)"

definition routed_answer :: "sweep_config \<Rightarrow> Obligation \<Rightarrow> sent_row \<Rightarrow> route_override \<Rightarrow> bool" where
  "routed_answer c b r e \<longleftrightarrow> r_thread r = routedThreadId e \<and> DEFAULT_MIN_CHARS \<le> r_chars r
     \<and> openedAt b \<le> 1000 * r_ts r + 999 \<and> openedAt b \<le> atMs e
     \<and> atMs e \<le> 1000 * r_ts r + 999 \<and> 1000 * r_ts r \<le> atMs e + rerouteWindowMs c + 999"

definition answer_row :: "sweep_config \<Rightarrow> overrides \<Rightarrow> Obligation \<Rightarrow> sent_row \<Rightarrow> bool" where
  "answer_row c os b r \<longleftrightarrow> r_chat r = Obligation.chatId b \<and> 1 \<le> r_chars r
     \<and> (own_answer c b r \<or> list_ex (routed_answer c b r) (overrides_for (Obligation.chatId b) (Obligation.threadId b) os))"

fun exit_reason :: "sweep_config \<Rightarrow> nat \<Rightarrow> string \<Rightarrow> desk_event \<Rightarrow> desk \<Rightarrow> bool" where
  "exit_reason c nudged i (Replied echoed live routedOrigin) d \<longleftrightarrow>
     echoed = Some i \<or> echoed = None \<and> (routedOrigin = Some i \<or> routedOrigin = None \<and> live = Some i)"
| "exit_reason c nudged i (Interrupted turn) d \<longleftrightarrow> turn = Some i"
| "exit_reason c nudged i (TurnEnd j final replied t) d \<longleftrightarrow> j = i \<and> (final \<or> replied)"
| "exit_reason c nudged i (FlushSettled j delivered t) d \<longleftrightarrow> j = i \<and> delivered"
| "exit_reason c nudged i (ProseSettled j) d \<longleftrightarrow> j = i"
| "exit_reason c nudged i (ResumeSettled j delivered) d \<longleftrightarrow> j = i \<and> delivered \<and> i \<in> set (resuming d)"
| "exit_reason c nudged i (NudgeSettled j ok) d \<longleftrightarrow>
     j = i \<and> i \<in> fst ` set (awaiting d) \<and> (ok \<or> escalateMax c \<le> nudged)"
| "exit_reason c nudged i (Tick v) d \<longleftrightarrow> historyEnabled c \<and> s_historyReadable v \<and> \<not> s_turnInFlight v \<and>
     (case getObligation (led d) i of None \<Rightarrow> False | Some b \<Rightarrow> list_ex (answer_row c (routes d) b) (sent d))"
| "exit_reason c nudged i _ d \<longleftrightarrow> False"

lemma div_seconds: "(t :: int) div 1000 \<le> s \<Longrightarrow> t \<le> 1000 * s + 999"
  using mult_div_mod_eq [of 1000 t] pos_mod_bound [of 1000 t] by linarith

lemma ceil_seconds_le: "s \<le> ceil_seconds t \<Longrightarrow> 1000 * s \<le> t + 999"
  using mult_div_mod_eq [of 1000 "- t"] pos_mod_bound [of 1000 "- t"] unfolding ceil_seconds_def by linarith

lemma routed_loop_mem: "e \<in> set (routed_loop nb acc es) \<Longrightarrow> e \<in> set acc \<or> e \<in> set es \<and> nb \<le> atMs e"
  by (induction nb acc es rule: routed_loop.induct) (auto split: if_splits)

lemma answered_row:
  assumes "answered c v d b"
  shows "historyEnabled c \<and> s_historyReadable v \<and> list_ex (answer_row c (routes d) b) (sent d)"
proof -
  consider (own) since where "historyEnabled c"
      "hasOutboundDeliveredSince (readable v d) (Obligation.chatId b) since (own_scope b) (guardMinChars c) None
       \<or> hasOutboundDeliveredSince (readable v d) (Obligation.chatId b) since (own_scope b) DEFAULT_MIN_CHARS None"
      "since = openedAt b \<or> lastRepresentedAt b = Some since"
    | (route) nb e where "historyEnabled c" "openedAt b \<le> nb"
      "e \<in> set (routedOverridesSince (Obligation.chatId b) (Obligation.threadId b) nb (routes d))"
      "rerouted_answer (rerouteWindowMs c) (readable v d) b e"
  proof -
    have le: "openedAt b \<le> max (openedAt b) x" for x by simp
    show thesis using assms that(1) that(2) [OF _ le] unfolding answered_def shouldSuppressRepresent_def answeredSinceOpen_def
      by (auto simp: list_ex_iff simp del: max.cobounded1 split: if_splits option.splits)
  qed
  then show ?thesis
  proof cases
    case own
    then obtain r where r: "r \<in> set (readable v d)" "r_chat r = Obligation.chatId b" "since div 1000 \<le> r_ts r"
        "1 \<le> r_chars r" "guardMinChars c \<le> r_chars r \<or> DEFAULT_MIN_CHARS \<le> r_chars r" "in_scope (own_scope b) (r_thread r)"
      by (auto simp: hasOutboundDeliveredSince_def delivered_row_def list_ex_iff)
    have "own_answer c b r" using own(3) div_seconds [OF r(3)] r(5,6) by (auto simp: own_answer_def)
    then show ?thesis using r own(1) by (auto simp: readable_def answer_row_def list_ex_iff split: if_splits)
  next
    case route
    have e: "e \<in> set (overrides_for (Obligation.chatId b) (Obligation.threadId b) (routes d))" "openedAt b \<le> atMs e"
      using route(2,3) by (auto simp: routedOverridesSince_def dest: routed_loop_mem)
    obtain r where r: "r \<in> set (readable v d)" "r_chat r = Obligation.chatId b" "max (atMs e) (openedAt b) div 1000 \<le> r_ts r"
        "1 \<le> r_chars r" "DEFAULT_MIN_CHARS \<le> r_chars r" "r_ts r \<le> ceil_seconds (atMs e + rerouteWindowMs c)"
        "in_scope (routed_scope e) (r_thread r)"
      using route(4) by (auto simp: rerouted_answer_def hasOutboundDeliveredSince_def delivered_row_def list_ex_iff)
    have "r_thread r = routedThreadId e" using r(7) by (cases "routedThreadId e") (auto simp: routed_scope_def)
    then have "routed_answer c b r e"
      using div_seconds [OF r(3)] ceil_seconds_le [OF r(6)] r(5) e(2) by (auto simp: routed_answer_def)
    then show ?thesis using r e(1) route(1) by (auto simp: readable_def answer_row_def list_ex_iff split: if_splits)
  qed
qed

lemma cancel_fields [simp]:
  "led (cancelInterruptedObligation turn d) = (case turn of None \<Rightarrow> led d | Some i \<Rightarrow> snd (close (Some i) (led d)))"
  "awaiting (cancelInterruptedObligation turn d) = awaiting d"
  "resuming (cancelInterruptedObligation turn d) = resuming d"
  by (auto simp: cancelInterruptedObligation_def split: option.splits prod.splits)

lemma isOpen_close: "isOpen (snd (close (Some j) l)) i \<longleftrightarrow> isOpen l i \<and> i \<noteq> j"
  by (simp add: isOpen_get get_close)

lemma sweep_exit:
  assumes "keyed (open_map (led d))" "isOpen (led d) i" "\<not> isOpen (led (snd (obligationSweep c v d))) i"
  shows "\<exists>b. getObligation (led d) i = Some b \<and> answered c v d b \<and> \<not> s_turnInFlight v"
proof -
  obtain out d' where o: "obligationSweep c v d = (out, d')" by (cases "obligationSweep c v d")
  have idle: "\<not> s_turnInFlight v" using assms(2,3) by (auto simp: obligationSweep_def split: if_splits)
  have closed: "\<not> isOpen (led d') i" using assms(3) o by simp
  show ?thesis using o assms(1)
  proof (cases rule: sweep_cases)
    case (silent b)
    then have "i = originTurnId b" using closed assms(2) isOpen_close by (auto simp: silent_close_def)
    then show ?thesis using silent idle by auto
  qed (use assms(2) closed in \<open>auto simp: isOpen_get mark_def ledger_gets split: if_splits\<close>)
qed

text \<open>How often an obligation has been nudged bounds the attempts on record and under way.\<close>

definition nudged_at_most :: "nat \<Rightarrow> string \<Rightarrow> desk \<Rightarrow> bool" where
  "nudged_at_most k i d \<longleftrightarrow> (\<forall>a. map_of (awaiting d) i = Some a \<longrightarrow> a \<le> k)
     \<and> (\<forall>b. getObligation (led d) i = Some b \<longrightarrow> attempts b \<le> k)"

lemma attempts_updates [simp]:
  "attempts (b\<lparr>lastTurnEndedAt := x\<rparr>) = attempts b" "attempts (b\<lparr>capturedDelivery := y\<rparr>) = attempts b"
  "attempts (b\<lparr>representCount := z, lastRepresentedAt := w\<rparr>) = attempts b"
  "attempts (b\<lparr>escalateAttempts := Some m\<rparr>) = m" "attempts (fresh_obligation inp) = 0"
  by (simp_all add: attempts_def fresh_obligation_def)

lemma sweep_nudged:
  assumes "keyed (open_map (led d))" "nudged_at_most k i d"
  shows "nudged_at_most (k + (if nudges c i (Tick v) d then 1 else 0)) i (snd (obligationSweep c v d))"
proof -
  obtain out d' where o: "obligationSweep c v d = (out, d')" by (cases "obligationSweep c v d")
  then have "nudged_at_most (k + (if nudges c i (Tick v) d then 1 else 0)) i d'" using assms(1)
  proof (cases rule: sweep_cases)
    case (nudged b)
    then show ?thesis using assms(2) o by (auto simp: nudged_at_most_def ledger_gets le_SucI)
  qed (use assms(2) in \<open>auto simp: nudged_at_most_def silent_close_def mark_def ledger_gets split: if_splits\<close>)
  then show ?thesis by (simp add: o)
qed

lemma map_of_delete: "map_of (AList.delete i al) j = (if j = i then None else map_of al j)"
  by (auto simp: delete_conv')

lemma step_nudged:
  assumes "desk_ok n d" "nudged_at_most k i d"
  shows "nudged_at_most (k + (if nudges c i e d then 1 else 0)) i (desk_step c e d)"
proof (cases e)
  case (Tick v)
  then show ?thesis using sweep_nudged assms by (simp add: desk_ok_def ledger_ok_def)
next
  case Reboot
  then show ?thesis using assms by (simp add: nudged_at_most_def reboot_def restart_get desk_ok_def)
next
  case (Interrupted turn)
  then show ?thesis using assms(2) by (cases turn) (auto simp: nudged_at_most_def ledger_gets)
qed (use assms(2) in \<open>auto simp: nudged_at_most_def openObligationFromInbound_def closeObligationOnSubstantiveReply_def
    turn_end_def flush_settled_def finish_nudge_def finish_resume_def ledger_gets map_of_delete Let_def
    split: option.splits if_splits\<close>)

lemma run_nudged:
  "nudged_at_most (win_count (desk_step c) (nudges c i) (new_desk n) es) i (run (desk_step c) (new_desk n) es)"
proof (induction es rule: rev_induct)
  case Nil
  then show ?case by (simp add: nudged_at_most_def new_desk_def new_ledger_def getObligation_def)
next
  case (snoc e es)
  then show ?case using step_nudged [OF desk_ok_run snoc.IH, of c e] by (simp add: run_append win_count_append)
qed

lemma get_reboot: "ledger_ok (led d) \<Longrightarrow> isOpen (led (reboot d)) i = isOpen (led d) i"
  by (simp add: reboot_def isOpen_get restart_get)

lemma leaving_step:
  assumes "desk_ok n d" "nudged_at_most k i d" "isOpen (led d) i" "\<not> isOpen (led (desk_step c e d)) i"
  shows "exit_reason c k i e d"
proof (cases e)
  case (Tick v)
  then obtain b where "getObligation (led d) i = Some b" "answered c v d b" "\<not> s_turnInFlight v"
    using sweep_exit [of d i c v] assms by (auto simp: desk_ok_def ledger_ok_def)
  then show ?thesis using Tick answered_row [of c v d b] by simp
next
  case (NudgeSettled j ok)
  then show ?thesis using assms(2-4)
    by (auto simp: finish_nudge_def Let_def isOpen_close nudged_at_most_def map_of_eq_None_iff [symmetric]
        split: option.splits if_splits dest: weak_map_of_SomeI map_of_SomeD intro: image_eqI [rotated])
next
  case Reboot
  then show ?thesis using assms get_reboot by (auto simp: desk_ok_def)
qed (use assms(3,4) in \<open>auto simp: openObligationFromInbound_def closeObligationOnSubstantiveReply_def reply_target_def
    resolveCloseTarget_def turn_end_def closesAtTurnEnd_def flush_settled_def finish_resume_def isOpen_get ledger_gets
    split: option.splits if_splits\<close>)


definition demo_config :: sweep_config where
  "demo_config = \<lparr>escalateGraceMs = 45000, backgroundWorkGraceMs = 1200000, representGrace = 120000, guardMinChars = 1,
     escalateMax = 3, settleMs = 8500, rerouteWindowMs = 18500, historyEnabled = True\<rparr>"

definition demo_inbound :: InboundMessage where
  "demo_inbound = \<lparr>InboundMessage.chatId = ''7'', threadId = None, messageId = 5, user = ''u'', userId = 1, ts = 0, msg_text = ''hi'',
     imagePath = None, attachment = None, meta = []\<rparr>"

definition demo_tick :: "int \<Rightarrow> desk_event" where
  "demo_tick t = Tick \<lparr>s_now = t, s_turnInFlight = False, s_backgroundWork = False, s_sessionBusy = False,
     s_bufferDepth = 0, s_bridgeAlive = True, s_historyReadable = True\<rparr>"

definition demo_run :: "desk_event list" where
  "demo_run = [Received demo_inbound False False ''hi'' 1000900, Recorded \<lparr>r_chat = ''7'', r_thread = None, r_ts = 1000, r_chars = 2\<rparr>]"

lemma demo_before: "isOpen (led (run (desk_step demo_config) (new_desk 2) demo_run)) ''7:_#5''"
  by code_simp

lemma demo_after: "\<not> isOpen (led (desk_step demo_config (demo_tick 1005000) (run (desk_step demo_config) (new_desk 2) demo_run))) ''7:_#5''"
  by code_simp


text \<open>
  The reply of this example was sent before the message was opened, in the same second: the history counts in
  seconds and the cutoff is rounded down, so it closes the obligation at its first sweep.
\<close>

lemma same_second_reply_closes:
  "fst (obligationSweep demo_config \<lparr>s_now = 1005000, s_turnInFlight = False, s_backgroundWork = False, s_sessionBusy = False,
       s_bufferDepth = 0, s_bridgeAlive = True, s_historyReadable = True\<rparr> (run (desk_step demo_config) (new_desk 2) demo_run))
     = ClosedSilently ''7:_#5''"
  by code_simp

section \<open>The ladder never storms\<close>

fun presents :: "sweep_config \<Rightarrow> string \<Rightarrow> desk_event \<Rightarrow> desk \<Rightarrow> bool" where
  "presents c i (Tick v) d = (case fst (obligationSweep c v d) of
      Presented b \<Rightarrow> originTurnId b = i | Resumed b \<Rightarrow> originTurnId b = i | _ \<Rightarrow> False)"
| "presents c i _ d = False"

definition opens :: "sweep_config \<Rightarrow> string \<Rightarrow> desk_event \<Rightarrow> desk \<Rightarrow> bool" where
  "opens c i e d \<longleftrightarrow> \<not> isOpen (led d) i \<and> isOpen (led (desk_step c e d)) i"

fun reboots :: "desk_event \<Rightarrow> bool" where
  "reboots Reboot = True"
| "reboots _ = False"

text \<open>What is left of the ladder: re-presentations not yet spent, nudges not yet spent.\<close>

definition presents_left :: "nat \<Rightarrow> string \<Rightarrow> desk \<Rightarrow> nat" where
  "presents_left n i d = (case getObligation (led d) i of None \<Rightarrow> 0 | Some b \<Rightarrow> n - representCount b)"

definition nudges_left :: "nat \<Rightarrow> string \<Rightarrow> desk \<Rightarrow> nat" where
  "nudges_left m i d = (case getObligation (led d) i of None \<Rightarrow> 0
     | Some b \<Rightarrow> (m - attempts b) + (if m \<le> attempts b \<and> i \<notin> fst ` set (awaiting d) then 1 else 0))"

text \<open>While a nudge is under way, the obligation has no more attempts on record than the number of that nudge.\<close>

definition under_way_ok :: "string \<Rightarrow> desk \<Rightarrow> bool" where
  "under_way_ok i d \<longleftrightarrow> (\<forall>a b. map_of (awaiting d) i = Some a \<longrightarrow> getObligation (led d) i = Some b \<longrightarrow> attempts b \<le> a)"

lemma fresh_counts [simp]: "representCount (fresh_obligation inp) = 0"
  by (simp add: fresh_obligation_def)

lemma sweep_presents:
  assumes "keyed (open_map (led d))" "maxRepresents (led d) = n"
  shows "(if presents c i (Tick v) d then 1 else 0) + presents_left n i (snd (obligationSweep c v d)) \<le> presents_left n i d"
proof -
  obtain out d' where o: "obligationSweep c v d = (out, d')" by (cases "obligationSweep c v d")
  then have "(if presents c i (Tick v) d then 1 else 0) + presents_left n i d' \<le> presents_left n i d" using assms(1)
    by (cases rule: sweep_cases)
       (use o assms(2) in \<open>auto simp: presents_left_def silent_close_def mark_def ledger_gets split: option.splits\<close>)
  then show ?thesis by (simp add: o)
qed

lemma step_presents:
  assumes "desk_ok n d"
  shows "(if presents c i e d then 1 else 0) + presents_left n i (desk_step c e d)
    \<le> presents_left n i d + n * (if opens c i e d then 1 else 0)"
proof (cases e)
  case (Tick v)
  then show ?thesis using sweep_presents [of d n c i v] assms by (simp add: desk_ok_def ledger_ok_def)
next
  case (Received m steer intr eff t)
  then show ?thesis
    by (auto simp: presents_left_def opens_def isOpen_get openObligationFromInbound_def ledger_gets split: option.splits if_splits)
next
  case Reboot
  then show ?thesis using assms by (simp add: presents_left_def reboot_def restart_get desk_ok_def)
qed (auto simp: presents_left_def closeObligationOnSubstantiveReply_def turn_end_def flush_settled_def finish_nudge_def
    finish_resume_def ledger_gets Let_def split: option.splits if_splits)

interpretation presenting: budget "desk_step c" "desk_ok n" "\<lambda>e d. if presents c i e d then 1 else 0"
    "\<lambda>e d. n * (if opens c i e d then 1 else 0)" "presents_left n i" for c n i
  by unfold_locales (rule step_presents)

lemma sweep_nudges:
  assumes "keyed (open_map (led d))" "under_way_ok i d"
  shows "(if nudges c i (Tick v) d then 1 else 0) + nudges_left m i (snd (obligationSweep c v d)) \<le> nudges_left m i d
    \<and> under_way_ok i (snd (obligationSweep c v d))"
proof -
  obtain out d' where o: "obligationSweep c v d = (out, d')" by (cases "obligationSweep c v d")
  then have "(if nudges c i (Tick v) d then 1 else 0) + nudges_left m i d' \<le> nudges_left m i d \<and> under_way_ok i d'" using assms(1)
  proof (cases rule: sweep_cases)
    case (nudged b)
    then show ?thesis using o assms(2) by (auto simp: nudges_left_def under_way_ok_def ledger_gets split: option.splits)
  qed (use o assms(2) in \<open>auto simp: nudges_left_def under_way_ok_def silent_close_def mark_def ledger_gets split: option.splits\<close>)
  then show ?thesis by (simp add: o)
qed

lemma step_under_way:
  assumes "desk_ok n d" "under_way_ok i d"
  shows "under_way_ok i (desk_step c e d)"
proof (cases e)
  case (Tick v)
  then show ?thesis using sweep_nudges assms by (simp add: desk_ok_def ledger_ok_def)
next
  case (Interrupted turn)
  then show ?thesis using assms(2) by (cases turn) (auto simp: under_way_ok_def ledger_gets)
next
  case (NudgeSettled j ok)
  then show ?thesis using assms(2)
    by (auto simp: under_way_ok_def finish_nudge_def Let_def map_of_delete ledger_gets split: option.splits if_splits)
qed (use assms(2) in \<open>auto simp: under_way_ok_def openObligationFromInbound_def closeObligationOnSubstantiveReply_def turn_end_def
    flush_settled_def finish_resume_def reboot_def ledger_gets split: option.splits if_splits\<close>)

lemma settled_nudges:
  assumes "under_way_ok i d"
  shows "nudges_left (escalateMax c) i (finish_nudge c j ok d) \<le> nudges_left (escalateMax c) i d"
proof (cases "map_of (awaiting d) j")
  case (Some a)
  show ?thesis
  proof (cases "i = j")
    case True
    show ?thesis
    proof (cases "ok \<or> escalateMax c \<le> a")
      case True
      then show ?thesis using \<open>i = j\<close> Some by (auto simp: finish_nudge_def nudges_left_def ledger_gets Let_def)
    next
      case False
      have "attempts b \<le> a" if "getObligation (led d) i = Some b" for b
        using assms Some that \<open>i = j\<close> by (simp add: under_way_ok_def)
      then have "\<not> escalateMax c \<le> attempts b" if "getObligation (led d) i = Some b" for b
        using False that by (metis dual_order.trans)
      then show ?thesis using False \<open>i = j\<close> Some
        by (cases "getObligation (led d) i") (simp_all add: finish_nudge_def nudges_left_def Let_def)
    qed
  next
    case False
    then have "i \<in> fst ` set (AList.delete j (awaiting d)) \<longleftrightarrow> i \<in> fst ` set (awaiting d)"
      by (force simp: AList.delete_eq)
    then show ?thesis using False Some
      by (auto simp: finish_nudge_def nudges_left_def ledger_gets Let_def split: option.splits)
  qed
qed (simp add: finish_nudge_def)

lemma step_nudges:
  assumes "desk_ok n d" "under_way_ok i d" "0 < escalateMax c"
  shows "(if nudges c i e d then 1 else 0) + nudges_left (escalateMax c) i (desk_step c e d)
    \<le> nudges_left (escalateMax c) i d + (escalateMax c * (if opens c i e d then 1 else 0) + (if reboots e then 1 else 0))"
proof (cases e)
  case (Tick v)
  then show ?thesis using sweep_nudges [of d i c v "escalateMax c"] assms by (simp add: desk_ok_def ledger_ok_def)
next
  case (Received m steer intr eff t)
  then show ?thesis using assms(3)
    by (auto simp: nudges_left_def opens_def isOpen_get openObligationFromInbound_def ledger_gets split: option.splits if_splits)
next
  case Reboot
  then show ?thesis using assms by (auto simp: nudges_left_def reboot_def restart_get desk_ok_def split: option.splits)
next
  case (Interrupted turn)
  then show ?thesis by (cases turn) (auto simp: nudges_left_def ledger_gets split: option.splits)
next
  case (NudgeSettled j ok)
  then show ?thesis using settled_nudges [OF assms(2), of c j ok] by simp
qed (auto simp: nudges_left_def closeObligationOnSubstantiveReply_def turn_end_def flush_settled_def
    finish_resume_def ledger_gets split: option.splits if_splits)

text \<open>With no nudge ever allowed the bound is empty, so the budget is stated for a positive maximum.\<close>

definition nudge_cost :: "sweep_config \<Rightarrow> string \<Rightarrow> desk_event \<Rightarrow> desk \<Rightarrow> nat" where
  "nudge_cost c i e d = (if 0 < escalateMax c \<and> nudges c i e d then 1 else 0)"

definition nudge_credit :: "sweep_config \<Rightarrow> string \<Rightarrow> desk \<Rightarrow> nat" where
  "nudge_credit c i d = (if 0 < escalateMax c then nudges_left (escalateMax c) i d else 0)"

lemma nudge_covered:
  assumes "desk_ok n d \<and> under_way_ok i d"
  shows "nudge_cost c i e d + nudge_credit c i (desk_step c e d) \<le> nudge_credit c i d
    + (escalateMax c * (if opens c i e d then 1 else 0) + (if reboots e then 1 else 0))"
  using assms step_nudges [of n d i c e] by (cases "0 < escalateMax c") (auto simp: nudge_cost_def nudge_credit_def)

interpretation nudging: budget "desk_step c" "\<lambda>d. desk_ok n d \<and> under_way_ok i d" "nudge_cost c i"
    "\<lambda>e d. escalateMax c * (if opens c i e d then 1 else 0) + (if reboots e then 1 else 0)" "nudge_credit c i" for c n i
  by unfold_locales (blast intro: desk_ok_step step_under_way, rule nudge_covered)

lemma total_reboots: "total step (\<lambda>e s. if reboots e then 1 else 0) s es = length (filter reboots es)"
  by (induction es arbitrary: s) simp_all



section \<open>The ladder ends\<close>

text \<open>
  What is under way settles, each nudge with one outcome and each resume with another: \<open>withDeadline\<close> bounds every
  send. A round is a sweep after which everything it started has settled.
\<close>

definition settle_all :: "sweep_config \<Rightarrow> bool \<Rightarrow> bool \<Rightarrow> desk \<Rightarrow> desk" where
  "settle_all c ok got d =
     run (desk_step c) d (map (\<lambda>i. NudgeSettled i ok) (map fst (awaiting d)) @ map (\<lambda>i. ResumeSettled i got) (resuming d))"

fun sweep_round :: "sweep_config \<Rightarrow> surroundings \<times> bool \<times> bool \<Rightarrow> desk \<Rightarrow> desk" where
  "sweep_round c (v, ok, got) d = settle_all c ok got (desk_step c (Tick v) d)"

definition calm :: "surroundings \<Rightarrow> bool" where
  "calm v \<longleftrightarrow> \<not> s_turnInFlight v \<and> \<not> s_backgroundWork v \<and> \<not> s_sessionBusy v \<and> s_bufferDepth v = 0 \<and> s_bridgeAlive v"

definition pace :: "sweep_config \<Rightarrow> int" where
  "pace c = max (escalateGraceMs c) (max (representGrace c) (max (settleMs c) 0))"

fun calm_rounds :: "sweep_config \<Rightarrow> int \<Rightarrow> (surroundings \<times> bool \<times> bool) list \<Rightarrow> bool" where
  "calm_rounds c t [] = True"
| "calm_rounds c t ((v, ok, got) # rs) \<longleftrightarrow> calm v \<and> t + pace c \<le> s_now v \<and> calm_rounds c (s_now v) rs"

fun not_after :: "int \<Rightarrow> desk_event \<Rightarrow> bool" where
  "not_after t (TurnEnd i final replied s) \<longleftrightarrow> s \<le> t"
| "not_after t (FlushSettled i delivered s) \<longleftrightarrow> s \<le> t"
| "not_after t (Tick v) \<longleftrightarrow> s_now v \<le> t"
| "not_after t _ \<longleftrightarrow> True"

definition stamps_ok :: "int \<Rightarrow> Obligation \<Rightarrow> bool" where
  "stamps_ok t b \<longleftrightarrow> (\<forall>e. lastTurnEndedAt b = Some e \<longrightarrow> e \<le> t) \<and> (\<forall>r. lastRepresentedAt b = Some r \<longrightarrow> r \<le> t)"

definition gate_before :: "int \<Rightarrow> settle_gate \<Rightarrow> bool" where
  "gate_before t g \<longleftrightarrow> (\<forall>(i, f, opened) \<in> set g. f \<le> t)"

definition stamped :: "int \<Rightarrow> desk \<Rightarrow> bool" where
  "stamped t d \<longleftrightarrow> (\<forall>i b. getObligation (led d) i = Some b \<longrightarrow> stamps_ok t b) \<and> gate_before t (settling d)"

lemma stamps_updates [simp]:
  "stamps_ok t (b\<lparr>lastTurnEndedAt := Some s\<rparr>) \<longleftrightarrow> s \<le> t \<and> (\<forall>r. lastRepresentedAt b = Some r \<longrightarrow> r \<le> t)"
  "stamps_ok t (b\<lparr>capturedDelivery := y\<rparr>) = stamps_ok t b"
  "stamps_ok t (b\<lparr>representCount := z, lastRepresentedAt := Some s\<rparr>) \<longleftrightarrow> s \<le> t \<and> (\<forall>e. lastTurnEndedAt b = Some e \<longrightarrow> e \<le> t)"
  "stamps_ok t (b\<lparr>escalateAttempts := m\<rparr>) = stamps_ok t b" "stamps_ok t (fresh_obligation inp)"
  by (auto simp: stamps_ok_def fresh_obligation_def)

lemma gate_before_clear [simp]: "gate_before t g \<Longrightarrow> gate_before t (clear_window i g)"
  by (auto simp: gate_before_def clear_window_def AList.delete_eq)

lemma gate_before_update: "gate_before t g \<Longrightarrow> s \<le> t \<Longrightarrow> gate_before t (AList.update i (s, opened) g)"
  by (auto simp: gate_before_def dest!: AList_update_memD)

lemma gate_before_defer:
  assumes "gate_before t g" "s \<le> t" "shouldDefer w i s opened g = (dfr, g')"
  shows "gate_before t g'"
proof -
  have "gate_before t (open_window i s opened g)"
    using gate_before_update [OF assms(1,2), of i opened] in_set_dropD
    by (fastforce simp: gate_before_def open_window_def keep_last_def)
  then show ?thesis using assms gate_before_update [OF assms(1,2)] by (auto simp: shouldDefer_def split: if_splits option.splits)
qed

lemma sweep_stamped:
  assumes "keyed (open_map (led d))" "stamped t d" "s_now v \<le> t"
  shows "stamped t (snd (obligationSweep c v d))"
proof -
  obtain out d' where o: "obligationSweep c v d = (out, d')" by (cases "obligationSweep c v d")
  then have "stamped t d'" using assms(1)
  proof (cases rule: sweep_cases)
    case (settle b g)
    then show ?thesis using assms(2,3) gate_before_defer by (auto simp: stamped_def)
  qed (use assms(2,3) in \<open>auto simp: stamped_def stamps_ok_def silent_close_def mark_def ledger_gets split: if_splits\<close>)
  then show ?thesis by (simp add: o)
qed

lemma step_stamped:
  assumes "desk_ok n d" "stamped t d" "not_after t e"
  shows "stamped t (desk_step c e d)"
proof (cases e)
  case (Tick v)
  then show ?thesis using sweep_stamped assms by (simp add: desk_ok_def ledger_ok_def)
next
  case (Interrupted turn)
  then show ?thesis using assms(2)
    by (cases turn) (auto simp: stamped_def cancelInterruptedObligation_def ledger_gets split: prod.splits if_splits
        dest!: arg_cong [of _ _ snd])
next
  case Reboot
  then show ?thesis using assms by (simp add: stamped_def reboot_def restart_get desk_ok_def gate_before_def)
qed (use assms(2,3) in \<open>auto simp: stamped_def stamps_ok_def openObligationFromInbound_def closeObligationOnSubstantiveReply_def
    turn_end_def flush_settled_def finish_nudge_def finish_resume_def ledger_gets Let_def fresh_obligation_def
    split: option.splits if_splits\<close>)

lemma run_stamped:
  "desk_ok n d \<Longrightarrow> stamped t d \<Longrightarrow> list_all (not_after t) es \<Longrightarrow> stamped t (run (desk_step c) d es)"
proof (induction es arbitrary: d)
  case (Cons e es)
  then show ?case using step_stamped [of n d t e c] desk_ok_step [of n d c e] by simp
qed simp

lemma not_after_mono: "not_after t e \<Longrightarrow> t \<le> u \<Longrightarrow> not_after u e"
  by (cases e) auto

lemma stamped_mono: "stamped t d \<Longrightarrow> t \<le> u \<Longrightarrow> stamped u d"
  unfolding stamped_def stamps_ok_def gate_before_def by fastforce

text \<open>Settling empties both sets, keeps the invariants and reads no clock.\<close>

lemma awaiting_finish [simp]:
  "awaiting (finish_nudge c i ok d) = AList.delete i (awaiting d)" "resuming (finish_nudge c i ok d) = resuming d"
  "awaiting (finish_resume i got d) = awaiting d" "resuming (finish_resume i got d) = removeAll i (resuming d)"
proof -
  show "awaiting (finish_nudge c i ok d) = AList.delete i (awaiting d)"
  proof (cases "map_of (awaiting d) i")
    case None
    then have "i \<notin> fst ` set (awaiting d)" by (simp add: map_of_eq_None_iff)
    then show ?thesis using None by (simp add: finish_nudge_def)
  qed (simp add: finish_nudge_def)
qed (auto simp: finish_nudge_def finish_resume_def split: option.splits)

lemma settle_nudges:
  "awaiting (run (desk_step c) d (map (\<lambda>i. NudgeSettled i ok) is)) = filter (\<lambda>e. fst e \<notin> set is) (awaiting d)
   \<and> resuming (run (desk_step c) d (map (\<lambda>i. NudgeSettled i ok) is)) = resuming d"
  by (induction "is" arbitrary: d) (auto simp: AList.delete_eq split_def intro!: filter_cong)

lemma settle_resumes:
  "awaiting (run (desk_step c) d (map (\<lambda>i. ResumeSettled i got) is)) = awaiting d
   \<and> resuming (run (desk_step c) d (map (\<lambda>i. ResumeSettled i got) is)) = filter (\<lambda>j. j \<notin> set is) (resuming d)"
  by (induction "is" arbitrary: d) (auto simp: removeAll_filter_not_eq intro!: filter_cong)

lemma settle_all_empty: "awaiting (settle_all c ok got d) = [] \<and> resuming (settle_all c ok got d) = []"
  unfolding settle_all_def run_append
  using settle_nudges [of c d ok "map fst (awaiting d)"]
    settle_resumes [of c "run (desk_step c) d (map (\<lambda>i. NudgeSettled i ok) (map fst (awaiting d)))" got "resuming d"]
  by (simp add: filter_empty_conv)

lemma settle_all_ok: "desk_ok n d \<Longrightarrow> desk_ok n (settle_all c ok got d)"
  unfolding settle_all_def by (rule sweeping.invar_run)

lemma settle_all_stamped: "desk_ok n d \<Longrightarrow> stamped t d \<Longrightarrow> stamped t (settle_all c ok got d)"
  unfolding settle_all_def by (rule run_stamped) (auto simp: list_all_iff)

text \<open>The load of the ledger: for each obligation, the rungs it can still take.\<close>

definition rung :: "sweep_config \<Rightarrow> nat \<Rightarrow> Obligation \<Rightarrow> nat" where
  "rung c n b = (n - representCount b) + max 1 (escalateMax c - attempts b)"

definition load :: "sweep_config \<Rightarrow> ledger \<Rightarrow> nat" where
  "load c l = sum_list (map (\<lambda>e. rung c (maxRepresents l) (snd e)) (open_map l))"

definition due :: "desk \<Rightarrow> bool" where
  "due d \<longleftrightarrow> (case oldest (led d) of None \<Rightarrow> False | Some b \<Rightarrow> firstAt (originTurnId b) (openedAt b) (settling d) \<noteq> None)"

definition toil :: "sweep_config \<Rightarrow> desk \<Rightarrow> nat" where
  "toil c d = 2 * load c (led d) + (if due d then 0 else 1)"

lemma load_close:
  assumes "keyed (open_map l)" "getObligation l i = Some b"
  shows "load c (snd (close (Some i) l)) + rung c (maxRepresents l) b = load c l"
  using AList_delete_sum [of "open_map l" i b "rung c (maxRepresents l)"] assms
  by (simp add: load_def close_def isOpen_def getObligation_def keyed_def)

lemma load_touch:
  assumes "getObligation l i = Some b"
  shows "load c (touch i f l) + rung c (maxRepresents l) b = load c l + rung c (maxRepresents l) (f b)"
  using AList_update_sum [of "open_map l" i b "rung c (maxRepresents l)" "f b"] assms
  by (simp add: load_def touch_def getObligation_def)

lemma load_close_le: "keyed (open_map l) \<Longrightarrow> load c (snd (close (Some i) l)) \<le> load c l"
  using load_close [of l i _ c] by (cases "getObligation l i") (auto simp: close_def isOpen_get intro: order.trans [OF le_add1])

lemma load_represented:
  assumes "getObligation l i = Some b" "representCount b < maxRepresents l"
  shows "Suc (load c (snd (markRepresented i t l))) = load c l"
  using load_touch [OF assms(1), of c "\<lambda>b. b\<lparr>representCount := Suc (representCount b), lastRepresentedAt := Some t\<rparr>"] assms(2)
  by (simp add: markRepresented_def Let_def rung_def)

text \<open>A nudge takes its rung, or leaves a last one that its settlement takes.\<close>

lemma load_attempt:
  assumes "getObligation l i = Some b"
  shows "load c (snd (markEscalateAttempt i l)) + (if escalateMax c \<le> Suc (attempts b) then 0 else 1) = load c l"
  using load_touch [OF assms, of c "\<lambda>b. b\<lparr>escalateAttempts := Some (Suc (attempts b))\<rparr>"]
  by (auto simp: markEscalateAttempt_def Let_def rung_def)

lemma calm_decide:
  assumes "calm v" "stamped t d" "t + pace c \<le> s_now v" "keyed (open_map (led d))"
  shows "decideAtIdle (sweep_opts c v) (led d) = (case oldest (led d) of None \<Rightarrow> NoAction
    | Some b \<Rightarrow> if maxRepresents (led d) \<le> representCount b then Escalate b else Represent b)"
proof (cases "sweep_opts c v")
  case (Some q)
  have q: "now q = s_now v" "graceMs q = escalateGraceMs c" "\<not> backgroundWorkActive q" "representGraceMs q = representGrace c"
    using Some assms(1) by (auto simp: sweep_opts_def background_active_def calm_def split: if_splits)
  have pace: "t + escalateGraceMs c \<le> s_now v" "t + representGrace c \<le> s_now v" using assms(3) by (auto simp: pace_def)
  have "eligible q b" if "b \<in> set (map snd (open_map (led d)))" for b
  proof -
    have "getObligation (led d) (originTurnId b) = Some b"
      using that assms(4) by (fastforce simp: keyed_def getObligation_def)
    then have "stamps_ok t b" using assms(2) by (auto simp: stamped_def)
    then show ?thesis using q pace
      by (auto simp: stamps_ok_def eligible_def representGraceStillProtecting_def Let_def split: option.splits)
  qed
  then have "filter (eligible q) (map snd (open_map (led d))) = filter (\<lambda>_. True) (map snd (open_map (led d)))"
    by (intro filter_cong) simp_all
  then have "oldestEligible q (led d) = oldest (led d)"
    unfolding oldestEligible_def oldest_def oldest_loop_head by simp
  then show ?thesis using Some by (simp add: decideAtIdle_def)
qed (simp add: decideAtIdle_def)

lemma map_of_keep_last:
  "distinct (map fst al) \<Longrightarrow> map_of al i = Some e \<Longrightarrow> 0 < n \<Longrightarrow> (length al \<le> n \<or> fst (last al) = i) \<Longrightarrow> map_of (keep_last n al) i = Some e"
proof (cases "length al \<le> n")
  case False
  assume a: "distinct (map fst al)" "map_of al i = Some e" "0 < n" "length al \<le> n \<or> fst (last al) = i"
  then have ne: "al \<noteq> []" "fst (last al) = i" using False by auto
  have last: "last al \<in> set (keep_last n al)"
  proof -
    have "length al - n < length al" using ne(1) a(3) by (cases al) auto
    then have "last (drop (length al - n) al) = last al" "drop (length al - n) al \<noteq> []" by simp_all
    then show ?thesis unfolding keep_last_def by (metis last_in_set)
  qed
  have "last al = (i, e)" using map_of_eq_Some_iff [OF a(1), of i "snd (last al)"] a(2) ne
    by (metis last_in_set option.inject prod.collapse)
  then show ?thesis using last map_of_eq_Some_iff [of "keep_last n al" i e] a(1) distinct_drop [of "map fst al"]
    by (simp add: keep_last_def drop_map)
qed (simp add: keep_last_def)

lemma settle_passed:
  assumes "shouldDefer w i s opened g = (True, g')" "gate_before t g" "t + max w 0 \<le> s"
  shows "firstAt i opened g = None"
proof (cases "map_of g i")
  case (Some e)
  then have "fst e \<le> t" using assms(2) map_of_SomeD [OF Some] by (cases e) (auto simp: gate_before_def)
  then show ?thesis using assms Some by (cases e) (auto simp: shouldDefer_def firstAt_def split: if_splits)
qed (simp add: firstAt_def)

lemma settle_opened:
  assumes "shouldDefer w i s opened g = (True, g')" "gate_ok g" "firstAt i opened g = None"
  shows "firstAt i opened g' \<noteq> None"
proof -
  have "g' = open_window i s opened g"
    using assms(1,3) by (auto simp: shouldDefer_def firstAt_def split: if_splits option.splits)
  moreover have "map_of (open_window i s opened g) i = Some (s, opened)"
    unfolding open_window_def
  proof (rule map_of_keep_last)
    show "length (AList.update i (s, opened) g) \<le> MAX_SETTLE_KEYS \<or> fst (last (AList.update i (s, opened) g)) = i"
      using assms(2) by (cases "i \<in> fst ` set g") (simp_all add: length_update_mem AList_update_new gate_ok_def)
  qed (use assms(2) in \<open>simp_all add: gate_ok_def distinct_update update_conv' MAX_SETTLE_KEYS_def\<close>)
  ultimately show ?thesis by (simp add: firstAt_def)
qed

text \<open>A calm sweep with something open always acts, and only a settle window that was not open yet makes it wait.\<close>

lemma calm_acts:
  assumes "calm v" "stamped t d" "t + pace c \<le> s_now v" "desk_ok n d" "awaiting d = []" "resuming d = []" "hasOpen (led d)"
    and o: "obligationSweep c v d = (out, d')"
  shows "out \<noteq> Quiet \<and> (\<forall>i. out = Settling i \<longrightarrow> \<not> due d \<and> due d')"
proof -
  have k: "keyed (open_map (led d))" using assms(4) by (simp add: desk_ok_def ledger_ok_def)
  obtain b where b: "oldest (led d) = Some b"
    using assms(7) oldest_None [of "led d"] by (cases "oldest (led d)") (auto simp: hasOpen_def)
  have get: "getObligation (led d) (originTurnId b) = Some b" using oldest_mem [OF k b] by (simp add: getObligation_def)
  have act: "(out, d') = (if n \<le> representCount b then escalate_branch c v b d else represent_branch c v b d)"
    using o b calm_decide [OF assms(1-3) k] assms(1,4,7) by (auto simp: obligationSweep_def calm_def desk_ok_def split: if_splits)
  show ?thesis
  proof (cases "n \<le> representCount b")
    case False
    have "capturedDelivery b = Some s \<Longrightarrow> chunks s \<noteq> []" for s
      using assms(4) get by (auto simp: desk_ok_def captured_ok_def)
    then show ?thesis using act False assms(1,6)
      by (auto simp: represent_branch_def silent_close_def dispatch_def calm_def split: if_splits option.splits)
  next
    case True
    define anchor where "anchor = (case firstAt (originTurnId b) (openedAt b) (settling d) of None \<Rightarrow> s_now v | Some f \<Rightarrow> f)"
    obtain dfr g where sd: "shouldDefer (settleMs c) (originTurnId b) (s_now v) (openedAt b) (settling d) = (dfr, g)"
      by (cases "shouldDefer (settleMs c) (originTurnId b) (s_now v) (openedAt b) (settling d)")
    show ?thesis
    proof (cases "answeredSinceOpen c (readable v d) (routes d) anchor b \<or> \<not> dfr")
      case True
      then show ?thesis using act \<open>n \<le> representCount b\<close> assms(1,5) sd
        by (auto simp: escalate_branch_def calm_def Let_def anchor_def silent_close_def driveEscalation_def
            split: if_splits prod.splits)
    next
      case False
      then have "(out, d') = (Settling (originTurnId b), d\<lparr>settling := g\<rparr>)"
        using act \<open>n \<le> representCount b\<close> assms(1) sd by (simp add: escalate_branch_def calm_def Let_def anchor_def)
      moreover have "firstAt (originTurnId b) (openedAt b) (settling d) = None"
        using sd False assms(2,3) settle_passed [of "settleMs c" _ "s_now v" _ "settling d" g t]
        by (auto simp: stamped_def pace_def)
      ultimately show ?thesis using b settle_opened [of "settleMs c" _ "s_now v" _ "settling d" g] sd False assms(4)
        by (auto simp: due_def desk_ok_def)
    qed
  qed
qed

lemma settle_nothing: "awaiting d = [] \<Longrightarrow> resuming d = [] \<Longrightarrow> settle_all c ok got d = d"
  by (simp add: settle_all_def)

lemma led_settle_resume:
  "awaiting d = [] \<Longrightarrow> resuming d = [i] \<Longrightarrow>
    led (settle_all c ok got d) = (if got then snd (close (Some i) (led d)) else led d)"
  by (simp add: settle_all_def finish_resume_def)

lemma led_settle_nudge:
  "awaiting d = [(i, a)] \<Longrightarrow> resuming d = [] \<Longrightarrow>
    led (settle_all c ok got d) = (if ok \<or> escalateMax c \<le> a then snd (close (Some i) (led d)) else led d)"
  by (simp add: settle_all_def finish_nudge_def Let_def)

lemma rung_pos: "0 < rung c n b"
  by (auto simp: rung_def max_def)

lemma maxRepresents_ops [simp]:
  "maxRepresents (snd (markRepresented i t l)) = maxRepresents l" "maxRepresents (snd (markEscalateAttempt i l)) = maxRepresents l"
  using maxRepresents_step [of "Represented i t" l] maxRepresents_step [of "EscalateAttempt i" l] by simp_all

text \<open>Every calm round with something open takes work off the desk.\<close>

lemma round_toil:
  assumes "calm v" "stamped t d" "t + pace c \<le> s_now v" "desk_ok n d" "awaiting d = []" "resuming d = []" "hasOpen (led d)"
  shows "toil c (sweep_round c (v, ok, got) d) < toil c d"
proof -
  obtain out d' where o: "obligationSweep c v d = (out, d')" by (cases "obligationSweep c v d")
  have k: "keyed (open_map (led d))" using assms(4) by (simp add: desk_ok_def ledger_ok_def)
  have k': "keyed (open_map (led d'))"
    using desk_ok_step [OF assms(4), of c "Tick v"] o by (simp add: desk_ok_def ledger_ok_def)
  note act = calm_acts [OF assms o]
  define r where "r = settle_all c ok got d'"
  have round: "sweep_round c (v, ok, got) d = r" by (simp add: o r_def)
  have shrinks: "toil c r < toil c d" if "load c (led r) < load c (led d)" using that by (simp add: toil_def)
  have "toil c r < toil c d" using o k
  proof (cases rule: sweep_cases)
    case quiet
    then show ?thesis using act by simp
  next
    case (silent b)
    then have "r = d'" using assms(5,6) by (simp add: r_def settle_nothing silent_close_def)
    then show ?thesis
      using shrinks silent load_close [OF k silent(1), of c] rung_pos [of c "maxRepresents (led d)" b] by (simp add: silent_close_def)
  next
    case (presented b)
    then have "r = d'" using assms(5,6) by (simp add: r_def settle_nothing mark_def)
    then show ?thesis using shrinks presented load_represented [OF presented(1,2), of c "s_now v"] by (simp add: mark_def)
  next
    case (resumed b)
    then have "load c (led r) \<le> load c (led d')" using assms(5,6) load_close_le [OF k', of c]
      by (simp add: r_def led_settle_resume mark_def)
    then show ?thesis using shrinks resumed load_represented [OF resumed(1,2), of c "s_now v"] by (simp add: mark_def)
  next
    case (settle b g)
    then have "r = d'" "led d' = led d" using assms(5,6) by (simp_all add: r_def settle_nothing)
    then show ?thesis using act settle(2) by (simp add: toil_def)
  next
    case (nudged b)
    let ?l = "snd (markEscalateAttempt (originTurnId b) (led d))"
    have r: "led r = (if ok \<or> escalateMax c \<le> Suc (attempts b) then snd (close (Some (originTurnId b)) ?l) else ?l)"
      using nudged assms(5,6) by (simp add: r_def led_settle_nudge)
    have "load c (snd (close (Some (originTurnId b)) ?l)) < load c ?l"
      using load_close [of ?l "originTurnId b" "b\<lparr>escalateAttempts := Some (Suc (attempts b))\<rparr>" c] k' nudged rung_pos
      by (simp add: get_attempt) (metis less_add_same_cancel1)
    then show ?thesis using shrinks r load_attempt [OF nudged(1), of c] by (auto split: if_splits)
  qed
  then show ?thesis unfolding round .
qed

lemma no_load: "load c (led d) = 0 \<Longrightarrow> \<not> hasOpen (led d)"
  using rung_pos by (cases "open_map (led d)") (auto simp: load_def hasOpen_def neq0_conv [symmetric] simp del: neq0_conv)

lemma sweep_round_idle: "\<not> hasOpen (led d) \<Longrightarrow> awaiting d = [] \<Longrightarrow> resuming d = [] \<Longrightarrow> sweep_round c (v, ok, got) d = d"
  by (simp add: obligationSweep_def settle_nothing)

lemma rounds_close:
  assumes "calm_rounds c t rs" "stamped t d" "desk_ok n d" "awaiting d = []" "resuming d = []" "toil c d \<le> length rs + 1"
  shows "\<not> hasOpen (led (run (sweep_round c) d rs))"
  using assms
proof (induction rs arbitrary: t d)
  case Nil
  then have "load c (led d) = 0" by (simp add: toil_def)
  then show ?case using no_load by simp
next
  case (Cons r rs)
  obtain v ok got where r: "r = (v, ok, got)" by (cases r)
  show ?case
  proof (cases "hasOpen (led d)")
    case False
    have idle: "run (sweep_round c) d qs = d" for qs
      by (induction qs) (auto simp: sweep_round_idle [OF False Cons.prems(4,5)] simp del: sweep_round.simps)
    then show ?thesis unfolding idle using False by simp
  next
    case True
    let ?d = "sweep_round c (v, ok, got) d"
    have v: "calm v" "t + pace c \<le> s_now v" "calm_rounds c (s_now v) rs" using Cons.prems(1) by (simp_all add: r)
    then have "t \<le> s_now v" by (simp add: pace_def)
    then have tick: "stamped (s_now v) (desk_step c (Tick v) d)" "desk_ok n (desk_step c (Tick v) d)"
      using step_stamped [OF Cons.prems(3) stamped_mono [OF Cons.prems(2)], of "s_now v" "Tick v" c] desk_ok_step [OF Cons.prems(3), of c "Tick v"]
      by simp_all
    have "toil c ?d < toil c d" using round_toil [OF v(1) Cons.prems(2) v(2) Cons.prems(3-5) True] .
    then show ?thesis
      using Cons.IH [OF v(3), of ?d] settle_all_stamped [OF tick(2,1)] settle_all_ok [OF tick(2)] settle_all_empty
        Cons.prems(6) by (simp add: r)
  qed
qed

lemma load_bound: "load c l \<le> length (open_map l) * (maxRepresents l + max 1 (escalateMax c))"
proof -
  have "rung c (maxRepresents l) b \<le> maxRepresents l + max 1 (escalateMax c)" for b by (auto simp: rung_def)
  then show ?thesis
    using sum_list_mono [of "open_map l" "\<lambda>e. rung c (maxRepresents l) (snd e)" "\<lambda>_. maxRepresents l + max 1 (escalateMax c)"]
    by (simp add: load_def sum_list_triv)
qed

text \<open>
  Claim C11: no message is asked about for ever and none is left behind. Take any run of the gateway whose clock
  readings lie before \<open>t\<close>, let what is under way settle, and let the agent stay silent and idle: sweeps come no
  closer together than the largest of the graces and the settle window, with the bridge alive and the buffer empty,
  and each nudge and resume they start settles, delivered or failed. Then after twice as many sweeps as there are open
  obligations times re-presentations and nudges allowed for one, nothing is open.
\<close>

theorem ladder_ends:
  assumes "list_all (not_after t) es" and "calm_rounds c t rs"
    and "2 * (length (open_map (led (settle_all c ok got (run (desk_step c) (new_desk n) es)))) * (n + max 1 (escalateMax c)))
      \<le> length rs"
  shows "\<not> hasOpen (led (run (sweep_round c) (settle_all c ok got (run (desk_step c) (new_desk n) es)) rs))"
proof -
  define d where "d = settle_all c ok got (run (desk_step c) (new_desk n) es)"
  have "stamped t (new_desk n)"
    by (simp add: stamped_def new_desk_def new_ledger_def getObligation_def gate_before_def)
  then have ok: "stamped t d" "desk_ok n d" "awaiting d = []" "resuming d = []"
    unfolding d_def
    using settle_all_stamped [OF desk_ok_run run_stamped [OF desk_ok_new _ assms(1)]] settle_all_ok [OF desk_ok_run]
      settle_all_empty by blast+
  have "load c (led d) \<le> length (open_map (led d)) * (n + max 1 (escalateMax c))"
    using load_bound [of c "led d"] ok(2) by (simp add: desk_ok_def)
  then have "toil c d \<le> length rs + 1" using assms(3) by (simp add: toil_def d_def [symmetric])
  then show ?thesis using rounds_close [OF assms(2) ok] by (simp add: d_def)
qed

definition quiet_round :: "int \<Rightarrow> surroundings \<times> bool \<times> bool" where
  "quiet_round t = (\<lparr>s_now = t, s_turnInFlight = False, s_backgroundWork = False, s_sessionBusy = False, s_bufferDepth = 0,
     s_bridgeAlive = True, s_historyReadable = True\<rparr>, False, False)"

definition demo_rounds :: "(surroundings \<times> bool \<times> bool) list" where
  "demo_rounds = map (\<lambda>k. quiet_round (2000000 + 120000 * int k)) [0..<10]"

theorem ladder_ends_witness:
  "\<not> hasOpen (led (run (sweep_round demo_config)
     (settle_all demo_config False False (run (desk_step demo_config) (new_desk 2) [Received demo_inbound False False ''hi'' 1000900]))
     demo_rounds))"
  by (rule ladder_ends [where t = 1000900]) code_simp+

end
