(* ===== verification/Cron_Schedule.thy ===== *)
theory Cron_Schedule
  imports Prelude
begin

text \<open>
  Cron expressions, as the scheduler reads them twice: \<open>src/agent-scheduler/replay.ts\<close> matches an
  expression against a wall-clock time when it looks for missed runs, and
  \<open>src/scheduler/cron-gap.ts\<close> expands the minute field to judge whether a schedule an agent asks for
  keeps the five-minute floor (\<open>violatesMinInterval\<close> of \<open>src/agents/reconcile-dry-run.ts\<close>). The
  lemmas relate the two readings: whatever the matcher accepts lies in the expansion, and the gap the
  floor looks at is the least distance of two minutes of the expansion. Numerals are texts of at most
  308 digits, so that \<open>parseInt\<close> and \<open>Number\<close> stay finite; a \<open>Date\<close> is given by the fields the matcher
  reads, in the time zone of the process.
\<close>

section \<open>Text operations\<close>

text \<open>\<open>s.split(",")\<close> for a one-character separator.\<close>

fun split_on :: "char \<Rightarrow> string \<Rightarrow> string list" where
  "split_on d [] = [[]]"
| "split_on d (c # cs) = (if c = d then [] # split_on d cs
     else (case split_on d cs of [] \<Rightarrow> [[c]] | w # ws \<Rightarrow> (c # w) # ws))"

text \<open>\<open>s.split(/\s+/)\<close>.\<close>

function split_spaces :: "string \<Rightarrow> string list" where
  "split_spaces s = (case dropWhile (\<lambda>c. \<not> js_space c) s of
       [] \<Rightarrow> [s]
     | c # cs \<Rightarrow> takeWhile (\<lambda>c. \<not> js_space c) s # split_spaces (dropWhile js_space cs))"
  by pat_completeness auto
termination
proof (relation "measure length")
  fix s c cs
  assume "dropWhile (\<lambda>c. \<not> js_space c) s = c # cs"
  then have "length (c # cs) \<le> length s"
    by (metis length_dropWhile_le)
  moreover have "length (dropWhile js_space cs) \<le> length cs"
    by (rule length_dropWhile_le)
  ultimately show "(dropWhile js_space cs, s) \<in> measure length" by simp
qed simp

declare split_spaces.simps [simp del]

text \<open>\<open>Number.parseInt(s, 10)\<close>: leading white space, a sign, then the longest prefix of digits;
  \<open>None\<close> is NaN.\<close>

definition parseInt :: "string \<Rightarrow> int option" where
  "parseInt s = (let t = dropWhile js_space s;
       neg = (t \<noteq> [] \<and> hd t = CHR ''-'');
       u = (if t \<noteq> [] \<and> (hd t = CHR ''-'' \<or> hd t = CHR ''+'') then tl t else t);
       ds = takeWhile is_digit u
     in if ds = [] then None else Some (if neg then - int (read_nat ds) else int (read_nat ds)))"

definition is_letter :: "char \<Rightarrow> bool" where
  "is_letter c \<longleftrightarrow> (let n = of_char c :: nat in 65 \<le> n \<and> n \<le> 90 \<or> 97 \<le> n \<and> n \<le> 122)"

text \<open>\<open>toUpperCase\<close> on a letter of the ASCII range.\<close>

definition upper :: "char \<Rightarrow> char" where
  "upper c = (let n = of_char c :: nat in if 97 \<le> n \<and> n \<le> 122 then char_of (n - 32) else c)"

section \<open>The matcher of the replay scan\<close>

datatype field_kind = Minute | Hour | Dom | Month | Dow

fun FIELD_RANGES :: "field_kind \<Rightarrow> int \<times> int" where
  "FIELD_RANGES Minute = (0, 59)"
| "FIELD_RANGES Hour = (0, 23)"
| "FIELD_RANGES Dom = (1, 31)"
| "FIELD_RANGES Month = (1, 12)"
| "FIELD_RANGES Dow = (0, 6)"

definition MONTH_ALIASES :: "(string \<times> string) list" where
  "MONTH_ALIASES =
     [(''JAN'', ''1''), (''FEB'', ''2''), (''MAR'', ''3''), (''APR'', ''4''), (''MAY'', ''5''),
      (''JUN'', ''6''), (''JUL'', ''7''), (''AUG'', ''8''), (''SEP'', ''9''), (''OCT'', ''10''),
      (''NOV'', ''11''), (''DEC'', ''12'')]"

definition DOW_ALIASES :: "(string \<times> string) list" where
  "DOW_ALIASES =
     [(''SUN'', ''0''), (''MON'', ''1''), (''TUE'', ''2''), (''WED'', ''3''), (''THU'', ''4''),
      (''FRI'', ''5''), (''SAT'', ''6'')]"

text \<open>\<open>field.replace(/[A-Za-z]+/g, ...)\<close>: every maximal run of letters that is a known name.\<close>

function replace_runs :: "(string \<times> string) list \<Rightarrow> string \<Rightarrow> string" where
  "replace_runs m [] = []"
| "replace_runs m (c # cs) =
     (if is_letter c then
        (let token = takeWhile is_letter (c # cs)
         in (case map_of m (map upper token) of Some sub \<Rightarrow> sub | None \<Rightarrow> token)
            @ replace_runs m (dropWhile is_letter cs))
      else c # replace_runs m cs)"
  by pat_completeness auto
termination
  by (relation "measure (length \<circ> snd)") (auto simp: le_imp_less_Suc length_dropWhile_le)

definition normalizeAliases :: "string \<Rightarrow> field_kind \<Rightarrow> string" where
  "normalizeAliases field kind = (case kind of
       Month \<Rightarrow> replace_runs MONTH_ALIASES field
     | Dow \<Rightarrow> replace_runs DOW_ALIASES field
     | _ \<Rightarrow> field)"

text \<open>\<open>replace(/\b7\b/g, "0")\<close>: a 7 with no word character on either side; the flag tells whether
  the character before is one.\<close>

definition is_word :: "char \<Rightarrow> bool" where
  "is_word c \<longleftrightarrow> is_letter c \<or> is_digit c \<or> c = CHR ''_''"

fun sunday7 :: "bool \<Rightarrow> string \<Rightarrow> string" where
  "sunday7 before [] = []"
| "sunday7 before (c # cs) =
     (if c = CHR ''7'' \<and> \<not> before \<and> (cs = [] \<or> \<not> is_word (hd cs)) then CHR ''0'' else c)
     # sunday7 (is_word c) cs"

definition matchPart :: "string \<Rightarrow> int \<Rightarrow> int \<Rightarrow> int \<Rightarrow> bool" where
  "matchPart part val mn mx =
    (let (core, step) = (case indexOf_char part (CHR ''/'') of
         None \<Rightarrow> (part, Some 1)
       | Some i \<Rightarrow> (take i part, (case parseInt (drop (Suc i) part) of
             None \<Rightarrow> None | Some s \<Rightarrow> if s \<le> 0 then None else Some s)));
       range = (if core = ''*'' then Some (mn, mx)
         else (case indexOf_char core (CHR ''-'') of
             Some dash \<Rightarrow> (case (parseInt (take dash core), parseInt (drop (Suc dash) core)) of
                 (Some a, Some b) \<Rightarrow> Some (a, b) | _ \<Rightarrow> None)
           | None \<Rightarrow> map_option (\<lambda>v. (v, v)) (parseInt core)))
     in case (step, range) of
          (Some s, Some (lo, hi)) \<Rightarrow>
            \<not> (lo < mn \<or> hi > mx \<or> lo > hi) \<and> \<not> (val < lo \<or> val > hi) \<and> (val - lo) mod s = 0
        | _ \<Rightarrow> False)"

definition matchField :: "string \<Rightarrow> int \<Rightarrow> field_kind \<Rightarrow> bool" where
  "matchField field val kind = (let (mn, mx) = FIELD_RANGES kind
     in list_ex (\<lambda>part. matchPart part val mn mx) (split_on (CHR '','') field))"

text \<open>What \<open>cronMatchesDate\<close> reads of a \<open>Date\<close>.\<close>

record cron_date =
  getMinutes :: int
  getHours :: int
  getDate :: int
  getMonth :: int
  getDay :: int

definition cronMatchesDate :: "string \<Rightarrow> cron_date \<Rightarrow> bool" where
  "cronMatchesDate expr date = (case split_spaces (js_trim expr) of
     [mField, hField, domField, moFieldRaw, dowFieldRaw] \<Rightarrow>
       (let moField = normalizeAliases moFieldRaw Month;
            dowField = sunday7 False (normalizeAliases dowFieldRaw Dow);
            domOk = matchField domField (getDate date) Dom;
            dowOk = matchField dowField (getDay date) Dow
        in if \<not> matchField mField (getMinutes date) Minute
            \<or> \<not> matchField hField (getHours date) Hour
            \<or> \<not> matchField moField (getMonth date + 1) Month then False
           else if domField \<noteq> ''*'' \<and> dowField \<noteq> ''*'' then domOk \<or> dowOk
           else domOk \<and> dowOk)
   | _ \<Rightarrow> False)"

section \<open>The minute expansion of the cadence floor\<close>

text \<open>The loop \<open>for (m = lo; m <= hi; m += step)\<close>; a zero step is refused before it.\<close>

function minute_loop :: "nat \<Rightarrow> nat \<Rightarrow> nat \<Rightarrow> nat list" where
  "minute_loop m hi step = (if step = 0 \<or> hi < m then [] else m # minute_loop (m + step) hi step)"
  by pat_completeness auto
termination by (relation "measure (\<lambda>(m, hi, step). Suc hi - m)") auto

declare minute_loop.simps [simp del]

definition expandMinuteTerm :: "string \<Rightarrow> nat list option" where
  "expandMinuteTerm minute_term =
    (let slash = indexOf_char minute_term (CHR ''/'');
       parts = (case slash of
           None \<Rightarrow> Some (minute_term, 1)
         | Some i \<Rightarrow> (let stepStr = drop (Suc i) minute_term
             in if \<not> all_digits stepStr \<or> read_nat stepStr = 0 then None
                else Some (take i minute_term, read_nat stepStr)))
     in case parts of None \<Rightarrow> None | Some (base, step) \<Rightarrow>
       (let range = (if base = ''*'' then Some (0, 59)
          else if all_digits base then
            Some (read_nat base, if slash \<noteq> None then 59 else read_nat base)
          else (case indexOf_char base (CHR ''-'') of
              None \<Rightarrow> None
            | Some d \<Rightarrow> if all_digits (take d base) \<and> all_digits (drop (Suc d) base)
                then Some (read_nat (take d base), read_nat (drop (Suc d) base)) else None))
        in case range of None \<Rightarrow> None | Some (lo, hi) \<Rightarrow>
          if 59 < hi \<or> hi < lo then None else Some (minute_loop lo hi step)))"

fun expand_terms :: "string list \<Rightarrow> nat list \<Rightarrow> nat list option" where
  "expand_terms [] acc = Some acc"
| "expand_terms (t # ts) acc = (case expandMinuteTerm t of
     None \<Rightarrow> None
   | Some ms \<Rightarrow> expand_terms ts (js_unique (acc @ ms)))"

definition expandMinuteField :: "string \<Rightarrow> nat list option" where
  "expandMinuteField field = (if field = [] then None
     else (case expand_terms (split_on (CHR '','') field) [] of
         None \<Rightarrow> None
       | Some ms \<Rightarrow> if ms = [] then None else Some (sort ms)))"

text \<open>The gap loop: \<open>None\<close> is \<open>Infinity\<close>; the index runs over the list, the last element wraps to the
  first.\<close>

definition circular_gap :: "nat list \<Rightarrow> nat \<Rightarrow> int" where
  "circular_gap minutes i =
    (if i + 1 < length minutes then int (minutes ! (i + 1)) - int (minutes ! i)
     else int (minutes ! ((i + 1) mod length minutes)) + 60 - int (minutes ! i))"

definition keep_smaller :: "int option \<Rightarrow> int \<Rightarrow> int option" where
  "keep_smaller smallest gap =
    (if gap > 0 \<and> (case smallest of None \<Rightarrow> True | Some s \<Rightarrow> gap < s) then Some gap else smallest)"

definition smallestCircularGap :: "nat list \<Rightarrow> int" where
  "smallestCircularGap minutes = (if length minutes = 1 then 60
     else (case foldl (\<lambda>s i. keep_smaller s (circular_gap minutes i)) None [0..<length minutes] of
         None \<Rightarrow> 60 | Some s \<Rightarrow> s))"

text \<open>\<open>/^\*\/(\d+)$/\<close>.\<close>

definition pure_step :: "string \<Rightarrow> nat option" where
  "pure_step field = (case field of
       a # b # ds \<Rightarrow> if a = CHR ''*'' \<and> b = CHR ''/'' \<and> all_digits ds then Some (read_nat ds) else None
     | _ \<Rightarrow> None)"

definition cronMinuteSmallestGapMin :: "string \<Rightarrow> int" where
  "cronMinuteSmallestGapMin expr = (let fields = split_spaces (js_trim expr) in
     if length fields < 5 then 0
     else (case pure_step (fields ! 0) of
         Some s \<Rightarrow> if 0 < s \<and> s \<le> 59 then int s else 0
       | None \<Rightarrow> (case expandMinuteField (fields ! 0) of
             None \<Rightarrow> 0 | Some minutes \<Rightarrow> smallestCircularGap minutes)))"

definition MIN_CRON_INTERVAL_SECS :: int where
  "MIN_CRON_INTERVAL_SECS = 5 * 60"

definition violatesMinInterval :: "string \<Rightarrow> bool" where
  "violatesMinInterval cron = (let gapMin = cronMinuteSmallestGapMin cron
     in gapMin > 0 \<and> gapMin * 60 < MIN_CRON_INTERVAL_SECS)"

section \<open>The two readings of a minute field agree\<close>

lemma digit_no_space: "is_digit c \<Longrightarrow> \<not> js_space c \<and> c \<noteq> CHR ''-'' \<and> c \<noteq> CHR ''+'' \<and> c \<noteq> CHR ''/'' \<and> c \<noteq> CHR ''*''"
  by (auto simp: is_digit_def js_space_def)

lemma all_digits_set: "all_digits s \<Longrightarrow> c \<in> set s \<Longrightarrow> is_digit c"
  by (auto simp: all_digits_def list_all_iff)

lemma all_digits_no_dash: "all_digits s \<Longrightarrow> indexOf_char s (CHR ''-'') = None"
  using all_digits_set digit_no_space by (force simp: indexOf_char_None)

lemma all_digits_not_star: "all_digits s \<Longrightarrow> s \<noteq> ''*''"
  using all_digits_set [of s "CHR ''*''"] digit_no_space [of "CHR ''*''"] by auto

lemma parseInt_digits: "parseInt s = Some (int (read_nat s))" if "all_digits s"
proof -
  from that obtain c cs where s: "s = c # cs" by (auto simp: all_digits_def neq_Nil_conv)
  have c: "is_digit c" using that s by (simp add: all_digits_def)
  have "takeWhile is_digit s = s"
    using all_digits_set [OF that] by (auto simp: takeWhile_eq_all_conv)
  then have cs: "takeWhile is_digit cs = cs" using c s by simp
  show ?thesis
    using digit_no_space [OF c] unfolding parseInt_def Let_def s
    by (simp add: c cs)
qed

lemma minute_loop_mem:
  "0 < step \<Longrightarrow> x \<in> set (minute_loop m hi step) \<longleftrightarrow> m \<le> x \<and> x \<le> hi \<and> (x - m) mod step = 0"
proof (induction m hi step rule: minute_loop.induct)
  case (1 m hi step)
  show ?case
  proof (cases "hi < m")
    case True
    then show ?thesis using 1 by (simp add: minute_loop.simps)
  next
    case False
    then have IH: "x \<in> set (minute_loop (m + step) hi step) \<longleftrightarrow>
        m + step \<le> x \<and> x \<le> hi \<and> (x - (m + step)) mod step = 0"
      using 1 by simp
    have "m \<le> x \<and> (x - m) mod step = 0 \<longleftrightarrow> x = m \<or> (m + step \<le> x \<and> (x - (m + step)) mod step = 0)"
    proof (cases "m + step \<le> x")
      case True
      then have "x - m = (x - (m + step)) + step" by simp
      then have "(x - m) mod step = (x - (m + step)) mod step" by (metis mod_add_self2)
      with True \<open>0 < step\<close> show ?thesis by auto
    next
      case False
      then have "m \<le> x \<Longrightarrow> (x - m) mod step = x - m" by simp
      with False show ?thesis by linarith
    qed
    with IH False \<open>0 < step\<close> show ?thesis by (subst minute_loop.simps) auto
  qed
qed

text \<open>A bare number with a step: the one shape the two readings treat differently.\<close>

definition bare_step :: "string \<Rightarrow> bool" where
  "bare_step t \<longleftrightarrow> (case indexOf_char t (CHR ''/'') of None \<Rightarrow> False | Some i \<Rightarrow> all_digits (take i t))"

text \<open>One term, by its expansion: the matcher accepts a value of the expansion, and all of it unless the
  term is a bare number with a step.\<close>

lemma mod_int_diff: "a \<le> v \<Longrightarrow> (int v - int a) mod int s = 0 \<longleftrightarrow> (v - a) mod s = 0"
  by (metis of_nat_0_eq_iff of_nat_diff zmod_int)

lemma range_member:
  "hi \<le> 59 \<Longrightarrow> lo \<le> hi \<Longrightarrow> 0 < step \<Longrightarrow>
   (\<not> (int lo < 0 \<or> int hi > 59 \<or> int lo > int hi) \<and> \<not> (int v < int lo \<or> int v > int hi)
      \<and> (int v - int lo) mod int step = 0) \<longleftrightarrow> v \<in> set (minute_loop lo hi step)"
  using mod_int_diff [of lo v step] by (simp add: minute_loop_mem del: mod_eq_0_iff_dvd) linarith

lemma term_readings:
  assumes "expandMinuteTerm t = Some ms"
  shows "matchPart t (int v) 0 59 \<Longrightarrow> v \<in> set ms"
    and "v \<in> set ms \<Longrightarrow> \<not> bare_step t \<Longrightarrow> matchPart t (int v) 0 59"
proof -
  define slash where "slash = indexOf_char t (CHR ''/'')"
  define base where "base = (case slash of None \<Rightarrow> t | Some i \<Rightarrow> take i t)"
  define step where "step = (case slash of None \<Rightarrow> 1 | Some i \<Rightarrow> read_nat (drop (Suc i) t))"
  define range where "range = (if base = ''*'' then Some (0 :: nat, 59)
      else if all_digits base then Some (read_nat base, if slash \<noteq> None then 59 else read_nat base)
      else (case indexOf_char base (CHR ''-'') of None \<Rightarrow> None
        | Some d \<Rightarrow> if all_digits (take d base) \<and> all_digits (drop (Suc d) base)
            then Some (read_nat (take d base), read_nat (drop (Suc d) base)) else None))"
  have digits: "case slash of None \<Rightarrow> True | Some i \<Rightarrow> all_digits (drop (Suc i) t)" and step: "0 < step"
    and "\<exists>lo hi. range = Some (lo, hi) \<and> hi \<le> 59 \<and> lo \<le> hi \<and> ms = minute_loop lo hi step"
    using assms unfolding expandMinuteTerm_def slash_def [symmetric] Let_def base_def step_def range_def
    by (auto split: option.splits if_splits prod.splits)
  then obtain lo hi where range: "range = Some (lo, hi)" and hi: "hi \<le> 59" and lo: "lo \<le> hi"
    and ms: "ms = minute_loop lo hi step" by blast
  have parts: "(case slash of None \<Rightarrow> (t, Some 1)
       | Some i \<Rightarrow> (take i t, case parseInt (drop (Suc i) t) of None \<Rightarrow> None
           | Some s \<Rightarrow> if s \<le> 0 then None else Some s)) = (base, Some (int step))"
    using digits step by (auto simp: base_def step_def parseInt_digits split: option.splits)
  define pair where "pair = (if base = ''*'' then Some (0, 59)
       else (case indexOf_char base (CHR ''-'') of
           Some dash \<Rightarrow> (case (parseInt (take dash base), parseInt (drop (Suc dash) base)) of
               (Some a, Some b) \<Rightarrow> Some (a, b) | _ \<Rightarrow> None)
         | None \<Rightarrow> map_option (\<lambda>v. (v, v)) (parseInt base)))"
  have match: "matchPart t x 0 59 \<longleftrightarrow> (case pair of Some (lo, hi) \<Rightarrow>
        \<not> (lo < 0 \<or> hi > 59 \<or> lo > hi) \<and> \<not> (x < lo \<or> x > hi) \<and> (x - lo) mod int step = 0
      | None \<Rightarrow> False)" for x
    unfolding matchPart_def Let_def slash_def [symmetric] parts pair_def [symmetric] prod.case option.case
    by (simp add: pair_def split: option.splits)
  have bare: "bare_step t \<longleftrightarrow> slash \<noteq> None \<and> all_digits base"
    by (auto simp: bare_step_def slash_def base_def split: option.splits)
  have pair: "pair = (if bare_step t then Some (int lo, int lo) else Some (int lo, int hi))"
    using range all_digits_not_star [of base] unfolding bare range_def pair_def
    by (auto simp: all_digits_no_dash parseInt_digits split: if_splits option.splits)
  show "v \<in> set ms" if "matchPart t (int v) 0 59"
    using that hi lo step unfolding match pair ms
    by (auto simp: minute_loop_mem mod_int_diff [symmetric] split: if_splits)
  show "matchPart t (int v) 0 59" if "v \<in> set ms" "\<not> bare_step t"
    using that hi lo step unfolding match pair ms
    by (auto simp: minute_loop_mem mod_int_diff split: if_splits)
qed

lemma expand_terms_set:
  "expand_terms ts acc = Some ms \<Longrightarrow>
   (\<forall>t \<in> set ts. expandMinuteTerm t \<noteq> None) \<and>
   set ms = set acc \<union> (\<Union>t \<in> set ts. set (the (expandMinuteTerm t)))"
  by (induction ts acc rule: expand_terms.induct) (auto split: option.splits)

lemma expansion_members:
  assumes "expandMinuteField field = Some ms"
  shows "v \<in> set ms \<longleftrightarrow> (\<exists>t \<in> set (split_on (CHR '','') field). \<exists>l. expandMinuteTerm t = Some l \<and> v \<in> set l)"
    and "\<forall>t \<in> set (split_on (CHR '','') field). expandMinuteTerm t \<noteq> None"
proof -
  obtain us where us: "expand_terms (split_on (CHR '','') field) [] = Some us" "ms = sort us"
    using assms by (auto simp: expandMinuteField_def split: if_splits option.splits)
  show "\<forall>t \<in> set (split_on (CHR '','') field). expandMinuteTerm t \<noteq> None"
    using expand_terms_set [OF us(1)] by blast
  with expand_terms_set [OF us(1)] us(2)
  show "v \<in> set ms \<longleftrightarrow> (\<exists>t \<in> set (split_on (CHR '','') field). \<exists>l. expandMinuteTerm t = Some l \<and> v \<in> set l)"
    by fastforce
qed

lemma expandMinuteTerm_bound: "expandMinuteTerm t = Some l \<Longrightarrow> v \<in> set l \<Longrightarrow> v < 60"
  unfolding expandMinuteTerm_def Let_def
  by (auto simp: minute_loop_mem split: option.splits if_splits prod.splits)

lemma expand_terms_distinct: "expand_terms ts acc = Some ms \<Longrightarrow> distinct acc \<Longrightarrow> distinct ms"
  by (induction ts acc rule: expand_terms.induct) (auto split: option.splits)

lemma expansion_shape:
  assumes "expandMinuteField field = Some ms"
  shows "ms \<noteq> []" "sorted ms" "distinct ms" "\<And>v. v \<in> set ms \<Longrightarrow> v < 60"
proof -
  obtain us where us: "expand_terms (split_on (CHR '','') field) [] = Some us" "ms = sort us" "us \<noteq> []"
    using assms by (auto simp: expandMinuteField_def split: if_splits option.splits)
  then show "ms \<noteq> []" by (metis set_empty set_sort)
  show "sorted ms" using us by simp
  show "distinct ms" using expand_terms_distinct [OF us(1)] us(2) by simp
  show "v < 60" if "v \<in> set ms" for v
    using that expansion_members(1) [OF assms] expandMinuteTerm_bound by blast
qed

lemma matcher_within_expansion:
  assumes "expandMinuteField field = Some ms" "matchField field (int v) Minute"
  shows "v \<in> set ms"
proof -
  obtain t where t: "t \<in> set (split_on (CHR '','') field)" "matchPart t (int v) 0 59"
    using assms(2) by (auto simp: matchField_def list_ex_iff)
  then obtain l where "expandMinuteTerm t = Some l" using expansion_members(2) [OF assms(1)] by blast
  with t term_readings(1) show ?thesis using expansion_members(1) [OF assms(1)] by blast
qed

lemma matcher_is_expansion:
  assumes "expandMinuteField field = Some ms"
    "\<not> list_ex bare_step (split_on (CHR '','') field)"
  shows "matchField field (int v) Minute \<longleftrightarrow> v \<in> set ms"
proof
  assume "v \<in> set ms"
  then obtain t l where "t \<in> set (split_on (CHR '','') field)" "expandMinuteTerm t = Some l" "v \<in> set l"
    using expansion_members(1) [OF assms(1)] by blast
  moreover from this have "matchPart t (int v) 0 59"
    using assms(2) term_readings(2) by (auto simp: list_ex_iff)
  ultimately show "matchField field (int v) Minute"
    by (auto simp: matchField_def list_ex_iff)
qed (rule matcher_within_expansion [OF assms(1)])

section \<open>The gap is the least distance\<close>

text \<open>A distance of two instants, in minutes, whose minutes of the hour are both in the list.\<close>

definition minute_distance :: "nat list \<Rightarrow> nat \<Rightarrow> bool" where
  "minute_distance ms d \<longleftrightarrow> 0 < d \<and> (\<exists>a. a mod 60 \<in> set ms \<and> (a + d) mod 60 \<in> set ms)"

lemma keep_smaller_fold:
  "\<forall>i \<in> set is. 0 < f i \<Longrightarrow>
   foldl (\<lambda>s i. keep_smaller s (f i)) (Some m) is = Some (Min (insert m (f ` set is)))"
proof (induction "is" arbitrary: m)
  case (Cons i "is")
  have "keep_smaller (Some m) (f i) = Some (min m (f i))"
    using Cons.prems by (auto simp: keep_smaller_def)
  moreover have "Min (insert (min m (f i)) S) = Min (insert m (insert (f i) S))"
    if "finite S" for S
    using that by (cases "S = {}") (simp_all add: min.assoc)
  ultimately show ?case using Cons by simp
qed simp

lemma circular_gap_pos:
  assumes "sorted ms" "distinct ms" "\<forall>v \<in> set ms. v < 60" "2 \<le> length ms" "i < length ms"
  shows "0 < circular_gap ms i"
proof (cases "i + 1 < length ms")
  case True
  then have "ms ! i < ms ! (i + 1)"
    using assms by (simp add: sorted_wrt_nth_less strict_sorted_iff)
  with True show ?thesis by (simp add: circular_gap_def)
next
  case False
  have "ms ! i < 60" using assms by simp
  with False show ?thesis by (simp add: circular_gap_def)
qed

lemma smallest_is_min:
  assumes "sorted ms" "distinct ms" "\<forall>v \<in> set ms. v < 60" "2 \<le> length ms"
  shows "smallestCircularGap ms = Min (circular_gap ms ` {0..<length ms})"
proof -
  have pos: "\<forall>i \<in> set [0..<length ms]. 0 < circular_gap ms i"
    using circular_gap_pos [OF assms] by simp
  obtain n where n: "length ms = Suc n" using assms(4) by (cases "length ms") auto
  then have up: "[0..<length ms] = 0 # [1..<length ms]" by (simp add: upt_rec)
  have "foldl (\<lambda>s i. keep_smaller s (circular_gap ms i)) None [0..<length ms] =
      Some (Min (insert (circular_gap ms 0) (circular_gap ms ` set [1..<length ms])))"
    using pos keep_smaller_fold [of "[1..<length ms]" "circular_gap ms" "circular_gap ms 0"]
    unfolding up by (simp add: keep_smaller_def [of None])
  moreover have "insert (circular_gap ms 0) (circular_gap ms ` set [1..<length ms]) =
      circular_gap ms ` {0..<length ms}"
    using n by (metis image_insert list.simps(15) set_upt up)
  ultimately have "foldl (\<lambda>s i. keep_smaller s (circular_gap ms i)) None [0..<length ms] =
      Some (Min (circular_gap ms ` {0..<length ms}))" by argo
  then show ?thesis using assms(4) by (simp add: smallestCircularGap_def)
qed

lemma sorted_nth_extremes:
  "sorted ms \<Longrightarrow> x \<in> set ms \<Longrightarrow> ms ! 0 \<le> x \<and> x \<le> ms ! (length ms - 1)" for ms :: "nat list"
  by (metis (no_types) One_nat_def Suc_pred diff_less in_set_conv_nth le0 length_pos_if_in_set lessI
      less_Suc_eq_le sorted_iff_nth_mono zero_less_one)

lemma last_gap:
  "0 < length ms \<Longrightarrow>
   circular_gap ms (length ms - 1) = int (ms ! 0) + 60 - int (ms ! (length ms - 1))"
  by (cases ms) (simp_all add: circular_gap_def)

lemma gap_below_distance:
  assumes ms: "sorted ms" "\<forall>v \<in> set ms. v < 60"
    and a: "a mod 60 \<in> set ms" "(a + d) mod 60 \<in> set ms" and d: "0 < d" "d < 60"
  shows "\<exists>i < length ms. circular_gap ms i \<le> int d"
proof -
  define x where "x = a mod 60"
  define y where "y = (a + d) mod 60"
  have xy: "x < 60" "y < 60" "x \<in> set ms" "y \<in> set ms" using a by (auto simp: x_def y_def)
  have "y = (x + d) mod 60" by (simp add: x_def y_def mod_add_left_eq)
  then have y: "y = (if x + d < 60 then x + d else x + d - 60)"
    using d xy by (simp add: mod_if)
  obtain i where i: "i < length ms" "x = ms ! i" using xy by (metis in_set_conv_nth)
  obtain j where j: "j < length ms" "y = ms ! j" using xy by (metis in_set_conv_nth)
  show ?thesis
  proof (cases "x + d < 60")
    case True
    then have "ms ! i < ms ! j" using y i j d by simp
    then have "i < j" using ms(1) i j by (meson leD leI sorted_nth_mono)
    then have "ms ! (i + 1) \<le> ms ! j" using ms(1) j by (simp add: sorted_nth_mono)
    with \<open>i < j\<close> j i y True show ?thesis by (intro exI [of _ i]) (auto simp: circular_gap_def)
  next
    case False
    have n: "0 < length ms" using i(1) by linarith
    have "ms ! 0 \<le> y" "x \<le> ms ! (length ms - 1)" using sorted_nth_extremes [OF ms(1)] xy by auto
    then have "circular_gap ms (length ms - 1) \<le> int d"
      using n y False by (simp add: last_gap [unfolded One_nat_def])
    with n show ?thesis by (intro exI [of _ "length ms - 1"]) simp
  qed
qed

lemma gap_is_distance:
  assumes ms: "sorted ms" "distinct ms" "\<forall>v \<in> set ms. v < 60" "2 \<le> length ms" "i < length ms"
  shows "minute_distance ms (nat (circular_gap ms i))"
proof -
  have pos: "0 < circular_gap ms i" by (rule circular_gap_pos [OF assms])
  have xi: "ms ! i < 60" "ms ! i \<in> set ms" using ms by auto
  have next_mem: "(ms ! i + nat (circular_gap ms i)) mod 60 \<in> set ms"
  proof (cases "i + 1 < length ms")
    case True
    then have "ms ! (i + 1) < 60" "ms ! (i + 1) \<in> set ms" using ms by auto
    moreover have "ms ! i + nat (circular_gap ms i) = ms ! (i + 1)"
      using True pos by (simp add: circular_gap_def)
    ultimately show ?thesis by simp
  next
    case False
    then have "i + 1 = length ms" using ms by simp
    then have "ms ! i + nat (circular_gap ms i) = ms ! 0 + 60"
      using xi pos by (simp add: circular_gap_def)
    moreover have "ms ! 0 < 60" "ms ! 0 \<in> set ms" using ms by (auto intro!: nth_mem)
    ultimately show ?thesis by simp
  qed
  with pos xi show ?thesis
    unfolding minute_distance_def by (intro conjI exI [of _ "ms ! i"]) auto
qed

lemma smallest_gap_least:
  assumes ms: "ms \<noteq> []" "sorted ms" "distinct ms" "\<forall>v \<in> set ms. v < 60"
  shows "minute_distance ms (nat (smallestCircularGap ms))" "0 < smallestCircularGap ms"
    and "minute_distance ms d \<Longrightarrow> smallestCircularGap ms \<le> int d"
proof -
  have main: "minute_distance ms (nat (smallestCircularGap ms)) \<and> 0 < smallestCircularGap ms \<and>
    (minute_distance ms d \<longrightarrow> smallestCircularGap ms \<le> int d)" for d
  proof (cases "2 \<le> length ms")
    case False
    then obtain x where x: "ms = [x]" using ms(1) by (cases ms; cases "tl ms") auto
    then have "x < 60" using ms by simp
    have "60 \<le> d" if "minute_distance ms d"
    proof -
      have "0 < d \<and> (\<exists>a. a mod 60 = x \<and> (a + d) mod 60 = x)"
        using that x by (simp add: minute_distance_def)
      then obtain a where a: "0 < d" "a mod 60 = x" "(a + d) mod 60 = x" by blast
      then have "60 dvd (a + d) - a" by (metis mod_eq_dvd_iff_nat le_add1)
      with a show ?thesis by (simp add: dvd_imp_le)
    qed
    moreover have "minute_distance ms 60"
      using x \<open>x < 60\<close> unfolding minute_distance_def by (intro conjI exI [of _ x]) auto
    ultimately show ?thesis using x by (auto simp: smallestCircularGap_def)
  next
    case True
    let ?G = "circular_gap ms ` {0..<length ms}"
    have fin: "finite ?G" "?G \<noteq> {}" using True by auto
    have g: "smallestCircularGap ms = Min ?G" by (rule smallest_is_min [OF ms(2-4) True])
    obtain i where i: "i < length ms" "Min ?G = circular_gap ms i"
      using Min_in [OF fin] by auto
    have low: "Min ?G \<le> circular_gap ms j" if "j < length ms" for j
      using that fin by (intro Min_le) auto
    have "Min ?G \<le> int d" if d: "minute_distance ms d"
    proof (cases "d < 60")
      case True
      then show ?thesis using gap_below_distance [OF ms(2,4)] d low
        by (meson minute_distance_def order_trans)
    next
      case False
      have "ms ! 0 \<le> ms ! (length ms - 1)" using ms(2) True by (simp add: sorted_nth_mono)
      moreover have "circular_gap ms (length ms - 1) = int (ms ! 0) + 60 - int (ms ! (length ms - 1))"
        using True by (intro last_gap) linarith
      moreover have "Min ?G \<le> circular_gap ms (length ms - 1)" using True by (intro low) linarith
      ultimately show ?thesis using False by linarith
    qed
    then show ?thesis
      using g i gap_is_distance [OF ms(2-4) True i(1)] circular_gap_pos [OF ms(2-4) True i(1)] by simp
  qed
  show "minute_distance ms (nat (smallestCircularGap ms))" "0 < smallestCircularGap ms"
    "minute_distance ms d \<Longrightarrow> smallestCircularGap ms \<le> int d"
    using main by auto
qed

text \<open>
  Claim C12: the gap the cadence floor judges is exact. For every minute field the expansion accepts (lists,
  ranges, steps, bare numbers with a step), the loop over neighbours with wrap-around computes the
  least positive distance of two instants, in minutes, both of whose minutes of the hour are in the
  expansion; and a minute the replay matcher accepts is always in the expansion, all of it unless the
  field has a bare number with a step.
\<close>

theorem gap_is_least_distance:
  assumes "expandMinuteField field = Some minutes"
  shows "smallestCircularGap minutes = int (LEAST d. minute_distance minutes d) \<and>
    (\<forall>v. (matchField field (int v) Minute \<longrightarrow> v \<in> set minutes) \<and>
         (\<not> list_ex bare_step (split_on (CHR '','') field) \<longrightarrow>
            (matchField field (int v) Minute \<longleftrightarrow> v \<in> set minutes)))"
proof -
  note shape = expansion_shape [OF assms]
  have bound: "\<forall>v \<in> set minutes. v < 60" using shape(4) by blast
  note least = smallest_gap_least [OF shape(1-3) bound]
  have "(LEAST d. minute_distance minutes d) = nat (smallestCircularGap minutes)"
    using least by (intro Least_equality) (auto simp: nat_le_iff)
  moreover have "int (nat (smallestCircularGap minutes)) = smallestCircularGap minutes"
    using least(2) by simp
  ultimately show ?thesis
    using matcher_within_expansion [OF assms] matcher_is_expansion [OF assms] by auto
qed

theorem gap_is_least_distance_witness:
  "smallestCircularGap [0, 10, 20, 30, 58] = int (LEAST d. minute_distance [0, 10, 20, 30, 58] d) \<and>
   matchField ''0-30/10,58'' 20 Minute"
proof -
  have e: "expandMinuteField ''0-30/10,58'' = Some [0, 10, 20, 30, 58]" by code_simp
  have "\<not> list_ex bare_step (split_on (CHR '','') ''0-30/10,58'')" by code_simp
  with gap_is_least_distance [OF e] have
    "smallestCircularGap [0, 10, 20, 30, 58] = int (LEAST d. minute_distance [0, 10, 20, 30, 58] d)"
    "matchField ''0-30/10,58'' (int 20) Minute \<longleftrightarrow> 20 \<in> set [0, 10, 20, 30, 58 :: nat]" by blast+
  then show ?thesis by simp
qed

text \<open>Where the readings part: a bare number with a step, and a sixth field for the seconds.\<close>

lemma bare_step_parts:
  "\<not> matchField ''5/10'' 15 Minute" "expandMinuteField ''5/10'' = Some [5, 15, 25, 35, 45, 55]"
  by code_simp+

lemma seconds_read_as_minutes:
  "cronMinuteSmallestGapMin ''0,30 * * * * *'' = 30" "\<not> violatesMinInterval ''0,30 * * * * *''"
  by code_simp+

section \<open>The floor holds for what the replay would run\<close>

text \<open>
  The local clock of the process: one minute later in absolute time is one minute later on the clock,
  modulo the hour (the zones whose offset changes by whole hours). Times are epoch milliseconds.
\<close>

definition minute_clock :: "(int \<Rightarrow> cron_date) \<Rightarrow> bool" where
  "minute_clock local \<longleftrightarrow>
    (\<forall>k. getMinutes (local (60000 * (k + 1))) = (getMinutes (local (60000 * k)) + 1) mod 60)"

lemma minute_clock_advance:
  assumes "minute_clock local"
  shows "getMinutes (local (60000 * (k + 1 + int n))) =
    (getMinutes (local (60000 * k)) + 1 + int n) mod 60"
proof (induction n)
  case 0
  then show ?case using assms by (simp add: minute_clock_def)
next
  case (Suc n)
  have "getMinutes (local (60000 * ((k + 1 + int n) + 1))) =
      (getMinutes (local (60000 * (k + 1 + int n))) + 1) mod 60"
    using assms unfolding minute_clock_def by blast
  then show ?case unfolding Suc.IH by (simp add: mod_simps algebra_simps)
qed

lemma minute_clock_range:
  assumes "minute_clock local"
  shows "0 \<le> getMinutes (local (60000 * k)) \<and> getMinutes (local (60000 * k)) < 60"
proof -
  have "getMinutes (local (60000 * (k - 1 + 1))) = (getMinutes (local (60000 * (k - 1))) + 1) mod 60"
    using assms unfolding minute_clock_def by blast
  then show ?thesis by simp
qed

lemma match_minute:
  assumes "cronMatchesDate cron date"
  shows "length (split_spaces (js_trim cron)) = 5"
    "matchField (split_spaces (js_trim cron) ! 0) (getMinutes date) Minute"
  using assms by (auto simp: cronMatchesDate_def Let_def split: list.splits if_splits)

text \<open>
  A schedule that passes the five-minute floor on an expansion the checker understands never has
  two runs closer than five minutes: two different minutes at which the scheduler's own matcher takes
  the expression as due are at least the judged gap apart, and that gap is at least five minutes. (The
  pure step form is judged by its nominal step, and an unreadable minute field is let through; both
  are outside this statement.)
\<close>

theorem accepted_schedule_keeps_floor:
  assumes "\<not> violatesMinInterval cron"
    and "cronMinuteSmallestGapMin cron \<noteq> 0"
    and "pure_step (split_spaces (js_trim cron) ! 0) = None"
    and "minute_clock local"
    and "cronMatchesDate cron (local (60000 * k))"
    and "cronMatchesDate cron (local (60000 * l))"
    and "k < l"
  shows "cronMinuteSmallestGapMin cron \<le> l - k \<and> MIN_CRON_INTERVAL_SECS * 1000 \<le> 60000 * l - 60000 * k"
proof -
  let ?f = "split_spaces (js_trim cron) ! 0"
  have five: "length (split_spaces (js_trim cron)) = 5" by (rule match_minute(1) [OF assms(5)])
  obtain ms where e: "expandMinuteField ?f = Some ms"
    and g: "cronMinuteSmallestGapMin cron = smallestCircularGap ms"
    using assms(2,3) five by (auto simp: cronMinuteSmallestGapMin_def Let_def split: option.splits)
  note shape = expansion_shape [OF e]
  have bound: "\<forall>v \<in> set ms. v < 60" using shape(4) by blast
  note least = smallest_gap_least [OF shape(1-3) bound]
  define a where "a = nat (getMinutes (local (60000 * k)))"
  define d where "d = nat (l - k)"
  have a: "int a = getMinutes (local (60000 * k))" "a < 60"
    using minute_clock_range [OF assms(4), of k] by (auto simp: a_def)
  have "l = k + 1 + int (nat (l - k - 1))" using assms(7) by simp
  then have "getMinutes (local (60000 * l)) = (int a + 1 + int (nat (l - k - 1))) mod 60"
    using minute_clock_advance [OF assms(4), of k "nat (l - k - 1)"] a by simp
  also have "\<dots> = int ((a + d) mod 60)" using assms(7) by (simp add: d_def zmod_int)
  finally have b: "getMinutes (local (60000 * l)) = int ((a + d) mod 60)" .
  have "a \<in> set ms" using matcher_within_expansion [OF e] match_minute(2) [OF assms(5)] a by metis
  moreover have "(a + d) mod 60 \<in> set ms"
    using matcher_within_expansion [OF e] match_minute(2) [OF assms(6)] b by metis
  ultimately have "minute_distance ms d"
    using a assms(7) unfolding minute_distance_def by (intro conjI exI [of _ a]) (simp_all add: d_def)
  then have "cronMinuteSmallestGapMin cron \<le> int d" using least(3) g by simp
  then have "cronMinuteSmallestGapMin cron \<le> l - k" using assms(7) by (simp add: d_def)
  moreover have "5 \<le> cronMinuteSmallestGapMin cron"
    using assms(1) least(2) g
    by (simp add: violatesMinInterval_def Let_def MIN_CRON_INTERVAL_SECS_def)
  ultimately show ?thesis by (simp add: MIN_CRON_INTERVAL_SECS_def)
qed

text \<open>The clock of a process in UTC, exact in January 1970 (the first of January was a Thursday).\<close>

definition utc_january :: "int \<Rightarrow> cron_date" where
  "utc_january t = \<lparr>getMinutes = (t div 60000) mod 60, getHours = (t div 3600000) mod 24,
     getDate = t div 86400000 + 1, getMonth = 0, getDay = (t div 86400000 + 4) mod 7\<rparr>"

lemma utc_january_clock: "minute_clock utc_january"
  unfolding minute_clock_def utc_january_def by (simp add: mod_simps)

theorem accepted_schedule_keeps_floor_witness:
  "cronMinuteSmallestGapMin ''0-30/10,50 8 * * MON-FRI'' \<le> 10 \<and> MIN_CRON_INTERVAL_SECS \<le> 600"
proof -
  have "\<not> violatesMinInterval ''0-30/10,50 8 * * MON-FRI''" by code_simp
  moreover have "cronMinuteSmallestGapMin ''0-30/10,50 8 * * MON-FRI'' \<noteq> 0" by code_simp
  moreover have "pure_step (split_spaces (js_trim ''0-30/10,50 8 * * MON-FRI'') ! 0) = None" by code_simp
  moreover have "cronMatchesDate ''0-30/10,50 8 * * MON-FRI'' (utc_january (60000 * 480))" by code_simp
  moreover have "cronMatchesDate ''0-30/10,50 8 * * MON-FRI'' (utc_january (60000 * 490))" by code_simp
  ultimately show ?thesis
    using accepted_schedule_keeps_floor [of "''0-30/10,50 8 * * MON-FRI''" utc_january 480 490]
      utc_january_clock by simp
qed

end
