(* ===== verification/Topic_Router.thy ===== *)
theory Topic_Router
  imports Prelude
begin

text \<open>
  \<open>src/telegram/topic-router.ts\<close>: the forum topic an outbound message that is not a plain reply goes
  to when an agent owns its supergroup, the topic attached to an approval card for one recipient, and
  the check of the topics a schedule names. Alias names are own keys of \<open>topic_aliases\<close>; an alias that
  is spelled like an inherited property of a JavaScript object is outside the model.
\<close>

type_synonym topic_id = int

record topic_config =
  default_topic_id :: "topic_id option"
  topic_aliases :: "(string \<times> topic_id) list"

datatype topic_ref = TopicNumber topic_id | TopicAlias string

datatype outbound_event =
    ReplyEvent "topic_id option"
  | SubagentProgress "topic_id option"
  | CommandQuery "topic_id option"
  | VaultEvent bool "topic_id option"
  | PermissionEvent bool "topic_id option"
  | HostdApproval "topic_id option"
  | CronEvent "topic_ref option"
  | BootEvent
  | LinearAuth
  | CompactWatchdog
  | CommandMutation
  | CommandHeavy

definition ALERTS_ALIAS :: string where "ALERTS_ALIAS = ''alerts''"
definition ADMIN_ALIAS :: string where "ADMIN_ALIAS = ''admin''"

definition aliasToId :: "topic_config \<Rightarrow> string \<Rightarrow> topic_id option" where
  "aliasToId cfg name = map_of (topic_aliases cfg) name"

text \<open>\<open>a ?? b\<close>.\<close>

definition or_else :: "'a option \<Rightarrow> 'a option \<Rightarrow> 'a option" where
  "or_else a b = (case a of None \<Rightarrow> b | Some x \<Rightarrow> Some x)"

text \<open>A missing configuration is the empty one.\<close>

definition no_config :: topic_config where
  "no_config = \<lparr>default_topic_id = None, topic_aliases = []\<rparr>"

definition resolveOutboundTopic :: "topic_config option \<Rightarrow> outbound_event \<Rightarrow> topic_id option" where
  "resolveOutboundTopic config event =
    (let cfg = (case config of None \<Rightarrow> no_config | Some c \<Rightarrow> c);
         inSupergroupMode = default_topic_id cfg \<noteq> None;
         ops = (\<lambda>alias_name. if \<not> inSupergroupMode then None
                 else or_else (aliasToId cfg alias_name) (default_topic_id cfg));
         card = (\<lambda>turnInitiated origin. if turnInitiated then or_else origin (default_topic_id cfg)
                 else ops ADMIN_ALIAS)
     in case event of
          ReplyEvent origin \<Rightarrow> origin
        | SubagentProgress parent \<Rightarrow> parent
        | CommandQuery origin \<Rightarrow> origin
        | VaultEvent turnInitiated origin \<Rightarrow> card turnInitiated origin
        | PermissionEvent turnInitiated origin \<Rightarrow> card turnInitiated origin
        | HostdApproval origin \<Rightarrow> (if origin \<noteq> None then origin else ops ADMIN_ALIAS)
        | CronEvent entryTopic \<Rightarrow>
            (case entryTopic of
               Some (TopicNumber n) \<Rightarrow> Some n
             | Some (TopicAlias a) \<Rightarrow> or_else (aliasToId cfg a) (default_topic_id cfg)
             | None \<Rightarrow> default_topic_id cfg)
        | BootEvent \<Rightarrow> ops ALERTS_ALIAS
        | LinearAuth \<Rightarrow> ops ALERTS_ALIAS
        | CompactWatchdog \<Rightarrow> ops ALERTS_ALIAS
        | CommandMutation \<Rightarrow> ops ADMIN_ALIAS
        | CommandHeavy \<Rightarrow> ops ADMIN_ALIAS)"

text \<open>A chat is given by its \<open>String(...)\<close> form.\<close>

definition topicForRecipient :: "string \<Rightarrow> topic_id option \<Rightarrow> string option \<Rightarrow> topic_id option" where
  "topicForRecipient recipientChatId resolvedTopic supergroupChatId =
    (case (resolvedTopic, supergroupChatId) of
       (Some t, Some chat) \<Rightarrow> if recipientChatId = chat then Some t else None
     | _ \<Rightarrow> None)"

text \<open>One error per schedule entry whose alias is unknown; an error is kept as the entry's cron text and
  the alias its message names.\<close>

fun validateCronTopicAliases ::
  "topic_config option \<Rightarrow> (string \<times> topic_ref option) list \<Rightarrow> (string \<times> string) list" where
  "validateCronTopicAliases config [] = []"
| "validateCronTopicAliases config ((cron, topic) # rest) =
     (case topic of
        Some (TopicAlias a) \<Rightarrow>
          (if a \<in> set (map fst (case config of None \<Rightarrow> [] | Some c \<Rightarrow> topic_aliases c)) then []
           else [(cron, a)])
      | _ \<Rightarrow> []) @ validateCronTopicAliases config rest"

section \<open>Routing\<close>

lemmas routing = resolveOutboundTopic_def aliasToId_def or_else_def Let_def

text \<open>The events whose thread is that of the conversation they belong to.\<close>

fun follows_conversation :: "outbound_event \<Rightarrow> bool" where
  "follows_conversation (ReplyEvent t) = True"
| "follows_conversation (SubagentProgress t) = True"
| "follows_conversation (CommandQuery t) = True"
| "follows_conversation e = False"

lemma supergroup_has_topic:
  "default_topic_id cfg = Some d \<Longrightarrow> \<not> follows_conversation e \<Longrightarrow>
   \<exists>t. resolveOutboundTopic (Some cfg) e = Some t"
  by (cases e) (auto simp: routing split: option.splits topic_ref.splits)

lemma validated_entry:
  "validateCronTopicAliases (Some cfg) schedule = [] \<Longrightarrow> (cron, Some (TopicAlias a)) \<in> set schedule \<Longrightarrow>
   \<exists>t. map_of (topic_aliases cfg) a = Some t"
proof (induction schedule)
  case (Cons x xs)
  then show ?case
    by (cases x) (auto simp: map_of_eq_None_iff image_iff split: option.splits topic_ref.splits if_splits
        intro: weak_map_of_SomeI)
qed simp

text \<open>A reply in the general topic of a supergroup has no thread, so the router returns none for it.\<close>

lemma reply_without_thread:
  "resolveOutboundTopic (Some \<lparr>default_topic_id = Some 7, topic_aliases = []\<rparr>) (ReplyEvent None) = None"
  by (simp add: routing)

text \<open>Outside supergroup mode a scheduled run that names a topic by number keeps the number.\<close>

lemma numbered_run_outside_supergroup:
  "resolveOutboundTopic None (CronEvent (Some (TopicNumber 5))) = Some 5"
  by (simp add: routing)

text \<open>
  Autonomous messages have a home: for an agent that owns its supergroup, every event that does not
  follow a conversation is given a topic; a scheduled run whose topics passed validation goes exactly to
  the topic its entry names, by number or by alias, and never silently to the default; and the topic
  attached to a card for a recipient is dropped unless the recipient is the supergroup that owns it.
\<close>

theorem autonomous_messages_routed:
  assumes "default_topic_id cfg = Some d"
    and "validateCronTopicAliases (Some cfg) schedule = []"
  shows "(\<forall>e. \<not> follows_conversation e \<longrightarrow> resolveOutboundTopic (Some cfg) e \<noteq> None) \<and>
    (\<forall>cron topic. (cron, topic) \<in> set schedule \<longrightarrow>
       resolveOutboundTopic (Some cfg) (CronEvent topic) =
         (case topic of None \<Rightarrow> Some d
          | Some (TopicNumber n) \<Rightarrow> Some n
          | Some (TopicAlias a) \<Rightarrow> map_of (topic_aliases cfg) a)) \<and>
    (\<forall>recipient chat e t. topicForRecipient recipient (resolveOutboundTopic (Some cfg) e) chat = Some t
       \<longrightarrow> chat = Some recipient)"
proof (intro conjI allI impI)
  fix e
  assume "\<not> follows_conversation e"
  then show "resolveOutboundTopic (Some cfg) e \<noteq> None"
    using supergroup_has_topic [OF assms(1)] by fastforce
next
  fix cron topic
  assume "(cron, topic) \<in> set schedule"
  then show "resolveOutboundTopic (Some cfg) (CronEvent topic) =
      (case topic of None \<Rightarrow> Some d | Some (TopicNumber n) \<Rightarrow> Some n
       | Some (TopicAlias a) \<Rightarrow> map_of (topic_aliases cfg) a)"
    using assms(1) validated_entry [OF assms(2)]
    by (fastforce simp: routing split: option.splits topic_ref.splits)
next
  fix recipient chat e t
  assume "topicForRecipient recipient (resolveOutboundTopic (Some cfg) e) chat = Some t"
  then show "chat = Some recipient"
    by (auto simp: topicForRecipient_def split: option.splits if_splits)
qed

theorem autonomous_messages_routed_witness:
  "resolveOutboundTopic (Some \<lparr>default_topic_id = Some 1, topic_aliases = [(''planning'', 44)]\<rparr>)
     (CronEvent (Some (TopicAlias ''planning''))) = Some 44"
proof -
  let ?cfg = "\<lparr>default_topic_id = Some 1, topic_aliases = [(''planning'', 44)]\<rparr> :: topic_config"
  let ?schedule = "[(''0 8 * * *'', Some (TopicAlias ''planning'')), (''0 9 * * *'', None)]"
  have "validateCronTopicAliases (Some ?cfg) ?schedule = []" by simp
  then have "\<forall>cron topic. (cron, topic) \<in> set ?schedule \<longrightarrow>
       resolveOutboundTopic (Some ?cfg) (CronEvent topic) =
         (case topic of None \<Rightarrow> Some 1
          | Some (TopicNumber n) \<Rightarrow> Some n
          | Some (TopicAlias a) \<Rightarrow> map_of (topic_aliases ?cfg) a)"
    using autonomous_messages_routed [of ?cfg 1 ?schedule] by simp
  then show ?thesis by simp
qed

end
