(* ===== verification/Spec2Isabelle.thy ===== *)
theory Spec2Isabelle
  imports Approval_Server Delivery_Machine Obligation_Ledger Inbound_Spool Delivery_Confirm Flood_Breaker Broker_Safety Broker_Mint Auth_Pins Send_Gate_Edits Config_Layers Edit_Fuse_Promises Obligation_Sweep
    Cron_Schedule Topic_Router
begin

text \<open>
  Verification of switchroom, a supervisor for a fleet of chat agents. Each agent runs in a container and
  talks to its operator over Telegram through a gateway; host-side daemons hold what an agent must not
  have. The development covers the parts that decide: who approved what, who may read which secret,
  and which message is delivered, retried or reported. File names below are relative to the
  repository root, which the sources are staged in.

  \<^bold>\<open>Parts and how they interact.\<close>
  The approval kernel records requests (nonces), operator decisions and an audit trail in SQLite. The kernel
  server exposes it on one socket per agent and a read-only operator socket. The vault broker keeps the
  secrets decrypted in memory, answers \<open>get\<close>, \<open>list\<close> and \<open>put\<close> by the identity of the socket (the ACL cascade of
  the configuration) or by capability token (the grant store), mints and revokes those tokens, and runs
  its own copy of the approval operations. The gateway's delivery machine decides for every inbound message
  whether the agent gets it now or it is buffered; the pending buffer holds and redelivers what
  was not delivered, its spool keeps it on disk, and the confirmation queue re-sends what no turn has picked
  up; the flood breaker remembers how long Telegram wants silence; the obligation
  ledger and the idle sweep over it make sure a message that was delivered is also answered. The auth broker chooses which subscription account
  serves which agent and rolls the fleet off an account that ran out of quota. Everything the gateway sends to
  Telegram passes the send gate, which paces it and holds it back while Telegram wants silence, and below it the edit
  fuse, the last ceiling, which every call of the bot crosses whether it was gated or not. Beside these stand two deciders without state: the
  cron functions, which judge the schedules agents ask for and find the runs a restart missed, and the topic router, which
  says which forum topic a message the gateway sends on its own account goes to.

  \<^bold>\<open>Theories.\<close>
  \<^item> \<open>Prelude\<close>: JavaScript strings and maps, SQL statements on tables as lists of rows, the contracts shared by the
    components as locales: \<open>event_system\<close> (an invariant every operation keeps), \<open>kill_switch\<close> (a dead state
    nothing revives), \<open>single_use\<close> (a token that works once), \<open>budget\<close> (what is spent is covered by what is allowed), each interpreted on the
    components below.
  \<^item> \<open>Approval_Kernel\<close> (\<open>src/vault/approvals/kernel.ts\<close> and \<open>schema.ts\<close>): one definition per exported function on the
    record \<open>kernel_db\<close> of the three tables. Nonces and \<open>allow_once\<close> decisions work at most once under every
    interleaving, revocation is final, grants are sound, the tables stay well formed and the audit log
    is append-only; the canonical text of an approver set decides set equality.
  \<^item> \<open>Approval_Server\<close> (\<open>src/vault/approvals/kernel-server.ts\<close>, \<open>peercred\<close> identity, \<open>protocol.ts\<close>): the request handlers behind
    identity, ACL and rate caps, and the framing of a connection. Agents are isolated from each other in
    what they change and what they see, the operator socket is read-only, the caps hold at all times.
  \<^item> \<open>Delivery_Machine\<close> (\<open>telegram-plugin/gateway/inbound-delivery-machine.ts\<close>): the transition function and the
    effects it returns. Every inbound is delivered or persisted, never both; executing the effects gives
    exactly the machine's state; the tick and the turn-end sweep are characterised exactly.
  \<^item> \<open>Obligation_Ledger\<close> (\<open>telegram-plugin/gateway/obligation-ledger.ts\<close>): the ledger with its snapshot. A restart is
    transparent, grace windows are respected and bounded, a decision picks an open obligation.
  \<^item> \<open>Obligation_Sweep\<close> (\<open>telegram-plugin/gateway/obligation-wiring.ts\<close> with \<open>represent-guard.ts\<close>, \<open>escalation-staleness.ts\<close>,
    \<open>answer-route-overrides.ts\<close>, \<open>escalation-drive.ts\<close> and the dispatcher of \<open>captured-answer-resume.ts\<close>): the gateway
    around the ledger as one state, the desk, with receipts, replies, turn ends, sweeps, settled sends and restarts as events in
    any order. An obligation is only closed for a listed reason, re-presentations and nudges keep a budget per opening, and
    with a silent agent the ladder ends within a stated number of sweeps.
  \<^item> \<open>Inbound_Buffer\<close> (\<open>telegram-plugin/gateway/pending-inbound-buffer.ts\<close> and its notifier): capped queues with
    eviction, merging, redelivery and the microtasks of the drop notifier. Nothing is lost or duplicated on
    redelivery, approval outcomes are evicted last and reported when they are.
  \<^item> \<open>Inbound_Spool\<close> (\<open>telegram-plugin/gateway/inbound-spool.ts\<close>): identities of messages, the append-only file with torn and
    failed appends, replay, compaction and the escalation sweep. Reading the file back gives the live entries,
    a recorded message survives until it is acknowledged whatever appends tear or fail after it, and the notices of one
    chat keep their distance as long as what was appended reached the file.
  \<^item> \<open>Delivery_Confirm\<close> (\<open>telegram-plugin/gateway/inbound-delivery-confirm.ts\<close>): the deliver-until-acknowledged queue and the
    scanner of the envelope a turn starts with.
  \<^item> \<open>Flood_Breaker\<close> (\<open>telegram-plugin/flood-circuit-breaker.ts\<close>): the marker and the scoped windows of Telegram flood
    waits with their files and probes. Writes go into the file in place and may fail or tear.
    An open scoped window is never shortened or forgotten, failed writes included; the flood wait of the marker is kept unless a
    write of it fails or is interrupted half-way; damaged files read as closed.
  \<^item> \<open>Vault_Grants\<close> (\<open>src/vault/grants.ts\<close>): minting, validation cut at its \<open>await\<close>, the bcrypt memo, revocation.
  \<^item> \<open>Vault_Acl\<close> (\<open>src/vault/broker/acl.ts\<close>, \<open>peercred.ts\<close>, \<open>admin-only-keys.ts\<close>): the decision an agent's socket
    and configuration give, as one formula of map overrides. Only MCP servers and standing secrets are read from all three
    layers; schedules, the bot token and opt-outs are read from the agent's own layer, as in the code.
  \<^item> \<open>Vault_Broker\<close>, \<open>Broker_Grant_Ops\<close> (\<open>src/vault/broker/server.ts\<close>, \<open>vault-refresh.ts\<close>, \<open>reap-token-file.ts\<close>): every
    operation of \<open>_handleRequest\<close> on the record \<open>broker\<close>, in two halves where it awaits a token validation.
  \<^item> \<open>Broker_System\<close>, \<open>Broker_Safety\<close>, \<open>Broker_Mint\<close>: the broker as an event system with suspended requests and other
    processes writing the vault file. Every release is justified by the identity or a grant read unrevoked, and audited unless the
    audit log fails open; the in-memory copy is invisible to requests while the file opens under the held
    passphrase; a write that does not wait for a token loses nothing of the file, one that waits can (a run shows it);
    what is put is what is read; a lock holds until the next unlock; every minted grant was authorised; the operator requirement blocks every
    posture mint.
  \<^item> \<open>Account_Eligibility\<close>, \<open>Usage_Ledger\<close> (\<open>src/auth/broker/account-eligibility.ts\<close>, \<open>consumer-quota-sensor.ts\<close>,
    \<open>model-tier-quota.ts\<close>, \<open>usage-ledger.ts\<close>): the verdict on a chat account from its mark and its last probe, the
    soft-avoid latch with its hysteresis, tier walls, and the ring of usage samples with the choice by headroom.
  \<^item> \<open>Auth_Broker\<close>, \<open>Auth_Rolls\<close> (\<open>src/auth/broker/server.ts\<close>): who is bound to which account and who is served which one;
    marks, probes, rolls, promotions, throttle marks, corroboration, mirrors and the administrative operations,
    cut at their awaits into the events of \<open>auth_step\<close>, with the reload of the configuration on SIGHUP.
  \<^item> \<open>Auth_Safety\<close>, \<open>Auth_Pins\<close>: exclusive and strict pins hold for every answer in every reachable state, and for every mirror but
    those a reload left behind; a consumer or a chat agent without a strict pin is served an exhausted account only
    as a last resort, and without a threshold the selection is the plain failover.
  \<^item> \<open>Send_Gate\<close> (\<open>telegram-plugin/send-gate.ts\<close>): token buckets, the priority classes, the serialised critical
    section, flood windows and the driver of each message's edits; every await of the code is a resumption point,
    and \<open>gate_step\<close> interleaves calls, resumptions, answers, windows and the clock in any order.
  \<^item> \<open>Send_Gate_Safety\<close>, \<open>Send_Gate_Edits\<close>: every bucket keeps its rate and burst, a flood window of a bucket's scope silences it, the
    newest edit of a message is never lost and the sends of one message state keep the edit floor; three
    runs show where a message's state is lost.
  \<^item> \<open>Edit_Fuse\<close> (\<open>telegram-plugin/edit-flood-fuse.ts\<close>): the rolling windows below the gate and the tiers a call crosses, with
    waiting, superseding, dropping and late release, the fair lanes of cosmetic edits and the tightening after a flood, cut at
    every await; \<open>fuse_step\<close> interleaves arrivals, resumptions, answers, the flood marker and the clock.
  \<^item> \<open>Edit_Fuse_Safety\<close>, \<open>Edit_Fuse_Pool\<close>, \<open>Edit_Fuse_Promises\<close>: the invariants of the calls and of the windows. Only edits and
    chat actions are dropped, each for a reason that leaves the screen right; no call is held beyond its deadline; the cosmetic edits of
    a chat in one window are bounded; a reply finds room behind every repaint; runs show a stale frame painting last and others.
  \<^item> \<open>Config_Merge\<close>, \<open>Config_Layers\<close> (\<open>src/config/merge.ts\<close>): the cascade from defaults over a profile to an agent, one rule per
    property on JSON objects. The most specific layer wins on the keys the cascade knows, restrictions accumulate, the deep
    merge is a merge of paths, and the vault broker's decision on the raw layers is its decision on the resolved configuration.
  \<^item> \<open>Cron_Schedule\<close> (\<open>src/agent-scheduler/replay.ts\<close>, \<open>src/scheduler/cron-gap.ts\<close>, \<open>violatesMinInterval\<close>): the matcher
    of cron expressions and the gap behind the five-minute floor. The gap is the least distance of two minutes of the
    expansion, the matcher stays inside the expansion, and a schedule that passes the floor keeps it under the matcher.
  \<^item> \<open>Topic_Router\<close> (\<open>src/telegram/topic-router.ts\<close>): the topic of a message that is no plain reply. In a supergroup every
    autonomous message has a topic, a validated schedule entry its own.

  \<^bold>\<open>How the model reads the code.\<close>
  A request reads the clock once. Identifiers, secrets and salts drawn at random are arguments. A \<open>SELECT\<close> without a
  total order returns ties in \<open>rowid\<close> order (a stable sort). Strings are lists of code points below 256, on which NFC
  normalisation is the identity; an arrow or dash outside that range in a message is written in ASCII. JSON
  columns are the lists they encode. Effects (messages, audit rows, file writes) are values or logs. The vault
  file is its stamp, the passphrase it opens under and its content, and every write gives it a new
  stamp; a call that can fail for a reason outside the process takes that outcome from the record \<open>env\<close>. An
  exception that escapes a handler is the response \<open>None\<close>. Keys of \<open>Object.prototype\<close> are not special. bcrypt,
  SHA-256 and the wire decoder are parameters; the hashing of a new token is awaited by the code and one step here. The
  microtask loop of the buffer runs with fuel \<open>task_debt\<close>, which is proved to be enough.

  \<^bold>\<open>Not modelled.\<close>
  Socket binding and file permissions, Telegram and HTTP clients, Docker control, template rendering, encryption
  and file locking are calls into libraries and the operating system. The scheduler's registration, dispatch and polls and the
  ledger of rejected sends are left out. Of the auth broker, the OAuth refresh, the Google and
  Microsoft accounts and the reports are left out; the effect of a refresh on the mirrors is an event. Of the send
  gate and the edit fuse, the configuration read from the environment and the statistics are left out, and of the fuse the eviction
  of idle windows.
\<close>

end
